(* ===== verification/Prelude.thy ===== *)
theory Prelude
  imports Main "HOL-Library.Char_ord" "HOL-Library.List_Lexorder" "HOL-Library.Sublist"
begin

text \<open>
  Shared vocabulary of the development: results as sums, saturating \<open>u64\<close> arithmetic, the
  parts of Rust's string and collection library that the components use (\<open>BTreeMap\<close> as a
  strictly sorted association list, \<open>strip_prefix\<close>, \<open>split_once\<close>, stable sorting by a key),
  and the generic lemmas about them.  The collections below gather the facts that the
  component theories hand to the simplifier.
\<close>

named_theorems bt_simps \<open>lookup after an operation on an ordered map\<close>
named_theorems store_simps \<open>one operation of an object store\<close>
named_theorems wal_simps \<open>field updates of manifests and log entries\<close>

section \<open>Results\<close>

text \<open>\<open>Result<'a, 'e>\<close> is \<open>'e + 'a\<close>; \<open>?\<close> is \<^term>\<open>rbind\<close>.\<close>

type_synonym ('e, 'a) result = "'e + 'a"

abbreviation Err :: "'e \<Rightarrow> ('e, 'a) result" where "Err \<equiv> Inl"
abbreviation Ok :: "'a \<Rightarrow> ('e, 'a) result" where "Ok \<equiv> Inr"

definition rbind :: "('e, 'a) result \<Rightarrow> ('a \<Rightarrow> ('e, 'b) result) \<Rightarrow> ('e, 'b) result" where
  "rbind r f = (case r of Inl e \<Rightarrow> Inl e | Inr x \<Rightarrow> f x)"

lemma rbind_simps [simp]: "rbind (Inl e) f = Inl e" "rbind (Inr x) f = f x"
  by (simp_all add: rbind_def)

lemma rbind_eq_Inr_iff [simp]: "rbind r f = Inr y \<longleftrightarrow> (\<exists>x. r = Inr x \<and> f x = Inr y)"
  by (cases r) simp_all

text \<open>\<open>?\<close> in a computation that threads a state.\<close>

definition sbind ::
  "('e, 'a) result \<times> 's \<Rightarrow> ('a \<Rightarrow> 's \<Rightarrow> ('e, 'b) result \<times> 's) \<Rightarrow> ('e, 'b) result \<times> 's" where
  "sbind m f = (case m of (Inl e, s) \<Rightarrow> (Inl e, s) | (Inr x, s) \<Rightarrow> f x s)"

lemma sbind_simps [simp]: "sbind (Inl e, s) f = (Inl e, s)" "sbind (Inr x, s) f = f x s"
  by (simp_all add: sbind_def)

lemma sbind_eq_Inr_iff:
  "sbind m f = (Inr y, s') \<longleftrightarrow> (\<exists>x s. m = (Inr x, s) \<and> f x s = (Inr y, s'))"
  by (auto simp: sbind_def split: prod.splits sum.splits)

fun is_ok :: "('e, 'a) result \<Rightarrow> bool" where
  "is_ok (Inl _) = False"
| "is_ok (Inr _) = True"

lemma is_ok_iff: "is_ok r \<longleftrightarrow> (\<exists>x. r = Inr x)"
  by (cases r) simp_all

section \<open>Unsigned 64-bit arithmetic that saturates\<close>

definition u64_max :: nat where
  "u64_max = 18446744073709551615"

definition sat_add :: "nat \<Rightarrow> nat \<Rightarrow> nat" where
  "sat_add a b = min (a + b) u64_max"

lemma sat_add_exact: "a + b \<le> u64_max \<Longrightarrow> sat_add a b = a + b"
  by (simp add: sat_add_def)

lemma sat_add_le: "sat_add a b \<le> a + b"
  by (simp add: sat_add_def)

section \<open>Ordered maps\<close>

text \<open>
  \<open>BTreeMap<K, V>\<close>: an association list whose keys are strictly ascending.  Iteration is the
  list itself.
\<close>

type_synonym ('k, 'v) btree = "('k \<times> 'v) list"

definition bt_ok :: "('k::linorder, 'v) btree \<Rightarrow> bool" where
  "bt_ok m \<longleftrightarrow> sorted_wrt (<) (map fst m)"

definition bt_get :: "('k, 'v) btree \<Rightarrow> 'k \<Rightarrow> 'v option" where
  "bt_get m k = map_of m k"

fun bt_insert :: "'k::linorder \<Rightarrow> 'v \<Rightarrow> ('k, 'v) btree \<Rightarrow> ('k, 'v) btree" where
  "bt_insert k v [] = [(k, v)]"
| "bt_insert k v ((k', v') # m) =
     (if k < k' then (k, v) # (k', v') # m
      else if k = k' then (k, v) # m
      else (k', v') # bt_insert k v m)"

definition bt_remove :: "'k \<Rightarrow> ('k, 'v) btree \<Rightarrow> ('k, 'v) btree" where
  "bt_remove k m = filter (\<lambda>e. fst e \<noteq> k) m"

text \<open>\<open>iter.collect()\<close> into a map: later entries win.\<close>

definition bt_of :: "('k::linorder \<times> 'v) list \<Rightarrow> ('k, 'v) btree" where
  "bt_of xs = foldl (\<lambda>m e. bt_insert (fst e) (snd e) m) [] xs"

lemma bt_ok_Nil [simp]: "bt_ok []"
  by (simp add: bt_ok_def)

lemma bt_ok_Cons: "bt_ok ((k, v) # m) \<longleftrightarrow> (\<forall>k' \<in> fst ` set m. k < k') \<and> bt_ok m"
  by (simp add: bt_ok_def)

lemma bt_get_Nil [simp]: "bt_get [] k = None"
  by (simp add: bt_get_def)

lemma bt_get_Cons: "bt_get ((k', v) # m) k = (if k' = k then Some v else bt_get m k)"
  by (simp add: bt_get_def)

lemma bt_get_None_iff: "bt_get m k = None \<longleftrightarrow> k \<notin> fst ` set m"
  by (simp add: bt_get_def map_of_eq_None_iff)

lemma bt_get_SomeD: "bt_get m k = Some v \<Longrightarrow> (k, v) \<in> set m"
  by (simp add: bt_get_def map_of_SomeD)

lemma bt_distinct: "bt_ok m \<Longrightarrow> distinct (map fst m)"
  by (simp add: bt_ok_def strict_sorted_iff)

lemma bt_get_iff: "bt_ok m \<Longrightarrow> bt_get m k = Some v \<longleftrightarrow> (k, v) \<in> set m"
  by (simp add: bt_get_def bt_distinct)

lemma keys_bt_insert [simp]: "fst ` set (bt_insert k v m) = insert k (fst ` set m)"
  by (induction m rule: bt_insert.induct) auto

lemma bt_ok_insert [simp]: "bt_ok m \<Longrightarrow> bt_ok (bt_insert k v m)"
proof (induction k v m rule: bt_insert.induct)
  case (2 k v k' v' m)
  then show ?case by (auto simp: bt_ok_Cons)
qed (simp add: bt_ok_def)

lemma bt_get_insert [bt_simps, simp]:
  "bt_ok m \<Longrightarrow> bt_get (bt_insert k v m) k2 = (if k2 = k then Some v else bt_get m k2)"
proof (induction k v m rule: bt_insert.induct)
  case (2 k v k' v' m)
  then show ?case by (auto simp: bt_ok_Cons bt_get_Cons)
qed (simp add: bt_get_def)

lemma bt_ok_remove [simp]: "bt_ok m \<Longrightarrow> bt_ok (bt_remove k m)"
  unfolding bt_remove_def by (induction m) (auto simp: bt_ok_Cons split: prod.splits)

lemma bt_get_remove [bt_simps, simp]:
  "bt_get (bt_remove k m) k2 = (if k2 = k then None else bt_get m k2)"
  unfolding bt_remove_def by (induction m) (auto simp: bt_get_Cons split: prod.splits)

lemma keys_bt_remove [simp]: "fst ` set (bt_remove k m) = fst ` set m - {k}"
  unfolding bt_remove_def by force

lemma bt_ok_foldl_insert:
  "bt_ok m \<Longrightarrow> bt_ok (foldl (\<lambda>m e. bt_insert (fst e) (snd e) m) m xs)"
  by (induction xs arbitrary: m) auto

lemma bt_ok_of [simp]: "bt_ok (bt_of xs)"
  by (simp add: bt_of_def bt_ok_foldl_insert)

lemma bt_get_foldl_insert:
  assumes "bt_ok m"
  shows "bt_get (foldl (\<lambda>m e. bt_insert (fst e) (snd e) m) m xs) k =
    (case map_of (rev xs) k of Some v \<Rightarrow> Some v | None \<Rightarrow> bt_get m k)"
  using assms
proof (induction xs arbitrary: m)
  case Nil
  then show ?case by simp
next
  case (Cons e xs)
  then show ?case by (cases e) (auto simp: map_add_def split: option.splits)
qed

lemma bt_get_of: "bt_get (bt_of xs) k = map_of (rev xs) k"
  by (simp add: bt_of_def bt_get_foldl_insert split: option.splits)

lemma bt_insert_append:
  assumes "\<forall>k' \<in> fst ` set m. k' < k"
  shows "bt_insert k v m = m @ [(k, v)]"
  using assms by (induction m) auto

lemma bt_of_sorted: "bt_ok m \<Longrightarrow> bt_of m = m"
proof (induction m rule: rev_induct)
  case Nil
  then show ?case by (simp add: bt_of_def)
next
  case (snoc e m)
  then have m: "bt_of m = m" and lt: "\<forall>k' \<in> fst ` set m. k' < fst e"
    by (auto simp: bt_ok_def sorted_wrt_append)
  have "bt_of (m @ [e]) = bt_insert (fst e) (snd e) (bt_of m)"
    by (simp add: bt_of_def)
  then show ?case using bt_insert_append [OF lt] by (simp add: m)
qed

lemma bt_ext:
  assumes "bt_ok m" "bt_ok n" "\<And>k. bt_get m k = bt_get n k"
  shows "m = n"
proof -
  have eq: "set m = set n"
    using assms by (auto simp: set_eq_iff simp flip: bt_get_iff)
  have "map fst m = map fst n"
    using assms(1,2) eq by (intro strict_sorted_equal) (auto simp: bt_ok_def)
  moreover have "map snd m = map snd n"
  proof -
    have m: "map snd m = map (\<lambda>k. the (bt_get m k)) (map fst m)"
      using assms(1) by (auto simp: bt_get_iff intro!: map_cong)
         (metis bt_get_iff option.sel prod.collapse)
    have n: "map snd n = map (\<lambda>k. the (bt_get n k)) (map fst n)"
      using assms(2) by (auto simp: bt_get_iff intro!: map_cong)
         (metis bt_get_iff option.sel prod.collapse)
    show ?thesis using m n calculation assms(3) by simp
  qed
  ultimately show ?thesis
    by (metis zip_map_fst_snd)
qed

section \<open>Strings\<close>

definition starts_with :: "string \<Rightarrow> string \<Rightarrow> bool" where
  "starts_with s p \<longleftrightarrow> prefix p s"

definition ends_with :: "string \<Rightarrow> string \<Rightarrow> bool" where
  "ends_with s p \<longleftrightarrow> suffix p s"

definition contains_str :: "string \<Rightarrow> string \<Rightarrow> bool" where
  "contains_str s p \<longleftrightarrow> sublist p s"

definition strip_prefix :: "string \<Rightarrow> string \<Rightarrow> string option" where
  "strip_prefix p s = (if prefix p s then Some (drop (length p) s) else None)"

definition strip_suffix :: "string \<Rightarrow> string \<Rightarrow> string option" where
  "strip_suffix p s = (if suffix p s then Some (take (length s - length p) s) else None)"

text \<open>\<open>split_once(c)\<close> at the first occurrence of a character.\<close>

fun split_once :: "char \<Rightarrow> string \<Rightarrow> (string \<times> string) option" where
  "split_once c [] = None"
| "split_once c (x # xs) =
     (if x = c then Some ([], xs)
      else map_option (\<lambda>(a, b). (x # a, b)) (split_once c xs))"

definition rsplit_once :: "char \<Rightarrow> string \<Rightarrow> (string \<times> string) option" where
  "rsplit_once c s = map_option (\<lambda>(a, b). (rev b, rev a)) (split_once c (rev s))"

lemma strip_prefix_append [simp]: "strip_prefix p (p @ s) = Some s"
  by (simp add: strip_prefix_def)

lemma strip_prefix_Some_iff: "strip_prefix p s = Some t \<longleftrightarrow> s = p @ t"
  by (auto simp: strip_prefix_def prefix_def)

lemma strip_suffix_append [simp]: "strip_suffix p (s @ p) = Some s"
  by (simp add: strip_suffix_def suffix_def)

lemma strip_suffix_Some_iff: "strip_suffix p s = Some t \<longleftrightarrow> s = t @ p"
  by (auto simp: strip_suffix_def suffix_def)

lemma split_once_append [simp]: "c \<notin> set a \<Longrightarrow> split_once c (a @ c # b) = Some (a, b)"
  by (induction a) auto

lemma split_once_SomeD: "split_once c s = Some (a, b) \<Longrightarrow> s = a @ c # b \<and> c \<notin> set a"
  by (induction s arbitrary: a) (auto split: if_splits)

lemma split_once_None_iff: "split_once c s = None \<longleftrightarrow> c \<notin> set s"
  by (induction s) auto

text \<open>Keys under a prefix form an interval of the lexicographic order.\<close>

lemma less_prefix_trans:
  assumes "p < k" "\<not> prefix p k" "k < (k' :: string)"
  shows "\<not> prefix p k'"
proof
  assume "prefix p k'"
  then obtain z where z: "k' = p @ z" by (auto simp: prefix_def)
  show False
    using assms unfolding z
  proof (induction p arbitrary: k)
    case Nil
    then show ?case by simp
  next
    case (Cons a p)
    then show ?case by (cases k) auto
  qed
qed

lemma prefix_not_less: "prefix p k \<Longrightarrow> \<not> k < (p :: string)"
proof (induction p arbitrary: k)
  case Nil
  then show ?case by simp
next
  case (Cons a p)
  then show ?case by (cases k) auto
qed

section \<open>Stable sorting by a key\<close>

text \<open>\<open>sort_by_key\<close> is stable, as is \<^term>\<open>sort_key\<close>.\<close>

lemma sort_key_snoc_max:
  assumes "sorted (map f xs)" "\<forall>x \<in> set xs. f x \<le> f y"
  shows "sort_key f (xs @ [y]) = xs @ [y]"
  using assms by (intro sort_key_id_if_sorted) (auto simp: sorted_append)

lemma sort_key_append_max:
  assumes "sorted (map f xs)" "sorted (map f ys)"
    "\<forall>x \<in> set xs. \<forall>y \<in> set ys. f x \<le> f y"
  shows "sort_key f (xs @ ys) = xs @ ys"
  using assms by (intro sort_key_id_if_sorted) (auto simp: sorted_append)

section \<open>Lists and options\<close>

lemma foldl_concat: "foldl f z (concat xss) = foldl (foldl f) z xss"
  by (induction xss arbitrary: z) auto

lemma map_option_case_eq_Some:
  "(case x of None \<Rightarrow> None | Some y \<Rightarrow> f y) = Some z \<longleftrightarrow> (\<exists>y. x = Some y \<and> f y = Some z)"
  by (cases x) auto

section \<open>Decimal numbers\<close>

definition digit :: "nat \<Rightarrow> char" where
  "digit d = ''0123456789'' ! d"

fun dec :: "nat \<Rightarrow> string" where
  "dec n = (if n < 10 then [digit n] else dec (n div 10) @ [digit (n mod 10)])"

declare dec.simps [simp del]

definition dec_int :: "int \<Rightarrow> string" where
  "dec_int i = (if i < 0 then CHR ''-'' # dec (nat (- i)) else dec (nat i))"

definition dec_val :: "string \<Rightarrow> nat" where
  "dec_val s = foldl (\<lambda>n c. 10 * n + (of_char c - 48)) 0 s"

lemma digit_val:
  assumes "d < 10"
  shows "of_char (digit d) - 48 = d"
proof -
  have "d = 0 \<or> d = 1 \<or> d = 2 \<or> d = 3 \<or> d = 4 \<or> d = 5 \<or> d = 6 \<or> d = 7 \<or> d = 8 \<or> d = 9"
    using assms by presburger
  then show ?thesis by (elim disjE) (simp_all add: digit_def)
qed

lemma digit_char: "d < 10 \<Longrightarrow> digit d \<in> set ''0123456789''"
  unfolding digit_def by (rule nth_mem) simp

lemma dec_val_dec: "dec_val (dec n) = n"
proof (induction n rule: dec.induct)
  case (1 n)
  show ?case
  proof (cases "n < 10")
    case True
    then show ?thesis by (simp add: dec.simps [of n] dec_val_def digit_val)
  next
    case False
    have "dec n = dec (n div 10) @ [digit (n mod 10)]" using False by (simp add: dec.simps [of n])
    then have "dec_val (dec n) = 10 * dec_val (dec (n div 10)) + n mod 10"
      using digit_val [of "n mod 10"] by (simp add: dec_val_def)
    then show ?thesis using 1 [OF False] by simp
  qed
qed

lemma dec_inj: "dec m = dec n \<Longrightarrow> m = n"
  by (metis dec_val_dec)

lemma dec_digits: "dec n \<noteq> [] \<and> set (dec n) \<subseteq> set ''0123456789''"
proof (induction n rule: dec.induct)
  case (1 n)
  then show ?case using digit_char [of n] digit_char [of "n mod 10"] by (simp add: dec.simps [of n])
qed

lemma dec_int_pos: "0 \<le> i \<Longrightarrow> dec_int i = dec (nat i)"
  by (simp add: dec_int_def)

text \<open>\<open>str::parse\<close> for unsigned and signed integers: an optional sign, at least one digit, in range.\<close>

definition is_digit :: "char \<Rightarrow> bool" where
  "is_digit c \<longleftrightarrow> c \<in> set ''0123456789''"

definition parse_digits :: "string \<Rightarrow> nat option" where
  "parse_digits s = (if s \<noteq> [] \<and> list_all is_digit s then Some (dec_val s) else None)"

definition parse_unsigned :: "nat \<Rightarrow> string \<Rightarrow> nat option" where
  "parse_unsigned limit s =
     (case parse_digits (case s of c # r \<Rightarrow> if c = CHR ''+'' then r else s | [] \<Rightarrow> []) of
        None \<Rightarrow> None | Some n \<Rightarrow> if n < limit then Some n else None)"

definition parse_signed :: "nat \<Rightarrow> string \<Rightarrow> int option" where
  "parse_signed limit s =
     (case s of
        c # r \<Rightarrow>
          (if c = CHR ''-''
           then (case parse_digits r of None \<Rightarrow> None | Some n \<Rightarrow> if n \<le> limit then Some (- int n) else None)
           else map_option int (parse_unsigned limit s))
      | [] \<Rightarrow> None)"

lemma dec_is_digits: "list_all is_digit (dec n)" "dec n \<noteq> []"
proof -
  show "dec n \<noteq> []" using dec_digits [of n] by blast
  show "list_all is_digit (dec n)"
    unfolding list_all_iff is_digit_def using dec_digits [of n] by blast
qed

lemma parse_digits_dec [simp]: "parse_digits (dec n) = Some n"
  by (simp add: parse_digits_def dec_is_digits dec_val_dec)

lemma digit_not_sign:
  assumes "is_digit c"
  shows "c \<noteq> CHR ''+'' \<and> c \<noteq> CHR ''-''"
  using assms unfolding is_digit_def by (simp, elim disjE) simp_all

lemma dec_Cons: "\<exists>c r. dec n = c # r \<and> c \<noteq> CHR ''+'' \<and> c \<noteq> CHR ''-''"
proof (cases "dec n")
  case Nil
  then show ?thesis using dec_is_digits(2) [of n] by simp
next
  case (Cons c r)
  then have "is_digit c" using dec_is_digits(1) [of n] by simp
  then show ?thesis using digit_not_sign Cons by blast
qed

lemma parse_unsigned_dec [simp]:
  assumes "n < limit"
  shows "parse_unsigned limit (dec n) = Some n"
proof -
  obtain c r where d: "dec n = c # r" and c: "c \<noteq> CHR ''+''" using dec_Cons by blast
  have "parse_digits (c # r) = Some n" using parse_digits_dec [of n] unfolding d .
  then show ?thesis unfolding parse_unsigned_def d using c assms by simp
qed

lemma parse_signed_dec_int [simp]:
  assumes "- int limit \<le> i" "i < int limit"
  shows "parse_signed limit (dec_int i) = Some i"
proof (cases "i < 0")
  case True
  then show ?thesis using assms by (simp add: parse_signed_def dec_int_def)
next
  case False
  then have "parse_signed limit (dec (nat i)) = map_option int (parse_unsigned limit (dec (nat i)))"
  proof -
    obtain c r where d: "dec (nat i) = c # r" and c: "c \<noteq> CHR ''-''" using dec_Cons by blast
    show ?thesis unfolding parse_signed_def d using c by simp
  qed
  then show ?thesis using False assms by (simp add: dec_int_def nat_less_iff)
qed

end
