(* ===== verification/Object_Store.thy ===== *)
theory Object_Store
  imports Prelude
begin

text \<open>
  The object store of \<^verbatim>\<open>crates/walgit-store\<close>: the trait of \<^verbatim>\<open>lib.rs\<close> as a record of
  operations over a state, the in-memory backend of \<^verbatim>\<open>memory.rs\<close> (the repository's reference
  semantics), the prefixing wrapper, and the helpers of \<^verbatim>\<open>util.rs\<close>.  An object body is a list over
  an arbitrary alphabet \<open>'a\<close>; the program's instance is bytes.

  The locale \<open>object_store\<close> states what every client relies on: reads and conditional writes take
  effect atomically at one instant between call and return, other clients may act before that
  instant, and a version identifies a body.  It is interpreted on the in-memory backend, on the
  in-memory backend shared with other clients, and on prefixed views of both.

  Versions are opaque in the source (compared for equality only).  The model uses the counter
  value itself; the source prints it in decimal.  The counter is unbounded here, so the
  development speaks of runs of fewer than \<open>2 ^ 64\<close> writes.
\<close>

section \<open>Data\<close>

type_synonym version = nat

record object_meta =
  meta_key :: string
  meta_size :: nat
  meta_version :: version

record get_options =
  if_none_match :: "version option"
  if_match :: "version option"
  byte_range :: "(nat \<times> nat) option"

definition default_get :: get_options where
  "default_get = \<lparr>if_none_match = None, if_match = None, byte_range = None\<rparr>"

datatype put_mode = Overwrite | Create | Update version

datatype store_error =
    NotFound string
  | PreconditionFailed string "version option"
  | Retryable string
  | InvalidArgument string
  | OtherError string

fun is_not_found :: "store_error \<Rightarrow> bool" where
  "is_not_found (NotFound _) = True"
| "is_not_found _ = False"

fun is_precondition_failed :: "store_error \<Rightarrow> bool" where
  "is_precondition_failed (PreconditionFailed _ _) = True"
| "is_precondition_failed _ = False"

fun is_retryable :: "store_error \<Rightarrow> bool" where
  "is_retryable (Retryable _) = True"
| "is_retryable _ = False"

text \<open>A body read as a stream of chunks, each possibly a failure.\<close>

type_synonym 'a byte_stream = "(store_error, 'a list) result list"

datatype 'a get_result =
    NotModified version
  | Object object_meta "'a byte_stream"

datatype 'a put_body =
    Bytes "'a list"
  | Stream nat "'a byte_stream"
  | File "(store_error, 'a list) result"

section \<open>Helpers of \<^verbatim>\<open>util.rs\<close>\<close>

text \<open>
  \<open>collect\<close> parks the first chunk and opens a buffer only when a second one arrives: the two
  variables \<open>first\<close> and \<open>buf\<close> of the loop are the two accumulators.
\<close>

fun collect_loop :: "'a list option \<Rightarrow> 'a list option \<Rightarrow> 'a byte_stream
    \<Rightarrow> (store_error, 'a list) result" where
  "collect_loop first buf [] =
     (case (first, buf) of
        (Some f, None) \<Rightarrow> Ok f
      | (_, Some b) \<Rightarrow> Ok b
      | (None, None) \<Rightarrow> Ok [])"
| "collect_loop first buf (Inl e # cs) = Err e"
| "collect_loop first buf (Inr chunk # cs) =
     (case buf of
        Some b \<Rightarrow> collect_loop first (Some (b @ chunk)) cs
      | None \<Rightarrow> (case first of
            None \<Rightarrow> collect_loop (Some chunk) None cs
          | Some f \<Rightarrow> collect_loop None (Some (f @ chunk)) cs))"

definition collect :: "'a byte_stream \<Rightarrow> (store_error, 'a list) result" where
  "collect body = collect_loop None None body"

definition once :: "'a list \<Rightarrow> 'a byte_stream" where
  "once b = [Inr b]"

text \<open>
  \<open>retry\<close> runs an operation again while it fails with a retryable error, at most
  \<open>max_attempts\<close> times.  The operation is a state transformer; the first argument counts the
  attempts left after the current one, which is \<open>max_attempts - attempt - 1\<close> in the source (with
  \<open>max_attempts = 0\<close> the operation still runs once).
\<close>

fun retry_loop :: "nat \<Rightarrow> ('s \<Rightarrow> (store_error, 'b) result \<times> 's) \<Rightarrow> 's
    \<Rightarrow> (store_error, 'b) result \<times> 's" where
  "retry_loop left op s =
     (case op s of
        (Inl e, s') \<Rightarrow>
          (if is_retryable e then
             (case left of 0 \<Rightarrow> (Inl e, s') | Suc n \<Rightarrow> retry_loop n op s')
           else (Inl e, s'))
      | (Inr x, s') \<Rightarrow> (Inr x, s'))"

declare retry_loop.simps [simp del]

definition retry :: "nat \<Rightarrow> ('s \<Rightarrow> (store_error, 'b) result \<times> 's) \<Rightarrow> 's
    \<Rightarrow> (store_error, 'b) result \<times> 's" where
  "retry max_attempts op s = retry_loop (max_attempts - 1) op s"

text \<open>Percent-encoding of an object key; the alphabet is that of bytes.\<close>

definition unreserved :: "char \<Rightarrow> bool" where
  "unreserved c \<longleftrightarrow>
     (CHR ''A'' \<le> c \<and> c \<le> CHR ''Z'') \<or> (CHR ''a'' \<le> c \<and> c \<le> CHR ''z'') \<or>
     (CHR ''0'' \<le> c \<and> c \<le> CHR ''9'') \<or> c \<in> set ''-_.~/''"

definition hex_upper :: "nat \<Rightarrow> char" where
  "hex_upper n = ''0123456789ABCDEF'' ! (n mod 16)"

definition encode_byte :: "char \<Rightarrow> string" where
  "encode_byte c =
     (if unreserved c then [c]
      else [CHR ''%'', hex_upper (of_char c div 16), hex_upper (of_char c)])"

definition encode_path :: "string \<Rightarrow> string" where
  "encode_path key = concat (map encode_byte key)"

section \<open>The trait\<close>

text \<open>
  A \<open>dyn ObjectStore\<close>: its operations, as functions of a state.
\<close>

record ('s, 'a) store_ops =
  os_get :: "'s \<Rightarrow> string \<Rightarrow> get_options \<Rightarrow> (store_error, 'a get_result) result \<times> 's"
  os_head :: "'s \<Rightarrow> string \<Rightarrow> (store_error, object_meta option) result \<times> 's"
  os_put :: "'s \<Rightarrow> string \<Rightarrow> 'a put_body \<Rightarrow> put_mode \<Rightarrow> (store_error, object_meta) result \<times> 's"
  os_delete :: "'s \<Rightarrow> string \<Rightarrow> version option \<Rightarrow> (store_error, unit) result \<times> 's"
  os_list :: "'s \<Rightarrow> string \<Rightarrow> string option \<Rightarrow> (store_error, object_meta list) result \<times> 's"
  os_list_prefixes :: "'s \<Rightarrow> string \<Rightarrow> (store_error, string list) result \<times> 's"
  os_compose :: "'s \<Rightarrow> string \<Rightarrow> string list \<Rightarrow> put_mode \<Rightarrow> (store_error, object_meta) result \<times> 's"

text \<open>\<open>GetResult::bytes\<close> on a 64-bit host (\<open>usize\<close> holds every object size).\<close>

fun get_result_bytes ::
  "'a get_result \<Rightarrow> (store_error, (object_meta \<times> 'a list) option) result" where
  "get_result_bytes (NotModified _) = Ok None"
| "get_result_bytes (Object meta body) = rbind (collect body) (\<lambda>b. Ok (Some (meta, b)))"

definition get_bytes ::
  "('s, 'a) store_ops \<Rightarrow> 's \<Rightarrow> string
     \<Rightarrow> (store_error, (object_meta \<times> 'a list) option) result \<times> 's" where
  "get_bytes ops s key =
     (case os_get ops s key default_get of
        (Inr r, s') \<Rightarrow> (get_result_bytes r, s')
      | (Inl e, s') \<Rightarrow> (if is_not_found e then Ok None else Err e, s'))"

definition get_if_changed ::
  "('s, 'a) store_ops \<Rightarrow> 's \<Rightarrow> string \<Rightarrow> version
     \<Rightarrow> (store_error, (object_meta \<times> 'a list) option) result \<times> 's" where
  "get_if_changed ops s key known =
     (case os_get ops s key (default_get\<lparr>if_none_match := Some known\<rparr>) of
        (Inr r, s') \<Rightarrow> (get_result_bytes r, s')
      | (Inl e, s') \<Rightarrow> (Err e, s'))"

definition put_bytes ::
  "('s, 'a) store_ops \<Rightarrow> 's \<Rightarrow> string \<Rightarrow> 'a list \<Rightarrow> put_mode
     \<Rightarrow> (store_error, object_meta) result \<times> 's" where
  "put_bytes ops s key body mode = os_put ops s key (Bytes body) mode"

definition exists_key ::
  "('s, 'a) store_ops \<Rightarrow> 's \<Rightarrow> string \<Rightarrow> (store_error, bool) result \<times> 's" where
  "exists_key ops s key =
     (case os_head ops s key of
        (r, s') \<Rightarrow> (rbind r (\<lambda>m. Ok (m \<noteq> None)), s'))"

section \<open>The in-memory backend\<close>

record 'a mem_store =
  objects :: "(string, version \<times> 'a list) btree"
  counter :: nat

definition mem_empty :: "'a mem_store" where
  "mem_empty = \<lparr>objects = [], counter = 0\<rparr>"

definition next_version :: "'a mem_store \<Rightarrow> version \<times> 'a mem_store" where
  "next_version s = (Suc (counter s), s\<lparr>counter := Suc (counter s)\<rparr>)"

fun body_bytes :: "'a put_body \<Rightarrow> (store_error, 'a list) result" where
  "body_bytes (Bytes b) = Ok b"
| "body_bytes (Stream len cs) = collect cs"
| "body_bytes (File r) = r"

text \<open>The half-open byte range, both ends clamped to the object.\<close>

definition slice_range :: "'a list \<Rightarrow> (nat \<times> nat) option \<Rightarrow> (store_error, 'a list) result" where
  "slice_range data r =
     (case r of
        None \<Rightarrow> Ok data
      | Some (a, b) \<Rightarrow>
          (let size = length data; start = min a size; stop = min b size
           in if start > stop then Err (InvalidArgument ''bad range'')
              else Ok (take (stop - start) (drop start data))))"

definition mem_get ::
  "'a mem_store \<Rightarrow> string \<Rightarrow> get_options \<Rightarrow> (store_error, 'a get_result) result \<times> 'a mem_store" where
  "mem_get s key opts =
     (case bt_get (objects s) key of
        None \<Rightarrow> Err (NotFound key)
      | Some (version, data) \<Rightarrow>
          (if (case if_match opts of Some m \<Rightarrow> m \<noteq> version | None \<Rightarrow> False)
           then Err (PreconditionFailed key (Some version))
           else if if_none_match opts = Some version then Ok (NotModified version)
           else rbind (slice_range data (byte_range opts)) (\<lambda>slice.
             Ok (Object \<lparr>meta_key = key, meta_size = length data, meta_version = version\<rparr>
                   (once slice)))), s)"

definition mem_head ::
  "'a mem_store \<Rightarrow> string \<Rightarrow> (store_error, object_meta option) result \<times> 'a mem_store" where
  "mem_head s key =
     (Ok (map_option (\<lambda>(v, d). \<lparr>meta_key = key, meta_size = length d, meta_version = v\<rparr>)
        (bt_get (objects s) key)), s)"

text \<open>The precondition of a put: what the \<open>match\<close> on mode and current version lets through.\<close>

fun put_check :: "string \<Rightarrow> put_mode \<Rightarrow> version option \<Rightarrow> (store_error, unit) result" where
  "put_check key Overwrite _ = Ok ()"
| "put_check key Create None = Ok ()"
| "put_check key Create (Some v) = Err (PreconditionFailed key (Some v))"
| "put_check key (Update want) (Some v) =
     (if want = v then Ok () else Err (PreconditionFailed key (Some v)))"
| "put_check key (Update want) None = Err (PreconditionFailed key None)"

definition mem_put ::
  "'a mem_store \<Rightarrow> string \<Rightarrow> 'a put_body \<Rightarrow> put_mode
     \<Rightarrow> (store_error, object_meta) result \<times> 'a mem_store" where
  "mem_put s key body mode =
     (case body_bytes body of
        Inl e \<Rightarrow> (Err e, s)
      | Inr data \<Rightarrow>
          (case put_check key mode (map_option fst (bt_get (objects s) key)) of
             Inl e \<Rightarrow> (Err e, s)
           | Inr _ \<Rightarrow>
               (let (v, s') = next_version s
                in (Ok \<lparr>meta_key = key, meta_size = length data, meta_version = v\<rparr>,
                    s'\<lparr>objects := bt_insert key (v, data) (objects s')\<rparr>))))"

fun concat_sources ::
  "(string, version \<times> 'a list) btree \<Rightarrow> string list \<Rightarrow> (store_error, 'a list) result" where
  "concat_sources m [] = Ok []"
| "concat_sources m (src # rest) =
     (case bt_get m src of
        None \<Rightarrow> Err (NotFound src)
      | Some (_, data) \<Rightarrow> rbind (concat_sources m rest) (\<lambda>tl. Ok (data @ tl)))"

definition mem_compose ::
  "'a mem_store \<Rightarrow> string \<Rightarrow> string list \<Rightarrow> put_mode
     \<Rightarrow> (store_error, object_meta) result \<times> 'a mem_store" where
  "mem_compose s dest sources mode =
     (case concat_sources (objects s) sources of
        Inl e \<Rightarrow> (Err e, s)
      | Inr buf \<Rightarrow> mem_put s dest (Bytes buf) mode)"

definition mem_delete ::
  "'a mem_store \<Rightarrow> string \<Rightarrow> version option \<Rightarrow> (store_error, unit) result \<times> 'a mem_store" where
  "mem_delete s key if_version =
     (case (bt_get (objects s) key, if_version) of
        (None, None) \<Rightarrow> (Ok (), s)
      | (None, Some _) \<Rightarrow> (Err (NotFound key), s)
      | (Some (v, _), Some want) \<Rightarrow>
          (if v \<noteq> want then (Err (PreconditionFailed key (Some v)), s)
           else (Ok (), s\<lparr>objects := bt_remove key (objects s)\<rparr>))
      | (Some _, None) \<Rightarrow> (Ok (), s\<lparr>objects := bt_remove key (objects s)\<rparr>))"

text \<open>\<open>range(prefix..).take_while(starts_with)\<close> over the ordered map.\<close>

definition keys_under :: "(string, 'v) btree \<Rightarrow> string \<Rightarrow> (string, 'v) btree" where
  "keys_under m p =
     takeWhile (\<lambda>e. starts_with (fst e) p) (dropWhile (\<lambda>e. fst e < p) m)"

definition mem_list ::
  "'a mem_store \<Rightarrow> string \<Rightarrow> string option
     \<Rightarrow> (store_error, object_meta list) result \<times> 'a mem_store" where
  "mem_list s p start_after =
     (Ok (map (\<lambda>(k, v, d). \<lparr>meta_key = k, meta_size = length d, meta_version = v\<rparr>)
        (filter (\<lambda>e. case start_after of None \<Rightarrow> True | Some a \<Rightarrow> fst e > a)
           (keys_under (objects s) p))), s)"

definition dir_below :: "string \<Rightarrow> string \<Rightarrow> string option" where
  "dir_below p k =
     Option.bind (strip_prefix p k) (\<lambda>rest.
       map_option (\<lambda>(head, _). p @ head @ ''/'') (split_once (CHR ''/'') rest))"

definition mem_list_prefixes ::
  "'a mem_store \<Rightarrow> string \<Rightarrow> (store_error, string list) result \<times> 'a mem_store" where
  "mem_list_prefixes s p =
     (Ok (remdups_adj (List.map_filter (\<lambda>e. dir_below p (fst e)) (keys_under (objects s) p))), s)"

definition mem_ops :: "('a mem_store, 'a) store_ops" where
  "mem_ops = \<lparr>os_get = mem_get, os_head = mem_head, os_put = mem_put, os_delete = mem_delete,
     os_list = mem_list, os_list_prefixes = mem_list_prefixes, os_compose = mem_compose\<rparr>"

section \<open>The prefixing wrapper\<close>

definition full_key :: "string \<Rightarrow> string \<Rightarrow> string" where
  "full_key p key = p @ key"

definition strip_meta :: "string \<Rightarrow> object_meta \<Rightarrow> object_meta" where
  "strip_meta p m =
     (case strip_prefix p (meta_key m) of Some rest \<Rightarrow> m\<lparr>meta_key := rest\<rparr> | None \<Rightarrow> m)"

definition prefixed_get :: "string \<Rightarrow> ('s, 'a) store_ops \<Rightarrow> 's \<Rightarrow> string \<Rightarrow> get_options
    \<Rightarrow> (store_error, 'a get_result) result \<times> 's" where
  "prefixed_get p ops s key opts =
     (case os_get ops s (full_key p key) opts of
        (Inr (Object meta body), s') \<Rightarrow> (Ok (Object (strip_meta p meta) body), s')
      | (Inr (NotModified v), s') \<Rightarrow> (Ok (NotModified v), s')
      | (Inl e, s') \<Rightarrow> (Err e, s'))"

definition prefixed_head :: "string \<Rightarrow> ('s, 'a) store_ops \<Rightarrow> 's \<Rightarrow> string
    \<Rightarrow> (store_error, object_meta option) result \<times> 's" where
  "prefixed_head p ops s key =
     (case os_head ops s (full_key p key) of
        (r, s') \<Rightarrow> (rbind r (\<lambda>m. Ok (map_option (strip_meta p) m)), s'))"

definition prefixed_put :: "string \<Rightarrow> ('s, 'a) store_ops \<Rightarrow> 's \<Rightarrow> string \<Rightarrow> 'a put_body \<Rightarrow> put_mode
    \<Rightarrow> (store_error, object_meta) result \<times> 's" where
  "prefixed_put p ops s key body mode =
     (case os_put ops s (full_key p key) body mode of
        (r, s') \<Rightarrow> (rbind r (\<lambda>m. Ok (strip_meta p m)), s'))"

definition prefixed_delete :: "string \<Rightarrow> ('s, 'a) store_ops \<Rightarrow> 's \<Rightarrow> string \<Rightarrow> version option
    \<Rightarrow> (store_error, unit) result \<times> 's" where
  "prefixed_delete p ops s key if_version = os_delete ops s (full_key p key) if_version"

definition prefixed_list :: "string \<Rightarrow> ('s, 'a) store_ops \<Rightarrow> 's \<Rightarrow> string \<Rightarrow> string option
    \<Rightarrow> (store_error, object_meta list) result \<times> 's" where
  "prefixed_list p ops s pre start_after =
     (case os_list ops s (full_key p pre) (map_option (full_key p) start_after) of
        (r, s') \<Rightarrow> (rbind r (\<lambda>ms. Ok (map (strip_meta p) ms)), s'))"

definition prefixed_list_prefixes :: "string \<Rightarrow> ('s, 'a) store_ops \<Rightarrow> 's \<Rightarrow> string
    \<Rightarrow> (store_error, string list) result \<times> 's" where
  "prefixed_list_prefixes p ops s pre =
     (case os_list_prefixes ops s (full_key p pre) of
        (r, s') \<Rightarrow> (rbind r (\<lambda>ks. Ok (map (\<lambda>k. case strip_prefix p k of
             Some rest \<Rightarrow> rest | None \<Rightarrow> k) ks)), s'))"

definition prefixed_compose :: "string \<Rightarrow> ('s, 'a) store_ops \<Rightarrow> 's \<Rightarrow> string \<Rightarrow> string list \<Rightarrow> put_mode
    \<Rightarrow> (store_error, object_meta) result \<times> 's" where
  "prefixed_compose p ops s dest sources mode =
     (case os_compose ops s (full_key p dest) (map (full_key p) sources) mode of
        (r, s') \<Rightarrow> (rbind r (\<lambda>m. Ok (strip_meta p m)), s'))"

definition prefixed :: "string \<Rightarrow> ('s, 'a) store_ops \<Rightarrow> ('s, 'a) store_ops" where
  "prefixed p ops = \<lparr>os_get = prefixed_get p ops, os_head = prefixed_head p ops,
     os_put = prefixed_put p ops, os_delete = prefixed_delete p ops,
     os_list = prefixed_list p ops, os_list_prefixes = prefixed_list_prefixes p ops,
     os_compose = prefixed_compose p ops\<rparr>"


section \<open>Lemmas about the helpers\<close>

lemma collect_loop_buf:
  "collect_loop first (Some b) cs = rbind (collect cs) (\<lambda>r. Ok (b @ r))"
  and collect_loop_first:
  "collect_loop (Some f) None cs = rbind (collect cs) (\<lambda>r. Ok (f @ r))"
proof -
  have *: "collect_loop fst (Some b) cs = rbind (collect_loop None (Some []) cs) (\<lambda>r. Ok (b @ r))"
    for fst b and cs :: "'a byte_stream"
  proof (induction cs arbitrary: fst b)
    case Nil
    then show ?case by (auto split: option.splits)
  next
    case (Cons c cs)
    show ?case
    proof (cases c)
      case (Inr x)
      show ?thesis using Cons.IH [of fst "b @ x"] Cons.IH [of None x] Inr
        by (simp add: rbind_def split: sum.splits)
    qed simp
  qed
  have **: "collect_loop (Some f) None cs = rbind (collect_loop None None cs) (\<lambda>r. Ok (f @ r))
      \<and> collect_loop None (Some []) cs = collect_loop None None cs"
    for f and cs :: "'a byte_stream"
  proof (induction cs arbitrary: f)
    case Nil
    then show ?case by simp
  next
    case (Cons c cs)
    show ?case
    proof (cases c)
      case (Inr x)
      show ?thesis using Cons.IH [of x] Inr *[of None "f @ x" cs] *[of None x cs]
        by (simp add: rbind_def split: sum.splits)
    qed simp
  qed
  show "collect_loop first (Some b) cs = rbind (collect cs) (\<lambda>r. Ok (b @ r))"
    using * ** unfolding collect_def by metis
  show "collect_loop (Some f) None cs = rbind (collect cs) (\<lambda>r. Ok (f @ r))"
    using ** unfolding collect_def by metis
qed

lemma collect_Nil [simp]: "collect [] = Ok []"
  by (simp add: collect_def)

lemma collect_Cons [simp]:
  "collect (Inl e # cs) = Err e"
  "collect (Inr c # cs) = rbind (collect cs) (\<lambda>r. Ok (c @ r))"
  by (simp_all add: collect_def collect_loop_first [unfolded collect_def])

lemma collect_once [simp]: "collect (once b) = Ok b"
  by (simp add: once_def)

lemma collect_all_ok: "collect (map Inr cs) = Ok (concat cs)"
  by (induction cs) auto

lemma put_check_Ok_iff:
  "put_check k m cur = Ok () \<longleftrightarrow>
     (case m of Overwrite \<Rightarrow> True | Create \<Rightarrow> cur = None | Update v \<Rightarrow> cur = Some v)"
  by (cases m; cases cur) auto

lemma put_check_Err: "put_check k m cur = Err e \<Longrightarrow> e = PreconditionFailed k cur"
  by (cases m; cases cur) (auto split: if_splits)

lemma put_check_cases:
  "put_check k m cur = Ok () \<or> put_check k m cur = Err (PreconditionFailed k cur)"
  by (cases m; cases cur) auto

section \<open>The interface\<close>

text \<open>
  What a client of the trait may rely on, over a bucket it shares with others and a link that can
  fail.  \<open>view\<close> is the bucket's contents, \<open>evolves s s'\<close> says that \<open>s'\<close> is a later state of the
  same bucket, \<open>issued s v\<close> that the version \<open>v\<close> has been handed out.  A write takes effect, if at
  all, at one instant \<open>s0\<close> between call and return, under the precondition of its mode and with a
  version never issued before; \<open>PreconditionFailed\<close> means that it did not; any other error leaves
  the outcome open.  A version issued before \<open>s\<close> and found later still names the body it named.
\<close>

definition applied_put ::
  "('s \<Rightarrow> string \<Rightarrow> (version \<times> 'a list) option) \<Rightarrow> ('s \<Rightarrow> version \<Rightarrow> bool)
     \<Rightarrow> 's \<Rightarrow> string \<Rightarrow> 'a list \<Rightarrow> version \<Rightarrow> 's \<Rightarrow> bool" where
  "applied_put view issued s0 k b v s' \<longleftrightarrow>
     view s' = (view s0)(k := Some (v, b)) \<and> \<not> issued s0 v \<and> issued s' v"

locale object_store =
  fixes ops :: "('s, 'a) store_ops"
    and view :: "'s \<Rightarrow> string \<Rightarrow> (version \<times> 'a list) option"
    and invar :: "'s \<Rightarrow> bool"
    and evolves :: "'s \<Rightarrow> 's \<Rightarrow> bool"
    and issued :: "'s \<Rightarrow> version \<Rightarrow> bool"
  assumes evolves_refl: "evolves s s"
    and evolves_trans: "evolves s s' \<Longrightarrow> evolves s' s'' \<Longrightarrow> evolves s s''"
    and issued_view: "invar s \<Longrightarrow> view s k = Some (v, d) \<Longrightarrow> issued s v"
    and issued_mono: "evolves s s' \<Longrightarrow> issued s v \<Longrightarrow> issued s' v"
    and stable: "evolves s s' \<Longrightarrow> issued s v \<Longrightarrow> view s' k = Some (v, d)
      \<Longrightarrow> view s k = Some (v, d)"
    and get_law: "invar s \<Longrightarrow> os_get ops s k opts = (rg, s') \<Longrightarrow>
      invar s' \<and> evolves s s' \<and>
      (case rg of
         Inl e \<Rightarrow> is_not_found e \<longrightarrow> view s' k = None
       | Inr (NotModified v) \<Rightarrow> if_none_match opts = Some v
       | Inr (Object meta body) \<Rightarrow>
           (\<exists>d. view s' k = Some (meta_version meta, d) \<and>
             (\<forall>b. byte_range opts = None \<longrightarrow> collect body = Ok b \<longrightarrow> b = d)))"
    and head_law: "invar s \<Longrightarrow> os_head ops s k = (rh, s') \<Longrightarrow>
      invar s' \<and> evolves s s' \<and>
      (case rh of
         Inl e \<Rightarrow> True
       | Inr None \<Rightarrow> view s' k = None
       | Inr (Some meta) \<Rightarrow> (\<exists>d. view s' k = Some (meta_version meta, d)))"
    and put_law: "invar s \<Longrightarrow> os_put ops s k (Bytes b) m = (rp, s') \<Longrightarrow>
      invar s' \<and> evolves s s' \<and>
      (\<exists>s0. invar s0 \<and> evolves s s0 \<and> evolves s0 s' \<and>
        (case rp of
           Inr meta \<Rightarrow> put_check k m (map_option fst (view s0 k)) = Ok () \<and>
             applied_put view issued s0 k b (meta_version meta) s'
         | Inl e \<Rightarrow> view s' = view s0 \<or>
             (\<not> is_precondition_failed e \<and> put_check k m (map_option fst (view s0 k)) = Ok () \<and>
              (\<exists>v. applied_put view issued s0 k b v s'))))"
    and delete_law: "invar s \<Longrightarrow> os_delete ops s k (Some v) = (rd, s') \<Longrightarrow>
      invar s' \<and> evolves s s' \<and>
      (\<exists>s0. invar s0 \<and> evolves s s0 \<and> evolves s0 s' \<and>
        (case rd of
           Inr _ \<Rightarrow> (\<exists>d. view s0 k = Some (v, d)) \<and> view s' = (view s0)(k := None)
         | Inl e \<Rightarrow> view s' = view s0 \<or>
             (\<not> is_precondition_failed e \<and> \<not> is_not_found e \<and>
              (\<exists>d. view s0 k = Some (v, d)) \<and> view s' = (view s0)(k := None))))"
begin

lemma get_bytes_law:
  assumes "invar s" "get_bytes ops s k = (r, s')"
  shows "invar s' \<and> evolves s s' \<and>
    (case r of
       Inl e \<Rightarrow> True
     | Inr None \<Rightarrow> view s' k = None
     | Inr (Some (meta, b)) \<Rightarrow> view s' k = Some (meta_version meta, b))"
proof -
  obtain g t where g: "os_get ops s k default_get = (g, t)" by (cases "os_get ops s k default_get")
  note L = get_law [OF assms(1) g]
  show ?thesis
  proof (cases g)
    case (Inl e)
    then show ?thesis using assms(2) L g by (auto simp: get_bytes_def)
  next
    case (Inr x)
    then show ?thesis
      using assms(2) L g
      by (cases x) (auto simp: get_bytes_def default_get_def rbind_def split: sum.splits)
  qed
qed

lemma get_if_changed_law:
  assumes "invar s" "get_if_changed ops s k known = (r, s')"
  shows "invar s' \<and> evolves s s' \<and>
    (case r of
       Inl e \<Rightarrow> True
     | Inr None \<Rightarrow> True
     | Inr (Some (meta, b)) \<Rightarrow> view s' k = Some (meta_version meta, b))"
proof -
  obtain g t where g: "os_get ops s k (default_get\<lparr>if_none_match := Some known\<rparr>) = (g, t)"
    by (cases "os_get ops s k (default_get\<lparr>if_none_match := Some known\<rparr>)")
  note L = get_law [OF assms(1) g]
  show ?thesis
  proof (cases g)
    case (Inl e)
    then show ?thesis using assms(2) L g by (auto simp: get_if_changed_def)
  next
    case (Inr x)
    then show ?thesis
      using assms(2) L g
      by (cases x) (auto simp: get_if_changed_def default_get_def rbind_def split: sum.splits)
  qed
qed

text \<open>A body found under the version a client read earlier is the body it read.\<close>

lemma version_identifies_body:
  assumes "invar s" "evolves s s'" "view s k = Some (v, d)" "view s' k = Some (v, d')"
  shows "d' = d"
  using stable [OF assms(2) issued_view [OF assms(1,3)] assms(4)] assms(3) by simp

text \<open>A version that has been replaced never comes back.\<close>

lemma replaced_version_is_gone:
  assumes "evolves s s'" "issued s v" "view s k \<noteq> Some (v, d)"
  shows "view s' k \<noteq> Some (v, d)"
  using stable [OF assms(1,2)] assms(3) by blast

end

text \<open>A prefixed view of a store satisfies the interface its inner store satisfies.\<close>

lemma prefixed_sel [simp]:
  "os_get (prefixed p ops) = prefixed_get p ops"
  "os_head (prefixed p ops) = prefixed_head p ops"
  "os_put (prefixed p ops) = prefixed_put p ops"
  "os_delete (prefixed p ops) = prefixed_delete p ops"
  "os_list (prefixed p ops) = prefixed_list p ops"
  "os_list_prefixes (prefixed p ops) = prefixed_list_prefixes p ops"
  "os_compose (prefixed p ops) = prefixed_compose p ops"
  by (simp_all add: prefixed_def)

lemma strip_meta_version [simp]: "meta_version (strip_meta p m) = meta_version m"
  by (simp add: strip_meta_def split: option.splits)

lemma strip_meta_size [simp]: "meta_size (strip_meta p m) = meta_size m"
  by (simp add: strip_meta_def split: option.splits)

lemma view_upd_prefix: "(\<lambda>k. (f(p @ k' := x)) (p @ k)) = (\<lambda>k. f (p @ k))(k' := x)"
  by auto

lemma prefixed_object_store:
  assumes "object_store ops view invar evolves issued"
  shows "object_store (prefixed p ops) (\<lambda>s k. view s (p @ k)) invar evolves issued"
proof -
  note L = object_store.evolves_refl [OF assms] object_store.evolves_trans [OF assms]
    object_store.issued_view [OF assms] object_store.issued_mono [OF assms]
    object_store.stable [OF assms]
  show ?thesis
  proof (unfold_locales, goal_cases)
    case 1 show ?case by (rule L(1))
  next
    case 2 then show ?case by (rule L(2))
  next
    case 3 then show ?case by (rule L(3))
  next
    case 4 then show ?case by (rule L(4))
  next
    case 5 then show ?case by (rule L(5))
  next
    case (6 s k opts r s')
    obtain g t where g: "os_get ops s (p @ k) opts = (g, t)" by (cases "os_get ops s (p @ k) opts")
    show ?case
      using object_store.get_law [OF assms 6(1) g] 6(2) g
      by (auto simp: prefixed_get_def full_key_def split: sum.splits get_result.splits)
  next
    case (7 s k r s')
    obtain h t where h: "os_head ops s (p @ k) = (h, t)" by (cases "os_head ops s (p @ k)")
    show ?case
      using object_store.head_law [OF assms 7(1) h] 7(2) h
      by (auto simp: prefixed_head_def full_key_def rbind_def split: sum.splits option.splits)
  next
    case (8 s k b m r s')
    obtain g t where g: "os_put ops s (p @ k) (Bytes b) m = (g, t)"
      by (cases "os_put ops s (p @ k) (Bytes b) m")
    have chk: "put_check (p @ k) m c = Ok () \<longleftrightarrow> put_check k m c = Ok ()" for c
      by (simp add: put_check_Ok_iff)
    have r: "s' = t" "r = rbind g (\<lambda>m. Ok (strip_meta p m))"
      using 8(2) g by (auto simp: prefixed_put_def full_key_def)
    from object_store.put_law [OF assms 8(1) g] obtain s0 where
      s0: "invar s'" "evolves s s'" "invar s0" "evolves s s0" "evolves s0 s'"
        "case g of Inr meta \<Rightarrow> put_check (p @ k) m (map_option fst (view s0 (p @ k))) = Ok () \<and>
             applied_put view issued s0 (p @ k) b (meta_version meta) s'
         | Inl e \<Rightarrow> view s' = view s0 \<or>
             (\<not> is_precondition_failed e \<and>
              put_check (p @ k) m (map_option fst (view s0 (p @ k))) = Ok () \<and>
              (\<exists>v. applied_put view issued s0 (p @ k) b v s'))"
      unfolding r by auto
    have ap: "applied_put view issued s0 (p @ k) b v s' \<Longrightarrow>
        applied_put (\<lambda>s k. view s (p @ k)) issued s0 k b v s'" for v
      by (auto simp: applied_put_def fun_eq_iff)
    show ?case using s0 r ap
      by (auto simp: chk split: sum.splits intro!: exI [of _ s0])
  next
    case (9 s k v r s')
    have g: "os_delete ops s (p @ k) (Some v) = (r, s')"
      using 9(2) by (simp add: prefixed_delete_def full_key_def)
    show ?case
      using object_store.delete_law [OF assms 9(1) g]
      by (cases r) (force simp: fun_eq_iff)+
  qed
qed

section \<open>The in-memory backend satisfies the interface\<close>

definition mem_inv :: "'a mem_store \<Rightarrow> bool" where
  "mem_inv s \<longleftrightarrow> bt_ok (objects s) \<and> (\<forall>(k, v, d) \<in> set (objects s). v \<le> counter s)"

definition mem_view :: "'a mem_store \<Rightarrow> string \<Rightarrow> (version \<times> 'a list) option" where
  "mem_view s = bt_get (objects s)"

definition mem_issued :: "'a mem_store \<Rightarrow> version \<Rightarrow> bool" where
  "mem_issued s v \<longleftrightarrow> v \<le> counter s"

definition mem_evolves :: "'a mem_store \<Rightarrow> 'a mem_store \<Rightarrow> bool" where
  "mem_evolves s s' \<longleftrightarrow> counter s \<le> counter s' \<and>
     (\<forall>k v d. mem_view s' k = Some (v, d) \<longrightarrow> v \<le> counter s \<longrightarrow> mem_view s k = Some (v, d))"

lemma mem_ops_sel [simp]:
  "os_get mem_ops = mem_get" "os_head mem_ops = mem_head" "os_put mem_ops = mem_put"
  "os_delete mem_ops = mem_delete" "os_list mem_ops = mem_list"
  "os_list_prefixes mem_ops = mem_list_prefixes" "os_compose mem_ops = mem_compose"
  by (simp_all add: mem_ops_def)

lemma mem_inv_empty [simp]: "mem_inv mem_empty"
  by (simp add: mem_inv_def mem_empty_def)

lemma mem_inv_view: "mem_inv s \<Longrightarrow> mem_view s k = Some (v, d) \<Longrightarrow> v \<le> counter s"
  by (auto simp: mem_inv_def mem_view_def dest: bt_get_SomeD)

lemma mem_evolves_refl [simp]: "mem_evolves s s"
  by (simp add: mem_evolves_def)

lemma mem_evolves_trans: "mem_evolves s s' \<Longrightarrow> mem_evolves s' s'' \<Longrightarrow> mem_evolves s s''"
  unfolding mem_evolves_def by (meson le_trans)

lemma mem_get_state [simp]: "snd (mem_get s k opts) = s"
  by (simp add: mem_get_def)

lemma mem_head_state [simp]: "snd (mem_head s k) = s"
  by (simp add: mem_head_def)

text \<open>The three outcomes of a put, with everything they say about the state.\<close>

lemma mem_put_cases:
  assumes "mem_put s k body m = (r, s')" "body_bytes body = Ok b"
  obtains (applied) "put_check k m (map_option fst (mem_view s k)) = Ok ()"
      "r = Ok \<lparr>meta_key = k, meta_size = length b, meta_version = Suc (counter s)\<rparr>"
      "s' = \<lparr>objects = bt_insert k (Suc (counter s), b) (objects s), counter = Suc (counter s)\<rparr>"
    | (refused) "put_check k m (map_option fst (mem_view s k)) \<noteq> Ok ()"
      "r = Err (PreconditionFailed k (map_option fst (mem_view s k)))" "s' = s"
  using assms put_check_cases [of k m "map_option fst (mem_view s k)"]
  by (cases s) (auto simp: mem_put_def next_version_def mem_view_def Let_def split: sum.splits)

lemma mem_put_evolves:
  assumes "mem_inv s" "mem_put s k body m = (r, s')"
  shows "mem_inv s' \<and> mem_evolves s s'"
proof (cases "body_bytes body")
  case (Inl e)
  then show ?thesis using assms by (simp add: mem_put_def)
next
  case (Inr b)
  from assms(2) Inr show ?thesis
  proof (cases rule: mem_put_cases)
    case applied
    have ok: "bt_ok (objects s)" and le: "\<And>k v d. (k, v, d) \<in> set (objects s) \<Longrightarrow> v \<le> counter s"
      using assms(1) by (auto simp: mem_inv_def)
    have mem: "(k', v, d) \<in> set (objects s') \<Longrightarrow> v \<le> Suc (counter s)" for k' v d
    proof -
      assume "(k', v, d) \<in> set (objects s')"
      moreover have "bt_ok (objects s')" using ok applied by simp
      ultimately have "bt_get (objects s') k' = Some (v, d)"
        by (simp only: bt_get_iff)
      then show ?thesis
        using ok applied le by (auto split: if_splits dest!: bt_get_SomeD intro: le_SucI)
    qed
    have "mem_inv s'" using ok applied mem by (auto simp: mem_inv_def)
    moreover have "mem_evolves s s'"
      using ok applied by (auto simp: mem_evolves_def mem_view_def)
    ultimately show ?thesis by simp
  qed (use assms in simp)
qed

lemma mem_delete_evolves:
  assumes "mem_inv s" "mem_delete s k iv = (r, s')"
  shows "mem_inv s' \<and> mem_evolves s s'"
  using assms
  by (auto simp: mem_delete_def mem_inv_def mem_evolves_def mem_view_def bt_remove_def
        [symmetric] split: option.splits if_splits prod.splits)
     (auto simp: bt_remove_def)

lemma mem_object_store: "object_store mem_ops mem_view mem_inv mem_evolves mem_issued"
proof (unfold_locales, goal_cases)
  case 1 show ?case by simp
next
  case 2 then show ?case by (rule mem_evolves_trans)
next
  case 3 then show ?case by (simp add: mem_issued_def mem_inv_view)
next
  case 4 then show ?case by (simp add: mem_issued_def mem_evolves_def)
next
  case 5 then show ?case by (simp add: mem_issued_def mem_evolves_def)
next
  case (6 s k opts r s')
  then show ?case
    by (auto simp: mem_get_def mem_view_def slice_range_def Let_def split: option.splits if_splits)
next
  case (7 s k r s')
  then show ?case
    by (auto simp: mem_head_def mem_view_def split: option.splits)
next
  case (8 s k b m r s')
  have put: "mem_put s k (Bytes b) m = (r, s')" using 8(2) by simp
  have ev: "mem_inv s' \<and> mem_evolves s s'" using mem_put_evolves [OF 8(1) put] .
  have ok: "bt_ok (objects s)" using 8(1) by (simp add: mem_inv_def)
  have bb: "body_bytes (Bytes b) = Ok b" by simp
  from put bb show ?case
  proof (cases rule: mem_put_cases)
    case applied
    have "applied_put mem_view mem_issued s k b (Suc (counter s)) s'"
      using ok applied by (auto simp: applied_put_def mem_view_def mem_issued_def fun_eq_iff)
    then show ?thesis using 8(1) ev applied by (auto intro!: exI [of _ s])
  next
    case refused
    then show ?thesis using 8(1) ev by (auto intro!: exI [of _ s])
  qed
next
  case (9 s k v r s')
  have del: "mem_delete s k (Some v) = (r, s')" using 9(2) by simp
  have ev: "mem_inv s' \<and> mem_evolves s s'" using mem_delete_evolves [OF 9(1) del] .
  show ?case using 9(1) ev del
    by (auto simp: mem_delete_def mem_view_def fun_eq_iff split: option.splits if_splits
        intro!: exI [of _ s])
qed

interpretation mem: object_store mem_ops mem_view mem_inv mem_evolves mem_issued
  by (rule mem_object_store)

interpretation pmem: object_store "prefixed p mem_ops" "\<lambda>s k. mem_view s (p @ k)" mem_inv
    mem_evolves mem_issued for p
  by (rule prefixed_object_store [OF mem_object_store])

section \<open>Properties of the in-memory backend\<close>

text \<open>Listing: walking the ordered map from the prefix on finds exactly the keys below it.\<close>

lemma takeWhile_under:
  assumes "bt_ok m" "\<forall>e \<in> set m. p \<le> fst e"
  shows "takeWhile (\<lambda>e. starts_with (fst e) p) m = filter (\<lambda>e. starts_with (fst e) p) m"
  using assms
proof (induction m)
  case Nil
  then show ?case by simp
next
  case (Cons e m)
  show ?case
  proof (cases "starts_with (fst e) p")
    case True
    then show ?thesis using Cons by (cases e) (simp add: bt_ok_Cons)
  next
    case False
    then have "p < fst e" using Cons.prems(2) by (auto simp: starts_with_def order.strict_iff_order)
    then have "\<not> starts_with (fst e') p" if "e' \<in> set m" for e'
      using False Cons.prems(1) that less_prefix_trans [of p "fst e" "fst e'"]
      by (cases e) (auto simp: starts_with_def bt_ok_Cons)
    then show ?thesis using False by (simp add: filter_empty_conv)
  qed
qed

lemma keys_under_filter:
  "bt_ok m \<Longrightarrow> keys_under m p = filter (\<lambda>e. starts_with (fst e) p) m"
proof (induction m)
  case Nil
  then show ?case by (simp add: keys_under_def)
next
  case (Cons e m)
  show ?case
  proof (cases "fst e < p")
    case True
    then have "\<not> starts_with (fst e) p" using prefix_not_less by (auto simp: starts_with_def)
    then show ?thesis using Cons True by (cases e) (simp add: bt_ok_Cons keys_under_def)
  next
    case False
    then have "\<forall>e' \<in> set (e # m). p \<le> fst e'"
      using Cons.prems by (cases e) (auto simp: bt_ok_Cons intro: less_imp_le order.strict_trans1)
    then show ?thesis
      using takeWhile_under [OF Cons.prems] False by (simp add: keys_under_def)
  qed
qed

text \<open>Percent-encoding is injective: distinct keys have distinct URLs.\<close>

lemma hex_upper_inj: "hex_upper a = hex_upper b \<Longrightarrow> a mod 16 = b mod 16"
proof -
  assume h: "hex_upper a = hex_upper b"
  have d: "distinct ''0123456789ABCDEF''" by simp
  have "length ''0123456789ABCDEF'' = 16" by simp
  then show ?thesis
    using h nth_eq_iff_index_eq [OF d, of "a mod 16" "b mod 16"] by (simp add: hex_upper_def)
qed

lemma encode_byte_prefix_free:
  assumes "encode_byte c @ x = encode_byte d @ y"
  shows "c = d \<and> x = y"
proof -
  have pct: "\<not> unreserved (CHR ''%'')" by (simp add: unreserved_def)
  show ?thesis
  proof (cases "unreserved c"; cases "unreserved d")
    assume "\<not> unreserved c" "\<not> unreserved d"
    then have h: "hex_upper (of_char c div 16) = hex_upper (of_char d div 16)"
      "hex_upper (of_char c) = hex_upper (of_char d)" "x = y"
      using assms by (auto simp: encode_byte_def)
    have lt: "(of_char e :: nat) div 16 < 16" for e
      by (simp add: less_mult_imp_div_less)
    have "(of_char c :: nat) = of_char d"
      using hex_upper_inj [OF h(1)] hex_upper_inj [OF h(2)] lt [of c] lt [of d]
      by (metis div_mult_mod_eq mod_less)
    then show ?thesis using h(3) by simp
  qed (use assms pct in \<open>auto simp: encode_byte_def\<close>)
qed

text \<open>
  \<open>retry\<close> returns the outcome of the first attempt that is not retryable, or of attempt
  \<open>max_attempts\<close>; \<open>op_state n\<close> is the state after \<open>n\<close> attempts.
\<close>

definition op_state :: "('s \<Rightarrow> (store_error, 'b) result \<times> 's) \<Rightarrow> nat \<Rightarrow> 's \<Rightarrow> 's" where
  "op_state op n s = ((\<lambda>s. snd (op s)) ^^ n) s"

definition gives_up :: "('s \<Rightarrow> (store_error, 'b) result \<times> 's) \<Rightarrow> 's \<Rightarrow> bool" where
  "gives_up op s \<longleftrightarrow> (case fst (op s) of Inl e \<Rightarrow> is_retryable e | Inr _ \<Rightarrow> False)"

lemma retry_loop_run:
  "\<exists>n \<le> left. retry_loop left op s = op (op_state op n s) \<and>
     (\<forall>i < n. gives_up op (op_state op i s)) \<and>
     (n < left \<longrightarrow> \<not> gives_up op (op_state op n s))"
proof (induction left arbitrary: s)
  case 0
  show ?case by (cases "op s") (auto simp: retry_loop.simps op_state_def split: sum.splits)
next
  case (Suc left)
  obtain r s' where op: "op s = (r, s')" by (cases "op s")
  show ?case
  proof (cases "gives_up op s")
    case False
    then have "retry_loop (Suc left) op s = op s"
      using op by (auto simp: retry_loop.simps gives_up_def split: sum.splits)
    then show ?thesis using False by (intro exI [of _ 0]) (simp add: op_state_def)
  next
    case True
    then have step: "retry_loop (Suc left) op s = retry_loop left op s'"
      using op by (subst retry_loop.simps) (auto simp: gives_up_def split: sum.splits)
    from Suc.IH [of s'] obtain n where n: "n \<le> left" "retry_loop left op s' = op (op_state op n s')"
      "\<forall>i < n. gives_up op (op_state op i s')" "n < left \<longrightarrow> \<not> gives_up op (op_state op n s')"
      by blast
    have shift: "op_state op (Suc i) s = op_state op i s'" for i
      using op by (simp add: op_state_def funpow_swap1 del: funpow.simps(2)
          add: funpow_Suc_right)
    have "\<forall>i < Suc n. gives_up op (op_state op i s)"
      using n(3) True shift by (auto simp: less_Suc_eq_0_disj op_state_def [of _ 0])
    then show ?thesis using n step shift by (intro exI [of _ "Suc n"]) auto
  qed
qed

lemma mem_put_frame:
  assumes "mem_inv s" "mem_put s k body m = (r, s')" "k' \<noteq> k"
  shows "mem_view s' k' = mem_view s k'"
proof (cases "body_bytes body")
  case (Inr b)
  from assms(2) Inr show ?thesis
    by (cases rule: mem_put_cases) (use assms in \<open>auto simp: mem_view_def mem_inv_def\<close>)
qed (use assms in \<open>simp add: mem_put_def\<close>)

lemma mem_delete_frame:
  assumes "mem_delete s k iv = (r, s')" "k' \<noteq> k"
  shows "mem_view s' k' = mem_view s k'"
  using assms
  by (auto simp: mem_delete_def mem_view_def split: option.splits if_splits prod.splits)

lemma mem_compose_frame:
  assumes "mem_inv s" "mem_compose s k ks m = (r, s')" "k' \<noteq> k"
  shows "mem_view s' k' = mem_view s k'"
  using assms by (auto simp: mem_compose_def split: sum.splits dest: mem_put_frame)

section \<open>Properties\<close>

text \<open>
  Optimistic concurrency on the in-memory backend: once a conditional \<open>put\<close> has consumed a
  version, every later \<open>put\<close> conditional on that version is refused and changes nothing, whatever
  happened to the bucket in between.
\<close>

theorem mem_cas_once:
  assumes "mem_inv s" "mem_put s k (Bytes b) (Update v) = (Ok m, s1)" "mem_evolves s1 s2"
  shows "\<exists>cur. mem_put s2 k (Bytes b') (Update v) = (Err (PreconditionFailed k cur), s2)"
proof -
  have bb: "body_bytes (Bytes b) = Ok b" by simp
  from assms(2) bb have c: "v \<le> counter s" "mem_view s1 k = Some (Suc (counter s), b)"
    "counter s1 = Suc (counter s)"
    by (cases rule: mem_put_cases;
        use assms(1) mem_inv_view [OF assms(1)] in
          \<open>auto simp: put_check_Ok_iff mem_view_def mem_inv_def\<close>)+
  have "mem_view s2 k \<noteq> Some (v, d)" for d
    using assms(3) c by (auto simp: mem_evolves_def)
  then have "map_option fst (bt_get (objects s2) k) \<noteq> Some v"
    by (auto simp: mem_view_def)
  then show ?thesis
    by (cases "bt_get (objects s2) k") (auto simp: mem_put_def)
qed

theorem mem_cas_once_witness:
  "\<exists>cur. mem_put \<lparr>objects = [(''k'', (2, [8]))], counter = 2\<rparr> ''k'' (Bytes [9::nat]) (Update 1) =
     (Err (PreconditionFailed ''k'' cur), \<lparr>objects = [(''k'', (2, [8]))], counter = 2\<rparr>)"
proof (rule mem_cas_once [where s = "\<lparr>objects = [(''k'', (1, [7]))], counter = 1\<rparr>" and b = "[8]"
      and ?s1.0 = "\<lparr>objects = [(''k'', (2, [8]))], counter = 2\<rparr>"])
  show "mem_inv \<lparr>objects = [(''k'', (1, [7::nat]))], counter = 1\<rparr>"
    by (simp add: mem_inv_def bt_ok_def)
  show "mem_put \<lparr>objects = [(''k'', (1, [7::nat]))], counter = 1\<rparr> ''k'' (Bytes [8]) (Update 1) =
    (Ok \<lparr>meta_key = ''k'', meta_size = 1, meta_version = 2\<rparr>,
     \<lparr>objects = [(''k'', (2, [8]))], counter = 2\<rparr>)"
    by (simp add: mem_put_def bt_get_def next_version_def)
qed simp

text \<open>
  A listing of the in-memory backend returns exactly the objects whose key has the prefix
  and lies after \<open>start_after\<close>, each with its size and version, in ascending key order.
\<close>

theorem mem_list_exact:
  assumes "mem_inv s" "mem_list s p after = (r, s')"
  shows "\<exists>ms. r = Ok ms \<and> s' = s \<and> sorted_wrt (<) (map meta_key ms) \<and>
    (\<forall>m. m \<in> set ms \<longleftrightarrow>
      (\<exists>d. mem_view s (meta_key m) = Some (meta_version m, d) \<and> meta_size m = length d) \<and>
      starts_with (meta_key m) p \<and> (\<forall>a. after = Some a \<longrightarrow> a < meta_key m))"
proof -
  let ?es = "filter (\<lambda>e. case after of None \<Rightarrow> True | Some a \<Rightarrow> fst e > a)
     (filter (\<lambda>e. starts_with (fst e) p) (objects s))"
  let ?f = "\<lambda>(k, v, d). \<lparr>meta_key = k, meta_size = length d, meta_version = v\<rparr>"
  have ok: "bt_ok (objects s)" using assms(1) by (simp add: mem_inv_def)
  have r: "r = Ok (map ?f ?es)" "s' = s"
    using assms(2) by (auto simp: mem_list_def keys_under_filter [OF ok])
  have keys: "map meta_key (map ?f ?es) = map fst ?es" by auto
  have "sorted_wrt (<) (map fst ?es)"
    using ok by (auto simp: bt_ok_def sorted_wrt_map intro!: sorted_wrt_filter)
  moreover have "m \<in> set (map ?f ?es) \<longleftrightarrow>
      (\<exists>d. mem_view s (meta_key m) = Some (meta_version m, d) \<and> meta_size m = length d) \<and>
      starts_with (meta_key m) p \<and> (\<forall>a. after = Some a \<longrightarrow> a < meta_key m)" for m
    by (cases m) (auto simp: mem_view_def bt_get_iff [OF ok] image_iff split: option.splits)
  ultimately show ?thesis using r unfolding keys [symmetric] by blast
qed

theorem mem_list_exact_witness:
  "\<exists>d. mem_view \<lparr>objects = [(''p/a'', (1, [7::nat])), (''p/b'', (2, [8])), (''q/c'', (3, []))],
      counter = 3\<rparr> ''p/b'' = Some (2, d) \<and> length d = 1"
proof -
  let ?s = "\<lparr>objects = [(''p/a'', (1, [7::nat])), (''p/b'', (2, [8])), (''q/c'', (3, []))], counter = 3\<rparr>"
  let ?m = "\<lparr>meta_key = ''p/b'', meta_size = 1, meta_version = 2\<rparr>"
  have i: "mem_inv ?s"
    by (simp add: mem_inv_def bt_ok_def less_char_def)
  have l: "mem_list ?s ''p/'' (Some ''p/a'') = (Ok [?m], ?s)"
    by (simp add: mem_list_def keys_under_def starts_with_def less_char_def)
  have "?m \<in> set [?m]" by simp
  then show ?thesis using mem_list_exact [OF i l] by (metis (no_types, lifting) Inr_inject object_meta.select_convs)
qed

text \<open>
  A store scoped to a prefix is isolated: \<open>put\<close>, \<open>delete\<close> and \<open>compose\<close> through it change no
  object outside the prefix, whatever they return.
\<close>

theorem prefixed_isolated:
  assumes "mem_inv s" "\<not> starts_with k' p"
  shows "mem_view (snd (os_put (prefixed p mem_ops) s k body m)) k' = mem_view s k' \<and>
    mem_view (snd (os_delete (prefixed p mem_ops) s k iv)) k' = mem_view s k' \<and>
    mem_view (snd (os_compose (prefixed p mem_ops) s k ks m)) k' = mem_view s k'"
proof (intro conjI)
  have ne: "k' \<noteq> full_key p k" using assms(2) by (auto simp: full_key_def starts_with_def)
  show "mem_view (snd (os_put (prefixed p mem_ops) s k body m)) k' = mem_view s k'"
    using mem_put_frame [OF assms(1) _ ne] by (auto simp: prefixed_put_def split: prod.splits)
  show "mem_view (snd (os_delete (prefixed p mem_ops) s k iv)) k' = mem_view s k'"
    using mem_delete_frame [OF _ ne]
    by (cases "mem_delete s (full_key p k) iv") (simp add: prefixed_delete_def)
  show "mem_view (snd (os_compose (prefixed p mem_ops) s k ks m)) k' = mem_view s k'"
    using mem_compose_frame [OF assms(1) _ ne] by (auto simp: prefixed_compose_def split: prod.splits)
qed

theorem prefixed_isolated_witness:
  "mem_view (snd (os_put (prefixed ''a/'' mem_ops) \<lparr>objects = [(''b/x'', (1, [7::nat]))], counter = 1\<rparr>
     ''x'' (Bytes [8]) Overwrite)) ''b/x'' = Some (1, [7])"
proof -
  have i: "mem_inv \<lparr>objects = [(''b/x'', (1, [7::nat]))], counter = 1\<rparr>"
    by (simp add: mem_inv_def bt_ok_def)
  have n: "\<not> starts_with ''b/x'' ''a/''" by (simp add: starts_with_def)
  show ?thesis using prefixed_isolated [OF i n] by (simp add: mem_view_def bt_get_def)
qed

text \<open>
  The percent-encoding of object keys in URLs is injective.
\<close>

theorem encode_path_inj: "encode_path a = encode_path b \<Longrightarrow> a = b"
proof (induction a arbitrary: b)
  case Nil
  then show ?case by (cases b) (auto simp: encode_path_def encode_byte_def split: if_splits)
next
  case (Cons c a)
  then obtain d b' where b: "b = d # b'"
    by (cases b) (auto simp: encode_path_def encode_byte_def split: if_splits)
  have "encode_byte c @ encode_path a = encode_byte d @ encode_path b'"
    using Cons.prems b by (simp add: encode_path_def)
  then show ?case using encode_byte_prefix_free [of c _ d] Cons.IH b by blast
qed

theorem encode_path_inj_witness:
  "encode_path ''log/a b'' = ''log/a%20b'' \<and> encode_path ''log/a%20b'' \<noteq> ''log/a%20b''"
proof -
  have e: "encode_path ''log/a b'' = ''log/a%20b''"
    by code_simp
  show ?thesis using e encode_path_inj [of "''log/a%20b''" "''log/a b''"] by auto
qed

text \<open>
  \<open>retry\<close> makes between one and \<open>max(max_attempts, 1)\<close> attempts and returns what the last of
  them returned; all earlier ones failed with a retryable error, and the last one did not unless
  it was attempt \<open>max_attempts\<close>.
\<close>

theorem retry_attempts:
  "\<exists>n \<le> max_attempts - 1. retry max_attempts op s = op (op_state op n s) \<and>
     (\<forall>i < n. gives_up op (op_state op i s)) \<and>
     (n < max_attempts - 1 \<longrightarrow> \<not> gives_up op (op_state op n s))"
  unfolding retry_def by (rule retry_loop_run)

theorem retry_attempts_witness:
  "retry 3 (\<lambda>n::nat. (if n = 0 then Err (Retryable ''x'') else Ok n, Suc n)) 0 = (Ok 1, 2)"
proof -
  let ?op = "\<lambda>n::nat. (if n = 0 then Err (Retryable ''x'') else Ok n :: (store_error, nat) result, Suc n)"
  obtain n where n: "n \<le> 2" "retry 3 ?op 0 = ?op (op_state ?op n 0)"
      "\<forall>i < n. gives_up ?op (op_state ?op i 0)" "n < 2 \<longrightarrow> \<not> gives_up ?op (op_state ?op n 0)"
    using retry_attempts [of 3 ?op 0] by auto
  have st: "op_state ?op i 0 = i" for i by (induction i) (auto simp: op_state_def)
  have "n = 1" using n(1,3,4) by (auto simp: st gives_up_def le_Suc_eq numeral_2_eq_2)
  then show ?thesis using n(2) by (simp add: st)
qed

end
