(* ===== verification/Fault_Store.thy ===== *)
theory Fault_Store
  imports Object_Store Complex_Main "HOL-Library.Word"
begin

text \<open>
  The fault-injecting link of \<^verbatim>\<open>crates/walgit-store/src/fault.rs\<close>: the seeded generator, the
  dice of \<open>decide\<close>, and each operation of the wrapper.  \<open>FaultStore\<close> is how the repository states
  what a client must survive: errors before and after a write takes effect, spurious
  precondition failures, stale \<open>304\<close> answers, truncated bodies, hangs and crashes.

  The bucket behind a link is shared: \<open>shared_ops\<close> runs the operations of other clients (an
  arbitrary script) before each operation of this one.  The interpretation \<open>link\<close> shows that
  every client lemma proved from \<open>object_store\<close> holds over such a link, as long as the plan loses
  no objects (\<open>deny_keys\<close> empty).

  Counters, traces and the latency of late answers are not modelled.  A call that hangs or
  crashes does not return; the model gives it the result \<open>no_return\<close>, an error, so that what is
  proved for every error covers the state such a call leaves behind.
\<close>

unbundle bit_operations_syntax

section \<open>The seeded generator\<close>

text \<open>\<open>Rng\<close> is xorshift64* on one machine word.\<close>

type_synonym rng = "64 word"

definition rng_new :: "64 word \<Rightarrow> rng" where
  "rng_new seed = max seed 1 XOR 0x9E3779B97F4A7C15"

definition next_u64 :: "rng \<Rightarrow> 64 word \<times> rng" where
  "next_u64 x0 =
     (let x1 = x0 XOR drop_bit 12 x0;
          x2 = x1 XOR push_bit 25 x1;
          x3 = x2 XOR drop_bit 27 x2
      in (x3 * 0x2545F4914F6CDD1D, x3))"

definition rng_f64 :: "rng \<Rightarrow> real \<times> rng" where
  "rng_f64 r = (let (x, r') = next_u64 r in (real (unat (drop_bit 11 x)) / 2 ^ 53, r'))"

definition rng_below :: "nat \<Rightarrow> rng \<Rightarrow> nat \<times> rng" where
  "rng_below n r =
     (if n = 0 then (0, r) else let (x, r') = next_u64 r in (unat x mod n, r'))"

section \<open>Plans and decisions\<close>

text \<open>Probabilities are the reals the \<open>f64\<close> fields denote; the delay is in microseconds.\<close>

record fault_plan =
  delay :: "(nat \<times> nat) option"
  p_err_before :: real
  p_err_after :: real
  p_cas_fail :: real
  p_stale_304 :: real
  p_truncate :: real
  p_hang :: real
  black_hole :: bool
  deny_keys :: "string list"
  panic_once_keys :: "string list"
  only_keys :: "string list option"

definition default_plan :: fault_plan where
  "default_plan = \<lparr>delay = None, p_err_before = 0, p_err_after = 0, p_cas_fail = 0,
     p_stale_304 = 0, p_truncate = 0, p_hang = 0, black_hole = False, deny_keys = [],
     panic_once_keys = [], only_keys = None\<rparr>"

definition chaos :: "real \<Rightarrow> fault_plan" where
  "chaos rate = default_plan\<lparr>delay := Some (0, 5000), p_err_before := rate,
     p_err_after := rate / 2, p_cas_fail := rate / 2, p_stale_304 := rate / 2,
     p_truncate := rate / 2, p_hang := 0\<rparr>"

definition black_hole_plan :: fault_plan where
  "black_hole_plan = default_plan\<lparr>black_hole := True\<rparr>"

definition stale_forever :: fault_plan where
  "stale_forever = default_plan\<lparr>p_stale_304 := 1\<rparr>"

definition with_only :: "fault_plan \<Rightarrow> string list \<Rightarrow> fault_plan" where
  "with_only plan keys = plan\<lparr>only_keys := Some keys\<rparr>"

datatype decision =
    Proceed | ErrBefore | ErrAfter | CasFail | Stale | Truncate nat | Hang | Denied

record 's fault_state =
  inner :: 's
  plan :: fault_plan
  rng :: rng
  fired_panics :: "string list"

definition set_plan :: "fault_plan \<Rightarrow> 's fault_state \<Rightarrow> 's fault_state" where
  "set_plan p s = s\<lparr>plan := p\<rparr>"

definition heal :: "'s fault_state \<Rightarrow> 's fault_state" where
  "heal s = s\<lparr>plan := default_plan\<rparr>"

definition in_scope :: "fault_plan \<Rightarrow> string \<Rightarrow> bool" where
  "in_scope p key =
     (case only_keys p of None \<Rightarrow> True | Some ks \<Rightarrow> list_ex (\<lambda>k. contains_str key k) ks)"

definition panic_matches :: "string \<Rightarrow> string \<Rightarrow> string \<Rightarrow> bool" where
  "panic_matches op key p =
     (case split_once (CHR '':'') p of
        Some (o', k) \<Rightarrow>
          (if o' \<in> set [''get'', ''head'', ''put'', ''delete'', ''compose'']
           then o' = op \<and> contains_str key k
           else contains_str key p)
      | None \<Rightarrow> contains_str key p)"

text \<open>
  The dice in the order of the source: the cut and then six rolls are always drawn.  The first
  component is \<open>None\<close> when the call crashes.
\<close>

definition decide_roll ::
  "fault_plan \<Rightarrow> bool \<Rightarrow> bool \<Rightarrow> bool \<Rightarrow> rng \<Rightarrow> decision \<times> rng" where
  "decide_roll p mutation conditional read_body r =
     (let (cut_pos, r) = rng_below (2 ^ 20) r;
          (roll0, r) = rng_f64 r;
          (roll1, r) = rng_f64 r;
          (roll2, r) = rng_f64 r;
          (roll3, r) = rng_f64 r;
          (roll4, r) = rng_f64 r;
          (roll5, r) = rng_f64 r
      in (if roll0 < p_hang p then Hang
          else if roll1 < p_err_before p then ErrBefore
          else if mutation \<and> conditional \<and> roll2 < p_cas_fail p then CasFail
          else if mutation \<and> roll3 < p_err_after p then ErrAfter
          else if \<not> mutation \<and> conditional \<and> roll4 < p_stale_304 p then Stale
          else if read_body \<and> roll5 < p_truncate p then Truncate cut_pos
          else Proceed, r))"

definition draw_delay :: "fault_plan \<Rightarrow> rng \<Rightarrow> rng" where
  "draw_delay p r =
     (case delay p of None \<Rightarrow> r | Some (lo, hi) \<Rightarrow> snd (rng_below ((hi - lo) + 1) r))"

definition decide ::
  "string \<Rightarrow> string \<Rightarrow> bool \<Rightarrow> bool \<Rightarrow> bool \<Rightarrow> 's fault_state
     \<Rightarrow> decision option \<times> 's fault_state" where
  "decide op key mutation conditional read_body s =
     (let p = plan s;
          hit = List.find (panic_matches op key) (panic_once_keys p);
          crash = (case hit of None \<Rightarrow> False | Some pat \<Rightarrow> pat \<notin> set (fired_panics s))
      in if crash then (None, s\<lparr>fired_panics := fired_panics s @ [the hit]\<rparr>)
         else if black_hole p then (Some Hang, s)
         else if \<not> mutation \<and> list_ex (\<lambda>d. contains_str key d) (deny_keys p) then (Some Denied, s)
         else
           (let r = draw_delay p (rng s)
            in if \<not> in_scope p key then (Some Proceed, s\<lparr>rng := r\<rparr>)
               else (let (d, r') = decide_roll p mutation conditional read_body r
                     in (Some d, s\<lparr>rng := r'\<rparr>))))"

section \<open>The operations of the link\<close>

definition no_return :: store_error where
  "no_return = OtherError ''no return''"

definition retryable_at :: "string \<Rightarrow> string \<Rightarrow> string \<Rightarrow> store_error" where
  "retryable_at op key moment =
     Retryable (''injected transient error '' @ moment @ '' '' @ op @ '' '' @ key)"

text \<open>The closure's variables \<open>sent\<close> and \<open>done\<close> are the first two arguments.\<close>

fun truncate_loop :: "nat \<Rightarrow> bool \<Rightarrow> nat \<Rightarrow> string \<Rightarrow> 'a byte_stream \<Rightarrow> 'a byte_stream" where
  "truncate_loop sent is_done stop msg [] = []"
| "truncate_loop sent is_done stop msg (chunk # cs) =
     (if is_done then truncate_loop sent is_done stop msg cs
      else case chunk of
        Inr b \<Rightarrow>
          (let room = stop - sent
           in if length b \<le> room
              then Inr b # truncate_loop (sent + length b) False stop msg cs
              else Inr (take room b) # Inl (Retryable msg) # truncate_loop sent True stop msg cs)
      | Inl e \<Rightarrow> Inl e # truncate_loop sent True stop msg cs)"

definition truncate_stream :: "'a byte_stream \<Rightarrow> nat \<Rightarrow> string \<Rightarrow> 'a byte_stream" where
  "truncate_stream body stop msg = truncate_loop 0 False stop msg body"

text \<open>Run an operation of the inner store on the inner state.\<close>

definition on_inner :: "('s \<Rightarrow> 'r \<times> 's) \<Rightarrow> 's fault_state \<Rightarrow> 'r \<times> 's fault_state" where
  "on_inner f s = (case f (inner s) of (r, i) \<Rightarrow> (r, s\<lparr>inner := i\<rparr>))"

text \<open>A mutation whose answer is lost: an error of the inner call comes through.\<close>

definition lose_answer :: "store_error \<Rightarrow> (store_error, 'r) result \<Rightarrow> (store_error, 'r) result" where
  "lose_answer e r = (case r of Inl e' \<Rightarrow> Err e' | Inr _ \<Rightarrow> Err e)"

definition get_inner :: "('s, 'a) store_ops \<Rightarrow> 's fault_state \<Rightarrow> string \<Rightarrow> get_options \<Rightarrow> bool
    \<Rightarrow> (store_error, 'a get_result) result \<times> 's fault_state" where
  "get_inner ops s0 key opts conditional =
     (let (d, s) = decide ''get'' key False conditional True s0
      in case d of
        None \<Rightarrow> (Err no_return, s)
      | Some Hang \<Rightarrow> (Err no_return, s)
      | Some ErrBefore \<Rightarrow> (Err (retryable_at ''get'' key ''before''), s)
      | Some Denied \<Rightarrow> (Err (NotFound key), s)
      | Some Stale \<Rightarrow>
          (case if_none_match opts of
             None \<Rightarrow> (Err (InvalidArgument ''stale-304 fault injected on an unconditional GET''), s)
           | Some v \<Rightarrow> (Ok (NotModified v), s))
      | Some (Truncate cut_pos) \<Rightarrow>
          (case on_inner (\<lambda>i. os_get ops i key opts) s of
             (Inr (Object meta body), s') \<Rightarrow>
               (let size = meta_size meta; stop = (if size = 0 then 0 else cut_pos mod size)
                in (Ok (Object meta (truncate_stream body stop ''injected truncation'')), s'))
           | (r, s') \<Rightarrow> (r, s'))
      | Some _ \<Rightarrow> on_inner (\<lambda>i. os_get ops i key opts) s)"

definition fault_get :: "('s, 'a) store_ops \<Rightarrow> 's fault_state \<Rightarrow> string \<Rightarrow> get_options
    \<Rightarrow> (store_error, 'a get_result) result \<times> 's fault_state" where
  "fault_get ops s key opts = get_inner ops s key opts (if_none_match opts \<noteq> None)"

definition fault_head :: "('s, 'a) store_ops \<Rightarrow> 's fault_state \<Rightarrow> string
    \<Rightarrow> (store_error, object_meta option) result \<times> 's fault_state" where
  "fault_head ops s0 key =
     (let (d, s) = decide ''head'' key False False False s0
      in case d of
        None \<Rightarrow> (Err no_return, s)
      | Some Hang \<Rightarrow> (Err no_return, s)
      | Some ErrBefore \<Rightarrow> (Err (retryable_at ''head'' key ''before''), s)
      | Some Denied \<Rightarrow> (Ok None, s)
      | Some _ \<Rightarrow> on_inner (\<lambda>i. os_head ops i key) s)"

text \<open>The \<open>match\<close> that \<open>put\<close>, \<open>delete\<close> and \<open>compose\<close> share, over the inner call.\<close>

definition fault_mutation :: "string \<Rightarrow> string \<Rightarrow> bool \<Rightarrow> ('s \<Rightarrow> (store_error, 'r) result \<times> 's)
    \<Rightarrow> 's fault_state \<Rightarrow> (store_error, 'r) result \<times> 's fault_state" where
  "fault_mutation op key conditional call s0 =
     (let (d, s) = decide op key True conditional False s0
      in case d of
        None \<Rightarrow> (Err no_return, s)
      | Some Hang \<Rightarrow> (Err no_return, s)
      | Some ErrBefore \<Rightarrow> (Err (retryable_at op key ''before''), s)
      | Some CasFail \<Rightarrow> (Err (PreconditionFailed key None), s)
      | Some ErrAfter \<Rightarrow>
          (case on_inner call s of
             (r, s') \<Rightarrow> (lose_answer (retryable_at op key ''after (applied)'') r, s'))
      | Some _ \<Rightarrow> on_inner call s)"

definition fault_put :: "('s, 'a) store_ops \<Rightarrow> 's fault_state \<Rightarrow> string \<Rightarrow> 'a put_body \<Rightarrow> put_mode
    \<Rightarrow> (store_error, object_meta) result \<times> 's fault_state" where
  "fault_put ops s key body mode =
     fault_mutation ''put'' key (mode \<noteq> Overwrite) (\<lambda>i. os_put ops i key body mode) s"

definition fault_delete :: "('s, 'a) store_ops \<Rightarrow> 's fault_state \<Rightarrow> string \<Rightarrow> version option
    \<Rightarrow> (store_error, unit) result \<times> 's fault_state" where
  "fault_delete ops s key if_version =
     fault_mutation ''delete'' key (if_version \<noteq> None) (\<lambda>i. os_delete ops i key if_version) s"

definition fault_compose :: "('s, 'a) store_ops \<Rightarrow> 's fault_state \<Rightarrow> string \<Rightarrow> string list \<Rightarrow> put_mode
    \<Rightarrow> (store_error, object_meta) result \<times> 's fault_state" where
  "fault_compose ops s dest sources mode =
     fault_mutation ''compose'' dest (mode \<noteq> Overwrite) (\<lambda>i. os_compose ops i dest sources mode) s"

text \<open>Listings only black-hole or fail up front; the roll is drawn only for prefixes in scope.\<close>

definition fault_listing :: "string \<Rightarrow> string \<Rightarrow> ('s \<Rightarrow> (store_error, 'r) result \<times> 's)
    \<Rightarrow> 's fault_state \<Rightarrow> (store_error, 'r) result \<times> 's fault_state" where
  "fault_listing op pre call s =
     (if black_hole (plan s) then (Err no_return, s)
      else if in_scope (plan s) pre then
        (let (roll, r) = rng_f64 (rng s); s' = s\<lparr>rng := r\<rparr>
         in if roll < p_err_before (plan s) then (Err (retryable_at op pre ''before''), s')
            else on_inner call s')
      else on_inner call s)"

definition fault_ops :: "('s, 'a) store_ops \<Rightarrow> ('s fault_state, 'a) store_ops" where
  "fault_ops ops = \<lparr>os_get = fault_get ops, os_head = fault_head ops, os_put = fault_put ops,
     os_delete = fault_delete ops,
     os_list = (\<lambda>s p after. fault_listing ''list'' p (\<lambda>i. os_list ops i p after) s),
     os_list_prefixes = (\<lambda>s p. fault_listing ''list_prefixes'' p (\<lambda>i. os_list_prefixes ops i p) s),
     os_compose = fault_compose ops\<rparr>"

section \<open>Other clients of the bucket\<close>

text \<open>
  The environment of a client: what others do to the bucket before each of its operations, as a
  script.  Others go through the same operations, so they change the bucket only by puts,
  deletes and compositions.
\<close>

datatype 'a other_op =
    OtherPut string "'a put_body" put_mode
  | OtherDelete string "version option"
  | OtherCompose string "string list" put_mode

fun other_step :: "'a mem_store \<Rightarrow> 'a other_op \<Rightarrow> 'a mem_store" where
  "other_step s (OtherPut k b m) = snd (mem_put s k b m)"
| "other_step s (OtherDelete k iv) = snd (mem_delete s k iv)"
| "other_step s (OtherCompose d ks m) = snd (mem_compose s d ks m)"

type_synonym 'a shared = "'a mem_store \<times> 'a other_op list list"

definition others :: "'a shared \<Rightarrow> 'a shared" where
  "others s = (case snd s of [] \<Rightarrow> s | acts # rest \<Rightarrow> (foldl other_step (fst s) acts, rest))"

definition shared_call :: "('a mem_store \<Rightarrow> 'r \<times> 'a mem_store) \<Rightarrow> 'a shared \<Rightarrow> 'r \<times> 'a shared" where
  "shared_call f s = (case others s of (m, rest) \<Rightarrow> (case f m of (r, m') \<Rightarrow> (r, (m', rest))))"

definition shared_ops :: "('a shared, 'a) store_ops" where
  "shared_ops = \<lparr>os_get = (\<lambda>s k opts. shared_call (\<lambda>m. mem_get m k opts) s),
     os_head = (\<lambda>s k. shared_call (\<lambda>m. mem_head m k) s),
     os_put = (\<lambda>s k b md. shared_call (\<lambda>m. mem_put m k b md) s),
     os_delete = (\<lambda>s k iv. shared_call (\<lambda>m. mem_delete m k iv) s),
     os_list = (\<lambda>s p after. shared_call (\<lambda>m. mem_list m p after) s),
     os_list_prefixes = (\<lambda>s p. shared_call (\<lambda>m. mem_list_prefixes m p) s),
     os_compose = (\<lambda>s d ks md. shared_call (\<lambda>m. mem_compose m d ks md) s)\<rparr>"

definition shared_view :: "'a shared \<Rightarrow> string \<Rightarrow> (version \<times> 'a list) option" where
  "shared_view s = mem_view (fst s)"

definition shared_inv :: "'a shared \<Rightarrow> bool" where
  "shared_inv s = mem_inv (fst s)"

definition shared_evolves :: "'a shared \<Rightarrow> 'a shared \<Rightarrow> bool" where
  "shared_evolves s s' = mem_evolves (fst s) (fst s')"

definition shared_issued :: "'a shared \<Rightarrow> version \<Rightarrow> bool" where
  "shared_issued s = mem_issued (fst s)"

lemmas shared_defs = shared_view_def shared_inv_def shared_evolves_def shared_issued_def

lemma other_step_evolves:
  assumes "mem_inv s"
  shows "mem_inv (other_step s a) \<and> mem_evolves s (other_step s a)"
proof (cases a)
  case (OtherPut k b m)
  then show ?thesis using mem_put_evolves [OF assms] by (metis other_step.simps(1) prod.collapse)
next
  case (OtherDelete k iv)
  then show ?thesis using mem_delete_evolves [OF assms] by (metis other_step.simps(2) prod.collapse)
next
  case (OtherCompose d ks m)
  have "mem_inv (snd (mem_put s d b m)) \<and> mem_evolves s (snd (mem_put s d b m))" for b
    using mem_put_evolves [OF assms] by (metis prod.collapse)
  then show ?thesis using OtherCompose assms by (auto simp: mem_compose_def split: sum.splits)
qed

lemma others_evolves:
  assumes "shared_inv s"
  shows "shared_inv (others s) \<and> shared_evolves s (others s)"
proof -
  have "mem_inv (foldl other_step m acts) \<and> mem_evolves m (foldl other_step m acts)"
    if "mem_inv m" for m :: "'a mem_store" and acts
    using that
  proof (induction acts arbitrary: m)
    case (Cons a acts)
    then show ?case using other_step_evolves [of m a] mem_evolves_trans by (metis foldl_Cons)
  qed simp
  then show ?thesis using assms by (auto simp: others_def shared_defs split: list.splits)
qed

text \<open>Whatever a memory operation satisfies at the instant it runs holds of the shared call.\<close>

lemma shared_callE:
  assumes "shared_call f s = (r, s')" "shared_inv s"
  obtains t where "shared_inv t" "shared_evolves s t" "f (fst t) = (r, fst s')" "snd s' = snd t"
  using assms others_evolves [OF assms(2)]
  by (auto simp: shared_call_def split: prod.splits)

lemma shared_trans: "shared_evolves s t \<Longrightarrow> shared_evolves t u \<Longrightarrow> shared_evolves s u"
  unfolding shared_defs by (rule mem_evolves_trans)

lemma shared_object_store:
  "object_store shared_ops shared_view shared_inv shared_evolves shared_issued"
proof (unfold_locales, goal_cases)
  case 1 show ?case by (simp add: shared_defs)
next
  case 2 then show ?case by (rule shared_trans)
next
  case 3 then show ?case unfolding shared_defs by (rule mem.issued_view)
next
  case 4 then show ?case unfolding shared_defs by (rule mem.issued_mono)
next
  case 5 then show ?case unfolding shared_defs by (rule mem.stable)
next
  case (6 s k opts r s')
  then obtain t where t: "shared_inv t" "shared_evolves s t" "mem_get (fst t) k opts = (r, fst s')"
    by (auto simp: shared_ops_def elim: shared_callE)
  show ?case
    using mem.get_law [of "fst t" k opts r "fst s'"] t shared_trans
    unfolding shared_defs by (auto intro: mem_evolves_trans)
next
  case (7 s k r s')
  then obtain t where t: "shared_inv t" "shared_evolves s t" "mem_head (fst t) k = (r, fst s')"
    by (auto simp: shared_ops_def elim: shared_callE)
  show ?case
    using mem.head_law [of "fst t" k r "fst s'"] t
    unfolding shared_defs by (auto intro: mem_evolves_trans)
next
  case (8 s k b m r s')
  then obtain t where t: "shared_inv t" "shared_evolves s t"
      "mem_put (fst t) k (Bytes b) m = (r, fst s')"
    by (auto simp: shared_ops_def elim: shared_callE)
  from mem.put_law [of "fst t" k b m r "fst s'"] t obtain m0 where
    m0: "mem_inv (fst s')" "mem_evolves (fst t) (fst s')" "mem_inv m0" "mem_evolves (fst t) m0"
      "mem_evolves m0 (fst s')"
      "case r of Inr meta \<Rightarrow> put_check k m (map_option fst (mem_view m0 k)) = Ok () \<and>
           applied_put mem_view mem_issued m0 k b (meta_version meta) (fst s')
       | Inl e \<Rightarrow> mem_view (fst s') = mem_view m0 \<or>
           (\<not> is_precondition_failed e \<and> put_check k m (map_option fst (mem_view m0 k)) = Ok () \<and>
            (\<exists>v. applied_put mem_view mem_issued m0 k b v (fst s')))"
    unfolding shared_defs by auto
  have ap: "applied_put mem_view mem_issued m0 k b v (fst s') \<Longrightarrow>
      applied_put shared_view shared_issued (m0, snd t) k b v s'" for v
    by (simp add: applied_put_def shared_defs)
  show ?case
    using m0 t ap unfolding shared_defs
    by (auto intro: mem_evolves_trans intro!: exI [of _ m0] split: sum.splits)
next
  case (9 s k v r s')
  then obtain t where t: "shared_inv t" "shared_evolves s t"
      "mem_delete (fst t) k (Some v) = (r, fst s')"
    by (auto simp: shared_ops_def elim: shared_callE)
  from mem.delete_law [of "fst t" k v r "fst s'"] t show ?case
    unfolding shared_defs
    by (cases r) (auto intro: mem_evolves_trans)
qed

interpretation shared: object_store shared_ops shared_view shared_inv shared_evolves shared_issued
  by (rule shared_object_store)

section \<open>A faulty link satisfies the interface\<close>

definition link_view :: "('s \<Rightarrow> 'v) \<Rightarrow> 's fault_state \<Rightarrow> 'v" where
  "link_view view s = view (inner s)"

definition link_inv :: "('s \<Rightarrow> bool) \<Rightarrow> 's fault_state \<Rightarrow> bool" where
  "link_inv invar s \<longleftrightarrow> invar (inner s) \<and> deny_keys (plan s) = []"

definition link_evolves :: "('s \<Rightarrow> 's \<Rightarrow> bool) \<Rightarrow> 's fault_state \<Rightarrow> 's fault_state \<Rightarrow> bool" where
  "link_evolves evolves s s' = evolves (inner s) (inner s')"

lemmas link_defs = link_view_def link_inv_def link_evolves_def

text \<open>The dice change neither the bucket nor the plan, and lose an object only on purpose.\<close>

lemma decide_frame:
  assumes "decide op key mu co rb s = (d, s')"
  shows "inner s' = inner s" "plan s' = plan s"
    "d = Some Denied \<Longrightarrow> deny_keys (plan s) \<noteq> []"
    "d = Some Stale \<Longrightarrow> \<not> mu \<and> co"
    "d = Some CasFail \<Longrightarrow> mu \<and> co"
    "d = Some ErrAfter \<Longrightarrow> mu"
  using assms
  by (auto simp: decide_def decide_roll_def Let_def split: if_splits prod.splits)

lemma collect_truncate_done: "collect (truncate_loop sent True stop msg cs) = Ok []"
  by (induction cs) auto

text \<open>A truncated stream either fails or delivers the whole body.\<close>

lemma collect_truncate_loop:
  "collect (truncate_loop sent False stop msg cs) = Ok b \<Longrightarrow> collect cs = Ok b"
proof (induction cs arbitrary: sent b)
  case (Cons c cs)
  show ?case
  proof (cases c)
    case (Inr x)
    then show ?thesis using Cons by (auto simp: Let_def split: if_splits)
  qed (use Cons in auto)
qed simp

lemma collect_truncate: "collect (truncate_stream cs stop msg) = Ok b \<Longrightarrow> collect cs = Ok b"
  unfolding truncate_stream_def by (rule collect_truncate_loop)

lemma on_innerE:
  assumes "on_inner f s = (r, s')"
  obtains "f (inner s) = (r, inner s')" "plan s' = plan s"
  using assms by (auto simp: on_inner_def split: prod.splits)

text \<open>
  A mutation over a link either has the effect and the answer of the inner call, or the effect
  and an error other than a failed precondition, or no effect and an error.
\<close>

lemma fault_mutation_cases:
  assumes "fault_mutation op key co call s = (r, s')"
  obtains
    (through) "call (inner s) = (r, inner s')" "plan s' = plan s"
  | (lost) x e where "call (inner s) = (Ok x, inner s')" "r = Err e"
      "is_retryable e" "plan s' = plan s"
  | (failed) e where "inner s' = inner s" "r = Err e" "\<not> is_not_found e" "plan s' = plan s"
proof -
  obtain d t where d: "decide op key True co False s = (d, t)"
    by (cases "decide op key True co False s")
  note F = decide_frame [OF d]
  show ?thesis
  proof (cases "d = Some ErrAfter")
    case True
    obtain r0 i where c: "call (inner s) = (r0, i)" by (cases "call (inner s)")
    show ?thesis using assms d True c F through lost
      by (cases r0) (auto simp: fault_mutation_def on_inner_def lose_answer_def retryable_at_def)
  next
    case False
    then show ?thesis using assms d F through failed
      by (auto simp: fault_mutation_def no_return_def retryable_at_def
          split: option.splits decision.splits elim!: on_innerE)
  qed
qed

lemma get_inner_cases:
  assumes "get_inner ops s key opts co = (r, s')" "deny_keys (plan s) = []"
    "co = (if_none_match opts \<noteq> None)"
  obtains
    (through) "os_get ops (inner s) key opts = (r, inner s')" "plan s' = plan s"
  | (failed) e where "inner s' = inner s" "r = Err e" "\<not> is_not_found e" "plan s' = plan s"
  | (stale) v where "inner s' = inner s" "r = Ok (NotModified v)" "if_none_match opts = Some v"
      "plan s' = plan s"
  | (cut_short) meta body stop msg where
      "os_get ops (inner s) key opts = (Ok (Object meta body), inner s')"
      "r = Ok (Object meta (truncate_stream body stop msg))" "plan s' = plan s"
proof -
  obtain d t where d: "decide ''get'' key False co True s = (d, t)"
    by (cases "decide ''get'' key False co True s")
  note F = decide_frame [OF d]
  show ?thesis
  proof (cases "\<exists>c. d = Some (Truncate c)")
    case True
    obtain r0 i where c: "os_get ops (inner s) key opts = (r0, i)"
      by (cases "os_get ops (inner s) key opts")
    show ?thesis using assms(1) d True c F through cut_short
      by (auto simp: get_inner_def on_inner_def Let_def split: sum.splits get_result.splits)
  next
    case False
    then show ?thesis using assms d F through failed stale
      by (auto simp: get_inner_def no_return_def retryable_at_def
          split: option.splits decision.splits elim!: on_innerE)
  qed
qed

lemma fault_ops_sel [simp]:
  "os_get (fault_ops ops) = fault_get ops" "os_head (fault_ops ops) = fault_head ops"
  "os_put (fault_ops ops) = fault_put ops" "os_delete (fault_ops ops) = fault_delete ops"
  by (simp_all add: fault_ops_def)

lemma fault_object_store:
  assumes "object_store ops view invar evolves issued"
  shows "object_store (fault_ops ops) (link_view view) (link_inv invar) (link_evolves evolves)
    (link_view issued)"
proof -
  note L = object_store.evolves_refl [OF assms] object_store.evolves_trans [OF assms]
    object_store.issued_view [OF assms] object_store.issued_mono [OF assms]
    object_store.stable [OF assms]
  show ?thesis
  proof (unfold_locales, goal_cases)
    case 1 show ?case by (simp add: link_defs L(1))
  next
    case 2 then show ?case unfolding link_defs by (rule L(2))
  next
    case 3 then show ?case unfolding link_defs by (auto intro: L(3))
  next
    case 4 then show ?case unfolding link_defs by (rule L(4))
  next
    case 5 then show ?case unfolding link_defs by (rule L(5))
  next
    case (6 s k opts r s')
    have deny: "deny_keys (plan s) = []" and inv: "invar (inner s)"
      using 6(1) by (auto simp: link_defs)
    have "get_inner ops s k opts (if_none_match opts \<noteq> None) = (r, s')"
      using 6(2) by (simp add: fault_get_def)
    then show ?case using deny refl
    proof (cases rule: get_inner_cases)
      case through
      then show ?thesis using object_store.get_law [OF assms inv through(1)] deny
        unfolding link_defs by simp
    next
      case (cut_short meta body stop msg)
      then show ?thesis using object_store.get_law [OF assms inv cut_short(1)] deny
        by (auto simp: link_defs dest: collect_truncate)
    qed (use inv deny L(1) in \<open>auto simp: link_defs\<close>)
  next
    case (7 s k r s')
    obtain d t where d: "decide ''head'' k False False False s = (d, t)"
      by (cases "decide ''head'' k False False False s")
    note F = decide_frame [OF d]
    have "(\<exists>e. r = Err e \<and> inner s' = inner s) \<or> os_head ops (inner s) k = (r, inner s')"
      and "plan s' = plan s"
      using 7 d F by (auto simp: fault_head_def link_defs split: option.splits decision.splits
          elim!: on_innerE)
    then show ?case using 7(1) object_store.head_law [OF assms, of "inner s" k r "inner s'"] L(1)
      unfolding link_defs by auto
  next
    case (8 s k b m r s')
    have inv: "invar (inner s)" and deny: "deny_keys (plan s) = []"
      using 8(1) by (auto simp: link_defs)
    have ap: "applied_put view issued s0 k b v (inner s') \<Longrightarrow>
      applied_put (link_view view) (link_view issued) (s\<lparr>inner := s0\<rparr>) k b v s'" for s0 v
      by (simp add: applied_put_def link_defs)
    have "fault_mutation ''put'' k (m \<noteq> Overwrite) (\<lambda>i. os_put ops i k (Bytes b) m) s = (r, s')"
      using 8(2) by (simp add: fault_put_def)
    then show ?case
    proof (cases rule: fault_mutation_cases)
      case through
      from object_store.put_law [OF assms inv through(1)] obtain s0 where "invar s0"
        "evolves (inner s) s0" "evolves s0 (inner s')" "invar (inner s')"
        "evolves (inner s) (inner s')" "case r of
           Inr meta \<Rightarrow> put_check k m (map_option fst (view s0 k)) = Ok () \<and>
             applied_put view issued s0 k b (meta_version meta) (inner s')
         | Inl e \<Rightarrow> view (inner s') = view s0 \<or>
             (\<not> is_precondition_failed e \<and> put_check k m (map_option fst (view s0 k)) = Ok () \<and>
              (\<exists>v. applied_put view issued s0 k b v (inner s')))"
        by blast
      then show ?thesis using deny through(2) ap [of s0]
        by (intro conjI exI [of _ "s\<lparr>inner := s0\<rparr>"]) (auto simp: link_defs split: sum.splits)
    next
      case (lost x e)
      have np: "\<not> is_precondition_failed e" using lost(3) by (cases e) auto
      from object_store.put_law [OF assms inv lost(1)] obtain s0 where "invar s0"
        "evolves (inner s) s0" "evolves s0 (inner s')" "invar (inner s')"
        "evolves (inner s) (inner s')" "put_check k m (map_option fst (view s0 k)) = Ok ()"
        "applied_put view issued s0 k b (meta_version x) (inner s')"
        by auto
      then show ?thesis using deny lost(2,4) ap [of s0] np
        by (intro conjI exI [of _ "s\<lparr>inner := s0\<rparr>"]) (auto simp: link_defs)
    qed (use inv deny L(1) in \<open>auto simp: link_defs intro!: exI [of _ s]\<close>)
  next
    case (9 s k v r s')
    have inv: "invar (inner s)" and deny: "deny_keys (plan s) = []"
      using 9(1) by (auto simp: link_defs)
    have "fault_mutation ''delete'' k True (\<lambda>i. os_delete ops i k (Some v)) s = (r, s')"
      using 9(2) by (simp add: fault_delete_def)
    then show ?case
    proof (cases rule: fault_mutation_cases)
      case through
      from object_store.delete_law [OF assms inv through(1)] obtain s0 where "invar s0"
        "evolves (inner s) s0" "evolves s0 (inner s')" and rest: "invar (inner s')"
        "evolves (inner s) (inner s')" "case r of
           Inr _ \<Rightarrow> (\<exists>d. view s0 k = Some (v, d)) \<and> view (inner s') = (view s0)(k := None)
         | Inl e \<Rightarrow> view (inner s') = view s0 \<or>
             (\<not> is_precondition_failed e \<and> \<not> is_not_found e \<and>
              (\<exists>d. view s0 k = Some (v, d)) \<and> view (inner s') = (view s0)(k := None))"
        by blast
      then show ?thesis using deny through(2)
        by (intro conjI exI [of _ "s\<lparr>inner := s0\<rparr>"]) (auto simp: link_defs split: sum.splits)
    next
      case (lost x e)
      have "\<not> is_precondition_failed e" "\<not> is_not_found e" using lost(3) by (cases e; simp)+
      moreover from object_store.delete_law [OF assms inv lost(1)] obtain s0 where "invar s0"
        "evolves (inner s) s0" "evolves s0 (inner s')" "invar (inner s')"
        "evolves (inner s) (inner s')" "\<exists>d. view s0 k = Some (v, d)"
        "view (inner s') = (view s0)(k := None)"
        by auto
      ultimately show ?thesis using deny lost(2,4)
        by (intro conjI exI [of _ "s\<lparr>inner := s0\<rparr>"]) (auto simp: link_defs)
    qed (use inv deny L(1) in \<open>auto simp: link_defs intro!: exI [of _ s]\<close>)
  qed
qed

interpretation link: object_store "fault_ops shared_ops" "link_view shared_view"
    "link_inv shared_inv" "link_evolves shared_evolves" "link_view shared_issued"
  by (rule fault_object_store [OF shared_object_store])

interpretation plink: object_store "prefixed p (fault_ops shared_ops)"
    "\<lambda>s k. link_view shared_view s (p @ k)" "link_inv shared_inv" "link_evolves shared_evolves"
    "link_view shared_issued" for p
  by (rule prefixed_object_store [OF fault_object_store [OF shared_object_store]])

text \<open>A plan whose scope is empty rolls no dice at all.\<close>

definition quiet_plan :: fault_plan where
  "quiet_plan = with_only default_plan []"

lemma decide_quiet:
  assumes "plan s = quiet_plan"
  shows "decide op k mu co rb s = (Some Proceed, s)"
  using assms
  by (simp add: decide_def quiet_plan_def with_only_def default_plan_def draw_delay_def in_scope_def)

lemma quiet_ops:
  assumes "plan s = quiet_plan"
  shows "fault_get ops s k opts = on_inner (\<lambda>i. os_get ops i k opts) s"
    and "fault_head ops s k = on_inner (\<lambda>i. os_head ops i k) s"
    and "fault_put ops s k body m = on_inner (\<lambda>i. os_put ops i k body m) s"
    and "fault_delete ops s k iv = on_inner (\<lambda>i. os_delete ops i k iv) s"
  by (simp_all add: fault_get_def get_inner_def fault_head_def fault_put_def fault_delete_def
      fault_mutation_def decide_quiet [OF assms])

lemma quiet_inv: "plan s = quiet_plan \<Longrightarrow> link_inv I s = I (inner s)"
  by (simp add: link_inv_def quiet_plan_def with_only_def default_plan_def)

section \<open>Properties\<close>

text \<open>The dice of a healed link: every roll is at least the threshold zero.\<close>

lemma rng_f64_nonneg: "\<not> fst (rng_f64 r) < 0"
proof -
  have "0 \<le> real n / 2 ^ 53" for n by simp
  from this [of "unat (drop_bit 11 (fst (next_u64 r)))"] show ?thesis
    by (auto simp: rng_f64_def split: prod.splits)
qed

lemma decide_default:
  assumes "plan s = default_plan"
  shows "fst (decide op key mu co rb s) = Some Proceed"
    and "inner (snd (decide op key mu co rb s)) = inner s"
proof -
  have "rng_f64 r = (x, r') \<Longrightarrow> \<not> x < 0" for r x r' using rng_f64_nonneg [of r] by simp
  then show "fst (decide op key mu co rb s) = Some Proceed"
    using assms
    by (auto simp: decide_def decide_roll_def default_plan_def in_scope_def Let_def split: prod.splits)
  show "inner (snd (decide op key mu co rb s)) = inner s"
    by (rule decide_frame(1)) (rule prod.collapse [symmetric])
qed

lemma mutation_default:
  assumes "plan t = default_plan"
  shows "map_prod id inner (fault_mutation op key co call t) = call (inner t)"
proof -
  obtain u where "decide op key True co False t = (Some Proceed, u)" "inner u = inner t"
    using decide_default [OF assms, of op key True co False] by (metis prod.collapse)
  then show ?thesis by (auto simp: fault_mutation_def on_inner_def split: prod.splits)
qed

text \<open>
  A healed link is transparent: with the default plan every operation of the link returns
  what the inner store returns and leaves the inner store as the inner operation does.
\<close>

theorem healed_link_transparent:
  fixes s :: "'s fault_state"
  defines "t \<equiv> heal s"
  shows "map_prod id inner (fault_get ops t k opts) = os_get ops (inner s) k opts \<and>
    map_prod id inner (fault_head ops t k) = os_head ops (inner s) k \<and>
    map_prod id inner (fault_put ops t k body m) = os_put ops (inner s) k body m \<and>
    map_prod id inner (fault_delete ops t k iv) = os_delete ops (inner s) k iv \<and>
    map_prod id inner (fault_compose ops t k ks m) = os_compose ops (inner s) k ks m"
proof -
  have pl: "plan t = default_plan" "inner t = inner s" by (simp_all add: t_def heal_def)
  have D: "\<exists>u. decide op key mu co rb t = (Some Proceed, u) \<and> inner u = inner s" for op key mu co rb
    using decide_default [OF pl(1), of op key mu co rb] pl(2) by (metis prod.collapse)
  show ?thesis
    using D [of "''get''" k False "if_none_match opts \<noteq> None" True] D [of "''head''" k False False False]
    by (auto simp: fault_get_def get_inner_def fault_head_def fault_put_def fault_delete_def
        fault_compose_def mutation_default [OF pl(1)] pl(2) on_inner_def split: prod.splits)
qed

text \<open>
  A body read through a truncating link is never silently short: if collecting the stream
  succeeds, it yields the whole body of the inner read.
\<close>

theorem truncated_body_whole_or_error:
  "collect (truncate_stream body stop msg) = Ok b \<Longrightarrow> collect body = Ok b"
  by (rule collect_truncate)

theorem truncated_body_whole_or_error_witness:
  "collect [Ok [1, 2], Ok [3::nat]] = Ok [1, 2, 3]"
  using truncated_body_whole_or_error [of "[Ok [1, 2], Ok [3::nat]]" 3 "''cut''" "[1, 2, 3]"]
  by (simp add: truncate_stream_def)

text \<open>
  A write over a faulty link to a bucket shared with other clients, under any plan that loses
  no objects: success means that the precondition held and the body was stored under a fresh
  version at one instant during the call; \<open>PreconditionFailed\<close> means that this call wrote
  nothing; any other error means that either happened.
\<close>

theorem link_put_outcome:
  assumes "link_inv shared_inv s" "os_put (fault_ops shared_ops) s k (Bytes b) m = (r, s')"
  shows "\<exists>s0. link_evolves shared_evolves s s0 \<and> link_evolves shared_evolves s0 s' \<and>
    (case r of
       Inr meta \<Rightarrow> put_check k m (map_option fst (shared_view (inner s0) k)) = Ok () \<and>
         applied_put (link_view shared_view) (link_view shared_issued) s0 k b (meta_version meta) s'
     | Inl e \<Rightarrow> shared_view (inner s') = shared_view (inner s0) \<or>
         (\<not> is_precondition_failed e \<and>
          put_check k m (map_option fst (shared_view (inner s0) k)) = Ok () \<and>
          (\<exists>v. applied_put (link_view shared_view) (link_view shared_issued) s0 k b v s')))"
  using link.put_law [OF assms] unfolding link_view_def by blast

theorem link_put_outcome_witness:
  "\<exists>s0. link_evolves shared_evolves \<lparr>inner = (mem_empty, [[OtherPut ''k'' (Bytes [5::nat]) Create]]),
      plan = default_plan, rng = 1, fired_panics = []\<rparr> s0 \<and>
    shared_view (inner s0) ''k'' = Some (1, [5])"
proof -
  let ?s = "\<lparr>inner = (mem_empty, [[OtherPut ''k'' (Bytes [5::nat]) Create]]),
      plan = default_plan, rng = 1, fired_panics = []\<rparr>"
  have i: "link_inv shared_inv ?s"
    by (simp add: link_inv_def shared_inv_def default_plan_def)
  obtain r s' where put: "os_put (fault_ops shared_ops) ?s ''k'' (Bytes [6]) Create = (r, s')"
    by (cases "os_put (fault_ops shared_ops) ?s ''k'' (Bytes [6]) Create")
  have "map_prod id inner (os_put (fault_ops shared_ops) ?s ''k'' (Bytes [6]) Create) =
      os_put shared_ops (inner ?s) ''k'' (Bytes [6]) Create"
    using mutation_default [of ?s] by (simp add: fault_put_def)
  also have "\<dots> = (Err (PreconditionFailed ''k'' (Some 1)),
      (\<lparr>objects = [(''k'', (1, [5]))], counter = 1\<rparr>, []))"
    by (simp add: shared_ops_def shared_call_def others_def mem_put_def mem_empty_def
        next_version_def bt_get_def)
  finally have r: "r = Err (PreconditionFailed ''k'' (Some 1))"
      "inner s' = (\<lparr>objects = [(''k'', (1, [5]))], counter = 1\<rparr>, [])"
    unfolding put by simp_all
  from link_put_outcome [OF i put] obtain s0 where
    "link_evolves shared_evolves ?s s0" "shared_view (inner s0) = shared_view (inner s')"
    by (auto simp: r(1))
  moreover have "shared_view (inner s') ''k'' = Some (1, [5])"
    using r(2) by (simp add: shared_view_def mem_view_def bt_get_def)
  ultimately show ?thesis by metis
qed

end
