(* ===== verification/Wal_Format.thy ===== *)
theory Wal_Format
  imports Prelude
begin

text \<open>
  The on-store format of \<^verbatim>\<open>crates/walgit-proto\<close>: the messages of \<^verbatim>\<open>wal.proto\<close> that the
  write-ahead log uses, the object keys, the framing of log objects and the timestamps of
  \<^verbatim>\<open>src/lib.rs\<close>.  Protobuf itself (the \<open>prost\<close> crate) is a parameter: \<open>msg_codec\<close> for messages and
  \<open>varint_codec\<close> for lengths, with the laws the code relies on stated as \<open>codec_ok\<close> and
  \<open>varint_ok\<close>.

  Unsigned 64-bit fields are natural numbers; a 16-digit hexadecimal key holds every \<open>u64\<close>.
\<close>

section \<open>Messages\<close>

record timestamp =
  seconds :: int
  nanos :: int

datatype pack_kind = ObjectsPack | HistoryPack

record pack_ref =
  checksum :: string
  pack_size :: nat
  idx_size :: nat
  has_rev :: bool
  has_bitmap :: bool
  object_count :: nat
  pack_seq :: nat
  tier :: nat
  has_commit_graph :: bool
  pkind :: pack_kind
  derived_from :: string

record log_segment_ref =
  seg_key :: string
  first_seq :: nat
  last_seq :: nat
  seg_size :: nat
  sealed :: bool

record checkpoint_ref =
  cp_seq :: nat
  cp_key :: string
  cp_created_at :: "timestamp option"
  first_state_at :: "timestamp option"
  as_of :: "timestamp option"

record repo_settings =
  toml :: string
  settings_revision :: nat
  author :: string
  settings_updated_at :: "timestamp option"
  message :: string

record manifest =
  format_version :: nat
  repo :: string
  object_format :: string
  head_seq :: nat
  min_seq :: nat
  checkpoint :: "checkpoint_ref option"
  log_segments :: "log_segment_ref list"
  packs :: "pack_ref list"
  updated_at :: "timestamp option"
  writer :: string
  revision :: nat
  settings :: "repo_settings option"

datatype entry_kind =
    KUnspecified | KPush | KCompact | KRefUpdate | KCheckpoint | KSettings

record ref_update =
  upd_name :: string
  old_oid :: string
  new_oid :: string
  new_symbolic_target :: string
  new_peeled :: string

record ref_transaction =
  updates :: "ref_update list"
  push_options :: "string list"
  atomic :: bool

record log_entry =
  seq :: nat
  kind :: entry_kind
  pack :: "pack_ref option"
  txn :: "ref_transaction option"
  supersedes :: "string list"
  entry_checkpoint :: "checkpoint_ref option"
  created_at :: "timestamp option"
  entry_writer :: string
  entry_meta :: "(string \<times> string) list"
  entry_settings :: "repo_settings option"

record checkpoint_msg =
  ck_seq :: nat
  ck_object_format :: string
  ck_packs :: "pack_ref list"
  refs_key :: string
  ref_count :: nat
  bundle_key :: string
  ck_created_at :: "timestamp option"
  ck_writer :: string

record ref_msg =
  ref_name :: string
  ref_oid :: string
  ref_peeled :: string

record ref_snapshot =
  snap_seq :: nat
  snap_object_format :: string
  snap_refs :: "ref_msg list"
  snap_head_target :: string
  snap_created_at :: "timestamp option"

record lease =
  holder :: string
  purpose :: string
  acquired_at :: "timestamp option"
  expires_at :: "timestamp option"
  epoch :: nat

definition WAL_FORMAT_VERSION :: nat where
  "WAL_FORMAT_VERSION = 1"

section \<open>Object keys\<close>

text \<open>\<open>{:016x}\<close>: lower-case hexadecimal, zero-padded to sixteen digits.\<close>

definition hex_lower :: "nat \<Rightarrow> char" where
  "hex_lower n = ''0123456789abcdef'' ! (n mod 16)"

fun hex_digits :: "nat \<Rightarrow> nat \<Rightarrow> string" where
  "hex_digits 0 n = ''''"
| "hex_digits (Suc w) n = hex_digits w (n div 16) @ [hex_lower n]"

definition hex16 :: "nat \<Rightarrow> string" where
  "hex16 n = hex_digits 16 n"

definition repo_prefix :: "string \<Rightarrow> string \<Rightarrow> string" where
  "repo_prefix owner name = ''repos/'' @ owner @ ''/'' @ name @ ''/''"

definition MANIFEST :: string where "MANIFEST = ''manifest.pb''"
definition LOG_DIR :: string where "LOG_DIR = ''log/''"
definition WAL_DIR :: string where "WAL_DIR = ''wal/''"
definition CHECKPOINTS_DIR :: string where "CHECKPOINTS_DIR = ''checkpoints/''"
definition LEASES_DIR :: string where "LEASES_DIR = ''leases/''"
definition LFS_DIR :: string where "LFS_DIR = ''lfs/objects/''"

definition log_segment_key :: "nat \<Rightarrow> string" where
  "log_segment_key n = LOG_DIR @ hex16 n @ ''.pb''"

definition pack_key :: "string \<Rightarrow> string" where
  "pack_key c = WAL_DIR @ c @ ''.pack''"

definition idx_key :: "string \<Rightarrow> string" where
  "idx_key c = WAL_DIR @ c @ ''.idx''"

definition rev_key :: "string \<Rightarrow> string" where
  "rev_key c = WAL_DIR @ c @ ''.rev''"

definition bitmap_key :: "string \<Rightarrow> string" where
  "bitmap_key c = WAL_DIR @ c @ ''.bitmap''"

definition commit_graph_key :: "string \<Rightarrow> string" where
  "commit_graph_key c = WAL_DIR @ c @ ''.commit-graph''"

definition checkpoint_dir :: "nat \<Rightarrow> string" where
  "checkpoint_dir n = CHECKPOINTS_DIR @ hex16 n @ ''/''"

definition checkpoint_key :: "nat \<Rightarrow> string" where
  "checkpoint_key n = CHECKPOINTS_DIR @ hex16 n @ ''/checkpoint.pb''"

definition checkpoint_refs_key :: "nat \<Rightarrow> string" where
  "checkpoint_refs_key n = CHECKPOINTS_DIR @ hex16 n @ ''/refs.pb''"

definition lease_key :: "string \<Rightarrow> string" where
  "lease_key name = LEASES_DIR @ name @ ''.pb''"

definition is_ascii_hexdigit :: "char \<Rightarrow> bool" where
  "is_ascii_hexdigit c \<longleftrightarrow>
     (CHR ''0'' \<le> c \<and> c \<le> CHR ''9'') \<or> (CHR ''a'' \<le> c \<and> c \<le> CHR ''f'') \<or>
     (CHR ''A'' \<le> c \<and> c \<le> CHR ''F'')"

definition lfs_oid_ok :: "string \<Rightarrow> bool" where
  "lfs_oid_ok oid \<longleftrightarrow> length oid = 64 \<and> list_all is_ascii_hexdigit oid"

text \<open>Key for an ASCII oid, where every byte index is a character boundary.\<close>

definition lfs_key :: "string \<Rightarrow> string" where
  "lfs_key oid =
     (let (aa, bb) = (if length oid < 4 then ('''', '''')
                      else (take 2 oid, take 2 (drop 2 oid)))
      in LFS_DIR @ aa @ ''/'' @ bb @ ''/'' @ oid)"

section \<open>Timestamps\<close>

text \<open>A \<open>SystemTime\<close> is the number of nanoseconds since the epoch, negative before it.\<close>

type_synonym system_time = int

definition NANOS :: int where "NANOS = 1000000000"

definition i64_max :: int where "i64_max = 9223372036854775807"

definition from_system :: "system_time \<Rightarrow> timestamp" where
  "from_system t =
     (let d = max t 0
      in \<lparr>seconds = (if d div NANOS \<le> i64_max then d div NANOS else i64_max),
          nanos = d mod NANOS\<rparr>)"

definition to_system :: "timestamp \<Rightarrow> system_time" where
  "to_system t = max (seconds t) 0 * NANOS + max (nanos t) 0"

section \<open>Frames\<close>

text \<open>
  What \<open>prost\<close> provides: encoding and decoding of a message, and of a length.  Decoding a length
  returns the remaining input.
\<close>

record ('b, 'm) msg_codec =
  encode :: "'m \<Rightarrow> 'b list"
  decode :: "'b list \<Rightarrow> 'm option"

record 'b varint_codec =
  encode_varint :: "nat \<Rightarrow> 'b list"
  decode_varint :: "'b list \<Rightarrow> (nat \<times> 'b list) option"

definition codec_ok :: "('b, 'm) msg_codec \<Rightarrow> bool" where
  "codec_ok c \<longleftrightarrow> (\<forall>m. decode c (encode c m) = Some m)"

definition varint_ok :: "'b varint_codec \<Rightarrow> bool" where
  "varint_ok v \<longleftrightarrow>
     (\<forall>n rest. n \<le> u64_max \<longrightarrow> decode_varint v (encode_varint v n @ rest) = Some (n, rest)) \<and>
     (\<forall>n p. n \<le> u64_max \<longrightarrow> strict_prefix p (encode_varint v n) \<longrightarrow> decode_varint v p = None)"

definition encode_entry ::
  "'b varint_codec \<Rightarrow> ('b, log_entry) msg_codec \<Rightarrow> log_entry \<Rightarrow> 'b list \<Rightarrow> 'b list" where
  "encode_entry v c e out = out @ encode_varint v (length (encode c e)) @ encode c e"

definition encode_entries ::
  "'b varint_codec \<Rightarrow> ('b, log_entry) msg_codec \<Rightarrow> log_entry list \<Rightarrow> 'b list" where
  "encode_entries v c es = foldl (\<lambda>b e. encode_entry v c e b) [] es"

text \<open>
  The loop of \<open>decode_entries\<close>, with its variables \<open>out\<close> and \<open>pos\<close>.  \<open>None\<close> means the fuel ran out,
  \<open>Some (Err ())\<close> a frame that is not a message.  \<open>usize\<close> holds every length (64-bit host).
\<close>

fun decode_loop ::
  "nat \<Rightarrow> 'b varint_codec \<Rightarrow> ('b, log_entry) msg_codec \<Rightarrow> 'b list \<Rightarrow> log_entry list \<Rightarrow> nat
     \<Rightarrow> (unit, log_entry list \<times> nat) result option" where
  "decode_loop 0 v c buf out pos = None"
| "decode_loop (Suc fuel) v c buf out pos =
     (case decode_varint v (drop pos buf) of
        None \<Rightarrow> Some (Ok (out, pos))
      | Some (len, probe) \<Rightarrow>
          (if length probe < len then Some (Ok (out, pos))
           else case decode c (take len probe) of
             None \<Rightarrow> Some (Err ())
           | Some e \<Rightarrow> decode_loop fuel v c buf (out @ [e]) (length buf - length probe + len)))"

text \<open>Every iteration but the last consumes at least the byte of a length.\<close>

definition decode_entries ::
  "'b varint_codec \<Rightarrow> ('b, log_entry) msg_codec \<Rightarrow> 'b list
     \<Rightarrow> (unit, log_entry list \<times> nat) result option" where
  "decode_entries v c buf = decode_loop (Suc (length buf)) v c buf [] 0"

section \<open>Lemmas about keys\<close>

lemma less_append_same_length:
  "length xs = length ys \<Longrightarrow> xs < ys \<Longrightarrow> xs @ u < ys @ (v :: 'a::linorder list)"
proof (induction xs ys rule: list_induct2)
  case (Cons x xs y ys)
  then show ?case by auto
qed simp

lemma append_less_append [simp]: "p @ u < p @ v \<longleftrightarrow> u < (v :: 'a::linorder list)"
  by (induction p) auto

lemma length_hex_digits [simp]: "length (hex_digits w n) = w"
  by (induction w arbitrary: n) auto

lemma hex_lower_less:
  assumes "a mod 16 < b mod 16"
  shows "hex_lower a < hex_lower b"
proof -
  have "sorted_wrt (<) ''0123456789abcdef''" by (simp add: less_char_def)
  then show ?thesis
    using assms unfolding hex_lower_def by (rule sorted_wrt_nth_less) simp_all
qed

lemma hex_digits_less:
  assumes "a < b" "b < 16 ^ w"
  shows "hex_digits w a < hex_digits w b"
  using assms
proof (induction w arbitrary: a b)
  case (Suc w)
  show ?case
  proof (cases "a div 16 = b div 16")
    case True
    then have "a mod 16 < b mod 16"
      using Suc.prems(1) by (metis add_less_cancel_left div_mult_mod_eq)
    then show ?thesis using True hex_lower_less by simp
  next
    case False
    then have "a div 16 < b div 16" using Suc.prems(1) by (simp add: div_le_mono order.strict_iff_order)
    moreover have "b div 16 < 16 ^ w" using Suc.prems(2) by (simp add: less_mult_imp_div_less mult.commute)
    ultimately show ?thesis using Suc.IH by (simp add: less_append_same_length)
  qed
qed simp

lemma u64_max_hex: "n \<le> u64_max \<longleftrightarrow> n < 16 ^ 16"
  by (auto simp: u64_max_def)

lemma length_hex16 [simp]: "length (hex16 n) = 16"
  by (simp add: hex16_def)

lemma hex16_less: "a < b \<Longrightarrow> b \<le> u64_max \<Longrightarrow> hex16 a < hex16 b"
  unfolding hex16_def u64_max_hex by (rule hex_digits_less)

lemma hex16_inj: "hex16 a = hex16 b \<Longrightarrow> a \<le> u64_max \<Longrightarrow> b \<le> u64_max \<Longrightarrow> a = b"
  using hex16_less [of a b] hex16_less [of b a] by (metis linorder_neqE_nat order.irrefl)

lemma log_segment_key_less:
  assumes "a < b" "b \<le> u64_max"
  shows "log_segment_key a < log_segment_key b"
  using hex16_less [OF assms] less_append_same_length [of "hex16 a" "hex16 b"]
  by (simp add: log_segment_key_def)

lemma log_segment_key_inj:
  "log_segment_key a = log_segment_key b \<Longrightarrow> a \<le> u64_max \<Longrightarrow> b \<le> u64_max \<Longrightarrow> a = b"
  by (auto simp: log_segment_key_def dest: hex16_inj)

lemma log_key_neq_manifest [simp]:
  "log_segment_key n \<noteq> MANIFEST" "MANIFEST \<noteq> log_segment_key n"
  by (simp_all add: log_segment_key_def MANIFEST_def LOG_DIR_def)

section \<open>Lemmas about timestamps\<close>

lemma to_from_system:
  "t \<le> i64_max * NANOS \<Longrightarrow> to_system (from_system t) = max t 0"
  unfolding from_system_def to_system_def NANOS_def i64_max_def Let_def by auto

lemma from_system_mono:
  assumes "s \<le> t" "t \<le> i64_max * NANOS"
  shows "to_system (from_system s) \<le> to_system (from_system t)"
  using assms to_from_system [of s] to_from_system [of t] by auto

section \<open>Lemmas about frames\<close>

lemma encode_entries_snoc:
  "encode_entries v c (es @ [e]) =
     encode_entries v c es @ encode_varint v (length (encode c e)) @ encode c e"
  by (simp add: encode_entries_def encode_entry_def)

lemma foldl_encode:
  "foldl (\<lambda>b e. encode_entry v c e b) b es = b @ encode_entries v c es"
proof (induction es rule: rev_induct)
  case Nil
  then show ?case by (simp add: encode_entries_def)
next
  case (snoc e es)
  then show ?case by (simp add: encode_entries_snoc) (simp add: encode_entry_def)
qed

lemma encode_entries_Cons:
  "encode_entries v c (e # es) =
     encode_varint v (length (encode c e)) @ encode c e @ encode_entries v c es"
proof -
  have "encode_entries v c (e # es) = encode_entry v c e [] @ encode_entries v c es"
    using foldl_encode [of v c "encode_entry v c e []" es] by (simp add: encode_entries_def)
  then show ?thesis by (simp add: encode_entry_def)
qed

text \<open>An input that does not start with a complete frame.\<close>

definition incomplete :: "'b varint_codec \<Rightarrow> 'b list \<Rightarrow> bool" where
  "incomplete v t \<longleftrightarrow>
     (case decode_varint v t of None \<Rightarrow> True | Some (len, probe) \<Rightarrow> length probe < len)"

lemma decode_loop_frames:
  assumes "codec_ok c" "varint_ok v" "incomplete v t"
    "\<forall>e \<in> set es. length (encode c e) \<le> u64_max"
    "length es < fuel"
  shows "decode_loop fuel v c (p @ encode_entries v c es @ t) out (length p) =
    Some (Ok (out @ es, length p + length (encode_entries v c es)))"
  using assms(4,5)
proof (induction es arbitrary: fuel p out)
  case Nil
  then obtain f where "fuel = Suc f" by (cases fuel) auto
  then show ?case
    using assms(3) by (auto simp: encode_entries_def incomplete_def split: option.splits)
next
  case (Cons e es)
  then obtain f where f: "fuel = Suc f" "length es < f" by (cases fuel) auto
  let ?m = "encode c e" and ?l = "encode_varint v (length (encode c e))"
  let ?rest = "encode_entries v c es @ t" and ?p = "p @ ?l @ ?m"
  have dv: "decode_varint v (?l @ ?m @ ?rest) = Some (length ?m, ?m @ ?rest)"
    using assms(2) Cons.prems(1) by (simp add: varint_ok_def)
  have dm: "decode c ?m = Some e" using assms(1) by (simp add: codec_ok_def)
  have pos: "length (p @ ?l @ ?m @ ?rest) - length (?m @ ?rest) + length ?m = length ?p"
    by simp
  have "decode_loop fuel v c (p @ encode_entries v c (e # es) @ t) out (length p) =
      decode_loop f v c (?p @ encode_entries v c es @ t) (out @ [e]) (length ?p)"
    using dv dm pos by (simp add: f(1) encode_entries_Cons add.assoc)
  also have "\<dots> = Some (Ok ((out @ [e]) @ es, length ?p + length (encode_entries v c es)))"
    using Cons.IH [of f ?p "out @ [e]"] Cons.prems f(2) by simp
  finally show ?case by (simp add: encode_entries_Cons)
qed

lemma varint_nonempty:
  assumes "varint_ok v" "n \<le> u64_max"
  shows "encode_varint v n \<noteq> []"
proof
  assume e: "encode_varint v n = []"
  have law: "\<And>m rest. m \<le> u64_max \<Longrightarrow> decode_varint v (encode_varint v m @ rest) = Some (m, rest)"
    and pre: "\<And>m p. m \<le> u64_max \<Longrightarrow> strict_prefix p (encode_varint v m) \<Longrightarrow> decode_varint v p = None"
    using assms(1) by (auto simp: varint_ok_def)
  obtain m where m: "m \<le> u64_max" "m \<noteq> n"
    using that [of 0] that [of 1] by (cases n) (auto simp: u64_max_def)
  have d: "decode_varint v [] = Some (n, [])" using law [OF assms(2), of "[]"] e by simp
  have "encode_varint v m \<noteq> []" using law [OF m(1), of "[]"] d m(2) by auto
  then show False using pre [OF m(1), of "[]"] d by (simp add: strict_prefix_def)
qed

lemma encode_entries_length:
  assumes "varint_ok v" "\<forall>e \<in> set es. length (encode c e) \<le> u64_max"
  shows "length es \<le> length (encode_entries v c es)"
  using assms(2)
proof (induction es)
  case (Cons e es)
  then have "encode_varint v (length (encode c e)) \<noteq> []"
    using varint_nonempty [OF assms(1)] by simp
  then have "1 \<le> length (encode_varint v (length (encode c e)))"
    by (cases "encode_varint v (length (encode c e))") auto
  then show ?case using Cons by (simp add: encode_entries_Cons)
qed simp

lemma decode_encode_entries:
  assumes "codec_ok c" "varint_ok v" "incomplete v t"
    "\<forall>e \<in> set es. length (encode c e) \<le> u64_max"
  shows "decode_entries v c (encode_entries v c es @ t) =
    Some (Ok (es, length (encode_entries v c es)))"
  using decode_loop_frames [OF assms, of "Suc (length (encode_entries v c es @ t))" "[]" "[]"]
    encode_entries_length [OF assms(2,4)] by (simp add: decode_entries_def)

text \<open>A frame cut short is incomplete, whether in its length or in its message.\<close>

lemma cut_frame_incomplete:
  assumes "varint_ok v" "length (encode c e) \<le> u64_max"
    "strict_prefix t (encode_varint v (length (encode c e)) @ encode c e)"
  shows "incomplete v t"
proof (cases "strict_prefix t (encode_varint v (length (encode c e)))")
  case True
  then show ?thesis using assms(1,2) by (simp add: incomplete_def varint_ok_def)
next
  case False
  let ?l = "encode_varint v (length (encode c e))"
  from assms(3) obtain u where u: "?l @ encode c e = t @ u" "u \<noteq> []"
    by (auto simp: strict_prefix_def prefix_def)
  have "prefix ?l t"
    using u False by (metis append_eq_append_conv2 prefixI prefix_order.less_le prefix_order.refl)
  then obtain w where w: "t = ?l @ w" by (auto simp: prefix_def)
  have "length w < length (encode c e)" using u by (simp add: w)
  moreover have "decode_varint v t = Some (length (encode c e), w)"
    using assms(1,2) by (simp add: varint_ok_def w)
  ultimately show ?thesis by (simp add: incomplete_def)
qed

section \<open>Properties\<close>

text \<open>
  Log object keys sort like the sequence numbers they name, so a listing of \<open>log/\<close> is in
  sequence order and distinct sequence numbers have distinct keys, for every \<open>u64\<close>.
\<close>

theorem log_segment_keys_ordered:
  assumes "a \<le> u64_max" "b \<le> u64_max"
  shows "log_segment_key a < log_segment_key b \<longleftrightarrow> a < b"
  using assms log_segment_key_less [of a b] log_segment_key_less [of b a]
  by (metis linorder_neqE_nat order.asym order.irrefl)

theorem log_segment_keys_ordered_witness:
  "log_segment_key 66 = ''log/0000000000000042.pb'' \<and> log_segment_key 9 < log_segment_key 66"
proof -
  have "log_segment_key 66 = ''log/0000000000000042.pb''" by code_simp
  then show ?thesis using log_segment_keys_ordered [of 9 66] by (simp add: u64_max_def)
qed

text \<open>
  Framing of log objects: decoding what \<open>encode_entries\<close> produced, followed by any cut frame of
  a further entry (a writer that stopped mid-append), returns exactly the entries and the number
  of bytes of the complete frames.
\<close>

theorem decode_frames_with_cut_tail:
  assumes "codec_ok c" "varint_ok v"
    "\<forall>e \<in> set es. length (encode c e) \<le> u64_max" "length (encode c e) \<le> u64_max"
    "strict_prefix t (encode_entries v c [e])"
  shows "decode_entries v c (encode_entries v c es @ t) =
    Some (Ok (es, length (encode_entries v c es)))"
  using assms cut_frame_incomplete [OF assms(2,4)]
  by (intro decode_encode_entries) (auto simp: encode_entries_Cons, simp add: encode_entries_def)

text \<open>A small instance of the codecs: one symbol for a length and one for a message.\<close>

datatype sym = Len nat | Msg log_entry

definition sym_varint :: "sym varint_codec" where
  "sym_varint = \<lparr>encode_varint = (\<lambda>n. [Len n]),
     decode_varint = (\<lambda>xs. case xs of Len n # r \<Rightarrow> Some (n, r) | _ \<Rightarrow> None)\<rparr>"

definition sym_codec :: "(sym, log_entry) msg_codec" where
  "sym_codec = \<lparr>encode = (\<lambda>e. [Msg e]),
     decode = (\<lambda>xs. case xs of [Msg e] \<Rightarrow> Some e | _ \<Rightarrow> None)\<rparr>"

definition sample_entry :: "nat \<Rightarrow> log_entry" where
  "sample_entry n = \<lparr>seq = n, kind = KPush, pack = None, txn = None, supersedes = [],
     entry_checkpoint = None, created_at = None, entry_writer = ''w'', entry_meta = [],
     entry_settings = None\<rparr>"

lemma sym_varint_ok: "varint_ok sym_varint"
  by (auto simp: varint_ok_def sym_varint_def strict_prefix_def prefix_def Cons_eq_append_conv)

lemma sym_codec_ok: "codec_ok sym_codec"
  by (simp add: codec_ok_def sym_codec_def)

theorem decode_frames_with_cut_tail_witness:
  "decode_entries sym_varint sym_codec [Len 1, Msg (sample_entry 1), Len 1] =
     Some (Ok ([sample_entry 1], 2))"
proof -
  have e: "encode_entries sym_varint sym_codec [x] = [Len 1, Msg x]" for x
    by (simp add: encode_entries_Cons) (simp add: encode_entries_def sym_varint_def sym_codec_def)
  have "strict_prefix [Len 1] (encode_entries sym_varint sym_codec [sample_entry 2])"
    unfolding e by (simp add: strict_prefix_def)
  from decode_frames_with_cut_tail [OF sym_codec_ok sym_varint_ok _ _ this, of "[sample_entry 1]"]
  show ?thesis unfolding e by (simp add: sym_codec_def u64_max_def)
qed

text \<open>
  Timestamps: converting a system time to a protobuf timestamp and back is the identity from
  the epoch on (earlier times become the epoch), for every time the seconds field can hold.
\<close>

theorem timestamp_roundtrip:
  assumes "t \<le> i64_max * NANOS"
  shows "to_system (from_system t) = max t 0"
  using assms by (rule to_from_system)

theorem timestamp_roundtrip_witness:
  "from_system 1500000001 = \<lparr>seconds = 1, nanos = 500000001\<rparr> \<and>
   to_system (from_system 1500000001) = 1500000001"
  using timestamp_roundtrip [of 1500000001]
  by (simp add: from_system_def NANOS_def i64_max_def Let_def)

end
