(* ===== verification/Coord.thy ===== *)
theory Coord
  imports Fault_Store Wal_Format
begin

text \<open>
  The coordination primitives of \<^verbatim>\<open>crates/walgit-store/src/coord.rs\<close>: the compare-and-swap loop
  \<open>cas_update\<close>, message reads, and leases.  Each is a function over an arbitrary store, so its
  lemmas are proved once in the locale \<open>object_store\<close> and hold on the in-memory backend, on a
  faulty link to a shared bucket, and on prefixed views of both.

  \<open>SystemTime::now()\<close> is the parameter \<open>now\<close> of the function that reads the clock.  The last part
  is a state machine of clients competing for one lease, whose invariant gives mutual exclusion.
\<close>

section \<open>Definitions\<close>

definition LEASE_SKEW_TOLERANCE :: int where
  "LEASE_SKEW_TOLERANCE = 2 * NANOS"

datatype coord_error =
    CStore store_error
  | CDecode
  | CAborted
  | CLeaseLost
  | CRetriesExhausted string nat
  | COther string

definition decode_object ::
  "('a, 'm) msg_codec \<Rightarrow> (object_meta \<times> 'a list) option
     \<Rightarrow> (coord_error, (object_meta \<times> 'm) option) result" where
  "decode_object c r =
     (case r of
        None \<Rightarrow> Ok None
      | Some (meta, bytes) \<Rightarrow>
          (case decode c bytes of None \<Rightarrow> Err CDecode | Some msg \<Rightarrow> Ok (Some (meta, msg))))"

definition get_message ::
  "('s, 'a) store_ops \<Rightarrow> ('a, 'm) msg_codec \<Rightarrow> 's \<Rightarrow> string
     \<Rightarrow> (coord_error, (object_meta \<times> 'm) option) result \<times> 's" where
  "get_message ops c s key =
     (case get_bytes ops s key of
        (Inl e, s') \<Rightarrow> (Err (CStore e), s')
      | (Inr r, s') \<Rightarrow> (decode_object c r, s'))"

definition get_message_if_changed ::
  "('s, 'a) store_ops \<Rightarrow> ('a, 'm) msg_codec \<Rightarrow> 's \<Rightarrow> string \<Rightarrow> version
     \<Rightarrow> (coord_error, (object_meta \<times> 'm) option) result \<times> 's" where
  "get_message_if_changed ops c s key known =
     (case get_if_changed ops s key known of
        (Inl e, s') \<Rightarrow> (if is_not_found e then Ok None else Err (CStore e), s')
      | (Inr r, s') \<Rightarrow> (decode_object c r, s'))"

text \<open>
  The loop of \<open>cas_update\<close>: \<open>left\<close> is \<open>max_retries - attempts\<close>.  The delay between attempts has no
  effect on the state.
\<close>

definition cas_mode :: "(object_meta \<times> 'm) option \<Rightarrow> put_mode" where
  "cas_mode current =
     (case current of Some (meta, _) \<Rightarrow> Update (meta_version meta) | None \<Rightarrow> Create)"

fun cas_loop ::
  "nat \<Rightarrow> nat \<Rightarrow> ('s, 'a) store_ops \<Rightarrow> ('a, 'm) msg_codec \<Rightarrow> string
     \<Rightarrow> ('m option \<Rightarrow> (coord_error, 'm option) result) \<Rightarrow> 's
     \<Rightarrow> (coord_error, (object_meta \<times> 'm) option) result \<times> 's" where
  "cas_loop left attempts ops c key f s =
     (case get_message ops c s key of
        (Inl e, s1) \<Rightarrow> (Err e, s1)
      | (Inr current, s1) \<Rightarrow>
          (case f (map_option snd current) of
             Inl e \<Rightarrow> (Err e, s1)
           | Inr None \<Rightarrow> (Ok None, s1)
           | Inr (Some new) \<Rightarrow>
               (case put_bytes ops s1 key (encode c new) (cas_mode current) of
                  (Inr meta, s2) \<Rightarrow> (Ok (Some (meta, new)), s2)
                | (Inl e, s2) \<Rightarrow>
                    (if is_precondition_failed e \<or> is_retryable e then
                       (case left of
                          0 \<Rightarrow> (Err (CRetriesExhausted key (Suc attempts)), s2)
                        | Suc n \<Rightarrow> cas_loop n (Suc attempts) ops c key f s2)
                     else (Err (CStore e), s2)))))"

declare cas_loop.simps [simp del]

definition cas_update ::
  "('s, 'a) store_ops \<Rightarrow> ('a, 'm) msg_codec \<Rightarrow> string \<Rightarrow> nat
     \<Rightarrow> ('m option \<Rightarrow> (coord_error, 'm option) result) \<Rightarrow> 's
     \<Rightarrow> (coord_error, (object_meta \<times> 'm) option) result \<times> 's" where
  "cas_update ops c key max_retries f s = cas_loop max_retries 0 ops c key f s"

definition make_lease :: "string \<Rightarrow> string \<Rightarrow> system_time \<Rightarrow> int \<Rightarrow> nat \<Rightarrow> lease" where
  "make_lease hldr purp now ttl ep =
     \<lparr>holder = hldr, purpose = purp, acquired_at = Some (from_system now),
      expires_at = Some (from_system (now + ttl)), epoch = ep\<rparr>"

record lease_guard =
  g_key :: string
  g_holder :: string
  g_purpose :: string
  g_version :: version
  g_expires_at :: system_time
  g_epoch :: nat
  g_released :: bool

definition guard_new ::
  "string \<Rightarrow> string \<Rightarrow> string \<Rightarrow> version \<Rightarrow> system_time \<Rightarrow> int \<Rightarrow> nat \<Rightarrow> lease_guard" where
  "guard_new key hldr purp v now ttl ep =
     \<lparr>g_key = key, g_holder = hldr, g_purpose = purp, g_version = v,
      g_expires_at = now + ttl, g_epoch = ep, g_released = False\<rparr>"

definition heartbeat ::
  "('s, 'a) store_ops \<Rightarrow> ('a, lease) msg_codec \<Rightarrow> system_time \<Rightarrow> int \<Rightarrow> lease_guard \<Rightarrow> 's
     \<Rightarrow> (coord_error, unit) result \<times> lease_guard \<times> 's" where
  "heartbeat ops c now ttl g0 s =
     (let g = g0\<lparr>g_epoch := g_epoch g0 + 1\<rparr>;
          l = make_lease (g_holder g) (g_purpose g) now ttl (g_epoch g)
      in case put_bytes ops s (g_key g) (encode c l) (Update (g_version g)) of
           (Inr meta, s') \<Rightarrow>
             (Ok (), g\<lparr>g_version := meta_version meta, g_expires_at := now + ttl\<rparr>, s')
         | (Inl e, s') \<Rightarrow>
             (if is_precondition_failed e then Err CLeaseLost else Err (CStore e), g, s'))"

definition release ::
  "('s, 'a) store_ops \<Rightarrow> lease_guard \<Rightarrow> 's \<Rightarrow> (coord_error, unit) result \<times> 's" where
  "release ops g s =
     (case os_delete ops s (g_key g) (Some (g_version g)) of
        (Inr _, s') \<Rightarrow> (Ok (), s')
      | (Inl e, s') \<Rightarrow>
          (if is_precondition_failed e \<or> is_not_found e then Ok () else Err (CStore e), s'))"

text \<open>
  \<open>try_acquire\<close> in its two halves, the read and the conditional write, so that the state machine
  below can interleave other clients between them.
\<close>

definition lease_expiry :: "lease \<Rightarrow> system_time" where
  "lease_expiry l = (case expires_at l of None \<Rightarrow> 0 | Some t \<Rightarrow> to_system t)"

definition acquire_put ::
  "('s, 'a) store_ops \<Rightarrow> ('a, lease) msg_codec \<Rightarrow> system_time \<Rightarrow> string \<Rightarrow> string \<Rightarrow> string \<Rightarrow> int
     \<Rightarrow> nat \<Rightarrow> put_mode \<Rightarrow> 's \<Rightarrow> (coord_error, lease_guard option) result \<times> 's" where
  "acquire_put ops c now key hldr purp ttl ep mode s =
     (case put_bytes ops s key (encode c (make_lease hldr purp now ttl ep)) mode of
        (Inr meta, s') \<Rightarrow> (Ok (Some (guard_new key hldr purp (meta_version meta) now ttl ep)), s')
      | (Inl e, s') \<Rightarrow> (if is_precondition_failed e then Ok None else Err (CStore e), s'))"

definition acquire_write ::
  "('s, 'a) store_ops \<Rightarrow> ('a, lease) msg_codec \<Rightarrow> system_time \<Rightarrow> string \<Rightarrow> string \<Rightarrow> string \<Rightarrow> int
     \<Rightarrow> (object_meta \<times> lease) option \<Rightarrow> 's \<Rightarrow> (coord_error, lease_guard option) result \<times> 's" where
  "acquire_write ops c now key hldr purp ttl current s =
     (case current of
        None \<Rightarrow> acquire_put ops c now key hldr purp ttl 0 Create s
      | Some (meta, existing) \<Rightarrow>
          (if lease_expiry existing + LEASE_SKEW_TOLERANCE \<le> now
           then acquire_put ops c now key hldr purp ttl (epoch existing + 1)
                  (Update (meta_version meta)) s
           else (Ok None, s)))"

definition try_acquire ::
  "('s, 'a) store_ops \<Rightarrow> ('a, lease) msg_codec \<Rightarrow> system_time \<Rightarrow> string \<Rightarrow> string \<Rightarrow> string \<Rightarrow> int
     \<Rightarrow> 's \<Rightarrow> (coord_error, lease_guard option) result \<times> 's" where
  "try_acquire ops c now key hldr purp ttl s =
     (case get_message ops c s key of
        (Inl e, s1) \<Rightarrow> (Err e, s1)
      | (Inr current, s1) \<Rightarrow> acquire_write ops c now key hldr purp ttl current s1)"

text \<open>
  \<open>acquire\<close> polls until the deadline.  The two clocks of each round (wall clock and \<open>Instant\<close>) are
  a list; the list ends when no further round is observed, which is \<open>None\<close>.
\<close>

fun acquire ::
  "('s, 'a) store_ops \<Rightarrow> ('a, lease) msg_codec \<Rightarrow> string \<Rightarrow> string \<Rightarrow> string \<Rightarrow> int \<Rightarrow> int
     \<Rightarrow> (system_time \<times> int) list \<Rightarrow> 's
     \<Rightarrow> (coord_error, lease_guard option) result option \<times> 's" where
  "acquire ops c key hldr purp ttl deadline [] s = (None, s)"
| "acquire ops c key hldr purp ttl deadline ((now, inst) # ts) s =
     (case try_acquire ops c now key hldr purp ttl s of
        (Inl e, s') \<Rightarrow> (Some (Err e), s')
      | (Inr (Some g), s') \<Rightarrow> (Some (Ok (Some g)), s')
      | (Inr None, s') \<Rightarrow>
          (if deadline \<le> inst then (Some (Ok None), s')
           else acquire ops c key hldr purp ttl deadline ts s'))"

section \<open>What the primitives do on any store\<close>

text \<open>The value of a message object: \<open>None\<close> if absent; \<open>message_at\<close> relates a state to it.\<close>

definition message_at ::
  "('s \<Rightarrow> string \<Rightarrow> (version \<times> 'a list) option) \<Rightarrow> ('a, 'm) msg_codec \<Rightarrow> 's \<Rightarrow> string
     \<Rightarrow> (version \<times> 'm) option \<Rightarrow> bool" where
  "message_at view c s k cur =
     (case cur of
        None \<Rightarrow> view s k = None
      | Some (v, m) \<Rightarrow> (\<exists>d. view s k = Some (v, d) \<and> decode c d = Some m))"

definition ver :: "(object_meta \<times> 'm) option \<Rightarrow> (version \<times> 'm) option" where
  "ver = map_option (\<lambda>(meta, m). (meta_version meta, m))"

text \<open>
  What \<open>cas_update\<close> promises.  If it reports a write, there was an instant \<open>s0\<close> between call and
  return at which the object had the value \<open>f\<close> was applied to, and the write replaced that value;
  if it reports that \<open>f\<close> declined, \<open>f\<close> declined a value the object had; whatever it reports, the
  bucket only moved forward.
\<close>

definition cas_outcome ::
  "('s \<Rightarrow> string \<Rightarrow> (version \<times> 'a list) option) \<Rightarrow> ('s \<Rightarrow> bool) \<Rightarrow> ('s \<Rightarrow> 's \<Rightarrow> bool)
     \<Rightarrow> ('s \<Rightarrow> version \<Rightarrow> bool) \<Rightarrow> ('a, 'm) msg_codec \<Rightarrow> string
     \<Rightarrow> ('m option \<Rightarrow> (coord_error, 'm option) result) \<Rightarrow> 's
     \<Rightarrow> (coord_error, (object_meta \<times> 'm) option) result \<Rightarrow> 's \<Rightarrow> bool" where
  "cas_outcome view invar evolves issued c k f s r s' \<longleftrightarrow>
     invar s' \<and> evolves s s' \<and>
     (case r of
        Inl e \<Rightarrow> True
      | Inr None \<Rightarrow>
          (\<exists>s0 cur. evolves s s0 \<and> evolves s0 s' \<and> message_at view c s0 k cur \<and>
             f (map_option snd cur) = Ok None)
      | Inr (Some (meta, new)) \<Rightarrow>
          (\<exists>s0 cur. evolves s s0 \<and> evolves s0 s' \<and> message_at view c s0 k cur \<and>
             f (map_option snd cur) = Ok (Some new) \<and>
             applied_put view issued s0 k (encode c new) (meta_version meta) s'))"

context object_store
begin

lemma get_message_law:
  assumes "invar s" "get_message ops c s k = (r, s')"
  shows "invar s' \<and> evolves s s' \<and> (\<forall>cur. r = Ok cur \<longrightarrow> message_at view c s' k (ver cur))"
proof -
  obtain g t where g: "get_bytes ops s k = (g, t)" by (cases "get_bytes ops s k")
  note L = get_bytes_law [OF assms(1) g]
  show ?thesis
    using assms(2) L g
    by (auto simp: get_message_def decode_object_def message_at_def ver_def
        split: sum.splits option.splits)
qed

text \<open>
  A write conditional on what was read replaces exactly what was read: between the read and the
  write the value did not change.
\<close>

lemma read_then_put:
  assumes "invar s1" "message_at view c s1 k (ver cur)"
    and "invar s0" "evolves s1 s0"
    and "put_check k (cas_mode cur) (map_option fst (view s0 k)) = Ok ()"
  shows "message_at view c s0 k (ver cur)"
proof (cases cur)
  case None
  then show ?thesis using assms(5) by (simp add: cas_mode_def put_check_Ok_iff message_at_def ver_def)
next
  case (Some p)
  obtain meta m where p: "p = (meta, m)" by (cases p)
  obtain d where d: "view s1 k = Some (meta_version meta, d)" "decode c d = Some m"
    using assms(2) Some p by (auto simp: message_at_def ver_def)
  obtain d' where d': "view s0 k = Some (meta_version meta, d')"
    using assms(5) Some p by (auto simp: cas_mode_def put_check_Ok_iff)
  have "d' = d" using version_identifies_body [OF assms(1,4) d(1) d'] .
  then show ?thesis using d d' Some p by (simp add: message_at_def ver_def)
qed

lemma cas_outcome_earlier:
  assumes "evolves s s2" "cas_outcome view invar evolves issued c k f s2 r s'"
  shows "cas_outcome view invar evolves issued c k f s r s'"
proof (cases "\<exists>x. r = Ok x")
  case True
  then obtain x where x: "r = Ok x" ..
  show ?thesis
    using assms evolves_trans [OF assms(1)]
    by (cases x) (auto simp: cas_outcome_def x)
next
  case False
  then obtain e where "r = Err e" by (cases r) auto
  then show ?thesis
    using assms evolves_trans [OF assms(1)] by (auto simp: cas_outcome_def)
qed

lemma snd_ver [simp]: "map_option snd (ver cur) = map_option snd cur"
  by (cases cur) (auto simp: ver_def)

text \<open>One round: it settles the outcome, or leaves a later state for the next round.\<close>

lemma cas_round:
  assumes "invar s" "cas_loop left att ops c k f s = (r, s')"
  shows "cas_outcome view invar evolves issued c k f s r s' \<or>
    (\<exists>n s2. left = Suc n \<and> invar s2 \<and> evolves s s2 \<and>
       cas_loop n (Suc att) ops c k f s2 = (r, s'))"
proof -
  obtain g s1 where g: "get_message ops c s k = (g, s1)" by (cases "get_message ops c s k")
  note G = get_message_law [OF assms(1) g]
  show ?thesis
  proof (cases "\<exists>cur new. g = Ok cur \<and> f (map_option snd cur) = Ok (Some new)")
    case False
    then show ?thesis
      using assms(2) g G evolves_refl
      by (auto simp: cas_loop.simps [of left] cas_outcome_def split: sum.splits option.splits)
         (metis evolves_refl snd_ver)+
  next
    case True
    then obtain cur new where cur: "g = Ok cur" "f (map_option snd cur) = Ok (Some new)" by blast
    obtain w s2 where w: "os_put ops s1 k (Bytes (encode c new)) (cas_mode cur) = (w, s2)"
      by (cases "os_put ops s1 k (Bytes (encode c new)) (cas_mode cur)")
    have at1: "message_at view c s1 k (ver cur)" and s1: "invar s1" "evolves s s1"
      using G cur by auto
    note P = put_law [OF s1(1) w]
    then have s2: "invar s2" "evolves s s2" using evolves_trans [OF s1(2)] by auto
    show ?thesis
    proof (cases w)
      case (Inr meta)
      then obtain s0 where s0: "invar s0" "evolves s1 s0" "evolves s0 s2"
          "put_check k (cas_mode cur) (map_option fst (view s0 k)) = Ok ()"
          "applied_put view issued s0 k (encode c new) (meta_version meta) s2"
        using P by auto
      have "message_at view c s0 k (ver cur)" using read_then_put [OF s1(1) at1 s0(1,2,4)] .
      moreover have "r = Ok (Some (meta, new))" "s' = s2"
        using assms(2) g cur w Inr by (auto simp: cas_loop.simps [of left] put_bytes_def)
      ultimately have "cas_outcome view invar evolves issued c k f s r s'"
        using s0 s2 cur(2) evolves_trans [OF s1(2)]
        by (auto simp: cas_outcome_def intro!: exI [of _ s0] exI [of _ "ver cur"])
      then show ?thesis ..
    next
      case (Inl e)
      then show ?thesis
        using assms(2) g cur w s2
        by (auto simp: cas_loop.simps [of left] put_bytes_def cas_outcome_def
            split: if_splits nat.splits)
    qed
  qed
qed

lemma cas_loop_law:
  assumes "invar s" "cas_loop left att ops c k f s = (r, s')"
  shows "cas_outcome view invar evolves issued c k f s r s'"
  using assms
proof (induction left arbitrary: att s)
  case 0
  then show ?case using cas_round by fastforce
next
  case (Suc n)
  then show ?case using cas_round [OF Suc.prems] cas_outcome_earlier by blast
qed

text \<open>Acquiring, renewing and giving up a lease.\<close>

lemma acquire_put_law:
  assumes "invar s" "acquire_put ops c now k h p ttl ep mode s = (r, s')"
  shows "invar s' \<and> evolves s s' \<and>
    (case r of
       Inr (Some g) \<Rightarrow>
         (\<exists>s0. invar s0 \<and> evolves s s0 \<and> evolves s0 s' \<and>
            put_check k mode (map_option fst (view s0 k)) = Ok () \<and>
            applied_put view issued s0 k (encode c (make_lease h p now ttl ep)) (g_version g) s' \<and>
            g = guard_new k h p (g_version g) now ttl ep)
     | Inr None \<Rightarrow> (\<exists>s0. evolves s s0 \<and> view s' = view s0)
     | Inl e \<Rightarrow> True)"
proof -
  let ?b = "encode c (make_lease h p now ttl ep)"
  obtain w t where w: "os_put ops s k (Bytes ?b) mode = (w, t)" by (cases "os_put ops s k (Bytes ?b) mode")
  from put_law [OF assms(1) w] show ?thesis
    using assms(2) w
    by (auto simp: acquire_put_def put_bytes_def guard_new_def split: sum.splits if_splits)
qed

text \<open>
  A lease is taken only where there was none, or over one that had expired, by the clock of the
  taker, more than the tolerance ago; and the lease that was judged is the one replaced.
\<close>

lemma try_acquire_law:
  assumes "invar s" "try_acquire ops c now k h p ttl s = (Ok (Some g), s')"
  shows "invar s' \<and> evolves s s' \<and>
    (\<exists>s0 cur. invar s0 \<and> evolves s s0 \<and> evolves s0 s' \<and> message_at view c s0 k cur \<and>
      (\<forall>v l. cur = Some (v, l) \<longrightarrow> lease_expiry l + LEASE_SKEW_TOLERANCE \<le> now) \<and>
      g = guard_new k h p (g_version g) now ttl (case cur of None \<Rightarrow> 0 | Some (v, l) \<Rightarrow> epoch l + 1) \<and>
      applied_put view issued s0 k (encode c (make_lease h p now ttl (g_epoch g))) (g_version g) s')"
proof -
  obtain r s1 where g: "get_message ops c s k = (r, s1)" by (cases "get_message ops c s k")
  obtain cur where cur: "r = Ok cur" "acquire_write ops c now k h p ttl cur s1 = (Ok (Some g), s')"
    using assms(2) g by (cases r) (auto simp: try_acquire_def)
  have G: "invar s1" "evolves s s1" "message_at view c s1 k (ver cur)"
    using get_message_law [OF assms(1) g] cur(1) by auto
  let ?ep = "case cur of None \<Rightarrow> 0 | Some (m, l) \<Rightarrow> epoch l + 1"
  have put: "acquire_put ops c now k h p ttl ?ep (cas_mode cur) s1 = (Ok (Some g), s')"
    and exp: "\<And>m l. cur = Some (m, l) \<Longrightarrow> lease_expiry l + LEASE_SKEW_TOLERANCE \<le> now"
    using cur(2) by (auto simp: acquire_write_def cas_mode_def split: option.splits if_splits)
  from acquire_put_law [OF G(1) put] obtain s0 where
    s0: "invar s'" "evolves s1 s'" "invar s0" "evolves s1 s0" "evolves s0 s'"
      "put_check k (cas_mode cur) (map_option fst (view s0 k)) = Ok ()"
      "applied_put view issued s0 k (encode c (make_lease h p now ttl ?ep)) (g_version g) s'"
      "g = guard_new k h p (g_version g) now ttl ?ep"
    by auto
  have ep: "g_epoch g = ?ep" using s0(8) by (metis guard_new_def lease_guard.select_convs(6))
  have "message_at view c s0 k (ver cur)" using read_then_put [OF G(1,3) s0(3,4,6)] .
  moreover have "\<forall>v l. ver cur = Some (v, l) \<longrightarrow> lease_expiry l + LEASE_SKEW_TOLERANCE \<le> now"
    using exp by (auto simp: ver_def)
  moreover have "?ep = (case ver cur of None \<Rightarrow> 0 | Some (v, l) \<Rightarrow> epoch l + 1)"
    by (simp add: ver_def split: option.splits)
  ultimately show ?thesis using s0 ep evolves_trans [OF G(2)] by metis
qed

lemma heartbeat_law:
  assumes "invar s" "heartbeat ops c now ttl g s = (r, g', s')"
  shows "invar s' \<and> evolves s s' \<and> g_key g' = g_key g \<and>
    (case r of
       Inr _ \<Rightarrow> (\<exists>s0 d. evolves s s0 \<and> evolves s0 s' \<and> view s0 (g_key g) = Some (g_version g, d) \<and>
         applied_put view issued s0 (g_key g)
           (encode c (make_lease (g_holder g) (g_purpose g) now ttl (g_epoch g + 1)))
           (g_version g') s' \<and> g_expires_at g' = now + ttl)
     | Inl e \<Rightarrow> g_version g' = g_version g \<and> g_expires_at g' = g_expires_at g \<and>
         (e = CLeaseLost \<longrightarrow> (\<exists>s0. evolves s s0 \<and> view s' = view s0)))"
proof -
  let ?b = "encode c (make_lease (g_holder g) (g_purpose g) now ttl (g_epoch g + 1))"
  obtain w t where w: "os_put ops s (g_key g) (Bytes ?b) (Update (g_version g)) = (w, t)"
    by (cases "os_put ops s (g_key g) (Bytes ?b) (Update (g_version g))")
  from put_law [OF assms(1) w] show ?thesis
    using assms(2) w
    by (cases w)
       (auto simp: heartbeat_def put_bytes_def Let_def put_check_Ok_iff split: if_splits, blast)
qed

text \<open>A confirmed release removes our version for good and nobody else's.\<close>

lemma release_law:
  assumes "invar s" "release ops g s = (Ok (), s')"
  shows "invar s' \<and> evolves s s' \<and>
    (\<exists>s0. evolves s s0 \<and> (view s' = view s0 \<or>
      (\<exists>d. view s0 (g_key g) = Some (g_version g, d)) \<and> view s' = (view s0)(g_key g := None)))"
proof -
  obtain w t where w: "os_delete ops s (g_key g) (Some (g_version g)) = (w, t)"
    by (cases "os_delete ops s (g_key g) (Some (g_version g))")
  from delete_law [OF assms(1) w] show ?thesis
    using assms(2) w by (cases w) (auto simp: release_def split: if_splits)
qed

end

section \<open>Clients competing for one lease\<close>

text \<open>
  A run of any number of clients over one bucket.  Each client reads (remembering the clock and
  what it saw), later writes, then renews or releases; any of them may crash, any write may be
  applied although the client is told otherwise.  Time is one clock that never goes back;
  \<open>owner\<close> is a ghost that records which client wrote a version.
\<close>

record 'a lease_sys =
  bucket :: "'a mem_store"
  clock :: system_time
  guards :: "nat \<Rightarrow> lease_guard option"
  pending :: "nat \<Rightarrow> (system_time \<times> (object_meta \<times> lease) option) option"
  owner :: "version \<Rightarrow> nat"

definition lease_init :: "'a mem_store \<Rightarrow> 'a lease_sys" where
  "lease_init b = \<lparr>bucket = b, clock = 0, guards = (\<lambda>_. None), pending = (\<lambda>_. None),
     owner = (\<lambda>_. 0)\<rparr>"

inductive lease_step ::
  "('a, lease) msg_codec \<Rightarrow> string \<Rightarrow> (nat \<Rightarrow> string) \<Rightarrow> string \<Rightarrow> int
     \<Rightarrow> 'a lease_sys \<Rightarrow> 'a lease_sys \<Rightarrow> bool" for c key h p ttl where
  tick: "0 \<le> dt \<Longrightarrow> clock S + dt + ttl \<le> i64_max * NANOS \<Longrightarrow>
    lease_step c key h p ttl S (S\<lparr>clock := clock S + dt\<rparr>)"
| read: "guards S i = None \<Longrightarrow> get_message mem_ops c (bucket S) key = (Ok cur, b) \<Longrightarrow>
    lease_step c key h p ttl S
      (S\<lparr>bucket := b, pending := (pending S)(i := Some (clock S, cur))\<rparr>)"
| acquired: "guards S i = None \<Longrightarrow> pending S i = Some (now, cur) \<Longrightarrow>
    acquire_write mem_ops c now key (h i) p ttl cur (bucket S) = (Ok (Some g), b) \<Longrightarrow>
    lease_step c key h p ttl S
      (S\<lparr>bucket := b, pending := (pending S)(i := None), guards := (guards S)(i := Some g),
         owner := (owner S)(g_version g := i)\<rparr>)"
| acquired_lost: "guards S i = None \<Longrightarrow> pending S i = Some (now, cur) \<Longrightarrow>
    acquire_write mem_ops c now key (h i) p ttl cur (bucket S) = (Ok (Some g), b) \<Longrightarrow>
    lease_step c key h p ttl S
      (S\<lparr>bucket := b, pending := (pending S)(i := None), guards := (guards S)(i := None),
         owner := (owner S)(g_version g := i)\<rparr>)"
| refused: "pending S i = Some (now, cur) \<Longrightarrow>
    acquire_write mem_ops c now key (h i) p ttl cur (bucket S) = (Ok None, b) \<Longrightarrow>
    lease_step c key h p ttl S (S\<lparr>bucket := b, pending := (pending S)(i := None)\<rparr>)"
| beat: "guards S i = Some g \<Longrightarrow> 0 \<le> now \<Longrightarrow> g_expires_at g \<le> now + ttl \<Longrightarrow> now \<le> clock S \<Longrightarrow>
    heartbeat mem_ops c now ttl g (bucket S) = (Ok (), g', b) \<Longrightarrow>
    lease_step c key h p ttl S
      (S\<lparr>bucket := b, guards := (guards S)(i := Some g'),
         owner := (owner S)(g_version g' := i)\<rparr>)"
| beat_lost: "guards S i = Some g \<Longrightarrow> 0 \<le> now \<Longrightarrow> g_expires_at g \<le> now + ttl \<Longrightarrow> now \<le> clock S \<Longrightarrow>
    heartbeat mem_ops c now ttl g (bucket S) = (Ok (), g', b) \<Longrightarrow>
    lease_step c key h p ttl S
      (S\<lparr>bucket := b, guards := (guards S)(i := Some (g\<lparr>g_epoch := g_epoch g + 1\<rparr>)),
         owner := (owner S)(g_version g' := i)\<rparr>)"
| stolen: "guards S i = Some g \<Longrightarrow>
    heartbeat mem_ops c now ttl g (bucket S) = (Err CLeaseLost, g', b) \<Longrightarrow>
    lease_step c key h p ttl S
      (S\<lparr>bucket := b, guards := (guards S)(i := Some (g'\<lparr>g_released := True\<rparr>))\<rparr>)"
| released: "guards S i = Some g \<Longrightarrow> release mem_ops g (bucket S) = (r, b) \<Longrightarrow>
    lease_step c key h p ttl S (S\<lparr>bucket := b, guards := (guards S)(i := None)\<rparr>)"
| crash: "lease_step c key h p ttl S
      (S\<lparr>guards := (guards S)(i := None), pending := (pending S)(i := None)\<rparr>)"

text \<open>A guard its client may act on: not released, not expired.\<close>

definition live :: "'a lease_sys \<Rightarrow> nat \<Rightarrow> lease_guard \<Rightarrow> bool" where
  "live S i g \<longleftrightarrow> guards S i = Some g \<and> \<not> g_released g \<and> clock S < g_expires_at g"

definition lease_inv :: "('a, lease) msg_codec \<Rightarrow> string \<Rightarrow> int \<Rightarrow> 'a lease_sys \<Rightarrow> bool" where
  "lease_inv c key ttl S \<longleftrightarrow>
     mem_inv (bucket S) \<and> 0 \<le> clock S \<and> clock S + ttl \<le> i64_max * NANOS \<and>
     (\<forall>i g. guards S i = Some g \<longrightarrow> g_key g = key \<and> g_version g \<le> counter (bucket S) \<and>
        owner S (g_version g) = i) \<and>
     (\<forall>i now cur. pending S i = Some (now, cur) \<longrightarrow> 0 \<le> now \<and> now \<le> clock S \<and>
        (\<forall>m l. cur = Some (m, l) \<longrightarrow> meta_version m \<le> counter (bucket S) \<and>
           (\<forall>d. mem_view (bucket S) key = Some (meta_version m, d) \<longrightarrow> decode c d = Some l))) \<and>
     (\<forall>i g. live S i g \<longrightarrow> (\<exists>v d l. mem_view (bucket S) key = Some (v, d) \<and>
        decode c d = Some l \<and> g_expires_at g \<le> lease_expiry l \<and> owner S v = i))"

lemma lease_inv_init: "mem_inv b \<Longrightarrow> 0 \<le> ttl \<Longrightarrow> ttl \<le> i64_max * NANOS \<Longrightarrow>
    lease_inv c key ttl (lease_init b)"
  by (auto simp: lease_inv_def lease_init_def live_def)

lemma lease_expiry_make: "0 \<le> now + ttl \<Longrightarrow> now + ttl \<le> i64_max * NANOS \<Longrightarrow>
    lease_expiry (make_lease hh p now ttl ep) = now + ttl"
  by (simp add: lease_expiry_def make_lease_def to_from_system)

lemma lease_inv_bucket: "lease_inv c key ttl S \<Longrightarrow> mem_inv (bucket S)"
  unfolding lease_inv_def by (elim conjE)

lemma lease_inv_clock:
  "lease_inv c key ttl S \<Longrightarrow> 0 \<le> clock S \<and> clock S + ttl \<le> i64_max * NANOS"
  unfolding lease_inv_def by (elim conjE, intro conjI)

lemma lease_inv_guard:
  "lease_inv c key ttl S \<Longrightarrow> guards S i = Some g \<Longrightarrow>
     g_key g = key \<and> g_version g \<le> counter (bucket S) \<and> owner S (g_version g) = i"
  unfolding lease_inv_def by (elim conjE) metis

lemma lease_inv_pending:
  "lease_inv c key ttl S \<Longrightarrow> pending S i = Some (now, cur) \<Longrightarrow> 0 \<le> now \<and> now \<le> clock S"
  unfolding lease_inv_def by (elim conjE) metis

lemma lease_inv_pending_value:
  "lease_inv c key ttl S \<Longrightarrow> pending S i = Some (now, Some (m, l)) \<Longrightarrow>
     meta_version m \<le> counter (bucket S) \<and>
     (\<forall>d. mem_view (bucket S) key = Some (meta_version m, d) \<longrightarrow> decode c d = Some l)"
  unfolding lease_inv_def by (elim conjE) metis

lemma lease_inv_live:
  "lease_inv c key ttl S \<Longrightarrow> live S i g \<Longrightarrow> \<exists>v d l. mem_view (bucket S) key = Some (v, d) \<and>
        decode c d = Some l \<and> g_expires_at g \<le> lease_expiry l \<and> owner S v = i"
  unfolding lease_inv_def by (elim conjE) metis

text \<open>The only live guard, if any, belongs to whoever wrote the current version.\<close>

lemma live_owner:
  assumes "lease_inv c key ttl S" "live S i g" "mem_view (bucket S) key = Some (v, d)"
  shows "owner S v = i"
  using lease_inv_live [OF assms(1,2)] assms(3) by auto

text \<open>
  A write of client \<open>i\<close> that is applied keeps the invariant when nobody else is live: this
  covers acquisitions and renewals, answered or not.
\<close>

lemma lease_inv_write:
  assumes inv: "lease_inv c key ttl S" and ok: "codec_ok c"
    and put: "mem_put (bucket S) key (Bytes (encode c l)) mode = (Ok meta, b)"
    and alone: "\<And>j g'. j \<noteq> i \<Longrightarrow> \<not> live S j g'"
    and pend: "\<And>j x. pend j = Some x \<Longrightarrow> pending S j = Some x"
    and own: "\<And>g. go = Some g \<Longrightarrow> g_key g = key \<and> g_expires_at g \<le> lease_expiry l \<and>
      (g_version g = meta_version meta \<or>
       g_version g \<le> counter (bucket S) \<and> owner S (g_version g) = i)"
  shows "lease_inv c key ttl (S\<lparr>bucket := b, pending := pend, guards := (guards S)(i := go),
    owner := (owner S)(meta_version meta := i)\<rparr>)"
proof -
  have bb: "body_bytes (Bytes (encode c l)) = Ok (encode c l)" by simp
  from put bb have b: "meta_version meta = Suc (counter (bucket S))"
      "counter b = Suc (counter (bucket S))" "b = \<lparr>objects = bt_insert key
         (Suc (counter (bucket S)), encode c l) (objects (bucket S)), counter = Suc (counter (bucket S))\<rparr>"
    by (cases rule: mem_put_cases; simp)+
  have mi: "mem_inv (bucket S)" using inv by (simp add: lease_inv_def)
  then have view: "mem_view b key = Some (Suc (counter (bucket S)), encode c l)"
    using b(3) by (simp add: mem_view_def mem_inv_def)
  have dec: "decode c (encode c l) = Some l" using ok by (simp add: codec_ok_def)
  have mb: "mem_inv b" using mem_put_evolves [OF mi put] by simp
  let ?v = "meta_version meta"
  let ?S = "S\<lparr>bucket := b, pending := pend, guards := (guards S)(i := go),
    owner := (owner S)(?v := i)\<rparr>"
  have old: "v \<noteq> ?v" if "v \<le> counter (bucket S)" for v using that b(1) by simp
  have G: "g_key g = key \<and> g_version g \<le> counter b \<and> owner ?S (g_version g) = j"
    if "guards ?S j = Some g" for j g
  proof (cases "j = i")
    case True
    then have "go = Some g" using that by simp
    from own [OF this] show ?thesis using True b(1,2) by auto
  next
    case False
    then have "guards S j = Some g" using that by simp
    then have "g_key g = key" "g_version g \<le> counter (bucket S)" "owner S (g_version g) = j"
      using inv by (auto simp: lease_inv_def)
    then show ?thesis using old b(2) by simp
  qed
  have P: "0 \<le> now \<and> now \<le> clock S \<and>
        (\<forall>m l. cur = Some (m, l) \<longrightarrow> meta_version m \<le> counter b \<and>
           (\<forall>d. mem_view b key = Some (meta_version m, d) \<longrightarrow> decode c d = Some l))"
    if "pend j = Some (now, cur)" for j now cur
  proof -
    have "pending S j = Some (now, cur)" using pend [OF that] .
    then have "0 \<le> now \<and> now \<le> clock S" "\<And>m l. cur = Some (m, l) \<Longrightarrow>
        meta_version m \<le> counter (bucket S)"
      using inv by (auto simp: lease_inv_def)
    then show ?thesis using view b(2) by force
  qed
  have L: "\<exists>v d l. mem_view b key = Some (v, d) \<and>
        decode c d = Some l \<and> g_expires_at g \<le> lease_expiry l \<and> owner ?S v = j"
    if "live ?S j g" for j g
  proof -
    have "j = i" using that alone [of j g] by (auto simp: live_def split: if_splits)
    moreover have "go = Some g" using that calculation by (simp add: live_def)
    ultimately show ?thesis using own view dec b(1) by simp
  qed
  show ?thesis
    using inv mb G P L by (simp add: lease_inv_def)
qed

text \<open>A step that changes no object, or removes one, keeps what it does not touch.\<close>

lemma lease_inv_weaken:
  assumes inv: "lease_inv c key ttl S"
    and b: "mem_inv b" "mem_evolves (bucket S) b" "counter b = counter (bucket S)"
    and keep: "\<And>j g. guards S' j = Some g \<Longrightarrow> \<not> g_released g \<Longrightarrow>
      guards S j = Some g"
    and rel: "\<And>j g. guards S' j = Some g \<Longrightarrow> g_released g \<Longrightarrow>
      (\<exists>g0. guards S j = Some g0 \<and> g_key g = g_key g0 \<and> g_version g = g_version g0)"
    and view: "\<And>j g. guards S' j = Some g \<Longrightarrow> live S j g \<Longrightarrow>
      mem_view b key = mem_view (bucket S) key"
    and rest: "bucket S' = b" "clock S' = clock S" "owner S' = owner S"
      "\<And>j x. pending S' j = Some x \<Longrightarrow> pending S j = Some x"
  shows "lease_inv c key ttl S'"
proof -
  have lv: "live S j g" "mem_view b key = mem_view (bucket S) key" if "live S' j g" for j g
    using that keep [of j g] view [of j g] rest by (auto simp: live_def)
  have G: "g_key g = key \<and> g_version g \<le> counter b \<and> owner S (g_version g) = j"
    if "guards S' j = Some g" for j g
    using inv keep [OF that] rel [OF that] b(3) by (cases "g_released g") (force simp: lease_inv_def)+
  have st: "mem_view b key = Some (v, d) \<Longrightarrow> v \<le> counter b \<Longrightarrow> mem_view (bucket S) key = Some (v, d)"
    for v d using b by (auto simp: mem_evolves_def)
  have P: "0 \<le> now \<and> now \<le> clock S \<and>
        (\<forall>m l. cur = Some (m, l) \<longrightarrow> meta_version m \<le> counter b \<and>
           (\<forall>d. mem_view b key = Some (meta_version m, d) \<longrightarrow> decode c d = Some l))"
    if "pending S' j = Some (now, cur)" for j now cur
    using inv rest(4) [OF that] st b(3) unfolding lease_inv_def by metis
  have L: "\<exists>v d l. mem_view b key = Some (v, d) \<and>
        decode c d = Some l \<and> g_expires_at g \<le> lease_expiry l \<and> owner S v = j"
    if "live S' j g" for j g
    using inv lv [OF that] by (auto simp: lease_inv_def)
  show ?thesis
    using inv G P L b rest by (simp add: lease_inv_def)
qed

text \<open>The primitives on the in-memory bucket.\<close>

lemma get_message_mem:
  assumes "get_message mem_ops c b key = (r, b')"
  shows "b' = b"
  using assms
  by (auto simp: get_message_def get_bytes_def mem_get_def split: sum.splits prod.splits)

lemma acquire_write_mem:
  assumes "acquire_write mem_ops c now key hh p ttl cur b0 = (Ok (Some g), b)"
  obtains ep meta where
    "mem_put b0 key (Bytes (encode c (make_lease hh p now ttl ep))) (cas_mode cur) = (Ok meta, b)"
    "g = guard_new key hh p (meta_version meta) now ttl ep"
    "\<And>m l. cur = Some (m, l) \<Longrightarrow> lease_expiry l + LEASE_SKEW_TOLERANCE \<le> now"
  using assms
  by (auto simp: acquire_write_def acquire_put_def put_bytes_def cas_mode_def
      split: option.splits if_splits sum.splits prod.splits)

lemma mem_put_err:
  assumes "mem_put b0 k (Bytes x) mode = (Err e, b)"
  shows "b = b0"
proof -
  have "body_bytes (Bytes x) = Ok x" by simp
  from assms this show ?thesis by (cases rule: mem_put_cases) auto
qed

lemma mem_put_ok:
  assumes "mem_put b0 k (Bytes x) mode = (Ok meta, b)"
  shows "put_check k mode (map_option fst (mem_view b0 k)) = Ok ()"
proof -
  have "body_bytes (Bytes x) = Ok x" by simp
  from assms this show ?thesis by (cases rule: mem_put_cases) auto
qed

lemma acquire_write_refused:
  assumes "acquire_write mem_ops c now key hh p ttl cur b0 = (Ok None, b)"
  shows "b = b0"
  using assms
  by (auto simp: acquire_write_def acquire_put_def put_bytes_def
      split: option.splits if_splits sum.splits prod.splits dest: mem_put_err)

lemma heartbeat_mem:
  assumes "heartbeat mem_ops c now ttl g b0 = (Ok (), g', b)"
  obtains meta where
    "mem_put b0 (g_key g) (Bytes (encode c (make_lease (g_holder g) (g_purpose g) now ttl
       (g_epoch g + 1)))) (Update (g_version g)) = (Ok meta, b)"
    "g_version g' = meta_version meta" "g_key g' = g_key g" "g_expires_at g' = now + ttl"
  using assms
  by (auto simp: heartbeat_def put_bytes_def Let_def split: sum.splits prod.splits if_splits)

lemma heartbeat_stolen:
  assumes "heartbeat mem_ops c now ttl g b0 = (Err e, g', b)"
  shows "b = b0 \<and> g' = g\<lparr>g_epoch := g_epoch g + 1\<rparr>"
  using assms
  by (auto simp: heartbeat_def put_bytes_def Let_def split: sum.splits prod.splits if_splits
      dest: mem_put_err)

lemma acquire_alone:
  assumes inv: "lease_inv c key ttl S" and pd: "pending S i = Some (now, cur)"
    and put: "mem_put (bucket S) key (Bytes x) (cas_mode cur) = (Ok meta, b)"
    and exp: "\<And>m l. cur = Some (m, l) \<Longrightarrow> lease_expiry l + LEASE_SKEW_TOLERANCE \<le> now"
  shows "\<not> live S j g"
proof
  assume lv: "live S j g"
  then obtain v d l where v: "mem_view (bucket S) key = Some (v, d)" "decode c d = Some l"
      "g_expires_at g \<le> lease_expiry l"
    using lease_inv_live [OF inv lv] by blast
  obtain m l' where cur: "cur = Some (m, l')" "meta_version m = v"
    using mem_put_ok [OF put] v(1)
    by (cases cur) (auto simp: cas_mode_def put_check_Ok_iff)
  have "decode c d = Some l'" "now \<le> clock S"
    using lease_inv_pending [OF inv pd] lease_inv_pending_value [OF inv pd [unfolded cur(1)]]
      cur(2) v(1) by auto
  then show False using v exp [OF cur(1)] lv by (simp add: live_def LEASE_SKEW_TOLERANCE_def NANOS_def)
qed

lemma heartbeat_alone:
  assumes inv: "lease_inv c key ttl S" and g: "guards S i = Some g"
    and put: "mem_put (bucket S) key (Bytes x) (Update (g_version g)) = (Ok meta, b)"
    and "j \<noteq> i"
  shows "\<not> live S j g'"
proof
  assume lv: "live S j g'"
  obtain d where "mem_view (bucket S) key = Some (g_version g, d)"
    using mem_put_ok [OF put] by (auto simp: put_check_Ok_iff)
  then have "owner S (g_version g) = j" using live_owner [OF inv lv] by simp
  moreover have "owner S (g_version g) = i" using lease_inv_guard [OF inv g] by simp
  ultimately show False using assms(4) by simp
qed

lemma lease_inv_release:
  assumes inv: "lease_inv c key ttl S" and g: "guards S i = Some g"
    and rel: "release mem_ops g (bucket S) = (r, b)"
  shows "lease_inv c key ttl (S\<lparr>bucket := b, guards := (guards S)(i := None)\<rparr>)"
proof -
  note G = lease_inv_guard [OF inv g]
  obtain w where del: "mem_delete (bucket S) key (Some (g_version g)) = (w, b)"
    using rel G by (auto simp: release_def split: prod.splits sum.splits)
  note ev = mem_delete_evolves [OF lease_inv_bucket [OF inv] del]
  have cnt: "counter b = counter (bucket S)"
    using del by (auto simp: mem_delete_def split: option.splits if_splits prod.splits)
  have same: "mem_view b key = mem_view (bucket S) key" if j: "j \<noteq> i" and lv: "live S j g'" for j g'
  proof -
    obtain v d where v: "mem_view (bucket S) key = Some (v, d)" "owner S v = j"
      using lease_inv_live [OF inv lv] by blast
    then have "v \<noteq> g_version g" using G j by auto
    then show ?thesis using del v(1) by (simp add: mem_delete_def mem_view_def)
  qed
  show ?thesis
    by (rule lease_inv_weaken [OF inv, of b])
       (use ev cnt same in \<open>auto split: if_splits\<close>)
qed

lemma lease_inv_tick:
  assumes "lease_inv c key ttl S" "0 \<le> dt" "clock S + dt + ttl \<le> i64_max * NANOS"
  shows "lease_inv c key ttl (S\<lparr>clock := clock S + dt\<rparr>)"
proof -
  have lv: "live S i g" if "live (S\<lparr>clock := clock S + dt\<rparr>) i g" for i g
    using that assms(2) by (simp add: live_def)
  show ?thesis
    using assms lv lease_inv_pending [OF assms(1)] lease_inv_live [OF assms(1)]
    unfolding lease_inv_def by (auto simp: add_increasing2)
qed

lemma lease_inv_read:
  assumes inv: "lease_inv c key ttl S"
    and get: "get_message mem_ops c (bucket S) key = (Ok cur, b)"
  shows "lease_inv c key ttl (S\<lparr>bucket := b, pending := (pending S)(i := Some (clock S, cur))\<rparr>)"
proof -
  have b: "b = bucket S" using get_message_mem [OF get] .
  have at: "message_at mem_view c (bucket S) key (ver cur)"
    using mem.get_message_law [OF lease_inv_bucket [OF inv] get] b by simp
  have lv: "live (S\<lparr>bucket := b, pending := pd\<rparr>) j g = live S j g" for j g pd
    by (simp add: live_def)
  have new: "meta_version m \<le> counter (bucket S) \<and>
      (\<forall>d. mem_view (bucket S) key = Some (meta_version m, d) \<longrightarrow> decode c d = Some l)"
    if "cur = Some (m, l)" for m l
    using at that mem_inv_view [OF lease_inv_bucket [OF inv]] by (auto simp: message_at_def ver_def)
  show ?thesis
    using inv new lease_inv_clock [OF inv] unfolding lease_inv_def lv by (auto simp: b)
qed

lemma lease_inv_acquire:
  assumes inv: "lease_inv c key ttl S" and ok: "codec_ok c" and ttl: "0 \<le> ttl"
    and pd: "pending S i = Some (now, cur)"
    and w: "acquire_write mem_ops c now key hh p ttl cur (bucket S) = (Ok (Some g), b)"
    and go: "go = Some g \<or> go = None"
  shows "lease_inv c key ttl (S\<lparr>bucket := b, pending := (pending S)(i := None),
    guards := (guards S)(i := go), owner := (owner S)(g_version g := i)\<rparr>)"
proof -
  from w obtain ep meta where
    put: "mem_put (bucket S) key (Bytes (encode c (make_lease hh p now ttl ep))) (cas_mode cur)
       = (Ok meta, b)"
    and g: "g = guard_new key hh p (meta_version meta) now ttl ep"
    and exp: "\<And>m l. cur = Some (m, l) \<Longrightarrow> lease_expiry l + LEASE_SKEW_TOLERANCE \<le> now"
    by (erule acquire_write_mem)
  have "0 \<le> now + ttl" "now + ttl \<le> i64_max * NANOS"
    using lease_inv_pending [OF inv pd] lease_inv_clock [OF inv] ttl by auto
  note e = lease_expiry_make [OF this, of hh p ep]
  have "lease_inv c key ttl (S\<lparr>bucket := b, pending := (pending S)(i := None),
      guards := (guards S)(i := go), owner := (owner S)(meta_version meta := i)\<rparr>)"
    by (rule lease_inv_write [OF inv ok put])
       (use acquire_alone [OF inv pd put exp] go e in \<open>auto simp: g guard_new_def split: if_splits\<close>)
  then show ?thesis by (simp add: g guard_new_def)
qed

lemma lease_inv_beat:
  assumes inv: "lease_inv c key ttl S" and ok: "codec_ok c"
    and gi: "guards S i = Some g" and now: "g_expires_at g \<le> now + ttl" "0 \<le> now + ttl" "now \<le> clock S"
    and hb: "heartbeat mem_ops c now ttl g (bucket S) = (Ok (), g', b)"
    and go: "go = Some g' \<or> go = Some (g\<lparr>g_epoch := g_epoch g + 1\<rparr>)"
  shows "lease_inv c key ttl (S\<lparr>bucket := b, guards := (guards S)(i := go),
    owner := (owner S)(g_version g' := i)\<rparr>)"
proof -
  note G = lease_inv_guard [OF inv gi]
  let ?l = "make_lease (g_holder g) (g_purpose g) now ttl (g_epoch g + 1)"
  from hb obtain meta where
    put: "mem_put (bucket S) key (Bytes (encode c ?l)) (Update (g_version g)) = (Ok meta, b)"
    and g': "g_version g' = meta_version meta" "g_key g' = key" "g_expires_at g' = now + ttl"
    using G by (auto elim: heartbeat_mem)
  have "now + ttl \<le> i64_max * NANOS" using now(3) lease_inv_clock [OF inv] by auto
  note e = lease_expiry_make [OF now(2) this, of "g_holder g" "g_purpose g" "g_epoch g + 1"]
  have "lease_inv c key ttl (S\<lparr>bucket := b, pending := pending S, guards := (guards S)(i := go),
      owner := (owner S)(meta_version meta := i)\<rparr>)"
    by (rule lease_inv_write [OF inv ok put])
       (use heartbeat_alone [OF inv gi put] go e G g' now in auto)
  then show ?thesis using g' by simp
qed

lemma lease_step_inv:
  assumes "lease_step c key h p ttl S S'" "codec_ok c" "0 \<le> ttl" "lease_inv c key ttl S"
  shows "lease_inv c key ttl S'"
  using assms
proof (cases rule: lease_step.cases)
  case (tick dt)
  then show ?thesis using assms lease_inv_tick by auto
next
  case (read i cur b)
  then show ?thesis using assms lease_inv_read by auto
next
  case (acquired i now cur g b)
  then show ?thesis
    using lease_inv_acquire [OF assms(4,2,3) acquired(3,4), of "Some g"] by simp
next
  case (acquired_lost i now cur g b)
  then show ?thesis
    using lease_inv_acquire [OF assms(4,2,3) acquired_lost(3,4), of None] by simp
next
  case (refused i now cur b)
  show ?thesis
    by (rule lease_inv_weaken [OF assms(4), of b])
       (use refused lease_inv_bucket [OF assms(4)] acquire_write_refused [OF refused(3)]
         in \<open>auto split: if_splits\<close>)
next
  case (beat i g now g' b)
  then show ?thesis
    using lease_inv_beat [OF assms(4,2) beat(2,4) _ beat(5,6), of "Some g'"] assms(3) by simp
next
  case (beat_lost i g now g' b)
  then show ?thesis
    using lease_inv_beat [OF assms(4,2) beat_lost(2,4) _ beat_lost(5,6),
        of "Some (g\<lparr>g_epoch := g_epoch g + 1\<rparr>)"] assms(3) by simp
next
  case (stolen i g now g' b)
  show ?thesis
    by (rule lease_inv_weaken [OF assms(4), of b])
       (use stolen lease_inv_bucket [OF assms(4)] heartbeat_stolen [OF stolen(3)]
         in \<open>auto split: if_splits\<close>)
next
  case (released i g r b)
  then show ?thesis using assms lease_inv_release by auto
next
  case (crash i)
  show ?thesis
    by (rule lease_inv_weaken [OF assms(4), of "bucket S"])
       (use crash lease_inv_bucket [OF assms(4)] in \<open>auto split: if_splits\<close>)
qed

definition lease_reachable ::
  "('a, lease) msg_codec \<Rightarrow> string \<Rightarrow> (nat \<Rightarrow> string) \<Rightarrow> string \<Rightarrow> int \<Rightarrow> 'a mem_store
     \<Rightarrow> 'a lease_sys \<Rightarrow> bool" where
  "lease_reachable c key h p ttl b S = (lease_step c key h p ttl)\<^sup>*\<^sup>* (lease_init b) S"

lemma lease_reachable_inv:
  assumes "lease_reachable c key h p ttl b S" "codec_ok c" "0 \<le> ttl" "ttl \<le> i64_max * NANOS" "mem_inv b"
  shows "lease_inv c key ttl S"
  using assms(1) unfolding lease_reachable_def
proof (induction rule: rtranclp_induct)
  case base
  then show ?case using assms lease_inv_init by blast
next
  case (step S S')
  then show ?case using lease_step_inv assms by blast
qed

section \<open>Properties\<close>

text \<open>A small codec for the witnesses: one symbol per message.\<close>

definition one_codec :: "('m, 'm) msg_codec" where
  "one_codec = \<lparr>encode = (\<lambda>m. [m]), decode = (\<lambda>xs. case xs of [m] \<Rightarrow> Some m | _ \<Rightarrow> None)\<rparr>"

lemma one_codec_ok: "codec_ok one_codec"
  by (simp add: codec_ok_def one_codec_def)

lemma one_codec_simps [simp]: "encode one_codec m = [m]" "decode one_codec [m] = Some m"
  by (simp_all add: one_codec_def)



text \<open>
  Without failures and other clients \<open>cas_update\<close> needs one round: on the in-memory backend it
  applies \<open>f\<close> once and stores its result, creating the object if it was absent.
\<close>

theorem cas_update_applies:
  assumes "mem_inv b" "codec_ok c" "message_at mem_view c b k cur"
    "f (map_option snd cur) = Ok (Some new)"
  shows "\<exists>meta b'. cas_update mem_ops c k retries f b = (Ok (Some (meta, new)), b') \<and>
    mem_view b' = (mem_view b)(k := Some (meta_version meta, encode c new))"
proof -
  obtain r b1 where g: "get_message mem_ops c b k = (r, b1)" by (cases "get_message mem_ops c b k")
  have b1: "b1 = b" using get_message_mem [OF g] .
  obtain cur' where r: "r = Ok cur'" "ver cur' = cur"
    using g assms(3)
    by (auto simp: get_message_def get_bytes_def mem_get_def decode_object_def message_at_def
        mem_view_def default_get_def slice_range_def ver_def split: option.splits)
  have chk: "put_check k (cas_mode cur') (map_option fst (mem_view b k)) = Ok ()"
    using assms(3) r(2)
    by (cases cur') (auto simp: put_check_Ok_iff cas_mode_def message_at_def ver_def)
  obtain w b' where w: "mem_put b k (Bytes (encode c new)) (cas_mode cur') = (w, b')"
    by (cases "mem_put b k (Bytes (encode c new)) (cas_mode cur')")
  have "body_bytes (Bytes (encode c new)) = Ok (encode c new)" by simp
  with w obtain meta where m: "w = Ok meta"
    "mem_view b' = (mem_view b)(k := Some (meta_version meta, encode c new))"
    by (cases rule: mem_put_cases) (use chk assms(1) in \<open>auto simp: mem_view_def mem_inv_def fun_eq_iff\<close>)
  have "f (map_option snd cur') = Ok (Some new)" using assms(4) r(2) by (metis mem.snd_ver)
  then have "cas_update mem_ops c k retries f b = (Ok (Some (meta, new)), b')"
    using g w m(1) by (simp add: cas_update_def cas_loop.simps [of retries] b1 r(1) put_bytes_def)
  then show ?thesis using m(2) by blast
qed

theorem cas_update_applies_witness:
  "\<exists>meta b'. cas_update mem_ops one_codec ''n'' 10
      (\<lambda>cur. Ok (Some (case cur of None \<Rightarrow> 1 | Some n \<Rightarrow> n + 1)))
      \<lparr>objects = [(''n'', (4, [41::nat]))], counter = 7\<rparr> = (Ok (Some (meta, 42)), b') \<and>
    mem_view b' = (mem_view \<lparr>objects = [(''n'', (4, [41]))], counter = 7\<rparr>)
      (''n'' := Some (meta_version meta, encode one_codec 42))"
  by (rule cas_update_applies [where cur = "Some (4, 41)"])
     (simp_all add: mem_inv_def bt_ok_def one_codec_ok message_at_def mem_view_def bt_get_def)

text \<open>
  A lease is only taken over once it has expired: over a faulty link to a shared bucket, if
  \<open>try_acquire\<close> returns a guard, then at the instant of its write there was either no lease, or
  one whose expiry lies at least the skew tolerance before the taker's clock; the write replaced
  exactly that lease, and the guard carries its version, its expiry and the next epoch.
\<close>

theorem try_acquire_takes_expired:
  assumes "link_inv shared_inv s"
    and "try_acquire (prefixed pre (fault_ops shared_ops)) c now k h p ttl s = (Ok (Some g), s')"
  shows "\<exists>s0 cur. link_evolves shared_evolves s s0 \<and> link_evolves shared_evolves s0 s' \<and>
    message_at (\<lambda>s k. link_view shared_view s (pre @ k)) c s0 k cur \<and>
    (\<forall>v l. cur = Some (v, l) \<longrightarrow> lease_expiry l + LEASE_SKEW_TOLERANCE \<le> now) \<and>
    g = guard_new k h p (g_version g) now ttl (case cur of None \<Rightarrow> 0 | Some (v, l) \<Rightarrow> epoch l + 1) \<and>
    applied_put (\<lambda>s k. link_view shared_view s (pre @ k)) (link_view shared_issued) s0 k
      (encode c (make_lease h p now ttl (g_epoch g))) (g_version g) s'"
  using plink.try_acquire_law [OF assms] by blast

theorem try_acquire_takes_expired_witness:
  "\<exists>(s0 :: lease shared fault_state) v l.
     message_at (\<lambda>s k. link_view shared_view s (''r/'' @ k)) one_codec s0 ''l'' (Some (v, l)) \<and>
     lease_expiry l + LEASE_SKEW_TOLERANCE \<le> 9 * NANOS \<and> epoch l = 3"
proof -
  define old where "old = make_lease ''a'' ''p'' 0 (5 * NANOS) 3"
  define new where "new = make_lease ''b'' ''p'' (9 * NANOS) NANOS 4"
  define s :: "lease shared fault_state" where
    "s = \<lparr>inner = (\<lparr>objects = [(''r/l'', (1, [old]))], counter = 1\<rparr>, []),
    plan = quiet_plan, rng = 1, fired_panics = []\<rparr>"
  let ?g = "guard_new ''l'' ''b'' ''p'' 2 (9 * NANOS) NANOS 4"
  have i: "link_inv shared_inv s"
    by (simp add: quiet_inv s_def shared_inv_def mem_inv_def bt_ok_def)
  have "lease_expiry old + LEASE_SKEW_TOLERANCE \<le> 9 * NANOS" "epoch old = 3"
    by (simp_all add: old_def lease_expiry_def make_lease_def to_from_system NANOS_def i64_max_def
        LEASE_SKEW_TOLERANCE_def)
  moreover have "get_message (prefixed ''r/'' (fault_ops shared_ops)) one_codec s ''l'' =
      (Ok (Some (\<lparr>meta_key = ''l'', meta_size = 1, meta_version = 1\<rparr>, old)), s)"
    by (simp add: get_message_def get_bytes_def prefixed_get_def full_key_def quiet_ops s_def
        on_inner_def shared_ops_def shared_call_def others_def mem_get_def bt_get_def default_get_def
        slice_range_def strip_meta_def strip_prefix_def decode_object_def)
  moreover have "put_bytes (prefixed ''r/'' (fault_ops shared_ops)) s ''l'' [new] (Update 1) =
      (Ok \<lparr>meta_key = ''l'', meta_size = 1, meta_version = 2\<rparr>,
       s\<lparr>inner := (\<lparr>objects = [(''r/l'', (2, [new]))], counter = 2\<rparr>, [])\<rparr>)"
    by (simp add: put_bytes_def prefixed_put_def full_key_def quiet_ops s_def on_inner_def
        shared_ops_def shared_call_def others_def mem_put_def bt_get_def next_version_def
        strip_meta_def strip_prefix_def)
  ultimately have w: "try_acquire (prefixed ''r/'' (fault_ops shared_ops)) one_codec (9 * NANOS)
      ''l'' ''b'' ''p'' NANOS s =
      (Ok (Some ?g), s\<lparr>inner := (\<lparr>objects = [(''r/l'', (2, [new]))], counter = 2\<rparr>, [])\<rparr>)"
    by (simp add: try_acquire_def acquire_write_def acquire_put_def new_def)
  obtain s0 cur where c:
      "message_at (\<lambda>s k. link_view shared_view s (''r/'' @ k)) one_codec s0 ''l'' cur"
      "\<forall>v l. cur = Some (v, l) \<longrightarrow> lease_expiry l + LEASE_SKEW_TOLERANCE \<le> 9 * NANOS"
      "?g = guard_new ''l'' ''b'' ''p'' (g_version ?g) (9 * NANOS) NANOS
          (case cur of None \<Rightarrow> 0 | Some (v, l) \<Rightarrow> epoch l + 1)"
    using try_acquire_takes_expired [OF i w] by blast
  moreover have "\<exists>v l. cur = Some (v, l) \<and> epoch l = 3"
    using c(3) by (cases cur) (auto simp: guard_new_def)
  ultimately show ?thesis by blast
qed

text \<open>
  C1. Mutual exclusion of leases: among any number of clients acquiring, renewing and releasing
  one lease, with crashes and lost answers, at most one holds a guard that is unreleased and
  unexpired by the common clock.
\<close>

theorem lease_mutual_exclusion:
  assumes "lease_reachable c key h p ttl b S" "codec_ok c" "mem_inv b"
    and "0 \<le> ttl" "ttl \<le> i64_max * NANOS"
    and "live S i g" "live S j g'"
  shows "i = j"
proof -
  have inv: "lease_inv c key ttl S" using lease_reachable_inv [OF assms(1,2,4,5,3)] .
  obtain v d where "mem_view (bucket S) key = Some (v, d)" "owner S v = i"
    using lease_inv_live [OF inv assms(6)] by blast
  then show ?thesis using live_owner [OF inv assms(7)] by simp
qed

theorem lease_mutual_exclusion_witness:
  "\<exists>S g. lease_reachable one_codec ''l'' (\<lambda>i. ''c'') ''p'' (5 * NANOS) mem_empty S \<and> live S 0 g \<and>
     {j. \<exists>g'. live S j g'} = {0}"
proof -
  let ?g = "guard_new ''l'' ''c'' ''p'' 1 0 (5 * NANOS) 0"
  let ?l = "make_lease ''c'' ''p'' 0 (5 * NANOS) 0"
  let ?S0 = "lease_init mem_empty :: lease lease_sys"
  let ?S1 = "?S0\<lparr>bucket := mem_empty, pending := (pending ?S0)(0 := Some (clock ?S0, None))\<rparr>"
  let ?b = "\<lparr>objects = [(''l'', (1, [?l]))], counter = 1\<rparr>"
  let ?S2 = "?S1\<lparr>bucket := ?b, pending := (pending ?S1)(0 := None), guards := (guards ?S1)(0 := Some ?g),
      owner := (owner ?S1)(g_version ?g := 0)\<rparr>"
  have "lease_step one_codec ''l'' (\<lambda>i. ''c'') ''p'' (5 * NANOS) ?S0 ?S1"
    by (rule lease_step.read) (simp_all add: lease_init_def mem_empty_def get_message_def
        get_bytes_def mem_get_def decode_object_def bt_get_def)
  moreover have "lease_step one_codec ''l'' (\<lambda>i. ''c'') ''p'' (5 * NANOS) ?S1 ?S2"
    by (rule lease_step.acquired [where now = 0 and cur = None])
       (simp_all add: lease_init_def acquire_write_def acquire_put_def put_bytes_def mem_put_def
         mem_empty_def next_version_def bt_get_def)
  ultimately have r: "lease_reachable one_codec ''l'' (\<lambda>i. ''c'') ''p'' (5 * NANOS) mem_empty ?S2"
    unfolding lease_reachable_def by (meson converse_rtranclp_into_rtranclp rtranclp.rtrancl_refl)
  have lv: "live ?S2 0 ?g" by (simp add: live_def guard_new_def lease_init_def NANOS_def)
  have "j = 0" if "live ?S2 j g'" for j g'
    using lease_mutual_exclusion [OF r one_codec_ok mem_inv_empty _ _ that lv]
    by (simp add: NANOS_def i64_max_def)
  then show ?thesis using r lv by blast
qed

end
