(* ===== verification/Git_Refs.thy ===== *)
theory Git_Refs
  imports Wal_Format
begin

text \<open>
  References as \<^verbatim>\<open>crates/walgit-git/src/lib.rs\<close> keeps them: validation of names, object ids and
  repository ids, the name-sorted snapshot and the overlay view the push path reads, the two ways
  a transaction is applied to a snapshot (patching the sorted vector, rebuilding an ordered map),
  the files \<open>packed-refs\<close> and \<open>HEAD\<close> as written and read back, and the selection of \<open>ls-refs\<close>.

  Peeling an annotated tag reads the object database (the \<open>gix\<close> crate) and is the parameter
  \<open>peel\<close>, from a hexadecimal object id to the peeled id or the empty string.  Strings are
  byte strings; \<open>trim\<close> is stated for ASCII.  Error texts are abbreviated.
\<close>

section \<open>Rust's string functions used here\<close>

definition is_ws :: "char \<Rightarrow> bool" where
  "is_ws c \<longleftrightarrow> c \<in> set [CHR '' '', CHR 0x09, CHR 0x0A, CHR 0x0B, CHR 0x0C, CHR 0x0D]"

definition trim :: "string \<Rightarrow> string" where
  "trim s = rev (dropWhile is_ws (rev (dropWhile is_ws s)))"

text \<open>\<open>str::lines\<close>: split at newlines, drop a carriage return before one; no empty last line.\<close>

fun split_lines :: "string \<Rightarrow> string \<Rightarrow> string list" where
  "split_lines acc [] = (if acc = [] then [] else [rev acc])"
| "split_lines acc (c # cs) =
     (if c = CHR 0x0A
      then rev (case acc of [] \<Rightarrow> [] | d # ds \<Rightarrow> if d = CHR 0x0D then ds else acc)
             # split_lines [] cs
      else split_lines (c # acc) cs)"

definition lines :: "string \<Rightarrow> string list" where
  "lines s = split_lines [] s"

section \<open>Validation\<close>

datatype git_error =
    GIo
  | GGix string
  | GPack
  | RefConflict string string string
  | MissingObject string
  | Fsck string
  | Subprocess string "int option" string
  | InvalidInput string
  | GProtocol string

definition bad_ref_byte :: "char \<Rightarrow> bool" where
  "bad_ref_byte c \<longleftrightarrow>
     c \<in> set [CHR 0x00, CHR 0x0A, CHR 0x0D, CHR '' '', CHR ''~'', CHR ''^'', CHR '':'', CHR ''?'',
       CHR ''*'', CHR ''['', CHR 0x5C]"

definition validate_ref_name :: "string \<Rightarrow> (git_error, unit) result" where
  "validate_ref_name name =
     (if name = ''HEAD'' then Ok ()
      else
        (let bad = name = [] \<or> \<not> starts_with name ''refs/'' \<or> list_ex bad_ref_byte name \<or>
               contains_str name ''..'' \<or> contains_str name [CHR ''@'', CHR 0x7B] \<or> contains_str name ''//'' \<or>
               starts_with name ''/'' \<or> ends_with name ''/'' \<or> ends_with name ''.'' \<or>
               ends_with name ''.lock''
         in if bad then Err (InvalidInput ''invalid ref name'') else Ok ()))"

definition validate_oid :: "string \<Rightarrow> (git_error, unit) result" where
  "validate_oid oid =
     (if oid = [] \<or> list_all (\<lambda>b. b = CHR ''0'') oid then Ok ()
      else if (length oid = 40 \<or> length oid = 64) \<and> list_all is_ascii_hexdigit oid then Ok ()
      else Err (InvalidInput ''invalid oid''))"

definition validate_ref_update :: "ref_update \<Rightarrow> (git_error, unit) result" where
  "validate_ref_update u =
     (if new_symbolic_target u \<noteq> []
      then if upd_name u \<noteq> ''HEAD''
           then Err (InvalidInput ''symbolic update is only allowed for HEAD'')
           else validate_ref_name (new_symbolic_target u)
      else rbind (validate_ref_name (upd_name u)) (\<lambda>_.
             rbind (validate_oid (old_oid u)) (\<lambda>_. validate_oid (new_oid u))))"

record repo_id =
  ri_owner :: string
  ri_name :: string

definition is_ascii_alphanumeric :: "char \<Rightarrow> bool" where
  "is_ascii_alphanumeric c \<longleftrightarrow>
     (CHR ''0'' \<le> c \<and> c \<le> CHR ''9'') \<or> (CHR ''a'' \<le> c \<and> c \<le> CHR ''z'') \<or>
     (CHR ''A'' \<le> c \<and> c \<le> CHR ''Z'')"

definition part_byte :: "char \<Rightarrow> bool" where
  "part_byte c \<longleftrightarrow> is_ascii_alphanumeric c \<or> c = CHR ''.'' \<or> c = CHR ''_'' \<or> c = CHR ''-''"

definition validate_part :: "string \<Rightarrow> (git_error, unit) result" where
  "validate_part s =
     (if s = [] \<or> length s > 100 then Err (InvalidInput ''must be 1..=100 chars'')
      else if s = ''..'' then Err (InvalidInput ''may not be ..'')
      else if starts_with s ''.'' then Err (InvalidInput ''may not start with .'')
      else if \<not> list_all part_byte s then Err (InvalidInput ''must be ASCII [A-Za-z0-9._-]'')
      else Ok ())"

definition repo_id_new :: "string \<Rightarrow> string \<Rightarrow> (git_error, repo_id) result" where
  "repo_id_new ow nm =
     rbind (validate_part ow) (\<lambda>_. rbind (validate_part nm) (\<lambda>_.
       Ok \<lparr>ri_owner = ow, ri_name = nm\<rparr>))"

definition repo_id_from_str :: "string \<Rightarrow> (git_error, repo_id) result" where
  "repo_id_from_str s0 =
     (let s1 = trim s0;
          s = (case strip_suffix ''.git'' s1 of Some x \<Rightarrow> x | None \<Rightarrow> s1)
      in case split_once (CHR ''/'') s of
           None \<Rightarrow> Err (InvalidInput ''RepoId must be owner/name'')
         | Some (ow, nm) \<Rightarrow>
             (if ow = [] \<or> nm = [] then Err (InvalidInput ''RepoId parts must be non-empty'')
              else repo_id_new ow nm))"

definition repo_id_display :: "repo_id \<Rightarrow> string" where
  "repo_id_display r = ri_owner r @ ''/'' @ ri_name r"

definition store_prefix :: "repo_id \<Rightarrow> string" where
  "store_prefix r = repo_prefix (ri_owner r) (ri_name r)"

section \<open>Snapshots\<close>

record git_ref =
  name :: string
  oid :: string
  peeled :: string

record ref_snapshot_data =
  refs :: "git_ref list"
  head_target :: string

definition snapshot_from_proto :: "ref_snapshot \<Rightarrow> ref_snapshot_data" where
  "snapshot_from_proto s =
     \<lparr>refs = map (\<lambda>r. \<lparr>name = ref_name r, oid = ref_oid r, peeled = ref_peeled r\<rparr>) (snap_refs s),
      head_target = snap_head_target s\<rparr>"

definition snapshot_to_proto :: "ref_snapshot_data \<Rightarrow> ref_snapshot" where
  "snapshot_to_proto d =
     \<lparr>snap_seq = 0, snap_object_format = ''sha1'',
      snap_refs = map (\<lambda>r. \<lparr>ref_name = name r, ref_oid = oid r, ref_peeled = peeled r\<rparr>) (refs d),
      snap_head_target = head_target d, snap_created_at = None\<rparr>"

text \<open>The invariant of a snapshot: names strictly ascending.\<close>

definition snapshot_ok :: "ref_snapshot_data \<Rightarrow> bool" where
  "snapshot_ok d \<longleftrightarrow> sorted_wrt (<) (map name (refs d))"

text \<open>
  \<open>binary_search_by\<close> on a name-sorted vector: \<open>Ok i\<close> the index of the name, \<open>Err i\<close> where it would be
  inserted (what the standard library promises for sorted input).
\<close>

definition search_name :: "git_ref list \<Rightarrow> string \<Rightarrow> (nat, nat) result" where
  "search_name rs n =
     (let i = length (takeWhile (\<lambda>r. name r < n) rs)
      in if i < length rs \<and> name (rs ! i) = n then Ok i else Err i)"

definition lookup_oid :: "git_ref list \<Rightarrow> string \<Rightarrow> string option" where
  "lookup_oid rs n = (case search_name rs n of Inr i \<Rightarrow> Some (oid (rs ! i)) | Inl _ \<Rightarrow> None)"

definition zero_oid :: "string \<Rightarrow> bool" where
  "zero_oid o' \<longleftrightarrow> o' = [] \<or> list_all (\<lambda>c. c = CHR ''0'') o'"

section \<open>The overlay view\<close>

record ref_view =
  base :: ref_snapshot_data
  overlay :: "(string, string option) btree"
  overlay_head :: "string option"

definition view_new :: "ref_snapshot_data \<Rightarrow> ref_view" where
  "view_new d = \<lparr>base = d, overlay = [], overlay_head = None\<rparr>"

definition view_head_target :: "ref_view \<Rightarrow> string" where
  "view_head_target v = (case overlay_head v of Some t \<Rightarrow> t | None \<Rightarrow> head_target (base v))"

definition set_head_target :: "string \<Rightarrow> ref_view \<Rightarrow> ref_view" where
  "set_head_target t v = v\<lparr>overlay_head := Some t\<rparr>"

definition view_set :: "string \<Rightarrow> string \<Rightarrow> ref_view \<Rightarrow> ref_view" where
  "view_set n val v = v\<lparr>overlay := bt_insert n (Some val) (overlay v)\<rparr>"

definition view_remove :: "string \<Rightarrow> ref_view \<Rightarrow> ref_view" where
  "view_remove n v = v\<lparr>overlay := bt_insert n None (overlay v)\<rparr>"

text \<open>
  \<open>get\<close> and \<open>head_oid\<close> call each other: \<open>HEAD\<close> is looked up through its symbolic target, which may
  be any valid name.  The outer \<open>None\<close> means that the recursion does not return.
\<close>

partial_function (option) view_get :: "ref_view \<Rightarrow> string \<Rightarrow> string option option" where
  "view_get v n =
     (case bt_get (overlay v) n of
        Some val \<Rightarrow> Some val
      | None \<Rightarrow>
          (if n = ''HEAD''
           then (if view_head_target v = [] then Some None
                 else view_get v (view_head_target v))
           else Some (lookup_oid (refs (base v)) n)))"

definition head_oid :: "ref_view \<Rightarrow> string option option" where
  "head_oid v =
     (if view_head_target v = [] then Some None else view_get v (view_head_target v))"

text \<open>One update of a transaction applied to the view, as \<open>ref_view\<close> replays pending ones.\<close>

definition view_apply :: "ref_view \<Rightarrow> ref_update \<Rightarrow> ref_view" where
  "view_apply v u =
     (if new_symbolic_target u \<noteq> []
      then if upd_name u = ''HEAD'' then set_head_target (new_symbolic_target u) v else v
      else if zero_oid (new_oid u) then view_remove (upd_name u) v
      else view_set (upd_name u) (new_oid u) v)"

definition ref_view_of :: "ref_snapshot_data \<Rightarrow> ref_transaction list \<Rightarrow> ref_view" where
  "ref_view_of cached pend =
     foldl (\<lambda>v t. foldl view_apply v (updates t)) (view_new cached) pend"

section \<open>Applying transactions\<close>

text \<open>The new value of a reference: the peeled id given, else that of a tag object.\<close>

definition new_peeled_of :: "(string \<Rightarrow> string) \<Rightarrow> ref_update \<Rightarrow> string" where
  "new_peeled_of peel u =
     (if new_peeled u \<noteq> [] then new_peeled u
      else if starts_with (upd_name u) ''refs/tags/'' then peel (new_oid u)
      else [])"

definition patch_update ::
  "(string \<Rightarrow> string) \<Rightarrow> ref_snapshot_data \<Rightarrow> ref_update \<Rightarrow> ref_snapshot_data" where
  "patch_update peel d u =
     (if new_symbolic_target u \<noteq> []
      then if upd_name u = ''HEAD'' then d\<lparr>head_target := new_symbolic_target u\<rparr> else d
      else
        (let entry = \<lparr>name = upd_name u, oid = new_oid u, peeled = new_peeled_of peel u\<rparr>
         in case (search_name (refs d) (upd_name u), zero_oid (new_oid u)) of
              (Inr i, True) \<Rightarrow> d\<lparr>refs := take i (refs d) @ drop (Suc i) (refs d)\<rparr>
            | (Inl _, True) \<Rightarrow> d
            | (Inr i, False) \<Rightarrow> d\<lparr>refs := (refs d)[i := entry]\<rparr>
            | (Inl i, False) \<Rightarrow> d\<lparr>refs := take i (refs d) @ entry # drop i (refs d)\<rparr>))"

definition patch_snapshot ::
  "(string \<Rightarrow> string) \<Rightarrow> ref_snapshot_data \<Rightarrow> ref_transaction list \<Rightarrow> ref_snapshot_data" where
  "patch_snapshot peel d txns = foldl (patch_update peel) d (concat (map updates txns))"

text \<open>
  \<open>apply_ref_txns_offline\<close>: the loop over a map from names to references and the \<open>HEAD\<close> target;
  the first invalid update aborts it.
\<close>

definition offline_update ::
  "(string \<Rightarrow> string) \<Rightarrow> (string, git_ref) btree \<times> string \<Rightarrow> ref_update
     \<Rightarrow> (git_error, (string, git_ref) btree \<times> string) result" where
  "offline_update peel st u =
     rbind (validate_ref_update u) (\<lambda>_.
       (let (m, ht) = st
        in if new_symbolic_target u \<noteq> []
           then if upd_name u = ''HEAD'' then Ok (m, new_symbolic_target u) else Ok (m, ht)
           else if zero_oid (new_oid u) then Ok (bt_remove (upd_name u) m, ht)
           else Ok (bt_insert (upd_name u)
                  \<lparr>name = upd_name u, oid = new_oid u, peeled = new_peeled_of peel u\<rparr> m, ht)))"

fun offline_updates ::
  "(string \<Rightarrow> string) \<Rightarrow> (string, git_ref) btree \<times> string \<Rightarrow> ref_update list
     \<Rightarrow> (git_error, (string, git_ref) btree \<times> string) result" where
  "offline_updates peel st [] = Ok st"
| "offline_updates peel st (u # us) =
     rbind (offline_update peel st u) (\<lambda>st'. offline_updates peel st' us)"

definition apply_ref_txns_offline ::
  "(string \<Rightarrow> string) \<Rightarrow> ref_snapshot_data \<Rightarrow> ref_transaction list
     \<Rightarrow> (git_error, ref_snapshot_data) result" where
  "apply_ref_txns_offline peel d txns =
     rbind (offline_updates peel (bt_of (map (\<lambda>r. (name r, r)) (refs d)), head_target d)
              (concat (map updates txns)))
       (\<lambda>(m, ht). Ok \<lparr>refs = map snd m, head_target = ht\<rparr>)"

section \<open>The files of a bare repository\<close>

text \<open>What \<open>load_ref_snapshot\<close> writes and \<open>read_refs\<close> reads; \<open>loose\<close> lists the files under \<open>refs/\<close>.\<close>

record ref_files =
  packed_refs :: "string option"
  head_file :: "string option"
  loose :: "(string \<times> string) list"

definition NL :: string where "NL = [CHR 0x0A]"

definition packed_line :: "git_ref \<Rightarrow> string" where
  "packed_line r =
     oid r @ '' '' @ name r @ NL @ (if peeled r \<noteq> [] then ''^'' @ peeled r @ NL else [])"

definition packed_content :: "git_ref list \<Rightarrow> string" where
  "packed_content rs =
     ''# pack-refs with: peeled fully-peeled sorted '' @ NL @
     concat (map packed_line (sort_key name rs))"

definition load_ref_snapshot :: "ref_snapshot_data \<Rightarrow> ref_files \<Rightarrow> ref_files" where
  "load_ref_snapshot snap f =
     \<lparr>packed_refs = Some (packed_content (refs snap)),
      head_file = (if head_target snap \<noteq> [] then Some (''ref: '' @ head_target snap @ NL)
                   else head_file f),
      loose = []\<rparr>"

text \<open>The parser of \<open>packed-refs\<close>: the map read so far and the name of the last entry.\<close>

type_synonym packed_state = "(string, string \<times> string) btree \<times> string option"

definition packed_step :: "packed_state \<Rightarrow> string \<Rightarrow> packed_state" where
  "packed_step st line =
     (let (m, lst) = st
      in if line = [] \<or> starts_with line ''#'' then st
         else case strip_prefix ''^'' line of
           Some rest \<Rightarrow>
             (case lst of
                None \<Rightarrow> st
              | Some n \<Rightarrow>
                  (case bt_get m n of
                     None \<Rightarrow> st
                   | Some (o', _) \<Rightarrow> (bt_insert n (o', trim rest) m, lst)))
         | None \<Rightarrow>
             (let (a, b) = (case split_once (CHR '' '') line of
                              Some (a, b) \<Rightarrow> (a, b) | None \<Rightarrow> (line, []));
                  o' = trim a; n = trim b
              in if n \<noteq> [] then (bt_insert n (o', []) m, Some n) else st))"

definition parse_packed :: "string \<Rightarrow> (string, string \<times> string) btree" where
  "parse_packed content = fst (foldl packed_step ([], None) (lines content))"

definition loose_step ::
  "(string, string \<times> string) btree \<Rightarrow> string \<times> string \<Rightarrow> (string, string \<times> string) btree" where
  "loose_step m f =
     (let (n, content) = f; s = trim content
      in case strip_prefix ''ref: '' s of
           Some t \<Rightarrow>
             (case bt_get m (trim t) of Some (o', _) \<Rightarrow> bt_insert n (o', []) m | None \<Rightarrow> m)
         | None \<Rightarrow> if s \<noteq> [] then bt_insert n (s, []) m else m)"

definition read_head :: "string option \<Rightarrow> string" where
  "read_head h =
     (case h of
        None \<Rightarrow> []
      | Some s \<Rightarrow> (case strip_prefix ''ref: '' (trim s) of Some t \<Rightarrow> trim t | None \<Rightarrow> []))"

definition fill_peel :: "(string \<Rightarrow> string) \<Rightarrow> git_ref \<Rightarrow> git_ref" where
  "fill_peel peel r =
     (if peeled r \<noteq> [] \<or> \<not> starts_with (name r) ''refs/tags/'' then r
      else r\<lparr>peeled := peel (oid r)\<rparr>)"

definition read_refs :: "(string \<Rightarrow> string) \<Rightarrow> ref_files \<Rightarrow> ref_snapshot_data" where
  "read_refs peel f =
     (let m0 = (case packed_refs f of None \<Rightarrow> [] | Some c \<Rightarrow> parse_packed c);
          m = foldl loose_step m0 (loose f)
      in \<lparr>refs = map (fill_peel peel) (map (\<lambda>(n, (o', p)). \<lparr>name = n, oid = o', peeled = p\<rparr>) m),
          head_target = read_head (head_file f)\<rparr>)"

section \<open>Listing references\<close>

record ls_refs_args =
  ref_prefixes :: "string list"
  symrefs :: bool
  peel_arg :: bool
  unborn :: bool

record ls_refs_line =
  l_name :: string
  l_oid :: string
  l_peeled :: string
  symref_target :: "string option"

definition render :: "ls_refs_line \<Rightarrow> ls_refs_args \<Rightarrow> string" where
  "render l args =
     l_oid l @ '' '' @ l_name l @
     (if symrefs args \<or> l_oid l = ''unborn''
      then case symref_target l of Some t \<Rightarrow> '' symref-target:'' @ t | None \<Rightarrow> []
      else []) @
     (if peel_arg args \<and> l_peeled l \<noteq> [] then '' peeled:'' @ l_peeled l else []) @ NL"

text \<open>\<open>partition_point\<close> of a predicate that holds on a prefix of the list.\<close>

definition partition_point :: "('a \<Rightarrow> bool) \<Rightarrow> 'a list \<Rightarrow> nat" where
  "partition_point P xs = length (takeWhile P xs)"

definition prefix_range :: "git_ref list \<Rightarrow> string \<Rightarrow> nat \<times> nat" where
  "prefix_range rs p =
     (partition_point (\<lambda>r. name r < p) rs,
      partition_point (\<lambda>r. name r < p \<or> starts_with (name r) p) rs)"

text \<open>\<open>sort_unstable\<close> on pairs (equal pairs are indistinguishable), then the merging loop.\<close>

definition sort_ranges :: "(nat \<times> nat) list \<Rightarrow> (nat \<times> nat) list" where
  "sort_ranges rs = sort_key fst (sort_key snd rs)"

fun merge_ranges :: "'a list \<Rightarrow> nat \<Rightarrow> (nat \<times> nat) list \<Rightarrow> 'a list" where
  "merge_ranges rs cursor [] = []"
| "merge_ranges rs cursor ((a0, b) # rest) =
     (let a = max a0 cursor
      in if a < b then take (b - a) (drop a rs) @ merge_ranges rs b rest
         else merge_ranges rs cursor rest)"

definition select_refs :: "git_ref list \<Rightarrow> string list \<Rightarrow> git_ref list" where
  "select_refs rs pfs =
     (if pfs = [] then rs
      else merge_ranges rs 0 (sort_ranges (map (prefix_range rs) pfs)))"

definition ls_refs :: "ref_snapshot_data \<Rightarrow> ls_refs_args \<Rightarrow> ls_refs_line list" where
  "ls_refs snap args =
     (let ht = head_target snap;
          ho = (if ht = [] then None else lookup_oid (refs snap) ht);
          ls = map (\<lambda>r. \<lparr>l_name = name r, l_oid = oid r, l_peeled = peeled r,
                          symref_target = None\<rparr>)
                 (filter (\<lambda>r. name r \<noteq> ''HEAD'') (select_refs (refs snap) (ref_prefixes args)));
          head_matches = ref_prefixes args = [] \<or>
            list_ex (\<lambda>p. starts_with ''HEAD'' p) (ref_prefixes args)
      in if head_matches \<and> ht \<noteq> []
         then (case ho of
             Some o' \<Rightarrow> ls @ [\<lparr>l_name = ''HEAD'', l_oid = o', l_peeled = [], symref_target = Some ht\<rparr>]
           | None \<Rightarrow>
               (if unborn args
                then ls @ [\<lparr>l_name = ''HEAD'', l_oid = ''unborn'', l_peeled = [],
                            symref_target = Some ht\<rparr>]
                else ls))
         else ls)"

section \<open>Lemmas: searching and patching a sorted vector\<close>

definition refs_map :: "git_ref list \<Rightarrow> (string, git_ref) btree" where
  "refs_map rs = map (\<lambda>r. (name r, r)) rs"

lemma refs_map_ok: "bt_ok (refs_map rs) \<longleftrightarrow> sorted_wrt (<) (map name rs)"
  by (simp add: bt_ok_def refs_map_def comp_def)

lemma snd_refs_map [simp]: "map snd (refs_map rs) = rs"
  by (simp add: refs_map_def comp_def)

lemma fst_refs_map: "fst ` set (refs_map rs) = name ` set rs"
  by (force simp: refs_map_def)

lemma search_name_split:
  assumes "sorted_wrt (<) (map name rs)"
  obtains (found) xs r ys where "rs = xs @ r # ys" "search_name rs n = Ok (length xs)" "name r = n"
      "\<forall>x \<in> set xs. name x < n" "\<forall>y \<in> set ys. n < name y"
    | (absent) xs ys where "rs = xs @ ys" "search_name rs n = Err (length xs)"
      "\<forall>x \<in> set xs. name x < n" "\<forall>y \<in> set ys. n < name y"
proof -
  let ?xs = "takeWhile (\<lambda>r. name r < n) rs" and ?ys = "dropWhile (\<lambda>r. name r < n) rs"
  have rs: "rs = ?xs @ ?ys" by simp
  have xs: "\<forall>x \<in> set ?xs. name x < n" by (auto dest: set_takeWhileD)
  have len: "length ?xs < length rs \<longleftrightarrow> ?ys \<noteq> []"
    by (metis append_self_conv length_append length_greater_0_conv less_add_same_cancel1 rs)
  show ?thesis
  proof (cases ?ys)
    case Nil
    then have "search_name rs n = Err (length ?xs)" using len by (simp add: search_name_def)
    then show ?thesis using absent [of ?xs "[]"] rs xs Nil by simp
  next
    case (Cons r ys)
    have nth: "rs ! length ?xs = r" by (metis Cons nth_append_length rs)
    have ge: "n \<le> name r" using hd_dropWhile [of "\<lambda>r. name r < n" rs] Cons by simp
    have "sorted_wrt (<) (map name (?xs @ r # ys))" using assms rs Cons by simp
    then have ys: "\<forall>y \<in> set ys. name r < name y" by (simp add: sorted_wrt_append)
    show ?thesis
    proof (cases "name r = n")
      case True
      then have "search_name rs n = Ok (length ?xs)"
        using len Cons nth by (simp add: search_name_def)
      then show ?thesis using found [of ?xs r ys] rs xs ys Cons True by simp
    next
      case False
      then have "search_name rs n = Err (length ?xs)"
        using len Cons nth by (simp add: search_name_def)
      moreover have "\<forall>y \<in> set ?ys. n < name y" using ge ys Cons False by auto
      ultimately show ?thesis using absent [of ?xs ?ys] rs xs by simp
    qed
  qed
qed

lemma bt_insert_split:
  assumes "\<forall>e \<in> set xs. fst e < k" "\<forall>e \<in> set ys. k < fst e"
  shows "bt_insert k v (xs @ ys) = xs @ (k, v) # ys"
    and "bt_insert k v (xs @ (k, v') # ys) = xs @ (k, v) # ys"
  using assms
proof (induction xs)
  case Nil
  { case 1 then show ?case by (cases ys) auto }
  { case 2 then show ?case by simp }
qed auto

lemma bt_remove_split:
  fixes k :: "'k::linorder"
  assumes "\<forall>e \<in> set xs. fst e < k" "\<forall>e \<in> set ys. k < fst e"
  shows "bt_remove k (xs @ ys) = xs @ ys"
    and "bt_remove k (xs @ (k, v') # ys) = xs @ ys"
proof -
  have "filter (\<lambda>e. fst e \<noteq> k) xs = xs" "filter (\<lambda>e. fst e \<noteq> k) ys = ys"
    using assms by (auto simp: filter_id_conv)
  then show "bt_remove k (xs @ ys) = xs @ ys" "bt_remove k (xs @ (k, v') # ys) = xs @ ys"
    by (simp_all add: bt_remove_def)
qed

text \<open>Patching the vector is updating the map it represents.\<close>

definition new_ref :: "(string \<Rightarrow> string) \<Rightarrow> ref_update \<Rightarrow> git_ref" where
  "new_ref peel u = \<lparr>name = upd_name u, oid = new_oid u, peeled = new_peeled_of peel u\<rparr>"

lemma patch_update_map:
  assumes "sorted_wrt (<) (map name (refs d))" "new_symbolic_target u = []"
  shows "refs_map (refs (patch_update peel d u)) =
      (if zero_oid (new_oid u) then bt_remove (upd_name u) (refs_map (refs d))
       else bt_insert (upd_name u) (new_ref peel u) (refs_map (refs d)))"
    and "head_target (patch_update peel d u) = head_target d"
proof -
  show "refs_map (refs (patch_update peel d u)) =
      (if zero_oid (new_oid u) then bt_remove (upd_name u) (refs_map (refs d))
       else bt_insert (upd_name u) (new_ref peel u) (refs_map (refs d)))"
  proof (cases rule: search_name_split [OF assms(1), of "upd_name u", case_names found absent])
    case (found xs r ys)
    then show ?thesis
      using assms(2) bt_insert_split(2) [of "refs_map xs" "upd_name u" "refs_map ys" "new_ref peel u" r]
        bt_remove_split(2) [of "refs_map xs" "upd_name u" "refs_map ys" r]
      by (auto simp: patch_update_def refs_map_def new_ref_def)
  next
    case (absent xs ys)
    then show ?thesis
      using assms(2) bt_insert_split(1) [of "refs_map xs" "upd_name u" "refs_map ys" "new_ref peel u"]
        bt_remove_split(1) [of "refs_map xs" "upd_name u" "refs_map ys"]
      by (auto simp: patch_update_def refs_map_def new_ref_def)
  qed
  show "head_target (patch_update peel d u) = head_target d"
    using assms(2) by (auto simp: patch_update_def Let_def split: sum.splits bool.splits)
qed

lemma patch_update_symbolic:
  assumes "new_symbolic_target u \<noteq> []"
  shows "refs (patch_update peel d u) = refs d"
    and "head_target (patch_update peel d u) =
      (if upd_name u = ''HEAD'' then new_symbolic_target u else head_target d)"
  using assms by (auto simp: patch_update_def)

lemma patch_update_ok: "snapshot_ok d \<Longrightarrow> snapshot_ok (patch_update peel d u)"
proof (cases "new_symbolic_target u = []")
  case True
  assume "snapshot_ok d"
  then show ?thesis
    using patch_update_map(1) [OF _ True, of d peel] bt_ok_insert bt_ok_remove
    unfolding snapshot_ok_def refs_map_ok [symmetric] by (metis (full_types))
next
  case False
  assume "snapshot_ok d"
  then show ?thesis using patch_update_symbolic(1) [OF False] by (simp add: snapshot_ok_def)
qed

lemma patch_updates_ok: "snapshot_ok d \<Longrightarrow> snapshot_ok (foldl (patch_update peel) d us)"
  by (induction us arbitrary: d) (auto intro: patch_update_ok)

text \<open>One step of the two implementations.\<close>

lemma offline_update_step:
  assumes "snapshot_ok d" "offline_update peel (refs_map (refs d), head_target d) u = Ok st"
  shows "st = (refs_map (refs (patch_update peel d u)), head_target (patch_update peel d u))"
proof (cases "new_symbolic_target u = []")
  case True
  then show ?thesis
    using assms patch_update_map [OF _ True, of d peel]
    by (auto simp: offline_update_def snapshot_ok_def new_ref_def split: if_splits)
next
  case False
  then show ?thesis
    using assms patch_update_symbolic [OF False]
    by (auto simp: offline_update_def split: if_splits)
qed

lemma offline_updates_patch:
  assumes "snapshot_ok d" "offline_updates peel (refs_map (refs d), head_target d) us = Ok st"
  shows "st = (refs_map (refs (foldl (patch_update peel) d us)),
    head_target (foldl (patch_update peel) d us))"
  using assms
proof (induction us arbitrary: d)
  case (Cons u us)
  then obtain st' where st': "offline_update peel (refs_map (refs d), head_target d) u = Ok st'"
      "offline_updates peel st' us = Ok st"
    by auto
  show ?case
    using Cons.IH [OF patch_update_ok [OF Cons.prems(1)], of peel u]
      offline_update_step [OF Cons.prems(1) st'(1)] st'(2) by simp
qed simp

lemma offline_updates_ok:
  "list_all (\<lambda>u. is_ok (validate_ref_update u)) us \<Longrightarrow> \<exists>st'. offline_updates peel st us = Ok st'"
proof (induction us arbitrary: st)
  case (Cons u us)
  then have "\<exists>st'. offline_update peel st u = Ok st'"
    by (auto simp: offline_update_def is_ok_iff split: prod.splits)
  then show ?case using Cons by auto
qed simp

section \<open>Lemmas: the overlay view\<close>

lemma lookup_oid_map:
  assumes "sorted_wrt (<) (map name rs)"
  shows "lookup_oid rs n = map_option oid (bt_get (refs_map rs) n)"
proof (cases rule: search_name_split [OF assms, of n, case_names found absent])
  case (found xs r ys)
  have "bt_get (refs_map rs) n = Some r"
    using assms found by (simp add: refs_map_ok bt_get_iff) (simp add: refs_map_def)
  then show ?thesis using found by (simp add: lookup_oid_def)
next
  case (absent xs ys)
  then have "n \<notin> name ` set rs" by auto
  then have "bt_get (refs_map rs) n = None" by (simp add: bt_get_None_iff fst_refs_map)
  then show ?thesis using absent by (simp add: lookup_oid_def)
qed

text \<open>The oid a view reports for a name other than \<open>HEAD\<close>.\<close>

definition view_oid :: "ref_view \<Rightarrow> string \<Rightarrow> string option" where
  "view_oid v n =
     (case bt_get (overlay v) n of Some val \<Rightarrow> val | None \<Rightarrow> lookup_oid (refs (base v)) n)"

lemma view_get_other: "n \<noteq> ''HEAD'' \<Longrightarrow> view_get v n = Some (view_oid v n)"
  by (subst view_get.simps) (simp add: view_oid_def split: option.splits)

lemma view_set_base [simp]: "base (view_set n x v) = base v" "base (view_remove n v) = base v"
  by (simp_all add: view_set_def view_remove_def)

lemma view_oid_set:
  assumes "bt_ok (overlay v)"
  shows "view_oid (view_set k x v) n = (if n = k then Some x else view_oid v n)"
    and "view_oid (view_remove k v) n = (if n = k then None else view_oid v n)"
  using assms unfolding view_oid_def view_set_base
  by (simp_all add: view_set_def view_remove_def)

lemma view_oid_head [simp]: "view_oid (set_head_target t v) n = view_oid v n"
  by (cases "bt_get (overlay v) n") (simp_all add: view_oid_def set_head_target_def)

lemma view_apply_ok: "bt_ok (overlay v) \<Longrightarrow> bt_ok (overlay (view_apply v u))"
  by (simp add: view_apply_def view_set_def view_remove_def set_head_target_def)

lemma view_apply_base [simp]: "base (view_apply v u) = base v"
  by (simp add: view_apply_def view_set_def view_remove_def set_head_target_def)

text \<open>The view after an update agrees with the snapshot after it.\<close>

definition view_matches :: "ref_view \<Rightarrow> ref_snapshot_data \<Rightarrow> bool" where
  "view_matches v d \<longleftrightarrow>
     bt_ok (overlay v) \<and> view_head_target v = head_target d \<and>
     (\<forall>n. view_oid v n = lookup_oid (refs d) n)"

lemma view_matches_apply:
  assumes "snapshot_ok d" "view_matches v d"
  shows "view_matches (view_apply v u) (patch_update peel d u)"
proof (cases "new_symbolic_target u = []")
  case True
  have ok: "bt_ok (overlay v)" using assms(2) by (simp add: view_matches_def)
  have s: "sorted_wrt (<) (map name (refs d))"
      "sorted_wrt (<) (map name (refs (patch_update peel d u)))"
    using assms(1) patch_update_ok by (auto simp: snapshot_ok_def)
  have mo: "bt_ok (refs_map (refs d))" using s(1) by (simp add: refs_map_ok)
  have "view_oid (view_apply v u) n = lookup_oid (refs (patch_update peel d u)) n" for n
    using assms(2) True ok mo
    unfolding lookup_oid_map [OF s(2)] patch_update_map(1) [OF s(1) True]
    by (auto simp: view_apply_def view_oid_set [OF ok] view_matches_def new_ref_def
        lookup_oid_map [OF s(1)])
  moreover have "view_head_target (view_apply v u) = view_head_target v"
    using True
    by (simp add: view_apply_def view_set_def view_remove_def view_head_target_def
        split: option.splits)
  ultimately show ?thesis
    using assms(2) view_apply_ok [OF ok] patch_update_map(2) [OF s(1) True]
    by (simp add: view_matches_def)
next
  case False
  then show ?thesis
    using assms(2) patch_update_symbolic [OF False]
    by (auto simp: view_matches_def view_apply_def)
       (auto simp: set_head_target_def view_head_target_def)
qed

lemma view_matches_new: "view_matches (view_new d) d"
  by (simp add: view_matches_def view_new_def view_oid_def view_head_target_def)

lemma view_matches_fold:
  "snapshot_ok d \<Longrightarrow> view_matches v d \<Longrightarrow>
     view_matches (foldl view_apply v us) (foldl (patch_update peel) d us)"
  by (induction us arbitrary: v d) (auto intro: view_matches_apply patch_update_ok)

lemma ref_view_of_eq: "ref_view_of d txns = foldl view_apply (view_new d) (concat (map updates txns))"
proof -
  have "foldl (\<lambda>v t. foldl view_apply v (updates t)) w txns =
      foldl view_apply w (concat (map updates txns))" for w
    by (induction txns arbitrary: w) auto
  then show ?thesis by (simp add: ref_view_of_def)
qed

text \<open>When the mutual recursion of \<open>get\<close> and \<open>head_oid\<close> returns.\<close>

definition head_loops :: "ref_view \<Rightarrow> bool" where
  "head_loops v \<longleftrightarrow> view_head_target v = ''HEAD'' \<and> bt_get (overlay v) ''HEAD'' = None"

lemma view_get_loops:
  assumes "head_loops v"
  shows "view_get v ''HEAD'' = None"
proof (rule ccontr)
  assume "view_get v ''HEAD'' \<noteq> None"
  then obtain y where "view_get v ''HEAD'' = Some y" by auto
  moreover have "head_loops v \<longrightarrow> n \<noteq> ''HEAD''" if "view_get v n = Some z" for v n z
    by (rule view_get.raw_induct [where P = "\<lambda>v n z. head_loops v \<longrightarrow> n \<noteq> ''HEAD''", OF _ that])
       (auto simp: head_loops_def split: option.splits if_splits)
  ultimately show False using assms by blast
qed

lemma view_get_returns:
  assumes "\<not> head_loops v"
  shows "\<exists>r. view_get v n = Some r"
proof (cases "n = ''HEAD''")
  case True
  show ?thesis
  proof (cases "bt_get (overlay v) ''HEAD''")
    case None
    then have "view_head_target v \<noteq> ''HEAD''" using assms by (simp add: head_loops_def)
    then show ?thesis
      using None True view_get_other [of "view_head_target v" v] by (subst view_get.simps) simp
  qed (use True in \<open>subst view_get.simps, simp\<close>)
qed (simp add: view_get_other)

section \<open>Lemmas: selecting by prefix\<close>

text \<open>The merging loop emits the elements whose index lies in some range, in order, once.\<close>

lemma nths_atLeastLessThan: "nths xs {a..<b} = take (b - a) (drop a xs)"
proof (induction xs arbitrary: a b)
  case (Cons x xs)
  have "{j. Suc j \<in> {a..<b}} = {a - 1..<b - 1}" by auto
  then show ?case by (cases a; cases b) (auto simp: nths_Cons Cons.IH)
qed simp

lemma nths_Un_above:
  assumes "\<forall>i \<in> A. i < c" "\<forall>j \<in> B. c \<le> j"
  shows "nths xs (A \<union> B) = nths xs A @ nths xs B"
  using assms
proof (induction xs arbitrary: A B c)
  case (Cons x xs)
  let ?A = "{j. Suc j \<in> A}" and ?B = "{j. Suc j \<in> B}"
  have U: "{j. Suc j \<in> A \<union> B} = ?A \<union> ?B" by auto
  show ?case
  proof (cases c)
    case 0
    then have "A = {}" using Cons.prems(1) by auto
    then show ?thesis by simp
  next
    case (Suc c')
    have "nths xs (?A \<union> ?B) = nths xs ?A @ nths xs ?B"
      using Cons.prems Suc by (intro Cons.IH [of _ c']) auto
    moreover have "0 \<notin> B" using Cons.prems(2) Suc by auto
    ultimately show ?thesis unfolding nths_Cons U by simp
  qed
qed simp

definition covered :: "(nat \<times> nat) list \<Rightarrow> nat set" where
  "covered rs = (\<Union>(a, b) \<in> set rs. {a..<b})"

lemma merge_ranges_nths:
  assumes "sorted (map fst rest)" "\<forall>x \<in> set done. \<forall>y \<in> set rest. fst x \<le> fst y"
    and "cursor = 0 \<and> covered done = {} \<or> (\<exists>a. (a, cursor) \<in> set done \<and> a < cursor)"
    and "\<forall>i \<in> covered done. i < cursor"
  shows "merge_ranges xs cursor rest = nths xs (covered (done @ rest) - covered done)"
  using assms
proof (induction rest arbitrary: "done" cursor)
  case Nil
  then show ?case by simp
next
  case (Cons r rest)
  obtain a0 b where r: "r = (a0, b)" by (cases r)
  let ?a = "max a0 cursor"
  let ?done = "done @ [r]"
  have below: "{a0..<cursor} \<subseteq> covered done"
  proof (cases "covered done = {} \<and> cursor = 0")
    case False
    then obtain a where "(a, cursor) \<in> set done" "a < cursor" using Cons.prems(3) by auto
    then have "a \<le> a0" "{a..<cursor} \<subseteq> covered done"
      using Cons.prems(2) r by (force simp: covered_def)+
    then show ?thesis by (meson atLeastLessThan_subset_iff order_trans subsetI atLeastLessThan_iff subsetD)
  qed simp
  have cov: "covered ?done = covered done \<union> {a0..<b}" by (auto simp: covered_def r)
  have new: "{a0..<b} - covered done = {?a..<b}"
  proof (intro set_eqI iffI)
    fix i assume i: "i \<in> {a0..<b} - covered done"
    then have "\<not> i < cursor" using below by auto
    then show "i \<in> {?a..<b}" using i by auto
  next
    fix i assume i: "i \<in> {?a..<b}"
    then show "i \<in> {a0..<b} - covered done" using Cons.prems(4) by auto
  qed
  have sorted: "sorted (map fst rest)" and le: "\<forall>x \<in> set ?done. \<forall>y \<in> set rest. fst x \<le> fst y"
    using Cons.prems(1,2) by auto
  have split: "covered (done @ r # rest) - covered done =
      {?a..<b} \<union> (covered (?done @ rest) - covered ?done)"
    using new cov by (auto simp: covered_def)
  show ?case
  proof (cases "?a < b")
    case True
    have IH: "merge_ranges xs b rest = nths xs (covered (?done @ rest) - covered ?done)"
      using Cons.IH [OF sorted le, of b] Cons.prems(4) True r cov by fastforce
    have above: "\<forall>j \<in> covered (?done @ rest) - covered ?done. b \<le> j"
      using le r by (fastforce simp: covered_def)
    have "nths xs ({?a..<b} \<union> (covered (?done @ rest) - covered ?done)) =
        nths xs {?a..<b} @ nths xs (covered (?done @ rest) - covered ?done)"
      by (rule nths_Un_above [of _ b]) (use above in auto)
    then show ?thesis using True IH unfolding split by (simp add: r nths_atLeastLessThan Let_def)
  next
    case False
    then have e: "{?a..<b} = {}" by auto
    have "covered ?done = covered done" using new e cov by auto
    then have IH: "merge_ranges xs cursor rest = nths xs (covered (?done @ rest) - covered ?done)"
      using Cons.IH [OF sorted le, of cursor] Cons.prems(3,4) by auto
    then show ?thesis using False unfolding split e by (auto simp: r Let_def)
  qed
qed

lemma partition_point_iff:
  assumes "i < length xs" "\<And>j k. j < k \<Longrightarrow> k < length xs \<Longrightarrow> P (xs ! k) \<Longrightarrow> P (xs ! j)"
  shows "i < partition_point P xs \<longleftrightarrow> P (xs ! i)"
  using assms
proof (induction xs arbitrary: i)
  case (Cons x xs)
  have mono: "P (xs ! j)" if "j < k" "k < length xs" "P (xs ! k)" for j k
    using Cons.prems(2) [of "Suc j" "Suc k"] that by simp
  have hd: "P x" if "P ((x # xs) ! i)"
    using Cons.prems(2) [of 0 i] Cons.prems(1) that by (cases i) auto
  show ?case
  proof (cases i)
    case 0
    then show ?thesis by (simp add: partition_point_def)
  next
    case (Suc i')
    then show ?thesis
      using Cons.IH [of i'] Cons.prems(1) mono hd by (auto simp: partition_point_def)
  qed
qed simp

lemma prefix_range_covers:
  assumes "sorted_wrt (<) (map name rs)" "i < length rs"
  shows "i \<in> {fst (prefix_range rs p)..<snd (prefix_range rs p)} \<longleftrightarrow> starts_with (name (rs ! i)) p"
proof -
  have lt: "name (rs ! j) < name (rs ! k)" if "j < k" "k < length rs" for j k
    using sorted_wrt_nth_less [OF assms(1), of j k] that by simp
  have one: "i < partition_point (\<lambda>r. name r < p) rs \<longleftrightarrow> name (rs ! i) < p"
    by (rule partition_point_iff [OF assms(2)]) (use lt in \<open>auto intro: order.strict_trans\<close>)
  have two: "i < partition_point (\<lambda>r. name r < p \<or> starts_with (name r) p) rs \<longleftrightarrow>
      name (rs ! i) < p \<or> starts_with (name (rs ! i)) p"
  proof (rule partition_point_iff [OF assms(2)])
    fix j k assume jk: "j < k" "k < length rs"
      and k: "name (rs ! k) < p \<or> starts_with (name (rs ! k)) p"
    show "name (rs ! j) < p \<or> starts_with (name (rs ! j)) p"
    proof (rule ccontr)
      assume n: "\<not> (name (rs ! j) < p \<or> starts_with (name (rs ! j)) p)"
      then have "p < name (rs ! j)" by (metis linorder_neqE prefix_order.refl starts_with_def)
      then show False
        using less_prefix_trans [of p "name (rs ! j)" "name (rs ! k)"] lt [OF jk] k n
        by (auto simp: starts_with_def)
    qed
  qed
  show ?thesis
    using one two prefix_not_less [of p "name (rs ! i)"]
    by (auto simp: prefix_range_def starts_with_def not_less)
qed

lemma filter_nths: "filter P xs = nths xs {i. i < length xs \<and> P (xs ! i)}"
proof (induction xs)
  case (Cons x xs)
  have "{j. Suc j < length (x # xs) \<and> P ((x # xs) ! Suc j)} = {i. i < length xs \<and> P (xs ! i)}"
    by auto
  then show ?case using Cons by (simp add: nths_Cons)
qed simp

lemma nths_cong_length: "A \<inter> {..<length xs} = B \<inter> {..<length xs} \<Longrightarrow> nths xs A = nths xs B"
proof -
  assume e: "A \<inter> {..<length xs} = B \<inter> {..<length xs}"
  have "filter (\<lambda>p. snd p \<in> A) (zip xs [0..<length xs]) = filter (\<lambda>p. snd p \<in> B) (zip xs [0..<length xs])"
  proof (rule filter_cong)
    fix q assume "q \<in> set (zip xs [0..<length xs])"
    then have "snd q < length xs" by (auto simp: set_zip)
    then show "snd q \<in> A \<longleftrightarrow> snd q \<in> B" using e by (metis Int_iff lessThan_iff)
  qed simp
  then show ?thesis by (simp add: nths_def)
qed

lemma sort_ranges_sorted: "sorted (map fst (sort_ranges rs))" "set (sort_ranges rs) = set rs"
  by (simp_all add: sort_ranges_def)

lemma select_refs_filter:
  assumes "sorted_wrt (<) (map name rs)" "pfs \<noteq> []"
  shows "select_refs rs pfs = filter (\<lambda>r. \<exists>p \<in> set pfs. starts_with (name r) p) rs"
proof -
  let ?R = "sort_ranges (map (prefix_range rs) pfs)"
  have "merge_ranges rs 0 ?R = nths rs (covered ([] @ ?R) - covered [])"
    by (rule merge_ranges_nths) (simp_all add: sort_ranges_sorted covered_def)
  also have "\<dots> = nths rs (covered ?R)" by (simp add: covered_def)
  also have "\<dots> = nths rs {i. i < length rs \<and> (\<exists>p \<in> set pfs. starts_with (name (rs ! i)) p)}"
  proof (rule nths_cong_length, intro set_eqI)
    fix i
    have "i \<in> covered ?R \<longleftrightarrow> (\<exists>p \<in> set pfs. i \<in> {fst (prefix_range rs p)..<snd (prefix_range rs p)})"
      by (simp add: covered_def sort_ranges_sorted case_prod_beta)
    then show "i \<in> covered ?R \<inter> {..<length rs} \<longleftrightarrow>
        i \<in> {i. i < length rs \<and> (\<exists>p \<in> set pfs. starts_with (name (rs ! i)) p)} \<inter> {..<length rs}"
      using prefix_range_covers [OF assms(1)] by auto
  qed
  also have "\<dots> = filter (\<lambda>r. \<exists>p \<in> set pfs. starts_with (name r) p) rs"
    by (simp add: filter_nths)
  finally show ?thesis using assms(2) by (simp add: select_refs_def)
qed

section \<open>Lemmas: \<open>packed-refs\<close> and \<open>HEAD\<close>\<close>

lemma trim_id: "\<forall>c \<in> set s. \<not> is_ws c \<Longrightarrow> trim s = s"
proof -
  assume a: "\<forall>c \<in> set s. \<not> is_ws c"
  then have "dropWhile is_ws s = s" by (cases s) auto
  moreover have "dropWhile is_ws (rev s) = rev s" using a by (cases "rev s") auto
  ultimately show ?thesis by (simp add: trim_def)
qed

lemma split_lines_line:
  assumes "CHR 0x0A \<notin> set l"
  shows "split_lines acc (l @ CHR 0x0A # rest) =
    rev (case rev l @ acc of [] \<Rightarrow> [] | d # ds \<Rightarrow> if d = CHR 0x0D then ds else rev l @ acc)
      # split_lines [] rest"
  using assms by (induction l arbitrary: acc) (auto split: list.splits)

lemma lines_line:
  assumes "CHR 0x0A \<notin> set l" "CHR 0x0D \<notin> set l"
  shows "lines (l @ NL @ rest) = l # lines rest"
proof -
  have "rev l = d # ds \<Longrightarrow> d \<noteq> CHR 0x0D" for d ds
    using assms(2) by (metis list.set_intros(1) set_rev)
  then show ?thesis
    using split_lines_line [OF assms(1), of "[]" rest]
    by (auto simp: lines_def NL_def split: list.splits)
qed

text \<open>References that can be written to a line: what validation lets through.\<close>

definition hex_string :: "string \<Rightarrow> bool" where
  "hex_string s \<longleftrightarrow> list_all is_ascii_hexdigit s"

definition wf_ref :: "git_ref \<Rightarrow> bool" where
  "wf_ref r \<longleftrightarrow> name r \<noteq> [] \<and> list_all (\<lambda>c. \<not> is_ws c) (name r) \<and>
     oid r \<noteq> [] \<and> hex_string (oid r) \<and> hex_string (peeled r)"

lemma hex_not_ws: "is_ascii_hexdigit c \<Longrightarrow> \<not> is_ws c \<and> c \<noteq> CHR ''#'' \<and> c \<noteq> CHR ''^''"
  by (auto simp: is_ascii_hexdigit_def is_ws_def less_eq_char_def)

lemma hex_string_not_ws: "hex_string s \<Longrightarrow> c \<in> set s \<Longrightarrow> \<not> is_ws c \<and> c \<noteq> CHR ''#'' \<and> c \<noteq> CHR ''^''"
  by (auto simp: hex_string_def list_all_iff hex_not_ws)

definition ref_lines :: "git_ref \<Rightarrow> string list" where
  "ref_lines r = (oid r @ '' '' @ name r) # (if peeled r \<noteq> [] then [''^'' @ peeled r] else [])"

lemma not_ws_newline: "\<not> is_ws c \<Longrightarrow> c \<noteq> CHR 0x0A \<and> c \<noteq> CHR 0x0D \<and> c \<noteq> CHR '' ''"
  by (auto simp: is_ws_def)

lemma lines_packed_line:
  assumes "wf_ref r"
  shows "lines (packed_line r @ rest) = ref_lines r @ lines rest"
proof -
  have nw: "\<forall>c \<in> set (name r) \<union> set (oid r) \<union> set (peeled r). \<not> is_ws c"
    using assms hex_string_not_ws by (auto simp: wf_ref_def list_all_iff)
  have 1: "CHR 0x0A \<notin> set (oid r @ '' '' @ name r)" "CHR 0x0D \<notin> set (oid r @ '' '' @ name r)"
    and 2: "CHR 0x0A \<notin> set (''^'' @ peeled r)" "CHR 0x0D \<notin> set (''^'' @ peeled r)"
    using nw by (auto dest: not_ws_newline)
  have "packed_line r @ rest = (oid r @ '' '' @ name r) @ NL @
      ((if peeled r \<noteq> [] then (''^'' @ peeled r) @ NL else []) @ rest)"
    by (simp add: packed_line_def)
  also have "lines \<dots> = (oid r @ '' '' @ name r) #
      lines ((if peeled r \<noteq> [] then (''^'' @ peeled r) @ NL else []) @ rest)"
    by (rule lines_line [OF 1])
  also have "\<dots> = ref_lines r @ lines rest"
    using lines_line [OF 2, of rest] by (auto simp: ref_lines_def)
  finally show ?thesis .
qed

lemma lines_packed_lines:
  "list_all wf_ref rs \<Longrightarrow> lines (concat (map packed_line rs)) = concat (map ref_lines rs)"
proof (induction rs)
  case Nil
  then show ?case by (simp add: lines_def)
next
  case (Cons r rs)
  then show ?case by (simp add: lines_packed_line)
qed

lemma bt_insert_twice: "bt_ok m \<Longrightarrow> bt_insert k v (bt_insert k w m) = bt_insert k v m"
  by (rule bt_ext) auto

lemma packed_step_ref:
  assumes "wf_ref r" "bt_ok m"
  shows "foldl packed_step (m, lst) (ref_lines r) =
    (bt_insert (name r) (oid r, peeled r) m, Some (name r))"
proof -
  have nw: "\<forall>c \<in> set (name r). \<not> is_ws c" "\<forall>c \<in> set (oid r). \<not> is_ws c" "\<forall>c \<in> set (peeled r). \<not> is_ws c"
    using assms(1) hex_string_not_ws by (auto simp: wf_ref_def list_all_iff)
  obtain c cs where o': "oid r = c # cs" "c \<noteq> CHR ''#''" "c \<noteq> CHR ''^''"
    using assms(1) hex_string_not_ws by (cases "oid r") (auto simp: wf_ref_def)
  have sp: "split_once (CHR '' '') (oid r @ '' '' @ name r) = Some (oid r, name r)"
    using nw(2) not_ws_newline by (auto intro!: split_once_append)
  have one: "packed_step (m, lst) (oid r @ '' '' @ name r) =
      (bt_insert (name r) (oid r, []) m, Some (name r))"
    using sp o' assms(1) trim_id [OF nw(1)] trim_id [OF nw(2)]
    by (auto simp: packed_step_def starts_with_def strip_prefix_def wf_ref_def Let_def)
  have two: "packed_step (bt_insert (name r) (oid r, []) m, Some (name r)) (''^'' @ peeled r) =
      (bt_insert (name r) (oid r, peeled r) m, Some (name r))"
    using assms(2) trim_id [OF nw(3)]
    by (simp add: packed_step_def starts_with_def strip_prefix_def bt_insert_twice)
  show ?thesis using one two by (simp add: ref_lines_def)
qed

lemma packed_fold:
  assumes "list_all wf_ref rs" "bt_ok m"
  shows "fst (foldl packed_step (m, lst) (concat (map ref_lines rs))) =
    foldl (\<lambda>m e. bt_insert (fst e) (snd e) m) m (map (\<lambda>r. (name r, (oid r, peeled r))) rs)"
  using assms by (induction rs arbitrary: m lst) (auto simp: packed_step_ref)

lemma parse_packed_content:
  assumes "sorted_wrt (<) (map name rs)" "list_all wf_ref rs"
  shows "parse_packed (packed_content rs) = map (\<lambda>r. (name r, (oid r, peeled r))) rs"
proof -
  let ?h = "''# pack-refs with: peeled fully-peeled sorted ''"
  have "sorted (map name rs)" using assms(1) by (simp add: strict_sorted_iff)
  then have srt: "sort_key name rs = rs" by (rule sort_key_id_if_sorted)
  have "lines (packed_content rs) = ?h # concat (map ref_lines rs)"
    unfolding packed_content_def srt
    by (subst lines_line) (simp_all add: lines_packed_lines [OF assms(2)])
  moreover have "packed_step ([], None) ?h = ([], None)"
    by (simp add: packed_step_def starts_with_def)
  ultimately have "parse_packed (packed_content rs) =
      bt_of (map (\<lambda>r. (name r, (oid r, peeled r))) rs)"
    using packed_fold [OF assms(2), of "[]" None] by (simp add: parse_packed_def bt_of_def)
  also have "\<dots> = map (\<lambda>r. (name r, (oid r, peeled r))) rs"
    by (rule bt_of_sorted) (use assms(1) in \<open>simp add: bt_ok_def comp_def\<close>)
  finally show ?thesis .
qed

lemma git_ref_eta [simp]: "\<lparr>name = name r, oid = oid r, peeled = peeled r\<rparr> = (r :: git_ref)"
  by (cases r) simp

lemma read_head_written:
  assumes "t \<noteq> []" "\<forall>c \<in> set t. \<not> is_ws c"
  shows "read_head (Some (''ref: '' @ t @ NL)) = t"
proof -
  have d: "dropWhile is_ws (''ref: '' @ x) = ''ref: '' @ x" for x by (simp add: is_ws_def)
  obtain c cs where c: "rev t = c # cs" using assms(1) by (cases "rev t") auto
  then have "\<not> is_ws c" using assms(2) by (metis list.set_intros(1) set_rev)
  moreover have "is_ws (CHR 0x0A)" by (simp add: is_ws_def)
  ultimately have "dropWhile is_ws (rev (''ref: '' @ t @ NL)) = rev (''ref: '' @ t)"
    using c by (simp add: NL_def)
  then have "trim (''ref: '' @ t @ NL) = ''ref: '' @ t"
    unfolding trim_def d by (metis rev_rev_ident)
  then show ?thesis using trim_id [OF assms(2)] by (simp add: read_head_def strip_prefix_def)
qed

section \<open>Lemmas: repository ids\<close>

lemma validate_part_ok:
  "validate_part s = Ok () \<longleftrightarrow>
     s \<noteq> [] \<and> length s \<le> 100 \<and> \<not> starts_with s ''.'' \<and> list_all part_byte s"
  by (auto simp: validate_part_def starts_with_def)

lemma part_byte_plain: "part_byte c \<Longrightarrow> c \<noteq> CHR ''/'' \<and> \<not> is_ws c"
  by (auto simp: part_byte_def is_ascii_alphanumeric_def is_ws_def less_eq_char_def)

lemma repo_id_from_display:
  assumes "validate_part (ri_owner r) = Ok ()" "validate_part (ri_name r) = Ok ()"
    "\<not> ends_with (ri_name r) ''.git''"
  shows "repo_id_from_str (repo_id_display r) = Ok r"
proof -
  let ?s = "repo_id_display r"
  have pb: "list_all part_byte (ri_owner r)" "list_all part_byte (ri_name r)"
    and ne: "ri_owner r \<noteq> []" "ri_name r \<noteq> []"
    using assms(1,2) by (auto simp: validate_part_ok)
  have "\<forall>c \<in> set ?s. \<not> is_ws c"
    using pb part_byte_plain
    by (auto simp: repo_id_display_def list_all_iff) (auto simp: is_ws_def)
  then have t: "trim ?s = ?s" by (rule trim_id)
  have "\<not> suffix ''.git'' ?s"
  proof
    assume "suffix ''.git'' ?s"
    moreover have "''.git'' \<noteq> xs @ CHR ''/'' # n" for xs n
      by (auto simp: Cons_eq_append_conv)
    ultimately have "suffix ''.git'' (ri_name r)"
      unfolding repo_id_display_def by (auto simp: suffix_append suffix_Cons)
    then show False using assms(3) by (simp add: ends_with_def)
  qed
  then have st: "strip_suffix ''.git'' ?s = None" by (simp add: strip_suffix_def)
  have "CHR ''/'' \<notin> set (ri_owner r)"
    using pb(1) part_byte_plain by (auto simp: list_all_iff)
  then have "split_once (CHR ''/'') ?s = Some (ri_owner r, ri_name r)"
    by (simp add: repo_id_display_def)
  then show ?thesis
    using t st ne assms(1,2) by (simp add: repo_id_from_str_def repo_id_new_def)
qed

section \<open>Properties\<close>

text \<open>
  C38. The two ways transactions are applied to a snapshot agree: patching the name-sorted vector
  in place (the warm path) gives exactly the snapshot that rebuilding an ordered map gives (the
  refs-first replica), for every sequence of valid updates, including repeated updates of one
  name, deletions of absent names and \<open>HEAD\<close> moves; and the result is again sorted by name.
\<close>

theorem patch_snapshot_equals_offline:
  assumes "snapshot_ok d" "list_all (\<lambda>u. is_ok (validate_ref_update u)) (concat (map updates txns))"
  shows "apply_ref_txns_offline peel d txns = Ok (patch_snapshot peel d txns) \<and>
    snapshot_ok (patch_snapshot peel d txns)"
proof -
  have m: "bt_of (map (\<lambda>r. (name r, r)) (refs d)) = refs_map (refs d)"
    unfolding refs_map_def [symmetric]
    by (rule bt_of_sorted) (use assms(1) in \<open>simp add: refs_map_ok snapshot_ok_def\<close>)
  obtain st where st: "offline_updates peel (refs_map (refs d), head_target d)
      (concat (map updates txns)) = Ok st"
    using offline_updates_ok [OF assms(2)] by blast
  have "apply_ref_txns_offline peel d txns = Ok (patch_snapshot peel d txns)"
    using st offline_updates_patch [OF assms(1) st]
    by (simp add: apply_ref_txns_offline_def m patch_snapshot_def)
  then show ?thesis using patch_updates_ok [OF assms(1)] by (simp add: patch_snapshot_def)
qed

definition sample_snapshot :: ref_snapshot_data where
  "sample_snapshot = \<lparr>refs = [\<lparr>name = ''refs/heads/a'', oid = replicate 40 (CHR ''1''), peeled = []\<rparr>,
     \<lparr>name = ''refs/heads/main'', oid = replicate 40 (CHR ''2''), peeled = []\<rparr>],
     head_target = ''refs/heads/main''\<rparr>"

definition sample_txn :: ref_transaction where
  "sample_txn = \<lparr>updates =
     [\<lparr>upd_name = ''refs/heads/dev'', old_oid = [], new_oid = replicate 40 (CHR ''3''),
       new_symbolic_target = [], new_peeled = []\<rparr>,
      \<lparr>upd_name = ''refs/heads/a'', old_oid = replicate 40 (CHR ''1''), new_oid = replicate 40 (CHR ''0''),
       new_symbolic_target = [], new_peeled = []\<rparr>,
      \<lparr>upd_name = ''HEAD'', old_oid = [], new_oid = [],
       new_symbolic_target = ''refs/heads/dev'', new_peeled = []\<rparr>],
     push_options = [], atomic = True\<rparr>"

lemma sample_snapshot_ok: "snapshot_ok sample_snapshot"
  by code_simp

lemma sample_txn_valid: "list_all (\<lambda>u. is_ok (validate_ref_update u)) (concat (map updates [sample_txn]))"
  by code_simp

theorem patch_snapshot_equals_offline_witness:
  "is_ok (apply_ref_txns_offline (\<lambda>_. []) sample_snapshot [sample_txn])"
  using patch_snapshot_equals_offline [OF sample_snapshot_ok sample_txn_valid, of "\<lambda>_. []"]
  by (simp add: is_ok_iff)

text \<open>
  The overlay view answers like the materialized snapshot: after any pending transactions,
  looking up a name other than \<open>HEAD\<close> returns what the patched snapshot holds for it, and the
  \<open>HEAD\<close> target is that of the patched snapshot.
\<close>

theorem ref_view_agrees_with_snapshot:
  assumes "snapshot_ok d" "n \<noteq> ''HEAD''"
  shows "view_get (ref_view_of d txns) n = Some (lookup_oid (refs (patch_snapshot peel d txns)) n) \<and>
    view_head_target (ref_view_of d txns) = head_target (patch_snapshot peel d txns)"
proof -
  have "view_matches (ref_view_of d txns) (patch_snapshot peel d txns)"
    unfolding ref_view_of_eq patch_snapshot_def
    by (rule view_matches_fold [OF assms(1) view_matches_new])
  then show ?thesis using view_get_other [OF assms(2)] by (simp add: view_matches_def)
qed

theorem ref_view_agrees_with_snapshot_witness:
  "view_head_target (ref_view_of sample_snapshot [sample_txn]) =
     head_target (patch_snapshot (\<lambda>_. []) sample_snapshot [sample_txn])"
  using ref_view_agrees_with_snapshot [OF sample_snapshot_ok, of "''refs/heads/dev''"] by simp

text \<open>
  Looking up \<open>HEAD\<close> in a view returns unless the symbolic target is \<open>HEAD\<close> itself and no
  direct value for it is pending; in that case the mutual recursion of \<open>get\<close> and \<open>head_oid\<close>
  never returns.
\<close>

theorem view_get_returns_iff:
  "(\<exists>r. view_get v ''HEAD'' = Some r) \<longleftrightarrow>
     \<not> (view_head_target v = ''HEAD'' \<and> bt_get (overlay v) ''HEAD'' = None)"
  using view_get_returns [of v "''HEAD''"] view_get_loops [of v]
  by (cases "bt_get (overlay v) ''HEAD''") (auto simp: head_loops_def)

text \<open>
  C40. A symbolic update of \<open>HEAD\<close> to itself passes validation, so the state in which looking up
  \<open>HEAD\<close> never returns can be reached by applying a validated transaction to any snapshot.
\<close>

theorem self_symref_accepted_and_loops:
  fixes d :: ref_snapshot_data
  defines "u \<equiv> \<lparr>upd_name = ''HEAD'', old_oid = [], new_oid = [], new_symbolic_target = ''HEAD'',
    new_peeled = []\<rparr>"
  shows "validate_ref_update u = Ok () \<and>
    view_get (ref_view_of d [\<lparr>updates = [u], push_options = [], atomic = True\<rparr>]) ''HEAD'' = None"
proof -
  have "head_loops (ref_view_of d [\<lparr>updates = [u], push_options = [], atomic = True\<rparr>])"
    by (simp add: head_loops_def ref_view_of_def view_new_def view_apply_def set_head_target_def
        view_head_target_def u_def)
  then show ?thesis
    using view_get_loops by (simp add: u_def validate_ref_update_def validate_ref_name_def)
qed

text \<open>
  Writing a snapshot to \<open>packed-refs\<close> and \<open>HEAD\<close> and reading the files back returns the same
  references and the same \<open>HEAD\<close> target, up to filling in peeled ids of tags that lacked one; old
  files and loose references leave no trace.
\<close>

theorem packed_refs_roundtrip:
  assumes "snapshot_ok d" "list_all wf_ref (refs d)"
    and "head_target d \<noteq> []" "list_all (\<lambda>c. \<not> is_ws c) (head_target d)"
  shows "read_refs peel (load_ref_snapshot d f) = d\<lparr>refs := map (fill_peel peel) (refs d)\<rparr>"
proof -
  have "parse_packed (packed_content (refs d)) = map (\<lambda>r. (name r, (oid r, peeled r))) (refs d)"
    using parse_packed_content assms by (simp add: snapshot_ok_def)
  moreover have "read_head (Some (''ref: '' @ head_target d @ NL)) = head_target d"
    using read_head_written assms by (simp add: list_all_iff)
  ultimately show ?thesis
    using assms(3) by (cases d) (simp add: read_refs_def load_ref_snapshot_def comp_def)
qed

theorem packed_refs_roundtrip_witness:
  "refs (read_refs (\<lambda>_. []) (load_ref_snapshot sample_snapshot
     \<lparr>packed_refs = Some ''garbage'', head_file = None, loose = [(''refs/heads/old'', ''ff'')]\<rparr>)) =
   map (fill_peel (\<lambda>_. [])) (refs sample_snapshot)"
proof -
  have "list_all wf_ref (refs sample_snapshot)" "head_target sample_snapshot \<noteq> []"
    "list_all (\<lambda>c. \<not> is_ws c) (head_target sample_snapshot)"
    by code_simp+
  from packed_refs_roundtrip [OF sample_snapshot_ok this] show ?thesis by simp
qed

text \<open>
  \<open>ls-refs\<close> with ref-prefixes: the binary-searched, merged ranges select exactly the references
  whose name starts with one of the prefixes, each once and in name order, whatever order or
  overlap the prefixes have.
\<close>

theorem ls_refs_selects_prefixes:
  assumes "snapshot_ok d" "pfs \<noteq> []"
  shows "select_refs (refs d) pfs = filter (\<lambda>r. \<exists>p \<in> set pfs. starts_with (name r) p) (refs d)"
  using assms by (intro select_refs_filter) (simp_all add: snapshot_ok_def)

theorem ls_refs_selects_prefixes_witness:
  "select_refs (refs sample_snapshot) [''refs/heads/'', ''refs/heads/m''] = refs sample_snapshot"
proof -
  have "list_all (\<lambda>r. list_ex (starts_with (name r)) [''refs/heads/'', ''refs/heads/m'']) (refs sample_snapshot)"
    by code_simp
  then have "filter (\<lambda>r. \<exists>p \<in> set [''refs/heads/'', ''refs/heads/m'']. starts_with (name r) p)
      (refs sample_snapshot) = refs sample_snapshot"
    by (auto simp: filter_id_conv list_all_iff list_ex_iff)
  then show ?thesis
    using ls_refs_selects_prefixes [OF sample_snapshot_ok, of "[''refs/heads/'', ''refs/heads/m'']"]
    by simp
qed

text \<open>
  Repository ids print and parse: the display form of a valid id parses back to it, as long
  as the name does not itself end in \<open>.git\<close> (a suffix the parser strips).
\<close>

theorem repo_id_roundtrip:
  assumes "repo_id_new (ri_owner r) (ri_name r) = Ok r" "\<not> ends_with (ri_name r) ''.git''"
  shows "repo_id_from_str (repo_id_display r) = Ok r"
  using assms by (intro repo_id_from_display) (auto simp: repo_id_new_def)

theorem repo_id_roundtrip_witness:
  "repo_id_from_str (repo_id_display \<lparr>ri_owner = ''acme'', ri_name = ''mono.repo''\<rparr>) =
     Ok \<lparr>ri_owner = ''acme'', ri_name = ''mono.repo''\<rparr>"
proof (rule repo_id_roundtrip)
  show "repo_id_new (ri_owner \<lparr>ri_owner = ''acme'', ri_name = ''mono.repo''\<rparr>)
      (ri_name \<lparr>ri_owner = ''acme'', ri_name = ''mono.repo''\<rparr>) =
      Ok \<lparr>ri_owner = ''acme'', ri_name = ''mono.repo''\<rparr>"
    by code_simp
  show "\<not> ends_with (ri_name \<lparr>ri_owner = ''acme'', ri_name = ''mono.repo''\<rparr>) ''.git''"
    by code_simp
qed

end
