(* ===== verification/Wal_Sync.thy ===== *)
theory Wal_Sync
  imports Coord Git_Refs "HOL-Library.Multiset" "HOL-Library.Code_Target_Nat"
begin

text \<open>
  Synchronisation of a repository handle with its bucket: the state and errors of
  \<^verbatim>\<open>crates/walgit-wal/src/state.rs\<close> and \<^verbatim>\<open>error.rs\<close>, the freshness check, replay and rebuild of
  \<^verbatim>\<open>sync.rs\<close> at the level of references, the locked sync of \<^verbatim>\<open>handle.rs\<close>, and the log reader of
  \<^verbatim>\<open>log_reader.rs\<close>.

  The local bare repository is its reference snapshot (\<open>h_refs\<close>); \<open>peel\<close> stands for the object
  database as in \<open>Git_Refs\<close>.  Segments that the code fetches in parallel are fetched in list
  order.  A sync that fails returns no handle: the references it may have half replayed (which the
  code marks unverified first, so that the next sync rebuilds them) are not modelled.  The checkpoint
  times come from the manifest's reference only.  Telemetry and the state file are not modelled;
  error texts are abbreviated.
\<close>

section \<open>Errors, codecs and the handle\<close>

datatype wal_error =
    WNotFound
  | WAlreadyExists
  | WRefConflict string string string
  | WStore store_error
  | WCoord coord_error
  | WGit git_error
  | WCorrupt string
  | WInvalid string
  | WRetry nat
  | WTooLarge nat nat

datatype ref_error =
    NonFastForward
  | Conflict string string
  | Rejected string
  | Missing

text \<open>The message codecs of \<open>prost\<close> that the log uses.\<close>

record 'a codecs =
  c_varint :: "'a varint_codec"
  c_entry :: "('a, log_entry) msg_codec"
  c_manifest :: "('a, manifest) msg_codec"
  c_snapshot :: "('a, ref_snapshot) msg_codec"
  c_checkpoint :: "('a, checkpoint_msg) msg_codec"

definition codecs_ok :: "'a codecs \<Rightarrow> bool" where
  "codecs_ok cs \<longleftrightarrow> varint_ok (c_varint cs) \<and> codec_ok (c_entry cs) \<and> codec_ok (c_manifest cs) \<and>
     codec_ok (c_snapshot cs) \<and> codec_ok (c_checkpoint cs)"

text \<open>\<open>RepoHandle\<close> with its \<open>RepoState\<close>: what the reference level of a sync reads and writes.\<close>

record repo_handle =
  h_manifest :: manifest
  h_version :: "version option"
  h_refs :: ref_snapshot_data
  applied_seq :: nat
  h_revision :: nat
  packs_revision :: nat
  packs_dirty :: bool
  pending_pack_removals :: "string list"
  installed_packs :: "string list"
  refs_verified :: bool
  first_entry_time :: "system_time option"
  last_entry_time :: "system_time option"
  first_seq_published_at :: "system_time option"

definition packs_ready :: "repo_handle \<Rightarrow> bool" where
  "packs_ready h \<longleftrightarrow> \<not> packs_dirty h \<and> packs_revision h = h_revision h \<and>
     pending_pack_removals h = []"

datatype sync_level = SRefs | SServe | SFull

fun wants_packs :: "sync_level \<Rightarrow> bool" where
  "wants_packs SRefs = False"
| "wants_packs SServe = True"
| "wants_packs SFull = True"

section \<open>How packs are served\<close>

datatype pack_plan = PlanLocal | PlanLink string | PlanRemote

fun tmpfs_bytes :: "pack_plan \<Rightarrow> pack_ref \<Rightarrow> nat" where
  "tmpfs_bytes PlanLocal p = pack_size p + idx_size p"
| "tmpfs_bytes (PlanLink _) p = idx_size p"
| "tmpfs_bytes PlanRemote p = 0"

text \<open>
  The instance: its cache budget (zero is no limit), whether objects may be read remotely, and the
  store mount, which maps a checksum to the path of a readable pack file.
\<close>

record serve_cfg =
  budget :: nat
  remote_objects :: bool
  mount :: "(string \<Rightarrow> string option) option"

definition plan_pack :: "serve_cfg \<Rightarrow> pack_ref \<Rightarrow> pack_plan" where
  "plan_pack c p =
     (let away = (if remote_objects c then PlanRemote else PlanLocal)
      in if tier p \<noteq> 2 \<or> pkind p = HistoryPack then PlanLocal
         else case mount c of
                Some f \<Rightarrow> (case f (checksum p) of Some path \<Rightarrow> PlanLink path | None \<Rightarrow> away)
              | None \<Rightarrow> away)"

definition serve_plan :: "serve_cfg \<Rightarrow> manifest \<Rightarrow> sync_level \<Rightarrow> (pack_ref \<times> pack_plan) list" where
  "serve_plan c m level =
     (let full = sum_list (map (\<lambda>p. pack_size p + idx_size p) (packs m))
      in if level \<noteq> SServe \<or> budget c = 0 \<or> full \<le> budget c
         then map (\<lambda>p. (p, PlanLocal)) (packs m)
         else map (\<lambda>p. (p, plan_pack c p)) (packs m))"

definition check_fits :: "serve_cfg \<Rightarrow> manifest \<Rightarrow> sync_level \<Rightarrow> (wal_error, unit) result" where
  "check_fits c m level =
     (let bytes = sum_list (map (\<lambda>(p, how). tmpfs_bytes how p) (serve_plan c m level))
      in if budget c > 0 \<and> bytes > budget c then Err (WTooLarge bytes (budget c)) else Ok ())"

section \<open>The freshness check\<close>

datatype sync_outcome = Unchanged | Changed version manifest

definition coord_err :: "(coord_error, 'b) result \<times> 's \<Rightarrow> (wal_error, 'b) result \<times> 's" where
  "coord_err m = (case m of (Inl e, s) \<Rightarrow> (Err (WCoord e), s) | (Inr x, s) \<Rightarrow> (Ok x, s))"

definition store_err :: "(store_error, 'b) result \<times> 's \<Rightarrow> (wal_error, 'b) result \<times> 's" where
  "store_err m = (case m of (Inl e, s) \<Rightarrow> (Err (WStore e), s) | (Inr x, s) \<Rightarrow> (Ok x, s))"

definition freshness_check ::
  "('s, 'a) store_ops \<Rightarrow> 'a codecs \<Rightarrow> version option \<Rightarrow> 's \<Rightarrow> (wal_error, sync_outcome) result \<times> 's" where
  "freshness_check ops cs known s =
     (case known of
        Some v \<Rightarrow>
          sbind (coord_err (get_message_if_changed ops (c_manifest cs) s MANIFEST v)) (\<lambda>r s'.
            (case r of
               None \<Rightarrow> (Ok Unchanged, s')
             | Some (meta, m) \<Rightarrow> (Ok (Changed (meta_version meta) m), s')))
      | None \<Rightarrow>
          sbind (coord_err (get_message ops (c_manifest cs) s MANIFEST)) (\<lambda>r s'.
            (case r of
               None \<Rightarrow> (Err WNotFound, s')
             | Some (meta, m) \<Rightarrow> (Ok (Changed (meta_version meta) m), s'))))"

section \<open>Replaying the log\<close>

definition refs_not_replayable :: "string \<Rightarrow> wal_error" where
  "refs_not_replayable detail = WCorrupt (''refs not replayable: '' @ detail)"

definition checkpoint_seq :: "manifest \<Rightarrow> nat" where
  "checkpoint_seq m = (case checkpoint m of None \<Rightarrow> 0 | Some cp \<Rightarrow> cp_seq cp)"

definition ensure_replayable :: "manifest \<Rightarrow> nat \<Rightarrow> nat \<Rightarrow> (wal_error, unit) result" where
  "ensure_replayable m from_seq to_seq =
     (let requested_start = sat_add from_seq 1
      in if requested_start > to_seq then Ok ()
         else
           (let coverage_start =
                  max (case checkpoint m of None \<Rightarrow> 1 | Some cp \<Rightarrow> sat_add (cp_seq cp) 1)
                      (max (min_seq m) 1)
            in if requested_start < coverage_start
               then Err (refs_not_replayable ''checkpoint folded the requested range'')
               else if list_ex (\<lambda>sg. last_seq sg \<ge> to_seq)
                         (filter (\<lambda>sg. last_seq sg \<ge> requested_start \<and> first_seq sg \<le> to_seq)
                            (log_segments m))
                    then Ok ()
                    else Err (refs_not_replayable ''log segments do not cover the tail'')))"

definition fetch_object ::
  "('s, 'a) store_ops \<Rightarrow> string \<Rightarrow> 's \<Rightarrow> (wal_error, 'a list option) result \<times> 's" where
  "fetch_object ops key s =
     sbind (store_err (os_get ops s key default_get)) (\<lambda>r s'.
       (case r of
          Object meta body \<Rightarrow>
            (case collect body of Inl e \<Rightarrow> (Err (WStore e), s') | Inr b \<Rightarrow> (Ok (Some b), s'))
        | NotModified _ \<Rightarrow> (Ok None, s')))"

fun fetch_objects ::
  "('s, 'a) store_ops \<Rightarrow> string list \<Rightarrow> 's \<Rightarrow> (wal_error, 'a list option list) result \<times> 's" where
  "fetch_objects ops [] s = (Ok [], s)"
| "fetch_objects ops (k # ks) s =
     sbind (fetch_object ops k s) (\<lambda>b s'.
       sbind (fetch_objects ops ks s') (\<lambda>bs s''. (Ok (b # bs), s'')))"

definition decode_segment :: "'a codecs \<Rightarrow> 'a list \<Rightarrow> (wal_error, log_entry list) result" where
  "decode_segment cs bytes =
     (case decode_entries (c_varint cs) (c_entry cs) bytes of
        Some (Inr (es, _)) \<Rightarrow> Ok es
      | _ \<Rightarrow> Err (WCorrupt ''log segment decode''))"

text \<open>Decode all segments in order; a \<open>NotModified\<close> answer is skipped.\<close>

fun decode_segments ::
  "'a codecs \<Rightarrow> 'a list option list \<Rightarrow> (wal_error, log_entry list list) result" where
  "decode_segments cs [] = Ok []"
| "decode_segments cs (None # bs) = decode_segments cs bs"
| "decode_segments cs (Some b # bs) =
     rbind (decode_segment cs b) (\<lambda>es. rbind (decode_segments cs bs) (\<lambda>ess. Ok (es # ess)))"

definition min_time :: "system_time option \<Rightarrow> system_time \<Rightarrow> system_time option" where
  "min_time slot t = (case slot of None \<Rightarrow> Some t | Some p \<Rightarrow> if t < p then Some t else slot)"

definition max_time :: "system_time option \<Rightarrow> system_time \<Rightarrow> system_time option" where
  "max_time slot t = (case slot of None \<Rightarrow> Some t | Some p \<Rightarrow> if t > p then Some t else slot)"

definition entry_time :: "log_entry \<Rightarrow> system_time option" where
  "entry_time e = map_option to_system (created_at e)"

text \<open>Only the oldest live segment witnesses the repository's first state.\<close>

definition note_first :: "manifest \<Rightarrow> system_time option \<Rightarrow> log_entry list \<Rightarrow> system_time option" where
  "note_first m slot es =
     (case es of
        [] \<Rightarrow> slot
      | e # _ \<Rightarrow>
          (if seq e \<le> max (min_seq m) 1
           then (case entry_time e of None \<Rightarrow> slot | Some t \<Rightarrow> min_time slot t)
           else slot))"

definition add_removals :: "string list \<Rightarrow> string list \<Rightarrow> string list" where
  "add_removals pend new =
     foldl (\<lambda>p c. if c \<in> set p then p else p @ [c]) pend new"

text \<open>The transactions and superseded packs of a batch of entries, by kind.\<close>

definition entry_txns :: "log_entry list \<Rightarrow> ref_transaction list" where
  "entry_txns es =
     concat (map (\<lambda>e. if kind e = KPush \<or> kind e = KRefUpdate
                      then (case txn e of Some t \<Rightarrow> [t] | None \<Rightarrow> []) else []) es)"

definition entry_supersedes :: "log_entry list \<Rightarrow> string list" where
  "entry_supersedes es = concat (map (\<lambda>e. if kind e = KCompact then supersedes e else []) es)"

definition apply_entries ::
  "(string \<Rightarrow> string) \<Rightarrow> repo_handle \<Rightarrow> log_entry list \<Rightarrow> (wal_error, repo_handle) result" where
  "apply_entries peel h es =
     (let txns = entry_txns es; sup = entry_supersedes es
      in case (if txns = [] then Ok (h_refs h)
               else apply_ref_txns_offline peel (h_refs h) txns) of
           Inl e \<Rightarrow> Err (WGit e)
         | Inr rs \<Rightarrow>
             Ok (h\<lparr>h_refs := rs,
                   pending_pack_removals := add_removals (pending_pack_removals h) sup\<rparr>))"

definition wanted_entries :: "nat \<Rightarrow> nat \<Rightarrow> log_entry list list \<Rightarrow> log_entry list" where
  "wanted_entries from_seq to_seq ess =
     sort_key seq (concat (map (filter (\<lambda>e. seq e > from_seq \<and> seq e \<le> to_seq)) ess))"

definition overlapping :: "manifest \<Rightarrow> nat \<Rightarrow> nat \<Rightarrow> log_segment_ref list" where
  "overlapping m from_seq to_seq =
     filter (\<lambda>sg. last_seq sg > from_seq \<and> first_seq sg \<le> to_seq) (log_segments m)"

definition replay_log ::
  "('s, 'a) store_ops \<Rightarrow> 'a codecs \<Rightarrow> (string \<Rightarrow> string) \<Rightarrow> repo_handle \<Rightarrow> manifest \<Rightarrow> nat \<Rightarrow> nat \<Rightarrow> 's
     \<Rightarrow> (wal_error, repo_handle) result \<times> 's" where
  "replay_log ops cs peel h m from_seq to_seq s =
     (case ensure_replayable m from_seq to_seq of
        Inl e \<Rightarrow> (Err e, s)
      | Inr _ \<Rightarrow>
          sbind (fetch_objects ops (map seg_key (overlapping m from_seq to_seq)) s) (\<lambda>bs s'.
            (rbind (decode_segments cs bs) (\<lambda>ess.
               (let all = wanted_entries from_seq to_seq ess;
                    h1 = h\<lparr>first_entry_time := foldl (note_first m) (first_entry_time h) ess\<rparr>
                in if from_seq < to_seq \<and> (all = [] \<or> seq (last all) < to_seq)
                   then Err (refs_not_replayable ''decoded log entries do not reach the tail'')
                   else
                     (let h2 = (case (if all = [] then None else entry_time (last all)) of
                                  None \<Rightarrow> h1
                                | Some t \<Rightarrow> h1\<lparr>last_entry_time := max_time (last_entry_time h1) t\<rparr>)
                      in apply_entries peel h2 all))), s')))"

section \<open>Rebuilding and syncing\<close>

text \<open>
  \<open>load_ref_snapshot\<close> on the local copy: the references are replaced, the \<open>HEAD\<close> file is rewritten
  only when the snapshot names a target (\<open>Git_Refs.load_ref_snapshot\<close> and what reading it back
  gives).
\<close>

definition load_local :: "(string \<Rightarrow> string) \<Rightarrow> ref_snapshot_data \<Rightarrow> ref_snapshot_data \<Rightarrow> ref_snapshot_data" where
  "load_local peel snap cur =
     \<lparr>refs = map (fill_peel peel) (sort_key name (refs snap)),
      head_target = (if head_target snap \<noteq> [] then head_target snap else head_target cur)\<rparr>"

definition empty_snapshot :: ref_snapshot_data where
  "empty_snapshot = \<lparr>refs = [], head_target = []\<rparr>"

definition load_checkpoint ::
  "('s, 'a) store_ops \<Rightarrow> 'a codecs \<Rightarrow> (string \<Rightarrow> string) \<Rightarrow> repo_handle \<Rightarrow> nat \<Rightarrow> 's
     \<Rightarrow> (wal_error, repo_handle) result \<times> 's" where
  "load_checkpoint ops cs peel h cp s =
     sbind (coord_err (get_message ops (c_snapshot cs) s (checkpoint_refs_key cp))) (\<lambda>r s'.
       (case r of
          None \<Rightarrow> (Err (refs_not_replayable ''checkpoint refs object is missing''), s')
        | Some (_, snap) \<Rightarrow>
            (Ok (h\<lparr>h_refs := load_local peel (snapshot_from_proto snap) (h_refs h),
                   applied_seq := cp\<rparr>), s')))"

definition apply_delta_with_rebuild ::
  "('s, 'a) store_ops \<Rightarrow> 'a codecs \<Rightarrow> (string \<Rightarrow> string) \<Rightarrow> repo_handle \<Rightarrow> manifest \<Rightarrow> version \<Rightarrow> bool \<Rightarrow> 's
     \<Rightarrow> (wal_error, repo_handle) result \<times> 's" where
  "apply_delta_with_rebuild ops cs peel h0 m v force s =
     (let head = head_seq m;
          rebuilt = force \<or> applied_seq h0 > head \<or> revision m < h_revision h0;
          h = h0\<lparr>refs_verified := False\<rparr>;
          finish = (\<lambda>h s. (Ok (h\<lparr>applied_seq := head, h_revision := revision m\<rparr>), s))
      in if head = 0
         then finish (h\<lparr>h_refs := load_local peel empty_snapshot (h_refs h), applied_seq := 0,
                        packs_dirty := installed_packs h \<noteq> [],
                        packs_revision := (if packs m = [] \<and> installed_packs h = [] then revision m
                                           else packs_revision h)\<rparr>) s
         else
           (let cp = checkpoint_seq m
            in if cp > head
               then (Err (refs_not_replayable ''checkpoint is ahead of head''), s)
               else
                 (let need_load = cp > 0 \<and> (rebuilt \<or> applied_seq h < cp);
                      replay_from = (if need_load then cp else if rebuilt then 0 else applied_seq h)
                  in case ensure_replayable m replay_from head of
                       Inl e \<Rightarrow> (Err e, s)
                     | Inr _ \<Rightarrow>
                         sbind (if need_load then load_checkpoint ops cs peel h cp s
                                else if rebuilt
                                then (Ok (h\<lparr>h_refs := load_local peel empty_snapshot (h_refs h),
                                            applied_seq := 0\<rparr>), s)
                                else (Ok h, s)) (\<lambda>h1 s1.
                           sbind (if applied_seq h1 < head
                                  then replay_log ops cs peel h1 m (applied_seq h1) head s1
                                  else (Ok h1, s1)) (\<lambda>h2 s2. finish h2 s2)))))"

definition apply_delta ::
  "('s, 'a) store_ops \<Rightarrow> 'a codecs \<Rightarrow> (string \<Rightarrow> string) \<Rightarrow> repo_handle \<Rightarrow> manifest \<Rightarrow> version \<Rightarrow> 's
     \<Rightarrow> (wal_error, repo_handle) result \<times> 's" where
  "apply_delta ops cs peel h m v s =
     sbind (apply_delta_with_rebuild ops cs peel h m v True s) (\<lambda>h' s'.
       (Ok (h'\<lparr>refs_verified := True\<rparr>), s'))"

text \<open>The reference part of \<open>materialize_from_scratch\<close>; the packs follow it.\<close>

definition materialize_refs ::
  "('s, 'a) store_ops \<Rightarrow> 'a codecs \<Rightarrow> (string \<Rightarrow> string) \<Rightarrow> repo_handle \<Rightarrow> manifest \<Rightarrow> version \<Rightarrow> 's
     \<Rightarrow> (wal_error, repo_handle) result \<times> 's" where
  "materialize_refs ops cs peel h m v s =
     (let h1 = h\<lparr>applied_seq := 0\<rparr>;
          h2 = (if checkpoint m = None then h1\<lparr>h_refs := load_local peel empty_snapshot (h_refs h1)\<rparr> else h1)
      in apply_delta ops cs peel h2 m v s)"

text \<open>
  The locked sync of \<open>RepoHandle\<close>: freshness check, then one of the branches on revision order.
\<close>

definition sync_locked_inner ::
  "('s, 'a) store_ops \<Rightarrow> 'a codecs \<Rightarrow> (string \<Rightarrow> string) \<Rightarrow> bool \<Rightarrow> repo_handle \<Rightarrow> 's
     \<Rightarrow> (wal_error, repo_handle) result \<times> 's" where
  "sync_locked_inner ops cs peel force0 h s =
     sbind (freshness_check ops cs (h_version h) s) (\<lambda>out s1.
       (let force = force0 \<or> \<not> refs_verified h;
            verified = (\<lambda>h' s'. (Ok (h'\<lparr>refs_verified := True\<rparr>), s'))
        in case out of
             Unchanged \<Rightarrow>
               (if force
                then (case h_version h of
                        None \<Rightarrow> (Err (WCorrupt ''manifest version missing while rebuilding refs''), s1)
                      | Some v \<Rightarrow>
                          sbind (apply_delta_with_rebuild ops cs peel h (h_manifest h) v True s1)
                            verified)
                else (Ok h, s1))
           | Changed v m \<Rightarrow>
               (if revision m < revision (h_manifest h)
                then (if force
                      then (case h_version h of
                              None \<Rightarrow>
                                (Err (WCorrupt ''manifest version missing while rebuilding refs''), s1)
                            | Some v' \<Rightarrow>
                                sbind (apply_delta_with_rebuild ops cs peel h (h_manifest h) v' True s1)
                                  verified)
                      else (Ok h, s1))
                else if h_version h \<noteq> None \<and> revision m = revision (h_manifest h)
                then sbind (if force
                            then sbind (apply_delta_with_rebuild ops cs peel h m v True s1) verified
                            else (Ok h, s1)) (\<lambda>h' s'.
                       (Ok (h'\<lparr>h_manifest := m, h_version := Some v\<rparr>), s'))
                else sbind (apply_delta_with_rebuild ops cs peel h m v force s1) (\<lambda>h' s'.
                       (Ok (h'\<lparr>h_manifest := m, h_version := Some v, refs_verified := True\<rparr>), s')))))"

section \<open>Reading the log\<close>

text \<open>The segments one after the other, the first failure ends the read.\<close>

definition read_log ::
  "('s, 'a) store_ops \<Rightarrow> 'a codecs \<Rightarrow> repo_handle \<Rightarrow> nat \<Rightarrow> nat option \<Rightarrow> 's
     \<Rightarrow> (wal_error, log_entry list) result \<times> 's" where
  "read_log ops cs h from_seq to_seq s =
     sbind (freshness_check ops cs (h_version h) s) (\<lambda>out s1.
       (let m = (case out of Unchanged \<Rightarrow> h_manifest h | Changed _ m \<Rightarrow> m);
            to = min (case to_seq of None \<Rightarrow> head_seq m | Some t \<Rightarrow> t) (head_seq m)
        in if from_seq > to then (Ok [], s1)
           else
             (let segs = filter (\<lambda>sg. last_seq sg \<ge> from_seq \<and> first_seq sg \<le> to) (log_segments m)
              in sbind (fetch_objects ops (map seg_key segs) s1) (\<lambda>bs s2.
                   (rbind (decode_segments cs bs) (\<lambda>ess.
                      Ok (sort_key seq
                            (concat (map (filter (\<lambda>e. seq e \<ge> from_seq \<and> seq e \<le> to)) ess)))), s2)))))"

datatype cut = CutTime system_time | CutSeq nat

definition beyond_cut :: "cut \<Rightarrow> log_entry \<Rightarrow> bool" where
  "beyond_cut ct e =
     (case ct of
        CutTime at' \<Rightarrow> (case entry_time e of None \<Rightarrow> False | Some t \<Rightarrow> t > at')
      | CutSeq n \<Rightarrow> seq e > n)"

text \<open>One update of \<open>replay_refs\<close> on its map and \<open>HEAD\<close> target.\<close>

definition replay_update ::
  "(string, ref_msg) btree \<times> string \<Rightarrow> ref_update \<Rightarrow> (string, ref_msg) btree \<times> string" where
  "replay_update st u =
     (let (m, ht) = st
      in if new_symbolic_target u \<noteq> []
         then if upd_name u = ''HEAD'' then (m, new_symbolic_target u) else (m, ht)
         else if zero_oid (new_oid u) then (bt_remove (upd_name u) m, ht)
         else (bt_insert (upd_name u)
                 \<lparr>ref_name = upd_name u, ref_oid = new_oid u, ref_peeled = new_peeled u\<rparr> m, ht))"

definition replay_entry ::
  "(string, ref_msg) btree \<times> string \<Rightarrow> log_entry \<Rightarrow> (string, ref_msg) btree \<times> string" where
  "replay_entry st e =
     (case txn e of None \<Rightarrow> st | Some t \<Rightarrow> foldl replay_update st (updates t))"

definition replay_entries ::
  "cut \<Rightarrow> ref_snapshot \<Rightarrow> nat \<Rightarrow> string \<Rightarrow> log_entry list \<Rightarrow> ref_snapshot \<times> nat" where
  "replay_entries ct snap from_seq fmt es =
     (let taken = takeWhile (\<lambda>e. \<not> beyond_cut ct e) es;
          st0 = (bt_of (map (\<lambda>r. (ref_name r, r)) (snap_refs snap)), snap_head_target snap);
          (m, ht) = foldl replay_entry st0 taken;
          last_s = (if taken = [] then from_seq else seq (last taken))
      in (\<lparr>snap_seq = last_s, snap_object_format = fmt, snap_refs = map snd m,
           snap_head_target = ht, snap_created_at = None\<rparr>, last_s))"

definition default_snapshot_msg :: ref_snapshot where
  "default_snapshot_msg = \<lparr>snap_seq = 0, snap_object_format = [], snap_refs = [],
     snap_head_target = [], snap_created_at = None\<rparr>"

definition decode_or_corrupt :: "('a, 'm) msg_codec \<Rightarrow> 'a list \<Rightarrow> (wal_error, 'm) result" where
  "decode_or_corrupt c b = (case decode c b of None \<Rightarrow> Err (WCorrupt ''decode'') | Some m \<Rightarrow> Ok m)"

text \<open>
  The start point: the snapshot of a usable checkpoint whose two objects are there, else the
  empty snapshot at sequence zero.
\<close>

definition replay_start ::
  "('s, 'a) store_ops \<Rightarrow> 'a codecs \<Rightarrow> checkpoint_ref \<Rightarrow> 's \<Rightarrow> (wal_error, ref_snapshot \<times> nat) result \<times> 's" where
  "replay_start ops cs cp s =
     sbind (store_err (get_bytes ops s (cp_key cp))) (\<lambda>r s1.
       (case r of
          None \<Rightarrow> (Ok (default_snapshot_msg, 0), s1)
        | Some (_, bytes) \<Rightarrow>
            (case decode_or_corrupt (c_checkpoint cs) bytes of
               Inl e \<Rightarrow> (Err e, s1)
             | Inr cpo \<Rightarrow>
                 sbind (store_err (get_bytes ops s1 (refs_key cpo))) (\<lambda>r2 s2.
                   (case r2 of
                      None \<Rightarrow> (Ok (default_snapshot_msg, 0), s2)
                    | Some (_, rb) \<Rightarrow>
                        (rbind (decode_or_corrupt (c_snapshot cs) rb) (\<lambda>sn. Ok (sn, cp_seq cp)), s2))))))"

definition checkpoint_usable :: "cut \<Rightarrow> checkpoint_ref \<Rightarrow> bool" where
  "checkpoint_usable ct cp =
     (case ct of
        CutSeq n \<Rightarrow> cp_seq cp \<le> n
      | CutTime at' \<Rightarrow>
          (case (case as_of cp of None \<Rightarrow> cp_created_at cp | Some t \<Rightarrow> Some t) of
             None \<Rightarrow> False | Some t \<Rightarrow> to_system t \<le> at'))"

definition replay_refs ::
  "('s, 'a) store_ops \<Rightarrow> 'a codecs \<Rightarrow> repo_handle \<Rightarrow> cut \<Rightarrow> 's
     \<Rightarrow> (wal_error, ref_snapshot \<times> nat) result \<times> 's" where
  "replay_refs ops cs h ct s =
     (let m = h_manifest h
      in sbind (case checkpoint m of
                  None \<Rightarrow> (Ok (default_snapshot_msg, 0), s)
                | Some cp \<Rightarrow>
                    (if checkpoint_usable ct cp then replay_start ops cs cp s
                     else (Ok (default_snapshot_msg, 0), s))) (\<lambda>(snap, from_seq) s1.
           sbind (read_log ops cs h (from_seq + 1)
                    (case ct of CutSeq n \<Rightarrow> Some n | CutTime _ \<Rightarrow> None) s1) (\<lambda>es s2.
             (Ok (replay_entries ct snap from_seq (object_format m) es), s2))))"

definition refs_as_of ::
  "('s, 'a) store_ops \<Rightarrow> 'a codecs \<Rightarrow> repo_handle \<Rightarrow> system_time \<Rightarrow> 's
     \<Rightarrow> (wal_error, ref_snapshot \<times> nat) result \<times> 's" where
  "refs_as_of ops cs h at' s = replay_refs ops cs h (CutTime at') s"

definition refs_at_seq ::
  "('s, 'a) store_ops \<Rightarrow> 'a codecs \<Rightarrow> repo_handle \<Rightarrow> nat \<Rightarrow> 's
     \<Rightarrow> (wal_error, ref_snapshot) result \<times> 's" where
  "refs_at_seq ops cs h n s =
     (let m = h_manifest h;
          cp_ok = (case checkpoint m of None \<Rightarrow> False | Some cp \<Rightarrow> cp_seq cp \<le> n)
      in if \<not> cp_ok \<and> min_seq m > 1 \<and> min_seq m > n
         then (Err (WCorrupt ''refs at seq are not replayable''), s)
         else sbind (replay_refs ops cs h (CutSeq n) s) (\<lambda>r s'. (Ok (fst r), s')))"

section \<open>Replay on a quiet bucket\<close>

text \<open>The body and the entries of an object, when it is there and decodes.\<close>

definition object_body :: "'a mem_store \<Rightarrow> string \<Rightarrow> 'a list option" where
  "object_body b k = map_option snd (mem_view b k)"

definition segment_entries :: "'a codecs \<Rightarrow> 'a mem_store \<Rightarrow> log_segment_ref \<Rightarrow> log_entry list option" where
  "segment_entries cs b sg =
     (case object_body b (seg_key sg) of
        None \<Rightarrow> None
      | Some d \<Rightarrow> (case decode_segment cs d of Inr es \<Rightarrow> Some es | Inl _ \<Rightarrow> None))"

lemma fetch_object_mem:
  "fetch_object mem_ops k b =
     (case object_body b k of None \<Rightarrow> Err (WStore (NotFound k)) | Some d \<Rightarrow> Ok (Some d), b)"
  by (auto simp: fetch_object_def store_err_def mem_get_def object_body_def mem_view_def
      default_get_def slice_range_def split: option.splits)

lemma fetch_objects_mem:
  assumes "fetch_objects mem_ops ks b = (Ok bs, b')"
  shows "b' = b \<and> bs = map (object_body b) ks \<and> None \<notin> set bs"
  using assms
proof (induction ks arbitrary: bs)
  case (Cons k ks)
  then show ?case
    by (auto simp: fetch_object_mem sbind_eq_Inr_iff split: option.splits)
qed simp

lemma decode_segments_Some:
  assumes "None \<notin> set bs" "decode_segments cs bs = Ok ess"
  shows "map Ok ess = map (\<lambda>b. decode_segment cs (the b)) bs"
  using assms
proof (induction bs arbitrary: ess)
  case (Cons x bs)
  then obtain d where d: "x = Some d" by (cases x) auto
  then show ?case using Cons by auto
qed simp

text \<open>What \<open>replay_log\<close> computes: the listed segments' entries in the range, folded in order.\<close>

definition entries_between :: "'a codecs \<Rightarrow> 'a mem_store \<Rightarrow> manifest \<Rightarrow> nat \<Rightarrow> nat \<Rightarrow> log_entry list" where
  "entries_between cs b m from_seq to_seq =
     wanted_entries from_seq to_seq
       (map (\<lambda>sg. the (segment_entries cs b sg)) (overlapping m from_seq to_seq))"

lemma entries_between_empty:
  assumes "a' \<le> a"
  shows "entries_between cs b m a a' = []"
proof -
  have "filter (\<lambda>e. a < seq e \<and> seq e \<le> a') es = []" for es :: "log_entry list"
    using assms by (induction es) auto
  then have "concat (map (filter (\<lambda>e. a < seq e \<and> seq e \<le> a')) ess) = []"
    for ess :: "log_entry list list" by simp
  then show ?thesis by (simp only: entries_between_def wanted_entries_def) simp
qed

lemma segments_fetched:
  assumes "fetch_objects mem_ops (map seg_key sgs) b = (Ok bs, b')" "decode_segments cs bs = Ok ess"
  shows "b' = b \<and> ess = map (\<lambda>sg. the (segment_entries cs b sg)) sgs \<and>
    (\<forall>sg \<in> set sgs. segment_entries cs b sg \<noteq> None)"
proof -
  note F = fetch_objects_mem [OF assms(1)]
  have bs: "bs = map (\<lambda>sg. object_body b (seg_key sg)) sgs" using F by (simp add: comp_def)
  have n: "None \<notin> set bs" using F by blast
  have m: "map Ok ess = map (\<lambda>sg. decode_segment cs (the (object_body b (seg_key sg)))) sgs"
    using decode_segments_Some [OF n assms(2)] bs by (simp add: comp_def)
  have len: "length ess = length sgs" using m by (metis length_map)
  have nth: "segment_entries cs b (sgs ! i) = Some (ess ! i)" if "i < length sgs" for i
  proof -
    have "object_body b (seg_key (sgs ! i)) \<noteq> None"
      using n bs that by (metis in_set_conv_nth length_map nth_map)
    moreover have "decode_segment cs (the (object_body b (seg_key (sgs ! i)))) = Ok (ess ! i)"
      using m that len by (metis (no_types, lifting) nth_map)
    ultimately show ?thesis by (auto simp: segment_entries_def)
  qed
  have "ess = map (\<lambda>sg. the (segment_entries cs b sg)) sgs"
    by (rule nth_equalityI) (use len nth in auto)
  moreover have "\<forall>sg \<in> set sgs. segment_entries cs b sg \<noteq> None"
    using nth by (metis in_set_conv_nth option.distinct(1))
  ultimately show ?thesis using F by simp
qed

lemma apply_entries_patch:
  assumes "snapshot_ok (h_refs h)" "apply_entries peel h es = Ok h'"
  shows "h_refs h' = patch_snapshot peel (h_refs h) (entry_txns es)"
    and "applied_seq h' = applied_seq h"
proof -
  let ?d = "h_refs h"
  have m: "bt_of (map (\<lambda>r. (name r, r)) (refs ?d)) = refs_map (refs ?d)"
    unfolding refs_map_def [symmetric]
    by (rule bt_of_sorted) (use assms(1) in \<open>simp add: refs_map_ok snapshot_ok_def\<close>)
  have off: "apply_ref_txns_offline peel ?d ts = Ok rs \<Longrightarrow> rs = patch_snapshot peel ?d ts" for ts rs
    using offline_updates_patch [OF assms(1)]
    by (fastforce simp: apply_ref_txns_offline_def m patch_snapshot_def)
  show "h_refs h' = patch_snapshot peel (h_refs h) (entry_txns es)"
    using assms(2) off
    by (auto simp: apply_entries_def Let_def patch_snapshot_def split: if_splits sum.splits)
  show "applied_seq h' = applied_seq h"
    using assms(2) by (auto simp: apply_entries_def Let_def split: if_splits sum.splits)
qed

lemma replay_log_mem:
  assumes "snapshot_ok (h_refs h)" "replay_log mem_ops cs peel h m from_seq to_seq b = (Ok h', b')"
  shows "b' = b \<and>
    h_refs h' = patch_snapshot peel (h_refs h) (entry_txns (entries_between cs b m from_seq to_seq)) \<and>
    applied_seq h' = applied_seq h \<and>
    (from_seq < to_seq \<longrightarrow> entries_between cs b m from_seq to_seq \<noteq> [] \<and>
       to_seq \<le> seq (last (entries_between cs b m from_seq to_seq))) \<and>
    (\<forall>sg \<in> set (overlapping m from_seq to_seq). segment_entries cs b sg \<noteq> None)"
proof -
  from assms(2) obtain bs where bs:
      "fetch_objects mem_ops (map seg_key (overlapping m from_seq to_seq)) b = (Ok bs, b')"
    by (auto simp: replay_log_def sbind_def split: sum.splits prod.splits)
  from assms(2) bs obtain ess where ess: "decode_segments cs bs = Ok ess"
    by (auto simp: replay_log_def split: sum.splits)
  note S = segments_fetched [OF bs ess]
  let ?all = "wanted_entries from_seq to_seq ess"
  have all: "?all = entries_between cs b m from_seq to_seq" using S by (simp add: entries_between_def)
  obtain h2 where h2: "apply_entries peel h2 ?all = Ok h'" "h_refs h2 = h_refs h"
      "applied_seq h2 = applied_seq h"
      "\<not> (from_seq < to_seq \<and> (?all = [] \<or> seq (last ?all) < to_seq))"
    using assms(2) bs ess
    by (auto simp: replay_log_def Let_def split: sum.splits if_splits option.splits)
  show ?thesis
    using S apply_entries_patch [OF assms(1) [folded h2(2)] h2(1)] h2
    by (auto simp: entries_between_def not_less)
qed

text \<open>
  A manifest whose listed segments are there, decode, and hold entries of their own range: what
  the publishers maintain (see \<open>Wal_Protocol\<close>).
\<close>

definition seg_wf :: "'a codecs \<Rightarrow> 'a mem_store \<Rightarrow> manifest \<Rightarrow> bool" where
  "seg_wf cs b m \<longleftrightarrow>
     list_all (\<lambda>sg. case segment_entries cs b sg of
         None \<Rightarrow> False
       | Some es \<Rightarrow> list_all (\<lambda>e. first_seq sg \<le> seq e \<and> seq e \<le> last_seq sg) es)
       (log_segments m)"

definition all_entries :: "'a codecs \<Rightarrow> 'a mem_store \<Rightarrow> manifest \<Rightarrow> log_entry list" where
  "all_entries cs b m = concat (map (\<lambda>sg. the (segment_entries cs b sg)) (log_segments m))"

lemma sort_key_split:
  "sort_key f xs = sort_key f (filter (\<lambda>x. f x \<le> a) xs) @ sort_key f (filter (\<lambda>x. \<not> f x \<le> a) xs)"
proof (rule properties_for_sort_key)
  show "mset (sort_key f (filter (\<lambda>x. f x \<le> a) xs) @ sort_key f (filter (\<lambda>x. \<not> f x \<le> a) xs)) = mset xs"
    by (induction xs) auto
  show "filter (\<lambda>x. f k = f x)
      (sort_key f (filter (\<lambda>x. f x \<le> a) xs) @ sort_key f (filter (\<lambda>x. \<not> f x \<le> a) xs)) =
      filter (\<lambda>x. f k = f x) xs" for k
  proof -
    have e: "(\<lambda>x. f k = f x) = (\<lambda>x. f x = f k)" by auto
    have c: "(\<lambda>x. f x \<le> a \<and> f x = f k) = (\<lambda>x. f k \<le> a \<and> f x = f k)"
      "(\<lambda>x. \<not> f x \<le> a \<and> f x = f k) = (\<lambda>x. \<not> f k \<le> a \<and> f x = f k)"
      by auto
    show ?thesis
      unfolding e filter_append sort_key_stable filter_filter
      by (cases "f k \<le> a") (auto simp: c)
  qed
  show "sorted (map f (sort_key f (filter (\<lambda>x. f x \<le> a) xs) @ sort_key f (filter (\<lambda>x. \<not> f x \<le> a) xs)))"
    by (auto simp: sorted_append)
qed

lemma entries_between_all:
  assumes "seg_wf cs b m"
  shows "entries_between cs b m from_seq to_seq =
    sort_key seq (filter (\<lambda>e. from_seq < seq e \<and> seq e \<le> to_seq) (all_entries cs b m))"
proof -
  let ?P = "\<lambda>e. from_seq < seq e \<and> seq e \<le> to_seq"
  let ?e = "\<lambda>sg. the (segment_entries cs b sg)"
  have out: "filter ?P (?e sg) = []"
    if "sg \<in> set (log_segments m)" "\<not> (last_seq sg > from_seq \<and> first_seq sg \<le> to_seq)" for sg
  proof -
    have "\<forall>e \<in> set (?e sg). first_seq sg \<le> seq e \<and> seq e \<le> last_seq sg"
      using assms that(1) by (auto simp: seg_wf_def list_all_iff split: option.splits)
    then show ?thesis using that(2) by (auto simp: filter_empty_conv)
  qed
  have "concat (map (filter ?P) (map ?e (filter (\<lambda>sg. last_seq sg > from_seq \<and> first_seq sg \<le> to_seq) sgs)))
      = filter ?P (concat (map ?e sgs))" if "set sgs \<subseteq> set (log_segments m)" for sgs
    using that by (induction sgs) (auto simp: out)
  then show ?thesis
    by (simp add: entries_between_def wanted_entries_def overlapping_def all_entries_def)
qed

lemma entries_between_append:
  assumes "seg_wf cs b m" "from_seq \<le> a" "a \<le> to_seq"
  shows "entries_between cs b m from_seq to_seq =
    entries_between cs b m from_seq a @ entries_between cs b m a to_seq"
proof -
  have f: "filter (\<lambda>e. seq e \<le> a) (filter (\<lambda>e. from_seq < seq e \<and> seq e \<le> to_seq) es) =
      filter (\<lambda>e. from_seq < seq e \<and> seq e \<le> a) es"
    "filter (\<lambda>e. \<not> seq e \<le> a) (filter (\<lambda>e. from_seq < seq e \<and> seq e \<le> to_seq) es) =
      filter (\<lambda>e. a < seq e \<and> seq e \<le> to_seq) es" for es
    using assms(2,3) by (auto simp: filter_filter intro!: filter_cong)
  show ?thesis
    unfolding entries_between_all [OF assms(1)]
    by (subst sort_key_split [of seq _ a]) (simp only: f)
qed

lemma entry_txns_append: "entry_txns (xs @ ys) = entry_txns xs @ entry_txns ys"
  by (simp add: entry_txns_def)

lemma patch_snapshot_append:
  "patch_snapshot peel d (xs @ ys) = patch_snapshot peel (patch_snapshot peel d xs) ys"
  by (simp add: patch_snapshot_def)

lemma patch_snapshot_ok: "snapshot_ok d \<Longrightarrow> snapshot_ok (patch_snapshot peel d ts)"
  by (simp add: patch_snapshot_def patch_updates_ok)

lemma name_fill_peel [simp]: "name (fill_peel peel r) = name r"
  by (simp add: fill_peel_def)

lemma load_local_ok:
  assumes "distinct (map name (refs snap))"
  shows "snapshot_ok (load_local peel snap cur)"
proof -
  have "map name (map (fill_peel peel) rs) = map name rs" for rs by (simp add: comp_def)
  moreover have "distinct (map name (sort_key name (refs snap)))"
    using assms by (metis distinct_map distinct_sort set_sort)
  ultimately show ?thesis
    by (simp add: snapshot_ok_def load_local_def strict_sorted_iff del: map_map)
qed

section \<open>What a rebuild computes\<close>

text \<open>The snapshot a rebuild starts from: the checkpoint's, or nothing.\<close>

definition base_snapshot :: "'a codecs \<Rightarrow> 'a mem_store \<Rightarrow> manifest \<Rightarrow> ref_snapshot_data option" where
  "base_snapshot cs b m =
     (if checkpoint_seq m = 0 then Some empty_snapshot
      else case object_body b (checkpoint_refs_key (checkpoint_seq m)) of
             None \<Rightarrow> None
           | Some d \<Rightarrow> map_option snapshot_from_proto (decode (c_snapshot cs) d))"

text \<open>The references at sequence \<open>a\<close>: the log folded over the base, on a copy that had \<open>cur\<close>.\<close>

definition fold_to ::
  "'a codecs \<Rightarrow> (string \<Rightarrow> string) \<Rightarrow> 'a mem_store \<Rightarrow> manifest \<Rightarrow> ref_snapshot_data \<Rightarrow> nat
     \<Rightarrow> ref_snapshot_data" where
  "fold_to cs peel b m cur a =
     patch_snapshot peel (load_local peel (the (base_snapshot cs b m)) cur)
       (entry_txns (entries_between cs b m (checkpoint_seq m) a))"

definition base_ok :: "'a codecs \<Rightarrow> 'a mem_store \<Rightarrow> manifest \<Rightarrow> bool" where
  "base_ok cs b m \<longleftrightarrow>
     (case base_snapshot cs b m of None \<Rightarrow> False | Some d \<Rightarrow> distinct (map name (refs d)))"

lemma get_bytes_mem:
  "get_bytes mem_ops b k =
     (Ok (map_option (\<lambda>(v, d). (\<lparr>meta_key = k, meta_size = length d, meta_version = v\<rparr>, d))
        (mem_view b k)), b)"
  by (auto simp: get_bytes_def mem_get_def mem_view_def default_get_def slice_range_def
      split: option.splits)

lemma load_checkpoint_mem:
  assumes "load_checkpoint mem_ops cs peel h cp b = (Ok h', b')" "cp = checkpoint_seq m" "cp \<noteq> 0"
  shows "b' = b \<and> (\<exists>d. base_snapshot cs b m = Some d \<and>
    h' = h\<lparr>h_refs := load_local peel d (h_refs h), applied_seq := cp\<rparr>)"
proof -
  note A = assms(1) [unfolded load_checkpoint_def coord_err_def get_message_def get_bytes_mem]
  show ?thesis
  proof (cases "mem_view b (checkpoint_refs_key cp)")
    case None
    then show ?thesis using A by (simp add: decode_object_def)
  next
    case (Some x)
    then show ?thesis using A assms(2,3)
      by (cases x; cases "decode (c_snapshot cs) (snd x)")
        (auto simp: decode_object_def base_snapshot_def object_body_def)
  qed
qed

text \<open>
  The part of \<open>apply_delta_with_rebuild\<close> after the choice of the start point, in one statement:
  what every successful run leaves behind.
\<close>

lemma apply_delta_with_rebuild_mem:
  assumes run: "apply_delta_with_rebuild mem_ops cs peel h m v force b = (Ok h', b')"
    and ok: "base_ok cs b m" "snapshot_ok (h_refs h)" and head: "head_seq m \<noteq> 0"
  defines "start \<equiv> if force \<or> applied_seq h > head_seq m \<or> revision m < h_revision h \<or>
      applied_seq h < checkpoint_seq m then (load_local peel (the (base_snapshot cs b m)) (h_refs h), checkpoint_seq m)
    else (h_refs h, applied_seq h)"
  shows "b' = b \<and> applied_seq h' = head_seq m \<and> h_revision h' = revision m \<and>
    checkpoint_seq m \<le> head_seq m \<and>
    h_refs h' = patch_snapshot peel (fst start)
      (entry_txns (entries_between cs b m (snd start) (head_seq m)))"
proof -
  let ?cp = "checkpoint_seq m" and ?head = "head_seq m"
  let ?rebuilt = "force \<or> applied_seq h > ?head \<or> revision m < h_revision h"
  let ?need = "?cp > 0 \<and> (?rebuilt \<or> applied_seq h < ?cp)"
  let ?h0 = "h\<lparr>refs_verified := False\<rparr>"
  let ?load = "if ?need then load_checkpoint mem_ops cs peel ?h0 ?cp b
      else if ?rebuilt then (Ok (?h0\<lparr>h_refs := load_local peel empty_snapshot (h_refs ?h0), applied_seq := 0\<rparr>), b)
      else (Ok ?h0, b)"
  have cp: "?cp \<le> ?head"
    using run head by (auto simp: apply_delta_with_rebuild_def Let_def split: if_splits)
  let ?finish = "\<lambda>h2 s2. (Ok (h2\<lparr>applied_seq := ?head, h_revision := revision m\<rparr>), s2)"
  let ?rest = "\<lambda>h1 b1. sbind (if applied_seq h1 < ?head
      then replay_log mem_ops cs peel h1 m (applied_seq h1) ?head b1 else (Ok h1, b1)) ?finish"
  have run': "sbind ?load ?rest = (Ok h', b')"
    using run head cp
    by (simp add: apply_delta_with_rebuild_def Let_def split: sum.splits split del: if_split)
  then obtain h1 b1 where load: "?load = (Ok h1, b1)" and rest: "?rest h1 b1 = (Ok h', b')"
    unfolding sbind_def by (auto split: prod.splits sum.splits)
  have b1: "b1 = b" and h1: "h_refs h1 = fst start" "applied_seq h1 = snd start"
    using load load_checkpoint_mem [of cs peel ?h0 ?cp b h1 b1 m]
    by (auto simp: start_def base_snapshot_def split: if_splits)
  have ok1: "snapshot_ok (fst start)"
    using ok load load_checkpoint_mem [of cs peel ?h0 ?cp b h1 b1 m]
    by (auto simp: start_def base_ok_def empty_snapshot_def base_snapshot_def intro!: load_local_ok
        split: if_splits option.splits)
  show ?thesis
  proof (cases "snd start < ?head")
    case True
    then obtain h2 where r: "replay_log mem_ops cs peel h1 m (snd start) ?head b = (Ok h2, b')"
        "h' = h2\<lparr>applied_seq := ?head, h_revision := revision m\<rparr>"
      using rest b1 h1 by (auto simp: sbind_eq_Inr_iff)
    then show ?thesis using replay_log_mem [OF _ r(1)] ok1 h1 cp by auto
  next
    case False
    then show ?thesis using rest b1 h1 cp
      by (auto simp: patch_snapshot_def entry_txns_def entries_between_empty)
  qed
qed

text \<open>What a sync keeps of the handle besides references and sequence numbers.\<close>

lemma apply_entries_frame:
  "apply_entries peel h es = Ok h' \<Longrightarrow> h_manifest h' = h_manifest h \<and> h_version h' = h_version h"
  by (auto simp: apply_entries_def Let_def split: sum.splits)

lemma replay_log_frame:
  assumes "replay_log ops cs peel h m a n s = (Ok h', s')"
  shows "h_manifest h' = h_manifest h \<and> h_version h' = h_version h"
proof -
  obtain h2 es where "apply_entries peel h2 es = Ok h'" "h_manifest h2 = h_manifest h"
      "h_version h2 = h_version h"
    using assms
    by (auto simp: replay_log_def Let_def sbind_eq_Inr_iff split: sum.splits if_splits option.splits)
  then show ?thesis using apply_entries_frame by metis
qed

lemma load_checkpoint_frame:
  "load_checkpoint ops cs peel h cp s = (Ok h', s') \<Longrightarrow>
     h_manifest h' = h_manifest h \<and> h_version h' = h_version h"
  by (auto simp: load_checkpoint_def sbind_eq_Inr_iff split: option.splits)

lemma apply_delta_with_rebuild_frame:
  assumes "apply_delta_with_rebuild ops cs peel h m v force s = (Ok h', s')"
  shows "h_manifest h' = h_manifest h \<and> h_version h' = h_version h \<and> applied_seq h' = head_seq m \<and>
    h_revision h' = revision m"
  using assms
  by (auto simp: apply_delta_with_rebuild_def Let_def sbind_eq_Inr_iff
      dest!: replay_log_frame load_checkpoint_frame split: if_splits sum.splits)

section \<open>Folding twice\<close>

definition head_after :: "ref_update list \<Rightarrow> string \<Rightarrow> string" where
  "head_after us t =
     foldl (\<lambda>t u. if new_symbolic_target u \<noteq> [] \<and> upd_name u = ''HEAD'' then new_symbolic_target u else t)
       t us"

lemma head_after_simps [simp]:
  "head_after [] t = t"
  "head_after (u # us) t =
     head_after us (if new_symbolic_target u \<noteq> [] \<and> upd_name u = ''HEAD'' then new_symbolic_target u else t)"
  by (simp_all add: head_after_def)

text \<open>Updates either fix the target or keep it.\<close>

lemma head_after_const_or_id: "(\<forall>t. head_after us t = t) \<or> (\<exists>c. \<forall>t. head_after us t = c)"
  by (induction us) auto

lemma head_after_idem: "head_after us (head_after us t) = head_after us t"
  using head_after_const_or_id [of us] by metis

lemma patch_update_retarget:
  "patch_update peel (d\<lparr>head_target := t\<rparr>) u =
     (patch_update peel d u)\<lparr>head_target := head_after [u] t\<rparr>"
  by (simp add: patch_update_def Let_def split: sum.splits bool.splits)

lemma patch_updates_retarget:
  "foldl (patch_update peel) (d\<lparr>head_target := t\<rparr>) us =
     (foldl (patch_update peel) d us)\<lparr>head_target := head_after us t\<rparr>"
proof (induction us arbitrary: d t)
  case (Cons u us)
  then show ?case by (simp add: patch_update_retarget)
qed simp

lemma patch_head_after:
  "head_target (patch_snapshot peel d ts) = head_after (concat (map updates ts)) (head_target d)"
proof -
  have "d = d\<lparr>head_target := head_target d\<rparr>" by simp
  then show ?thesis unfolding patch_snapshot_def by (metis patch_updates_retarget
      ref_snapshot_data.select_convs(2) ref_snapshot_data.surjective ref_snapshot_data.update_convs(2))
qed

lemma load_local_retarget:
  "load_local peel snap cur =
     (load_local peel snap old)\<lparr>head_target := (if head_target snap \<noteq> [] then head_target snap
                                            else head_target cur)\<rparr>"
  by (simp add: load_local_def)

text \<open>Loading the base again over references that were folded from it changes nothing more.\<close>

lemma refold_base:
  assumes "d = patch_snapshot peel (load_local peel snap cur) ts"
  shows "patch_snapshot peel (load_local peel snap d) ts = d"
proof -
  let ?us = "concat (map updates ts)"
  let ?t = "if head_target snap \<noteq> [] then head_target snap else head_target d"
  have hd: "head_target d = head_after ?us (head_target (load_local peel snap cur))"
    by (simp add: assms patch_head_after)
  have "patch_snapshot peel (load_local peel snap d) ts = d\<lparr>head_target := head_after ?us ?t\<rparr>"
    unfolding load_local_retarget [of peel snap d cur] patch_snapshot_def patch_updates_retarget
    by (simp add: assms patch_snapshot_def)
  moreover have "head_after ?us ?t = head_target d"
    using hd by (simp add: load_local_def head_after_idem)
  ultimately show ?thesis by simp
qed

section \<open>The log reader and replay\<close>

definition ref_of_msg :: "ref_msg \<Rightarrow> git_ref" where
  "ref_of_msg r = \<lparr>name = ref_name r, oid = ref_oid r, peeled = ref_peeled r\<rparr>"

definition msg_map :: "(string, ref_msg) btree \<Rightarrow> (string, git_ref) btree" where
  "msg_map m = map (\<lambda>(k, r). (k, ref_of_msg r)) m"

lemma msg_map_insert: "msg_map (bt_insert k r m) = bt_insert k (ref_of_msg r) (msg_map m)"
  by (induction k r m rule: bt_insert.induct) (auto simp: msg_map_def)

lemma msg_map_remove: "msg_map (bt_remove k m) = bt_remove k (msg_map m)"
  by (induction m) (auto simp: msg_map_def bt_remove_def)

definition blind :: "string \<Rightarrow> string" where
  "blind o' = []"

text \<open>The reader's map and \<open>HEAD\<close> target agree with a snapshot.\<close>

definition reads_as :: "(string, ref_msg) btree \<times> string \<Rightarrow> ref_snapshot_data \<Rightarrow> bool" where
  "reads_as st d \<longleftrightarrow> msg_map (fst st) = refs_map (refs d) \<and> snd st = head_target d"

lemma replay_update_step:
  assumes "snapshot_ok d" "reads_as st d"
  shows "reads_as (replay_update st u) (patch_update blind d u)"
proof (cases "new_symbolic_target u = []")
  case True
  have "new_ref blind u = ref_of_msg \<lparr>ref_name = upd_name u, ref_oid = new_oid u, ref_peeled = new_peeled u\<rparr>"
    by (simp add: new_ref_def ref_of_msg_def new_peeled_of_def blind_def)
  then show ?thesis
    using assms True patch_update_map [OF _ True, of d blind]
    by (auto simp: reads_as_def replay_update_def snapshot_ok_def msg_map_insert msg_map_remove
        split: prod.splits)
next
  case False
  then show ?thesis
    using assms patch_update_symbolic [OF False, of blind d]
    by (auto simp: reads_as_def replay_update_def split: prod.splits)
qed

lemma replay_updates_fold:
  "snapshot_ok d \<Longrightarrow> reads_as st d \<Longrightarrow>
     reads_as (foldl replay_update st us) (foldl (patch_update blind) d us)"
proof (induction us arbitrary: st d)
  case (Cons u us)
  then show ?case
    using Cons.IH [OF patch_update_ok [OF Cons.prems(1)] replay_update_step [OF Cons.prems]] by simp
qed simp

definition txns_by_kind :: "log_entry list \<Rightarrow> bool" where
  "txns_by_kind es \<longleftrightarrow> list_all (\<lambda>e. txn e \<noteq> None \<longrightarrow> kind e = KPush \<or> kind e = KRefUpdate) es"

lemma replay_entries_fold:
  assumes "txns_by_kind es"
  shows "foldl replay_entry st es = foldl replay_update st (concat (map updates (entry_txns es)))"
  using assms
proof (induction es arbitrary: st)
  case (Cons e es)
  then show ?case
    by (cases "txn e") (auto simp: txns_by_kind_def entry_txns_def replay_entry_def)
qed (simp add: entry_txns_def)

lemma load_local_sorted:
  assumes "snapshot_ok snap"
  shows "load_local blind snap cur =
    snap\<lparr>head_target := (if head_target snap \<noteq> [] then head_target snap else head_target cur)\<rparr>"
proof -
  have "sort_key name (refs snap) = refs snap"
    using assms by (simp add: snapshot_ok_def strict_sorted_iff sort_key_id_if_sorted)
  moreover have "fill_peel blind r = r" for r by (simp add: fill_peel_def blind_def)
  then have "map (fill_peel blind) rs = rs" for rs by (simp add: map_idI)
  ultimately show ?thesis by (simp add: load_local_def)
qed

lemma replay_entries_patch:
  assumes "snapshot_ok (snapshot_from_proto sn)" "txns_by_kind es" "\<forall>e \<in> set es. seq e \<le> n"
  shows "snapshot_from_proto (fst (replay_entries (CutSeq n) sn from_seq fmt es)) =
    patch_snapshot blind (snapshot_from_proto sn) (entry_txns es)"
proof -
  let ?d = "snapshot_from_proto sn"
  let ?m0 = "map (\<lambda>r. (ref_name r, r)) (snap_refs sn)"
  have taken: "takeWhile (\<lambda>e. \<not> beyond_cut (CutSeq n) e) es = es"
    using assms(3) by (auto simp: takeWhile_eq_all_conv beyond_cut_def)
  have "msg_map ?m0 = refs_map (refs ?d)"
    by (simp add: msg_map_def refs_map_def snapshot_from_proto_def ref_of_msg_def)
  moreover have "bt_ok ?m0"
    using assms(1) by (simp add: bt_ok_def snapshot_ok_def snapshot_from_proto_def comp_def)
  ultimately have "reads_as (bt_of ?m0, snap_head_target sn) ?d"
    by (simp add: reads_as_def bt_of_sorted snapshot_from_proto_def)
  then have R: "reads_as (foldl replay_entry (bt_of ?m0, snap_head_target sn) es)
      (patch_snapshot blind ?d (entry_txns es))"
    unfolding patch_snapshot_def replay_entries_fold [OF assms(2)]
    by (rule replay_updates_fold [OF assms(1)])
  have refs: "map (\<lambda>r. \<lparr>name = ref_name r, oid = ref_oid r, peeled = ref_peeled r\<rparr>) (map snd m) = refs d"
    if "msg_map m = refs_map (refs d)" for m and d :: ref_snapshot_data
  proof -
    have "map snd (msg_map m) = refs d" using that by simp
    then show ?thesis by (simp add: msg_map_def ref_of_msg_def comp_def case_prod_beta)
  qed
  show ?thesis
    using R refs
    by (simp add: replay_entries_def taken reads_as_def snapshot_from_proto_def Let_def
        case_prod_beta)
qed

text \<open>A handle whose cached manifest is the one in the bucket.\<close>

definition fresh_handle :: "'a mem_store \<Rightarrow> repo_handle \<Rightarrow> bool" where
  "fresh_handle b h \<longleftrightarrow>
     (case mem_view b MANIFEST of None \<Rightarrow> False | Some (v, _) \<Rightarrow> h_version h = Some v)"

lemma freshness_unchanged:
  assumes "fresh_handle b h"
  shows "freshness_check mem_ops cs (h_version h) b = (Ok Unchanged, b)"
  using assms
  by (auto simp: freshness_check_def fresh_handle_def coord_err_def get_message_if_changed_def
      get_if_changed_def mem_get_def mem_view_def decode_object_def default_get_def
      split: option.splits)

lemma read_log_mem:
  assumes "fresh_handle b h" "read_log mem_ops cs h (Suc a) (Some n) b = (Ok es, b')"
    "n \<le> head_seq (h_manifest h)"
  shows "b' = b \<and> es = entries_between cs b (h_manifest h) a n"
proof (cases "Suc a > n")
  case True
  then show ?thesis
    using assms by (simp add: read_log_def freshness_unchanged entries_between_empty)
next
  case False
  have sel: "filter (\<lambda>sg. Suc a \<le> last_seq sg \<and> first_seq sg \<le> n) (log_segments (h_manifest h)) =
      overlapping (h_manifest h) a n"
    by (simp add: overlapping_def Suc_le_eq)
  from assms False obtain bs ess where f:
      "fetch_objects mem_ops (map seg_key (overlapping (h_manifest h) a n)) b = (Ok bs, b')"
      "decode_segments cs bs = Ok ess"
      "es = sort_key seq (concat (map (filter (\<lambda>e. Suc a \<le> seq e \<and> seq e \<le> n)) ess))"
    by (auto simp: read_log_def freshness_unchanged Let_def sel min_absorb1 sbind_eq_Inr_iff
        split: prod.splits)
  then show ?thesis
    using segments_fetched [OF f(1,2)]
    by (simp add: entries_between_def wanted_entries_def Suc_le_eq)
qed

text \<open>The checkpoint's two objects are where the reader and the rebuild look for them.\<close>

definition checkpoint_there :: "'a codecs \<Rightarrow> 'a mem_store \<Rightarrow> manifest \<Rightarrow> bool" where
  "checkpoint_there cs b m \<longleftrightarrow>
     (case checkpoint m of
        None \<Rightarrow> True
      | Some cp \<Rightarrow> cp_seq cp \<noteq> 0 \<and>
          (case object_body b (cp_key cp) of
             None \<Rightarrow> False
           | Some d \<Rightarrow>
               (case decode (c_checkpoint cs) d of
                  None \<Rightarrow> False
                | Some cpo \<Rightarrow> refs_key cpo = checkpoint_refs_key (cp_seq cp))))"

lemma replay_start_mem:
  assumes "checkpoint m = Some cp" "checkpoint_there cs b m" "base_snapshot cs b m = Some d"
  shows "\<exists>sn. replay_start mem_ops cs cp b = (Ok (sn, checkpoint_seq m), b) \<and> snapshot_from_proto sn = d"
proof -
  obtain v1 d1 cpo where o1: "mem_view b (cp_key cp) = Some (v1, d1)"
      "decode (c_checkpoint cs) d1 = Some cpo" "refs_key cpo = checkpoint_refs_key (cp_seq cp)"
      "cp_seq cp \<noteq> 0"
    using assms(1,2) by (auto simp: checkpoint_there_def object_body_def split: option.splits)
  obtain v2 d2 sn where o2: "mem_view b (checkpoint_refs_key (cp_seq cp)) = Some (v2, d2)"
      "decode (c_snapshot cs) d2 = Some sn" "snapshot_from_proto sn = d"
    using assms(1,3) o1(4)
    by (auto simp: base_snapshot_def checkpoint_seq_def object_body_def split: option.splits)
  show ?thesis
    using o1 o2 assms(1)
    by (simp add: replay_start_def store_err_def get_bytes_mem decode_or_corrupt_def checkpoint_seq_def)
qed

lemma refs_at_seq_mem:
  assumes fresh: "fresh_handle b h" and m: "m = h_manifest h"
    and n: "checkpoint_seq m \<le> n" "n \<le> head_seq m"
    and cp: "checkpoint_there cs b m" "base_snapshot cs b m = Some d" "snapshot_ok d"
    and kinds: "txns_by_kind (entries_between cs b m (checkpoint_seq m) n)"
    and run: "refs_at_seq mem_ops cs h n b = (Ok sn, b')"
  shows "b' = b \<and> snapshot_from_proto sn = fold_to cs blind b m empty_snapshot n"
proof -
  let ?start = "case checkpoint m of None \<Rightarrow> (Ok (default_snapshot_msg, 0), b)
      | Some cp \<Rightarrow> if checkpoint_usable (CutSeq n) cp then replay_start mem_ops cs cp b
                   else (Ok (default_snapshot_msg, 0), b)"
  have "\<exists>sn0. ?start = (Ok (sn0, checkpoint_seq m), b) \<and> snapshot_from_proto sn0 = d"
  proof (cases "checkpoint m")
    case None
    then show ?thesis using cp(2)
      by (simp add: base_snapshot_def checkpoint_seq_def empty_snapshot_def default_snapshot_msg_def
          snapshot_from_proto_def)
  next
    case (Some c)
    then show ?thesis using replay_start_mem [OF Some cp(1,2)] n(1)
      by (auto simp: checkpoint_usable_def checkpoint_seq_def)
  qed
  then obtain sn0 where s0: "?start = (Ok (sn0, checkpoint_seq m), b)" "snapshot_from_proto sn0 = d"
    by blast
  let ?es = "entries_between cs b m (checkpoint_seq m) n"
  obtain es where es: "read_log mem_ops cs h (Suc (checkpoint_seq m)) (Some n) b = (Ok es, b')"
      "sn = fst (replay_entries (CutSeq n) sn0 (checkpoint_seq m) (object_format m) es)"
    using run s0(1) m
    by (auto simp: refs_at_seq_def replay_refs_def Let_def sbind_eq_Inr_iff split: if_splits)
  have r: "b' = b" "es = ?es" using read_log_mem [OF fresh es(1)] n(2) m by auto
  have "\<forall>e \<in> set ?es. seq e \<le> n"
    by (auto simp: entries_between_def wanted_entries_def)
  with kinds cp(3) s0(2) have "snapshot_from_proto sn = patch_snapshot blind d (entry_txns ?es)"
    unfolding es(2) r(2) by (simp add: replay_entries_patch)
  moreover have "load_local blind d empty_snapshot = d"
    unfolding load_local_sorted [OF cp(3)] by (cases d) (simp add: empty_snapshot_def)
  ultimately show ?thesis using r(1) cp(2) by (simp add: fold_to_def)
qed

section \<open>A symbolic bucket\<close>

text \<open>One symbol per message: an instance of the codecs on which the definitions compute.\<close>

datatype wire =
    WLen nat
  | WEntry log_entry
  | WManifest manifest
  | WSnapshot ref_snapshot
  | WCheckpoint checkpoint_msg

definition wire_codecs :: "wire codecs" where
  "wire_codecs =
     \<lparr>c_varint = \<lparr>encode_varint = (\<lambda>n. [WLen n]),
        decode_varint = (\<lambda>xs. case xs of WLen n # r \<Rightarrow> Some (n, r) | _ \<Rightarrow> None)\<rparr>,
      c_entry = \<lparr>encode = (\<lambda>e. [WEntry e]), decode = (\<lambda>xs. case xs of [WEntry e] \<Rightarrow> Some e | _ \<Rightarrow> None)\<rparr>,
      c_manifest = \<lparr>encode = (\<lambda>e. [WManifest e]),
        decode = (\<lambda>xs. case xs of [WManifest e] \<Rightarrow> Some e | _ \<Rightarrow> None)\<rparr>,
      c_snapshot = \<lparr>encode = (\<lambda>e. [WSnapshot e]),
        decode = (\<lambda>xs. case xs of [WSnapshot e] \<Rightarrow> Some e | _ \<Rightarrow> None)\<rparr>,
      c_checkpoint = \<lparr>encode = (\<lambda>e. [WCheckpoint e]),
        decode = (\<lambda>xs. case xs of [WCheckpoint e] \<Rightarrow> Some e | _ \<Rightarrow> None)\<rparr>\<rparr>"

lemma wire_codecs_ok: "codecs_ok wire_codecs"
  by (auto simp: codecs_ok_def wire_codecs_def varint_ok_def codec_ok_def strict_prefix_def
      prefix_def Cons_eq_append_conv)

definition sample_oid :: "char \<Rightarrow> string" where
  "sample_oid c = replicate 40 c"

definition sample_push :: "nat \<Rightarrow> string \<Rightarrow> char \<Rightarrow> log_entry" where
  "sample_push n r c = (sample_entry n)\<lparr>txn := Some \<lparr>updates = [\<lparr>upd_name = r, old_oid = [],
     new_oid = sample_oid c, new_symbolic_target = [], new_peeled = []\<rparr>],
     push_options = [], atomic = True\<rparr>\<rparr>"

definition sample_segment :: "nat \<Rightarrow> log_segment_ref" where
  "sample_segment n = \<lparr>seg_key = log_segment_key n, first_seq = n, last_seq = n, seg_size = 2,
     sealed = False\<rparr>"

definition sample_manifest :: "nat \<Rightarrow> manifest" where
  "sample_manifest n = \<lparr>format_version = 1, repo = ''a/b'', object_format = ''sha1'', head_seq = n,
     min_seq = 0, checkpoint = None, log_segments = map sample_segment [1..<Suc n], packs = [],
     updated_at = None, writer = ''w'', revision = n, settings = None\<rparr>"

definition sample_bucket :: "wire mem_store" where
  "sample_bucket = \<lparr>objects = bt_of
     [(log_segment_key 1, (1, [WLen 1, WEntry (sample_push 1 ''refs/heads/a'' (CHR ''1''))])),
      (log_segment_key 2, (2, [WLen 1, WEntry (sample_push 2 ''refs/heads/b'' (CHR ''2''))])),
      (MANIFEST, (3, [WManifest (sample_manifest 2)]))], counter = 3\<rparr>"

definition sample_handle :: repo_handle where
  "sample_handle = \<lparr>h_manifest = sample_manifest 0, h_version = None, h_refs = empty_snapshot,
     applied_seq = 0, h_revision = 0, packs_revision = 0, packs_dirty = False,
     pending_pack_removals = [], installed_packs = [], refs_verified = False,
     first_entry_time = None, last_entry_time = None, first_seq_published_at = None\<rparr>"

text \<open>The handle after a sync with the bucket when it held one push, and after a full one.\<close>

definition sample_refs1 :: ref_snapshot_data where
  "sample_refs1 = \<lparr>refs = [\<lparr>name = ''refs/heads/a'', oid = sample_oid (CHR ''1''), peeled = []\<rparr>],
     head_target = []\<rparr>"

definition sample_refs2 :: ref_snapshot_data where
  "sample_refs2 = \<lparr>refs = [\<lparr>name = ''refs/heads/a'', oid = sample_oid (CHR ''1''), peeled = []\<rparr>,
     \<lparr>name = ''refs/heads/b'', oid = sample_oid (CHR ''2''), peeled = []\<rparr>], head_target = []\<rparr>"

definition sample_synced :: "nat \<Rightarrow> ref_snapshot_data \<Rightarrow> repo_handle" where
  "sample_synced n d = sample_handle\<lparr>h_manifest := sample_manifest n, h_version := Some 3,
     h_refs := d, applied_seq := n, h_revision := n, refs_verified := True\<rparr>"

lemma sample_syncs:
  "sync_locked_inner mem_ops wire_codecs blind False sample_handle sample_bucket =
     (Ok (sample_synced 2 sample_refs2), sample_bucket)"
  by code_simp

lemma sample_bucket_ok:
  "seg_wf wire_codecs sample_bucket (sample_manifest 2)"
  "base_ok wire_codecs sample_bucket (sample_manifest 2)"
  "base_snapshot wire_codecs sample_bucket (sample_manifest 2) = Some empty_snapshot"
  by code_simp+

lemma fold_to_split:
  assumes "seg_wf cs b m" "checkpoint_seq m \<le> a" "a \<le> n"
  shows "fold_to cs peel b m cur n =
    patch_snapshot peel (fold_to cs peel b m cur a) (entry_txns (entries_between cs b m a n))"
  unfolding fold_to_def entries_between_append [OF assms]
  by (simp add: entry_txns_append patch_snapshot_append)

lemma fold_to_refold:
  assumes "d = fold_to cs peel b m cur a"
  shows "fold_to cs peel b m d a = d"
  using assms unfolding fold_to_def by (rule refold_base)

lemma fold_to_ok: "base_ok cs b m \<Longrightarrow> snapshot_ok (fold_to cs peel b m cur a)"
  unfolding fold_to_def base_ok_def
  by (intro patch_snapshot_ok load_local_ok) (auto split: option.splits)

text \<open>The two branches of \<open>apply_delta_with_rebuild\<close>, as folds.\<close>

lemma rebuild_mem:
  assumes "base_ok cs b m" "snapshot_ok (h_refs h)" "head_seq m \<noteq> 0"
    "apply_delta_with_rebuild mem_ops cs peel h m v True b = (Ok h', b')"
  shows "b' = b \<and> applied_seq h' = head_seq m \<and> h_revision h' = revision m \<and>
    h_refs h' = fold_to cs peel b m (h_refs h) (head_seq m)"
  using apply_delta_with_rebuild_mem [OF assms(4,1,2,3)] by (simp add: fold_to_def)

section \<open>Properties\<close>

text \<open>
  A successful rebuild (\<open>apply_delta\<close>) leaves the local references at the head of the log: they
  are the checkpoint's snapshot (nothing, when there is no checkpoint) with the transactions of
  every log entry after it folded in, in sequence order; the bucket is not changed, the handle is
  marked verified at the manifest's head and revision.
\<close>

theorem rebuild_folds_log:
  assumes "base_ok cs b m" "snapshot_ok (h_refs h)" "head_seq m \<noteq> 0"
    "apply_delta mem_ops cs peel h m v b = (Ok h', b')"
  shows "b' = b \<and> refs_verified h' \<and> applied_seq h' = head_seq m \<and> h_revision h' = revision m \<and>
    h_refs h' = patch_snapshot peel (load_local peel (the (base_snapshot cs b m)) (h_refs h))
      (entry_txns (entries_between cs b m (checkpoint_seq m) (head_seq m)))"
  using assms(4) rebuild_mem [OF assms(1,2,3)]
  by (auto simp: apply_delta_def sbind_eq_Inr_iff fold_to_def)

theorem rebuild_folds_log_witness:
  "h_refs (the (case fst (apply_delta mem_ops wire_codecs blind sample_handle (sample_manifest 2) 3
      sample_bucket) of Inr h \<Rightarrow> Some h | Inl _ \<Rightarrow> None)) =
   patch_snapshot blind (load_local blind empty_snapshot empty_snapshot)
     (entry_txns (entries_between wire_codecs sample_bucket (sample_manifest 2) 0 2))"
proof -
  obtain h' b' where run:
      "apply_delta mem_ops wire_codecs blind sample_handle (sample_manifest 2) 3 sample_bucket = (Ok h', b')"
  proof -
    have "is_ok (fst (apply_delta mem_ops wire_codecs blind sample_handle (sample_manifest 2) 3 sample_bucket))"
      by code_simp
    then show ?thesis using that by (metis is_ok_iff prod.collapse)
  qed
  have "snapshot_ok (h_refs sample_handle)" "head_seq (sample_manifest 2) \<noteq> 0" by code_simp+
  from rebuild_folds_log [OF sample_bucket_ok(2) this run] show ?thesis
    by (simp add: run sample_bucket_ok(3))
      (simp add: checkpoint_seq_def sample_manifest_def sample_handle_def)
qed

text \<open>
  C36. An incremental sync and a rebuild from scratch give the same references.  A handle whose
  references are the fold of the log up to its applied sequence gets, from replaying only the new
  entries, what loading the checkpoint again and replaying everything would give it.
\<close>

theorem incremental_sync_equals_rebuild:
  assumes "seg_wf cs b m" "base_ok cs b m"
    and "checkpoint_seq m \<le> applied_seq h" "applied_seq h \<le> head_seq m"
    and "h_refs h = fold_to cs peel b m cur (applied_seq h)"
    and "apply_delta_with_rebuild mem_ops cs peel h m v False b = (Ok h1, b1)"
    and "apply_delta_with_rebuild mem_ops cs peel h m v True b = (Ok h2, b2)"
  shows "h_refs h1 = h_refs h2 \<and> applied_seq h1 = applied_seq h2"
proof (cases "head_seq m = 0")
  case True
  then show ?thesis using assms(6,7) by (simp add: apply_delta_with_rebuild_def Let_def)
next
  case False
  have ok: "snapshot_ok (h_refs h)" using assms(5) fold_to_ok [OF assms(2)] by simp
  note R2 = rebuild_mem [OF assms(2) ok False assms(7)]
  note R1 = apply_delta_with_rebuild_mem [OF assms(6,2) ok False]
  have "fold_to cs peel b m (h_refs h) (head_seq m) =
      patch_snapshot peel (h_refs h) (entry_txns (entries_between cs b m (applied_seq h) (head_seq m)))"
    using fold_to_split [OF assms(1,3,4)] fold_to_refold [OF assms(5)] by metis
  then show ?thesis using R1 R2 assms(3,4)
    by (auto simp: fold_to_def split: if_splits)
qed

theorem incremental_sync_equals_rebuild_witness:
  "\<exists>h1 h2. apply_delta_with_rebuild mem_ops wire_codecs blind (sample_synced 1 sample_refs1)
       (sample_manifest 2) 3 False sample_bucket = (Ok h1, sample_bucket) \<and>
     apply_delta_with_rebuild mem_ops wire_codecs blind (sample_synced 1 sample_refs1)
       (sample_manifest 2) 3 True sample_bucket = (Ok h2, sample_bucket) \<and>
     h_refs h1 = h_refs h2"
proof -
  let ?h = "sample_synced 1 sample_refs1" and ?m = "sample_manifest 2"
  let ?run = "\<lambda>f. apply_delta_with_rebuild mem_ops wire_codecs blind ?h ?m 3 f sample_bucket"
  have "is_ok (fst (?run False)) \<and> snd (?run False) = sample_bucket"
    "is_ok (fst (?run True)) \<and> snd (?run True) = sample_bucket" by code_simp+
  then obtain h1 h2 where r: "?run False = (Ok h1, sample_bucket)" "?run True = (Ok h2, sample_bucket)"
    by (metis is_ok_iff prod.collapse)
  have "checkpoint_seq ?m \<le> applied_seq ?h" "applied_seq ?h \<le> head_seq ?m"
    "h_refs ?h = fold_to wire_codecs blind sample_bucket ?m empty_snapshot (applied_seq ?h)"
    by code_simp+
  from incremental_sync_equals_rebuild [OF sample_bucket_ok(1,2) this r] show ?thesis
    using r by blast
qed

text \<open>
  Time travel reads the same history as replay: \<open>refs_at_seq\<close> at a sequence between the
  checkpoint and the head returns the fold of the log up to that sequence, where the checkpoint's
  objects are in place and only push and ref-update entries carry transactions.  (The reader does
  not look into the object database: it is compared with a replay whose \<open>peel\<close> finds nothing.)
\<close>

theorem refs_at_seq_is_fold:
  assumes "fresh_handle b h" "checkpoint_seq (h_manifest h) \<le> n" "n \<le> head_seq (h_manifest h)"
    and "checkpoint_there cs b (h_manifest h)" "base_snapshot cs b (h_manifest h) = Some d" "snapshot_ok d"
    and "txns_by_kind (entries_between cs b (h_manifest h) (checkpoint_seq (h_manifest h)) n)"
    and "refs_at_seq mem_ops cs h n b = (Ok sn, b')"
  shows "b' = b \<and> snapshot_from_proto sn = fold_to cs blind b (h_manifest h) empty_snapshot n"
  using refs_at_seq_mem [OF assms(1) refl assms(2-8)] .

theorem refs_at_seq_is_fold_witness:
  "\<exists>sn. fst (refs_at_seq mem_ops wire_codecs (sample_synced 2 sample_refs2) 1 sample_bucket) = Ok sn \<and>
     snapshot_from_proto sn =
       fold_to wire_codecs blind sample_bucket (sample_manifest 2) empty_snapshot 1"
proof -
  let ?h = "sample_synced 2 sample_refs2"
  have "is_ok (fst (refs_at_seq mem_ops wire_codecs ?h 1 sample_bucket))" by code_simp
  then obtain sn b' where run: "refs_at_seq mem_ops wire_codecs ?h 1 sample_bucket = (Ok sn, b')"
    by (metis is_ok_iff prod.collapse)
  have hm: "h_manifest ?h = sample_manifest 2" by (simp add: sample_synced_def)
  have "fresh_handle sample_bucket ?h" "checkpoint_seq (h_manifest ?h) \<le> 1"
    "1 \<le> head_seq (h_manifest ?h)" "checkpoint_there wire_codecs sample_bucket (h_manifest ?h)"
    by code_simp+
  moreover have "snapshot_ok empty_snapshot"
    "txns_by_kind (entries_between wire_codecs sample_bucket (h_manifest ?h) (checkpoint_seq (h_manifest ?h)) 1)"
    by code_simp+
  ultimately show ?thesis
    using refs_at_seq_is_fold [of sample_bucket ?h 1 wire_codecs empty_snapshot sn b'] run
    unfolding hm sample_bucket_ok(3) by simp
qed

text \<open>
  A locked sync never moves a handle back and always ends at a head: when it succeeds the
  cached manifest's revision has not decreased and the references are verified with the applied
  sequence at the head of the cached manifest.  It relies on what a verified handle promises
  (its applied sequence is its manifest's head) and on a revision naming one head.  It holds for
  any store, whatever it answers.
\<close>

theorem sync_reaches_head:
  assumes "refs_verified h \<longrightarrow> applied_seq h = head_seq (h_manifest h)"
    and "\<forall>v m s1. freshness_check ops cs (h_version h) s = (Ok (Changed v m), s1) \<and>
      revision m = revision (h_manifest h) \<longrightarrow> head_seq m = head_seq (h_manifest h)"
    and "sync_locked_inner ops cs peel force h s = (Ok h', s')"
  shows "refs_verified h' \<and> applied_seq h' = head_seq (h_manifest h') \<and>
    revision (h_manifest h) \<le> revision (h_manifest h')"
proof -
  have ad: "applied_seq h2 = head_seq m \<and> h_manifest h2 = h_manifest h1"
    if "apply_delta_with_rebuild ops cs peel h1 m v f t = (Ok h2, t')" for h1 h2 m v f t t'
    using apply_delta_with_rebuild_frame [OF that] by simp
  obtain out s1 where f: "freshness_check ops cs (h_version h) s = (Ok out, s1)"
    using assms(3) by (auto simp: sync_locked_inner_def sbind_eq_Inr_iff)
  show ?thesis
  proof (cases out)
    case Unchanged
    then show ?thesis using assms(1,3) f ad
      by (fastforce simp: sync_locked_inner_def Let_def sbind_eq_Inr_iff split: if_splits option.splits)
  next
    case (Changed v m)
    with assms(2) f have same: "revision m = revision (h_manifest h) \<longrightarrow> head_seq m = head_seq (h_manifest h)"
      by blast
    consider (older) "revision m < revision (h_manifest h)"
      | (same) "\<not> revision m < revision (h_manifest h)" "h_version h \<noteq> None" "revision m = revision (h_manifest h)"
      | (newer) "\<not> revision m < revision (h_manifest h)" "\<not> (h_version h \<noteq> None \<and> revision m = revision (h_manifest h))"
      by blast
    then show ?thesis
    proof cases
      case older
      then show ?thesis using Changed assms(1,3) f ad
        by (fastforce simp: sync_locked_inner_def Let_def sbind_eq_Inr_iff split: if_splits option.splits)
    next
      case same
      then show ?thesis using Changed assms(1,3) f ad \<open>revision m = _ \<longrightarrow> _\<close>
        by (fastforce simp: sync_locked_inner_def Let_def sbind_eq_Inr_iff split: if_splits)
    next
      case newer
      then show ?thesis using Changed assms(3) f ad
        by (fastforce simp: sync_locked_inner_def Let_def sbind_eq_Inr_iff split: if_splits)
    qed
  qed
qed

theorem sync_reaches_head_witness:
  "\<exists>h'. sync_locked_inner mem_ops wire_codecs blind False sample_handle sample_bucket = (Ok h', sample_bucket) \<and>
     applied_seq h' = head_seq (h_manifest h')"
proof -
  have "refs_verified sample_handle \<longrightarrow> applied_seq sample_handle = head_seq (h_manifest sample_handle)"
    by (simp add: sample_handle_def)
  moreover have fc: "freshness_check mem_ops wire_codecs (h_version sample_handle) sample_bucket =
      (Ok (Changed 3 (sample_manifest 2)), sample_bucket)" by code_simp
  have "\<forall>v m s1. freshness_check mem_ops wire_codecs (h_version sample_handle) sample_bucket = (Ok (Changed v m), s1) \<and>
      revision m = revision (h_manifest sample_handle) \<longrightarrow> head_seq m = head_seq (h_manifest sample_handle)"
    unfolding fc by (auto simp: sample_manifest_def sample_handle_def)
  ultimately show ?thesis
    using sync_reaches_head [OF _ _ sample_syncs] sample_syncs by blast
qed

text \<open>
  A rebuild from a log without entries does not reset the symbolic target of \<open>HEAD\<close>: the
  references are emptied but the target the local copy had before stays, so the result is not a
  function of the manifest alone.
\<close>

theorem rebuild_keeps_stale_head:
  assumes "head_seq m = 0"
  shows "\<exists>h'. apply_delta ops cs peel h m v s = (Ok h', s) \<and> refs (h_refs h') = [] \<and>
    head_target (h_refs h') = head_target (h_refs h)"
  using assms
  by (simp add: apply_delta_def apply_delta_with_rebuild_def Let_def load_local_def empty_snapshot_def)

theorem rebuild_keeps_stale_head_witness:
  "\<exists>h'. apply_delta mem_ops wire_codecs blind
       (sample_handle\<lparr>h_refs := \<lparr>refs = [], head_target = ''refs/heads/old''\<rparr>\<rparr>) (sample_manifest 0) 1
       sample_bucket = (Ok h', sample_bucket) \<and>
     head_target (h_refs h') = ''refs/heads/old''"
  using rebuild_keeps_stale_head [of "sample_manifest 0" mem_ops wire_codecs blind
      "sample_handle\<lparr>h_refs := \<lparr>refs = [], head_target = ''refs/heads/old''\<rparr>\<rparr>" 1 sample_bucket]
  by (auto simp: sample_manifest_def)

end
