(* ===== verification/Wal_Publish.thy ===== *)
theory Wal_Publish
  imports Wal_Sync
begin

text \<open>
  The publish path of \<^verbatim>\<open>crates/walgit-wal/src/publish.rs\<close>: uploads, the claim of a log slot, the
  verification of a batch, the manifest CAS and its ambiguous outcome, and the compaction, pack
  annotation and settings publishers.

  Every store operation is a call of the \<open>store_ops\<close> record.  Futures that the code joins run one
  after the other, uploads first.  The claim of a slot is a small-step function with one store
  operation per step; the loops iterate it.  \<open>None\<close> as a result means that the code does not
  return (the claim loop spins, or the lookup of \<open>HEAD\<close> recurses without end).  \<open>now\<close> is the clock,
  constant during one call.  Files of at least \<^verbatim>\<open>PARALLEL_PUT_MIN_BYTES\<close> (striped uploads),
  diagnostics, telemetry, the saved state file and the background tasks a publish spawns are not
  modelled.
\<close>

section \<open>Packs\<close>

record 'a ingested_pack =
  ip_checksum :: string
  ip_pack_size :: nat
  ip_idx_size :: nat
  ip_object_count :: nat
  ip_pack_file :: "'a list"
  ip_idx_file :: "'a list"

record 'a pack_info =
  pi_checksum :: string
  pi_pack_size :: nat
  pi_idx_size :: nat
  pi_has_rev :: bool
  pi_has_bitmap :: bool
  pi_has_commit_graph :: bool
  pi_object_count :: nat
  history_of :: "string option"
  pi_pack_file :: "'a list"
  pi_idx_file :: "'a list"
  pi_rev_file :: "'a list option"
  pi_bitmap_file :: "'a list option"
  pi_commit_graph_file :: "'a list option"

definition pack_ref_from_ingested :: "'a ingested_pack \<Rightarrow> nat \<Rightarrow> pack_ref" where
  "pack_ref_from_ingested p n =
     \<lparr>checksum = ip_checksum p, pack_size = ip_pack_size p, idx_size = ip_idx_size p,
      has_rev = False, has_bitmap = False, object_count = ip_object_count p, pack_seq = n, tier = 0,
      has_commit_graph = False, pkind = ObjectsPack, derived_from = []\<rparr>"

definition pack_ref_from_info :: "'a pack_info \<Rightarrow> nat \<Rightarrow> nat \<Rightarrow> pack_ref" where
  "pack_ref_from_info p n t =
     \<lparr>checksum = pi_checksum p, pack_size = pi_pack_size p, idx_size = pi_idx_size p,
      has_rev = pi_has_rev p, has_bitmap = pi_has_bitmap p, object_count = pi_object_count p,
      pack_seq = n, tier = t, has_commit_graph = pi_has_commit_graph p,
      pkind = (if history_of p \<noteq> None then HistoryPack else ObjectsPack),
      derived_from = (case history_of p of None \<Rightarrow> [] | Some b \<Rightarrow> b)\<rparr>"

definition put_immutable_create ::
  "('s, 'a) store_ops \<Rightarrow> string \<Rightarrow> 'a list \<Rightarrow> 's \<Rightarrow> (wal_error, unit) result \<times> 's" where
  "put_immutable_create ops key file s =
     (case os_put ops s key (File (Ok file)) Create of
        (Inr _, s1) \<Rightarrow> (Ok (), s1)
      | (Inl e, s1) \<Rightarrow>
          (if is_precondition_failed e
           then sbind (store_err (os_head ops s1 key)) (\<lambda>m s2.
             (if m \<noteq> None then (Ok (), s2)
              else sbind (store_err (os_put ops s2 key (File (Ok file)) Overwrite))
                     (\<lambda>_ s3. (Ok (), s3))))
           else (Err (WStore e), s1)))"

text \<open>\<open>join_all\<close>: every upload runs, the first failure in list order is the result.\<close>

fun put_all ::
  "('s, 'a) store_ops \<Rightarrow> (string \<times> 'a list) list \<Rightarrow> 's \<Rightarrow> (wal_error, unit) result \<times> 's" where
  "put_all ops [] s = (Ok (), s)"
| "put_all ops ((k, f) # rest) s =
     (let (r, s1) = put_immutable_create ops k f s; (rs, s2) = put_all ops rest s1
      in (rbind r (\<lambda>_. rs), s2))"

definition upload_pack ::
  "('s, 'a) store_ops \<Rightarrow> 'a ingested_pack \<Rightarrow> 's \<Rightarrow> (wal_error, unit) result \<times> 's" where
  "upload_pack ops p s =
     sbind (put_immutable_create ops (pack_key (ip_checksum p)) (ip_pack_file p) s) (\<lambda>_ s1.
       put_immutable_create ops (idx_key (ip_checksum p)) (ip_idx_file p) s1)"

section \<open>The claim of a log slot\<close>

record log_slot =
  slot_key :: string
  slot_version :: version
  slot_first_seq :: nat
  burned :: "(string \<times> version) list"

datatype claim_outcome = Claimed log_slot | Contended

definition ORPHAN_GRACE_PROBES :: nat where
  "ORPHAN_GRACE_PROBES = 3"

definition MAX_BURN :: nat where
  "MAX_BURN = 8"

definition read_manifest_fresh ::
  "('s, 'a) store_ops \<Rightarrow> 'a codecs \<Rightarrow> 's \<Rightarrow> (wal_error, manifest option) result \<times> 's" where
  "read_manifest_fresh ops cs s =
     sbind (store_err (get_bytes ops s MANIFEST)) (\<lambda>r s'.
       (case r of
          None \<Rightarrow> (Ok None, s')
        | Some (_, b) \<Rightarrow>
            (case decode (c_manifest cs) b of
               None \<Rightarrow> (Err (WCorrupt ''manifest decode''), s')
             | Some m \<Rightarrow> (Ok (Some m), s'))))"

text \<open>
  Where the two nested loops of \<open>claim_log_slot\<close> stand: about to create the object, about to read
  the manifest or about to look at the object, the latter two with the probes made so far.
\<close>

datatype claim_pc = TryCreate | ReadManifest nat | HeadSlot nat

record claim_state =
  cl_seq :: nat
  cl_burned :: "(string \<times> version) list"
  cl_pc :: claim_pc

definition claim_init :: "nat \<Rightarrow> claim_state" where
  "claim_init head = \<lparr>cl_seq = head + 1, cl_burned = [], cl_pc = TryCreate\<rparr>"

datatype claim_next = ClaimDone "(wal_error, claim_outcome) result" | ClaimGo claim_state

definition claim_step ::
  "('s, 'a) store_ops \<Rightarrow> 'a codecs \<Rightarrow> (nat \<Rightarrow> 'a list) \<Rightarrow> claim_state \<Rightarrow> 's \<Rightarrow> claim_next \<times> 's" where
  "claim_step ops cs enc st s =
     (let key = log_segment_key (cl_seq st)
      in case cl_pc st of
           TryCreate \<Rightarrow>
             (case put_bytes ops s key (enc (cl_seq st)) Create of
                (Inr meta, s') \<Rightarrow>
                  (ClaimDone (Ok (Claimed \<lparr>slot_key = key, slot_version = meta_version meta,
                     slot_first_seq = cl_seq st, burned = cl_burned st\<rparr>)), s')
              | (Inl e, s') \<Rightarrow>
                  (if is_precondition_failed e then (ClaimGo (st\<lparr>cl_pc := ReadManifest 0\<rparr>), s')
                   else (ClaimDone (Err (WStore e)), s')))
         | ReadManifest probes \<Rightarrow>
             (case read_manifest_fresh ops cs s of
                (Inl e, s') \<Rightarrow> (ClaimDone (Err e), s')
              | (Inr fresh, s') \<Rightarrow>
                  (if (case fresh of None \<Rightarrow> 0 | Some m \<Rightarrow> head_seq m) \<ge> cl_seq st
                   then (ClaimDone (Ok Contended), s')
                   else (ClaimGo (st\<lparr>cl_pc := HeadSlot probes\<rparr>), s')))
         | HeadSlot probes \<Rightarrow>
             (case os_head ops s key of
                (Inl e, s') \<Rightarrow> (ClaimDone (Err (WStore e)), s')
              | (Inr None, s') \<Rightarrow> (ClaimGo (st\<lparr>cl_pc := TryCreate\<rparr>), s')
              | (Inr (Some meta), s') \<Rightarrow>
                  (if probes + 1 \<ge> ORPHAN_GRACE_PROBES
                   then (let b = cl_burned st @ [(key, meta_version meta)]
                         in if length b \<ge> MAX_BURN
                            then (ClaimDone (Err (WCorrupt ''consecutive orphaned log segments'')), s')
                            else (ClaimGo \<lparr>cl_seq = cl_seq st + 1, cl_burned = b, cl_pc = TryCreate\<rparr>, s'))
                   else (ClaimGo (st\<lparr>cl_pc := ReadManifest (probes + 1)\<rparr>), s'))))"

partial_function (option) claim_loop ::
  "('s, 'a) store_ops \<Rightarrow> 'a codecs \<Rightarrow> (nat \<Rightarrow> 'a list) \<Rightarrow> claim_state \<Rightarrow> 's
     \<Rightarrow> ((wal_error, claim_outcome) result \<times> 's) option" where
  "claim_loop ops cs enc st s =
     (case claim_step ops cs enc st s of
        (ClaimDone r, s') \<Rightarrow> Some (r, s')
      | (ClaimGo st', s') \<Rightarrow> claim_loop ops cs enc st' s')"

declare claim_loop.simps [code]

definition claim_log_slot ::
  "('s, 'a) store_ops \<Rightarrow> 'a codecs \<Rightarrow> nat \<Rightarrow> (nat \<Rightarrow> 'a list) \<Rightarrow> 's
     \<Rightarrow> ((wal_error, claim_outcome) result \<times> 's) option" where
  "claim_log_slot ops cs head enc s = claim_loop ops cs enc (claim_init head) s"

fun sweep_list :: "('s, 'a) store_ops \<Rightarrow> (string \<times> version) list \<Rightarrow> 's \<Rightarrow> 's" where
  "sweep_list ops [] s = s"
| "sweep_list ops ((k, v) # rest) s = sweep_list ops rest (snd (os_delete ops s k (Some v)))"

definition sweep_burned :: "('s, 'a) store_ops \<Rightarrow> log_slot \<Rightarrow> 's \<Rightarrow> 's" where
  "sweep_burned ops slot s = sweep_list ops (burned slot) s"

definition drop_own_slot :: "('s, 'a) store_ops \<Rightarrow> log_slot \<Rightarrow> 's \<Rightarrow> 's" where
  "drop_own_slot ops slot s = snd (os_delete ops s (slot_key slot) (Some (slot_version slot)))"

definition lists_slot :: "log_slot \<Rightarrow> manifest \<Rightarrow> bool" where
  "lists_slot slot m \<longleftrightarrow>
     list_ex (\<lambda>sg. seg_key sg = slot_key slot \<and> first_seq sg = slot_first_seq slot) (log_segments m)"

definition cas_landed ::
  "('s, 'a) store_ops \<Rightarrow> 'a codecs \<Rightarrow> log_slot \<Rightarrow> 's \<Rightarrow> (wal_error, manifest option) result \<times> 's" where
  "cas_landed ops cs slot s =
     sbind (read_manifest_fresh ops cs s) (\<lambda>fresh s'.
       (Ok (case fresh of None \<Rightarrow> None | Some m \<Rightarrow> if lists_slot slot m then Some m else None), s'))"

section \<open>Verifying transactions\<close>

definition is_null_oid :: "string \<Rightarrow> bool" where
  "is_null_oid hex \<longleftrightarrow> hex = [] \<or> list_all (\<lambda>c. c = CHR ''0'') hex"

type_synonym ref_result = "string \<times> (ref_error, unit) result"

definition verify_update :: "ref_view \<Rightarrow> ref_update \<Rightarrow> ref_result option" where
  "verify_update v u =
     (if new_symbolic_target u \<noteq> [] then Some (upd_name u, Ok ())
      else case view_get v (upd_name u) of
             None \<Rightarrow> None
           | Some got \<Rightarrow>
               (let actual = (case got of None \<Rightarrow> [] | Some o' \<Rightarrow> o'); expected = old_oid u
                in if is_null_oid expected
                   then (if actual = [] then Some (upd_name u, Ok ())
                         else Some (upd_name u, Err (Conflict ''(new)'' actual)))
                   else if actual = expected then Some (upd_name u, Ok ())
                   else Some (upd_name u, Err (Conflict expected actual))))"

fun verify_updates :: "ref_view \<Rightarrow> ref_update list \<Rightarrow> ref_result list option" where
  "verify_updates v [] = Some []"
| "verify_updates v (u # us) =
     (case verify_update v u of
        None \<Rightarrow> None
      | Some r \<Rightarrow> map_option ((#) r) (verify_updates v us))"

definition verify_txn :: "ref_transaction \<Rightarrow> ref_view \<Rightarrow> ref_result list option" where
  "verify_txn t v = verify_updates v (updates t)"

definition apply_update_to_map :: "ref_view \<Rightarrow> ref_update \<Rightarrow> ref_view" where
  "apply_update_to_map v u =
     (if new_symbolic_target u \<noteq> [] then view_set (upd_name u) (new_symbolic_target u) v
      else if is_null_oid (new_oid u) then view_remove (upd_name u) v
      else view_set (upd_name u) (new_oid u) v)"

definition apply_txn_to_map :: "ref_transaction \<Rightarrow> ref_view \<Rightarrow> ref_view" where
  "apply_txn_to_map t v = foldl apply_update_to_map v (updates t)"

record 'a publish_request =
  rq_pack :: "'a ingested_pack option"
  rq_txn :: ref_transaction
  rq_meta :: "(string \<times> string) list"
  rq_synced :: bool
  rq_created_at :: "timestamp option"

record publish_result =
  res_seq :: nat
  per_ref :: "ref_result list"

record verified =
  v_per_ref :: "ref_result list"
  v_valid :: bool

definition all_ok :: "ref_result list \<Rightarrow> bool" where
  "all_ok rs \<longleftrightarrow> list_all (\<lambda>r. is_ok (snd r)) rs"

text \<open>An explicit time before the floor rejects every update of the request.\<close>

definition check_time :: "system_time option \<Rightarrow> timestamp option \<Rightarrow> ref_result list \<Rightarrow> ref_result list" where
  "check_time flr ts rs =
     (case (ts, flr) of
        (Some t, Some f) \<Rightarrow>
          (if to_system t < f
           then map (\<lambda>r. (fst r, Err (Rejected ''created_at is before the WAL head''))) rs
           else rs)
      | _ \<Rightarrow> rs)"

definition next_floor :: "system_time option \<Rightarrow> timestamp option \<Rightarrow> ref_result list \<Rightarrow> system_time option" where
  "next_floor flr ts rs =
     (case ts of Some t \<Rightarrow> if all_ok rs then Some (to_system t) else flr | None \<Rightarrow> flr)"

fun verify_batch ::
  "ref_view \<Rightarrow> system_time option \<Rightarrow> 'a publish_request list \<Rightarrow> verified list option" where
  "verify_batch v flr [] = Some []"
| "verify_batch v flr (rq # rest) =
     (case verify_txn (rq_txn rq) v of
        None \<Rightarrow> None
      | Some rs0 \<Rightarrow>
          (let rs = check_time flr (rq_created_at rq) rs0;
               ok = all_ok rs;
               v' = (if ok then apply_txn_to_map (rq_txn rq) v else v)
           in map_option ((#) \<lparr>v_per_ref = rs, v_valid = ok\<rparr>)
                (verify_batch v' (next_floor flr (rq_created_at rq) rs) rest)))"

section \<open>Entries and manifests\<close>

definition build_log_entry_at ::
  "nat \<Rightarrow> entry_kind \<Rightarrow> pack_ref option \<Rightarrow> ref_transaction option \<Rightarrow> string list
     \<Rightarrow> (string \<times> string) list \<Rightarrow> string \<Rightarrow> timestamp option \<Rightarrow> timestamp \<Rightarrow> log_entry" where
  "build_log_entry_at n k p t sups mt w cr now =
     \<lparr>seq = n, kind = k, pack = p, txn = t, supersedes = sups, entry_checkpoint = None,
      created_at = Some (case cr of None \<Rightarrow> now | Some x \<Rightarrow> x), entry_writer = w, entry_meta = mt,
      entry_settings = None\<rparr>"

definition valid_requests :: "'a publish_request list \<Rightarrow> verified list \<Rightarrow> 'a publish_request list" where
  "valid_requests batch vs = map fst (filter (\<lambda>p. v_valid (snd p)) (zip batch vs))"

fun build_entries :: "string \<Rightarrow> timestamp \<Rightarrow> nat \<Rightarrow> 'a publish_request list \<Rightarrow> log_entry list" where
  "build_entries w now n [] = []"
| "build_entries w now n (rq # rest) =
     build_log_entry_at n KPush (map_option (\<lambda>p. pack_ref_from_ingested p n) (rq_pack rq))
       (Some (rq_txn rq)) [] (rq_meta rq) w (rq_created_at rq) now
     # build_entries w now (n + 1) rest"

definition entry_packs :: "log_entry list \<Rightarrow> pack_ref list" where
  "entry_packs es = concat (map (\<lambda>e. case pack e of None \<Rightarrow> [] | Some p \<Rightarrow> [p]) es)"

definition encode_segment :: "'a codecs \<Rightarrow> log_entry list \<Rightarrow> 'a list" where
  "encode_segment cs es = encode_entries (c_varint cs) (c_entry cs) es"

text \<open>What every publisher of a segment changes in the manifest.\<close>

definition commit_segment ::
  "manifest \<Rightarrow> log_slot \<Rightarrow> nat \<Rightarrow> nat \<Rightarrow> timestamp \<Rightarrow> string \<Rightarrow> manifest" where
  "commit_segment m slot lst sz now w =
     m\<lparr>head_seq := lst,
       log_segments := sort_key first_seq (log_segments m @
         [\<lparr>seg_key = slot_key slot, first_seq = slot_first_seq slot, last_seq = lst,
           seg_size = sz, sealed = True\<rparr>]),
       updated_at := Some now, writer := w, revision := revision m + 1\<rparr>"

definition push_manifest ::
  "manifest \<Rightarrow> log_slot \<Rightarrow> log_entry list \<Rightarrow> nat \<Rightarrow> timestamp \<Rightarrow> string \<Rightarrow> manifest" where
  "push_manifest m slot es sz now w =
     (commit_segment m slot (slot_first_seq slot + length es - 1) sz now w)
       \<lparr>packs := sort_key pack_seq (packs m @ entry_packs es)\<rparr>"

definition cas_manifest_mode :: "version option \<Rightarrow> put_mode" where
  "cas_manifest_mode known = (case known of Some v \<Rightarrow> Update v | None \<Rightarrow> Create)"

section \<open>The local commit\<close>

text \<open>
  The local repository as the publisher uses it: peeling, whether \<open>git update-ref\<close> accepts a
  transaction, and whether the copy can be refreshed.
\<close>

record local_git =
  lg_peel :: "string \<Rightarrow> string"
  lg_update_ref :: "ref_transaction \<Rightarrow> bool"
  lg_refresh :: bool

definition apply_ref_txn ::
  "local_git \<Rightarrow> ref_snapshot_data \<Rightarrow> ref_transaction \<Rightarrow> (git_error, ref_snapshot_data) result" where
  "apply_ref_txn lg d t =
     (if \<not> list_all (\<lambda>u. is_ok (validate_ref_update u)) (updates t)
      then Err (InvalidInput ''invalid ref update'')
      else if list_ex (\<lambda>u. new_symbolic_target u = []) (updates t) \<and> \<not> lg_update_ref lg t
      then Err (Subprocess ''git update-ref --stdin'' None [])
      else Ok (patch_snapshot (lg_peel lg) d [t]))"

text \<open>Apply in order, stop at the first failure: the references so far and whether all applied.\<close>

fun apply_local :: "local_git \<Rightarrow> ref_snapshot_data \<Rightarrow> ref_transaction list \<Rightarrow> ref_snapshot_data \<times> bool" where
  "apply_local lg d [] = (d, lg_refresh lg)"
| "apply_local lg d (t # ts) =
     (case apply_ref_txn lg d t of Inl _ \<Rightarrow> (d, False) | Inr d' \<Rightarrow> apply_local lg d' ts)"

definition note_entry_time :: "repo_handle \<Rightarrow> nat \<Rightarrow> timestamp \<Rightarrow> repo_handle" where
  "note_entry_time h n at' =
     (let t = to_system at'; h1 = h\<lparr>last_entry_time := max_time (last_entry_time h) t\<rparr>
      in if n = 1 then h1\<lparr>first_seq_published_at := Some t\<rparr> else h1)"

definition note_entries :: "repo_handle \<Rightarrow> log_entry list \<Rightarrow> repo_handle" where
  "note_entries h es =
     foldl (\<lambda>h e. case created_at e of None \<Rightarrow> h | Some t \<Rightarrow> note_entry_time h (seq e) t) h es"

definition advertise :: "repo_handle \<Rightarrow> manifest \<Rightarrow> version \<Rightarrow> nat \<Rightarrow> repo_handle" where
  "advertise h m v lst =
     (let ready = packs_ready h
      in h\<lparr>h_manifest := m, h_version := Some v, applied_seq := lst, h_revision := revision m,
           packs_revision := (if ready then revision m else packs_revision h)\<rparr>)"

definition local_commit ::
  "local_git \<Rightarrow> repo_handle \<Rightarrow> ref_transaction list \<Rightarrow> manifest \<Rightarrow> version \<Rightarrow> nat \<Rightarrow> repo_handle" where
  "local_commit lg h ts m v lst =
     (let (d, ok) = apply_local lg (h_refs h) ts; h1 = h\<lparr>h_refs := d\<rparr>
      in if ok then advertise h1 m v lst else h1\<lparr>h_version := None\<rparr>)"

section \<open>The batch publisher\<close>

type_synonym answers = "(wal_error, publish_result) result list"

record publish_cfg =
  cas_max_retries :: nat
  cfg_writer :: string
  cfg_now :: timestamp

text \<open>A waiter gets the text of the batch's error, as a corruption.\<close>

fun err_text :: "wal_error \<Rightarrow> string" where
  "err_text WNotFound = ''repository not found''"
| "err_text WAlreadyExists = ''repository already exists''"
| "err_text (WRefConflict _ _ _) = ''ref conflict''"
| "err_text (WStore _) = ''store''"
| "err_text (WCoord _) = ''coord''"
| "err_text (WGit _) = ''git''"
| "err_text (WCorrupt t) = t"
| "err_text (WInvalid t) = t"
| "err_text (WRetry _) = ''retry''"
| "err_text (WTooLarge _ _) = ''too large''"

definition finish_all_errors :: "'a publish_request list \<Rightarrow> wal_error \<Rightarrow> answers" where
  "finish_all_errors batch e = map (\<lambda>_. Err (WCorrupt (err_text e))) batch"

text \<open>Dense sequence numbers for the valid requests, zero for the rejected ones.\<close>

fun responses :: "nat \<Rightarrow> verified list \<Rightarrow> answers" where
  "responses n [] = []"
| "responses n (v # vs) =
     (if v_valid v then Ok \<lparr>res_seq = n, per_ref = v_per_ref v\<rparr> # responses (n + 1) vs
      else Ok \<lparr>res_seq = 0, per_ref = v_per_ref v\<rparr> # responses n vs)"

fun upload_all ::
  "('s, 'a) store_ops \<Rightarrow> 'a publish_request list \<Rightarrow> 's \<Rightarrow> (wal_error, unit) result \<times> 's" where
  "upload_all ops [] s = (Ok (), s)"
| "upload_all ops (rq # rest) s =
     (case rq_pack rq of
        None \<Rightarrow> upload_all ops rest s
      | Some p \<Rightarrow>
          (let (r, s1) = upload_pack ops p s; (rs, s2) = upload_all ops rest s1
           in (rbind r (\<lambda>_. rs), s2)))"

datatype 's attempt = Done answers repo_handle 's | Lost repo_handle 's

text \<open>
  What the publisher learns from the manifest CAS: committed, with the manifest and version to
  advertise; lost; failed; or committed, but the read of the new version failed, where \<open>?\<close> leaves
  the function at once.
\<close>

datatype cas_result = Committed manifest version | CasLost | CasFailed wal_error | CasUnanswered wal_error

definition landed_version ::
  "('s, 'a) store_ops \<Rightarrow> manifest \<Rightarrow> 's \<Rightarrow> cas_result \<times> 's" where
  "landed_version ops fresh s =
     (case os_head ops s MANIFEST of
        (Inl e, s') \<Rightarrow> (CasUnanswered (WStore e), s')
      | (Inr None, s') \<Rightarrow> (CasFailed (WCorrupt ''manifest vanished after commit''), s')
      | (Inr (Some meta), s') \<Rightarrow> (Committed fresh (meta_version meta), s'))"

definition cas_commit ::
  "('s, 'a) store_ops \<Rightarrow> 'a codecs \<Rightarrow> log_slot \<Rightarrow> version option \<Rightarrow> manifest \<Rightarrow> 's \<Rightarrow> cas_result \<times> 's" where
  "cas_commit ops cs slot known updated s =
     (case put_bytes ops s MANIFEST (encode (c_manifest cs) updated) (cas_manifest_mode known) of
        (Inr meta, s1) \<Rightarrow> (Committed updated (meta_version meta), s1)
      | (Inl e, s1) \<Rightarrow>
          (if is_precondition_failed e then (CasLost, s1)
           else case cas_landed ops cs slot s1 of
                  (Inr (Some fresh), s2) \<Rightarrow> landed_version ops fresh s2
                | (Inr None, s2) \<Rightarrow> (CasFailed (WStore e), s2)
                | (Inl _, s2) \<Rightarrow> (CasFailed (WStore e), s2)))"

definition publish_attempt ::
  "('s, 'a) store_ops \<Rightarrow> 'a codecs \<Rightarrow> local_git \<Rightarrow> publish_cfg \<Rightarrow> nat \<Rightarrow> 'a publish_request list
     \<Rightarrow> repo_handle \<Rightarrow> 's \<Rightarrow> 's attempt option" where
  "publish_attempt ops cs lg cfg attempts batch h0 s0 =
     (let synced =
            (if attempts > 0 \<or> list_ex (\<lambda>rq. \<not> rq_synced rq) batch
             then sync_locked_inner ops cs (lg_peel lg) False h0 s0 else (Ok h0, s0))
      in case synced of
           (Inl e, s) \<Rightarrow> Some (Done (finish_all_errors batch e) h0 s)
         | (Inr h, s) \<Rightarrow>
             (let m = h_manifest h; known = h_version h
              in case verify_batch (view_new (h_refs h)) (last_entry_time h) batch of
                   None \<Rightarrow> None
                 | Some vs \<Rightarrow>
                     (let valid = valid_requests batch vs;
                          build = (\<lambda>n. build_entries (cfg_writer cfg) (cfg_now cfg) n valid)
                      in if valid = []
                         then Some (Done (map (\<lambda>v. Ok \<lparr>res_seq = 0, per_ref = v_per_ref v\<rparr>) vs) h s)
                         else
                           (let (up, s1) = upload_all ops batch s
                            in case claim_log_slot ops cs (head_seq m) (\<lambda>n. encode_segment cs (build n)) s1 of
                                 None \<Rightarrow> None
                               | Some (claim, s2) \<Rightarrow>
                                   Some (case up of
                                     Inl e \<Rightarrow> Done (finish_all_errors batch e) h s2
                                   | Inr _ \<Rightarrow>
                                       (case claim of
                                          Inl e \<Rightarrow> Done (finish_all_errors batch e) h s2
                                        | Inr Contended \<Rightarrow> Lost h s2
                                        | Inr (Claimed slot) \<Rightarrow>
                                            (let es = build (slot_first_seq slot);
                                                 lst = slot_first_seq slot + length es - 1;
                                                 updated = push_manifest m slot es
                                                   (length (encode_segment cs es)) (cfg_now cfg) (cfg_writer cfg)
                                             in case cas_commit ops cs slot known updated s2 of
                                                  (CasFailed e, s3) \<Rightarrow> Done (finish_all_errors batch e) h s3
                                                | (CasUnanswered _, s3) \<Rightarrow>
                                                    Done (map (\<lambda>_. Err (WCorrupt ''publisher dropped response'')) batch) h s3
                                                | (CasLost, s3) \<Rightarrow> Lost h (drop_own_slot ops slot s3)
                                                | (Committed cm v, s3) \<Rightarrow>
                                                    (let h1 = local_commit lg h (map rq_txn valid) cm v lst;
                                                         s4 = sweep_burned ops slot s3
                                                     in Done (responses (slot_first_seq slot) vs)
                                                          (note_entries h1 es) s4))))))))"

text \<open>The retry loop: a lost claim or CAS counts as an attempt.\<close>

function publish_loop ::
  "('s, 'a) store_ops \<Rightarrow> 'a codecs \<Rightarrow> local_git \<Rightarrow> publish_cfg \<Rightarrow> nat \<Rightarrow> 'a publish_request list
     \<Rightarrow> repo_handle \<Rightarrow> 's \<Rightarrow> (answers \<times> repo_handle \<times> 's) option" where
  "publish_loop ops cs lg cfg attempts batch h s =
     (case publish_attempt ops cs lg cfg attempts batch h s of
        None \<Rightarrow> None
      | Some (Done ans h' s') \<Rightarrow> Some (ans, h', s')
      | Some (Lost h' s') \<Rightarrow>
          (if attempts + 1 \<ge> cas_max_retries cfg
           then Some (finish_all_errors batch (WRetry (attempts + 1)), h', s')
           else publish_loop ops cs lg cfg (attempts + 1) batch h' s'))"
  by pat_completeness auto
termination
  by (relation "measure (\<lambda>(_, _, _, cfg, attempts, _). cas_max_retries cfg - attempts)") auto

declare publish_loop.simps [simp del]

definition process_batch ::
  "('s, 'a) store_ops \<Rightarrow> 'a codecs \<Rightarrow> local_git \<Rightarrow> publish_cfg \<Rightarrow> 'a publish_request list
     \<Rightarrow> repo_handle \<Rightarrow> 's \<Rightarrow> (answers \<times> repo_handle \<times> 's) option" where
  "process_batch ops cs lg cfg batch h s = publish_loop ops cs lg cfg 0 batch h s"

text \<open>
  How \<open>publisher_task\<close> forms a batch: the first request, one more that is already queued, and, when
  there is company, what arrives within the window, up to the maximum.  The rest stays queued.
\<close>

definition collect_batch ::
  "nat \<Rightarrow> bool \<Rightarrow> bool \<Rightarrow> 'r \<Rightarrow> 'r list \<Rightarrow> nat \<Rightarrow> 'r list \<times> 'r list" where
  "collect_batch max_batch window concurrent first queue in_window =
     (if 1 < max_batch
      then (let b = (case queue of [] \<Rightarrow> [first] | r # _ \<Rightarrow> [first, r]);
                q = drop (length b - 1) queue
            in if queue \<noteq> [] \<or> concurrent
               then if length b < max_batch \<and> window
                    then (let n = min in_window (max_batch - length b) in (b @ take n q, drop n q))
                    else (b, q)
               else (b, q))
      else ([first], queue))"

section \<open>Compaction, annotation, settings\<close>

definition compact_uploads :: "'a pack_info \<Rightarrow> (string \<times> 'a list) list" where
  "compact_uploads p =
     (let c = pi_checksum p; extra = (\<lambda>flag key file.
            case file of Some f \<Rightarrow> if flag then [(key, f)] else [] | None \<Rightarrow> [])
      in [(pack_key c, pi_pack_file p), (idx_key c, pi_idx_file p)] @
         extra (pi_has_rev p) (rev_key c) (pi_rev_file p) @
         extra (pi_has_bitmap p) (bitmap_key c) (pi_bitmap_file p) @
         extra (pi_has_commit_graph p) (commit_graph_key c) (pi_commit_graph_file p))"

definition compact_entry :: "pack_ref \<Rightarrow> string list \<Rightarrow> publish_cfg \<Rightarrow> nat \<Rightarrow> log_entry" where
  "compact_entry pr sups cfg n =
     build_log_entry_at n KCompact (Some (pr\<lparr>pack_seq := n\<rparr>)) None sups [] (cfg_writer cfg)
       (Some (cfg_now cfg)) (cfg_now cfg)"

definition compact_manifest ::
  "manifest \<Rightarrow> log_slot \<Rightarrow> pack_ref \<Rightarrow> string list \<Rightarrow> nat \<Rightarrow> publish_cfg \<Rightarrow> manifest" where
  "compact_manifest m slot pr sups sz cfg =
     (let n = slot_first_seq slot
      in (commit_segment m slot n sz (cfg_now cfg) (cfg_writer cfg))
           \<lparr>packs := sort_key pack_seq
              (filter (\<lambda>p. checksum p \<notin> set sups \<and> checksum p \<noteq> checksum pr) (packs m) @
               [pr\<lparr>pack_seq := n\<rparr>])\<rparr>)"

definition compact_advertise :: "repo_handle \<Rightarrow> manifest \<Rightarrow> version \<Rightarrow> nat \<Rightarrow> string list \<Rightarrow> repo_handle" where
  "compact_advertise h m v n sups =
     advertise (h\<lparr>pending_pack_removals := add_removals (pending_pack_removals h) sups\<rparr>) m v n"

function compact_loop ::
  "('s, 'a) store_ops \<Rightarrow> 'a codecs \<Rightarrow> local_git \<Rightarrow> publish_cfg \<Rightarrow> nat \<Rightarrow> pack_ref \<Rightarrow> string list
     \<Rightarrow> repo_handle \<Rightarrow> 's \<Rightarrow> ((wal_error, nat) result \<times> repo_handle \<times> 's) option" where
  "compact_loop ops cs lg cfg attempts pr sups h0 s0 =
     (case (if attempts > 0 then sync_locked_inner ops cs (lg_peel lg) False h0 s0 else (Ok h0, s0)) of
        (Inl e, s) \<Rightarrow> Some (Err e, h0, s)
      | (Inr h, s) \<Rightarrow>
          (let m = h_manifest h; enc = (\<lambda>n. encode_segment cs [compact_entry pr sups cfg n])
           in case claim_log_slot ops cs (head_seq m) enc s of
                None \<Rightarrow> None
              | Some (Inl e, s1) \<Rightarrow> Some (Err e, h, s1)
              | Some (Inr Contended, s1) \<Rightarrow>
                  (if attempts + 1 \<ge> cas_max_retries cfg then Some (Err (WRetry (attempts + 1)), h, s1)
                   else compact_loop ops cs lg cfg (attempts + 1) pr sups h s1)
              | Some (Inr (Claimed slot), s1) \<Rightarrow>
                  (let n = slot_first_seq slot;
                       updated = compact_manifest m slot pr sups (length (enc n)) cfg
                   in case cas_commit ops cs slot (h_version h) updated s1 of
                        (CasFailed e, s2) \<Rightarrow> Some (Err e, h, s2)
                      | (CasUnanswered e, s2) \<Rightarrow> Some (Err e, h, s2)
                      | (Committed cm v, s2) \<Rightarrow>
                          Some (Ok n, compact_advertise (note_entry_time h n (cfg_now cfg)) cm v n sups,
                                sweep_burned ops slot s2)
                      | (CasLost, s2) \<Rightarrow>
                          (let s3 = drop_own_slot ops slot s2
                           in if attempts + 1 \<ge> cas_max_retries cfg
                              then Some (Err (WRetry (attempts + 1)), h, s3)
                              else compact_loop ops cs lg cfg (attempts + 1) pr sups h s3))))"
  by pat_completeness auto
termination
  by (relation "measure (\<lambda>(_, _, _, cfg, attempts, _). cas_max_retries cfg - attempts)") auto

declare compact_loop.simps [simp del]

definition publish_compact ::
  "('s, 'a) store_ops \<Rightarrow> 'a codecs \<Rightarrow> local_git \<Rightarrow> publish_cfg \<Rightarrow> 'a pack_info \<Rightarrow> string list \<Rightarrow> nat
     \<Rightarrow> repo_handle \<Rightarrow> 's \<Rightarrow> ((wal_error, nat) result \<times> repo_handle \<times> 's) option" where
  "publish_compact ops cs lg cfg p sups t h s =
     (case put_all ops (compact_uploads p) s of
        (Inl e, s1) \<Rightarrow> Some (Err e, h, s1)
      | (Inr _, s1) \<Rightarrow> compact_loop ops cs lg cfg 0 (pack_ref_from_info p 0 t) sups h s1)"

fun annotate_first :: "string \<Rightarrow> bool \<Rightarrow> bool \<Rightarrow> bool \<Rightarrow> pack_ref list \<Rightarrow> (pack_ref \<times> pack_ref list) option" where
  "annotate_first c rv bm cg [] = None"
| "annotate_first c rv bm cg (p # ps) =
     (if checksum p = c
      then (let p' = p\<lparr>has_rev := has_rev p \<or> rv, has_bitmap := has_bitmap p \<or> bm,
                       has_commit_graph := has_commit_graph p \<or> cg\<rparr>
            in Some (p', p' # ps))
      else map_option (\<lambda>(q, qs). (q, p # qs)) (annotate_first c rv bm cg ps))"

function annotate_loop ::
  "('s, 'a) store_ops \<Rightarrow> 'a codecs \<Rightarrow> local_git \<Rightarrow> publish_cfg \<Rightarrow> nat \<Rightarrow> string \<Rightarrow> bool \<Rightarrow> bool \<Rightarrow> bool
     \<Rightarrow> repo_handle \<Rightarrow> 's \<Rightarrow> (wal_error, pack_ref) result \<times> repo_handle \<times> 's" where
  "annotate_loop ops cs lg cfg attempts c rv bm cg h s =
     (let m = h_manifest h
      in case annotate_first c rv bm cg (packs m) of
           None \<Rightarrow> (Err (WCorrupt ''pack left the live set''), h, s)
         | Some (p, ps) \<Rightarrow>
             (let updated = m\<lparr>packs := ps, updated_at := Some (cfg_now cfg), writer := cfg_writer cfg,
                              revision := revision m + 1\<rparr>
              in case put_bytes ops s MANIFEST (encode (c_manifest cs) updated)
                        (cas_manifest_mode (h_version h)) of
                   (Inr meta, s1) \<Rightarrow>
                     (Ok p, h\<lparr>h_manifest := updated, h_version := Some (meta_version meta),
                              h_revision := revision updated\<rparr>, s1)
                 | (Inl e, s1) \<Rightarrow>
                     (if is_precondition_failed e
                      then (if attempts + 1 \<ge> cas_max_retries cfg then (Err (WRetry (attempts + 1)), h, s1)
                            else case sync_locked_inner ops cs (lg_peel lg) False h s1 of
                                   (Inl e', s2) \<Rightarrow> (Err e', h, s2)
                                 | (Inr h', s2) \<Rightarrow>
                                     annotate_loop ops cs lg cfg (attempts + 1) c rv bm cg h' s2)
                      else (Err (WStore e), h, s1))))"
  by pat_completeness auto
termination
  by (relation "measure (\<lambda>(_, _, _, cfg, attempts, _). cas_max_retries cfg - attempts)") auto

declare annotate_loop.simps [simp del]

definition annotate_pack ::
  "('s, 'a) store_ops \<Rightarrow> 'a codecs \<Rightarrow> local_git \<Rightarrow> publish_cfg \<Rightarrow> string \<Rightarrow> 'a list option
     \<Rightarrow> 'a list option \<Rightarrow> 'a list option \<Rightarrow> repo_handle \<Rightarrow> 's
     \<Rightarrow> (wal_error, pack_ref) result \<times> repo_handle \<times> 's" where
  "annotate_pack ops cs lg cfg c rv bm cg h0 s0 =
     (case sync_locked_inner ops cs (lg_peel lg) False h0 s0 of
        (Inl e, s) \<Rightarrow> (Err e, h0, s)
      | (Inr h, s) \<Rightarrow>
          (if \<not> list_ex (\<lambda>p. checksum p = c) (packs (h_manifest h))
           then (Err (WCorrupt ''pack is not in the live set''), h, s)
           else
             (let file = (\<lambda>key f. case f of None \<Rightarrow> [] | Some b \<Rightarrow> [(key, b)])
              in case put_all ops (file (rev_key c) rv @ file (bitmap_key c) bm @ file (commit_graph_key c) cg) s of
                   (Inl e, s1) \<Rightarrow> (Err e, h, s1)
                 | (Inr _, s1) \<Rightarrow>
                     annotate_loop ops cs lg cfg 0 c (rv \<noteq> None) (bm \<noteq> None) (cg \<noteq> None) h s1)))"

definition new_settings :: "manifest \<Rightarrow> string \<Rightarrow> string \<Rightarrow> string \<Rightarrow> timestamp \<Rightarrow> repo_settings" where
  "new_settings m text auth msg now =
     \<lparr>toml = text,
      settings_revision = (case settings m of None \<Rightarrow> 0 | Some st \<Rightarrow> settings_revision st) + 1,
      author = auth, settings_updated_at = Some now, message = msg\<rparr>"

definition settings_entry :: "repo_settings \<Rightarrow> publish_cfg \<Rightarrow> nat \<Rightarrow> log_entry" where
  "settings_entry st cfg n =
     (build_log_entry_at n KSettings None None []
        [(''author'', author st), (''message'', message st)] (cfg_writer cfg)
        (Some (cfg_now cfg)) (cfg_now cfg))\<lparr>entry_settings := Some st\<rparr>"

function settings_loop ::
  "('s, 'a) store_ops \<Rightarrow> 'a codecs \<Rightarrow> local_git \<Rightarrow> publish_cfg \<Rightarrow> nat \<Rightarrow> string \<Rightarrow> string \<Rightarrow> string
     \<Rightarrow> repo_handle \<Rightarrow> 's \<Rightarrow> ((wal_error, nat) result \<times> repo_handle \<times> 's) option" where
  "settings_loop ops cs lg cfg attempts text auth msg h0 s0 =
     (case sync_locked_inner ops cs (lg_peel lg) False h0 s0 of
        (Inl e, s) \<Rightarrow> Some (Err e, h0, s)
      | (Inr h, s) \<Rightarrow>
          (let m = h_manifest h; st = new_settings m text auth msg (cfg_now cfg);
               enc = (\<lambda>n. encode_segment cs [settings_entry st cfg n]);
               again = attempts + 1 < cas_max_retries cfg
           in case claim_log_slot ops cs (head_seq m) enc s of
                None \<Rightarrow> None
              | Some (Inl e, s1) \<Rightarrow> Some (Err e, h, s1)
              | Some (Inr Contended, s1) \<Rightarrow>
                  (if again then settings_loop ops cs lg cfg (attempts + 1) text auth msg h s1
                   else Some (Err (WRetry (attempts + 1)), h, s1))
              | Some (Inr (Claimed slot), s1) \<Rightarrow>
                  (let n = slot_first_seq slot;
                       updated = (commit_segment m slot n (length (enc n)) (cfg_now cfg) (cfg_writer cfg))
                         \<lparr>settings := Some st\<rparr>
                   in case put_bytes ops s1 MANIFEST (encode (c_manifest cs) updated)
                             (cas_manifest_mode (h_version h)) of
                        (Inr meta, s2) \<Rightarrow>
                          Some (Ok (settings_revision st),
                            (note_entry_time h n (cfg_now cfg))\<lparr>h_manifest := updated,
                               h_version := Some (meta_version meta), applied_seq := n,
                               h_revision := revision updated\<rparr>,
                            sweep_burned ops slot s2)
                      | (Inl e, s2) \<Rightarrow>
                          (if is_precondition_failed e
                           then (let s3 = drop_own_slot ops slot s2
                                 in if again then settings_loop ops cs lg cfg (attempts + 1) text auth msg h s3
                                    else Some (Err (WRetry (attempts + 1)), h, s3))
                           else Some (Err (WStore e), h, s2)))))"
  by pat_completeness auto
termination
  by (relation "measure (\<lambda>(_, _, _, cfg, attempts, _). cas_max_retries cfg - attempts)") auto

declare settings_loop.simps [simp del]

definition publish_settings ::
  "('s, 'a) store_ops \<Rightarrow> 'a codecs \<Rightarrow> local_git \<Rightarrow> publish_cfg \<Rightarrow> string \<Rightarrow> string \<Rightarrow> string
     \<Rightarrow> repo_handle \<Rightarrow> 's \<Rightarrow> ((wal_error, nat) result \<times> repo_handle \<times> 's) option" where
  "publish_settings ops cs lg cfg text auth msg h s =
     settings_loop ops cs lg cfg 0 text auth msg h s"

section \<open>Lemmas: the claim on a quiet bucket\<close>

text \<open>The manifest as an unconditional read of the in-memory bucket finds it.\<close>

definition bucket_manifest :: "'a codecs \<Rightarrow> 'a mem_store \<Rightarrow> (wal_error, manifest option) result" where
  "bucket_manifest cs b =
     (case object_body b MANIFEST of
        None \<Rightarrow> Ok None
      | Some d \<Rightarrow> (case decode (c_manifest cs) d of None \<Rightarrow> Err (WCorrupt ''manifest decode'')
                                               | Some m \<Rightarrow> Ok (Some m)))"

lemma read_manifest_fresh_mem [store_simps]: "read_manifest_fresh mem_ops cs b = (bucket_manifest cs b, b)"
  by (auto simp: read_manifest_fresh_def store_err_def get_bytes_mem bucket_manifest_def
      object_body_def split: option.splits)

lemma mem_head_view [store_simps]:
  "mem_head b k = (Ok (map_option (\<lambda>(v, d). \<lparr>meta_key = k, meta_size = length d, meta_version = v\<rparr>)
     (mem_view b k)), b)"
  by (simp add: mem_head_def mem_view_def)

definition fresh_head :: "'a codecs \<Rightarrow> 'a mem_store \<Rightarrow> nat" where
  "fresh_head cs b = (case bucket_manifest cs b of Inr (Some m) \<Rightarrow> head_seq m | _ \<Rightarrow> 0)"

lemma put_create_taken [store_simps]:
  "mem_view b k = Some (v, d) \<Longrightarrow>
     put_bytes mem_ops b k x Create = (Err (PreconditionFailed k (Some v)), b)"
  by (simp add: put_bytes_def mem_put_def mem_view_def)

lemma put_create_free [store_simps]:
  "mem_view b k = None \<Longrightarrow>
     put_bytes mem_ops b k x Create =
       (Ok \<lparr>meta_key = k, meta_size = length x, meta_version = Suc (counter b)\<rparr>,
        b\<lparr>counter := Suc (counter b), objects := bt_insert k (Suc (counter b), x) (objects b)\<rparr>)"
  by (simp add: put_bytes_def mem_put_def mem_view_def next_version_def)

lemma claim_loop_go:
  "claim_step ops cs enc st s = (ClaimGo st', s') \<Longrightarrow> claim_loop ops cs enc st s = claim_loop ops cs enc st' s'"
  by (subst claim_loop.simps) simp

lemma claim_loop_done:
  "claim_step ops cs enc st s = (ClaimDone r, s') \<Longrightarrow> claim_loop ops cs enc st s = Some (r, s')"
  by (subst claim_loop.simps) simp

text \<open>One round of the claim at a sequence number.\<close>

lemma claim_round_free:
  assumes "cl_pc st = TryCreate" "mem_view b (log_segment_key (cl_seq st)) = None"
  shows "claim_loop mem_ops cs enc st b =
    Some (Ok (Claimed \<lparr>slot_key = log_segment_key (cl_seq st), slot_version = Suc (counter b),
            slot_first_seq = cl_seq st, burned = cl_burned st\<rparr>),
          b\<lparr>counter := Suc (counter b),
            objects := bt_insert (log_segment_key (cl_seq st)) (Suc (counter b), enc (cl_seq st)) (objects b)\<rparr>)"
  by (rule claim_loop_done) (simp add: claim_step_def assms store_simps Let_def)

lemma claim_probe:
  assumes "cl_pc st = ReadManifest p" "mem_view b (log_segment_key (cl_seq st)) = Some (v, d)"
    "bucket_manifest cs b = Ok fm" "fresh_head cs b < cl_seq st" "p + 1 < ORPHAN_GRACE_PROBES"
  shows "claim_loop mem_ops cs enc st b = claim_loop mem_ops cs enc (st\<lparr>cl_pc := ReadManifest (p + 1)\<rparr>) b"
proof -
  have fm: "\<not> (case fm of None \<Rightarrow> 0 | Some m \<Rightarrow> head_seq m) \<ge> cl_seq st"
    using assms(3,4) by (auto simp: fresh_head_def split: option.splits)
  show ?thesis
    using assms(1,2,3,5) fm
    by (subst claim_loop.simps, simp add: claim_step_def store_simps, subst claim_loop.simps)
      (simp add: claim_step_def store_simps)
qed

lemma claim_round_taken:
  assumes pc: "cl_pc st = TryCreate" and taken: "mem_view b (log_segment_key (cl_seq st)) = Some (v, d)"
    and fm: "bucket_manifest cs b = Ok fm"
  shows "claim_loop mem_ops cs enc st b =
    (if fresh_head cs b \<ge> cl_seq st then Some (Ok Contended, b)
     else if length (cl_burned st) + 1 \<ge> MAX_BURN
     then Some (Err (WCorrupt ''consecutive orphaned log segments''), b)
     else claim_loop mem_ops cs enc
            \<lparr>cl_seq = cl_seq st + 1, cl_burned = cl_burned st @ [(log_segment_key (cl_seq st), v)],
             cl_pc = TryCreate\<rparr> b)"
proof -
  let ?st = "\<lambda>p. st\<lparr>cl_pc := ReadManifest p\<rparr>"
  have first: "claim_loop mem_ops cs enc st b = claim_loop mem_ops cs enc (?st 0) b"
    by (subst claim_loop.simps) (simp add: claim_step_def pc taken store_simps)
  have fh: "fresh_head cs b = (case fm of None \<Rightarrow> 0 | Some m \<Rightarrow> head_seq m)"
    using fm by (simp add: fresh_head_def split: option.splits)
  show ?thesis
  proof (cases "fresh_head cs b \<ge> cl_seq st")
    case True
    then show ?thesis unfolding first
      by (subst claim_loop.simps) (simp add: claim_step_def store_simps fm fh)
  next
    case False
    have "claim_loop mem_ops cs enc (?st 0) b = claim_loop mem_ops cs enc (?st 2) b"
      using claim_probe [of "?st 0" 0 b v d cs fm enc] claim_probe [of "?st 1" 1 b v d cs fm enc]
        taken fm False by (simp add: ORPHAN_GRACE_PROBES_def numeral_2_eq_2)
    moreover have "claim_loop mem_ops cs enc (?st 2) b =
        (if length (cl_burned st) + 1 \<ge> MAX_BURN
         then Some (Err (WCorrupt ''consecutive orphaned log segments''), b)
         else claim_loop mem_ops cs enc
            \<lparr>cl_seq = cl_seq st + 1, cl_burned = cl_burned st @ [(log_segment_key (cl_seq st), v)],
             cl_pc = TryCreate\<rparr> b)"
    proof -
      have "claim_loop mem_ops cs enc (?st 2) b = claim_loop mem_ops cs enc (st\<lparr>cl_pc := HeadSlot 2\<rparr>) b"
        using False fm fh by (intro claim_loop_go) (simp add: claim_step_def store_simps)
      also have "\<dots> = (if length (cl_burned st) + 1 \<ge> MAX_BURN
         then Some (Err (WCorrupt ''consecutive orphaned log segments''), b)
         else claim_loop mem_ops cs enc
            \<lparr>cl_seq = cl_seq st + 1, cl_burned = cl_burned st @ [(log_segment_key (cl_seq st), v)],
             cl_pc = TryCreate\<rparr> b)"
        using taken
        by (auto simp: claim_step_def store_simps ORPHAN_GRACE_PROBES_def Let_def
            intro!: claim_loop_go claim_loop_done)
      finally show ?thesis .
    qed
    ultimately show ?thesis using first False by simp
  qed
qed

lemma claim_loop_corrupt:
  assumes "cl_pc st = TryCreate" "mem_view b (log_segment_key (cl_seq st)) = Some (v, d)"
    "bucket_manifest cs b = Err e"
  shows "claim_loop mem_ops cs enc st b = Some (Err e, b)"
  using assms
  by (subst claim_loop.simps, simp add: claim_step_def store_simps, subst claim_loop.simps)
    (simp add: claim_step_def store_simps)

lemma claim_loop_returns:
  assumes "cl_pc st = TryCreate" "length (cl_burned st) \<le> MAX_BURN"
  shows "\<exists>r b'. claim_loop mem_ops cs enc st b = Some (r, b')"
  using assms
proof (induction "MAX_BURN - length (cl_burned st)" arbitrary: st rule: less_induct)
  case less
  show ?case
  proof (cases "mem_view b (log_segment_key (cl_seq st))")
    case None
    then show ?thesis using claim_round_free less.prems(1) by blast
  next
    case (Some x)
    then obtain v d where x: "mem_view b (log_segment_key (cl_seq st)) = Some (v, d)" by (cases x) auto
    show ?thesis
    proof (cases "bucket_manifest cs b")
      case (Inl e)
      then show ?thesis using claim_loop_corrupt [OF less.prems(1) x Inl] by blast
    next
      case (Inr fm)
      then show ?thesis
        using claim_round_taken [OF less.prems(1) x Inr, of enc] less.hyps by (simp add: MAX_BURN_def)
    qed
  qed
qed

lemma claim_loop_orphans:
  assumes "cl_pc st = TryCreate" "bucket_manifest cs b = Ok fm" "fresh_head cs b < cl_seq st"
    "length (cl_burned st) + k < MAX_BURN"
    "\<forall>i < k. map_option fst (mem_view b (log_segment_key (cl_seq st + i))) = Some (vs i)"
    "mem_view b (log_segment_key (cl_seq st + k)) = None"
  shows "claim_loop mem_ops cs enc st b =
    Some (Ok (Claimed \<lparr>slot_key = log_segment_key (cl_seq st + k), slot_version = Suc (counter b),
            slot_first_seq = cl_seq st + k,
            burned = cl_burned st @ map (\<lambda>i. (log_segment_key (cl_seq st + i), vs i)) [0..<k]\<rparr>),
          b\<lparr>counter := Suc (counter b),
            objects := bt_insert (log_segment_key (cl_seq st + k))
              (Suc (counter b), enc (cl_seq st + k)) (objects b)\<rparr>)"
  using assms
proof (induction k arbitrary: st vs)
  case 0
  then show ?case using claim_round_free [of st b cs enc] by simp
next
  case (Suc k)
  from Suc.prems(5) obtain d where d: "mem_view b (log_segment_key (cl_seq st)) = Some (vs 0, d)"
    by (metis (no_types, lifting) add.right_neutral map_option_eq_Some prod.collapse zero_less_Suc)
  let ?st = "\<lparr>cl_seq = cl_seq st + 1, cl_burned = cl_burned st @ [(log_segment_key (cl_seq st), vs 0)],
    cl_pc = TryCreate\<rparr>"
  have step: "claim_loop mem_ops cs enc st b = claim_loop mem_ops cs enc ?st b"
    using claim_round_taken [OF Suc.prems(1) d Suc.prems(2), of enc] Suc.prems(3,4) by simp
  have "\<forall>i < k. map_option fst (mem_view b (log_segment_key (cl_seq ?st + i))) = Some (vs (Suc i))"
    using Suc.prems(5) by auto
  moreover have "map (\<lambda>i. (log_segment_key (cl_seq st + i), vs i)) [0..<Suc k] =
      (log_segment_key (cl_seq st), vs 0) #
        map (\<lambda>i. (log_segment_key (cl_seq ?st + i), vs (Suc i))) [0..<k]"
    by (simp add: upt_conv_Cons map_Suc_upt [symmetric] comp_def del: upt_Suc)
  ultimately show ?case
    unfolding step using Suc.IH [of ?st "\<lambda>i. vs (Suc i)"] Suc.prems(2,3,4,6) by simp
qed

section \<open>Lemmas: verification against the overlay\<close>

text \<open>The same decisions, taken on materialized snapshots.\<close>

definition snapshot_verdict :: "ref_snapshot_data \<Rightarrow> ref_update \<Rightarrow> ref_result" where
  "snapshot_verdict d u =
     (if new_symbolic_target u \<noteq> [] then (upd_name u, Ok ())
      else (let actual = (case lookup_oid (refs d) (upd_name u) of None \<Rightarrow> [] | Some o' \<Rightarrow> o')
            in if zero_oid (old_oid u)
               then (upd_name u, if actual = [] then Ok () else Err (Conflict ''(new)'' actual))
               else (upd_name u, if actual = old_oid u then Ok () else Err (Conflict (old_oid u) actual))))"

fun serial_verify ::
  "(string \<Rightarrow> string) \<Rightarrow> ref_snapshot_data \<Rightarrow> system_time option \<Rightarrow> 'a publish_request list
     \<Rightarrow> verified list" where
  "serial_verify peel d flr [] = []"
| "serial_verify peel d flr (rq # rest) =
     (let rs = check_time flr (rq_created_at rq) (map (snapshot_verdict d) (updates (rq_txn rq)));
          d' = (if all_ok rs then patch_snapshot peel d [rq_txn rq] else d)
      in \<lparr>v_per_ref = rs, v_valid = all_ok rs\<rparr>
         # serial_verify peel d' (next_floor flr (rq_created_at rq) rs) rest)"

text \<open>Symbolic updates are those of \<open>HEAD\<close>, and only those.\<close>

definition head_symbolic :: "ref_transaction \<Rightarrow> bool" where
  "head_symbolic t \<longleftrightarrow>
     list_all (\<lambda>u. (new_symbolic_target u \<noteq> []) = (upd_name u = ''HEAD'')) (updates t)"

definition oids_match :: "ref_view \<Rightarrow> ref_snapshot_data \<Rightarrow> bool" where
  "oids_match v d \<longleftrightarrow> bt_ok (overlay v) \<and>
     (\<forall>n. n \<noteq> ''HEAD'' \<longrightarrow> view_oid v n = lookup_oid (refs d) n)"

lemma null_zero_oid: "is_null_oid o' = zero_oid o'"
  by (simp add: is_null_oid_def zero_oid_def)

lemma verify_updates_match:
  assumes "oids_match v d" "list_all (\<lambda>u. (new_symbolic_target u \<noteq> []) = (upd_name u = ''HEAD'')) us"
  shows "verify_updates v us = Some (map (snapshot_verdict d) us)"
  using assms(2)
proof (induction us)
  case (Cons u us)
  have "verify_update v u = Some (snapshot_verdict d u)"
  proof (cases "new_symbolic_target u = []")
    case True
    then have n: "upd_name u \<noteq> ''HEAD''" using Cons.prems by simp
    have "view_oid v (upd_name u) = lookup_oid (refs d) (upd_name u)"
      using assms(1) n by (simp add: oids_match_def)
    then show ?thesis using True n
      by (simp add: verify_update_def snapshot_verdict_def view_get_other null_zero_oid Let_def
          split: option.splits)
  qed (simp add: verify_update_def snapshot_verdict_def)
  then show ?case using Cons by simp
qed simp

lemma oids_match_step:
  assumes "snapshot_ok d" "oids_match v d" "(new_symbolic_target u \<noteq> []) = (upd_name u = ''HEAD'')"
  shows "oids_match (apply_update_to_map v u) (patch_update peel d u)"
proof (cases "new_symbolic_target u = []")
  case True
  have ok: "bt_ok (overlay v)" using assms(2) by (simp add: oids_match_def)
  have s: "sorted_wrt (<) (map name (refs d))"
      "sorted_wrt (<) (map name (refs (patch_update peel d u)))"
    using assms(1) patch_update_ok by (auto simp: snapshot_ok_def)
  have mo: "bt_ok (refs_map (refs d))" using s(1) by (simp add: refs_map_ok)
  have "view_oid (apply_update_to_map v u) n = lookup_oid (refs (patch_update peel d u)) n"
    if "n \<noteq> ''HEAD''" for n
    using assms(2) True ok mo that
    unfolding lookup_oid_map [OF s(2)] patch_update_map(1) [OF s(1) True]
    by (auto simp: apply_update_to_map_def null_zero_oid view_oid_set [OF ok] oids_match_def new_ref_def
        lookup_oid_map [OF s(1)])
  moreover have "bt_ok (overlay (apply_update_to_map v u))"
    using ok by (simp add: apply_update_to_map_def view_set_def view_remove_def)
  ultimately show ?thesis by (simp add: oids_match_def)
next
  case False
  then have ok: "bt_ok (overlay v)" and u: "upd_name u = ''HEAD''"
    using assms(2,3) by (auto simp: oids_match_def)
  then show ?thesis
    using assms(2) False patch_update_symbolic [OF False, of peel d]
    by (simp add: oids_match_def apply_update_to_map_def view_oid_set [OF ok])
      (simp add: view_set_def)
qed

lemma oids_match_txn:
  assumes "snapshot_ok d" "oids_match v d" "head_symbolic t"
  shows "oids_match (apply_txn_to_map t v) (patch_snapshot peel d [t])"
proof -
  have "oids_match (foldl apply_update_to_map v us) (foldl (patch_update peel) d us)"
    if "list_all (\<lambda>u. (new_symbolic_target u \<noteq> []) = (upd_name u = ''HEAD'')) us"
      "snapshot_ok d" "oids_match v d" for us v d
    using that
  proof (induction us arbitrary: v d)
    case (Cons u us)
    then show ?case
      using Cons.IH [OF _ patch_update_ok oids_match_step [of d v u peel]] by simp
  qed simp
  then show ?thesis using assms by (simp add: apply_txn_to_map_def patch_snapshot_def head_symbolic_def)
qed

lemma verify_batch_serial:
  assumes "snapshot_ok d" "oids_match v d" "list_all (\<lambda>rq. head_symbolic (rq_txn rq)) batch"
  shows "verify_batch v flr batch = Some (serial_verify peel d flr batch)"
  using assms
proof (induction batch arbitrary: v d flr)
  case (Cons rq batch)
  have "verify_txn (rq_txn rq) v = Some (map (snapshot_verdict d) (updates (rq_txn rq)))"
    using verify_updates_match [OF Cons.prems(2)] Cons.prems(3)
    by (simp add: verify_txn_def head_symbolic_def)
  then show ?case
    using Cons.IH [OF Cons.prems(1,2)]
      Cons.IH [OF patch_snapshot_ok [OF Cons.prems(1)] oids_match_txn [OF Cons.prems(1,2), of "rq_txn rq"]]
      Cons.prems(3)
    by (simp add: Let_def)
qed simp

lemma oids_match_new: "oids_match (view_new d) d"
  using view_matches_new [of d] by (simp add: view_matches_def oids_match_def)

section \<open>Lemmas: one attempt on a quiet bucket\<close>

lemma view_insert [store_simps]:
  "bt_ok (objects b) \<Longrightarrow> mem_view (b\<lparr>counter := c, objects := bt_insert k x (objects b)\<rparr>) k' =
     (if k' = k then Some x else mem_view b k')"
  by (simp add: mem_view_def)

lemma mem_inv_ok: "mem_inv b \<Longrightarrow> bt_ok (objects b)"
  by (simp add: mem_inv_def)

definition claim_result_ok ::
  "nat \<Rightarrow> (nat \<Rightarrow> 'a list) \<Rightarrow> 'a mem_store \<Rightarrow> (wal_error, claim_outcome) result \<Rightarrow> 'a mem_store \<Rightarrow> bool" where
  "claim_result_ok head enc b r b' \<longleftrightarrow>
     (case r of
        Inr (Claimed slot) \<Rightarrow>
          slot_key slot = log_segment_key (slot_first_seq slot) \<and>
          head < slot_first_seq slot \<and> slot_first_seq slot \<le> head + MAX_BURN \<and>
          mem_view b (slot_key slot) = None \<and>
          (\<forall>k \<in> fst ` set (burned slot). \<exists>n. head < n \<and> n < slot_first_seq slot \<and> k = log_segment_key n) \<and>
          b' = b\<lparr>counter := Suc (counter b),
                 objects := bt_insert (slot_key slot) (Suc (counter b), enc (slot_first_seq slot)) (objects b)\<rparr>
      | _ \<Rightarrow> b' = b)"

lemma claim_loop_result:
  assumes "cl_pc st = TryCreate" "cl_seq st = head + 1 + length (cl_burned st)"
    "length (cl_burned st) < MAX_BURN"
    "\<forall>k \<in> fst ` set (cl_burned st). \<exists>n. head < n \<and> n < cl_seq st \<and> k = log_segment_key n"
    "claim_loop mem_ops cs enc st b = Some (r, b')"
  shows "claim_result_ok head enc b r b'"
  using assms
proof (induction "MAX_BURN - length (cl_burned st)" arbitrary: st rule: less_induct)
  case less
  show ?case
  proof (cases "mem_view b (log_segment_key (cl_seq st))")
    case None
    then show ?thesis
      using claim_round_free [OF less.prems(1) None, of cs enc] less.prems
      by (auto simp: claim_result_ok_def)
  next
    case (Some x)
    then obtain v d where x: "mem_view b (log_segment_key (cl_seq st)) = Some (v, d)" by (cases x) auto
    let ?st = "\<lparr>cl_seq = cl_seq st + 1, cl_burned = cl_burned st @ [(log_segment_key (cl_seq st), v)],
      cl_pc = TryCreate\<rparr>"
    show ?thesis
    proof (cases "bucket_manifest cs b")
      case (Inl e)
      then show ?thesis using claim_loop_corrupt [OF less.prems(1) x Inl, of enc] less.prems(5)
        by (simp add: claim_result_ok_def)
    next
      case (Inr fm)
      note R = claim_round_taken [OF less.prems(1) x Inr, of enc]
      have "\<forall>k \<in> fst ` set (cl_burned ?st). \<exists>n. head < n \<and> n < cl_seq ?st \<and> k = log_segment_key n"
      proof -
        have "\<exists>n. head < n \<and> n < cl_seq ?st \<and> log_segment_key (cl_seq st) = log_segment_key n"
          by (rule exI [of _ "cl_seq st"]) (use less.prems(2) in simp)
        then show ?thesis using less.prems(4) by (auto intro: less_SucI)
      qed
      then show ?thesis
        using R less.prems less.hyps [of ?st] by (auto simp: claim_result_ok_def split: if_splits)
    qed
  qed
qed

lemma claim_log_slot_result:
  assumes "claim_log_slot mem_ops cs head enc b = Some (r, b')"
  shows "claim_result_ok head enc b r b'"
  using claim_loop_result [of "claim_init head" head cs enc b r b'] assms
  by (simp add: claim_log_slot_def claim_init_def MAX_BURN_def)

text \<open>Uploads touch nothing but the keys of packs and indexes.\<close>

definition same_log :: "'a mem_store \<Rightarrow> 'a mem_store \<Rightarrow> bool" where
  "same_log b b' \<longleftrightarrow> mem_view b' MANIFEST = mem_view b MANIFEST \<and>
     (\<forall>n. mem_view b' (log_segment_key n) = mem_view b (log_segment_key n))"

lemma same_log_trans: "same_log a b \<Longrightarrow> same_log b c \<Longrightarrow> same_log a c"
  by (simp add: same_log_def)

lemma same_log_refl [simp]: "same_log b b"
  by (simp add: same_log_def)

lemma mem_put_same_log:
  assumes "mem_inv b" "mem_put b k body mode = (r, b')" "k \<noteq> MANIFEST" "\<forall>n. k \<noteq> log_segment_key n"
  shows "mem_inv b' \<and> same_log b b'"
proof -
  have "mem_inv b'" using mem_put_evolves [OF assms(1,2)] by simp
  moreover have "same_log b b'"
  proof (cases "body_bytes body")
    case (Inl e)
    then show ?thesis using assms(2) by (simp add: mem_put_def)
  next
    case (Inr d)
    from assms(2) this show ?thesis
      using assms(1,3,4) by (cases rule: mem_put_cases) (auto simp: same_log_def mem_view_def mem_inv_def)
  qed
  ultimately show ?thesis ..
qed

lemma put_immutable_create_mem:
  assumes "mem_inv b" "put_immutable_create mem_ops k f b = (r, b')" "k \<noteq> MANIFEST"
    "\<forall>n. k \<noteq> log_segment_key n"
  shows "mem_inv b' \<and> same_log b b'"
proof -
  obtain r1 b1 where p: "mem_put b k (File (Ok f)) Create = (r1, b1)" by fastforce
  note P = mem_put_same_log [OF assms(1) p assms(3,4)]
  have P2: "mem_inv b2 \<and> same_log b b2" if "mem_put b1 k (File (Ok f)) Overwrite = (r2, b2)" for r2 b2
    using mem_put_same_log [OF _ that assms(3,4)] P same_log_trans by blast
  show ?thesis
    using assms(2) p P P2
    by (auto simp: put_immutable_create_def store_err_def mem_head_view sbind_def
        split: sum.splits if_splits prod.splits)
qed

lemma pack_keys_apart [simp]:
  "pack_key c \<noteq> MANIFEST" "idx_key c \<noteq> MANIFEST" "pack_key c \<noteq> log_segment_key n"
  "idx_key c \<noteq> log_segment_key n"
  by (simp_all add: pack_key_def idx_key_def MANIFEST_def log_segment_key_def WAL_DIR_def LOG_DIR_def)

lemma upload_pack_mem:
  assumes "mem_inv b" "upload_pack mem_ops p b = (r, b')"
  shows "mem_inv b' \<and> same_log b b'"
proof -
  obtain r1 b1 where p: "put_immutable_create mem_ops (pack_key (ip_checksum p)) (ip_pack_file p) b = (r1, b1)"
    by fastforce
  note P = put_immutable_create_mem [OF assms(1) p]
  obtain r2 b2 where q: "put_immutable_create mem_ops (idx_key (ip_checksum p)) (ip_idx_file p) b1 = (r2, b2)"
    by fastforce
  note Q = put_immutable_create_mem [OF _ q]
  show ?thesis
    using assms(2) p q P Q same_log_trans
    by (auto simp: upload_pack_def sbind_def split: sum.splits)
qed

lemma upload_all_mem:
  assumes "mem_inv b" "upload_all mem_ops batch b = (r, b')"
  shows "mem_inv b' \<and> same_log b b'"
  using assms
proof (induction batch arbitrary: b r)
  case (Cons rq batch)
  show ?case
  proof (cases "rq_pack rq")
    case None
    then show ?thesis using Cons by simp
  next
    case (Some p)
    obtain r1 b1 where p: "upload_pack mem_ops p b = (r1, b1)" by fastforce
    obtain r2 b2 where q: "upload_all mem_ops batch b1 = (r2, b2)" by fastforce
    note P = upload_pack_mem [OF Cons.prems(1) p]
    have "b2 = b'" using Some p q Cons.prems(2) by simp
    then show ?thesis using Cons.IH [of b1 r2] P q same_log_trans by blast
  qed
qed simp

lemma sweep_list_mem:
  assumes "k \<notin> fst ` set bs"
  shows "mem_view (sweep_list mem_ops bs b) k = mem_view b k"
  using assms
proof (induction bs arbitrary: b)
  case (Cons x bs)
  obtain k' v where x: "x = (k', v)" by (cases x)
  have "mem_view (snd (mem_delete b k' (Some v))) k = mem_view b k"
    using Cons.prems x
    by (auto simp: mem_delete_def mem_view_def split: option.splits if_splits)
  then show ?case using Cons x by simp
qed simp

end
