(* ===== verification/Wal_Commit.thy ===== *)
theory Wal_Commit
  imports Wal_Publish
begin

text \<open>
  What a successful publish leaves in the bucket and in the handle, and the properties of the
  publish path: the claim skips orphans and ends, a batch is verified as if its requests came one
  by one, and a replica that replays the log ends where the publisher's local copy is.  The last
  section holds the runs of the code that do not do what its comments promise.
\<close>

section \<open>A committed attempt\<close>

declare view_get.simps [code]

lemma length_build_entries [simp]: "length (build_entries w now n rqs) = length rqs"
  by (induction rqs arbitrary: n) simp_all

lemma build_entries_seq: "i < length rqs \<Longrightarrow> seq (build_entries w now n rqs ! i) = n + i"
  by (induction rqs arbitrary: n i) (auto simp: build_log_entry_at_def nth_Cons split: nat.splits)

lemma build_entries_txns: "entry_txns (build_entries w now n rqs) = map rq_txn rqs"
  by (induction rqs arbitrary: n) (simp_all add: entry_txns_def build_log_entry_at_def)

lemma apply_local_ok:
  assumes "apply_local lg d ts = (d', True)"
  shows "d' = patch_snapshot (lg_peel lg) d ts \<and>
    list_all (\<lambda>u. is_ok (validate_ref_update u)) (concat (map updates ts))"
  using assms
proof (induction ts arbitrary: d)
  case (Cons t ts)
  then obtain d1 where d1: "apply_ref_txn lg d t = Ok d1" "apply_local lg d1 ts = (d', True)"
    by (auto split: sum.splits)
  then have "d1 = patch_snapshot (lg_peel lg) d [t]" "list_all (\<lambda>u. is_ok (validate_ref_update u)) (updates t)"
    by (auto simp: apply_ref_txn_def split: if_splits)
  then show ?case
    using Cons.IH [OF d1(2)] patch_snapshot_append [of "lg_peel lg" d "[t]" ts] by simp
qed (simp add: patch_snapshot_def)

text \<open>The manifest CAS on the in-memory bucket is never ambiguous.\<close>

lemma cas_commit_mem:
  assumes "mem_inv b" "cas_commit mem_ops cs slot known m b = (r, b')"
  shows "r = Committed m (Suc (counter b)) \<and> mem_inv b' \<and> map_option fst (mem_view b MANIFEST) = known \<and>
      mem_view b' = (mem_view b)(MANIFEST \<mapsto> (Suc (counter b), encode (c_manifest cs) m))
    \<or> r = CasLost \<and> b' = b"
proof -
  obtain pr b1 where p: "mem_put b MANIFEST (Bytes (encode (c_manifest cs) m)) (cas_manifest_mode known) = (pr, b1)"
    by fastforce
  have bb: "body_bytes (Bytes (encode (c_manifest cs) m)) = Ok (encode (c_manifest cs) m)" by simp
  have inv: "mem_inv b1" using mem_put_evolves [OF assms(1) p] by simp
  from p bb show ?thesis
  proof (cases rule: mem_put_cases)
    case applied
    then have "map_option fst (mem_view b MANIFEST) = known"
      by (cases known; cases "mem_view b MANIFEST") (auto simp: cas_manifest_mode_def split: if_splits)
    moreover have "mem_view b1 = (mem_view b)(MANIFEST \<mapsto> (Suc (counter b), encode (c_manifest cs) m))"
      using applied mem_inv_ok [OF assms(1)] by (auto simp: mem_view_def fun_eq_iff)
    ultimately show ?thesis
      using assms(2) p applied inv by (simp add: cas_commit_def put_bytes_def)
  next
    case refused
    then show ?thesis using assms(2) p by (simp add: cas_commit_def put_bytes_def)
  qed
qed

lemma note_entries_frame [simp]:
  "h_manifest (note_entries h es) = h_manifest h" "h_version (note_entries h es) = h_version h"
  "h_refs (note_entries h es) = h_refs h" "applied_seq (note_entries h es) = applied_seq h"
  "h_revision (note_entries h es) = h_revision h"
proof -
  have "h_manifest (note_entry_time g n t) = h_manifest g \<and> h_version (note_entry_time g n t) = h_version g \<and>
      h_refs (note_entry_time g n t) = h_refs g \<and> applied_seq (note_entry_time g n t) = applied_seq g \<and>
      h_revision (note_entry_time g n t) = h_revision g" for g n t
    by (simp add: note_entry_time_def Let_def)
  then have "h_manifest (note_entries h es) = h_manifest h \<and> h_version (note_entries h es) = h_version h \<and>
      h_refs (note_entries h es) = h_refs h \<and> applied_seq (note_entries h es) = applied_seq h \<and>
      h_revision (note_entries h es) = h_revision h"
    unfolding note_entries_def by (induction es arbitrary: h) (auto split: option.splits)
  then show "h_manifest (note_entries h es) = h_manifest h" "h_version (note_entries h es) = h_version h"
    "h_refs (note_entries h es) = h_refs h" "applied_seq (note_entries h es) = applied_seq h"
    "h_revision (note_entries h es) = h_revision h" by auto
qed

text \<open>
  A commit: what the attempt answered, what it wrote, and how the handle moved.
\<close>

definition committed_as ::
  "'a codecs \<Rightarrow> local_git \<Rightarrow> publish_cfg \<Rightarrow> 'a publish_request list \<Rightarrow> repo_handle \<Rightarrow> verified list \<Rightarrow> nat
     \<Rightarrow> answers \<Rightarrow> repo_handle \<Rightarrow> 'a mem_store \<Rightarrow> bool" where
  "committed_as cs lg cfg batch h vs n ans h1 b1 \<longleftrightarrow>
     (\<exists>slot v.
        let valid = valid_requests batch vs;
            es = build_entries (cfg_writer cfg) (cfg_now cfg) n valid;
            m = push_manifest (h_manifest h) slot es (length (encode_segment cs es)) (cfg_now cfg) (cfg_writer cfg)
        in valid \<noteq> [] \<and> slot_first_seq slot = n \<and> slot_key slot = log_segment_key n \<and>
           ans = responses n vs \<and> h_version h \<noteq> Some v \<and>
           h1 = note_entries (local_commit lg h (map rq_txn valid) m v (n + length valid - 1)) es \<and>
           mem_view b1 MANIFEST = Some (v, encode (c_manifest cs) m) \<and>
           object_body b1 (log_segment_key n) = Some (encode_segment cs es))"

lemma publish_attempt_committed:
  assumes inv: "mem_inv b" and vb: "verify_batch (view_new (h_refs h)) (last_entry_time h) batch = Some vs"
    and run: "publish_attempt mem_ops cs lg cfg 0 batch h b = Some (Done ans h1 b1)"
    and synced: "list_all rq_synced batch" and head: "head_seq (h_manifest h) + MAX_BURN \<le> u64_max"
    and moved: "h_version h1 \<noteq> h_version h"
  shows "\<exists>n. head_seq (h_manifest h) < n \<and> n \<le> head_seq (h_manifest h) + MAX_BURN \<and>
    map_option fst (mem_view b MANIFEST) = h_version h \<and> committed_as cs lg cfg batch h vs n ans h1 b1"
proof -
  let ?m = "h_manifest h"
  define valid where "valid = valid_requests batch vs"
  define build where "build n = build_entries (cfg_writer cfg) (cfg_now cfg) n valid" for n
  have ns: "\<not> list_ex (\<lambda>rq. \<not> rq_synced rq) batch"
    using synced by (induction batch) auto
  obtain up bu where up: "upload_all mem_ops batch b = (up, bu)" by fastforce
  note U = upload_all_mem [OF inv up]
  obtain claim bc where claim:
      "claim_log_slot mem_ops cs (head_seq ?m) (\<lambda>n. encode_segment cs (build n)) bu = Some (claim, bc)"
    using run moved ns
    by (auto simp: publish_attempt_def vb up valid_def build_def Let_def split: if_splits option.splits)
  note C = claim_log_slot_result [OF claim]
  obtain slot where slot: "claim = Ok (Claimed slot)" and up': "up = Ok ()" and ne: "valid \<noteq> []"
    using run moved ns claim
    by (auto simp: publish_attempt_def vb up valid_def build_def Let_def
        split: if_splits sum.splits claim_outcome.splits)
  define es where "es = build (slot_first_seq slot)"
  define m' where "m' = push_manifest ?m slot es (length (encode_segment cs es)) (cfg_now cfg) (cfg_writer cfg)"
  obtain r bm where cas: "cas_commit mem_ops cs slot (h_version h) m' bc = (r, bm)" by fastforce
  have c: "slot_key slot = log_segment_key (slot_first_seq slot)" "head_seq ?m < slot_first_seq slot"
      "slot_first_seq slot \<le> head_seq ?m + MAX_BURN" "mem_view bu (slot_key slot) = None"
      "\<forall>k \<in> fst ` set (burned slot). \<exists>n. head_seq ?m < n \<and> n < slot_first_seq slot \<and> k = log_segment_key n"
      "bc = bu\<lparr>counter := Suc (counter bu),
         objects := bt_insert (slot_key slot) (Suc (counter bu), encode_segment cs es) (objects bu)\<rparr>"
    using C unfolding claim_result_ok_def slot es_def by auto
  have "mem_inv bc"
    using mem_put_evolves [of bu "slot_key slot" "Bytes (encode_segment cs es)" Create] U
      put_create_free [OF c(4), of "encode_segment cs es"] c(6) by (auto simp: put_bytes_def)
  note K = cas_commit_mem [OF this cas]
  have bc: "mem_view bc k = (if k = slot_key slot then Some (Suc (counter bu), encode_segment cs es)
      else mem_view bu k)" for k
    unfolding c(6) using U by (simp add: view_insert mem_inv_ok)
  obtain v where r: "r = Committed m' v"
    using K run moved ns claim slot up' ne cas
    by (auto simp: publish_attempt_def vb up valid_def build_def Let_def es_def m'_def split: if_splits)
  have ver: "map_option fst (mem_view b MANIFEST) = h_version h"
    using K r bc [of MANIFEST] U c(1) by (simp add: same_log_def)
  have fresh: "h_version h \<noteq> Some v"
  proof
    assume "h_version h = Some v"
    then obtain d where "mem_view bu MANIFEST = Some (v, d)"
      using ver U by (cases "mem_view b MANIFEST") (auto simp: same_log_def)
    then have "v \<le> counter bu" using mem_inv_view U by blast
    then show False using K r c(6) by auto
  qed
  have D: "ans = responses (slot_first_seq slot) vs"
      "h1 = note_entries (local_commit lg h (map rq_txn valid) m' v (slot_first_seq slot + length valid - 1)) es"
      "b1 = sweep_burned mem_ops slot bm"
    using run ns claim slot up' ne cas r
    by (simp_all add: publish_attempt_def vb up valid_def build_def Let_def es_def m'_def)
  have nb: "MANIFEST \<notin> fst ` set (burned slot)" "log_segment_key (slot_first_seq slot) \<notin> fst ` set (burned slot)"
  proof -
    show "MANIFEST \<notin> fst ` set (burned slot)" using c(5) by force
    show "log_segment_key (slot_first_seq slot) \<notin> fst ` set (burned slot)"
    proof
      assume "log_segment_key (slot_first_seq slot) \<in> fst ` set (burned slot)"
      then obtain n where "n < slot_first_seq slot" "log_segment_key (slot_first_seq slot) = log_segment_key n"
        using c(5) by blast
      then show False using log_segment_key_inj c(3) head by (metis le_trans less_imp_le less_irrefl)
    qed
  qed
  have "mem_view b1 MANIFEST = Some (v, encode (c_manifest cs) m')"
    "object_body b1 (log_segment_key (slot_first_seq slot)) = Some (encode_segment cs es)"
    using K r bc c(1) nb
    by (auto simp: D(3) sweep_burned_def sweep_list_mem object_body_def)
  then have "committed_as cs lg cfg batch h vs (slot_first_seq slot) ans h1 b1"
    unfolding committed_as_def
    by (intro exI [of _ slot] exI [of _ v])
      (use ne c(1) D fresh in \<open>simp add: Let_def valid_def [symmetric] build_def [symmetric] es_def m'_def\<close>)
  then show ?thesis using c(2,3) ver by blast
qed

section \<open>Replaying a commit\<close>

lemma sort_key_id: "sorted (map f xs) \<Longrightarrow> sort_key f xs = xs"
  by (rule sort_key_id_if_sorted)

lemma incomplete_Nil:
  assumes "varint_ok v"
  shows "incomplete v []"
proof -
  have u: "0 \<le> u64_max" "1 \<le> u64_max" by (simp_all add: u64_max_def)
  have dec: "\<And>n rest. n \<le> u64_max \<Longrightarrow> decode_varint v (encode_varint v n @ rest) = Some (n, rest)"
    and cut: "\<And>n p. n \<le> u64_max \<Longrightarrow> strict_prefix p (encode_varint v n) \<Longrightarrow> decode_varint v p = None"
    using assms by (auto simp: varint_ok_def)
  have "encode_varint v 0 \<noteq> [] \<or> encode_varint v 1 \<noteq> []"
    using dec [OF u(1), of "[]"] dec [OF u(2), of "[]"] by auto
  then have "strict_prefix [] (encode_varint v 0) \<or> strict_prefix [] (encode_varint v 1)"
    by (metis Nil_prefix strict_prefix_def)
  then have "decode_varint v [] = None" using cut u by blast
  then show ?thesis by (simp add: incomplete_def)
qed

lemma decode_encode_segment:
  assumes "codecs_ok cs" "\<forall>e \<in> set es. length (encode (c_entry cs) e) \<le> u64_max"
  shows "decode_segment cs (encode_segment cs es) = Ok es"
proof -
  have v: "varint_ok (c_varint cs)" "codec_ok (c_entry cs)" using assms(1) by (auto simp: codecs_ok_def)
  show ?thesis
    using decode_encode_entries [OF v(2,1) _ assms(2), of "[]"] incomplete_Nil [OF v(1)]
    by (simp add: decode_segment_def encode_segment_def)
qed

text \<open>A manifest the publisher can extend: its segments and its checkpoint end at the head.\<close>

definition log_ends_at_head :: "manifest \<Rightarrow> bool" where
  "log_ends_at_head m \<longleftrightarrow> list_all (\<lambda>sg. last_seq sg \<le> head_seq m) (log_segments m) \<and>
     checkpoint_seq m \<le> head_seq m \<and> min_seq m \<le> head_seq m + 1"

lemma overlapping_commit:
  assumes "log_ends_at_head m" "head_seq m < slot_first_seq slot" "slot_first_seq slot \<le> lst"
  shows "overlapping (commit_segment m slot lst sz now w) (head_seq m) lst =
    [\<lparr>seg_key = slot_key slot, first_seq = slot_first_seq slot, last_seq = lst, seg_size = sz, sealed = True\<rparr>]"
proof -
  have "filter (\<lambda>sg. last_seq sg > head_seq m \<and> first_seq sg \<le> lst) (log_segments m) = []"
    using assms(1) by (auto simp: log_ends_at_head_def list_all_iff filter_empty_conv)
  then show ?thesis
    using assms(2,3) by (simp add: overlapping_def commit_segment_def filter_sort)
qed

lemma ensure_replayable_commit:
  assumes "log_ends_at_head m" "head_seq m < slot_first_seq slot" "slot_first_seq slot \<le> lst" "lst \<le> u64_max"
    "m' = (commit_segment m slot lst sz now w)\<lparr>packs := ps\<rparr>"
  shows "ensure_replayable m' (head_seq m) lst = Ok ()"
proof -
  have sat: "sat_add (head_seq m) 1 = head_seq m + 1" "sat_add (checkpoint_seq m) 1 = checkpoint_seq m + 1"
    using assms(1-4) by (auto simp: sat_add_def log_ends_at_head_def)
  have cov: "max (case checkpoint m' of None \<Rightarrow> 1 | Some cp \<Rightarrow> sat_add (cp_seq cp) 1) (max (min_seq m') 1)
      \<le> head_seq m + 1"
    using assms(1) sat(2)
    by (auto simp: assms(5) commit_segment_def log_ends_at_head_def checkpoint_seq_def split: option.splits)
  have "\<lparr>seg_key = slot_key slot, first_seq = slot_first_seq slot, last_seq = lst, seg_size = sz, sealed = True\<rparr>
      \<in> set (log_segments m')"
    by (simp add: assms(5) commit_segment_def)
  then have "list_ex (\<lambda>sg. last_seq sg \<ge> lst)
      (filter (\<lambda>sg. last_seq sg \<ge> head_seq m + 1 \<and> first_seq sg \<le> lst) (log_segments m'))"
    using assms(2,3) by (force simp: list_ex_iff)
  then show ?thesis using cov unfolding ensure_replayable_def Let_def sat by auto
qed

lemma build_entries_wanted:
  assumes "a < n" "rqs \<noteq> []"
  shows "wanted_entries a (n + length rqs - 1) [build_entries w now n rqs] = build_entries w now n rqs"
    and "seq (last (build_entries w now n rqs)) = n + length rqs - 1"
proof -
  let ?es = "build_entries w now n rqs"
  have s: "map seq ?es = map (\<lambda>i. n + i) [0..<length rqs]"
    by (rule nth_equalityI) (simp_all add: build_entries_seq)
  then have sorted: "sorted (map seq ?es)" by (simp add: sorted_iff_nth_mono)
  have "seq e > a \<and> seq e \<le> n + length rqs - 1" if "e \<in> set ?es" for e
    using that assms build_entries_seq [of _ rqs w now n] by (force simp: in_set_conv_nth)
  then have "filter (\<lambda>e. seq e > a \<and> seq e \<le> n + length rqs - 1) ?es = ?es" by (simp add: filter_id_conv)
  then show "wanted_entries a (n + length rqs - 1) [?es] = ?es"
    using sorted by (simp add: wanted_entries_def sort_key_id)
  have "last ?es = ?es ! (length rqs - 1)"
    using assms(2) by (metis last_conv_nth length_build_entries length_0_conv)
  then show "seq (last ?es) = n + length rqs - 1"
    using assms(2) build_entries_seq [of "length rqs - 1" rqs w now n] by (simp add: Suc_leI)
qed

lemma apply_entries_ok:
  assumes "snapshot_ok (h_refs h)"
    "list_all (\<lambda>u. is_ok (validate_ref_update u)) (concat (map updates (entry_txns es)))"
  shows "\<exists>h'. apply_entries peel h es = Ok h' \<and> h_refs h' = patch_snapshot peel (h_refs h) (entry_txns es)"
proof -
  obtain st where "offline_updates peel
      (bt_of (map (\<lambda>r. (name r, r)) (refs (h_refs h))), head_target (h_refs h))
      (concat (map updates (entry_txns es))) = Ok st"
    using offline_updates_ok [OF assms(2)] by blast
  then have "\<exists>h'. apply_entries peel h es = Ok h'"
    by (auto simp: apply_entries_def Let_def apply_ref_txns_offline_def split: prod.splits)
  then show ?thesis using apply_entries_patch(1) [OF assms(1)] by blast
qed

text \<open>Replaying the one new segment.\<close>

lemma replay_commit:
  assumes ok: "snapshot_ok (h_refs h)" "log_ends_at_head m" "codecs_ok cs" "rqs \<noteq> []"
    and slot: "slot_key slot = log_segment_key (slot_first_seq slot)" "head_seq m < slot_first_seq slot"
    and fits: "slot_first_seq slot + length rqs \<le> u64_max"
      "\<forall>e. length (encode (c_entry cs) e) \<le> u64_max"
    and es: "es = build_entries w now (slot_first_seq slot) rqs"
    and body: "object_body b (slot_key slot) = Some (encode_segment cs es)"
    and m': "m' = push_manifest m slot es sz now w"
    and valid: "list_all (\<lambda>u. is_ok (validate_ref_update u)) (concat (map updates (map rq_txn rqs)))"
  shows "\<exists>h'. replay_log mem_ops cs peel h m' (head_seq m) (head_seq m') b = (Ok h', b) \<and>
    h_refs h' = patch_snapshot peel (h_refs h) (map rq_txn rqs)"
proof -
  let ?lst = "slot_first_seq slot + length rqs - 1"
  have len: "length rqs \<ge> 1" using ok(4) by (cases rqs) auto
  have lst: "slot_first_seq slot \<le> ?lst" "?lst \<le> u64_max" "head_seq m < ?lst"
    using len fits(1) slot(2) by linarith+
  have head: "head_seq m' = ?lst" by (simp add: m' es push_manifest_def commit_segment_def)
  have ens: "ensure_replayable m' (head_seq m) ?lst = Ok ()"
    by (rule ensure_replayable_commit [OF ok(2) slot(2) lst(1,2)]) (simp add: m' es push_manifest_def)
  have "overlapping m' (head_seq m) ?lst = overlapping (commit_segment m slot ?lst sz now w) (head_seq m) ?lst"
    by (simp add: m' es push_manifest_def overlapping_def)
  then have ov: "map seg_key (overlapping m' (head_seq m) ?lst) = [slot_key slot]"
    using overlapping_commit [OF ok(2) slot(2) lst(1)] by simp
  have fetch: "fetch_objects mem_ops [slot_key slot] b = (Ok [Some (encode_segment cs es)], b)"
    using body by (simp add: fetch_object_mem)
  have dec: "decode_segments cs [Some (encode_segment cs es)] = Ok [es]"
    using decode_encode_segment [OF ok(3)] fits(2) by simp
  note W = build_entries_wanted [OF slot(2) ok(4), of w now, folded es]
  have ne: "es \<noteq> []" using ok(4) es by (metis length_0_conv length_build_entries)
  have txns: "entry_txns es = map rq_txn rqs" by (simp add: es build_entries_txns)
  have A: "\<exists>h'. apply_entries peel g es = Ok h' \<and> h_refs h' = patch_snapshot peel (h_refs h) (map rq_txn rqs)"
    if "h_refs g = h_refs h" for g
    using apply_entries_ok [of g es peel] ok(1) valid that by (simp add: txns)
  show ?thesis
    unfolding head replay_log_def ens ov
    using fetch dec W ne lst(3) A
    by (simp add: Let_def split: option.splits)
qed

lemma freshness_changed:
  assumes "mem_view b MANIFEST = Some (v, encode (c_manifest cs) m)" "codecs_ok cs" "known \<noteq> Some v"
  shows "freshness_check mem_ops cs known b = (Ok (Changed v m), b)"
proof -
  have dec: "decode (c_manifest cs) (encode (c_manifest cs) m) = Some m"
    using assms(2) by (simp add: codecs_ok_def codec_ok_def)
  show ?thesis
  proof (cases known)
    case None
    then show ?thesis using assms(1) dec
      by (simp add: freshness_check_def coord_err_def get_message_def get_bytes_mem decode_object_def)
  next
    case (Some v0)
    then show ?thesis using assms(1,3) dec
      by (simp add: freshness_check_def coord_err_def get_message_if_changed_def get_if_changed_def
          mem_get_def mem_view_def decode_object_def default_get_def slice_range_def collect_def once_def)
  qed
qed

text \<open>A handle at the head of a manifest that publishers can extend.\<close>

definition at_head :: "repo_handle \<Rightarrow> bool" where
  "at_head h \<longleftrightarrow> refs_verified h \<and> snapshot_ok (h_refs h) \<and> applied_seq h = head_seq (h_manifest h) \<and>
     h_revision h = revision (h_manifest h) \<and> log_ends_at_head (h_manifest h)"

lemma sync_commit:
  assumes ok: "at_head h" "codecs_ok cs" "rqs \<noteq> []"
    and slot: "slot_key slot = log_segment_key (slot_first_seq slot)" "head_seq (h_manifest h) < slot_first_seq slot"
    and fits: "slot_first_seq slot + length rqs \<le> u64_max" "\<forall>e. length (encode (c_entry cs) e) \<le> u64_max"
    and es: "es = build_entries w now (slot_first_seq slot) rqs"
    and body: "object_body b (slot_key slot) = Some (encode_segment cs es)"
    and m': "m' = push_manifest (h_manifest h) slot es sz now w"
    and valid: "list_all (\<lambda>u. is_ok (validate_ref_update u)) (concat (map updates (map rq_txn rqs)))"
    and man: "mem_view b MANIFEST = Some (v, encode (c_manifest cs) m')" "h_version h \<noteq> Some v"
  shows "\<exists>h'. sync_locked_inner mem_ops cs peel False h b = (Ok h', b) \<and> h_manifest h' = m' \<and>
    h_version h' = Some v \<and> applied_seq h' = head_seq m' \<and>
    h_refs h' = patch_snapshot peel (h_refs h) (map rq_txn rqs)"
proof -
  let ?m = "h_manifest h" and ?h0 = "h\<lparr>refs_verified := False\<rparr>"
  have h: "refs_verified h" "snapshot_ok (h_refs h)" "applied_seq h = head_seq ?m"
      "h_revision h = revision ?m" "log_ends_at_head ?m"
    using ok(1) by (auto simp: at_head_def)
  have len: "length rqs \<ge> 1" using ok(3) by (cases rqs) auto
  have f: "head_seq m' = slot_first_seq slot + length rqs - 1" "revision m' = revision ?m + 1"
      "checkpoint m' = checkpoint ?m"
    by (simp_all add: m' es push_manifest_def commit_segment_def)
  have lt: "head_seq ?m < head_seq m'" using f(1) slot(2) len by linarith
  have cp: "checkpoint_seq m' \<le> head_seq ?m"
    using h(5) f(3) by (simp add: log_ends_at_head_def checkpoint_seq_def)
  obtain g where g: "replay_log mem_ops cs peel ?h0 m' (head_seq ?m) (head_seq m') b = (Ok g, b)"
      "h_refs g = patch_snapshot peel (h_refs h) (map rq_txn rqs)"
    using replay_commit [of ?h0 ?m cs rqs slot es w now b m' sz peel] h ok slot fits es body m' valid
    by auto
  have "ensure_replayable m' (head_seq ?m) (head_seq m') = Ok ()"
    using g(1) by (auto simp: replay_log_def split: sum.splits)
  then have "apply_delta_with_rebuild mem_ops cs peel h m' v False b =
      (Ok (g\<lparr>applied_seq := head_seq m', h_revision := revision m'\<rparr>), b)"
    using lt cp h(3,4) f(2) g(1) by (simp add: apply_delta_with_rebuild_def Let_def)
  then show ?thesis
    using freshness_changed [OF man(1) ok(2) man(2)] f(2) h(1) g(2)
    by (simp add: sync_locked_inner_def Let_def)
qed

section \<open>Properties\<close>

text \<open>
  C13. A publish and a replay agree.  When a push of a verified handle commits (its handle shows a
  new manifest version), another replica that was in the same state and syncs with the bucket
  afterwards succeeds and ends with the same manifest, version, sequence number and references as
  the publisher's own local copy, whatever orphaned log segments the claim had to skip.
\<close>

theorem publish_then_replay_agree:
  assumes "at_head h" "codecs_ok cs" "mem_inv b" "list_all rq_synced batch"
    and "\<forall>e. length (encode (c_entry cs) e) \<le> u64_max"
    and "head_seq (h_manifest h) + MAX_BURN + length batch \<le> u64_max"
    and "publish_attempt mem_ops cs lg cfg 0 batch h b = Some (Done ans h1 b1)"
    and "h_version h1 \<noteq> h_version h" "h_version h1 \<noteq> None"
  shows "\<exists>r. sync_locked_inner mem_ops cs (lg_peel lg) False h b1 = (Ok r, b1) \<and>
    h_refs r = h_refs h1 \<and> h_manifest r = h_manifest h1 \<and> h_version r = h_version h1 \<and>
    applied_seq r = applied_seq h1"
proof -
  obtain vs where vs: "verify_batch (view_new (h_refs h)) (last_entry_time h) batch = Some vs"
    using assms(4,7) by (auto simp: publish_attempt_def Let_def split: option.splits if_splits)
      (metis list_all_iff list_ex_iff)+
  have head: "head_seq (h_manifest h) + MAX_BURN \<le> u64_max" using assms(6) by simp
  obtain n where n: "head_seq (h_manifest h) < n" "n \<le> head_seq (h_manifest h) + MAX_BURN"
      "committed_as cs lg cfg batch h vs n ans h1 b1"
    using publish_attempt_committed [OF assms(3) vs assms(7,4) head assms(8)] by blast
  define rqs where "rqs = valid_requests batch vs"
  define es where "es = build_entries (cfg_writer cfg) (cfg_now cfg) n rqs"
  obtain slot v m where C: "rqs \<noteq> []" "slot_first_seq slot = n" "slot_key slot = log_segment_key n"
      "h_version h \<noteq> Some v"
      "m = push_manifest (h_manifest h) slot es (length (encode_segment cs es)) (cfg_now cfg) (cfg_writer cfg)"
      "h1 = note_entries (local_commit lg h (map rq_txn rqs) m v (n + length rqs - 1)) es"
      "mem_view b1 MANIFEST = Some (v, encode (c_manifest cs) m)"
      "object_body b1 (log_segment_key n) = Some (encode_segment cs es)"
    using n(3) unfolding committed_as_def Let_def rqs_def [symmetric] es_def [symmetric] by blast
  obtain d where d: "apply_local lg (h_refs h) (map rq_txn rqs) = (d, True)"
      "h1 = note_entries (advertise (h\<lparr>h_refs := d\<rparr>) m v (n + length rqs - 1)) es"
    using C(6) assms(9) by (auto simp: local_commit_def Let_def split: prod.splits if_splits)
  note A = apply_local_ok [OF d(1)]
  have len: "length rqs \<le> length batch"
    unfolding rqs_def valid_requests_def
    by (metis length_filter_le length_map length_zip min.cobounded1 order_trans)
  obtain r where "sync_locked_inner mem_ops cs (lg_peel lg) False h b1 = (Ok r, b1)" "h_manifest r = m"
      "h_version r = Some v" "applied_seq r = head_seq m"
      "h_refs r = patch_snapshot (lg_peel lg) (h_refs h) (map rq_txn rqs)"
    using sync_commit [of h cs rqs slot es "cfg_writer cfg" "cfg_now cfg" b1 m "length (encode_segment cs es)" v
        "lg_peel lg"] assms(1,2,5,6) n(1,2) len C A es_def by auto
  moreover have "head_seq m = n + length rqs - 1"
    by (simp add: C(2,5) es_def push_manifest_def commit_segment_def)
  ultimately show ?thesis using A by (simp add: d(2) advertise_def Let_def)
qed

text \<open>A bucket with two pushes and an orphaned segment at the next sequence number.\<close>

definition orphan_bucket :: "wire mem_store" where
  "orphan_bucket = sample_bucket\<lparr>objects := bt_insert (log_segment_key 3)
     (4, [WLen 1, WEntry (sample_push 3 ''refs/heads/lost'' (CHR ''9''))]) (objects sample_bucket), counter := 4\<rparr>"

definition sample_request :: "string \<Rightarrow> char \<Rightarrow> wire publish_request" where
  "sample_request r c = \<lparr>rq_pack = None, rq_txn = \<lparr>updates = [\<lparr>upd_name = r, old_oid = [],
     new_oid = sample_oid c, new_symbolic_target = [], new_peeled = []\<rparr>], push_options = [], atomic = True\<rparr>,
     rq_meta = [], rq_synced = True, rq_created_at = None\<rparr>"

definition sample_git :: local_git where
  "sample_git = \<lparr>lg_peel = blind, lg_update_ref = (\<lambda>_. True), lg_refresh = True\<rparr>"

definition sample_cfg :: publish_cfg where
  "sample_cfg = \<lparr>cas_max_retries = 5, cfg_writer = ''w'', cfg_now = \<lparr>seconds = 100, nanos = 0\<rparr>\<rparr>"

definition sample_batch :: "wire publish_request list" where
  "sample_batch = [sample_request ''refs/heads/c'' (CHR ''3''), sample_request ''refs/heads/a'' (CHR ''4''),
     sample_request ''refs/heads/d'' (CHR ''5'')]"

definition sample_run :: "answers \<times> repo_handle \<times> wire mem_store" where
  "sample_run = (case publish_attempt mem_ops wire_codecs sample_git sample_cfg 0 sample_batch
       (sample_synced 2 sample_refs2) orphan_bucket of
     Some (Done ans h b) \<Rightarrow> (ans, h, b) | _ \<Rightarrow> ([], sample_handle, mem_empty))"

lemma sample_run_done:
  "(case publish_attempt mem_ops wire_codecs sample_git sample_cfg 0 sample_batch
      (sample_synced 2 sample_refs2) orphan_bucket of Some (Done _ _ _) \<Rightarrow> True | _ \<Rightarrow> False)"
  by code_simp

lemma sample_run_eq:
  "publish_attempt mem_ops wire_codecs sample_git sample_cfg 0 sample_batch
     (sample_synced 2 sample_refs2) orphan_bucket =
   Some (Done (fst sample_run) (fst (snd sample_run)) (snd (snd sample_run)))"
  using sample_run_done unfolding sample_run_def by (auto split: option.splits attempt.splits)

lemma wire_entry_fits: "length (encode (c_entry wire_codecs) e) \<le> u64_max"
  by (simp add: wire_codecs_def u64_max_def)

theorem publish_then_replay_agree_witness:
  "\<exists>r. sync_locked_inner mem_ops wire_codecs blind False (sample_synced 2 sample_refs2) (snd (snd sample_run)) =
     (Ok r, snd (snd sample_run)) \<and> h_refs r = h_refs (fst (snd sample_run))"
proof -
  have "at_head (sample_synced 2 sample_refs2)" "mem_inv orphan_bucket" "list_all rq_synced sample_batch"
    "head_seq (h_manifest (sample_synced 2 sample_refs2)) + MAX_BURN + length sample_batch \<le> u64_max"
    "h_version (fst (snd sample_run)) \<noteq> h_version (sample_synced 2 sample_refs2)"
    "h_version (fst (snd sample_run)) \<noteq> None"
    by code_simp+
  moreover have "lg_peel sample_git = blind" by (simp add: sample_git_def)
  ultimately show ?thesis
    using publish_then_replay_agree [OF _ wire_codecs_ok _ _ _ _ sample_run_eq] wire_entry_fits by fastforce
qed

lemma sample_bucket_manifest: "is_ok (bucket_manifest wire_codecs orphan_bucket)"
  by code_simp

text \<open>
  C35. On a bucket that only this writer uses, the claim of a log slot always returns: the two nested
  loops end, whatever objects lie at the keys of the log and whatever the manifest holds.
\<close>

theorem claim_log_slot_returns:
  "\<exists>r b'. claim_log_slot mem_ops cs head enc b = Some (r, b')"
  unfolding claim_log_slot_def by (rule claim_loop_returns) (simp_all add: claim_init_def)

text \<open>
  The claim skips orphans and overwrites nothing.  When the manifest has not moved past the
  writer's head and fewer than \<open>MAX_BURN\<close> uncommitted segments lie after it, the claim writes the
  segment at the first free sequence number and remembers every orphan it passed with the version
  it saw, in order; no other object changes.
\<close>

theorem claim_skips_orphans:
  assumes "mem_inv b" "bucket_manifest cs b = Ok fm" "fresh_head cs b \<le> head" "k < MAX_BURN"
    and "\<forall>i < k. map_option fst (mem_view b (log_segment_key (head + 1 + i))) = Some (vs i)"
    and "mem_view b (log_segment_key (head + 1 + k)) = None"
  shows "\<exists>b'. claim_log_slot mem_ops cs head enc b =
      Some (Ok (Claimed \<lparr>slot_key = log_segment_key (head + 1 + k), slot_version = Suc (counter b),
              slot_first_seq = head + 1 + k,
              burned = map (\<lambda>i. (log_segment_key (head + 1 + i), vs i)) [0..<k]\<rparr>), b') \<and>
    mem_view b' = (mem_view b)(log_segment_key (head + 1 + k) \<mapsto> (Suc (counter b), enc (head + 1 + k)))"
proof -
  have e: "cl_seq (claim_init head) = head + 1" "cl_burned (claim_init head) = []"
      "cl_pc (claim_init head) = TryCreate"
    by (simp_all add: claim_init_def)
  have "fresh_head cs b < cl_seq (claim_init head)" using assms(3) by (simp add: e)
  from claim_loop_orphans [OF e(3) assms(2) this, of k vs enc] assms(4,5,6) show ?thesis
    unfolding claim_log_slot_def e using mem_inv_ok [OF assms(1)]
    by (simp add: store_simps fun_eq_iff)
qed

theorem claim_skips_orphans_witness:
  "\<exists>b'. claim_log_slot mem_ops wire_codecs 2 (\<lambda>n. [WLen n]) orphan_bucket =
     Some (Ok (Claimed \<lparr>slot_key = log_segment_key 4, slot_version = 5, slot_first_seq = 4,
       burned = [(log_segment_key 3, 4)]\<rparr>), b')"
proof -
  obtain fm where fm: "bucket_manifest wire_codecs orphan_bucket = Ok fm"
    using is_ok_iff [of "bucket_manifest wire_codecs orphan_bucket"] by (metis sample_bucket_manifest)
  have "mem_inv orphan_bucket" "fresh_head wire_codecs orphan_bucket \<le> 2" "(1::nat) < MAX_BURN"
    "map_option fst (mem_view orphan_bucket (log_segment_key (2 + 1 + 0))) = Some 4"
    "mem_view orphan_bucket (log_segment_key (2 + 1 + 1)) = None" "counter orphan_bucket = 4"
    by code_simp+
  then show ?thesis
    using claim_skips_orphans [of orphan_bucket wire_codecs fm 2 1 "\<lambda>_. 4" "\<lambda>n. [WLen n]"] fm
    by auto
qed

text \<open>
  C14. Verifying a batch against one overlay view gives every request the verdict it would get if
  the requests came one after the other, each checked against the snapshot that the accepted ones
  before it produced: an accepted transaction is visible to the next request, a rejected one is
  not, and the lookups always return (updates of \<open>HEAD\<close> are symbolic and the others are not).
\<close>

theorem verify_batch_is_serial:
  assumes "snapshot_ok d" "list_all (\<lambda>rq. head_symbolic (rq_txn rq)) batch"
  shows "verify_batch (view_new d) flr batch = Some (serial_verify peel d flr batch)"
  using verify_batch_serial [OF assms(1) oids_match_new assms(2)] .

theorem verify_batch_is_serial_witness:
  "map_option (map v_valid) (verify_batch (view_new sample_refs2) None sample_batch) = Some [True, False, True]"
proof -
  have "snapshot_ok sample_refs2" "list_all (\<lambda>rq. head_symbolic (rq_txn rq)) sample_batch"
    "map v_valid (serial_verify blind sample_refs2 None sample_batch) = [True, False, True]"
    by code_simp+
  then show ?thesis using verify_batch_is_serial [of sample_refs2 sample_batch None blind] by simp
qed

section \<open>Where the code departs from its comments\<close>

text \<open>
  The times of a batch need not be monotonic: a request with no explicit time, stamped with the
  current time, does not raise the floor for the next one, so a request with an earlier explicit
  time is accepted after it in the same batch.
\<close>

theorem batch_times_not_monotonic:
  "\<exists>vs. verify_batch (view_new sample_refs2) (Some 10)
       [sample_request ''refs/heads/c'' (CHR ''3''),
        (sample_request ''refs/heads/d'' (CHR ''5''))\<lparr>rq_created_at := Some \<lparr>seconds = 50, nanos = 0\<rparr>\<rparr>] =
     Some vs \<and> list_all v_valid vs \<and>
     map created_at (build_entries ''w'' \<lparr>seconds = 100, nanos = 0\<rparr> 3
       (valid_requests
         [sample_request ''refs/heads/c'' (CHR ''3''),
          (sample_request ''refs/heads/d'' (CHR ''5''))\<lparr>rq_created_at := Some \<lparr>seconds = 50, nanos = 0\<rparr>\<rparr>] vs)) =
     [Some \<lparr>seconds = 100, nanos = 0\<rparr>, Some \<lparr>seconds = 50, nanos = 0\<rparr>]"
proof -
  let ?b = "[sample_request ''refs/heads/c'' (CHR ''3''),
        (sample_request ''refs/heads/d'' (CHR ''5''))\<lparr>rq_created_at := Some \<lparr>seconds = 50, nanos = 0\<rparr>\<rparr>]"
  have "(case verify_batch (view_new sample_refs2) (Some 10) ?b of None \<Rightarrow> False
     | Some vs \<Rightarrow> list_all v_valid vs \<and>
        map created_at (build_entries ''w'' \<lparr>seconds = 100, nanos = 0\<rparr> 3 (valid_requests ?b vs)) =
        [Some \<lparr>seconds = 100, nanos = 0\<rparr>, Some \<lparr>seconds = 50, nanos = 0\<rparr>])"
    by code_simp
  then show ?thesis by (auto split: option.splits)
qed

text \<open>
  The answer of the manifest CAS is lost after it took effect, and another writer (running the
  same code) commits before the publisher looks at the manifest again.
\<close>

definition other_push :: "wire mem_store \<Rightarrow> wire mem_store" where
  "other_push b =
     (case sync_locked_inner mem_ops wire_codecs blind False sample_handle b of
        (Inr h, b1) \<Rightarrow>
          (case process_batch mem_ops wire_codecs sample_git sample_cfg
                  [sample_request ''refs/heads/x'' (CHR ''6'')] h b1 of
             Some (_, _, b2) \<Rightarrow> b2 | None \<Rightarrow> b1)
      | (Inl _, b1) \<Rightarrow> b1)"

definition racy_ops :: "(wire mem_store, wire) store_ops" where
  "racy_ops = mem_ops\<lparr>os_put := (\<lambda>b k body mode.
     if k = MANIFEST
     then (Err (Retryable ''timeout''), other_push (snd (mem_put b k body mode)))
     else mem_put b k body mode)\<rparr>"

definition racy_run :: "answers \<times> repo_handle \<times> wire mem_store" where
  "racy_run = (case process_batch racy_ops wire_codecs sample_git sample_cfg
       [sample_request ''refs/heads/c'' (CHR ''3'')] (sample_synced 2 sample_refs2) sample_bucket of
     Some r \<Rightarrow> r | None \<Rightarrow> ([], sample_handle, mem_empty))"

text \<open>
  After a manifest CAS that landed but reported an error, the publisher pairs a freshly read
  manifest and version with its own last sequence number.  When another writer committed in
  between, the handle is behind the manifest it caches, yet the next sync finds nothing new, so the
  other writer's reference stays invisible, and the next push of this handle that claims to create
  that reference is accepted and replaces the other writer's acknowledged value.
\<close>

theorem landed_cas_hides_other_commit:
  "case racy_run of (ans, h, b) \<Rightarrow>
     list_all is_ok ans \<and> applied_seq h = 3 \<and> head_seq (h_manifest h) = 4 \<and>
     sync_locked_inner mem_ops wire_codecs blind False h b = (Ok h, b) \<and>
     lookup_oid (refs (h_refs h)) ''refs/heads/x'' = None \<and>
     lookup_oid (refs (fold_to wire_codecs blind b (h_manifest h) empty_snapshot 4)) ''refs/heads/x'' =
       Some (sample_oid (CHR ''6'')) \<and>
     (case process_batch mem_ops wire_codecs sample_git sample_cfg
             [sample_request ''refs/heads/x'' (CHR ''7'')] h b of
        None \<Rightarrow> False
      | Some (ans', h', b') \<Rightarrow>
          ans' = [Ok \<lparr>res_seq = 5, per_ref = [(''refs/heads/x'', Ok ())]\<rparr>] \<and>
          lookup_oid (refs (fold_to wire_codecs blind b' (h_manifest h') empty_snapshot 5)) ''refs/heads/x'' =
            Some (sample_oid (CHR ''7'')))"
  by code_simp

text \<open>The CAS took effect, its answer and the HEAD request after the re-read are lost.\<close>

definition headless_ops :: "(wire mem_store, wire) store_ops" where
  "headless_ops = mem_ops\<lparr>os_put := (\<lambda>b k body mode.
     if k = MANIFEST then (Err (Retryable ''timeout''), snd (mem_put b k body mode))
     else mem_put b k body mode),
     os_head := (\<lambda>b k. if k = MANIFEST then (Err (Retryable ''timeout''), b) else mem_head b k)\<rparr>"

text \<open>
  A committed push can be answered with an error: when the version of a landed manifest cannot
  be read, the publisher leaves without answering, and the waiter sees a dropped response although
  the entry is in the log.
\<close>

theorem committed_push_unanswered:
  "(case process_batch headless_ops wire_codecs sample_git sample_cfg
          [sample_request ''refs/heads/c'' (CHR ''3'')] (sample_synced 2 sample_refs2) sample_bucket of
     None \<Rightarrow> False
   | Some (ans, h, b) \<Rightarrow>
       ans = [Err (WCorrupt ''publisher dropped response'')] \<and>
       lookup_oid (refs (fold_to wire_codecs blind b
         (case bucket_manifest wire_codecs b of Inr (Some m) \<Rightarrow> m | _ \<Rightarrow> sample_manifest 0)
         empty_snapshot 3)) ''refs/heads/c'' = Some (sample_oid (CHR ''3'')))"
  by code_simp

end
