(* ===== verification/Checkpoint.thy ===== *)
theory Checkpoint
  imports Wal_Commit
begin

text \<open>
  Checkpoints, \<^verbatim>\<open>crates/walgit-wal/src/checkpoint.rs\<close>: when one is due, how it is written, and what
  it does to the history that the manifest describes.
\<close>

section \<open>When a checkpoint is due\<close>

datatype checkpoint_trigger = TEntries | TAge | TTailBytes

fun trigger_display :: "checkpoint_trigger \<Rightarrow> string" where
  "trigger_display TEntries = ''entries''"
| "trigger_display TAge = ''age''"
| "trigger_display TTailBytes = ''tail-bytes''"

record wal_config =
  snapshot_every_entries :: nat
  checkpoint_tail_bytes :: nat
  checkpoint_interval :: int

definition tail_size :: "manifest \<Rightarrow> nat" where
  "tail_size m = sum_list (map seg_size (filter (\<lambda>sg. last_seq sg > checkpoint_seq m) (log_segments m)))"

text \<open>The age of the state: \<open>duration_since\<close> gives zero for a time in the future.\<close>

definition due_by_age :: "system_time \<Rightarrow> int \<Rightarrow> manifest \<Rightarrow> bool" where
  "due_by_age now interval m =
     (case (case checkpoint m of
              Some c \<Rightarrow> map_option to_system (cp_created_at c)
            | None \<Rightarrow> map_option to_system (updated_at m)) of
        None \<Rightarrow> False
      | Some t \<Rightarrow> max 0 (now - t) \<ge> interval)"

definition checkpoint_due :: "system_time \<Rightarrow> wal_config \<Rightarrow> manifest \<Rightarrow> checkpoint_trigger option" where
  "checkpoint_due now cfg m =
     (let head = head_seq m; cp = checkpoint_seq m
      in if head = 0 then None
         else if cp \<ge> head then None
         else if snapshot_every_entries cfg > 0 \<and> head - cp \<ge> snapshot_every_entries cfg then Some TEntries
         else if checkpoint_tail_bytes cfg > 0 \<and> tail_size m > checkpoint_tail_bytes cfg then Some TTailBytes
         else if checkpoint_interval cfg \<noteq> 0 \<and> due_by_age now (checkpoint_interval cfg) m then Some TAge
         else None)"

section \<open>Writing a checkpoint\<close>

text \<open>The first value that is there: \<open>or_else\<close>.\<close>

definition or_else :: "'b option \<Rightarrow> 'b option \<Rightarrow> 'b option" where
  "or_else a b = (case a of None \<Rightarrow> b | Some x \<Rightarrow> Some x)"

definition make_checkpoint_ref :: "repo_handle \<Rightarrow> manifest \<Rightarrow> nat \<Rightarrow> timestamp \<Rightarrow> checkpoint_ref" where
  "make_checkpoint_ref h m n now =
     (let prev = checkpoint m;
          field = (\<lambda>f. case prev of None \<Rightarrow> None | Some c \<Rightarrow> f c)
      in \<lparr>cp_seq = n, cp_key = checkpoint_key n, cp_created_at = Some now,
          first_state_at =
            or_else (field first_state_at)
              (or_else (map_option from_system (first_entry_time h))
                (or_else (map_option from_system (first_seq_published_at h)) (field cp_created_at))),
          as_of =
            or_else (map_option from_system (last_entry_time h)) (or_else (field as_of) (Some now))\<rparr>)"

definition make_checkpoint_msg :: "manifest \<Rightarrow> nat \<Rightarrow> nat \<Rightarrow> publish_cfg \<Rightarrow> checkpoint_msg" where
  "make_checkpoint_msg m n cnt cfg =
     \<lparr>ck_seq = n, ck_object_format = object_format m, ck_packs = packs m,
      refs_key = checkpoint_refs_key n, ref_count = cnt, bundle_key = [],
      ck_created_at = Some (cfg_now cfg), ck_writer = cfg_writer cfg\<rparr>"

text \<open>The manifest after the checkpoint: the log before it is folded away.\<close>

definition fold_manifest :: "manifest \<Rightarrow> checkpoint_ref \<Rightarrow> publish_cfg \<Rightarrow> manifest" where
  "fold_manifest m cp cfg =
     m\<lparr>checkpoint := Some cp, min_seq := cp_seq cp + 1,
       log_segments := filter (\<lambda>sg. last_seq sg > cp_seq cp) (log_segments m),
       updated_at := Some (cfg_now cfg), writer := cfg_writer cfg, revision := revision m + 1\<rparr>"

text \<open>Round 2: the CAS loop.\<close>

function checkpoint_loop ::
  "('s, 'a) store_ops \<Rightarrow> 'a codecs \<Rightarrow> local_git \<Rightarrow> publish_cfg \<Rightarrow> nat \<Rightarrow> checkpoint_ref
     \<Rightarrow> repo_handle \<Rightarrow> 's \<Rightarrow> (wal_error, checkpoint_ref) result \<times> repo_handle \<times> 's" where
  "checkpoint_loop ops cs lg cfg attempts cp h s =
     (let m = h_manifest h; updated = fold_manifest m cp cfg
      in if (case checkpoint m of Some c \<Rightarrow> cp_seq c \<ge> head_seq m | None \<Rightarrow> False)
         then (Ok (the (checkpoint m)), h, s)
         else case put_bytes ops s MANIFEST (encode (c_manifest cs) updated) (cas_manifest_mode (h_version h)) of
                (Inr meta, s1) \<Rightarrow> (Ok cp, advertise h updated (meta_version meta) (head_seq updated), s1)
              | (Inl e, s1) \<Rightarrow>
                  (if is_precondition_failed e
                   then (if attempts + 1 \<ge> cas_max_retries cfg then (Err (WRetry (attempts + 1)), h, s1)
                         else case sync_locked_inner ops cs (lg_peel lg) False h s1 of
                                (Inl e', s2) \<Rightarrow> (Err e', h, s2)
                              | (Inr h', s2) \<Rightarrow> checkpoint_loop ops cs lg cfg (attempts + 1) cp h' s2)
                   else (Err (WStore e), h, s1)))"
  by pat_completeness auto
termination
  by (relation "measure (\<lambda>(_, _, _, cfg, attempts, _). cas_max_retries cfg - attempts)") auto

declare checkpoint_loop.simps [simp del]

definition write_checkpoint_inner ::
  "('s, 'a) store_ops \<Rightarrow> 'a codecs \<Rightarrow> local_git \<Rightarrow> publish_cfg \<Rightarrow> repo_handle \<Rightarrow> 's
     \<Rightarrow> (wal_error, checkpoint_ref) result \<times> repo_handle \<times> 's" where
  "write_checkpoint_inner ops cs lg cfg h0 s0 =
     (case sync_locked_inner ops cs (lg_peel lg) False h0 s0 of
        (Inl e, s) \<Rightarrow> (Err e, h0, s)
      | (Inr h1, s1) \<Rightarrow>
          (let proof_ok = (\<lambda>h. applied_seq h = head_seq (h_manifest h) \<and> refs_verified h)
           in case (if proof_ok h1 then (Ok h1, s1)
                    else sync_locked_inner ops cs (lg_peel lg) True h1 s1) of
                (Inl e, s) \<Rightarrow> (Err e, h1, s)
              | (Inr h, s) \<Rightarrow>
                  (let m = h_manifest h; n = head_seq m
                   in if \<not> proof_ok h
                      then (Err (WCorrupt ''refusing to checkpoint unverified refs''), h, s)
                      else if (case checkpoint m of Some c \<Rightarrow> cp_seq c = n | None \<Rightarrow> False)
                      then (Ok (the (checkpoint m)), h, s)
                      else if n = 0 then (Err (WCorrupt ''cannot checkpoint empty repo''), h, s)
                      else
                        (let snap = snapshot_to_proto (h_refs h);
                             msg = make_checkpoint_msg m n (length (snap_refs snap)) cfg;
                             (r1, s2) = put_bytes ops s (checkpoint_refs_key n) (encode (c_snapshot cs) snap) Overwrite;
                             (r2, s3) = put_bytes ops s2 (checkpoint_key n) (encode (c_checkpoint cs) msg) Overwrite
                         in case (r1, r2) of
                              (Inl e, _) \<Rightarrow> (Err (WStore e), h, s3)
                            | (_, Inl e) \<Rightarrow> (Err (WStore e), h, s3)
                            | (Inr _, Inr _) \<Rightarrow>
                                checkpoint_loop ops cs lg cfg 0 (make_checkpoint_ref h m n (cfg_now cfg)) h s3))))"

section \<open>What a checkpoint keeps\<close>

text \<open>References whose peeled ids are filled in: what replay and load produce.\<close>

definition peel_filled :: "(string \<Rightarrow> string) \<Rightarrow> ref_snapshot_data \<Rightarrow> bool" where
  "peel_filled peel d \<longleftrightarrow> (\<forall>r \<in> set (refs d). fill_peel peel r = r)"

lemma fill_peel_idem: "fill_peel peel (fill_peel peel r) = fill_peel peel r"
  by (simp add: fill_peel_def)

lemma peel_filled_load: "peel_filled peel (load_local peel snap cur)"
  by (auto simp: peel_filled_def load_local_def fill_peel_idem)

lemma peel_filled_patch_update:
  assumes "peel_filled peel d"
  shows "peel_filled peel (patch_update peel d u)"
proof -
  have n: "fill_peel peel \<lparr>name = upd_name u, oid = new_oid u, peeled = new_peeled_of peel u\<rparr> =
      \<lparr>name = upd_name u, oid = new_oid u, peeled = new_peeled_of peel u\<rparr>"
    by (auto simp: fill_peel_def new_peeled_of_def)
  have "set (refs (patch_update peel d u)) \<subseteq>
      insert \<lparr>name = upd_name u, oid = new_oid u, peeled = new_peeled_of peel u\<rparr> (set (refs d))"
    by (auto simp: patch_update_def Let_def dest: in_set_takeD in_set_dropD
        set_update_subset_insert [THEN subsetD] split: sum.splits bool.splits if_splits)
  then show ?thesis using assms n by (auto simp: peel_filled_def)
qed

lemma peel_filled_patch: "peel_filled peel d \<Longrightarrow> peel_filled peel (patch_snapshot peel d ts)"
proof -
  have "peel_filled peel d \<Longrightarrow> peel_filled peel (foldl (patch_update peel) d us)" for us
    by (induction us arbitrary: d) (auto intro: peel_filled_patch_update)
  then show "peel_filled peel d \<Longrightarrow> peel_filled peel (patch_snapshot peel d ts)"
    by (simp add: patch_snapshot_def)
qed

lemma peel_filled_fold: "peel_filled peel (fold_to cs peel b m cur n)"
  unfolding fold_to_def by (rule peel_filled_patch [OF peel_filled_load])

lemma load_local_self:
  assumes "snapshot_ok d" "peel_filled peel d"
  shows "load_local peel d d = d"
proof -
  have "sort_key name (refs d) = refs d"
    using assms(1) by (simp add: snapshot_ok_def strict_sorted_iff sort_key_id_if_sorted)
  moreover have "map (fill_peel peel) (refs d) = refs d"
    using assms(2) by (simp add: peel_filled_def map_idI)
  ultimately show ?thesis by (simp add: load_local_def)
qed

lemma overlapping_folded:
  assumes "cp_seq cp \<le> a"
  shows "overlapping (fold_manifest m cp cfg) a n = overlapping m a n"
  using assms by (auto simp: overlapping_def fold_manifest_def filter_filter intro!: filter_cong)

lemma entries_between_folded:
  "cp_seq cp \<le> a \<Longrightarrow> entries_between cs b (fold_manifest m cp cfg) a n = entries_between cs b m a n"
  by (simp add: entries_between_def overlapping_folded)

section \<open>Properties\<close>

text \<open>
  C37. Folding the log keeps the history.  When the checkpoint is not behind the one it replaces and
  its snapshot holds the references at its sequence number, the manifest that points at it
  describes, at every later sequence number, the same references as before: the entries it trims
  are exactly those the snapshot contains.
\<close>

theorem checkpoint_keeps_history:
  assumes "seg_wf cs b m" "base_ok cs b m"
    and "checkpoint_seq m \<le> cp_seq cp" "cp_seq cp \<le> n"
    and "d = fold_to cs peel b m cur (cp_seq cp)"
    and "base_snapshot cs b (fold_manifest m cp cfg) = Some d"
  shows "fold_to cs peel b (fold_manifest m cp cfg) d n = fold_to cs peel b m cur n"
proof -
  have cp: "checkpoint_seq (fold_manifest m cp cfg) = cp_seq cp"
    by (simp add: fold_manifest_def checkpoint_seq_def)
  have "load_local peel d d = d"
    using load_local_self fold_to_ok [OF assms(2)] peel_filled_fold assms(5) by blast
  then have "fold_to cs peel b (fold_manifest m cp cfg) d n =
      patch_snapshot peel d (entry_txns (entries_between cs b m (cp_seq cp) n))"
    using assms(6) by (simp add: fold_to_def [of cs peel b "fold_manifest m cp cfg"] cp entries_between_folded)
  then show ?thesis using fold_to_split [OF assms(1,3,4)] assms(5) by simp
qed

text \<open>A bucket with one push folded: the checkpoint objects of sequence number one are there.\<close>

definition cp_ref :: "nat \<Rightarrow> checkpoint_ref" where
  "cp_ref n = \<lparr>cp_seq = n, cp_key = checkpoint_key n, cp_created_at = None, first_state_at = None, as_of = None\<rparr>"

definition cp_bucket :: "wire mem_store" where
  "cp_bucket = sample_bucket\<lparr>objects := bt_insert (checkpoint_refs_key 1)
     (4, [WSnapshot (snapshot_to_proto sample_refs1)]) (objects sample_bucket), counter := 4\<rparr>"

theorem checkpoint_keeps_history_witness:
  "fold_to wire_codecs blind cp_bucket (fold_manifest (sample_manifest 2) (cp_ref 1) sample_cfg) sample_refs1 2 =
     fold_to wire_codecs blind cp_bucket (sample_manifest 2) empty_snapshot 2"
proof -
  have "seg_wf wire_codecs cp_bucket (sample_manifest 2)" "base_ok wire_codecs cp_bucket (sample_manifest 2)"
    "checkpoint_seq (sample_manifest 2) \<le> cp_seq (cp_ref 1)" "cp_seq (cp_ref 1) \<le> 2"
    "sample_refs1 = fold_to wire_codecs blind cp_bucket (sample_manifest 2) empty_snapshot (cp_seq (cp_ref 1))"
    "base_snapshot wire_codecs cp_bucket (fold_manifest (sample_manifest 2) (cp_ref 1) sample_cfg) = Some sample_refs1"
    by code_simp+
  then show ?thesis by (rule checkpoint_keeps_history)
qed

text \<open>Three writes: the snapshot, the checkpoint, the manifest.\<close>

lemma checkpoint_keys_apart [simp]:
  "checkpoint_refs_key n \<noteq> MANIFEST" "MANIFEST \<noteq> checkpoint_refs_key n"
  "checkpoint_key n \<noteq> MANIFEST" "MANIFEST \<noteq> checkpoint_key n"
  "checkpoint_key n \<noteq> checkpoint_refs_key n" "checkpoint_refs_key n \<noteq> checkpoint_key n"
  by (simp_all add: checkpoint_refs_key_def checkpoint_key_def MANIFEST_def CHECKPOINTS_DIR_def)

lemma put_overwrite_mem:
  assumes "mem_inv b"
  shows "\<exists>b'. put_bytes mem_ops b k x Overwrite =
      (Ok \<lparr>meta_key = k, meta_size = length x, meta_version = Suc (counter b)\<rparr>, b') \<and>
    mem_inv b' \<and> mem_view b' = (mem_view b)(k \<mapsto> (Suc (counter b), x))"
proof -
  obtain r b' where p: "mem_put b k (Bytes x) Overwrite = (r, b')" by fastforce
  have bb: "body_bytes (Bytes x) = Ok x" by simp
  from p bb show ?thesis
    using mem_put_evolves [OF assms p] mem_inv_ok [OF assms] p
    by (cases rule: mem_put_cases, intro exI [of _ b'])
      (auto simp: put_bytes_def mem_view_def fun_eq_iff)
qed

lemma put_update_mem:
  assumes "mem_inv b" "mem_view b k = Some (v, x0)"
  shows "\<exists>b'. put_bytes mem_ops b k x (Update v) =
      (Ok \<lparr>meta_key = k, meta_size = length x, meta_version = Suc (counter b)\<rparr>, b') \<and>
    mem_inv b' \<and> mem_view b' = (mem_view b)(k \<mapsto> (Suc (counter b), x))"
proof -
  obtain r b' where p: "mem_put b k (Bytes x) (Update v) = (r, b')" by fastforce
  have bb: "body_bytes (Bytes x) = Ok x" by simp
  from p bb show ?thesis
    using mem_put_evolves [OF assms(1) p] mem_inv_ok [OF assms(1)] assms(2) p
    by (cases rule: mem_put_cases, intro exI [of _ b'])
      (auto simp: put_bytes_def mem_view_def fun_eq_iff)
qed

lemma snapshot_proto_roundtrip: "snapshot_from_proto (snapshot_to_proto d) = d"
  by (cases d) (simp add: snapshot_from_proto_def snapshot_to_proto_def comp_def map_idI)

text \<open>
  On a bucket that nobody else writes, a verified handle at the head of a log with new entries
  writes a checkpoint successfully: the snapshot is written before the manifest points at it, the
  log up to the head is trimmed, and the references that the new manifest and the new bucket
  describe are those of the handle.
\<close>

theorem write_checkpoint_quiet:
  assumes inv: "mem_inv b" "codecs_ok cs" and h: "fresh_handle b h" "refs_verified h"
      "applied_seq h = head_seq (h_manifest h)" "head_seq (h_manifest h) \<noteq> 0"
      "checkpoint_seq (h_manifest h) < head_seq (h_manifest h)"
    and refs: "snapshot_ok (h_refs h)" "peel_filled (lg_peel lg) (h_refs h)"
  shows "\<exists>cp h' b'. write_checkpoint_inner mem_ops cs lg cfg h b = (Ok cp, h', b') \<and>
    cp_seq cp = head_seq (h_manifest h) \<and> h_manifest h' = fold_manifest (h_manifest h) cp cfg \<and>
    object_body b' MANIFEST = Some (encode (c_manifest cs) (h_manifest h')) \<and> fresh_handle b' h' \<and>
    fold_to cs (lg_peel lg) b' (h_manifest h') (h_refs h) (head_seq (h_manifest h)) = h_refs h"
proof -
  let ?m = "h_manifest h" and ?n = "head_seq (h_manifest h)"
  let ?snap = "snapshot_to_proto (h_refs h)" and ?cp = "make_checkpoint_ref h (h_manifest h) (head_seq (h_manifest h)) (cfg_now cfg)"
  let ?msg = "make_checkpoint_msg ?m ?n (length (snap_refs ?snap)) cfg"
  let ?m' = "fold_manifest ?m ?cp cfg"
  obtain v d0 where v: "mem_view b MANIFEST = Some (v, d0)" "h_version h = Some v"
    using h(1) by (auto simp: fresh_handle_def split: option.splits)
  have sync: "sync_locked_inner mem_ops cs (lg_peel lg) False h b = (Ok h, b)"
    using freshness_unchanged [OF h(1), of cs] h(2) by (simp add: sync_locked_inner_def Let_def)
  obtain b1 where b1: "put_bytes mem_ops b (checkpoint_refs_key ?n) (encode (c_snapshot cs) ?snap) Overwrite =
      (Ok \<lparr>meta_key = checkpoint_refs_key ?n, meta_size = length (encode (c_snapshot cs) ?snap),
        meta_version = Suc (counter b)\<rparr>, b1)" "mem_inv b1"
      "mem_view b1 = (mem_view b)(checkpoint_refs_key ?n \<mapsto> (Suc (counter b), encode (c_snapshot cs) ?snap))"
    using put_overwrite_mem [OF inv(1)] by blast
  obtain b2 where b2: "put_bytes mem_ops b1 (checkpoint_key ?n) (encode (c_checkpoint cs) ?msg) Overwrite =
      (Ok \<lparr>meta_key = checkpoint_key ?n, meta_size = length (encode (c_checkpoint cs) ?msg),
        meta_version = Suc (counter b1)\<rparr>, b2)" "mem_inv b2"
      "mem_view b2 = (mem_view b1)(checkpoint_key ?n \<mapsto> (Suc (counter b1), encode (c_checkpoint cs) ?msg))"
    using put_overwrite_mem [OF b1(2)] by blast
  have man: "mem_view b2 MANIFEST = Some (v, d0)" using v b1(3) b2(3) by simp
  obtain b3 where b3: "put_bytes mem_ops b2 MANIFEST (encode (c_manifest cs) ?m') (Update v) =
      (Ok \<lparr>meta_key = MANIFEST, meta_size = length (encode (c_manifest cs) ?m'),
        meta_version = Suc (counter b2)\<rparr>, b3)" "mem_inv b3"
      "mem_view b3 = (mem_view b2)(MANIFEST \<mapsto> (Suc (counter b2), encode (c_manifest cs) ?m'))"
    using put_update_mem [OF b2(2) man] by blast
  have cp: "\<not> (case checkpoint ?m of Some c \<Rightarrow> cp_seq c \<ge> ?n | None \<Rightarrow> False)"
      "\<not> (case checkpoint ?m of Some c \<Rightarrow> cp_seq c = ?n | None \<Rightarrow> False)"
    using h(5) by (auto simp: checkpoint_seq_def split: option.splits)
  have loop: "checkpoint_loop mem_ops cs lg cfg 0 ?cp h b2 =
      (Ok ?cp, advertise h ?m' (Suc (counter b2)) (head_seq ?m'), b3)"
    by (subst checkpoint_loop.simps) (use cp(1) b3(1) v(2) in \<open>simp add: Let_def cas_manifest_mode_def\<close>)
  have run: "write_checkpoint_inner mem_ops cs lg cfg h b =
      (Ok ?cp, advertise h ?m' (Suc (counter b2)) (head_seq ?m'), b3)"
    using sync h(2,3,4) cp(2) b1(1) b2(1) loop by (simp add: write_checkpoint_inner_def Let_def)
  have n: "cp_seq ?cp = ?n" by (simp add: make_checkpoint_ref_def Let_def)
  have base: "base_snapshot cs b3 ?m' = Some (h_refs h)"
    using inv(2) h(4) n
    by (simp add: base_snapshot_def checkpoint_seq_def fold_manifest_def object_body_def b3(3) b2(3) b1(3)
        codecs_ok_def codec_ok_def snapshot_proto_roundtrip)
  have "fold_to cs (lg_peel lg) b3 ?m' (h_refs h) ?n = h_refs h"
    using base load_local_self [OF refs] n
    by (simp add: fold_to_def entries_between_empty entry_txns_def patch_snapshot_def checkpoint_seq_def
        fold_manifest_def)
  then show ?thesis
    using run n b3(3)
    by (auto simp: advertise_def Let_def object_body_def fresh_handle_def)
qed

theorem write_checkpoint_quiet_witness:
  "\<exists>cp h' b'. write_checkpoint_inner mem_ops wire_codecs sample_git sample_cfg
     (sample_synced 2 sample_refs2) sample_bucket = (Ok cp, h', b') \<and> cp_seq cp = 2"
proof -
  have "mem_inv sample_bucket" "fresh_handle sample_bucket (sample_synced 2 sample_refs2)"
    "refs_verified (sample_synced 2 sample_refs2)"
    "applied_seq (sample_synced 2 sample_refs2) = head_seq (h_manifest (sample_synced 2 sample_refs2))"
    "head_seq (h_manifest (sample_synced 2 sample_refs2)) \<noteq> 0"
    "checkpoint_seq (h_manifest (sample_synced 2 sample_refs2)) < head_seq (h_manifest (sample_synced 2 sample_refs2))"
    "snapshot_ok (h_refs (sample_synced 2 sample_refs2))"
    "peel_filled (lg_peel sample_git) (h_refs (sample_synced 2 sample_refs2))"
    "head_seq (h_manifest (sample_synced 2 sample_refs2)) = 2"
    by code_simp+
  then show ?thesis using write_checkpoint_quiet [OF _ wire_codecs_ok, of sample_bucket] by metis
qed

section \<open>A checkpoint that loses history\<close>

text \<open>
  What other writers do while the checkpoint writer is between its two rounds: one pushes, writes a
  checkpoint of its own and pushes again.
\<close>

definition push_one :: "string \<Rightarrow> char \<Rightarrow> repo_handle \<Rightarrow> wire mem_store \<Rightarrow> repo_handle \<times> wire mem_store" where
  "push_one r c h b =
     (case process_batch mem_ops wire_codecs sample_git sample_cfg [sample_request r c] h b of
        Some (_, h', b') \<Rightarrow> (h', b') | None \<Rightarrow> (h, b))"

definition meanwhile :: "wire mem_store \<Rightarrow> wire mem_store" where
  "meanwhile b =
     (let (h1, b1) = push_one ''refs/heads/x'' (CHR ''6'') (sample_synced 2 sample_refs2) b;
          (_, h2, b2) = write_checkpoint_inner mem_ops wire_codecs sample_git sample_cfg h1 b1;
          (_, b3) = push_one ''refs/heads/y'' (CHR ''7'') h2 b2
      in b3)"

definition stalled_ops :: "(wire mem_store, wire) store_ops" where
  "stalled_ops = mem_ops\<lparr>os_put := (\<lambda>b k body mode.
     if k = MANIFEST \<and> map_option fst (mem_view b MANIFEST) = Some 3
     then mem_put (meanwhile b) k body mode else mem_put b k body mode)\<rparr>"

text \<open>
  A checkpoint writer that loses the manifest CAS and retries can replace a newer checkpoint by
  its older one: the log segments between the two were already trimmed, so acknowledged pushes
  disappear from the history that the manifest describes, while every replay check still passes.
\<close>

theorem stale_checkpoint_loses_entries:
  "case write_checkpoint_inner stalled_ops wire_codecs sample_git sample_cfg
          (sample_synced 2 sample_refs2) sample_bucket of (r, h, b) \<Rightarrow>
     is_ok r \<and> checkpoint_seq (h_manifest h) = 2 \<and> head_seq (h_manifest h) = 4 \<and>
     ensure_replayable (h_manifest h) 2 4 = Ok () \<and>
     (case sync_locked_inner mem_ops wire_codecs blind False sample_handle b of
        (Inr g, _) \<Rightarrow> lookup_oid (refs (h_refs g)) ''refs/heads/x'' = None \<and>
                   lookup_oid (refs (h_refs g)) ''refs/heads/y'' = Some (sample_oid (CHR ''7''))
      | (Inl _, _) \<Rightarrow> False) \<and>
     (case sync_locked_inner mem_ops wire_codecs blind False sample_handle (meanwhile sample_bucket) of
        (Inr g, _) \<Rightarrow> lookup_oid (refs (h_refs g)) ''refs/heads/x'' = Some (sample_oid (CHR ''6''))
      | (Inl _, _) \<Rightarrow> False)"
  by code_simp

end
