(* ===== verification/Wal_Protocol.thy ===== *)
theory Wal_Protocol
  imports Wal_Commit
begin

text \<open>
  The publish protocol with any number of writers on one bucket.  A writer is one attempt of a
  publisher of \<^verbatim>\<open>publish.rs\<close> (push, compaction or settings): it reads the manifest, claims a log slot
  with the small steps of \<^const>\<open>claim_step\<close>, and commits with the manifest CAS.  Every step is one
  store operation of some writer; answers may be lost after the operation took effect, a CAS may be
  refused or fail without effect, and a writer may crash anywhere.  The manifest and its version are
  read together (the code's exception to this is \<open>Wal_Commit.landed_cas_hides_other_commit\<close>).
  Checkpoints are not part of this relation.

  What is shown: the committed log only grows, each commit extends exactly the manifest its writer
  verified against, no writer ever overwrites or deletes a committed segment, and every
  acknowledged entry stays readable.
\<close>

section \<open>Publishers\<close>

text \<open>
  What the three publishers share: how the entries of a segment are built from its first sequence
  number and how the manifest is extended.
\<close>

locale publisher =
  fixes build :: "nat \<Rightarrow> log_entry list"
    and upd :: "manifest \<Rightarrow> log_slot \<Rightarrow> nat \<Rightarrow> manifest"
  assumes build_seq: "map seq (build n) = [n..<n + length (build 0)]"
    and build_some: "build n \<noteq> []"
    and upd_head: "head_seq (upd m slot sz) = slot_first_seq slot + length (build 0) - 1"
    and upd_log: "log_segments (upd m slot sz) =
      log_segments (commit_segment m slot (slot_first_seq slot + length (build 0) - 1) sz now w)"
begin

lemma build_length: "length (build n) = length (build 0)"
proof -
  have "length (map seq (build n)) = length [n..<n + length (build 0)]" by (simp only: build_seq)
  then show ?thesis by simp
qed

lemma build_pos: "0 < length (build 0)"
  using build_some by simp

text \<open>The last sequence number of a segment that starts at \<open>n\<close>.\<close>

lemma last_ge: "n \<le> n + length (build 0) - 1"
  using build_pos by linarith

lemma upd_head_ge: "slot_first_seq slot \<le> head_seq (upd m slot sz)"
  by (metis upd_head last_ge)

text \<open>The new segment comes after all others when they start before it.\<close>

lemma upd_log_append:
  assumes "sorted (map first_seq (log_segments m))" "\<forall>sg \<in> set (log_segments m). first_seq sg \<le> slot_first_seq slot"
  shows "log_segments (upd m slot sz) = log_segments m @
    [\<lparr>seg_key = slot_key slot, first_seq = slot_first_seq slot,
      last_seq = slot_first_seq slot + length (build 0) - 1, seg_size = sz, sealed = True\<rparr>]"
proof -
  have "sorted (map first_seq (log_segments m @
    [\<lparr>seg_key = slot_key slot, first_seq = slot_first_seq slot,
      last_seq = slot_first_seq slot + length (build 0) - 1, seg_size = sz, sealed = True\<rparr>]))"
    using assms by (simp add: sorted_append)
  then show ?thesis
    unfolding upd_log [of m slot sz undefined undefined] commit_segment_def by (simp add: sort_key_id)
qed

end

lemma build_entries_seqs: "map seq (build_entries w now n rqs) = [n..<n + length rqs]"
  by (rule nth_equalityI) (simp_all add: build_entries_seq)

interpretation push: publisher "\<lambda>n. build_entries w now n (rq # rqs)"
  "\<lambda>m slot sz. push_manifest m slot (build_entries w now (slot_first_seq slot) (rq # rqs)) sz now w"
  for w now rq rqs
  by unfold_locales (unfold build_entries_seqs, simp_all add: push_manifest_def commit_segment_def)

interpretation compaction: publisher "\<lambda>n. [compact_entry pr sups cfg n]"
  "\<lambda>m slot sz. compact_manifest m slot pr sups sz cfg" for pr sups cfg
  by unfold_locales (simp_all add: compact_entry_def build_log_entry_at_def compact_manifest_def
      commit_segment_def Let_def)

interpretation settings_pub: publisher "\<lambda>n. [settings_entry st cfg n]"
  "\<lambda>m slot sz. (commit_segment m slot (slot_first_seq slot) sz (cfg_now cfg) (cfg_writer cfg))
     \<lparr>settings := Some st\<rparr>" for st cfg
  by unfold_locales (simp_all add: settings_entry_def build_log_entry_at_def commit_segment_def)

section \<open>Writers and steps\<close>

record job =
  jb_build :: "nat \<Rightarrow> log_entry list"
  jb_update :: "manifest \<Rightarrow> log_slot \<Rightarrow> nat \<Rightarrow> manifest"

definition job_ok :: "job \<Rightarrow> bool" where
  "job_ok j \<longleftrightarrow> publisher (jb_build j) (jb_update j)"

text \<open>
  Where an attempt stands: claiming, with its slot before the CAS, not knowing whether the CAS took
  effect, about to drop its slot, or sweeping the orphans it burned.  The first three carry the
  manifest the attempt is based on.
\<close>

datatype writer_pc =
    WIdle
  | WClaim manifest version claim_state job
  | WSlot manifest version log_slot job
  | WAmbiguous manifest log_slot job
  | WDrop manifest log_slot job
  | WSweep "(string \<times> version) list"

record 'a wal_state =
  wb :: "'a mem_store"
  wr :: "nat \<Rightarrow> writer_pc"
  acks :: "(nat \<times> log_entry list) set"

definition goto :: "nat \<Rightarrow> writer_pc \<Rightarrow> 'a mem_store \<Rightarrow> 'a wal_state \<Rightarrow> 'a wal_state" where
  "goto i w b S = S\<lparr>wb := b, wr := (wr S)(i := w)\<rparr>"

definition ack :: "log_slot \<Rightarrow> job \<Rightarrow> 'a wal_state \<Rightarrow> 'a wal_state" where
  "ack slot j S = S\<lparr>acks := insert (slot_first_seq slot, jb_build j (slot_first_seq slot)) (acks S)\<rparr>"

definition job_enc :: "'a codecs \<Rightarrow> job \<Rightarrow> nat \<Rightarrow> 'a list" where
  "job_enc cs j n = encode_segment cs (jb_build j n)"

definition manifest_cas ::
  "'a codecs \<Rightarrow> manifest \<Rightarrow> version \<Rightarrow> log_slot \<Rightarrow> job \<Rightarrow> 'a mem_store
     \<Rightarrow> (store_error, object_meta) result \<times> 'a mem_store" where
  "manifest_cas cs m v slot j b =
     put_bytes mem_ops b MANIFEST
       (encode (c_manifest cs) (jb_update j m slot (length (job_enc cs j (slot_first_seq slot)))))
       (cas_manifest_mode (Some v))"

inductive wal_step :: "'a codecs \<Rightarrow> 'a wal_state \<Rightarrow> 'a wal_state \<Rightarrow> bool" for cs where
  start: "wr S i = WIdle \<Longrightarrow> job_ok j \<Longrightarrow>
    freshness_check mem_ops cs None (wb S) = (Ok (Changed v m), b') \<Longrightarrow>
    head_seq m + MAX_BURN + length (jb_build j 0) \<le> u64_max \<Longrightarrow>
    wal_step cs S (goto i (WClaim m v (claim_init (head_seq m)) j) (wb S) S)"
| claim_go: "wr S i = WClaim m v st j \<Longrightarrow>
    claim_step mem_ops cs (job_enc cs j) st (wb S) = (ClaimGo st', b') \<Longrightarrow>
    wal_step cs S (goto i (WClaim m v st' j) b' S)"
| claimed: "wr S i = WClaim m v st j \<Longrightarrow>
    claim_step mem_ops cs (job_enc cs j) st (wb S) = (ClaimDone (Ok (Claimed slot)), b') \<Longrightarrow>
    wal_step cs S (goto i (WSlot m v slot j) b' S)"
| claim_lost: "wr S i = WClaim m v st j \<Longrightarrow>
    claim_step mem_ops cs (job_enc cs j) st (wb S) = (r, b') \<Longrightarrow>
    wal_step cs S (goto i WIdle b' S)"
| commit: "wr S i = WSlot m v slot j \<Longrightarrow> manifest_cas cs m v slot j (wb S) = (Ok meta, b') \<Longrightarrow>
    wal_step cs S (ack slot j (goto i (WSweep (burned slot)) b' S))"
| commit_lost: "wr S i = WSlot m v slot j \<Longrightarrow> manifest_cas cs m v slot j (wb S) = (r, b') \<Longrightarrow>
    wal_step cs S (goto i (WAmbiguous m slot j) b' S)"
| commit_failed: "wr S i = WSlot m v slot j \<Longrightarrow>
    wal_step cs S (goto i (WAmbiguous m slot j) (wb S) S)"
| refused: "wr S i = WSlot m v slot j \<Longrightarrow>
    wal_step cs S (goto i (WDrop m slot j) (wb S) S)"
| landed: "wr S i = WAmbiguous m slot j \<Longrightarrow> cas_landed mem_ops cs slot (wb S) = (Ok (Some fresh), b') \<Longrightarrow>
    wal_step cs S (ack slot j (goto i (WSweep (burned slot)) (wb S) S))"
| drop: "wr S i = WDrop m slot j \<Longrightarrow>
    wal_step cs S (goto i WIdle (drop_own_slot mem_ops slot (wb S)) S)"
| sweep: "wr S i = WSweep ((k, vr) # todo) \<Longrightarrow>
    wal_step cs S (goto i (WSweep todo) (snd (os_delete mem_ops (wb S) k (Some vr))) S)"
| crash: "wal_step cs S (goto i WIdle (wb S) S)"

text \<open>The end of an attempt without a commit (contention, an error, a CAS that did not land) is a
  step to \<open>WIdle\<close> like a crash.\<close>

definition current :: "'a codecs \<Rightarrow> 'a mem_store \<Rightarrow> version \<Rightarrow> manifest \<Rightarrow> bool" where
  "current cs b v m \<longleftrightarrow> mem_view b MANIFEST = Some (v, encode (c_manifest cs) m)"

text \<open>A repository just created: a manifest with an empty log; anything may lie at the log's keys.\<close>

definition wal_init :: "'a codecs \<Rightarrow> 'a wal_state \<Rightarrow> bool" where
  "wal_init cs S \<longleftrightarrow> mem_inv (wb S) \<and> wr S = (\<lambda>_. WIdle) \<and> acks S = {} \<and>
     (\<exists>v m. current cs (wb S) v m \<and> log_segments m = [])"

section \<open>The invariant\<close>

definition listed :: "manifest \<Rightarrow> string set" where
  "listed m = seg_key ` set (log_segments m)"

text \<open>A committed segment: in range, under its own key, with the entries of its range.\<close>

definition segment_ok :: "'a codecs \<Rightarrow> 'a mem_store \<Rightarrow> manifest \<Rightarrow> log_segment_ref \<Rightarrow> bool" where
  "segment_ok cs b m sg \<longleftrightarrow>
     seg_key sg = log_segment_key (first_seq sg) \<and> first_seq sg \<le> last_seq sg \<and>
     last_seq sg \<le> head_seq m \<and> last_seq sg \<le> u64_max \<and>
     (\<exists>es. object_body b (seg_key sg) = Some (encode_segment cs es) \<and>
       map seq es = [first_seq sg..<Suc (last_seq sg)])"

definition log_ok :: "'a codecs \<Rightarrow> 'a mem_store \<Rightarrow> manifest \<Rightarrow> bool" where
  "log_ok cs b m \<longleftrightarrow> sorted_wrt (\<lambda>x y. last_seq x < first_seq y) (log_segments m) \<and>
     (\<forall>sg \<in> set (log_segments m). segment_ok cs b m sg)"

definition acked_ok :: "'a codecs \<Rightarrow> 'a mem_store \<Rightarrow> manifest \<Rightarrow> nat \<times> log_entry list \<Rightarrow> bool" where
  "acked_ok cs b m a \<longleftrightarrow>
     (\<exists>sg \<in> set (log_segments m). first_seq sg = fst a \<and>
        object_body b (seg_key sg) = Some (encode_segment cs (snd a)))"

text \<open>What a writer read: a version names one content.\<close>

definition read_ok :: "'a codecs \<Rightarrow> 'a mem_store \<Rightarrow> manifest \<Rightarrow> version \<Rightarrow> bool" where
  "read_ok cs b m0 v \<longleftrightarrow> v \<le> counter b \<and>
     (\<forall>d. mem_view b MANIFEST = Some (v, d) \<longrightarrow> d = encode (c_manifest cs) m0)"

definition job_fits :: "manifest \<Rightarrow> job \<Rightarrow> bool" where
  "job_fits m0 j \<longleftrightarrow> job_ok j \<and> head_seq m0 + MAX_BURN + length (jb_build j 0) \<le> u64_max"

definition burned_between :: "nat \<Rightarrow> nat \<Rightarrow> (string \<times> version) list \<Rightarrow> bool" where
  "burned_between lo hi bs \<longleftrightarrow> (\<forall>k \<in> fst ` set bs. \<exists>n. lo < n \<and> n < hi \<and> k = log_segment_key n)"

definition claim_ok :: "manifest \<Rightarrow> claim_state \<Rightarrow> bool" where
  "claim_ok m0 st \<longleftrightarrow> cl_seq st = head_seq m0 + 1 + length (cl_burned st) \<and>
     length (cl_burned st) < MAX_BURN \<and> burned_between (head_seq m0) (cl_seq st) (cl_burned st)"

definition slot_ok :: "manifest \<Rightarrow> log_slot \<Rightarrow> bool" where
  "slot_ok m0 slot \<longleftrightarrow> slot_key slot = log_segment_key (slot_first_seq slot) \<and>
     head_seq m0 < slot_first_seq slot \<and> slot_first_seq slot \<le> head_seq m0 + MAX_BURN \<and>
     burned_between (head_seq m0) (slot_first_seq slot) (burned slot)"

text \<open>The writer's segment is in place, or its number is behind the head and was not committed.\<close>

definition slot_there :: "'a codecs \<Rightarrow> 'a mem_store \<Rightarrow> manifest \<Rightarrow> log_slot \<Rightarrow> job \<Rightarrow> bool" where
  "slot_there cs b m slot j \<longleftrightarrow>
     mem_view b (slot_key slot) = Some (slot_version slot, job_enc cs j (slot_first_seq slot)) \<or>
     slot_first_seq slot \<le> head_seq m \<and> slot_key slot \<notin> listed m"

definition swept_ok :: "manifest \<Rightarrow> (string \<times> version) list \<Rightarrow> bool" where
  "swept_ok m todo \<longleftrightarrow>
     (\<forall>k \<in> fst ` set todo. k \<notin> listed m \<and> (\<exists>n. n \<le> head_seq m \<and> n \<le> u64_max \<and> k = log_segment_key n))"

fun writer_ok :: "'a codecs \<Rightarrow> 'a mem_store \<Rightarrow> manifest \<Rightarrow> writer_pc \<Rightarrow> bool" where
  "writer_ok cs b m WIdle = True"
| "writer_ok cs b m (WClaim m0 v st j) = (read_ok cs b m0 v \<and> job_fits m0 j \<and> claim_ok m0 st)"
| "writer_ok cs b m (WSlot m0 v slot j) =
     (read_ok cs b m0 v \<and> job_fits m0 j \<and> slot_ok m0 slot \<and> slot_there cs b m slot j \<and>
      slot_key slot \<notin> listed m)"
| "writer_ok cs b m (WAmbiguous m0 slot j) =
     (job_fits m0 j \<and> slot_ok m0 slot \<and> slot_there cs b m slot j \<and>
      (slot_key slot \<in> listed m \<longrightarrow> fst ` set (burned slot) \<inter> listed m = {}))"
| "writer_ok cs b m (WDrop m0 slot j) =
     (job_fits m0 j \<and> slot_ok m0 slot \<and> slot_there cs b m slot j \<and> slot_key slot \<notin> listed m)"
| "writer_ok cs b m (WSweep todo) = swept_ok m todo"

fun slot_of :: "writer_pc \<Rightarrow> log_slot option" where
  "slot_of (WSlot _ _ slot _) = Some slot"
| "slot_of (WAmbiguous _ slot _) = Some slot"
| "slot_of (WDrop _ slot _) = Some slot"
| "slot_of _ = None"

definition slots_ok :: "'a mem_store \<Rightarrow> (nat \<Rightarrow> writer_pc) \<Rightarrow> bool" where
  "slots_ok b ws \<longleftrightarrow>
     (\<forall>i s. slot_of (ws i) = Some s \<longrightarrow> slot_version s \<le> counter b) \<and>
     (\<forall>i j s t. i \<noteq> j \<longrightarrow> slot_of (ws i) = Some s \<longrightarrow> slot_of (ws j) = Some t \<longrightarrow>
        slot_version s \<noteq> slot_version t)"

definition wal_inv_at :: "'a codecs \<Rightarrow> version \<Rightarrow> manifest \<Rightarrow> 'a wal_state \<Rightarrow> bool" where
  "wal_inv_at cs v m S \<longleftrightarrow> mem_inv (wb S) \<and> current cs (wb S) v m \<and> log_ok cs (wb S) m \<and>
     (\<forall>a \<in> acks S. acked_ok cs (wb S) m a) \<and> (\<forall>i. writer_ok cs (wb S) m (wr S i)) \<and>
     slots_ok (wb S) (wr S)"

definition wal_inv :: "'a codecs \<Rightarrow> 'a wal_state \<Rightarrow> bool" where
  "wal_inv cs S \<longleftrightarrow> (\<exists>v m. wal_inv_at cs v m S)"

section \<open>Changes of the bucket\<close>

definition created :: "'a mem_store \<Rightarrow> string \<Rightarrow> 'a list \<Rightarrow> 'a mem_store \<Rightarrow> bool" where
  "created b k x b' \<longleftrightarrow> mem_inv b' \<and> mem_view b k = None \<and> counter b' = Suc (counter b) \<and>
     mem_view b' = (mem_view b)(k \<mapsto> (Suc (counter b), x))"

definition deleted :: "'a mem_store \<Rightarrow> string \<Rightarrow> version \<Rightarrow> 'a mem_store \<Rightarrow> bool" where
  "deleted b k vr b' \<longleftrightarrow> mem_inv b' \<and> counter b' = counter b \<and>
     (mem_view b' = mem_view b \<or>
      map_option fst (mem_view b k) = Some vr \<and> mem_view b' = (mem_view b)(k := None))"

definition committed :: "'a codecs \<Rightarrow> 'a mem_store \<Rightarrow> manifest \<Rightarrow> 'a mem_store \<Rightarrow> bool" where
  "committed cs b m' b' \<longleftrightarrow> mem_inv b' \<and> counter b' = Suc (counter b) \<and>
     mem_view b' = (mem_view b)(MANIFEST \<mapsto> (Suc (counter b), encode (c_manifest cs) m'))"

lemma mem_delete_deleted:
  assumes "mem_inv b"
  shows "deleted b k vr (snd (mem_delete b k (Some vr)))"
proof -
  have "mem_inv (snd (mem_delete b k (Some vr)))"
    using assms by (auto simp: mem_delete_def mem_inv_def bt_remove_def split: option.splits)
      (metis bt_ok_remove bt_remove_def)
  then show ?thesis
    by (auto simp: deleted_def mem_delete_def mem_view_def fun_eq_iff split: option.splits)
qed

lemma claim_step_mem:
  assumes "mem_inv b" "claim_ok m0 st" "claim_step mem_ops cs enc st b = (r, b')"
  shows "b' = b \<and> (\<forall>st'. r = ClaimGo st' \<longrightarrow> claim_ok m0 st') \<and>
      (\<forall>slot. r \<noteq> ClaimDone (Ok (Claimed slot)))
    \<or> (\<exists>slot. r = ClaimDone (Ok (Claimed slot)) \<and> slot_version slot = Suc (counter b) \<and>
        slot_ok m0 slot \<and> created b (slot_key slot) (enc (slot_first_seq slot)) b')"
proof (cases "cl_pc st")
  case TryCreate
  show ?thesis
  proof (cases "mem_view b (log_segment_key (cl_seq st))")
    case None
    have "mem_inv b'"
      using assms(3) put_create_free [OF None, of "enc (cl_seq st)"] TryCreate
        mem_put_evolves [OF assms(1), of "log_segment_key (cl_seq st)" "Bytes (enc (cl_seq st))" Create]
      by (auto simp: claim_step_def put_bytes_def Let_def)
    then show ?thesis
      using assms put_create_free [OF None, of "enc (cl_seq st)"] TryCreate None mem_inv_ok [OF assms(1)]
      by (auto simp: claim_step_def Let_def created_def view_insert fun_eq_iff slot_ok_def claim_ok_def)
  next
    case (Some x)
    then show ?thesis
      using assms(2,3) TryCreate by (cases x) (auto simp: claim_step_def store_simps claim_ok_def)
  qed
next
  case (ReadManifest p)
  then show ?thesis using assms(2,3)
    by (auto simp: claim_step_def store_simps claim_ok_def split: sum.splits if_splits)
next
  case (HeadSlot p)
  show ?thesis
  proof (cases "mem_view b (log_segment_key (cl_seq st))")
    case None
    then show ?thesis using assms(2,3) HeadSlot by (auto simp: claim_step_def store_simps claim_ok_def)
  next
    case (Some x)
    then obtain v d where x: "mem_view b (log_segment_key (cl_seq st)) = Some (v, d)" by (cases x) auto
    let ?bs = "cl_burned st @ [(log_segment_key (cl_seq st), v)]"
    have lt: "head_seq m0 < cl_seq st" using assms(2) by (simp add: claim_ok_def)
    have nb: "burned_between (head_seq m0) (Suc (cl_seq st)) ?bs"
      unfolding burned_between_def
    proof
      fix k assume "k \<in> fst ` set ?bs"
      then consider "k \<in> fst ` set (cl_burned st)" | "k = log_segment_key (cl_seq st)" by auto
      then show "\<exists>n. head_seq m0 < n \<and> n < Suc (cl_seq st) \<and> k = log_segment_key n"
      proof cases
        case 1
        then show ?thesis using assms(2) unfolding claim_ok_def burned_between_def by (meson less_SucI)
      next
        case 2
        then show ?thesis using lt by blast
      qed
    qed
    show ?thesis using assms(2,3) HeadSlot x nb
      by (auto simp: claim_step_def mem_head_view claim_ok_def Let_def split: if_splits)
  qed
qed

lemma manifest_cas_mem:
  assumes "mem_inv b" "manifest_cas cs m v slot j b = (r, b')"
  shows "(\<exists>d meta. mem_view b MANIFEST = Some (v, d) \<and> r = Ok meta \<and>
      committed cs b (jb_update j m slot (length (job_enc cs j (slot_first_seq slot)))) b')
    \<or> b' = b \<and> (\<exists>e. r = Err e)"
proof -
  let ?x = "encode (c_manifest cs) (jb_update j m slot (length (job_enc cs j (slot_first_seq slot))))"
  have p: "mem_put b MANIFEST (Bytes ?x) (Update v) = (r, b')"
    using assms(2) by (simp add: manifest_cas_def put_bytes_def cas_manifest_mode_def)
  have bb: "body_bytes (Bytes ?x) = Ok ?x" by simp
  have inv: "mem_inv b'" using mem_put_evolves [OF assms(1) p] by simp
  from p bb show ?thesis
  proof (cases rule: mem_put_cases)
    case applied
    then obtain d where "mem_view b MANIFEST = Some (v, d)"
      by (cases "mem_view b MANIFEST") (auto split: if_splits)
    then show ?thesis using applied inv mem_inv_ok [OF assms(1)]
      by (auto simp: committed_def mem_view_def fun_eq_iff)
  qed simp
qed

section \<open>Preservation\<close>

lemma listed_present:
  assumes "log_ok cs b m" "k \<in> listed m"
  shows "\<exists>sg es. sg \<in> set (log_segments m) \<and> k = seg_key sg \<and> k = log_segment_key (first_seq sg) \<and>
    first_seq sg \<le> head_seq m \<and> first_seq sg \<le> u64_max \<and> object_body b k = Some (encode_segment cs es)"
proof -
  obtain sg where sg: "sg \<in> set (log_segments m)" "k = seg_key sg" using assms(2) by (auto simp: listed_def)
  then have "segment_ok cs b m sg" using assms(1) by (auto simp: log_ok_def)
  then show ?thesis using sg unfolding segment_ok_def by (intro exI [of _ sg]) force
qed

lemma listed_seq:
  assumes "log_ok cs b m" "log_segment_key n \<in> listed m" "n \<le> u64_max"
  shows "n \<le> head_seq m"
  using listed_present [OF assms(1,2)] log_segment_key_inj [OF _ assms(3)] by metis

lemma object_body_cong: "mem_view b' k = mem_view b k \<Longrightarrow> object_body b' k = object_body b k"
  by (simp add: object_body_def)

lemma log_ok_cong:
  assumes "\<forall>k \<in> listed m. mem_view b' k = mem_view b k" "log_ok cs b m"
  shows "log_ok cs b' m"
proof -
  have "segment_ok cs b' m sg" if "sg \<in> set (log_segments m)" for sg
  proof -
    have "mem_view b' (seg_key sg) = mem_view b (seg_key sg)" using assms(1) that by (auto simp: listed_def)
    then have "object_body b' (seg_key sg) = object_body b (seg_key sg)" by (rule object_body_cong)
    moreover have "segment_ok cs b m sg" using assms(2) that by (simp add: log_ok_def)
    ultimately show ?thesis unfolding segment_ok_def by metis
  qed
  then show ?thesis using assms(2) by (simp add: log_ok_def)
qed

lemma acked_ok_cong:
  assumes "\<forall>k \<in> listed m. mem_view b' k = mem_view b k" "acked_ok cs b m a"
  shows "acked_ok cs b' m a"
  using assms by (auto simp: acked_ok_def listed_def object_body_def)

lemma writer_ok_created:
  assumes "created b k x b'" "k = log_segment_key n" "writer_ok cs b m w"
  shows "writer_ok cs b' m w"
proof -
  have "read_ok cs b m0 v \<Longrightarrow> read_ok cs b' m0 v" for m0 v
    using assms(1,2) by (auto simp: read_ok_def created_def)
  moreover have "slot_there cs b m slot j \<Longrightarrow> slot_there cs b' m slot j" for slot j
    using assms(1) by (auto simp: slot_there_def created_def)
  ultimately show ?thesis using assms(3) by (cases w) auto
qed

lemma writer_ok_deleted:
  assumes "deleted b k vr b'" "k = log_segment_key n" "k \<notin> listed m" "writer_ok cs b m w"
    and "\<forall>s. slot_of w = Some s \<longrightarrow> slot_key s = k \<longrightarrow> slot_version s = vr \<longrightarrow> slot_first_seq s \<le> head_seq m"
  shows "writer_ok cs b' m w"
proof -
  have "read_ok cs b m0 v \<Longrightarrow> read_ok cs b' m0 v" for m0 v
    using assms(1,2) by (auto simp: read_ok_def deleted_def)
  moreover have "slot_there cs b m s j \<Longrightarrow> slot_there cs b' m s j" if "slot_of w = Some s" for s j
  proof (cases "slot_key s = k")
    case True
    then show "slot_there cs b m s j \<Longrightarrow> slot_there cs b' m s j"
      using assms(1,3,5) that by (auto simp: slot_there_def deleted_def)
  next
    case False
    then show "slot_there cs b m s j \<Longrightarrow> slot_there cs b' m s j"
      using assms(1) by (auto simp: slot_there_def deleted_def)
  qed
  ultimately show ?thesis using assms(4) by (cases w) auto
qed

lemma writer_ok_committed:
  assumes "committed cs b m' b'" "log_ok cs b m" "listed m' = insert (log_segment_key n0) (listed m)"
    "head_seq m < n0" "n0 \<le> head_seq m'" "n0 \<le> u64_max" "writer_ok cs b m w"
    and other: "\<forall>s. slot_of w = Some s \<longrightarrow> slot_key s \<noteq> log_segment_key n0"
  shows "writer_ok cs b' m' w"
proof -
  have rd: "read_ok cs b m0 v \<Longrightarrow> read_ok cs b' m0 v" for m0 v
    using assms(1) by (auto simp: read_ok_def committed_def)
  have st: "slot_there cs b m s j \<Longrightarrow> slot_there cs b' m' s j" if "slot_of w = Some s" "slot_ok m0 s" for s j m0
  proof -
    have k: "slot_key s \<noteq> MANIFEST" "slot_key s \<noteq> log_segment_key n0" using that other by (auto simp: slot_ok_def)
    have v: "mem_view b' (slot_key s) = mem_view b (slot_key s)" using assms(1) k(1) by (simp add: committed_def)
    have h: "head_seq m \<le> head_seq m'" using assms(4,5) by simp
    show "slot_there cs b m s j \<Longrightarrow> slot_there cs b' m' s j"
      unfolding slot_there_def v assms(3) using k(2) h by (metis insertE order_trans)
  qed
  have key: "log_segment_key n \<noteq> log_segment_key n0" if "n \<le> head_seq m" "n \<le> u64_max" for n
    using log_segment_key_inj [of n n0] that assms(4,6) by auto
  have amb: "fst ` set (burned s) \<inter> listed m' = {}"
    if A: "slot_of w = Some s" "slot_ok m0 s" "slot_first_seq s \<le> u64_max" "slot_key s \<in> listed m'"
      "slot_key s \<in> listed m \<longrightarrow> fst ` set (burned s) \<inter> listed m = {}" for s m0
  proof -
    have l: "slot_key s \<in> listed m" using A(1,4) assms(3) other by auto
    have le: "slot_first_seq s \<le> head_seq m"
      using listed_seq [OF assms(2)] l A(2,3) by (auto simp: slot_ok_def)
    have "log_segment_key n0 \<notin> fst ` set (burned s)"
    proof
      assume "log_segment_key n0 \<in> fst ` set (burned s)"
      then obtain n where "n < slot_first_seq s" "log_segment_key n0 = log_segment_key n"
        using A(2) unfolding slot_ok_def burned_between_def by blast
      then show False using key [of n] le A(3) by simp
    qed
    then show ?thesis using A(5) l assms(3) by auto
  qed
  have bound: "slot_first_seq s \<le> u64_max" if "slot_ok m0 s" "job_fits m0 j" for s m0 j
    using that by (auto simp: slot_ok_def job_fits_def)
  have sw: "swept_ok m' todo" if sw0: "swept_ok m todo" for todo
    unfolding swept_ok_def
  proof
    fix k assume "k \<in> fst ` set todo"
    then obtain n where n: "k \<notin> listed m" "n \<le> head_seq m" "n \<le> u64_max" "k = log_segment_key n"
      using sw0 unfolding swept_ok_def by blast
    then have "k \<notin> listed m'" using key assms(3) by auto
    moreover have "n \<le> head_seq m'" using n(2) assms(4,5) by simp
    ultimately show "k \<notin> listed m' \<and> (\<exists>n. n \<le> head_seq m' \<and> n \<le> u64_max \<and> k = log_segment_key n)"
      using n(3,4) by blast
  qed
  show ?thesis
  proof (cases w)
    case (WAmbiguous m0 s j)
    then show ?thesis using assms(7) st [of s m0 j] amb [of s m0] bound [of m0 s j] by simp
  next
    case (WSlot m0 v s j)
    then show ?thesis using assms(3,7) rd [of m0 v] st [of s m0 j] other by simp
  next
    case (WDrop m0 s j)
    then show ?thesis using assms(3,7) st [of s m0 j] other by simp
  qed (use assms(7) rd sw in simp_all)
qed

lemma slots_okI:
  assumes "\<And>i s. slot_of (ws i) = Some s \<Longrightarrow> slot_version s \<le> counter b"
    and "\<And>i j s t. i \<noteq> j \<Longrightarrow> slot_of (ws i) = Some s \<Longrightarrow> slot_of (ws j) = Some t \<Longrightarrow> slot_version s \<noteq> slot_version t"
  shows "slots_ok b ws"
  using assms unfolding slots_ok_def by blast

lemma slots_okD:
  assumes "slots_ok b ws" "slot_of (ws i) = Some s"
  shows "slot_version s \<le> counter b" "i \<noteq> j \<Longrightarrow> slot_of (ws j) = Some t \<Longrightarrow> slot_version s \<noteq> slot_version t"
  using assms unfolding slots_ok_def by blast+

lemma slots_ok_keep:
  assumes ok: "slots_ok b ws" and c: "counter b \<le> counter b'" and w: "slot_of w = None \<or> slot_of w = slot_of (ws i)"
  shows "slots_ok b' (ws(i := w))"
proof (rule slots_okI)
  have sl: "slot_of ((ws(i := w)) k) = Some s \<Longrightarrow> slot_of (ws k) = Some s" for k s using w by (cases "k = i") auto
  show "slot_version s \<le> counter b'" if "slot_of ((ws(i := w)) k) = Some s" for k s
    using slots_okD(1) [OF ok sl [OF that]] c by simp
  show "slot_version s \<noteq> slot_version t" if "k \<noteq> l" "slot_of ((ws(i := w)) k) = Some s" "slot_of ((ws(i := w)) l) = Some t" for k l s t
    using slots_okD(2) [OF ok sl [OF that(2)] that(1) sl [OF that(3)]] .
qed

lemma slots_ok_new:
  assumes ok: "slots_ok b ws" and c: "counter b' = Suc (counter b)"
    and w: "slot_of w = Some s0" "slot_version s0 = Suc (counter b)"
  shows "slots_ok b' (ws(i := w))"
proof (rule slots_okI)
  have old: "slot_of ((ws(i := w)) k) = Some s \<Longrightarrow> k \<noteq> i \<Longrightarrow> slot_version s \<le> counter b" for k s
    using slots_okD(1) [OF ok] by auto
  have new: "slot_of ((ws(i := w)) i) = Some s \<Longrightarrow> slot_version s = Suc (counter b)" for s using w by auto
  show "slot_version s \<le> counter b'" if "slot_of ((ws(i := w)) k) = Some s" for k s
    using old [OF that] new [of s] that c by (cases "k = i") auto
  show "slot_version s \<noteq> slot_version t" if "k \<noteq> l" "slot_of ((ws(i := w)) k) = Some s" "slot_of ((ws(i := w)) l) = Some t" for k l s t
  proof (cases "k = i \<or> l = i")
    case True
    then show ?thesis using old [OF that(2)] old [OF that(3)] new [of s] new [of t] that by auto
  next
    case False
    then show ?thesis using slots_okD(2) [OF ok, of k s l t] that by simp
  qed
qed

lemma goto_sel [simp]:
  "wb (goto i w b S) = b" "wr (goto i w b S) = (wr S)(i := w)" "acks (goto i w b S) = acks S"
  by (simp_all add: goto_def)

lemma inv_same:
  assumes "wal_inv_at cs v m S" "writer_ok cs (wb S) m w" "slot_of w = None \<or> slot_of w = slot_of (wr S i)"
  shows "wal_inv_at cs v m (goto i w (wb S) S)"
  using assms slots_ok_keep [of "wb S" "wr S" "wb S" w i] by (auto simp: wal_inv_at_def)

lemma inv_created:
  assumes inv: "wal_inv_at cs v m S" and c: "created (wb S) (log_segment_key n) x b'"
    and w: "writer_ok cs b' m w" "slots_ok b' ((wr S)(i := w))"
  shows "wal_inv_at cs v m (goto i w b' S)"
proof -
  have "log_segment_key n \<notin> listed m"
    using listed_present [of cs "wb S" m] inv c by (force simp: wal_inv_at_def created_def object_body_def)
  then have same: "\<forall>k \<in> listed m. mem_view b' k = mem_view (wb S) k" using c by (auto simp: created_def)
  show ?thesis
    using inv c w log_ok_cong [OF same] acked_ok_cong [OF same] writer_ok_created [OF c refl]
    by (auto simp: wal_inv_at_def current_def created_def)
qed

lemma inv_deleted:
  assumes inv: "wal_inv_at cs v m S" and d: "deleted (wb S) (log_segment_key n) vr b'"
    and k: "log_segment_key n \<notin> listed m" and w: "writer_ok cs b' m w" "slot_of w = None"
    and others: "\<forall>j s. j \<noteq> i \<longrightarrow> slot_of (wr S j) = Some s \<longrightarrow> slot_key s = log_segment_key n \<longrightarrow>
      slot_version s = vr \<longrightarrow> slot_first_seq s \<le> head_seq m"
  shows "wal_inv_at cs v m (goto i w b' S)"
proof -
  have same: "\<forall>k \<in> listed m. mem_view b' k = mem_view (wb S) k" using d k by (auto simp: deleted_def)
  have ws: "writer_ok cs b' m (wr S j)" if "j \<noteq> i" for j
    using writer_ok_deleted [OF d refl k] inv others that by (auto simp: wal_inv_at_def)
  have man: "mem_view b' MANIFEST = mem_view (wb S) MANIFEST" using d by (auto simp: deleted_def)
  have cnt: "counter (wb S) \<le> counter b'" "mem_inv b'" using d by (auto simp: deleted_def)
  show ?thesis
    using inv w ws man cnt log_ok_cong [OF same] acked_ok_cong [OF same]
      slots_ok_keep [of "wb S" "wr S" b' w i]
    by (auto simp: wal_inv_at_def current_def)
qed

text \<open>The manifest after a commit, seen from the log.\<close>

lemma job_publisher: "job_ok j \<Longrightarrow> publisher (jb_build j) (jb_update j)"
  by (simp add: job_ok_def)

lemma commit_log:
  assumes "log_ok cs b m" "slot_ok m slot" "job_fits m j"
    and m': "m' = jb_update j m slot sz"
  shows "log_segments m' = log_segments m @ [\<lparr>seg_key = slot_key slot, first_seq = slot_first_seq slot,
      last_seq = head_seq m', seg_size = sz, sealed = True\<rparr>]"
    and "listed m' = insert (slot_key slot) (listed m)"
    and "head_seq m < slot_first_seq slot" "slot_first_seq slot \<le> head_seq m'" "head_seq m' \<le> u64_max"
proof -
  have pub: "publisher (jb_build j) (jb_update j)" using assms(3) by (simp add: job_fits_def job_publisher)
  have lo: "first_seq sg \<le> head_seq m" if "sg \<in> set (log_segments m)" for sg
    using assms(1) that by (auto simp: log_ok_def segment_ok_def intro: order_trans)
  have slot: "head_seq m < slot_first_seq slot" using assms(2) by (simp add: slot_ok_def)
  have "sorted_wrt (\<lambda>x y. first_seq x \<le> first_seq y) (log_segments m)"
  proof (rule sorted_wrt_mono_rel)
    show "sorted_wrt (\<lambda>x y. last_seq x < first_seq y) (log_segments m)" using assms(1) by (simp add: log_ok_def)
    show "first_seq x \<le> first_seq y" if "x \<in> set (log_segments m)" "last_seq x < first_seq y" for x y
      using assms(1) that by (auto simp: log_ok_def segment_ok_def intro: order_trans)
  qed
  then have sorted: "sorted (map first_seq (log_segments m))" by (simp add: sorted_map)
  have before: "\<forall>sg \<in> set (log_segments m). first_seq sg \<le> slot_first_seq slot"
    using lo slot by fastforce
  have head: "head_seq m' = slot_first_seq slot + length (jb_build j 0) - 1"
    unfolding m' by (rule publisher.upd_head [OF pub])
  show log: "log_segments m' = log_segments m @ [\<lparr>seg_key = slot_key slot, first_seq = slot_first_seq slot,
      last_seq = head_seq m', seg_size = sz, sealed = True\<rparr>]"
    unfolding head unfolding m' by (rule publisher.upd_log_append [OF pub sorted before])
  show "listed m' = insert (slot_key slot) (listed m)" unfolding listed_def log by auto
  show "head_seq m < slot_first_seq slot" by (rule slot)
  show "slot_first_seq slot \<le> head_seq m'" unfolding m' by (rule publisher.upd_head_ge [OF pub])
  show "head_seq m' \<le> u64_max"
    unfolding head using assms(2,3) by (auto simp: slot_ok_def job_fits_def)
qed

lemma log_ok_committed:
  assumes "log_ok cs b m" "committed cs b m' b'" "slot_ok m slot" "job_fits m j"
    and m': "m' = jb_update j m slot sz"
    and there: "mem_view b (slot_key slot) = Some (slot_version slot, job_enc cs j (slot_first_seq slot))"
  shows "log_ok cs b' m'" and "acked_ok cs b' m' (slot_first_seq slot, jb_build j (slot_first_seq slot))"
    and "acked_ok cs b m a \<Longrightarrow> acked_ok cs b' m' a"
proof -
  note C = commit_log [OF assms(1,3,4) m']
  let ?sg = "\<lparr>seg_key = slot_key slot, first_seq = slot_first_seq slot,
      last_seq = head_seq m', seg_size = sz, sealed = True\<rparr>"
  have pub: "publisher (jb_build j) (jb_update j)" using assms(4) by (simp add: job_fits_def job_publisher)
  have key: "slot_key slot = log_segment_key (slot_first_seq slot)" using assms(3) by (simp add: slot_ok_def)
  have same: "object_body b' k = object_body b k" if "k \<noteq> MANIFEST" for k
    using assms(2) that by (simp add: committed_def object_body_def)
  have head: "Suc (head_seq m') = slot_first_seq slot + length (jb_build j 0)"
    using publisher.upd_head [OF pub, of m slot sz] publisher.build_pos [OF pub] m' by simp
  have body: "object_body b' (slot_key slot) = Some (encode_segment cs (jb_build j (slot_first_seq slot)))"
    using same [of "slot_key slot"] there key by (simp add: object_body_def job_enc_def)
  have new: "segment_ok cs b' m' ?sg"
    unfolding segment_ok_def log_segment_ref.select_convs head
    using key C(4,5) body publisher.build_seq [OF pub, of "slot_first_seq slot"] by blast
  have old: "segment_ok cs b' m' sg" "last_seq sg < slot_first_seq slot" "object_body b' (seg_key sg) = object_body b (seg_key sg)"
    if "sg \<in> set (log_segments m)" for sg
  proof -
    have ok: "segment_ok cs b m sg" using assms(1) that by (simp add: log_ok_def)
    then have "seg_key sg \<noteq> MANIFEST" by (simp add: segment_ok_def)
    then show b: "object_body b' (seg_key sg) = object_body b (seg_key sg)" by (rule same)
    have h: "last_seq sg \<le> head_seq m" using ok by (simp add: segment_ok_def)
    then show "last_seq sg < slot_first_seq slot" using C(3) by simp
    have "last_seq sg \<le> head_seq m'" using h C(3,4) by simp
    then show "segment_ok cs b' m' sg" using ok b unfolding segment_ok_def by metis
  qed
  show "log_ok cs b' m'"
    using assms(1) new old unfolding log_ok_def C(1) by (auto simp: sorted_wrt_append)
  show "acked_ok cs b' m' (slot_first_seq slot, jb_build j (slot_first_seq slot))"
    unfolding acked_ok_def C(1) using body by (intro bexI [of _ ?sg]) auto
  show "acked_ok cs b m a \<Longrightarrow> acked_ok cs b' m' a"
    unfolding acked_ok_def C(1) using old(3) by fastforce
qed

lemma manifest_encode_inj:
  assumes "codecs_ok cs" "encode (c_manifest cs) x = encode (c_manifest cs) y"
  shows "x = y"
proof -
  have "Some x = Some y" using assms by (metis codecs_ok_def codec_ok_def)
  then show ?thesis by simp
qed

lemma slot_seq_le: "slot_ok m0 slot \<Longrightarrow> job_fits m0 j \<Longrightarrow> slot_first_seq slot \<le> u64_max"
  by (auto simp: slot_ok_def job_fits_def)

text \<open>The writer whose CAS succeeds was based on the current manifest, and its segment is in place.\<close>

lemma commit_base:
  assumes cs: "codecs_ok cs" and inv: "wal_inv_at cs v m S" and i: "wr S i = WSlot m0 v0 slot j"
    and cur: "mem_view (wb S) MANIFEST = Some (v0, d)"
  shows "m0 = m" "slot_ok m slot" "job_fits m j" "slot_key slot \<notin> listed m"
    "mem_view (wb S) (slot_key slot) = Some (slot_version slot, job_enc cs j (slot_first_seq slot))"
proof -
  have w: "writer_ok cs (wb S) m (WSlot m0 v0 slot j)" using inv i by (metis wal_inv_at_def)
  have "d = encode (c_manifest cs) m0" using w cur by (simp add: read_ok_def)
  moreover have "d = encode (c_manifest cs) m" using inv cur by (simp add: wal_inv_at_def current_def)
  ultimately show m: "m0 = m" using manifest_encode_inj [OF cs] by simp
  show "slot_ok m slot" "job_fits m j" "slot_key slot \<notin> listed m" using w m by simp_all
  then show "mem_view (wb S) (slot_key slot) = Some (slot_version slot, job_enc cs j (slot_first_seq slot))"
    using w m by (auto simp: slot_there_def slot_ok_def)
qed

lemma slot_writer:
  assumes "wal_inv_at cs v m S" "slot_of (wr S i) = Some s"
  shows "\<exists>m0 j. slot_ok m0 s \<and> job_fits m0 j \<and> slot_there cs (wb S) m s j"
proof -
  have "writer_ok cs (wb S) m (wr S i)" using assms(1) by (simp add: wal_inv_at_def)
  then show ?thesis using assms(2) by (cases "wr S i") auto
qed

lemma other_slot:
  assumes inv: "wal_inv_at cs v m S" and i: "slot_of (wr S i) = Some slot" and k: "k \<noteq> i"
    and s: "slot_of (wr S k) = Some s" and ok: "slot_ok m slot" "slot_first_seq slot \<le> u64_max"
    and there: "mem_view (wb S) (slot_key slot) = Some (slot_version slot, x)"
  shows "slot_key s \<noteq> slot_key slot"
proof
  assume key: "slot_key s = slot_key slot"
  have ne: "slot_version s \<noteq> slot_version slot"
    using slots_okD(2) [of "wb S" "wr S" k s i slot] inv s i k by (simp add: wal_inv_at_def)
  obtain m1 j1 where w: "slot_ok m1 s" "job_fits m1 j1" "slot_there cs (wb S) m s j1"
    using slot_writer [OF inv s] by blast
  then have "slot_first_seq s \<le> head_seq m"
    using ne there key by (auto simp: slot_there_def)
  moreover have "slot_first_seq s = slot_first_seq slot"
    using log_segment_key_inj [OF _ slot_seq_le [OF w(1,2)] ok(2)] key w(1) ok(1) by (simp add: slot_ok_def)
  ultimately show False using ok(1) by (simp add: slot_ok_def)
qed

lemma inv_committed:
  assumes cs: "codecs_ok cs" and inv: "wal_inv_at cs v m S" and i: "wr S i = WSlot m0 v0 slot j"
    and cur: "mem_view (wb S) MANIFEST = Some (v0, d)"
    and c: "committed cs (wb S) m' b'"
    and m': "m' = jb_update j m0 slot (length (job_enc cs j (slot_first_seq slot)))"
    and w: "writer_ok cs b' m' w" "slot_of w = None \<or> slot_of w = Some slot"
  shows "wal_inv_at cs (Suc (counter (wb S))) m' (goto i w b' S)"
proof -
  note B = commit_base [OF cs inv i cur]
  have log: "log_ok cs (wb S) m" using inv by (simp add: wal_inv_at_def)
  note C = commit_log [OF log B(2,3) m' [unfolded B(1)]]
  note L = log_ok_committed [OF log c B(2,3) m' [unfolded B(1)] B(5)]
  have le: "slot_first_seq slot \<le> u64_max" by (rule slot_seq_le [OF B(2,3)])
  have key: "slot_key slot = log_segment_key (slot_first_seq slot)" using B(2) by (simp add: slot_ok_def)
  have others: "writer_ok cs b' m' (wr S k)" if "k \<noteq> i" for k
  proof (rule writer_ok_committed [OF c log C(2) [unfolded key] C(3,4) le])
    show "writer_ok cs (wb S) m (wr S k)" using inv by (simp add: wal_inv_at_def)
    show "\<forall>s. slot_of (wr S k) = Some s \<longrightarrow> slot_key s \<noteq> log_segment_key (slot_first_seq slot)"
      using other_slot [OF inv _ that _ B(2) le B(5)] i key by simp
  qed
  have "slots_ok b' ((wr S)(i := w))"
    using slots_ok_keep [of "wb S" "wr S" b' w i] inv w(2) i c by (simp add: wal_inv_at_def committed_def)
  moreover have "current cs b' (Suc (counter (wb S))) m'" "mem_inv b'"
    using c by (simp_all add: committed_def current_def)
  moreover have "\<forall>a \<in> acks S. acked_ok cs b' m' a" using inv L(3) by (simp add: wal_inv_at_def)
  ultimately show ?thesis using L(1) w(1) others by (auto simp: wal_inv_at_def)
qed

lemma inv_ack:
  assumes "wal_inv_at cs v m S" "acked_ok cs (wb S) m (slot_first_seq slot, jb_build j (slot_first_seq slot))"
  shows "wal_inv_at cs v m (ack slot j S)"
  using assms by (auto simp: wal_inv_at_def ack_def)

text \<open>A commit whose burned orphans are swept next, or whose answer was lost.\<close>

lemma burned_unlisted:
  assumes "log_ok cs b m" "slot_ok m slot" "slot_first_seq slot \<le> u64_max"
    "listed m' = insert (slot_key slot) (listed m)" "slot_first_seq slot \<le> head_seq m'"
  shows "swept_ok m' (burned slot)"
  unfolding swept_ok_def
proof
  fix k assume "k \<in> fst ` set (burned slot)"
  then obtain n where n: "head_seq m < n" "n < slot_first_seq slot" "k = log_segment_key n"
    using assms(2) by (auto simp: slot_ok_def burned_between_def)
  have le: "n \<le> u64_max" using n(2) assms(3) by simp
  have "k \<notin> listed m" using listed_seq [OF assms(1) _ le] n by auto
  moreover have "k \<noteq> slot_key slot"
    using log_segment_key_inj [OF _ le assms(3)] n assms(2) by (auto simp: slot_ok_def)
  ultimately show "k \<notin> listed m' \<and> (\<exists>n. n \<le> head_seq m' \<and> n \<le> u64_max \<and> k = log_segment_key n)"
    using n le assms(4,5) by (intro conjI exI [of _ n]) auto
qed

lemma swept_ambiguous:
  assumes log: "log_ok cs b m" and w: "writer_ok cs b m (WAmbiguous m0 slot j)" and l: "slot_key slot \<in> listed m"
  shows "swept_ok m (burned slot)"
  unfolding swept_ok_def
proof
  fix k assume k: "k \<in> fst ` set (burned slot)"
  have le: "slot_first_seq slot \<le> u64_max" using w slot_seq_le by auto
  have "slot_first_seq slot \<le> head_seq m" using listed_seq [OF log _ le] l w by (simp add: slot_ok_def)
  moreover obtain n where n: "n < slot_first_seq slot" "k = log_segment_key n"
    using w k by (auto simp: slot_ok_def burned_between_def)
  moreover have "k \<notin> listed m" using w l k by auto
  ultimately show "k \<notin> listed m \<and> (\<exists>n. n \<le> head_seq m \<and> n \<le> u64_max \<and> k = log_segment_key n)"
    using le by (intro conjI exI [of _ n]) auto
qed

text \<open>What \<^const>\<open>cas_landed\<close> tells: the current manifest lists the slot.\<close>

lemma cas_landed_listed:
  assumes "codecs_ok cs" "current cs b v m" "cas_landed mem_ops cs slot b = (Ok (Some fresh), b')"
  shows "slot_key slot \<in> listed m" "fresh = m" "b' = b"
proof -
  have dec: "decode (c_manifest cs) (encode (c_manifest cs) m) = Some m"
    using assms(1) by (simp add: codecs_ok_def codec_ok_def)
  have r: "read_manifest_fresh mem_ops cs b = (Ok (Some m), b)"
    using assms(2) dec
    by (simp add: read_manifest_fresh_def current_def store_err_def get_bytes_mem)
  then have l: "lists_slot slot m" "fresh = m" "b' = b"
    using assms(3) by (auto simp: cas_landed_def split: if_splits)
  then show "slot_key slot \<in> listed m" "fresh = m" "b' = b"
    by (auto simp: lists_slot_def list_ex_iff listed_def image_iff intro: sym)
qed

lemma landed_acked:
  assumes "log_ok cs b m" "writer_ok cs b m (WAmbiguous m0 slot j)" "slot_key slot \<in> listed m"
  shows "acked_ok cs b m (slot_first_seq slot, jb_build j (slot_first_seq slot))"
proof -
  obtain sg where sg: "sg \<in> set (log_segments m)" "seg_key sg = slot_key slot"
      "slot_key slot = log_segment_key (first_seq sg)" "first_seq sg \<le> u64_max"
    using listed_present [OF assms(1,3)] by auto
  have "first_seq sg = slot_first_seq slot"
    using log_segment_key_inj [OF _ sg(4), of "slot_first_seq slot"] sg(3) assms(2) slot_seq_le by (simp add: slot_ok_def) metis
  moreover have "object_body b (slot_key slot) = Some (job_enc cs j (slot_first_seq slot))"
    using assms(2,3) by (auto simp: slot_there_def object_body_def)
  ultimately show ?thesis using sg by (auto simp: acked_ok_def job_enc_def)
qed

lemma freshness_current:
  assumes "codecs_ok cs" "current cs b v m" "freshness_check mem_ops cs None b = (Ok (Changed v' m'), b')"
  shows "v' = v" "m' = m"
  using freshness_changed [of b v cs m None] assms by (simp_all add: current_def)

lemma sweep_delete:
  assumes inv: "wal_inv_at cs v m S" and i: "wr S i = WSweep ((k, vr) # todo)"
  shows "wal_inv_at cs v m (goto i (WSweep todo) (snd (mem_delete (wb S) k (Some vr))) S)"
proof -
  have "writer_ok cs (wb S) m (wr S i)" using inv by (simp add: wal_inv_at_def)
  then have w: "swept_ok m ((k, vr) # todo)" using i by simp
  then obtain n where n: "k \<notin> listed m" "n \<le> head_seq m" "n \<le> u64_max" "k = log_segment_key n"
    by (auto simp: swept_ok_def)
  have d: "deleted (wb S) k vr (snd (mem_delete (wb S) k (Some vr)))"
    using inv by (intro mem_delete_deleted) (simp add: wal_inv_at_def)
  have other: "slot_first_seq s \<le> head_seq m" if sl: "slot_of (wr S l) = Some s" "slot_key s = k" for l s
  proof -
    obtain m1 j1 where ok: "slot_ok m1 s" "job_fits m1 j1" using slot_writer [OF inv sl(1)] by blast
    have "log_segment_key (slot_first_seq s) = log_segment_key n" using ok(1) sl(2) n(4) by (simp add: slot_ok_def)
    then have "slot_first_seq s = n" by (rule log_segment_key_inj [OF _ slot_seq_le [OF ok] n(3)])
    then show ?thesis using n(2) by simp
  qed
  show ?thesis
  proof (rule inv_deleted [OF inv d [unfolded n(4)], folded n(4)])
    show "k \<notin> listed m" by (rule n(1))
    show "writer_ok cs (snd (mem_delete (wb S) k (Some vr))) m (WSweep todo)"
      using w by (simp add: swept_ok_def)
  qed (use other in auto)
qed

lemma drop_delete:
  assumes inv: "wal_inv_at cs v m S" and i: "wr S i = WDrop m0 slot j"
  shows "wal_inv_at cs v m (goto i WIdle (snd (mem_delete (wb S) (slot_key slot) (Some (slot_version slot)))) S)"
proof -
  have "writer_ok cs (wb S) m (wr S i)" using inv by (simp add: wal_inv_at_def)
  then have w: "slot_key slot = log_segment_key (slot_first_seq slot)" "slot_key slot \<notin> listed m"
    using i by (auto simp: slot_ok_def)
  have d: "deleted (wb S) (slot_key slot) (slot_version slot)
      (snd (mem_delete (wb S) (slot_key slot) (Some (slot_version slot))))"
    using inv by (intro mem_delete_deleted) (simp add: wal_inv_at_def)
  have "slot_version s \<noteq> slot_version slot" if "l \<noteq> i" "slot_of (wr S l) = Some s" for l s
    using slots_okD(2) [of "wb S" "wr S" l s i slot] inv i that by (simp add: wal_inv_at_def)
  then show ?thesis
    using inv_deleted [OF inv d [unfolded w(1)], folded w(1), of WIdle i] w(2) by auto
qed

section \<open>Every step keeps the invariant\<close>

text \<open>How a step moves the manifest: not at all, or it is the commit of one writer.\<close>

definition extends :: "'a codecs \<Rightarrow> manifest \<Rightarrow> manifest \<Rightarrow> 'a wal_state \<Rightarrow> 'a mem_store \<Rightarrow> bool" where
  "extends cs m m' S b' \<longleftrightarrow> m' = m \<or>
     (\<exists>i v slot j. wr S i = WSlot m v slot j \<and> current cs (wb S) v m \<and> slot_ok m slot \<and> job_fits m j \<and>
       object_body b' (slot_key slot) = Some (encode_segment cs (jb_build j (slot_first_seq slot))) \<and>
       m' = jb_update j m slot (length (job_enc cs j (slot_first_seq slot))))"

definition inv_after :: "'a codecs \<Rightarrow> manifest \<Rightarrow> 'a wal_state \<Rightarrow> 'a wal_state \<Rightarrow> bool" where
  "inv_after cs m S S' \<longleftrightarrow> (\<exists>v' m'. wal_inv_at cs v' m' S' \<and> extends cs m m' S (wb S'))"

lemma inv_after_same: "wal_inv_at cs v m S' \<Longrightarrow> inv_after cs m S S'"
  unfolding inv_after_def extends_def by blast

lemma inv_after_claim:
  assumes inv: "wal_inv_at cs v m S" and i: "wr S i = WClaim m0 v0 st j"
    and step: "claim_step mem_ops cs (job_enc cs j) st (wb S) = (r, b')"
    and w: "w = WIdle \<or> (\<exists>st'. r = ClaimGo st' \<and> w = WClaim m0 v0 st' j) \<or>
      (\<exists>slot. r = ClaimDone (Ok (Claimed slot)) \<and> w = WSlot m0 v0 slot j)"
  shows "wal_inv_at cs v m (goto i w b' S)"
proof -
  have "writer_ok cs (wb S) m (wr S i)" using inv by (simp add: wal_inv_at_def)
  then have ok: "read_ok cs (wb S) m0 v0" "job_fits m0 j" "claim_ok m0 st" using i by simp_all
  have mem: "mem_inv (wb S)" using inv by (simp add: wal_inv_at_def)
  from claim_step_mem [OF mem ok(3) step] show ?thesis
  proof
    assume same: "b' = wb S \<and> (\<forall>st'. r = ClaimGo st' \<longrightarrow> claim_ok m0 st') \<and>
      (\<forall>slot. r \<noteq> ClaimDone (Ok (Claimed slot)))"
    then show ?thesis using inv_same [OF inv, of w i] w ok by auto
  next
    assume "\<exists>slot. r = ClaimDone (Ok (Claimed slot)) \<and> slot_version slot = Suc (counter (wb S)) \<and>
        slot_ok m0 slot \<and> created (wb S) (slot_key slot) (job_enc cs j (slot_first_seq slot)) b'"
    then obtain slot where s: "r = ClaimDone (Ok (Claimed slot))" "slot_version slot = Suc (counter (wb S))"
      "slot_ok m0 slot" "created (wb S) (slot_key slot) (job_enc cs j (slot_first_seq slot)) b'" by blast
    have key: "slot_key slot = log_segment_key (slot_first_seq slot)" using s(3) by (simp add: slot_ok_def)
    have "slot_key slot \<notin> listed m"
      using listed_present [of cs "wb S" m] inv s(4) by (force simp: wal_inv_at_def created_def object_body_def)
    moreover have "read_ok cs b' m0 v0" "slot_there cs b' m slot j"
      using ok(1) s key by (auto simp: read_ok_def created_def slot_there_def)
    ultimately have wok: "writer_ok cs b' m w" using w s(1,3) ok(2) by auto
    have sl: "slots_ok b' ((wr S)(i := w))"
    proof (cases "w = WIdle")
      case True
      then show ?thesis using inv s(4) by (intro slots_ok_keep) (auto simp: wal_inv_at_def created_def)
    next
      case False
      then have "slot_of w = Some slot" using w s(1) by auto
      then show ?thesis using inv s(2,4) by (intro slots_ok_new) (auto simp: wal_inv_at_def created_def)
    qed
    show ?thesis by (rule inv_created [OF inv s(4) [unfolded key] wok sl])
  qed
qed

lemma inv_after_cas:
  assumes cs: "codecs_ok cs" and inv: "wal_inv_at cs v m S" and i: "wr S i = WSlot m0 v0 slot j"
    and cas: "manifest_cas cs m0 v0 slot j (wb S) = (r, b')"
  shows "inv_after cs m S (goto i (WAmbiguous m0 slot j) b' S)"
    and "r = Ok meta \<Longrightarrow> inv_after cs m S (ack slot j (goto i (WSweep (burned slot)) b' S))"
proof -
  let ?m' = "jb_update j m0 slot (length (job_enc cs j (slot_first_seq slot)))"
  have mem: "mem_inv (wb S)" "log_ok cs (wb S) m" using inv by (simp_all add: wal_inv_at_def)
  have wi: "writer_ok cs (wb S) m (WSlot m0 v0 slot j)" using inv i by (metis wal_inv_at_def)
  have both: "inv_after cs m S (goto i (WAmbiguous m0 slot j) b' S) \<and>
      inv_after cs m S (ack slot j (goto i (WSweep (burned slot)) b' S))"
    if cur: "mem_view (wb S) MANIFEST = Some (v0, d)" and c: "committed cs (wb S) ?m' b'" for d
  proof -
    note B = commit_base [OF cs inv i cur]
    note C = commit_log [OF mem(2) B(2,3) refl, folded B(1)]
    note L = log_ok_committed [OF mem(2) c B(2,3) _ B(5), unfolded B(1), OF refl]
    have le: "slot_first_seq slot \<le> u64_max" by (rule slot_seq_le [OF B(2,3)])
    have sw: "swept_ok ?m' (burned slot)"
      using burned_unlisted [OF mem(2) B(2) le] C(2,4) B(1) by blast
    have "slot_key slot \<noteq> MANIFEST" using B(2) by (simp add: slot_ok_def)
    then have th: "slot_there cs b' ?m' slot j" using B(5) c by (simp add: slot_there_def committed_def)
    have "object_body b' (slot_key slot) = Some (encode_segment cs (jb_build j (slot_first_seq slot)))"
      using B(5) c \<open>slot_key slot \<noteq> MANIFEST\<close> by (simp add: object_body_def committed_def job_enc_def)
    moreover have "current cs (wb S) v0 m" using inv cur by (simp add: wal_inv_at_def current_def)
    ultimately have ext: "extends cs m ?m' S b'" using i B unfolding extends_def by blast
    have "writer_ok cs b' ?m' (WAmbiguous m0 slot j)"
      using B(1-3) th sw by (auto simp: swept_ok_def)
    from inv_committed [OF cs inv i cur c refl this]
    have "inv_after cs m S (goto i (WAmbiguous m0 slot j) b' S)" using ext by (auto simp: inv_after_def)
    moreover have "wal_inv_at cs (Suc (counter (wb S))) ?m' (goto i (WSweep (burned slot)) b' S)"
      by (rule inv_committed [OF cs inv i cur c refl]) (simp_all add: sw)
    then have "inv_after cs m S (ack slot j (goto i (WSweep (burned slot)) b' S))"
      using inv_ack L(2) B(1) ext by (fastforce simp: inv_after_def ack_def)
    ultimately show ?thesis by blast
  qed
  have "writer_ok cs (wb S) m (WAmbiguous m0 slot j)" using wi by auto
  then have fail: "b' = wb S \<Longrightarrow> inv_after cs m S (goto i (WAmbiguous m0 slot j) b' S)"
    using inv_same [OF inv, of _ i] i inv_after_same by fastforce
  from manifest_cas_mem [OF mem(1) cas] both fail
  show "inv_after cs m S (goto i (WAmbiguous m0 slot j) b' S)"
    and "r = Ok meta \<Longrightarrow> inv_after cs m S (ack slot j (goto i (WSweep (burned slot)) b' S))"
    by auto
qed

lemma wal_step_inv:
  assumes cs: "codecs_ok cs" and inv: "wal_inv_at cs v m S" and step: "wal_step cs S S'"
  shows "inv_after cs m S S'"
  using step
proof cases
  case (start i j v' m' b')
  have cur: "current cs (wb S) v m" using inv by (simp add: wal_inv_at_def)
  have eq: "v' = v" "m' = m" using freshness_current [OF cs cur] start by blast+
  have "v \<le> counter (wb S)"
    using mem_inv_view inv cur unfolding wal_inv_at_def current_def by blast
  then have "writer_ok cs (wb S) m (WClaim m v (claim_init (head_seq m)) j)"
    using cur start eq by (auto simp: read_ok_def current_def job_fits_def claim_ok_def claim_init_def burned_between_def MAX_BURN_def)
  then show ?thesis using inv_same [OF inv, of _ i] start(1) eq by (intro inv_after_same [of cs v]) simp
next
  case (claim_go i m0 v0 st j st' b')
  then show ?thesis using inv_after_claim [OF inv claim_go(2,3)] by (auto intro: inv_after_same)
next
  case (claimed i m0 v0 st j slot b')
  then show ?thesis using inv_after_claim [OF inv claimed(2,3)] by (auto intro: inv_after_same)
next
  case (claim_lost i m0 v0 st j r b')
  then show ?thesis using inv_after_claim [OF inv claim_lost(2,3)] by (auto intro: inv_after_same)
next
  case (commit i m0 v0 slot j meta b')
  then show ?thesis using inv_after_cas(2) [OF cs inv] by blast
next
  case (commit_lost i m0 v0 slot j r b')
  then show ?thesis using inv_after_cas(1) [OF cs inv] by blast
next
  case (commit_failed i m0 v0 slot j)
  have "writer_ok cs (wb S) m (WSlot m0 v0 slot j)" using inv commit_failed by (metis wal_inv_at_def)
  then have "wal_inv_at cs v m S'" using inv_same [OF inv] commit_failed by fastforce
  then show ?thesis by (rule inv_after_same)
next
  case (refused i m0 v0 slot j)
  have "writer_ok cs (wb S) m (WSlot m0 v0 slot j)" using inv refused by (metis wal_inv_at_def)
  then have "wal_inv_at cs v m S'" using inv_same [OF inv] refused by fastforce
  then show ?thesis by (rule inv_after_same)
next
  case (landed i m0 slot j fresh b')
  have cur: "current cs (wb S) v m" and log: "log_ok cs (wb S) m" using inv by (simp_all add: wal_inv_at_def)
  have w: "writer_ok cs (wb S) m (WAmbiguous m0 slot j)" using inv landed by (metis wal_inv_at_def)
  have l: "slot_key slot \<in> listed m" using cas_landed_listed(1) [OF cs cur landed(3)] .
  have "wal_inv_at cs v m (goto i (WSweep (burned slot)) (wb S) S)"
    using inv_same [OF inv] swept_ambiguous [OF log w l] by simp
  then have "wal_inv_at cs v m S'" using inv_ack landed_acked [OF log w l] landed(1) by fastforce
  then show ?thesis by (rule inv_after_same)
next
  case (drop i m0 slot j)
  then show ?thesis using inv_after_same [OF drop_delete [OF inv]] by (simp add: drop_own_slot_def)
next
  case (sweep i k vr todo)
  then show ?thesis using inv_after_same [OF sweep_delete [OF inv]] by simp
next
  case (crash i)
  then show ?thesis using inv_after_same [OF inv_same [OF inv, of WIdle i]] by simp
qed

lemma wal_init_inv: "wal_init cs S \<Longrightarrow> wal_inv cs S"
  by (force simp: wal_init_def wal_inv_def wal_inv_at_def log_ok_def slots_ok_def)

text \<open>The states the protocol can get into.\<close>

inductive wal_reachable :: "'a codecs \<Rightarrow> 'a wal_state \<Rightarrow> bool" for cs where
  reach_init: "wal_init cs S \<Longrightarrow> wal_reachable cs S"
| reach_step: "wal_reachable cs S \<Longrightarrow> wal_step cs S S' \<Longrightarrow> wal_reachable cs S'"

lemma reachable_inv:
  assumes "codecs_ok cs" "wal_reachable cs S"
  shows "wal_inv cs S"
  using assms(2)
proof induction
  case (reach_step S S')
  then show ?case using wal_step_inv [OF assms(1)] unfolding wal_inv_def inv_after_def by blast
qed (rule wal_init_inv)

section \<open>Nothing committed is touched\<close>

lemma step_bodies:
  assumes cs: "codecs_ok cs" and inv: "wal_inv_at cs v m S" and step: "wal_step cs S S'" and k: "k \<in> listed m"
  shows "object_body (wb S') k = object_body (wb S) k"
proof -
  have mem: "mem_inv (wb S)" and log: "log_ok cs (wb S) m" using inv by (simp_all add: wal_inv_at_def)
  have ok: "writer_ok cs (wb S) m (wr S i)" for i using inv by (simp add: wal_inv_at_def)
  obtain n where n: "k = log_segment_key n" "object_body (wb S) k \<noteq> None" using listed_present [OF log k] by auto
  have claim: "object_body b' k = object_body (wb S) k"
    if "wr S i = WClaim m0 v0 st j" "claim_step mem_ops cs (job_enc cs j) st (wb S) = (r, b')" for i m0 v0 st j r b'
    using claim_step_mem [OF mem _ that(2), of m0] ok [of i] that(1) n(2)
    by (auto simp: created_def object_body_def)
  have cas: "object_body b' k = object_body (wb S) k" if "manifest_cas cs m0 v0 slot j (wb S) = (r, b')" for m0 v0 slot j r b'
    using manifest_cas_mem [OF mem that] n(1) by (auto simp: committed_def object_body_def)
  have del: "object_body (snd (mem_delete (wb S) k' (Some vr))) k = object_body (wb S) k" if "k' \<noteq> k" for k' vr
    using mem_delete_deleted [OF mem, of k' vr] that by (auto simp: deleted_def object_body_def)
  show ?thesis
    using step
  proof cases
    case (drop i m0 slot j)
    then show ?thesis using ok [of i] k del [of "slot_key slot" "slot_version slot"] by (auto simp: drop_own_slot_def)
  next
    case (sweep i k' vr todo)
    then show ?thesis using ok [of i] k del [of k' vr] by (auto simp: swept_ok_def)
  qed (auto simp: ack_def dest: claim cas)
qed

section \<open>The log as its readers see it\<close>

text \<open>The committed log: what a reader finds by following the manifest.\<close>

definition committed_log :: "'a codecs \<Rightarrow> 'a mem_store \<Rightarrow> (nat \<times> log_entry list option) list option" where
  "committed_log cs b =
     (case mem_view b MANIFEST of
        None \<Rightarrow> None
      | Some (v, d) \<Rightarrow>
          map_option (\<lambda>m. map (\<lambda>sg. (first_seq sg, segment_entries cs b sg)) (log_segments m))
            (decode (c_manifest cs) d))"

definition entries_fit :: "'a codecs \<Rightarrow> bool" where
  "entries_fit cs \<longleftrightarrow> (\<forall>e. length (encode (c_entry cs) e) \<le> u64_max)"

lemma committed_log_current:
  assumes "codecs_ok cs" "current cs b v m"
  shows "committed_log cs b = Some (map (\<lambda>sg. (first_seq sg, segment_entries cs b sg)) (log_segments m))"
  using assms by (simp add: committed_log_def current_def codecs_ok_def codec_ok_def)

lemma segment_entries_body:
  assumes "codecs_ok cs" "entries_fit cs" "object_body b (seg_key sg) = Some (encode_segment cs es)"
  shows "segment_entries cs b sg = Some es"
  using decode_encode_segment [OF assms(1), of es] assms(2,3) by (simp add: segment_entries_def entries_fit_def)

lemma reachable_at:
  assumes "codecs_ok cs" "wal_reachable cs S"
  obtains v m where "wal_inv_at cs v m S" "current cs (wb S) v m" "log_ok cs (wb S) m"
  using reachable_inv [OF assms] by (auto simp: wal_inv_def wal_inv_at_def)





section \<open>A run\<close>

text \<open>One writer pushes to an empty repository: it starts, claims slot 1 and commits.\<close>

definition run_job :: job where
  "run_job = \<lparr>jb_build = (\<lambda>n. build_entries ''w'' \<lparr>seconds = 0, nanos = 0\<rparr> n [sample_request ''refs/heads/a'' (CHR ''1'')]),
     jb_update = (\<lambda>m slot sz. push_manifest m slot
       (build_entries ''w'' \<lparr>seconds = 0, nanos = 0\<rparr> (slot_first_seq slot) [sample_request ''refs/heads/a'' (CHR ''1'')]) sz \<lparr>seconds = 0, nanos = 0\<rparr> ''w'')\<rparr>"

definition run_bucket :: "wire mem_store" where
  "run_bucket = \<lparr>objects = [(MANIFEST, (1, [WManifest (sample_manifest 0)]))], counter = 1\<rparr>"

definition run_slot :: log_slot where
  "run_slot = \<lparr>slot_key = log_segment_key 1, slot_version = 2, slot_first_seq = 1, burned = []\<rparr>"

definition run_claimed :: "wire mem_store" where
  "run_claimed = snd (claim_step mem_ops wire_codecs (job_enc wire_codecs run_job) (claim_init 0) run_bucket)"

definition run0 :: "wire wal_state" where
  "run0 = \<lparr>wb = run_bucket, wr = (\<lambda>_. WIdle), acks = {}\<rparr>"

definition run1 :: "wire wal_state" where
  "run1 = goto 0 (WClaim (sample_manifest 0) 1 (claim_init 0) run_job) run_bucket run0"

definition run2 :: "wire wal_state" where
  "run2 = goto 0 (WSlot (sample_manifest 0) 1 run_slot run_job) run_claimed run1"

definition run_committed :: "wire mem_store" where
  "run_committed = snd (manifest_cas wire_codecs (sample_manifest 0) 1 run_slot run_job run_claimed)"

definition run3 :: "wire wal_state" where
  "run3 = ack run_slot run_job (goto 0 (WSweep []) run_committed run2)"

lemma run_job_ok: "job_ok run_job"
  unfolding job_ok_def run_job_def job.select_convs by (rule push.publisher_axioms)

lemma run_head: "head_seq (sample_manifest 0) = 0"
  by (simp add: sample_manifest_def)

lemma run_claim:
  "claim_step mem_ops wire_codecs (job_enc wire_codecs run_job) (claim_init 0) run_bucket =
     (ClaimDone (Ok (Claimed run_slot)), run_claimed)"
  by code_simp

lemma run_cas:
  "manifest_cas wire_codecs (sample_manifest 0) 1 run_slot run_job run_claimed =
     (Ok \<lparr>meta_key = MANIFEST, meta_size = 1, meta_version = 3\<rparr>, run_committed)"
  by code_simp

lemma run_read:
  "freshness_check mem_ops wire_codecs None run_bucket = (Ok (Changed 1 (sample_manifest 0)), run_bucket)"
  by code_simp

lemma run_fits: "entries_fit wire_codecs"
  using wire_entry_fits by (simp add: entries_fit_def)

lemma run_init: "wal_init wire_codecs run0"
proof -
  have "mem_inv run_bucket" "log_segments (sample_manifest 0) = []" by code_simp+
  moreover have "current wire_codecs run_bucket 1 (sample_manifest 0)" unfolding current_def by code_simp
  ultimately show ?thesis by (auto simp: wal_init_def run0_def)
qed

lemma run_steps: "wal_step wire_codecs run0 run1" "wal_step wire_codecs run1 run2" "wal_step wire_codecs run2 run3"
proof -
  have "wal_step wire_codecs run0 (goto 0 (WClaim (sample_manifest 0) 1 (claim_init (head_seq (sample_manifest 0))) run_job) (wb run0) run0)"
    by (rule wal_step.start [OF _ run_job_ok, where b' = run_bucket])
      (simp_all add: run0_def run_read run_head u64_max_def MAX_BURN_def run_job_def)
  then show "wal_step wire_codecs run0 run1" by (simp add: run1_def run0_def run_head)
  show "wal_step wire_codecs run1 run2"
    unfolding run2_def by (rule wal_step.claimed [where st = "claim_init 0"]) (simp_all add: run1_def run_claim)
  have "wal_step wire_codecs run2 (ack run_slot run_job (goto 0 (WSweep (burned run_slot)) run_committed run2))"
    by (rule wal_step.commit [where m = "sample_manifest 0" and v = 1])
      (simp_all only: run2_def goto_sel fun_upd_same run_cas)
  then show "wal_step wire_codecs run2 run3" by (simp add: run3_def run_slot_def)
qed

lemma run_reachable: "wal_reachable wire_codecs run2" "wal_reachable wire_codecs run3"
  using run_init run_steps by (blast intro: wal_reachable.intros)+





end
