(* ===== verification/Collab.thy ===== *)
theory Collab
  imports Git_Refs "HOL-Library.Multiset" "HOL-Library.Product_Lexorder"
begin

text \<open>
  The collaboration protocol of \<^verbatim>\<open>walgit-wal/src/collab.rs\<close>: signed entries, their canonical form, the
  entry set, threads, the view of a pull request and the merge rules.  Every client computes these
  from the same refs, so what matters is that the answer is a function of the set of entries and
  that only verified entries count where they must.

  Parameters (\<open>libs\<close>): the string escaping of \<^verbatim>\<open>serde_json\<close>, base64, Ed25519 and the parser
  of entries.  A string is its UTF-8 bytes, so comparing strings is comparing bytes, as in the
  source.  A float is represented by the text \<^verbatim>\<open>serde_json\<close> prints for it.
\<close>

section \<open>JSON values\<close>

datatype json_num = PosInt nat | NegInt int | Float string

datatype json =
    JNull
  | JBool bool
  | JNum json_num
  | JStr string
  | JArr "json list"
  | JObj "(string \<times> json) list"

fun json_get :: "json \<Rightarrow> string \<Rightarrow> json option" where
  "json_get (JObj o') k = map_of o' k"
| "json_get _ k = None"

fun as_str :: "json \<Rightarrow> string option" where
  "as_str (JStr s) = Some s"
| "as_str _ = None"

fun as_bool :: "json \<Rightarrow> bool option" where
  "as_bool (JBool b) = Some b"
| "as_bool _ = None"

fun as_array :: "json \<Rightarrow> json list option" where
  "as_array (JArr xs) = Some xs"
| "as_array _ = None"

fun as_u64 :: "json \<Rightarrow> nat option" where
  "as_u64 (JNum (PosInt n)) = Some n"
| "as_u64 _ = None"

fun as_i64 :: "json \<Rightarrow> int option" where
  "as_i64 (JNum (PosInt n)) = (if n < 2 ^ 63 then Some (int n) else None)"
| "as_i64 (JNum (NegInt i)) = Some i"
| "as_i64 _ = None"

definition get_str :: "json \<Rightarrow> string \<Rightarrow> string option" where
  "get_str body k = Option.bind (json_get body k) as_str"

definition get_bool :: "json \<Rightarrow> string \<Rightarrow> bool option" where
  "get_bool body k = Option.bind (json_get body k) as_bool"

fun num_text :: "json_num \<Rightarrow> string" where
  "num_text (PosInt n) = dec n"
| "num_text (NegInt i) = dec_int i"
| "num_text (Float s) = s"

fun commas :: "string list \<Rightarrow> string" where
  "commas [] = []"
| "commas [s] = s"
| "commas (s # ss) = s @ CHR '','' # commas ss"

text \<open>Key-sorted JSON without white space; \<open>esc\<close> is \<^verbatim>\<open>serde_json::to_string\<close> on a string.\<close>

fun canonicalize :: "(string \<Rightarrow> string) \<Rightarrow> json \<Rightarrow> string" where
  "canonicalize esc JNull = ''null''"
| "canonicalize esc (JBool b) = (if b then ''true'' else ''false'')"
| "canonicalize esc (JNum n) = num_text n"
| "canonicalize esc (JStr s) = esc s"
| "canonicalize esc (JArr vs) = CHR ''['' # commas (map (canonicalize esc) vs) @ '']''"
| "canonicalize esc (JObj kvs) =
     CHR 0x7B # commas (map (\<lambda>(k, s). esc k @ CHR '':'' # s)
       (sort_key fst (map (\<lambda>(k, v). (k, canonicalize esc v)) kvs))) @ [CHR 0x7D]"

section \<open>Entries\<close>

record entry_refs =
  er_base :: "string option"
  er_head :: "string option"

record entry =
  e_version :: nat
  e_kind :: string
  e_id :: string
  e_actor :: string
  e_ts :: int
  e_parent :: string
  e_refs :: "entry_refs option"
  e_body :: json
  e_sig :: string

record entry_ref =
  r_oid :: string
  r_principal :: string
  r_entry :: entry

record libs =
  l_escape :: "string \<Rightarrow> string"
  l_base64 :: "string \<Rightarrow> string option"
  l_signature :: "string \<Rightarrow> string option"
  l_key :: "string \<Rightarrow> string option"
  l_verify :: "string \<Rightarrow> string \<Rightarrow> string \<Rightarrow> bool"

definition json_int :: "int \<Rightarrow> json" where
  "json_int i = JNum (if 0 \<le> i then PosInt (nat i) else NegInt i)"

definition opt_field :: "string \<Rightarrow> string option \<Rightarrow> (string \<times> json) list" where
  "opt_field k v = (case v of None \<Rightarrow> [] | Some s \<Rightarrow> [(k, JStr s)])"

definition refs_value :: "entry_refs \<Rightarrow> json" where
  "refs_value rs = JObj (bt_of (opt_field ''base'' (er_base rs) @ opt_field ''head'' (er_head rs)))"

text \<open>\<^verbatim>\<open>serde_json::to_value\<close> of an entry, by its derive attributes: \<open>refs\<close> is skipped when it is None.\<close>

definition entry_value :: "entry \<Rightarrow> json" where
  "entry_value e = JObj (bt_of
     ([(''version'', JNum (PosInt (e_version e))), (''kind'', JStr (e_kind e)), (''id'', JStr (e_id e)),
       (''actor'', JStr (e_actor e)), (''ts'', json_int (e_ts e)), (''parent'', JStr (e_parent e))] @
      (case e_refs e of None \<Rightarrow> [] | Some rs \<Rightarrow> [(''refs'', refs_value rs)]) @
      [(''body'', e_body e), (''sig'', JStr (e_sig e))]))"

definition entry_canonical :: "libs \<Rightarrow> entry \<Rightarrow> string" where
  "entry_canonical L e = canonicalize (l_escape L) (entry_value (e\<lparr>e_sig := []\<rparr>))"

datatype sig_error =
    SigForm | SigBase64 | SigBytes | KeyBase64 | KeyLength | KeyBytes | SigMismatch

definition or_err :: "'e \<Rightarrow> 'a option \<Rightarrow> ('e, 'a) result" where
  "or_err e v = (case v of None \<Rightarrow> Err e | Some x \<Rightarrow> Ok x)"

definition verify_entry :: "libs \<Rightarrow> entry \<Rightarrow> string \<Rightarrow> (sig_error, unit) result" where
  "verify_entry L e public_key =
     rbind (or_err SigForm (strip_prefix ''ed25519:'' (e_sig e))) (\<lambda>sig_b64.
     rbind (or_err SigBase64 (l_base64 L sig_b64)) (\<lambda>sig_bytes.
     rbind (or_err SigBytes (l_signature L sig_bytes)) (\<lambda>sig.
     rbind (or_err KeyBase64 (l_base64 L (trim public_key))) (\<lambda>key_bytes.
     rbind (if length key_bytes = 32 then Ok key_bytes else Err KeyLength) (\<lambda>key_bytes.
     rbind (or_err KeyBytes (l_key L key_bytes)) (\<lambda>vk.
       if l_verify L vk (entry_canonical L e) sig then Ok () else Err SigMismatch))))))"

type_synonym principals = "string \<Rightarrow> string option"

definition is_verified :: "libs \<Rightarrow> principals \<Rightarrow> entry_ref \<Rightarrow> bool" where
  "is_verified L ps r \<longleftrightarrow> r_principal r = e_actor (r_entry r) \<and>
     (case ps (e_actor (r_entry r)) of None \<Rightarrow> False | Some k \<Rightarrow> is_ok (verify_entry L (r_entry r) k))"

section \<open>The entry set\<close>

record entry_set =
  es_entries :: "entry_ref list"
  es_by_oid :: "string \<Rightarrow> nat option"

definition entry_set_new :: entry_set where
  "entry_set_new = \<lparr>es_entries = [], es_by_oid = (\<lambda>_. None)\<rparr>"

definition entry_set_insert :: "entry_ref \<Rightarrow> entry_set \<Rightarrow> entry_set" where
  "entry_set_insert er S =
     (case es_by_oid S (r_oid er) of
        None \<Rightarrow> S\<lparr>es_by_oid := (es_by_oid S)(r_oid er \<mapsto> length (es_entries S)), es_entries := es_entries S @ [er]\<rparr>
      | Some i \<Rightarrow>
          (if i < length (es_entries S) \<and>
              r_principal (es_entries S ! i) \<noteq> e_actor (r_entry (es_entries S ! i)) \<and>
              r_principal er = e_actor (r_entry er)
           then S\<lparr>es_entries := (es_entries S)[i := er]\<rparr> else S))"

definition into_entries :: "entry_set \<Rightarrow> entry_ref list" where
  "into_entries S = es_entries S"

section \<open>Threads\<close>

definition thread_key :: "entry_ref \<Rightarrow> int \<times> string \<times> string" where
  "thread_key r = (e_ts (r_entry r), e_actor (r_entry r), r_oid r)"

text \<open>One pass over the pending entries: those whose parent is out, not there or none are emitted.\<close>

definition ready :: "string set \<Rightarrow> string set \<Rightarrow> entry_ref \<Rightarrow> bool" where
  "ready by_oid emitted r \<longleftrightarrow> e_parent (r_entry r) = [] \<or> e_parent (r_entry r) \<notin> by_oid \<or>
     e_parent (r_entry r) \<in> emitted"

fun thread_pass ::
  "string set \<Rightarrow> string set \<Rightarrow> entry_ref list \<Rightarrow> string set \<times> entry_ref list \<times> entry_ref list" where
  "thread_pass by_oid emitted [] = (emitted, [], [])"
| "thread_pass by_oid emitted (r # rs) =
     (if ready by_oid emitted r
      then (let (em, out, next') = thread_pass by_oid (insert (r_oid r) emitted) rs in (em, r # out, next'))
      else (let (em, out, next') = thread_pass by_oid emitted rs in (em, out, r # next')))"

lemma length_thread_pass:
  "thread_pass by_oid emitted rs = (em, out, next') \<Longrightarrow> length out + length next' = length rs"
  by (induction rs arbitrary: emitted em out next') (auto simp: Let_def split: if_splits prod.splits)

function thread_loop ::
  "string set \<Rightarrow> nat \<Rightarrow> string set \<Rightarrow> entry_ref list \<Rightarrow> entry_ref list \<Rightarrow> entry_ref list" where
  "thread_loop by_oid guard emitted out pending =
     (if pending \<noteq> [] \<and> guard < length pending * 2 + 1
      then (case thread_pass by_oid emitted pending of
              (em, new, next') \<Rightarrow> thread_loop by_oid (guard + 1) em (out @ new) next')
      else out @ pending)"
  by pat_completeness auto
termination
  by (relation "measure (\<lambda>(_, guard, _, _, pending). length pending * 2 + 1 - guard)")
    (auto dest!: length_thread_pass [OF sym])

declare thread_loop.simps [simp del]

definition thread :: "entry_ref list \<Rightarrow> entry_ref list" where
  "thread entries =
     thread_loop (set (map r_oid entries)) 0 {} [] (sort_key thread_key entries)"

section \<open>Pull requests and merge rules\<close>

record review =
  rv_actor :: string
  rv_decision :: string
  rv_ts :: int
  rv_oid :: string

record pr_view =
  pr_id :: string
  pr_base :: "string option"
  pr_head :: "string option"
  pr_status :: string
  pr_reviews :: "review list"
  pr_human_approvals :: "review list"
  pr_unverified :: "string list"

definition is_agent :: "string \<Rightarrow> bool" where
  "is_agent actor \<longleftrightarrow> starts_with actor ''svc-''"

definition or_opt :: "'a option \<Rightarrow> 'a option \<Rightarrow> 'a option" where
  "or_opt a b = (case a of None \<Rightarrow> b | Some _ \<Rightarrow> a)"

definition review_of :: "entry_ref \<Rightarrow> review" where
  "review_of r = \<lparr>rv_actor = e_actor (r_entry r),
     rv_decision = (case get_str (e_body (r_entry r)) ''decision'' of None \<Rightarrow> ''comment'' | Some d \<Rightarrow> d),
     rv_ts = e_ts (r_entry r), rv_oid = r_oid r\<rparr>"

text \<open>The body of the loop of \<open>pr_view\<close>.\<close>

definition pr_step :: "libs \<Rightarrow> principals \<Rightarrow> pr_view \<Rightarrow> entry_ref \<Rightarrow> pr_view" where
  "pr_step L ps pr r =
     (let e = r_entry r;
          pr = (if e_kind e = ''patch'' then
                  (case e_refs e of
                     None \<Rightarrow> pr
                   | Some rs \<Rightarrow> pr\<lparr>pr_base := or_opt (er_base rs) (pr_base pr), pr_head := or_opt (er_head rs) (pr_head pr)\<rparr>)
                else pr);
          verified = is_verified L ps r;
          pr = (if verified then pr
                else pr\<lparr>pr_unverified := pr_unverified pr @ [e_actor e @ CHR ''@'' # r_oid r]\<rparr>)
      in
        if e_kind e = ''status'' then
          (case get_str (e_body e) ''status'' of
             None \<Rightarrow> pr
           | Some st \<Rightarrow> if st = ''merged'' \<or> st = ''closed'' then pr\<lparr>pr_status := st\<rparr> else pr)
        else if e_kind e = ''merge_result'' then
          (if get_bool (e_body e) ''merged'' = Some True then pr\<lparr>pr_status := ''merged''\<rparr> else pr)
        else if e_kind e = ''review'' then
          (let rv = review_of r;
               pr = (if rv_decision rv = ''approve'' \<and> verified
                     then pr\<lparr>pr_human_approvals := pr_human_approvals pr @ [rv]\<rparr> else pr)
           in pr\<lparr>pr_reviews := pr_reviews pr @ [rv]\<rparr>)
        else pr)"

definition pr_start :: pr_view where
  "pr_start = \<lparr>pr_id = [], pr_base = None, pr_head = None, pr_status = ''open'', pr_reviews = [],
     pr_human_approvals = [], pr_unverified = []\<rparr>"

definition first_id :: "entry_ref list \<Rightarrow> string" where
  "first_id ordered = (case ordered of [] \<Rightarrow> [] | r # _ \<Rightarrow> e_id (r_entry r))"

definition pr_view_of :: "libs \<Rightarrow> principals \<Rightarrow> entry_ref list \<Rightarrow> pr_view" where
  "pr_view_of L ps entries =
     (let ordered = thread entries in (foldl (pr_step L ps) pr_start ordered)\<lparr>pr_id := first_id ordered\<rparr>)"

record merge_rules =
  mr_protect :: "string list"
  mr_approvals :: nat

definition default_approvals :: nat where
  "default_approvals = 1"

record merge_eval =
  me_allowed :: bool
  me_reason :: string
  me_satisfied_by :: "string list"

definition is_protected :: "merge_rules \<Rightarrow> pr_view \<Rightarrow> bool" where
  "is_protected rules pr \<longleftrightarrow>
     (case pr_base pr of None \<Rightarrow> False | Some b \<Rightarrow> list_ex (\<lambda>p. p = b \<or> starts_with b p) (mr_protect rules))"

definition merge_rule_eval :: "merge_rules \<Rightarrow> pr_view \<Rightarrow> merge_eval" where
  "merge_rule_eval rules pr =
     (if \<not> is_protected rules pr
      then \<lparr>me_allowed = True, me_reason = ''base is not protected'', me_satisfied_by = []\<rparr>
      else
        (let approvals = filter (\<lambda>r. rv_decision r = ''approve'' \<and> \<not> is_agent (rv_actor r)) (pr_human_approvals pr);
             satisfied_by = map rv_actor approvals
         in
           if mr_approvals rules \<le> length approvals
           then \<lparr>me_allowed = True, me_reason = dec (length approvals) @ '' human approval(s) on protected base'',
                  me_satisfied_by = satisfied_by\<rparr>
           else \<lparr>me_allowed = False,
                  me_reason = ''protected base needs '' @ dec (mr_approvals rules) @ '' human approval(s), got '' @
                    dec (length approvals),
                  me_satisfied_by = satisfied_by\<rparr>))"

section \<open>Status and references\<close>

definition status_step :: "string \<Rightarrow> entry_ref \<Rightarrow> string" where
  "status_step st r =
     (if e_kind (r_entry r) = ''status'' then
        (case get_str (e_body (r_entry r)) ''status'' of None \<Rightarrow> st | Some s \<Rightarrow> s)
      else if e_kind (r_entry r) = ''merge_result'' \<and> get_bool (e_body (r_entry r)) ''merged'' = Some True
      then ''merged'' else st)"

definition card_status :: "entry_ref list \<Rightarrow> string" where
  "card_status ordered = foldl status_step ''open'' ordered"

definition approves :: "libs \<Rightarrow> principals \<Rightarrow> entry_ref \<Rightarrow> bool" where
  "approves L ps r \<longleftrightarrow> e_kind (r_entry r) = ''review'' \<and>
     get_str (e_body (r_entry r)) ''decision'' = Some ''approve'' \<and> is_verified L ps r"

datatype transition_error = WrongStatus string | NoApproval

definition validate_status_transition ::
  "libs \<Rightarrow> principals \<Rightarrow> entry_ref list \<Rightarrow> (transition_error, unit) result" where
  "validate_status_transition L ps thread_entries =
     (let current = card_status thread_entries
      in
        if current \<noteq> ''needs-review'' then Err (WrongStatus current)
        else if \<not> list_ex (approves L ps) thread_entries then Err NoApproval
        else Ok ())"

definition referenced_oids :: "json \<Rightarrow> string list" where
  "referenced_oids body =
     List.map_filter as_str (concat (List.map_filter as_array (List.map_filter (json_get body) [''related'', ''depends_on''])))"

definition broken_refs :: "string list \<Rightarrow> string set \<Rightarrow> string list" where
  "broken_refs referenced known = filter (\<lambda>oid. oid \<notin> known) referenced"

section \<open>Lemmas: the canonical form determines the value\<close>

text \<open>What is known of the escaping: a JSON string is quoted and its end can be found.\<close>

definition quotes :: "(string \<Rightarrow> string) \<Rightarrow> bool" where
  "quotes esc \<longleftrightarrow> (\<forall>s. \<exists>t. esc s = CHR 0x22 # t) \<and>
     (\<forall>s t r r'. esc s @ r = esc t @ r' \<longrightarrow> s = t \<and> r = r')"

definition num_char :: "char \<Rightarrow> bool" where
  "num_char c \<longleftrightarrow> c \<in> set ''0123456789+-.eE''"

definition float_text :: "string \<Rightarrow> bool" where
  "float_text s \<longleftrightarrow> s \<noteq> [] \<and> list_all num_char s \<and> list_ex (\<lambda>c. c \<in> set ''.eE'') s"

fun num_ok :: "json_num \<Rightarrow> bool" where
  "num_ok (PosInt n) = True"
| "num_ok (NegInt i) = (i < 0)"
| "num_ok (Float s) = float_text s"

fun json_ok :: "json \<Rightarrow> bool" where
  "json_ok (JNum n) = num_ok n"
| "json_ok (JArr vs) = list_all json_ok vs"
| "json_ok (JObj kvs) = (bt_ok kvs \<and> list_all (\<lambda>(k, v). json_ok v) kvs)"
| "json_ok _ = True"

definition delim :: "string \<Rightarrow> bool" where
  "delim r \<longleftrightarrow> r = [] \<or> hd r = CHR '','' \<or> hd r = CHR '']'' \<or> hd r = CHR 0x7D"

lemma digit_num_char: "c \<in> set ''0123456789'' \<Longrightarrow> num_char c"
  unfolding num_char_def by fastforce

lemma dec_num_char: "c \<in> set (dec n) \<Longrightarrow> num_char c"
  using dec_digits [of n] digit_num_char by blast

lemma num_text_chars:
  assumes "num_ok n"
  shows "num_text n \<noteq> [] \<and> (\<forall>c \<in> set (num_text n). num_char c)"
proof -
  have minus: "num_char (CHR ''-'')" by (simp add: num_char_def)
  show ?thesis
    using assms dec_digits dec_num_char minus
    by (cases n) (auto simp: dec_int_def float_text_def list_all_iff set_ConsD simp del: list.set dest: set_ConsD)
qed

lemma num_text_inj:
  assumes "num_ok m" "num_ok n" "num_text m = num_text n"
  shows "m = n"
proof -
  have pos: "\<not> list_ex (\<lambda>c. c \<in> set ''.eE'') (dec k)" for k
    using dec_digits [of k] by (auto simp: list_ex_iff)
  have neg: "\<not> list_ex (\<lambda>c. c \<in> set ''.eE'') (dec_int i)" for i
    using pos by (simp add: dec_int_def)
  have minus: "dec k \<noteq> CHR ''-'' # t" "CHR ''-'' # t \<noteq> dec k" for k t
  proof -
    have "CHR ''-'' \<notin> set (dec k)" using dec_digits [of k] by auto
    then show "dec k \<noteq> CHR ''-'' # t" "CHR ''-'' # t \<noteq> dec k" by (metis list.set_intros(1))+
  qed
  show ?thesis
  proof (cases m; cases n)
    fix a b assume "m = NegInt a" "n = NegInt b"
    then show ?thesis using assms dec_inj [of "nat (- a)" "nat (- b)"] by (simp add: dec_int_def)
  qed (use assms dec_inj pos neg minus in \<open>auto simp: float_text_def dec_int_def\<close>)
qed

lemma span_inj:
  assumes "xs @ r = ys @ r'" "\<forall>c \<in> set xs. P c" "\<forall>c \<in> set ys. P c"
    and "r = [] \<or> \<not> P (hd r)" "r' = [] \<or> \<not> P (hd r')"
  shows "xs = ys \<and> r = r'"
proof -
  have tw: "takeWhile P (zs @ q) = zs" if "\<forall>c \<in> set zs. P c" "q = [] \<or> \<not> P (hd q)" for zs q
    using that by (cases q) (auto simp: takeWhile_append)
  have "xs = ys" using assms tw [of xs r] tw [of ys r'] by simp
  then show ?thesis using assms(1) by simp
qed

lemma commas_Cons: "commas (s # ss) = s @ concat (map (\<lambda>t. CHR '','' # t) ss)"
  by (induction ss arbitrary: s) auto

text \<open>Members printed by \<open>f\<close>, separated by commas and closed by a bracket.\<close>

lemma commas_inj:
  assumes close: "cl = CHR '']'' \<or> cl = CHR 0x7D"
    and inj: "\<And>x y r r'. x \<in> set xs \<Longrightarrow> y \<in> set ys \<Longrightarrow> delim r \<Longrightarrow> delim r' \<Longrightarrow>
      f x @ r = f y @ r' \<Longrightarrow> x = y \<and> r = r'"
    and ne: "\<And>x. x \<in> set xs \<union> set ys \<Longrightarrow> f x \<noteq> [] \<and> hd (f x) \<noteq> cl"
    and eq: "commas (map f xs) @ cl # r = commas (map f ys) @ cl # r'"
  shows "xs = ys \<and> r = r'"
proof -
  define tl' where "tl' zs q = concat (map (\<lambda>t. CHR '','' # t) (map f zs)) @ cl # q" for zs q
  have tl_delim: "delim (tl' zs q)" for zs q
    using close by (cases zs) (auto simp: tl'_def delim_def)
  have tl_inj: "us = vs \<and> q = q'"
    if "tl' us q = tl' vs q'" "set us \<subseteq> set xs" "set vs \<subseteq> set ys" for us vs q q'
    using that
  proof (induction us arbitrary: vs)
    case Nil
    then show ?case using close by (cases vs) (auto simp: tl'_def)
  next
    case (Cons u us)
    then obtain v vs' where vs: "vs = v # vs'" using close by (cases vs) (auto simp: tl'_def)
    have "f u @ tl' us q = f v @ tl' vs' q'" using Cons.prems(1) vs by (simp add: tl'_def)
    then have "u = v \<and> tl' us q = tl' vs' q'" using inj [OF _ _ tl_delim tl_delim] Cons.prems vs by auto
    then show ?case using Cons.IH [of vs'] Cons.prems vs by simp
  qed
  have lead: "hd (commas (map f (z # zs)) @ u) \<noteq> cl" if "z \<in> set xs \<union> set ys" for z zs u
    using ne [OF that] by (simp add: commas_Cons)
  show ?thesis
  proof (cases xs; cases ys)
    fix y ys' assume "xs = []" "ys = y # ys'"
    then show ?thesis using lead [of y ys' "cl # r'"] arg_cong [OF eq, of hd] by simp
  next
    fix x xs' assume "ys = []" "xs = x # xs'"
    then show ?thesis using lead [of x xs' "cl # r"] arg_cong [OF eq, of hd] by simp
  next
    fix x xs' y ys' assume c: "xs = x # xs'" "ys = y # ys'"
    then have "f x @ tl' xs' r = f y @ tl' ys' r'" using eq by (simp add: commas_Cons tl'_def)
    then have "x = y \<and> tl' xs' r = tl' ys' r'" using inj [of x y "tl' xs' r" "tl' ys' r'"] tl_delim c by simp
    then show ?thesis using tl_inj [of xs' r ys' r'] c by auto
  qed (use eq in simp)
qed

lemma sort_key_bt_ok: "bt_ok kvs \<Longrightarrow> sort_key fst kvs = kvs"
  by (rule sort_key_id_if_sorted) (simp add: bt_ok_def strict_sorted_iff)

text \<open>The first byte tells the kind of a value.\<close>

definition lead :: "(string \<Rightarrow> string) \<Rightarrow> json \<Rightarrow> char" where
  "lead esc v = hd (canonicalize esc v)"

lemma canonicalize_lead:
  assumes "quotes esc" "json_ok v"
  shows "canonicalize esc v \<noteq> []"
    "case v of JNull \<Rightarrow> lead esc v = CHR ''n'' | JBool b \<Rightarrow> lead esc v = (if b then CHR ''t'' else CHR ''f'')
     | JNum n \<Rightarrow> num_char (lead esc v) | JStr s \<Rightarrow> lead esc v = CHR 0x22 | JArr vs \<Rightarrow> lead esc v = CHR ''[''
     | JObj kvs \<Rightarrow> lead esc v = CHR 0x7B"
proof -
  have q: "esc s \<noteq> [] \<and> hd (esc s) = CHR 0x22" for s using assms(1) unfolding quotes_def by (metis list.distinct(1) list.sel(1))
  have n: "num_ok m \<Longrightarrow> num_text m \<noteq> [] \<and> num_char (hd (num_text m))" for m using num_text_chars [of m] by auto
  show "canonicalize esc v \<noteq> []" using assms(2) q n by (cases v) auto
  show "case v of JNull \<Rightarrow> lead esc v = CHR ''n'' | JBool b \<Rightarrow> lead esc v = (if b then CHR ''t'' else CHR ''f'')
     | JNum n \<Rightarrow> num_char (lead esc v) | JStr s \<Rightarrow> lead esc v = CHR 0x22 | JArr vs \<Rightarrow> lead esc v = CHR ''[''
     | JObj kvs \<Rightarrow> lead esc v = CHR 0x7B"
    using assms(2) q n by (cases v) (auto simp: lead_def)
qed

lemma not_num_char [simp]:
  "\<not> num_char (CHR ''n'')" "\<not> num_char (CHR ''t'')" "\<not> num_char (CHR ''f'')" "\<not> num_char (CHR 0x22)"
  "\<not> num_char (CHR ''['')" "\<not> num_char (CHR 0x7B)" "\<not> num_char (CHR '','')" "\<not> num_char (CHR '']'')"
  "\<not> num_char (CHR 0x7D)"
  by (simp_all add: num_char_def)

lemma canonicalize_head:
  assumes "quotes esc" "json_ok v"
  shows "lead esc v \<noteq> CHR '']'' \<and> lead esc v \<noteq> CHR 0x7D"
  using canonicalize_lead(2) [OF assms] by (cases v) auto

lemma canonicalize_sorted:
  assumes "bt_ok kvs"
  shows "canonicalize esc (JObj kvs) =
    CHR 0x7B # commas (map (\<lambda>(k, v). esc k @ CHR '':'' # canonicalize esc v) kvs) @ [CHR 0x7D]"
proof -
  let ?f = "\<lambda>(k, v). (k, canonicalize esc v)"
  have "bt_ok (map ?f kvs)" using assms by (simp add: bt_ok_def comp_def case_prod_unfold)
  then have "sort_key fst (map ?f kvs) = map ?f kvs" by (rule sort_key_bt_ok)
  then show ?thesis by (simp add: comp_def case_prod_unfold)
qed

lemma same_kind:
  assumes q: "quotes esc" and ok: "json_ok v" "json_ok w"
    and eq: "canonicalize esc v @ r = canonicalize esc w @ r'"
  shows "case v of JNull \<Rightarrow> w = JNull | JBool b \<Rightarrow> w = JBool b | JNum n \<Rightarrow> \<exists>n'. w = JNum n'
    | JStr s \<Rightarrow> \<exists>t. w = JStr t | JArr vs \<Rightarrow> \<exists>ws. w = JArr ws | JObj kvs \<Rightarrow> \<exists>kws. w = JObj kws"
proof -
  have "lead esc v = lead esc w"
    using canonicalize_lead(1) [OF q ok(1)] canonicalize_lead(1) [OF q ok(2)] arg_cong [OF eq, of hd]
    by (simp add: lead_def hd_append)
  then show ?thesis
    using canonicalize_lead(2) [OF q ok(1)] canonicalize_lead(2) [OF q ok(2)]
    by (cases v; cases w) (simp_all split: if_splits)
qed

lemma members_inj:
  assumes q: "quotes esc"
    and inj: "\<And>p w r r'. p \<in> set kvs \<Longrightarrow> json_ok w \<Longrightarrow> delim r \<Longrightarrow> delim r' \<Longrightarrow>
      canonicalize esc (snd p) @ r = canonicalize esc w @ r' \<Longrightarrow> snd p = w \<and> r = r'"
    and p: "p \<in> set kvs" "json_ok (snd p')" "delim r" "delim r'"
    and eq: "(\<lambda>(k, v). esc k @ CHR '':'' # canonicalize esc v) p @ r =
      (\<lambda>(k, v). esc k @ CHR '':'' # canonicalize esc v) p' @ r'"
  shows "p = p' \<and> r = r'"
proof -
  have "esc (fst p) @ CHR '':'' # canonicalize esc (snd p) @ r =
      esc (fst p') @ CHR '':'' # canonicalize esc (snd p') @ r'" using eq by (simp add: case_prod_unfold)
  then have "fst p = fst p' \<and> canonicalize esc (snd p) @ r = canonicalize esc (snd p') @ r'"
    using q unfolding quotes_def by blast
  then show ?thesis using inj [OF p(1,2,3,4)] by (simp add: prod_eq_iff)
qed

lemma canonicalize_cancel:
  assumes q: "quotes esc"
  shows "json_ok v \<Longrightarrow> json_ok w \<Longrightarrow> delim r \<Longrightarrow> delim r' \<Longrightarrow>
    canonicalize esc v @ r = canonicalize esc w @ r' \<Longrightarrow> v = w \<and> r = r'"
proof (induction v arbitrary: w r r')
  case JNull
  then show ?case using same_kind [OF q JNull(1,2,5)] by simp
next
  case (JBool b)
  then show ?case using same_kind [OF q JBool(1,2,5)] by simp
next
  case (JNum n)
  then obtain n' where w: "w = JNum n'" using same_kind [OF q JNum(1,2,5)] by auto
  have d: "q = [] \<or> \<not> num_char (hd q)" if "delim q" for q using that by (auto simp: delim_def)
  have "num_text n = num_text n' \<and> r = r'"
    by (rule span_inj [where P = num_char]) (use JNum w num_text_chars d in auto)
  then show ?case using num_text_inj [of n n'] JNum w by simp
next
  case (JStr s)
  then obtain t where w: "w = JStr t" using same_kind [OF q JStr(1,2,5)] by auto
  then have "esc s @ r = esc t @ r'" using JStr(5) by simp
  then show ?case using q unfolding quotes_def w by blast
next
  case (JArr vs)
  then obtain ws where w: "w = JArr ws" using same_kind [OF q JArr(2,3,6)] by auto
  have ok: "\<forall>v \<in> set vs \<union> set ws. json_ok v" using JArr(2,3) w by (auto simp: list_all_iff)
  have "vs = ws \<and> r = r'"
  proof (rule commas_inj [where cl = "CHR '']''" and f = "canonicalize esc"])
    show "commas (map (canonicalize esc) vs) @ CHR '']'' # r = commas (map (canonicalize esc) ws) @ CHR '']'' # r'"
      using JArr(6) w by simp
    show "x = y \<and> p = p'" if "x \<in> set vs" "y \<in> set ws" "delim p" "delim p'"
      "canonicalize esc x @ p = canonicalize esc y @ p'" for x y p p'
      using JArr(1) [of x y p p'] ok that by blast
    show "canonicalize esc x \<noteq> [] \<and> hd (canonicalize esc x) \<noteq> CHR '']''" if "x \<in> set vs \<union> set ws" for x
      using canonicalize_lead(1) [OF q, of x] canonicalize_head [OF q, of x] ok that by (simp add: lead_def)
  qed simp
  then show ?case using w by simp
next
  case (JObj kvs)
  then obtain kws where w: "w = JObj kws" using same_kind [OF q JObj(2,3,6)] by auto
  have ok: "bt_ok kvs" "bt_ok kws" "\<And>p. p \<in> set kvs \<union> set kws \<Longrightarrow> json_ok (snd p)"
    using JObj(2,3) w by (auto simp: list_all_iff)
  have q0: "esc k \<noteq> [] \<and> hd (esc k) = CHR 0x22" for k using q unfolding quotes_def by (metis list.distinct(1) list.sel(1))
  have IH: "snd p = v \<and> q = q'" if "p \<in> set kvs" "json_ok v" "delim q" "delim q'"
      "canonicalize esc (snd p) @ q = canonicalize esc v @ q'" for p v q q'
    using JObj(1) [of p "snd p" v q q'] ok(3) that by (simp add: snds.simps)
  have "kvs = kws \<and> r = r'"
  proof (rule commas_inj [where cl = "CHR 0x7D" and f = "\<lambda>(k, v). esc k @ CHR '':'' # canonicalize esc v"])
    show "commas (map (\<lambda>(k, v). esc k @ CHR '':'' # canonicalize esc v) kvs) @ CHR 0x7D # r =
        commas (map (\<lambda>(k, v). esc k @ CHR '':'' # canonicalize esc v) kws) @ CHR 0x7D # r'"
      using JObj(6) w canonicalize_sorted [OF ok(1)] canonicalize_sorted [OF ok(2)] by simp
    show "p = p' \<and> q = q'" if "p \<in> set kvs" "p' \<in> set kws" "delim q" "delim q'"
      "(case p of (k, v) \<Rightarrow> esc k @ CHR '':'' # canonicalize esc v) @ q =
       (case p' of (k, v) \<Rightarrow> esc k @ CHR '':'' # canonicalize esc v) @ q'" for p p' q q'
      by (rule members_inj [OF q IH that(1) ok(3) that(3-5)]) (use that in auto)
  qed (use q0 in \<open>auto simp: hd_append\<close>)
  then show ?case using w by simp
qed

lemma json_ok_bt_of:
  assumes "\<forall>p \<in> set kvs. json_ok (snd p)"
  shows "json_ok (JObj (bt_of kvs))"
proof -
  have "snd p \<in> snd ` set kvs" if "p \<in> set (bt_of kvs)" for p
    using bt_get_of [of kvs "fst p"] bt_get_iff [of "bt_of kvs" "fst p" "snd p"] that
    by (auto dest!: map_of_SomeD)
  then show ?thesis using assms by (fastforce simp: list_all_iff)
qed

lemma entry_value_ok: "json_ok (e_body e) \<Longrightarrow> json_ok (entry_value e)"
  unfolding entry_value_def refs_value_def
  by (rule json_ok_bt_of)
    (auto simp: json_int_def opt_field_def split: option.splits intro!: json_ok_bt_of simp del: json_ok.simps(3))

lemma bt_of_field: "bt_of kvs = bt_of kvs' \<Longrightarrow> map_of (rev kvs) k = map_of (rev kvs') k"
  by (metis bt_get_of)

lemma refs_value_inj: "refs_value a = refs_value b \<Longrightarrow> a = b"
  unfolding refs_value_def json.inject
  using bt_of_field [of _ _ "''base''"] bt_of_field [of _ _ "''head''"]
  by (fastforce simp: opt_field_def intro: entry_refs.equality split: option.splits)

lemma entry_value_inj:
  assumes "entry_value e = entry_value e'"
  shows "e = e'"
proof -
  note field = bt_of_field [OF assms [unfolded entry_value_def json.inject]]
  have refs: "e_refs e = e_refs e'"
    using field [of "''refs''"] refs_value_inj by (auto split: option.splits)
  have "e_version e = e_version e'" using field [of "''version''"] by (auto split: option.splits)
  moreover have "e_kind e = e_kind e'" using field [of "''kind''"] by (auto split: option.splits)
  moreover have "e_id e = e_id e'" using field [of "''id''"] by (auto split: option.splits)
  moreover have "e_actor e = e_actor e'" using field [of "''actor''"] by (auto split: option.splits)
  moreover have "e_ts e = e_ts e'"
    using field [of "''ts''"] by (auto simp: json_int_def split: option.splits if_splits)
  moreover have "e_parent e = e_parent e'" using field [of "''parent''"] by (auto split: option.splits)
  moreover have "e_body e = e_body e'" using field [of "''body''"] by (auto split: option.splits)
  moreover have "e_sig e = e_sig e'" using field [of "''sig''"] by (auto split: option.splits)
  ultimately show ?thesis using refs by simp
qed

section \<open>Lemmas: threads\<close>

lemma mset_thread_pass:
  "thread_pass by_oid emitted rs = (em, out, next') \<Longrightarrow> mset out + mset next' = mset rs"
  by (induction rs arbitrary: emitted em out next') (auto simp: Let_def split: if_splits prod.splits)

lemma mset_thread_loop: "mset (thread_loop by_oid guard emitted out pending) = mset out + mset pending"
proof (induction by_oid guard emitted out pending rule: thread_loop.induct)
  case (1 by_oid guard emitted out pending)
  obtain em new next' where p: "thread_pass by_oid emitted pending = (em, new, next')" by (cases "thread_pass by_oid emitted pending")
  show ?case
  proof (cases "pending \<noteq> [] \<and> guard < length pending * 2 + 1")
    case True
    then show ?thesis
      using 1 [OF True p [symmetric] refl] mset_thread_pass [OF p]
      by (simp add: thread_loop.simps [of by_oid guard] p union_assoc)
  qed (auto simp: thread_loop.simps [of by_oid guard])
qed

lemma mset_thread: "mset (thread es) = mset es"
  by (simp add: thread_def mset_thread_loop)

lemma thread_key_inj: "distinct (map r_oid es) \<Longrightarrow> inj_on thread_key (set es)"
  by (rule inj_onI) (auto simp: thread_key_def distinct_map dest: inj_onD)

text \<open>A thread is a function of the set of its entries.\<close>

lemma thread_perm:
  assumes "mset es = mset es'" "distinct (map r_oid es)"
  shows "thread es = thread es'"
proof -
  have "sort_key thread_key es = sort_key thread_key es'"
  proof (rule sort_key_inj_key_eq)
    show "mset es = mset (sort_key thread_key es')" using assms(1) by simp
    show "inj_on thread_key (set es)" by (rule thread_key_inj [OF assms(2)])
  qed simp
  moreover have "set es = set es'" using assms(1) by (rule mset_eq_setD)
  ultimately show ?thesis by (simp add: thread_def)
qed

text \<open>No entry sorts before its parent: clocks agree with the chain.\<close>

definition clocks_agree :: "entry_ref list \<Rightarrow> bool" where
  "clocks_agree es \<longleftrightarrow>
     (\<forall>r \<in> set es. \<forall>p \<in> set es. r_oid p = e_parent (r_entry r) \<longrightarrow> e_parent (r_entry r) = [] \<or> thread_key p < thread_key r)"

definition parents_first :: "entry_ref list \<Rightarrow> bool" where
  "parents_first es \<longleftrightarrow>
     (\<forall>i < length es. \<forall>j < length es. r_oid (es ! j) = e_parent (r_entry (es ! i)) \<longrightarrow>
        e_parent (r_entry (es ! i)) = [] \<or> j < i)"

lemma thread_pass_all:
  assumes "\<forall>i < length rs. ready by_oid (emitted \<union> r_oid ` set (take i rs)) (rs ! i)"
  shows "thread_pass by_oid emitted rs = (emitted \<union> r_oid ` set rs, rs, [])"
  using assms
proof (induction rs arbitrary: emitted)
  case (Cons r rs)
  have "ready by_oid emitted r" using Cons.prems by force
  moreover have "\<forall>i < length rs. ready by_oid (insert (r_oid r) emitted \<union> r_oid ` set (take i rs)) (rs ! i)"
  proof (intro allI impI)
    fix i assume "i < length rs"
    then have "ready by_oid (emitted \<union> r_oid ` set (take (Suc i) (r # rs))) ((r # rs) ! Suc i)"
      using Cons.prems by (metis Suc_less_eq length_Cons)
    then show "ready by_oid (insert (r_oid r) emitted \<union> r_oid ` set (take i rs)) (rs ! i)" by simp
  qed
  ultimately show ?case using Cons.IH [of "insert (r_oid r) emitted"] by simp
qed simp

lemma sorted_before:
  assumes "sorted (map f xs)" "i < length xs" "j < length xs" "f (xs ! j) < f (xs ! i)"
  shows "j < i"
proof (rule ccontr)
  assume "\<not> j < i"
  then have "map f xs ! i \<le> map f xs ! j" using assms(1,3) by (intro sorted_nth_mono) simp_all
  then show False using assms(2-4) by simp
qed

lemma thread_sorted:
  assumes "clocks_agree es"
  shows "thread es = sort_key thread_key es" "parents_first (thread es)"
proof -
  let ?rs = "sort_key thread_key es"
  have before: "j < i" if "i < length ?rs" "j < length ?rs" "r_oid (?rs ! j) = e_parent (r_entry (?rs ! i))"
      "e_parent (r_entry (?rs ! i)) \<noteq> []" for i j
  proof (rule sorted_before [where f = thread_key and xs = ?rs])
    have "?rs ! i \<in> set es" "?rs ! j \<in> set es" using that(1,2) nth_mem by (metis set_sort)+
    then show "thread_key (?rs ! j) < thread_key (?rs ! i)" using assms that(3,4) unfolding clocks_agree_def by blast
  qed (use that in simp_all)
  have "ready (set (map r_oid es)) ({} \<union> r_oid ` set (take i ?rs)) (?rs ! i)" if "i < length ?rs" for i
  proof (cases "e_parent (r_entry (?rs ! i)) = [] \<or> e_parent (r_entry (?rs ! i)) \<notin> set (map r_oid es)")
    case False
    then obtain j where j: "j < length ?rs" "r_oid (?rs ! j) = e_parent (r_entry (?rs ! i))"
      by (metis (no_types, lifting) imageE in_set_conv_nth list.set_map set_sort)
    then have "j < i" using before that False by blast
    then have "?rs ! j \<in> set (take i ?rs)" using that by (auto simp: in_set_conv_nth intro!: exI [of _ j])
    then show ?thesis using j(2) by (auto simp: ready_def intro!: image_eqI [of _ _ "?rs ! j"])
  qed (auto simp: ready_def)
  then have pass: "thread_pass (set (map r_oid es)) {} ?rs = ({} \<union> r_oid ` set ?rs, ?rs, [])"
    by (intro thread_pass_all) blast
  then show eq: "thread es = ?rs"
    by (cases "?rs = []") (simp_all add: thread_def thread_loop.simps)
  show "parents_first (thread es)" unfolding parents_first_def eq using before by blast
qed

section \<open>Lemmas: approvals\<close>

lemma pr_step_approvals:
  "pr_human_approvals (pr_step L ps pr r) =
     pr_human_approvals pr @ (if approves L ps r then [review_of r] else [])"
  by (auto simp: pr_step_def approves_def review_of_def Let_def split: option.splits)

lemma pr_view_approvals:
  "pr_human_approvals (pr_view_of L ps es) = map review_of (filter (approves L ps) (thread es))"
proof -
  have "pr_human_approvals (foldl (pr_step L ps) pr rs) =
      pr_human_approvals pr @ map review_of (filter (approves L ps) rs)" for pr rs
    by (induction rs arbitrary: pr) (simp_all add: pr_step_approvals)
  then show ?thesis by (simp add: pr_view_of_def Let_def pr_start_def)
qed

lemma human_approvals:
  "filter (\<lambda>r. rv_decision r = ''approve'' \<and> \<not> is_agent (rv_actor r)) (map review_of (filter (approves L ps) rs)) =
     map review_of (filter (\<lambda>r. approves L ps r \<and> \<not> is_agent (e_actor (r_entry r))) rs)"
  by (induction rs) (auto simp: review_of_def approves_def)

lemma length_filter_mset: "mset xs = mset ys \<Longrightarrow> length (filter P xs) = length (filter P ys)"
  by (metis mset_filter size_mset)

text \<open>The last \<open>patch\<close> of the thread that names a base decides the base.\<close>

definition patch_base :: "entry_ref \<Rightarrow> string option" where
  "patch_base r = (if e_kind (r_entry r) = ''patch'' then Option.bind (e_refs (r_entry r)) er_base else None)"

lemma pr_step_base: "pr_base (pr_step L ps pr r) = or_opt (patch_base r) (pr_base pr)"
  by (auto simp: pr_step_def patch_base_def or_opt_def Let_def split: option.splits)

section \<open>Sample entries\<close>

text \<open>A plain escaping, and a signature scheme in which a signature is the key followed by the text.\<close>

definition sample_escape :: "string \<Rightarrow> string" where
  "sample_escape s =
     CHR 0x22 # concat (map (\<lambda>c. if c = CHR 0x22 \<or> c = CHR 0x5C then [CHR 0x5C, c] else [c]) s) @ [CHR 0x22]"

definition sample_libs :: libs where
  "sample_libs = \<lparr>l_escape = sample_escape, l_base64 = Some, l_signature = Some, l_key = Some,
     l_verify = (\<lambda>key text sig. sig = key @ text)\<rparr>"

definition sample_pk :: string where
  "sample_pk = replicate 32 (CHR ''k'')"

definition sample_principals :: principals where
  "sample_principals = (\<lambda>a. if a = ''alice'' \<or> a = ''bob'' then Some sample_pk else None)"

definition sample_collab :: "string \<Rightarrow> string \<Rightarrow> string \<Rightarrow> int \<Rightarrow> string \<Rightarrow> entry_refs option \<Rightarrow> json \<Rightarrow> entry" where
  "sample_collab id' kd actor ts parent rs body = \<lparr>e_version = 1, e_kind = kd, e_id = id', e_actor = actor,
     e_ts = ts, e_parent = parent, e_refs = rs, e_body = body, e_sig = []\<rparr>"

definition sign_sample :: "entry \<Rightarrow> entry" where
  "sign_sample e = e\<lparr>e_sig := ''ed25519:'' @ sample_pk @ entry_canonical sample_libs e\<rparr>"

definition in_inbox :: "string \<Rightarrow> string \<Rightarrow> entry \<Rightarrow> entry_ref" where
  "in_inbox k who e = \<lparr>r_oid = k, r_principal = who, r_entry = e\<rparr>"

lemma sample_escape_cancel:
  "concat (map (\<lambda>c. if c = CHR 0x22 \<or> c = CHR 0x5C then [CHR 0x5C, c] else [c]) s) @ CHR 0x22 # r =
   concat (map (\<lambda>c. if c = CHR 0x22 \<or> c = CHR 0x5C then [CHR 0x5C, c] else [c]) t) @ CHR 0x22 # r' \<Longrightarrow>
   s = t \<and> r = r'"
proof (induction s arbitrary: t)
  case Nil
  then show ?case by (cases t) (auto split: if_splits)
next
  case (Cons c s)
  then show ?case by (cases t) (auto split: if_splits)
qed

lemma sample_quotes: "quotes (l_escape sample_libs)"
  unfolding quotes_def sample_libs_def libs.select_convs sample_escape_def
proof (intro conjI allI impI)
  fix s t r r' :: string
  let ?m = "\<lambda>s. concat (map (\<lambda>c. if c = CHR 0x22 \<or> c = CHR 0x5C then [CHR 0x5C, c] else [c]) s)"
  assume "(CHR 0x22 # ?m s @ [CHR 0x22]) @ r = (CHR 0x22 # ?m t @ [CHR 0x22]) @ r'"
  then have "?m s @ CHR 0x22 # r = ?m t @ CHR 0x22 # r'" by simp
  from sample_escape_cancel [OF this] show "s = t" "r = r'" by simp_all
qed blast

section \<open>What is signed\<close>

text \<open>
  C23. A signature covers the whole entry: two entries with the same canonical bytes agree in every
  field but the signature itself, whatever their bodies are.
\<close>

theorem entry_canonical_binds:
  assumes "quotes (l_escape L)" "json_ok (e_body e)" "json_ok (e_body e')"
    and "entry_canonical L e = entry_canonical L e'"
  shows "e\<lparr>e_sig := []\<rparr> = e'\<lparr>e_sig := []\<rparr>"
proof (rule entry_value_inj)
  have "json_ok (entry_value (e\<lparr>e_sig := []\<rparr>))" "json_ok (entry_value (e'\<lparr>e_sig := []\<rparr>))"
    using assms(2,3) by (simp_all add: entry_value_ok)
  then show "entry_value (e\<lparr>e_sig := []\<rparr>) = entry_value (e'\<lparr>e_sig := []\<rparr>)"
    using canonicalize_cancel [OF assms(1), of _ _ "[]" "[]"] assms(4) by (simp add: entry_canonical_def delim_def)
qed

theorem entry_canonical_binds_witness:
  "entry_canonical sample_libs (sample_collab ''t'' ''review'' ''alice'' 1 [] None (JObj [(''decision'', JStr ''approve'')])) \<noteq>
   entry_canonical sample_libs (sample_collab ''t'' ''review'' ''alice'' 1 [] None (JObj [(''decision'', JStr ''comment'')]))"
  using entry_canonical_binds [OF sample_quotes,
      of "sample_collab ''t'' ''review'' ''alice'' 1 [] None (JObj [(''decision'', JStr ''approve'')])"
         "sample_collab ''t'' ''review'' ''alice'' 1 [] None (JObj [(''decision'', JStr ''comment'')])"]
  by (auto simp: sample_collab_def bt_ok_def)

section \<open>Threads\<close>


definition sample_thread :: "entry_ref list" where
  "sample_thread =
     [in_inbox ''1'' ''alice'' (sample_collab ''t'' ''issue'' ''alice'' 1 [] None JNull),
      in_inbox ''2'' ''bob'' (sample_collab ''t'' ''comment'' ''bob'' 2 ''1'' None JNull)]"


text \<open>Seven entries, each a reply to the one before, written with clocks that run backwards.\<close>

definition late_entry :: "nat \<Rightarrow> entry_ref" where
  "late_entry i = in_inbox (dec i) ''alice''
     (sample_collab ''t'' ''comment'' ''alice'' (10 - int i) (if i = 1 then [] else dec (i - 1)) None JNull)"

definition late_chain :: "entry_ref list" where
  "late_chain = map late_entry [1, 2, 3, 4, 5, 6, 7]"

lemma late_chain_thread: "thread late_chain = map late_entry [1, 2, 3, 4, 5, 7, 6]"
  by code_simp

lemma late_chain_order: "\<not> parents_first (map late_entry [1, 2, 3, 4, 5, 7, 6])"
proof
  assume "parents_first (map late_entry [1, 2, 3, 4, 5, 7, 6])"
  from this [unfolded parents_first_def, rule_format, of 5 6] show False
    by (simp add: late_entry_def in_inbox_def sample_collab_def dec.simps)
qed

text \<open>
  The bound on the passes of \<open>thread\<close> is too small for a chain of seven replies whose clocks run
  backwards: there is no cycle and no parent is missing, yet the last reply comes before the entry
  it replies to, and the tip of the thread is the wrong entry.
\<close>

theorem thread_misplaces_reply:
  "map r_oid (thread late_chain) = [''1'', ''2'', ''3'', ''4'', ''5'', ''7'', ''6''] \<and>
   \<not> parents_first (thread late_chain)"
  unfolding late_chain_thread using late_chain_order
  by (simp add: late_entry_def in_inbox_def dec.simps digit_def)

section \<open>Merge rules\<close>


definition main_patch :: entry_ref where
  "main_patch = in_inbox ''1'' ''alice'' (sign_sample (sample_collab ''t'' ''patch'' ''alice'' 1 []
     (Some \<lparr>er_base = Some ''refs/heads/main'', er_head = Some ''refs/heads/topic''\<rparr>) JNull))"

definition planted_patch :: entry_ref where
  "planted_patch = in_inbox ''2'' ''mallory'' (sample_collab ''t'' ''patch'' ''alice'' 2 ''1''
     (Some \<lparr>er_base = Some ''refs/heads/scratch'', er_head = None\<rparr>) JNull)"

definition main_rules :: merge_rules where
  "main_rules = \<lparr>mr_protect = [''refs/heads/main''], mr_approvals = 1\<rparr>"

text \<open>
  The base is taken from unverified entries too: an unsigned \<open>patch\<close> planted in another inbox
  moves the base of a verified pull request to an unprotected branch, and the rules then allow a
  merge without any approval.
\<close>

theorem planted_patch_lifts_protection:
  "is_verified sample_libs sample_principals main_patch \<and>
   \<not> is_verified sample_libs sample_principals planted_patch \<and>
   \<not> me_allowed (merge_rule_eval main_rules (pr_view_of sample_libs sample_principals [main_patch])) \<and>
   me_allowed (merge_rule_eval main_rules (pr_view_of sample_libs sample_principals [main_patch, planted_patch]))"
  by code_simp

end
