(* ===== verification/Ci.thy ===== *)
theory Ci
  imports Collab Wal_Format "HOL-Library.Word"
begin

text \<open>
  The read side of the CI protocol (\<^verbatim>\<open>walgit-wal/src/ci.rs\<close>): claims and results are signed entries;
  every client computes from them, at a given time, who runs what and which result counts.

  Timestamps are unbounded integers except where the code saturates.  The size of a body is counted
  in bytes; the escaping of strings is the one the source describes.
\<close>

unbundle bit_operations_syntax

section \<open>Constants and run ids\<close>

definition CI_CLAIM_KIND :: string where "CI_CLAIM_KIND = ''ci_claim''"
definition CI_RESULT_KIND :: string where "CI_RESULT_KIND = ''ci_result''"
definition CLAIM_TTL_MIN_SECS :: nat where "CLAIM_TTL_MIN_SECS = 1"
definition CLAIM_TTL_MAX_SECS :: nat where "CLAIM_TTL_MAX_SECS = 86400"
definition ATTEMPT_MAX :: nat where "ATTEMPT_MAX = 10"
definition CI_BODY_MAX_BYTES :: nat where "CI_BODY_MAX_BYTES = 256 * 1024"
definition CI_ARTIFACTS_PER_RESULT_MAX :: nat where "CI_ARTIFACTS_PER_RESULT_MAX = 32"

definition fnv1a64 :: "string \<Rightarrow> 64 word" where
  "fnv1a64 bytes =
     foldl (\<lambda>h b. (h XOR word_of_nat (of_char b)) * 0x100000001b3) 0xcbf29ce484222325 bytes"

definition run_id_bytes :: "string \<Rightarrow> string \<Rightarrow> string \<Rightarrow> string" where
  "run_id_bytes task repo_ref commit = task @ CHR 0x1F # repo_ref @ CHR 0x1F # commit"

definition run_id :: "string \<Rightarrow> string \<Rightarrow> string \<Rightarrow> string" where
  "run_id task repo_ref commit = ''ci-'' @ hex16 (unat (fnv1a64 (run_id_bytes task repo_ref commit)))"

definition scheduled_run_id :: "string \<Rightarrow> string \<Rightarrow> string \<Rightarrow> int \<Rightarrow> string" where
  "scheduled_run_id task repo_ref commit slot_epoch =
     ''ci-'' @ hex16 (unat (fnv1a64 (run_id_bytes task repo_ref commit @ CHR 0x1F # dec_int slot_epoch)))"

section \<open>Claims and results\<close>

datatype conclusion = Success | Failure | Timeout | Error

fun conclusion_str :: "conclusion \<Rightarrow> string" where
  "conclusion_str Success = ''success''"
| "conclusion_str Failure = ''failure''"
| "conclusion_str Timeout = ''timeout''"
| "conclusion_str Error = ''error''"

definition conclusion_parse :: "string \<Rightarrow> conclusion option" where
  "conclusion_parse s =
     (if s = ''success'' then Some Success else if s = ''failure'' then Some Failure
      else if s = ''timeout'' then Some Timeout else if s = ''error'' then Some Error else None)"

record ci_claim =
  cc_oid :: string
  cc_actor :: string
  cc_ts :: int
  cc_task :: string
  cc_ref :: string
  cc_commit :: string
  cc_ttl :: nat
  cc_attempt :: nat

definition i64_max :: int where "i64_max = 2 ^ 63 - 1"

definition live :: "ci_claim \<Rightarrow> int \<Rightarrow> bool" where
  "live c now \<longleftrightarrow> now \<le> min i64_max (cc_ts c + int (cc_ttl c))"

record ci_artifact =
  ca_name :: string
  ca_path :: string
  ca_sha256 :: string
  ca_bytes :: nat
  ca_url :: "string option"

record ci_result =
  cr_oid :: string
  cr_actor :: string
  cr_ts :: int
  cr_task :: string
  cr_ref :: string
  cr_commit :: string
  cr_attempt :: nat
  cr_claim :: string
  cr_conclusion :: conclusion
  cr_exit_code :: "int option"
  cr_duration_ms :: "nat option"
  cr_log_summary :: string
  cr_log_sha256 :: string
  cr_log_truncated :: bool
  cr_artifacts :: "ci_artifact list"

definition body_str :: "json \<Rightarrow> string \<Rightarrow> string option" where
  "body_str body k = (case get_str body k of None \<Rightarrow> None | Some s \<Rightarrow> if s = [] then None else Some s)"

definition body_u32 :: "json \<Rightarrow> string \<Rightarrow> nat \<Rightarrow> nat \<Rightarrow> nat option" where
  "body_u32 body k lo hi =
     (case Option.bind (json_get body k) as_u64 of
        None \<Rightarrow> None
      | Some v \<Rightarrow> if v < 2 ^ 32 \<and> lo \<le> v \<and> v \<le> hi then Some v else None)"

text \<open>The bytes of a compact JSON string: quotes, two for the short escapes, six for other control bytes.\<close>

definition char_cost :: "char \<Rightarrow> nat" where
  "char_cost c =
     (if c \<in> set [CHR 0x22, CHR 0x5C, CHR 0x08, CHR 0x09, CHR 0x0A, CHR 0x0C, CHR 0x0D] then 2
      else if (of_char c :: nat) < 0x20 then 6 else 1)"

definition str_cost :: "string \<Rightarrow> nat" where
  "str_cost s = 2 + sum_list (map char_cost s)"

fun own_cost :: "json \<Rightarrow> nat" where
  "own_cost JNull = 4"
| "own_cost (JBool b) = (if b then 4 else 5)"
| "own_cost (JNum n) = length (num_text n)"
| "own_cost (JStr s) = str_cost s"
| "own_cost (JArr vs) = 2 + (length vs - 1)"
| "own_cost (JObj kvs) = 2 + (length kvs - 1) + length kvs"

definition checked_sub :: "nat \<Rightarrow> nat \<Rightarrow> nat option" where
  "checked_sub a b = (if b \<le> a then Some (a - b) else None)"

text \<open>The keys of an object are walked whether or not the values fit; the result is the same.\<close>

fun walk :: "json \<Rightarrow> nat \<Rightarrow> nat option"
  and walk_all :: "json list \<Rightarrow> nat \<Rightarrow> nat option"
  and walk_values :: "(string \<times> json) list \<Rightarrow> nat \<Rightarrow> nat option" where
  "walk v n =
     (case checked_sub n (own_cost v) of
        None \<Rightarrow> None
      | Some n \<Rightarrow>
          (case v of
             JArr vs \<Rightarrow> walk_all vs n
           | JObj kvs \<Rightarrow>
               Option.bind (walk_values kvs n)
                 (\<lambda>n. foldl (\<lambda>m kv. Option.bind m (\<lambda>n. checked_sub n (str_cost (fst kv)))) (Some n) kvs)
           | _ \<Rightarrow> Some n))"
| "walk_all [] n = Some n"
| "walk_all (v # vs) n = Option.bind (walk v n) (walk_all vs)"
| "walk_values [] n = Some n"
| "walk_values (kv # kvs) n = Option.bind (walk (snd kv) n) (walk_values kvs)"

definition json_fits :: "json \<Rightarrow> nat \<Rightarrow> bool" where
  "json_fits v budget \<longleftrightarrow> walk v budget \<noteq> None"

definition body_within_cap :: "json \<Rightarrow> bool" where
  "body_within_cap body \<longleftrightarrow> json_fits body CI_BODY_MAX_BYTES"

definition parse_claim :: "entry_ref \<Rightarrow> ci_claim option" where
  "parse_claim r =
     (if e_kind (r_entry r) \<noteq> CI_CLAIM_KIND then None
      else
        (let body = e_body (r_entry r)
         in
           if \<not> body_within_cap body then None
           else
             Option.bind (body_u32 body ''ttl'' CLAIM_TTL_MIN_SECS CLAIM_TTL_MAX_SECS) (\<lambda>ttl.
             Option.bind (body_str body ''task'') (\<lambda>task.
             Option.bind (body_str body ''ref'') (\<lambda>repo_ref.
             Option.bind (body_str body ''commit'') (\<lambda>commit.
             Option.bind (body_u32 body ''attempt'' 1 ATTEMPT_MAX) (\<lambda>attempt.
               Some \<lparr>cc_oid = r_oid r, cc_actor = e_actor (r_entry r), cc_ts = e_ts (r_entry r), cc_task = task,
                 cc_ref = repo_ref, cc_commit = commit, cc_ttl = ttl, cc_attempt = attempt\<rparr>)))))))"

definition parse_artifact :: "json \<Rightarrow> ci_artifact option" where
  "parse_artifact item =
     (case (get_str item ''name'', get_str item ''path'', get_str item ''sha256'',
            Option.bind (json_get item ''bytes'') as_u64) of
        (Some name', Some path, Some sha256, Some bytes) \<Rightarrow>
          (if name' = [] \<or> 128 < length name' \<or> path = [] then None
           else if length sha256 \<noteq> 64 \<or> \<not> list_all is_ascii_hexdigit sha256 then None
           else Some \<lparr>ca_name = name', ca_path = path, ca_sha256 = sha256, ca_bytes = bytes,
                  ca_url = get_str item ''url''\<rparr>)
      | _ \<Rightarrow> None)"

definition parse_artifacts :: "json \<Rightarrow> ci_artifact list option" where
  "parse_artifacts body =
     (case json_get body ''artifacts'' of
        None \<Rightarrow> Some []
      | Some val \<Rightarrow>
          (case as_array val of
             None \<Rightarrow> None
           | Some arr \<Rightarrow> Some (List.map_filter parse_artifact (take CI_ARTIFACTS_PER_RESULT_MAX arr))))"

definition or_empty :: "string option \<Rightarrow> string" where
  "or_empty s = (case s of None \<Rightarrow> [] | Some s \<Rightarrow> s)"

definition parse_result :: "entry_ref \<Rightarrow> ci_result option" where
  "parse_result r =
     (if e_kind (r_entry r) \<noteq> CI_RESULT_KIND then None
      else
        (let body = e_body (r_entry r)
         in
           if \<not> body_within_cap body then None
           else
             Option.bind (Option.bind (body_str body ''conclusion'') conclusion_parse) (\<lambda>concl.
             Option.bind (body_str body ''task'') (\<lambda>task.
             Option.bind (body_str body ''ref'') (\<lambda>repo_ref.
             Option.bind (body_str body ''commit'') (\<lambda>commit.
             Option.bind (body_u32 body ''attempt'' 1 ATTEMPT_MAX) (\<lambda>attempt.
             Option.bind (body_str body ''claim'') (\<lambda>claim.
             Option.bind (parse_artifacts body) (\<lambda>artifacts.
               Some \<lparr>cr_oid = r_oid r, cr_actor = e_actor (r_entry r), cr_ts = e_ts (r_entry r), cr_task = task,
                 cr_ref = repo_ref, cr_commit = commit, cr_attempt = attempt, cr_claim = claim,
                 cr_conclusion = concl, cr_exit_code = Option.bind (json_get body ''exit_code'') as_i64,
                 cr_duration_ms = Option.bind (json_get body ''duration_ms'') as_u64,
                 cr_log_summary = or_empty (body_str body ''log_summary''),
                 cr_log_sha256 = or_empty (body_str body ''log_sha256''),
                 cr_log_truncated = (get_bool body ''log_truncated'' = Some True),
                 cr_artifacts = artifacts\<rparr>)))))))))"

section \<open>The view of a run\<close>

datatype run_state = Pending | Claimed_run | Stale | Done_run

record attempt_view =
  av_attempt :: nat
  av_claims :: "ci_claim list"
  av_winner :: "ci_claim option"
  av_results :: "ci_result list"
  av_effective :: "ci_result option"
  av_state :: run_state

text \<open>\<open>Iterator::min_by_key\<close>: the first of the least elements.\<close>

fun min_by_key :: "('a \<Rightarrow> 'k::linorder) \<Rightarrow> 'a list \<Rightarrow> 'a option" where
  "min_by_key f [] = None"
| "min_by_key f (x # xs) =
     (case min_by_key f xs of None \<Rightarrow> Some x | Some y \<Rightarrow> if f x \<le> f y then Some x else Some y)"

definition claim_key :: "ci_claim \<Rightarrow> int \<times> string \<times> string" where
  "claim_key c = (cc_ts c, cc_actor c, cc_oid c)"

definition result_key :: "ci_result \<Rightarrow> int \<times> string \<times> string" where
  "result_key r = (cr_ts r, cr_actor r, cr_oid r)"

definition voided :: "ci_result list \<Rightarrow> string list" where
  "voided results = map cr_claim (filter (\<lambda>r. cr_conclusion r = Error) results)"

definition winner_of :: "ci_claim list \<Rightarrow> ci_result list \<Rightarrow> int \<Rightarrow> ci_claim option" where
  "winner_of claims results now =
     min_by_key claim_key (filter (\<lambda>c. live c now \<and> cc_oid c \<notin> set (voided results)) claims)"

definition effective_of :: "ci_claim option \<Rightarrow> ci_result list \<Rightarrow> ci_result option" where
  "effective_of winner results =
     min_by_key result_key
       (case winner of Some w \<Rightarrow> filter (\<lambda>r. cr_claim r = cc_oid w) results | None \<Rightarrow> results)"

definition settled :: "ci_result option \<Rightarrow> bool" where
  "settled eff \<longleftrightarrow> (case eff of None \<Rightarrow> False | Some r \<Rightarrow> cr_conclusion r \<noteq> Error)"

definition attempt_view_of :: "nat \<Rightarrow> ci_claim list \<Rightarrow> ci_result list \<Rightarrow> int \<Rightarrow> attempt_view" where
  "attempt_view_of attempt claims results now =
     (let winner = winner_of claims results now;
          eff = effective_of winner results
      in \<lparr>av_attempt = attempt, av_claims = claims, av_winner = winner, av_results = results,
           av_effective = eff,
           av_state = (if settled eff then Done_run else if winner \<noteq> None then Claimed_run
                       else if claims = [] then Pending else Stale)\<rparr>)"

record run_view =
  rn_id :: string
  rn_task :: string
  rn_ref :: string
  rn_commit :: string
  rn_attempts :: "attempt_view list"
  rn_latest :: nat
  rn_state :: run_state
  rn_conclusion :: "conclusion option"
  rn_runner :: "string option"
  rn_last_ts :: int
  rn_unverified :: nat

record run_acc =
  ra_attempts :: "(nat, ci_claim list \<times> ci_result list) btree"
  ra_unverified :: nat
  ra_last_ts :: int
  ra_seen :: bool

definition opt_list :: "'a option \<Rightarrow> 'a list" where
  "opt_list v = (case v of None \<Rightarrow> [] | Some x \<Rightarrow> [x])"

text \<open>The body of the loop over the entries of one run.\<close>

definition run_step :: "libs \<Rightarrow> principals \<Rightarrow> string \<Rightarrow> run_acc \<Rightarrow> entry_ref \<Rightarrow> run_acc" where
  "run_step L ps id' acc r =
     (if e_id (r_entry r) \<noteq> id' then acc
      else
        (let acc = acc\<lparr>ra_seen := True, ra_last_ts := max (ra_last_ts acc) (e_ts (r_entry r))\<rparr>;
             verified = is_verified L ps r;
             claim = (if verified then parse_claim r else None);
             res = (if verified then parse_result r else None)
         in
           if claim = None \<and> res = None then
             (if e_kind (r_entry r) = CI_CLAIM_KIND \<or> e_kind (r_entry r) = CI_RESULT_KIND
              then acc\<lparr>ra_unverified := ra_unverified acc + 1\<rparr> else acc)
           else
             (let attempt = (case claim of Some c \<Rightarrow> cc_attempt c
                                | None \<Rightarrow> (case res of Some x \<Rightarrow> cr_attempt x | None \<Rightarrow> 1));
                  (cs, rs) = (case bt_get (ra_attempts acc) attempt of Some p \<Rightarrow> p | None \<Rightarrow> ([], []))
              in acc\<lparr>ra_attempts := bt_insert attempt (cs @ opt_list claim, rs @ opt_list res) (ra_attempts acc)\<rparr>)))"

definition run_start :: run_acc where
  "run_start = \<lparr>ra_attempts = [], ra_unverified = 0, ra_last_ts = 0, ra_seen = False\<rparr>"

definition run_fold :: "libs \<Rightarrow> principals \<Rightarrow> string \<Rightarrow> entry_ref list \<Rightarrow> run_acc" where
  "run_fold L ps id' entries = foldl (run_step L ps id') run_start entries"

definition header_source :: "attempt_view \<Rightarrow> string \<times> string \<times> string" where
  "header_source a =
     (case av_effective a of
        Some r \<Rightarrow> (cr_task r, cr_ref r, cr_commit r)
      | None \<Rightarrow>
          (case av_winner a of
             Some c \<Rightarrow> (cc_task c, cc_ref c, cc_commit c)
           | None \<Rightarrow> (case av_claims a of c # _ \<Rightarrow> (cc_task c, cc_ref c, cc_commit c) | [] \<Rightarrow> ([], [], []))))"

definition run_view_of :: "libs \<Rightarrow> principals \<Rightarrow> string \<Rightarrow> entry_ref list \<Rightarrow> int \<Rightarrow> run_view option" where
  "run_view_of L ps id' entries now =
     (let acc = run_fold L ps id' entries
      in
        if \<not> ra_seen acc then None
        else
          (let views = sort_key av_attempt
                 (map (\<lambda>(attempt, cs, rs). attempt_view_of attempt cs rs now) (ra_attempts acc))
           in
             case rev views of
               [] \<Rightarrow> Some \<lparr>rn_id = id', rn_task = [], rn_ref = [], rn_commit = [], rn_attempts = views,
                       rn_latest = 1, rn_state = Pending, rn_conclusion = None, rn_runner = None,
                       rn_last_ts = ra_last_ts acc, rn_unverified = ra_unverified acc\<rparr>
             | a # _ \<Rightarrow>
                 (case header_source a of (task, repo_ref, commit) \<Rightarrow>
                    Some \<lparr>rn_id = id', rn_task = task, rn_ref = repo_ref, rn_commit = commit,
                      rn_attempts = views, rn_latest = av_attempt a, rn_state = av_state a,
                      rn_conclusion = map_option cr_conclusion (av_effective a),
                      rn_runner = map_option cc_actor (av_winner a),
                      rn_last_ts = ra_last_ts acc, rn_unverified = ra_unverified acc\<rparr>)))"

definition ci_entries :: "entry_ref list \<Rightarrow> entry_ref list" where
  "ci_entries entries =
     filter (\<lambda>r. e_kind (r_entry r) = CI_CLAIM_KIND \<or> e_kind (r_entry r) = CI_RESULT_KIND) entries"

text \<open>Grouping by id: \<open>BTreeMap::entry(id).or_default().push(e)\<close>.\<close>

definition group_push :: "(string, entry_ref list) btree \<Rightarrow> entry_ref \<Rightarrow> (string, entry_ref list) btree" where
  "group_push m r =
     bt_insert (e_id (r_entry r)) ((case bt_get m (e_id (r_entry r)) of None \<Rightarrow> [] | Some g \<Rightarrow> g) @ [r]) m"

definition by_thread :: "entry_ref list \<Rightarrow> (string, entry_ref list) btree" where
  "by_thread entries = foldl group_push [] entries"

definition collect_runs ::
  "libs \<Rightarrow> principals \<Rightarrow> entry_ref list \<Rightarrow> int \<Rightarrow> (string, run_view) btree" where
  "collect_runs L ps entries now =
     List.map_filter (\<lambda>(id', es). map_option (Pair id') (run_view_of L ps id' es now)) (by_thread entries)"

section \<open>What a runner does\<close>

datatype decision =
    Settled conclusion nat
  | Claim nat
  | Resume string nat
  | StandDown string

definition ci_decide :: "run_view \<Rightarrow> string \<Rightarrow> nat \<Rightarrow> decision" where
  "ci_decide run actor max_attempts =
     (case rev (rn_attempts run) of
        [] \<Rightarrow> Claim 1
      | latest # _ \<Rightarrow>
          (case av_state latest of
             Done_run \<Rightarrow>
               (case av_effective latest of
                  Some eff \<Rightarrow>
                    (let budget = max 1 (min max_attempts ATTEMPT_MAX);
                         retriable = (cr_conclusion eff = Failure \<or> cr_conclusion eff = Timeout) \<and>
                           cr_attempt eff < budget
                     in if retriable then Claim (cr_attempt eff + 1)
                        else Settled (cr_conclusion eff) (cr_attempt eff))
                | None \<Rightarrow> Claim (av_attempt latest))
           | Claimed_run \<Rightarrow>
               (case av_winner latest of
                  Some w \<Rightarrow> if cc_actor w = actor then Resume (cc_oid w) (av_attempt latest) else StandDown (cc_actor w)
                | None \<Rightarrow> Claim 1)
           | Pending \<Rightarrow> Claim 1
           | Stale \<Rightarrow> Claim (av_attempt latest)))"

section \<open>Lemmas: the size of a body\<close>

fun full_cost :: "json \<Rightarrow> nat" where
  "full_cost (JArr vs) = own_cost (JArr vs) + sum_list (map full_cost vs)"
| "full_cost (JObj kvs) = own_cost (JObj kvs) + sum_list (map (\<lambda>(k, v). str_cost k + full_cost v) kvs)"
| "full_cost v = own_cost v"

lemma checked_sub_bind: "Option.bind (checked_sub n a) (\<lambda>n. checked_sub n b) = checked_sub n (a + b)"
  by (auto simp: checked_sub_def)

lemma checked_sub_step: "checked_sub n a = Some m \<Longrightarrow> checked_sub m b = checked_sub n (a + b)"
  by (auto simp: checked_sub_def split: if_splits)

lemma keys_walk:
  "foldl (\<lambda>m kv. Option.bind m (\<lambda>n. checked_sub n (str_cost (fst kv)))) (checked_sub n a) kvs =
     checked_sub n (a + sum_list (map (\<lambda>kv. str_cost (fst kv)) kvs))"
  by (induction kvs arbitrary: a) (simp_all add: checked_sub_bind add.assoc)

lemma walk_cost:
  "walk v n = checked_sub n (full_cost v)"
  "walk_all vs n = checked_sub n (sum_list (map full_cost vs))"
  "walk_values kvs n = checked_sub n (sum_list (map (\<lambda>kv. full_cost (snd kv)) kvs))"
proof (induction v n and vs n and kvs n rule: walk_walk_all_walk_values.induct)
  case (1 v n)
  show ?case
  proof (cases "checked_sub n (own_cost v)")
    case None
    then show ?thesis by (cases v) (auto simp: checked_sub_def split: if_splits)
  next
    case (Some m)
    show ?thesis
    proof (cases v)
      case (JArr vs)
      then show ?thesis using 1(1) [OF Some JArr] Some checked_sub_step [OF Some] by (simp del: own_cost.simps)
    next
      case (JObj kvs)
      have sum: "sum_list (map (\<lambda>kv. full_cost (snd kv)) kvs) + sum_list (map (\<lambda>kv. str_cost (fst kv)) kvs) =
          sum_list (map (\<lambda>(k, v). str_cost k + full_cost v) kvs)"
        by (simp add: case_prod_unfold sum_list_addf)
      have keys: "foldl (\<lambda>m kv. Option.bind m (\<lambda>n. checked_sub n (str_cost (fst kv)))) (Some p) kvs =
          checked_sub p (sum_list (map (\<lambda>kv. str_cost (fst kv)) kvs))" for p
        using keys_walk [of p 0 kvs] by (simp add: checked_sub_def)
      have "walk v n = checked_sub m (sum_list (map (\<lambda>kv. full_cost (snd kv)) kvs) + sum_list (map (\<lambda>kv. str_cost (fst kv)) kvs))"
        using 1(2) [OF Some JObj] Some JObj by (simp add: keys checked_sub_bind del: own_cost.simps)
      then show ?thesis using checked_sub_step [OF Some] JObj sum by (simp del: own_cost.simps)
    qed (use Some in \<open>simp_all add: checked_sub_def split: if_splits\<close>)
  qed
next
  case (3 v vs n)
  then show ?case by (cases "walk v n") (auto simp: checked_sub_bind [symmetric] checked_sub_def split: if_splits)
next
  case (5 kv kvs n)
  then show ?case by (cases "walk (snd kv) n") (auto simp: checked_sub_bind [symmetric] checked_sub_def split: if_splits)
qed (simp_all add: checked_sub_def)

lemma length_commas: "length (commas ss) = sum_list (map length ss) + (length ss - 1)"
  by (induction ss rule: commas.induct) simp_all

lemma sum_list_sort_key: "sum_list (map g (sort_key f xs)) = (sum_list (map g xs) :: nat)"
  by (metis mset_map mset_sort sum_mset_sum_list)

lemma full_cost_length:
  assumes "\<forall>s. length (esc s) = str_cost s"
  shows "full_cost v = length (canonicalize esc v)"
proof (induction v)
  case (JArr vs)
  then have "map full_cost vs = map (\<lambda>v. length (canonicalize esc v)) vs" by simp
  then have "sum_list (map full_cost vs) = sum_list (map (\<lambda>v. length (canonicalize esc v)) vs)" by (rule arg_cong)
  then show ?case by (simp add: length_commas comp_def)
next
  case (JObj kvs)
  have IH: "full_cost v = length (canonicalize esc v)" if "(k, v) \<in> set kvs" for k v
    using JObj [of "(k, v)" v] that by (simp add: snds.simps)
  have "sum_list (map (\<lambda>(k, s). length (esc k @ CHR '':'' # s)) (sort_key fst (map (\<lambda>(k, v). (k, canonicalize esc v)) kvs))) =
      sum_list (map (\<lambda>(k, v). str_cost k + full_cost v) kvs) + length kvs"
  proof -
    have "map (\<lambda>p. Suc (str_cost (fst p) + length (canonicalize esc (snd p)))) kvs =
        map (\<lambda>p. (str_cost (fst p) + full_cost (snd p)) + 1) kvs" using IH by (auto simp: case_prod_unfold)
    then have "sum_list (map (\<lambda>p. Suc (str_cost (fst p) + length (canonicalize esc (snd p)))) kvs) =
        sum_list (map (\<lambda>p. (str_cost (fst p) + full_cost (snd p)) + 1) kvs)" by (rule arg_cong)
    also have "\<dots> = sum_list (map (\<lambda>p. str_cost (fst p) + full_cost (snd p)) kvs) + length kvs"
      unfolding sum_list_addf by (simp add: sum_list_triv)
    finally show ?thesis using assms unfolding sum_list_sort_key by (simp add: case_prod_unfold comp_def)
  qed
  then show ?case by (simp add: length_commas comp_def case_prod_unfold)
qed (use assms in auto)

section \<open>Lemmas: a run is a function of the set of its entries\<close>

lemma min_by_key_None [simp]: "min_by_key f xs = None \<longleftrightarrow> xs = []"
  by (cases xs) (auto split: option.splits)

lemma min_by_key_least:
  "min_by_key f xs = Some x \<Longrightarrow> x \<in> set xs \<and> (\<forall>y \<in> set xs. f x \<le> f y)"
proof (induction xs arbitrary: x)
  case (Cons z zs)
  then show ?case by (fastforce split: option.splits if_splits)
qed simp

lemma min_by_key_perm:
  assumes "set xs = set ys" "inj_on f (set xs)"
  shows "min_by_key f xs = min_by_key f ys"
proof (cases "min_by_key f xs"; cases "min_by_key f ys")
  fix x y assume m: "min_by_key f xs = Some x" "min_by_key f ys = Some y"
  note x = min_by_key_least [OF m(1)] and y = min_by_key_least [OF m(2)]
  have "f x \<le> f y" "f y \<le> f x" using x y assms(1) by blast+
  then have "f x = f y" by (rule antisym)
  then show ?thesis using m x y assms inj_onD [of f "set xs" x y] by simp
qed (use assms in auto)

definition claims_at :: "libs \<Rightarrow> principals \<Rightarrow> string \<Rightarrow> nat \<Rightarrow> entry_ref list \<Rightarrow> ci_claim list" where
  "claims_at L ps id' a es = filter (\<lambda>c. cc_attempt c = a)
     (List.map_filter parse_claim (filter (\<lambda>r. e_id (r_entry r) = id' \<and> is_verified L ps r) es))"

definition results_at :: "libs \<Rightarrow> principals \<Rightarrow> string \<Rightarrow> nat \<Rightarrow> entry_ref list \<Rightarrow> ci_result list" where
  "results_at L ps id' a es = filter (\<lambda>x. cr_attempt x = a)
     (List.map_filter parse_result (filter (\<lambda>r. e_id (r_entry r) = id' \<and> is_verified L ps r) es))"

lemma parse_exclusive: "parse_claim r = Some c \<Longrightarrow> parse_result r = None"
  by (auto simp: parse_claim_def parse_result_def CI_CLAIM_KIND_def CI_RESULT_KIND_def split: if_splits)

lemma map_filter_snoc: "List.map_filter f (xs @ [x]) = List.map_filter f xs @ opt_list (f x)"
  by (simp add: List.map_filter_def opt_list_def split: option.splits)

lemma claims_at_snoc:
  "claims_at L ps id' a (es @ [r]) = claims_at L ps id' a es @
     filter (\<lambda>c. cc_attempt c = a) (opt_list (if e_id (r_entry r) = id' \<and> is_verified L ps r then parse_claim r else None))"
  by (simp add: claims_at_def map_filter_snoc opt_list_def)

lemma results_at_snoc:
  "results_at L ps id' a (es @ [r]) = results_at L ps id' a es @
     filter (\<lambda>c. cr_attempt c = a) (opt_list (if e_id (r_entry r) = id' \<and> is_verified L ps r then parse_result r else None))"
  by (simp add: results_at_def map_filter_snoc opt_list_def)

lemma run_fold_attempts:
  "bt_ok (ra_attempts (run_fold L ps id' es)) \<and>
   bt_get (ra_attempts (run_fold L ps id' es)) a =
     (if claims_at L ps id' a es = [] \<and> results_at L ps id' a es = [] then None
      else Some (claims_at L ps id' a es, results_at L ps id' a es))"
proof (induction es arbitrary: a rule: rev_induct)
  case Nil
  then show ?case by (simp add: run_fold_def run_start_def claims_at_def results_at_def List.map_filter_def bt_get_def)
next
  case (snoc r es)
  let ?acc = "run_fold L ps id' es"
  have fold: "run_fold L ps id' (es @ [r]) = run_step L ps id' ?acc r" by (simp add: run_fold_def)
  have ok: "bt_ok (ra_attempts ?acc)" using snoc by blast
  let ?c = "if e_id (r_entry r) = id' \<and> is_verified L ps r then parse_claim r else None"
  let ?x = "if e_id (r_entry r) = id' \<and> is_verified L ps r then parse_result r else None"
  have old: "(case bt_get (ra_attempts ?acc) k of Some p \<Rightarrow> p | None \<Rightarrow> ([], [])) =
      (claims_at L ps id' k es, results_at L ps id' k es)" for k
    using snoc [of k] by simp
  have excl: "?c = None \<or> ?x = None" using parse_exclusive [of r] by (cases "parse_claim r") auto
  consider (none) "?c = None" "?x = None" | (claim) c where "?c = Some c" "?x = None" | (res) x where "?c = None" "?x = Some x"
    using excl by (cases ?c; cases ?x) auto
  then show ?case
  proof cases
    case none
    then have "ra_attempts (run_fold L ps id' (es @ [r])) = ra_attempts ?acc"
      unfolding fold run_step_def by (auto simp: Let_def split: if_splits)
    then show ?thesis using snoc [of a] unfolding claims_at_snoc results_at_snoc none by (simp add: opt_list_def)
  next
    case claim
    then have "ra_attempts (run_fold L ps id' (es @ [r])) = bt_insert (cc_attempt c)
        (claims_at L ps id' (cc_attempt c) es @ [c], results_at L ps id' (cc_attempt c) es) (ra_attempts ?acc)"
      unfolding fold run_step_def using old by (simp add: Let_def opt_list_def split: if_splits)
    then show ?thesis using snoc [of a] ok unfolding claims_at_snoc results_at_snoc claim
      by (simp add: opt_list_def bt_get_insert bt_ok_insert)
  next
    case res
    then have "ra_attempts (run_fold L ps id' (es @ [r])) = bt_insert (cr_attempt x)
        (claims_at L ps id' (cr_attempt x) es, results_at L ps id' (cr_attempt x) es @ [x]) (ra_attempts ?acc)"
      unfolding fold run_step_def using old by (simp add: Let_def opt_list_def split: if_splits)
    then show ?thesis using snoc [of a] ok unfolding claims_at_snoc results_at_snoc res
      by (simp add: opt_list_def bt_get_insert bt_ok_insert)
  qed
qed

lemma set_map_filter: "set (List.map_filter f xs) = {y. \<exists>x \<in> set xs. f x = Some y}"
  by (force simp: List.map_filter_def)

lemma claims_at_set: "set es = set es' \<Longrightarrow> set (claims_at L ps id' a es) = set (claims_at L ps id' a es')"
  by (simp add: claims_at_def set_map_filter)

lemma results_at_set: "set es = set es' \<Longrightarrow> set (results_at L ps id' a es) = set (results_at L ps id' a es')"
  by (simp add: results_at_def set_map_filter)

lemma parse_claim_oid: "parse_claim r = Some c \<Longrightarrow> cc_oid c = r_oid r"
  by (auto simp: parse_claim_def Let_def split: if_splits bind_splits)

lemma parse_result_oid: "parse_result r = Some x \<Longrightarrow> cr_oid x = r_oid r"
  by (auto simp: parse_result_def Let_def split: if_splits bind_splits)

lemma claims_at_inj:
  assumes "distinct (map r_oid es)"
  shows "inj_on claim_key (set (claims_at L ps id' a es))"
proof (rule inj_onI)
  fix c d assume "c \<in> set (claims_at L ps id' a es)" "d \<in> set (claims_at L ps id' a es)" "claim_key c = claim_key d"
  then obtain r q where "r \<in> set es" "q \<in> set es" "parse_claim r = Some c" "parse_claim q = Some d" "cc_oid c = cc_oid d"
    by (auto simp: claims_at_def set_map_filter claim_key_def)
  moreover from this have "r = q" using assms parse_claim_oid by (metis distinct_map inj_onD)
  ultimately show "c = d" by simp
qed

lemma results_at_inj:
  assumes "distinct (map r_oid es)"
  shows "inj_on result_key (set (results_at L ps id' a es))"
proof (rule inj_onI)
  fix c d assume "c \<in> set (results_at L ps id' a es)" "d \<in> set (results_at L ps id' a es)" "result_key c = result_key d"
  then obtain r q where "r \<in> set es" "q \<in> set es" "parse_result r = Some c" "parse_result q = Some d" "cr_oid c = cr_oid d"
    by (auto simp: results_at_def set_map_filter result_key_def)
  moreover from this have "r = q" using assms parse_result_oid by (metis distinct_map inj_onD)
  ultimately show "c = d" by simp
qed

text \<open>What counts of an attempt.\<close>

definition verdict :: "attempt_view \<Rightarrow> nat \<times> ci_claim option \<times> ci_result option \<times> run_state" where
  "verdict a = (av_attempt a, av_winner a, av_effective a, av_state a)"

lemma verdict_perm:
  assumes "set cs = set cs'" "set rs = set rs'" "inj_on claim_key (set cs)" "inj_on result_key (set rs)"
  shows "verdict (attempt_view_of a cs rs now) = verdict (attempt_view_of a cs' rs' now)"
proof -
  have w: "winner_of cs rs now = winner_of cs' rs' now"
    unfolding winner_of_def voided_def by (rule min_by_key_perm) (use assms in \<open>auto intro: inj_on_subset\<close>)
  have e: "effective_of w rs = effective_of w rs'" for w
    unfolding effective_of_def
    by (rule min_by_key_perm) (use assms in \<open>auto split: option.splits intro: inj_on_subset\<close>)
  have "cs = [] \<longleftrightarrow> cs' = []" using assms(1) by (metis set_empty)
  then show ?thesis using w e by (simp add: verdict_def attempt_view_of_def Let_def)
qed

lemma bt_map_keys: "bt_ok m \<Longrightarrow> map g m = map (\<lambda>k. g (k, the (bt_get m k))) (map fst m)"
  by (auto simp: bt_get_iff [THEN iffD2])

lemma bt_keys_cong:
  assumes "bt_ok m" "bt_ok n" "\<And>k. bt_get m k = None \<longleftrightarrow> bt_get n k = None"
  shows "map fst m = map fst n"
proof -
  have "set (map fst m) = set (map fst n)" using assms(3) by (auto simp: bt_get_None_iff set_eq_iff)
  then show ?thesis using assms(1,2) by (simp add: bt_ok_def strict_sorted_equal)
qed

lemma views_perm:
  assumes "distinct (map r_oid es)" "mset es' = mset es"
  shows "map (\<lambda>(a, cs, rs). verdict (attempt_view_of a cs rs now)) (ra_attempts (run_fold L ps id' es)) =
    map (\<lambda>(a, cs, rs). verdict (attempt_view_of a cs rs now)) (ra_attempts (run_fold L ps id' es'))"
proof -
  let ?m = "ra_attempts (run_fold L ps id' es)" and ?n = "ra_attempts (run_fold L ps id' es')"
  have eq: "set es = set es'" using assms(2) by (metis mset_eq_setD)
  have ok: "bt_ok ?m" "bt_ok ?n" using run_fold_attempts by blast+
  have same: "claims_at L ps id' k es = [] \<longleftrightarrow> claims_at L ps id' k es' = []"
    "results_at L ps id' k es = [] \<longleftrightarrow> results_at L ps id' k es' = []" for k
    using claims_at_set [OF eq] results_at_set [OF eq] by (metis set_empty)+
  have get: "bt_get ?m k = (if claims_at L ps id' k es = [] \<and> results_at L ps id' k es = [] then None
      else Some (claims_at L ps id' k es, results_at L ps id' k es))"
    "bt_get ?n k = (if claims_at L ps id' k es = [] \<and> results_at L ps id' k es = [] then None
      else Some (claims_at L ps id' k es', results_at L ps id' k es'))" for k
    using run_fold_attempts [of L ps id' es k] run_fold_attempts [of L ps id' es' k] same by simp_all
  have keys: "map fst ?m = map fst ?n" by (rule bt_keys_cong [OF ok]) (simp add: get)
  have key: "bt_get ?m k \<noteq> None" if "k \<in> set (map fst ?m)" for k using that ok(1) by (auto simp: bt_get_None_iff)
  have v: "verdict (attempt_view_of k (claims_at L ps id' k es) (results_at L ps id' k es) now) =
      verdict (attempt_view_of k (claims_at L ps id' k es') (results_at L ps id' k es') now)" for k
    by (rule verdict_perm [OF claims_at_set [OF eq] results_at_set [OF eq] claims_at_inj [OF assms(1)] results_at_inj [OF assms(1)]])
  let ?g = "\<lambda>(a, cs, rs). verdict (attempt_view_of a cs rs now)"
  have "?g (k, the (bt_get ?m k)) = ?g (k, the (bt_get ?n k))" if "k \<in> set (map fst ?m)" for k
  proof -
    have "\<not> (claims_at L ps id' k es = [] \<and> results_at L ps id' k es = [])" using key [OF that] get(1) [of k] by auto
    then show ?thesis unfolding get using v [of k] by auto
  qed
  then have "map (\<lambda>k. ?g (k, the (bt_get ?m k))) (map fst ?m) = map (\<lambda>k. ?g (k, the (bt_get ?n k))) (map fst ?n)"
    unfolding keys by (intro map_cong refl) blast
  then show ?thesis using bt_map_keys [OF ok(1), of ?g] bt_map_keys [OF ok(2), of ?g] by metis
qed

text \<open>The scalars of a run.\<close>

lemma run_fold_scalars:
  "ra_seen (run_fold L ps id' es) \<longleftrightarrow> (\<exists>r \<in> set es. e_id (r_entry r) = id')"
  "ra_last_ts (run_fold L ps id' es) =
     foldl max 0 (map (\<lambda>r. e_ts (r_entry r)) (filter (\<lambda>r. e_id (r_entry r) = id') es))"
  "ra_unverified (run_fold L ps id' es) = length (filter (\<lambda>r. e_id (r_entry r) = id' \<and>
     (e_kind (r_entry r) = CI_CLAIM_KIND \<or> e_kind (r_entry r) = CI_RESULT_KIND) \<and>
     \<not> (is_verified L ps r \<and> (parse_claim r \<noteq> None \<or> parse_result r \<noteq> None))) es)"
  by (induction es rule: rev_induct)
    (auto simp: run_fold_def run_start_def run_step_def Let_def split: prod.splits)

lemma views_in_order:
  assumes "bt_ok m"
  shows "sort_key av_attempt (map (\<lambda>(a, cs, rs). attempt_view_of a cs rs now) m) =
    map (\<lambda>(a, cs, rs). attempt_view_of a cs rs now) m"
proof (rule sort_key_id_if_sorted)
  have "map av_attempt (map (\<lambda>(a, cs, rs). attempt_view_of a cs rs now) m) = map fst m"
    by (auto simp: attempt_view_of_def Let_def)
  then show "sorted (map av_attempt (map (\<lambda>(a, cs, rs). attempt_view_of a cs rs now) m))"
    using assms by (simp only: bt_ok_def strict_sorted_iff)
qed

lemma run_view_attempts:
  assumes "run_view_of L ps id' es now = Some run"
  shows "rn_attempts run = map (\<lambda>(a, cs, rs). attempt_view_of a cs rs now) (ra_attempts (run_fold L ps id' es))"
proof -
  have "bt_ok (ra_attempts (run_fold L ps id' es))" using run_fold_attempts by blast
  then show ?thesis
    using assms views_in_order by (auto simp: run_view_of_def Let_def split: if_splits list.splits prod.splits)
qed

lemma decide_cong:
  assumes "map verdict (rn_attempts run) = map verdict (rn_attempts run')"
  shows "ci_decide run actor n = ci_decide run' actor n"
proof -
  have "map verdict (rev (rn_attempts run)) = map verdict (rev (rn_attempts run'))" using assms by (metis rev_map)
  then show ?thesis
  proof (cases "rev (rn_attempts run)"; cases "rev (rn_attempts run')")
    fix a as b bs assume c: "rev (rn_attempts run) = a # as" "rev (rn_attempts run') = b # bs"
      and m: "map verdict (rev (rn_attempts run)) = map verdict (rev (rn_attempts run'))"
    then have "verdict a = verdict b" by (simp only: list.map list.inject)
    then have v: "av_attempt a = av_attempt b" "av_winner a = av_winner b" "av_effective a = av_effective b"
      "av_state a = av_state b" by (simp_all add: verdict_def)
    show ?thesis unfolding ci_decide_def c list.case v ..
  qed (simp_all add: ci_decide_def)
qed

lemma run_verdicts_perm:
  assumes "distinct (map r_oid es)" "mset es' = mset es"
    "run_view_of L ps id' es now = Some run" "run_view_of L ps id' es' now = Some run'"
  shows "map verdict (rn_attempts run) = map verdict (rn_attempts run')"
  using views_perm [OF assms(1,2), of now L ps id'] run_view_attempts [OF assms(3)] run_view_attempts [OF assms(4)]
  by (simp add: comp_def case_prod_unfold)

lemma resume_winner:
  "ci_decide run actor n = Resume k i \<Longrightarrow> ci_decide run actor' n' = Resume k' i' \<Longrightarrow> actor = actor' \<and> k = k' \<and> i = i'"
  by (auto simp: ci_decide_def Let_def split: list.splits run_state.splits option.splits if_splits)

section \<open>Convergence\<close>


definition claim_body :: "nat \<Rightarrow> json" where
  "claim_body ttl = JObj [(''attempt'', JNum (PosInt 1)), (''commit'', JStr ''c''), (''ref'', JStr ''r''),
     (''task'', JStr ''t''), (''ttl'', JNum (PosInt ttl))]"

definition sample_claim :: "string \<Rightarrow> string \<Rightarrow> int \<Rightarrow> entry_ref" where
  "sample_claim k actor ts = in_inbox k actor (sign_sample (sample_collab ''run'' CI_CLAIM_KIND actor ts [] None (claim_body 60)))"

definition sample_race :: "entry_ref list" where
  "sample_race = [sample_claim ''1'' ''bob'' 5, sample_claim ''2'' ''alice'' 4]"


text \<open>
  A settled attempt stays settled when time passes, provided that no claim but the winner's is
  still live then and that no runner has reported an error for the attempt.
\<close>

theorem settled_stays_settled:
  assumes "av_state (attempt_view_of a cs rs now) = Done_run" "\<forall>r \<in> set rs. cr_conclusion r \<noteq> Error"
    and others: "\<forall>c \<in> set cs. live c later \<longrightarrow> winner_of cs rs now = Some c"
  shows "av_state (attempt_view_of a cs rs later) = Done_run"
proof -
  have done': "settled (effective_of (winner_of cs rs now) rs)"
    using assms(1) by (auto simp: attempt_view_of_def Let_def split: if_splits)
  have "settled (effective_of (winner_of cs rs later) rs)"
  proof (cases "winner_of cs rs later")
    case None
    have "rs \<noteq> []" using done' by (auto simp: settled_def effective_of_def split: option.splits)
    then obtain r where r: "min_by_key result_key rs = Some r" by (cases "min_by_key result_key rs") auto
    then have "r \<in> set rs" by (rule min_by_key_least [THEN conjunct1])
    then show ?thesis using None r assms(2) by (simp add: settled_def effective_of_def)
  next
    case (Some c)
    then have "c \<in> set (filter (\<lambda>c. live c later \<and> cc_oid c \<notin> set (voided rs)) cs)"
      unfolding winner_of_def by (rule min_by_key_least [THEN conjunct1])
    then have "winner_of cs rs now = Some c" using others by simp
    then show ?thesis using Some done' by simp
  qed
  then show ?thesis by (simp add: attempt_view_of_def Let_def)
qed

definition mk_claim :: "string \<Rightarrow> int \<Rightarrow> nat \<Rightarrow> ci_claim" where
  "mk_claim k ts ttl = \<lparr>cc_oid = k, cc_actor = k, cc_ts = ts, cc_task = ''t'', cc_ref = ''r'', cc_commit = ''c'',
     cc_ttl = ttl, cc_attempt = 1\<rparr>"

definition mk_result :: "string \<Rightarrow> string \<Rightarrow> int \<Rightarrow> conclusion \<Rightarrow> ci_result" where
  "mk_result k claim ts concl = \<lparr>cr_oid = k, cr_actor = claim, cr_ts = ts, cr_task = ''t'', cr_ref = ''r'',
     cr_commit = ''c'', cr_attempt = 1, cr_claim = claim, cr_conclusion = concl, cr_exit_code = None,
     cr_duration_ms = None, cr_log_summary = [], cr_log_sha256 = [], cr_log_truncated = False, cr_artifacts = []\<rparr>"

theorem settled_stays_settled_witness:
  "av_state (attempt_view_of 1 [mk_claim ''a'' 0 10] [mk_result ''x'' ''a'' 5 Success] 20) = Done_run"
proof (rule settled_stays_settled [where now = 6])
  show "av_state (attempt_view_of 1 [mk_claim ''a'' 0 10] [mk_result ''x'' ''a'' 5 Success] 6) = Done_run" by code_simp
  show "\<forall>r \<in> set [mk_result ''x'' ''a'' 5 Success]. cr_conclusion r \<noteq> Error" by code_simp
  show "\<forall>c \<in> set [mk_claim ''a'' 0 10]. live c 20 \<longrightarrow> winner_of [mk_claim ''a'' 0 10] [mk_result ''x'' ''a'' 5 Success] 6 = Some c"
    by code_simp
qed

text \<open>
  Without these conditions a settled attempt reverts as time passes, and is executed again.
  First, a runner that lost the race holds a claim that outlives the winner's: the winner's success
  is no longer effective and the loser is told to resume.  Second, an attempt that failed with an
  error and then succeeded falls back to the error once the second claim expires.
\<close>

theorem settled_attempt_reverts:
  "(let cs = [mk_claim ''a'' 0 10, mk_claim ''b'' 1 100]; rs = [mk_result ''x'' ''a'' 5 Success]
    in av_state (attempt_view_of 1 cs rs 6) = Done_run \<and> av_state (attempt_view_of 1 cs rs 11) = Claimed_run) \<and>
   (let cs = [mk_claim ''a'' 0 10, mk_claim ''b'' 6 10];
        rs = [mk_result ''x'' ''a'' 5 Error, mk_result ''y'' ''b'' 8 Success]
    in av_state (attempt_view_of 1 cs rs 10) = Done_run \<and> av_state (attempt_view_of 1 cs rs 17) = Stale)"
  by code_simp

text \<open>
  Two points where the code and the normative text of the protocol differ: a result that names no
  claim of the attempt settles it, and a claim is still live at the very second at which it expires.
\<close>

theorem protocol_text_differs:
  "av_state (attempt_view_of 1 [] [mk_result ''x'' ''nowhere'' 5 Success] 6) = Done_run \<and>
   live (mk_claim ''a'' 0 10) 10"
  by code_simp

section \<open>The size limit\<close>

text \<open>
  The walk that bounds the size of a body without printing it accepts exactly the bodies whose
  compact JSON text is within the budget.
\<close>

theorem json_fits_is_length:
  assumes "\<forall>s. length (esc s) = str_cost s"
  shows "json_fits v budget \<longleftrightarrow> length (canonicalize esc v) \<le> budget"
  unfolding json_fits_def walk_cost(1) full_cost_length [OF assms] by (simp add: checked_sub_def)

definition padded_escape :: "string \<Rightarrow> string" where
  "padded_escape s = CHR 0x22 # concat (map (\<lambda>c. replicate (char_cost c) c) s) @ [CHR 0x22]"

theorem json_fits_is_length_witness:
  "json_fits (JObj [(''k'', JArr [JNull, JStr [CHR 0x0A]])]) 17 \<and>
   length (canonicalize padded_escape (JObj [(''k'', JArr [JNull, JStr [CHR 0x0A]])])) = 17"
proof -
  have "\<forall>s. length (padded_escape s) = str_cost s"
    by (simp add: padded_escape_def str_cost_def length_concat comp_def)
  moreover have "length (canonicalize padded_escape (JObj [(''k'', JArr [JNull, JStr [CHR 0x0A]])])) = 17" by code_simp
  ultimately show ?thesis using json_fits_is_length [of padded_escape] by simp
qed

end
