(* ===== verification/Collab_Board.thy ===== *)
theory Collab_Board
  imports Ci
begin

text \<open>
  The report and the board of \<^verbatim>\<open>walgit-wal/src/collab.rs\<close>: projections of all threads that every
  client computes for itself.  Shown here: they do not depend on the order in which the entries were
  read, and every card stands in the first column that matches it and nowhere else.
\<close>

section \<open>The report\<close>

record report_thread =
  rt_id :: string
  rt_title :: string
  rt_entries :: nat
  rt_verified :: nat
  rt_last_ts :: int
  rt_kinds :: "string list"

record report_pr =
  rp_id :: string
  rp_title :: string
  rp_base :: "string option"
  rp_head :: "string option"
  rp_status :: string
  rp_approvals :: nat
  rp_merge_allowed :: bool
  rp_merge_reason :: string

record report_run =
  rr_id :: string
  rr_task :: string
  rr_ref :: string
  rr_commit :: string
  rr_state :: string
  rr_conclusion :: "string option"
  rr_runner :: "string option"
  rr_claims :: nat
  rr_last_ts :: int

record report =
  re_threads :: "report_thread list"
  re_prs :: "report_pr list"
  re_runs :: "report_run list"
  re_total :: nat
  re_verified :: nat
  re_unverified :: nat
  re_missing :: nat
  re_by_actor :: "(string \<times> nat) list"
  re_by_kind :: "(string \<times> nat) list"

definition root_title :: "entry_ref list \<Rightarrow> string" where
  "root_title ordered =
     (case ordered of [] \<Rightarrow> [] | r # _ \<Rightarrow> or_empty (get_str (e_body (r_entry r)) ''title''))"

definition pure_ci :: "entry_ref list \<Rightarrow> bool" where
  "pure_ci grp \<longleftrightarrow>
     list_all (\<lambda>r. e_kind (r_entry r) = CI_CLAIM_KIND \<or> e_kind (r_entry r) = CI_RESULT_KIND) grp"

definition max_ts :: "entry_ref list \<Rightarrow> int" where
  "max_ts grp =
     (case map (\<lambda>r. e_ts (r_entry r)) grp of [] \<Rightarrow> 0 | t # ts \<Rightarrow> fold max ts t)"

definition sorted_kinds :: "entry_ref list \<Rightarrow> string list" where
  "sorted_kinds grp = remdups_adj (sort (map (\<lambda>r. e_kind (r_entry r)) grp))"

definition report_thread_of :: "libs \<Rightarrow> principals \<Rightarrow> string \<times> entry_ref list \<Rightarrow> report_thread option" where
  "report_thread_of L ps = (\<lambda>(id', grp).
     if pure_ci grp then None
     else
       (let ordered = thread grp
        in Some \<lparr>rt_id = id', rt_title = root_title ordered, rt_entries = length grp,
             rt_verified = length (filter (is_verified L ps) ordered), rt_last_ts = max_ts grp,
             rt_kinds = sorted_kinds grp\<rparr>))"

definition has_patch :: "entry_ref list \<Rightarrow> bool" where
  "has_patch grp \<longleftrightarrow> list_ex (\<lambda>r. e_kind (r_entry r) = ''patch'') grp"

definition report_pr_of ::
  "libs \<Rightarrow> principals \<Rightarrow> merge_rules \<Rightarrow> string \<times> entry_ref list \<Rightarrow> (int \<times> report_pr) option" where
  "report_pr_of L ps rules = (\<lambda>(id', grp).
     if \<not> has_patch grp then None
     else
       (let pr = pr_view_of L ps grp;
            ev = merge_rule_eval rules pr
        in Some (max_ts grp,
             \<lparr>rp_id = id', rp_title = root_title (thread grp), rp_base = pr_base pr, rp_head = pr_head pr,
               rp_status = pr_status pr, rp_approvals = length (pr_human_approvals pr),
               rp_merge_allowed = me_allowed ev, rp_merge_reason = me_reason ev\<rparr>)))"

definition status_rank :: "string \<Rightarrow> nat" where
  "status_rank s = (if s = ''open'' then 0 else if s = ''merged'' then 1 else 2)"

definition count_into :: "(string, nat) btree \<Rightarrow> string \<Rightarrow> (string, nat) btree" where
  "count_into m k = bt_insert k ((case bt_get m k of None \<Rightarrow> 0 | Some n \<Rightarrow> n) + 1) m"

fun state_str :: "run_state \<Rightarrow> string" where
  "state_str Pending = ''pending''"
| "state_str Claimed_run = ''claimed''"
| "state_str Stale = ''stale''"
| "state_str Done_run = ''done''"

definition report_run_of :: "string \<times> run_view \<Rightarrow> report_run" where
  "report_run_of = (\<lambda>(id', run).
     \<lparr>rr_id = id', rr_task = rn_task run, rr_ref = rn_ref run, rr_commit = rn_commit run,
       rr_state = state_str (rn_state run), rr_conclusion = map_option conclusion_str (rn_conclusion run),
       rr_runner = rn_runner run, rr_claims = sum_list (map (\<lambda>a. length (av_claims a)) (rn_attempts run)),
       rr_last_ts = rn_last_ts run\<rparr>)"

definition build_report :: "libs \<Rightarrow> principals \<Rightarrow> merge_rules \<Rightarrow> int \<Rightarrow> entry_ref list \<Rightarrow> report" where
  "build_report L ps rules now entries =
     (let groups = by_thread entries;
          threads = List.map_filter (report_thread_of L ps) groups;
          prs = List.map_filter (report_pr_of L ps rules) groups
      in \<lparr>re_threads = sort_key (\<lambda>t. (- rt_last_ts t, rt_id t)) threads,
           re_prs = map snd (sort_key (\<lambda>(ts, p). (status_rank (rp_status p), - ts, rp_id p)) prs),
           re_runs = map report_run_of (collect_runs L ps entries now),
           re_total = length entries,
           re_verified = length (filter (is_verified L ps) entries),
           re_unverified = length (filter (\<lambda>r. \<not> is_verified L ps r) entries),
           re_missing = length (filter (\<lambda>r. \<not> is_verified L ps r \<and> ps (e_actor (r_entry r)) = None) entries),
           re_by_actor = foldl count_into [] (map (\<lambda>r. e_actor (r_entry r)) entries),
           re_by_kind = foldl count_into [] (map (\<lambda>r. e_kind (r_entry r)) entries)\<rparr>)"

section \<open>The board\<close>

record board_column_def =
  bc_name :: string
  bc_kind :: string
  bc_status :: string
  bc_merge :: string
  bc_unverified :: bool

datatype board_sort_by = ByTs | ById
datatype board_sort_direction = Descending | Ascending

record board_def =
  bd_version :: nat
  bd_sort :: "board_sort_by \<times> board_sort_direction"
  bd_columns :: "board_column_def list"

datatype board_error = BoardVersion | NoColumns | EmptyName | BadMerge string | DuplicateName

fun check_columns :: "board_column_def list \<Rightarrow> (board_error, unit) result" where
  "check_columns [] = Ok ()"
| "check_columns (c # cs) =
     (if bc_name c = [] then Err EmptyName
      else if bc_merge c \<noteq> [] \<and> bc_merge c \<noteq> ''allowed'' \<and> bc_merge c \<noteq> ''blocked'' then Err (BadMerge (bc_name c))
      else check_columns cs)"

definition validate_board :: "board_def \<Rightarrow> (board_error, unit) result" where
  "validate_board b =
     (if bd_version b \<noteq> 1 then Err BoardVersion
      else if bd_columns b = [] then Err NoColumns
      else rbind (check_columns (bd_columns b)) (\<lambda>_.
        if length (remdups_adj (sort (map bc_name (bd_columns b)))) \<noteq> length (bd_columns b)
        then Err DuplicateName else Ok ()))"

definition status_column :: "string \<Rightarrow> board_column_def" where
  "status_column s = \<lparr>bc_name = s, bc_kind = [], bc_status = s, bc_merge = [], bc_unverified = False\<rparr>"

definition default_board :: board_def where
  "default_board = \<lparr>bd_version = 1, bd_sort = (ByTs, Descending),
     bd_columns = [status_column ''open'', status_column ''merged'', status_column ''closed'',
       (status_column ''other'')\<lparr>bc_status := []\<rparr>]\<rparr>"

record work_context =
  wc_owner :: string
  wc_worktree :: string
  wc_branch :: string
  wc_work :: string

definition set_field :: "json \<Rightarrow> string \<Rightarrow> string \<Rightarrow> string" where
  "set_field body k old = (case get_str body k of None \<Rightarrow> old | Some v \<Rightarrow> v)"

definition work_step :: "work_context \<Rightarrow> entry_ref \<Rightarrow> work_context" where
  "work_step ctx r =
     (if e_kind (r_entry r) \<noteq> ''status'' then ctx
      else
        (let body = e_body (r_entry r)
         in \<lparr>wc_owner = set_field body ''owner'' (wc_owner ctx),
              wc_worktree = set_field body ''worktree'' (wc_worktree ctx),
              wc_branch = set_field body ''branch'' (wc_branch ctx),
              wc_work = (case get_str body ''work'' of Some v \<Rightarrow> v | None \<Rightarrow> set_field body ''note'' (wc_work ctx))\<rparr>))"

definition card_work_context :: "entry_ref list \<Rightarrow> work_context" where
  "card_work_context ordered =
     foldl work_step \<lparr>wc_owner = [], wc_worktree = [], wc_branch = [], wc_work = []\<rparr> ordered"

definition entry_prose :: "json \<Rightarrow> string" where
  "entry_prose body =
     (case filter (\<lambda>s. s \<noteq> [])
        (map trim (List.map_filter (get_str body) [''text'', ''body'', ''note'', ''message'', ''summary''])) of
        [] \<Rightarrow> [] | s # _ \<Rightarrow> s)"

record board_card =
  cd_id :: string
  cd_title :: string
  cd_prose :: string
  cd_actor :: string
  cd_status :: string
  cd_work :: work_context
  cd_created_ts :: int
  cd_last_ts :: int
  cd_entries :: nat
  cd_verified :: nat
  cd_unverified :: nat
  cd_kinds :: "string list"
  cd_last_oid :: string
  cd_merge :: "(bool \<times> string) option"

definition card_of :: "libs \<Rightarrow> principals \<Rightarrow> merge_rules \<Rightarrow> string \<times> entry_ref list \<Rightarrow> board_card option" where
  "card_of L ps rules = (\<lambda>(id', grp).
     if pure_ci grp then None
     else
       (let ordered = thread grp;
            verified = length (filter (is_verified L ps) ordered);
            merge' = (if has_patch grp
                      then (let ev = merge_rule_eval rules (pr_view_of L ps grp) in Some (me_allowed ev, me_reason ev))
                      else None)
        in Some \<lparr>cd_id = id', cd_title = root_title ordered,
             cd_prose = (case ordered of [] \<Rightarrow> [] | r # _ \<Rightarrow> entry_prose (e_body (r_entry r))),
             cd_actor = (case ordered of [] \<Rightarrow> [] | r # _ \<Rightarrow> e_actor (r_entry r)),
             cd_status = card_status ordered, cd_work = card_work_context ordered,
             cd_created_ts = (case ordered of [] \<Rightarrow> 0 | r # _ \<Rightarrow> e_ts (r_entry r)),
             cd_last_ts = max_ts grp, cd_entries = length grp, cd_verified = verified,
             cd_unverified = length grp - verified, cd_kinds = sorted_kinds grp,
             cd_last_oid = (case rev ordered of [] \<Rightarrow> [] | r # _ \<Rightarrow> r_oid r), cd_merge = merge'\<rparr>))"

definition card_matches :: "board_card \<Rightarrow> board_column_def \<Rightarrow> bool" where
  "card_matches cd col \<longleftrightarrow>
     (bc_kind col = [] \<or> bc_kind col \<in> set (cd_kinds cd)) \<and>
     (bc_status col = [] \<or> cd_status cd = bc_status col) \<and>
     (bc_merge col = [] \<or>
       (case cd_merge cd of
          None \<Rightarrow> False
        | Some (allowed, _) \<Rightarrow>
            bc_merge col = ''allowed'' \<and> allowed \<or> bc_merge col = ''blocked'' \<and> \<not> allowed)) \<and>
     \<not> (bc_unverified col \<and> cd_unverified cd = 0)"

text \<open>The order inside a column: the field, reversed when descending, then the id.\<close>

definition card_key :: "board_sort_by \<times> board_sort_direction \<Rightarrow> board_card \<Rightarrow> int \<times> string" where
  "card_key srt cd =
     (case srt of
        (ByTs, Ascending) \<Rightarrow> (cd_last_ts cd, cd_id cd)
      | (ByTs, Descending) \<Rightarrow> (- cd_last_ts cd, cd_id cd)
      | _ \<Rightarrow> (0, cd_id cd))"

definition sort_cards :: "board_sort_by \<times> board_sort_direction \<Rightarrow> board_card list \<Rightarrow> board_card list" where
  "sort_cards srt cards =
     (if srt = (ById, Descending) then rev (sort_key cd_id (rev cards)) else sort_key (card_key srt) cards)"

fun place :: "(board_column_def \<times> board_card list) list \<Rightarrow> board_card \<Rightarrow> (board_column_def \<times> board_card list) list" where
  "place [] cd = []"
| "place ((def, cards) # cols) cd =
     (if card_matches cd def then (def, cards @ [cd]) # cols else (def, cards) # place cols cd)"

type_synonym board = "(string \<times> board_card list) list"

definition build_board :: "libs \<Rightarrow> principals \<Rightarrow> merge_rules \<Rightarrow> board_def \<Rightarrow> entry_ref list \<Rightarrow> board" where
  "build_board L ps rules b entries =
     map (\<lambda>(def, cards). (bc_name def, sort_cards (bd_sort b) cards))
       (foldl place (map (\<lambda>def. (def, [])) (bd_columns b)) (List.map_filter (card_of L ps rules) (by_thread entries)))"

section \<open>Lemmas: grouping\<close>

lemma by_thread_get:
  "bt_ok (by_thread es) \<and>
   bt_get (by_thread es) k =
     (if filter (\<lambda>r. e_id (r_entry r) = k) es = [] then None else Some (filter (\<lambda>r. e_id (r_entry r) = k) es))"
proof (induction es arbitrary: k rule: rev_induct)
  case Nil
  then show ?case by (simp add: by_thread_def bt_get_def)
next
  case (snoc r es)
  have step: "by_thread (es @ [r]) = group_push (by_thread es) r" by (simp add: by_thread_def)
  have ok: "bt_ok (by_thread es)" using snoc by blast
  have old: "(case bt_get (by_thread es) (e_id (r_entry r)) of None \<Rightarrow> [] | Some g \<Rightarrow> g) =
      filter (\<lambda>q. e_id (r_entry q) = e_id (r_entry r)) es" using snoc [of "e_id (r_entry r)"] by simp
  show ?case
    unfolding step group_push_def old using snoc [of k] ok by (simp add: bt_get_insert bt_ok_insert)
qed

text \<open>A projection that maps each thread by a function of its set of entries.\<close>

lemma by_thread_perm:
  assumes d: "distinct (map r_oid es)" and m: "mset es' = mset es"
    and g: "\<And>k xs ys. mset ys = mset xs \<Longrightarrow> distinct (map r_oid xs) \<Longrightarrow> g (k, xs) = g (k, ys)"
  shows "map g (by_thread es) = map g (by_thread es')"
proof -
  let ?f = "\<lambda>k e. filter (\<lambda>r. e_id (r_entry r) = k) e"
  have ok: "bt_ok (by_thread es)" "bt_ok (by_thread es')" using by_thread_get by blast+
  have get: "bt_get (by_thread e) k = (if ?f k e = [] then None else Some (?f k e))" for e k
    using by_thread_get by blast
  have f: "mset (?f k es') = mset (?f k es)" "?f k es' = [] \<longleftrightarrow> ?f k es = []" for k
    using m by (metis mset_filter) (metis m mset_filter mset_zero_iff)
  have keys: "map fst (by_thread es) = map fst (by_thread es')"
    by (rule bt_keys_cong [OF ok]) (simp add: get f(2))
  have "g (k, the (bt_get (by_thread es) k)) = g (k, the (bt_get (by_thread es') k))" if "k \<in> set (map fst (by_thread es))" for k
  proof -
    have "bt_get (by_thread es) k \<noteq> None" using that ok(1) by (auto simp: bt_get_None_iff)
    then have "?f k es \<noteq> []" using get [of es k] by auto
    moreover have "g (k, ?f k es) = g (k, ?f k es')" by (rule g [OF f(1)]) (use d in \<open>simp add: distinct_map_filter\<close>)
    ultimately show ?thesis using get [of es k] get [of es' k] f(2) [of k] by simp
  qed
  then have "map (\<lambda>k. g (k, the (bt_get (by_thread es) k))) (map fst (by_thread es)) =
      map (\<lambda>k. g (k, the (bt_get (by_thread es') k))) (map fst (by_thread es'))"
    unfolding keys by (intro map_cong refl) blast
  then show ?thesis using bt_map_keys [OF ok(1), of g] bt_map_keys [OF ok(2), of g] by metis
qed

lemma map_filter_map: "map g xs = map g ys \<Longrightarrow> List.map_filter g xs = List.map_filter g ys"
proof -
  have "List.map_filter g zs = List.map_filter id (map g zs)" for zs
    by (simp add: List.map_filter_def filter_map comp_def)
  then show "map g xs = map g ys \<Longrightarrow> List.map_filter g xs = List.map_filter g ys" by metis
qed

lemma max_ts_perm: "mset ys = mset xs \<Longrightarrow> max_ts ys = max_ts xs"
proof -
  have Max: "max_ts zs = (if zs = [] then 0 else Max ((\<lambda>r. e_ts (r_entry r)) ` set zs))" for zs
    by (cases zs) (simp_all add: max_ts_def flip: Max.set_eq_fold)
  show "mset ys = mset xs \<Longrightarrow> max_ts ys = max_ts xs"
    unfolding Max by (metis mset_eq_setD set_empty)
qed

lemma sort_perm: "mset ys = mset xs \<Longrightarrow> sort ys = sort xs"
  by (metis sorted_list_of_multiset_mset)

lemma kinds_perm: "mset ys = mset xs \<Longrightarrow> sorted_kinds ys = sorted_kinds xs"
  unfolding sorted_kinds_def by (metis mset_map sort_perm)

lemma list_all_perm: "mset ys = mset xs \<Longrightarrow> list_all P ys = list_all P xs"
  by (metis list_all_iff mset_eq_setD)

lemma list_ex_perm: "mset ys = mset xs \<Longrightarrow> list_ex P ys = list_ex P xs"
  by (metis list_ex_iff mset_eq_setD)

lemmas perm_simps = max_ts_perm kinds_perm list_all_perm list_ex_perm mset_eq_length thread_perm [symmetric]

lemma card_of_perm:
  assumes "mset ys = mset xs" "distinct (map r_oid xs)"
  shows "card_of L ps rules (k, xs) = card_of L ps rules (k, ys)"
proof -
  have t: "thread ys = thread xs" using thread_perm [OF assms(1) [symmetric] assms(2)] by simp
  show ?thesis
    unfolding card_of_def pure_ci_def has_patch_def pr_view_of_def split t
      max_ts_perm [OF assms(1)] kinds_perm [OF assms(1)] list_all_perm [OF assms(1)] list_ex_perm [OF assms(1)]
      mset_eq_length [OF assms(1)] ..
qed

lemma report_thread_of_perm:
  assumes "mset ys = mset xs" "distinct (map r_oid xs)"
  shows "report_thread_of L ps (k, xs) = report_thread_of L ps (k, ys)"
proof -
  have t: "thread ys = thread xs" using thread_perm [OF assms(1) [symmetric] assms(2)] by simp
  show ?thesis
    unfolding report_thread_of_def pure_ci_def split t
      max_ts_perm [OF assms(1)] kinds_perm [OF assms(1)] list_all_perm [OF assms(1)] mset_eq_length [OF assms(1)] ..
qed

lemma report_pr_of_perm:
  assumes "mset ys = mset xs" "distinct (map r_oid xs)"
  shows "report_pr_of L ps rules (k, xs) = report_pr_of L ps rules (k, ys)"
proof -
  have t: "thread ys = thread xs" using thread_perm [OF assms(1) [symmetric] assms(2)] by simp
  show ?thesis
    unfolding report_pr_of_def has_patch_def pr_view_of_def split t max_ts_perm [OF assms(1)] list_ex_perm [OF assms(1)] ..
qed

lemma count_into_step:
  assumes "bt_ok m"
  shows "bt_ok (count_into m x)"
    "bt_get (count_into m x) k = (if k = x then Some ((case bt_get m x of None \<Rightarrow> 0 | Some n \<Rightarrow> n) + 1) else bt_get m k)"
  using assms by (simp_all add: count_into_def bt_get_insert bt_ok_insert)

lemma count_into_get:
  "bt_ok (foldl count_into [] ks) \<and>
   bt_get (foldl count_into [] ks) k = (if k \<in> set ks then Some (count_list ks k) else None)"
proof (induction ks arbitrary: k rule: rev_induct)
  case (snoc x ks)
  have step: "foldl count_into [] (ks @ [x]) = count_into (foldl count_into [] ks) x" by simp
  have old: "(case bt_get (foldl count_into [] ks) x of None \<Rightarrow> 0 | Some n \<Rightarrow> n) = count_list ks x"
    using snoc [of x] by (simp add: count_list_0_iff)
  have ok: "bt_ok (foldl count_into [] ks)" using snoc by blast
  show ?case unfolding step using count_into_step [OF ok, of x] old snoc [of k] by auto
qed (simp add: bt_get_def)

lemma count_into_perm:
  assumes "mset ys = mset xs"
  shows "foldl count_into [] ys = foldl count_into [] xs"
proof (rule bt_ext)
  fix k
  have "count_list ys k = count_list xs k" using assms by (metis count_mset)
  then show "bt_get (foldl count_into [] ys) k = bt_get (foldl count_into [] xs) k"
    using count_into_get [of ys k] count_into_get [of xs k] mset_eq_setD [OF assms] by simp
qed (use count_into_get in blast)+

section \<open>Lemmas: placing cards\<close>

fun first_column :: "board_column_def list \<Rightarrow> board_card \<Rightarrow> nat option" where
  "first_column [] c = None"
| "first_column (d # ds) c = (if card_matches c d then Some 0 else map_option Suc (first_column ds c))"

lemma first_column_Some:
  "first_column ds c = Some i \<longleftrightarrow> i < length ds \<and> card_matches c (ds ! i) \<and> (\<forall>j < i. \<not> card_matches c (ds ! j))"
proof (induction ds arbitrary: i)
  case (Cons d ds)
  then show ?case by (cases i) (auto simp: less_Suc_eq_0_disj)
qed simp

lemma place_fst [simp]: "map fst (place cols c) = map fst cols"
  by (induction cols c rule: place.induct) auto

lemma place_nth:
  "i < length cols \<Longrightarrow>
    snd (place cols c ! i) = snd (cols ! i) @ (if first_column (map fst cols) c = Some i then [c] else [])"
proof (induction cols c arbitrary: i rule: place.induct)
  case (2 d cs cols c)
  then show ?case by (cases i) (auto split: option.splits)
qed simp

lemma foldl_place:
  assumes "i < length cols"
  shows "map fst (foldl place cols cs) = map fst cols \<and>
    snd (foldl place cols cs ! i) = snd (cols ! i) @ filter (\<lambda>c. first_column (map fst cols) c = Some i) cs"
  using assms
proof (induction cs rule: rev_induct)
  case (snoc c cs)
  then have IH: "map fst (foldl place cols cs) = map fst cols" by blast
  then have "length (foldl place cols cs) = length cols" by (metis length_map)
  then show ?case using snoc IH place_nth [of i "foldl place cols cs" c] by simp
qed simp

lemma foldl_place_fst: "map fst (foldl place cols cs) = map fst cols"
  by (induction cs rule: rev_induct) simp_all

section \<open>Properties\<close>

lemma build_board_perm:
  assumes "distinct (map r_oid es)" "mset es' = mset es"
  shows "build_board L ps rules b es' = build_board L ps rules b es"
proof -
  have "List.map_filter (card_of L ps rules) (by_thread es') = List.map_filter (card_of L ps rules) (by_thread es)"
    using by_thread_perm [where g = "card_of L ps rules", OF assms] card_of_perm by (metis map_filter_map)
  then show ?thesis by (simp add: build_board_def)
qed

text \<open>
  The board and the report (its CI section aside) are functions of the set of entries: clients
  that read the same refs in any order compute the same board and the same report.
\<close>

theorem board_order_independent:
  assumes "distinct (map r_oid es)" "mset es' = mset es"
  shows "build_board L ps rules b es' = build_board L ps rules b es \<and>
    (build_report L ps rules now es')\<lparr>re_runs := []\<rparr> = (build_report L ps rules now es)\<lparr>re_runs := []\<rparr>"
proof -
  have t: "List.map_filter (report_thread_of L ps) (by_thread es') = List.map_filter (report_thread_of L ps) (by_thread es)"
    using by_thread_perm [where g = "report_thread_of L ps", OF assms] report_thread_of_perm by (metis map_filter_map)
  have p: "List.map_filter (report_pr_of L ps rules) (by_thread es') = List.map_filter (report_pr_of L ps rules) (by_thread es)"
    using by_thread_perm [where g = "report_pr_of L ps rules", OF assms] report_pr_of_perm by (metis map_filter_map)
  have n: "length (filter P es') = length (filter P es)" for P by (rule length_filter_mset [OF assms(2)])
  have k: "foldl count_into [] (map f es') = foldl count_into [] (map f es)" for f
    by (rule count_into_perm) (use assms(2) in simp)
  show ?thesis
    unfolding build_report_def t p n k mset_eq_length [OF assms(2)] Let_def using build_board_perm [OF assms] by simp
qed

theorem board_order_independent_witness:
  "build_board sample_libs sample_principals main_rules default_board (rev [main_patch, planted_patch]) =
   build_board sample_libs sample_principals main_rules default_board [main_patch, planted_patch]"
proof -
  have "distinct (map r_oid [main_patch, planted_patch])" by code_simp
  then show ?thesis using board_order_independent [of "[main_patch, planted_patch]" "rev [main_patch, planted_patch]"]
    by (metis mset_rev)
qed

text \<open>
  Every thread that is not a pure CI run becomes one card, and a card stands in the first column
  that matches it and in no other.
\<close>

theorem board_places_cards:
  assumes "i < length (bd_columns b)"
  shows "\<exists>cards. build_board L ps rules b es ! i = (bc_name (bd_columns b ! i), sort_cards (bd_sort b) cards) \<and>
    cards = filter (\<lambda>c. card_matches c (bd_columns b ! i) \<and> (\<forall>j < i. \<not> card_matches c (bd_columns b ! j)))
      (List.map_filter (card_of L ps rules) (by_thread es))"
proof -
  let ?cols = "map (\<lambda>def. (def, [])) (bd_columns b) :: (board_column_def \<times> board_card list) list"
  let ?cs = "List.map_filter (card_of L ps rules) (by_thread es)"
  have i: "i < length ?cols" using assms by simp
  note P = foldl_place [OF i, of ?cs]
  have fst': "map fst ?cols = bd_columns b" by (simp add: comp_def)
  have len: "length (foldl place ?cols ?cs) = length (bd_columns b)" by (metis P fst' length_map)
  have "fst (foldl place ?cols ?cs ! i) = bd_columns b ! i"
    using P fst' assms len by (metis nth_map)
  moreover have "snd (foldl place ?cols ?cs ! i) =
      filter (\<lambda>c. card_matches c (bd_columns b ! i) \<and> (\<forall>j < i. \<not> card_matches c (bd_columns b ! j))) ?cs"
    using P assms unfolding fst' first_column_Some by simp
  ultimately show ?thesis using assms len by (simp add: build_board_def case_prod_unfold)
qed

theorem board_places_cards_witness:
  "\<exists>cards. build_board sample_libs sample_principals main_rules default_board [main_patch] ! 0 = (''open'', cards)"
  using board_places_cards [of 0 default_board sample_libs sample_principals main_rules "[main_patch]"]
  by (auto simp: default_board_def status_column_def)

end
