(* ===== verification/Collab_Fold.thy ===== *)
theory Collab_Fold
  imports Collab_Board
begin

text \<open>
  The fold of the collaboration inbox: snapshots (\<^verbatim>\<open>walgit-wal/src/collab.rs\<close>) and the core of
  \<^verbatim>\<open>walgit collab gc\<close> (\<^verbatim>\<open>walgit-cli/src/collab_cmd.rs\<close>), which moves inbox entries into the
  snapshot and prunes their refs, and the reader that puts snapshot and inbox together again.

  Parameters (\<open>fold_libs\<close>): the hash of git objects, the parsers of entries and snapshot
  documents and the signature.  An inbox ref is its name, the oid it points to and the bytes of that
  blob.  Bytes that are not UTF-8 do not parse.  The pushes to a remote are the environment's; the
  local application of the fold is modelled.
\<close>

record snapshot_record =
  sr_oid :: string
  sr_principal :: string
  sr_json :: string

record snapshot =
  sn_version :: nat
  sn_kind :: string
  sn_actor :: string
  sn_ts :: int
  sn_entries :: "snapshot_record list"
  sn_sig :: string

record fold_libs =
  fl_hash :: "string \<Rightarrow> string"
  fl_parse_entry :: "string \<Rightarrow> entry option"
  fl_parse_snapshot :: "string \<Rightarrow> snapshot option"
  fl_sign :: "string \<Rightarrow> string"

definition SNAPSHOT_REF :: string where
  "SNAPSHOT_REF = ''refs/collab/meta/snapshot''"

definition git_blob_oid :: "fold_libs \<Rightarrow> string \<Rightarrow> string" where
  "git_blob_oid F bytes = fl_hash F (''blob '' @ dec (length bytes) @ CHR 0x00 # bytes)"

definition record_entry_ref :: "fold_libs \<Rightarrow> snapshot_record \<Rightarrow> entry_ref option" where
  "record_entry_ref F rec =
     (if git_blob_oid F (sr_json rec) \<noteq> sr_oid rec then None
      else map_option (\<lambda>e. \<lparr>r_oid = sr_oid rec, r_principal = sr_principal rec, r_entry = e\<rparr>)
             (fl_parse_entry F (sr_json rec)))"

datatype snapshot_error = NotASnapshot | SnapshotVersion nat | SnapshotKind string

definition parse_snapshot :: "fold_libs \<Rightarrow> string \<Rightarrow> (snapshot_error, snapshot) result" where
  "parse_snapshot F bytes =
     rbind (or_err NotASnapshot (fl_parse_snapshot F bytes)) (\<lambda>snap.
       if sn_version snap \<noteq> 1 then Err (SnapshotVersion (sn_version snap))
       else if sn_kind snap \<noteq> ''collab_snapshot'' then Err (SnapshotKind (sn_kind snap))
       else Ok snap)"

definition record_value :: "snapshot_record \<Rightarrow> json" where
  "record_value rec = JObj (bt_of
     [(''oid'', JStr (sr_oid rec)), (''principal'', JStr (sr_principal rec)), (''json'', JStr (sr_json rec))])"

definition snapshot_value :: "snapshot \<Rightarrow> json" where
  "snapshot_value s = JObj (bt_of
     [(''version'', JNum (PosInt (sn_version s))), (''kind'', JStr (sn_kind s)), (''actor'', JStr (sn_actor s)),
      (''ts'', json_int (sn_ts s)), (''entries'', JArr (map record_value (sn_entries s))), (''sig'', JStr (sn_sig s))])"

definition snapshot_canonical :: "libs \<Rightarrow> snapshot \<Rightarrow> string" where
  "snapshot_canonical L s = canonicalize (l_escape L) (snapshot_value (s\<lparr>sn_sig := []\<rparr>))"

definition sign_snapshot :: "libs \<Rightarrow> fold_libs \<Rightarrow> snapshot \<Rightarrow> string" where
  "sign_snapshot L F s = ''ed25519:'' @ fl_sign F (snapshot_canonical L s)"

definition verify_snapshot :: "libs \<Rightarrow> snapshot \<Rightarrow> string \<Rightarrow> (sig_error, unit) result" where
  "verify_snapshot L s public_key =
     rbind (or_err SigForm (strip_prefix ''ed25519:'' (sn_sig s))) (\<lambda>sig_b64.
     rbind (or_err SigBase64 (l_base64 L sig_b64)) (\<lambda>sig_bytes.
     rbind (or_err SigBytes (l_signature L sig_bytes)) (\<lambda>sig.
     rbind (or_err KeyBase64 (l_base64 L (trim public_key))) (\<lambda>key_bytes.
     rbind (if length key_bytes = 32 then Ok key_bytes else Err KeyLength) (\<lambda>key_bytes.
     rbind (or_err KeyBytes (l_key L key_bytes)) (\<lambda>vk.
       if l_verify L vk (snapshot_canonical L s) sig then Ok () else Err SigMismatch))))))"

text \<open>\<open>dedup_by\<close> on the oid: of neighbours with one oid the first stays.\<close>

fun dedup_oid :: "snapshot_record list \<Rightarrow> snapshot_record list" where
  "dedup_oid (a # b # rs) = (if sr_oid a = sr_oid b then dedup_oid (a # rs) else a # dedup_oid (b # rs))"
| "dedup_oid rs = rs"

definition build_snapshot :: "libs \<Rightarrow> fold_libs \<Rightarrow> string \<Rightarrow> int \<Rightarrow> snapshot_record list \<Rightarrow> snapshot" where
  "build_snapshot L F actor ts entries =
     (let snap = \<lparr>sn_version = 1, sn_kind = ''collab_snapshot'', sn_actor = actor, sn_ts = ts,
            sn_entries = dedup_oid (sort_key sr_oid entries), sn_sig = []\<rparr>
      in snap\<lparr>sn_sig := sign_snapshot L F snap\<rparr>)"

section \<open>The reader\<close>

record inbox_ref =
  ir_name :: string
  ir_oid :: string
  ir_blob :: string

definition inbox_principal :: "string \<Rightarrow> string option" where
  "inbox_principal name' =
     map_option fst (Option.bind (strip_prefix ''refs/collab/inbox/'' name') (rsplit_once (CHR ''/'')))"

definition inbox_entry :: "fold_libs \<Rightarrow> inbox_ref \<Rightarrow> entry_ref option" where
  "inbox_entry F r =
     Option.bind (inbox_principal (ir_name r)) (\<lambda>who.
       map_option (\<lambda>e. \<lparr>r_oid = ir_oid r, r_principal = who, r_entry = e\<rparr>) (fl_parse_entry F (ir_blob r)))"

definition load_collab :: "fold_libs \<Rightarrow> snapshot_record list \<Rightarrow> inbox_ref list \<Rightarrow> entry_ref list" where
  "load_collab F records inbox =
     into_entries (fold entry_set_insert (List.map_filter (inbox_entry F) inbox)
       (fold entry_set_insert (List.map_filter (record_entry_ref F) records) entry_set_new))"

section \<open>The fold\<close>

record fold_state =
  fs_records :: "snapshot_record list"
  fs_seen :: "string \<Rightarrow> nat option"
  fs_changed :: bool
  fs_folded :: "string list"
  fs_left :: nat

definition keep_fold_record :: "fold_libs \<Rightarrow> snapshot_record \<Rightarrow> string \<Rightarrow> fold_state \<Rightarrow> bool \<times> fold_state" where
  "keep_fold_record F rec entry_actor S =
     (case fs_seen S (sr_oid rec) of
        Some i \<Rightarrow>
          (let replace = i < length (fs_records S) \<and>
                 (let cur = fs_records S ! i
                  in record_entry_ref F cur = None \<or> sr_principal cur \<noteq> entry_actor \<and> sr_principal rec = entry_actor)
           in (replace, if replace then S\<lparr>fs_records := (fs_records S)[i := rec]\<rparr> else S))
      | None \<Rightarrow>
          (True, S\<lparr>fs_seen := (fs_seen S)(sr_oid rec \<mapsto> length (fs_records S)), fs_records := fs_records S @ [rec]\<rparr>))"

definition gc_step :: "fold_libs \<Rightarrow> fold_state \<Rightarrow> inbox_ref \<Rightarrow> fold_state" where
  "gc_step F S r =
     (case fl_parse_entry F (ir_blob r) of
        None \<Rightarrow> S\<lparr>fs_left := fs_left S + 1\<rparr>
      | Some e \<Rightarrow>
          (case inbox_principal (ir_name r) of
             None \<Rightarrow> S\<lparr>fs_left := fs_left S + 1\<rparr>
           | Some who \<Rightarrow>
               (let (ch, S') = keep_fold_record F \<lparr>sr_oid = ir_oid r, sr_principal = who, sr_json = ir_blob r\<rparr> (e_actor e) S
                in S'\<lparr>fs_changed := fs_changed S' \<or> ch, fs_folded := fs_folded S' @ [ir_name r]\<rparr>)))"

definition seen_records :: "snapshot_record list \<Rightarrow> string \<Rightarrow> nat option" where
  "seen_records records =
     foldl (\<lambda>m (i, rec). case m (sr_oid rec) of Some _ \<Rightarrow> m | None \<Rightarrow> m(sr_oid rec \<mapsto> i)) (\<lambda>_. None)
       (enumerate 0 records)"

definition gc_fold :: "fold_libs \<Rightarrow> snapshot_record list \<Rightarrow> inbox_ref list \<Rightarrow> fold_state" where
  "gc_fold F records inbox =
     foldl (gc_step F)
       \<lparr>fs_records = records, fs_seen = seen_records records, fs_changed = False, fs_folded = [], fs_left = 0\<rparr> inbox"

text \<open>The local effect of a fold: the snapshot is rebuilt if a record changed, the folded refs are deleted.\<close>

definition run_gc ::
  "libs \<Rightarrow> fold_libs \<Rightarrow> string \<Rightarrow> int \<Rightarrow> snapshot_record list \<Rightarrow> inbox_ref list
     \<Rightarrow> snapshot_record list \<times> inbox_ref list" where
  "run_gc L F actor now records inbox =
     (let S = gc_fold F records inbox
      in
        if fs_folded S = [] then (records, inbox)
        else
          (if fs_changed S then sn_entries (build_snapshot L F actor now (fs_records S)) else records,
           filter (\<lambda>r. ir_name r \<notin> set (fs_folded S)) inbox))"

section \<open>Lemmas: indexed lists\<close>

text \<open>A map from keys to positions of a list without repeated keys.\<close>

definition indexed :: "('a \<Rightarrow> string) \<Rightarrow> 'a list \<Rightarrow> (string \<Rightarrow> nat option) \<Rightarrow> bool" where
  "indexed f xs m \<longleftrightarrow> (\<forall>k i. m k = Some i \<longleftrightarrow> i < length xs \<and> f (xs ! i) = k)"

lemma indexed_distinct:
  assumes "indexed f xs m"
  shows "distinct (map f xs)"
proof -
  have "i = j" if "i < length xs" "j < length xs" "f (xs ! i) = f (xs ! j)" for i j
    using assms that unfolding indexed_def by (metis option.inject)
  then show ?thesis by (auto simp: distinct_conv_nth)
qed

lemma indexed_None:
  assumes "indexed f xs m"
  shows "m k = None \<longleftrightarrow> k \<notin> f ` set xs"
proof -
  have iff: "m k = Some i \<longleftrightarrow> i < length xs \<and> f (xs ! i) = k" for i using assms by (simp add: indexed_def)
  have "k \<in> f ` set xs \<longleftrightarrow> (\<exists>i < length xs. f (xs ! i) = k)" by (metis imageE imageI in_set_conv_nth)
  then show ?thesis using iff by (cases "m k") auto
qed

lemma indexed_append:
  assumes "indexed f xs m" "m (f x) = None"
  shows "indexed f (xs @ [x]) (m(f x \<mapsto> length xs))"
proof -
  have "f (xs ! i) \<noteq> f x" if "i < length xs" for i
    using indexed_None [OF assms(1)] assms(2) that by (metis image_eqI nth_mem)
  then show ?thesis using assms(1) unfolding indexed_def by (auto simp: nth_append less_Suc_eq)
qed

lemma indexed_update:
  assumes "indexed f xs m" "m (f x) = Some i"
  shows "indexed f (xs[i := x]) m"
  using assms unfolding indexed_def by (auto simp: nth_list_update)

lemma indexed_Nil: "indexed f [] (\<lambda>_. None)"
  by (simp add: indexed_def)

definition set_ok :: "entry_set \<Rightarrow> bool" where
  "set_ok S \<longleftrightarrow> indexed r_oid (es_entries S) (es_by_oid S)"

lemma set_ok_new: "set_ok entry_set_new"
  by (simp add: set_ok_def entry_set_new_def indexed_Nil)

lemma set_ok_insert: "set_ok S \<Longrightarrow> set_ok (entry_set_insert er S)"
  by (auto simp: set_ok_def entry_set_insert_def indexed_append indexed_update split: option.splits)

lemma set_ok_fold: "set_ok S \<Longrightarrow> set_ok (fold entry_set_insert ers S)"
  by (induction ers arbitrary: S) (simp_all add: set_ok_insert)

text \<open>What an insertion does to the set of entries.\<close>

lemma insert_new:
  assumes "set_ok S" "r_oid er \<notin> r_oid ` set (es_entries S)"
  shows "set (es_entries (entry_set_insert er S)) = insert er (set (es_entries S))"
  using assms indexed_None [of r_oid "es_entries S" "es_by_oid S" "r_oid er"]
  by (simp add: set_ok_def entry_set_insert_def)

lemma insert_old:
  assumes ok: "set_ok S" and c: "c \<in> set (es_entries S)" "r_oid c = r_oid er"
  shows "set (es_entries (entry_set_insert er S)) =
    (if r_principal c \<noteq> e_actor (r_entry c) \<and> r_principal er = e_actor (r_entry er)
     then insert er (set (es_entries S) - {c}) else set (es_entries S))"
proof -
  obtain i where i: "i < length (es_entries S)" "es_entries S ! i = c" using c(1) by (auto simp: in_set_conv_nth)
  then have get: "es_by_oid S (r_oid er) = Some i" using ok c(2) by (simp add: set_ok_def indexed_def)
  have "distinct (es_entries S)" using indexed_distinct [OF ok [unfolded set_ok_def]] by (simp add: distinct_map)
  then show ?thesis using get i by (simp add: entry_set_insert_def set_update_distinct)
qed

section \<open>Lemmas: the fold follows the reader\<close>

lemma record_entry_ref_sel:
  "record_entry_ref F rec = Some er \<Longrightarrow> r_oid er = sr_oid rec \<and> r_principal er = sr_principal rec \<and>
    fl_parse_entry F (sr_json rec) = Some (r_entry er) \<and> git_blob_oid F (sr_json rec) = sr_oid rec"
  by (auto simp: record_entry_ref_def split: if_splits)

definition valid_refs :: "fold_libs \<Rightarrow> snapshot_record list \<Rightarrow> entry_ref set" where
  "valid_refs F rs = {er. \<exists>rec \<in> set rs. record_entry_ref F rec = Some er}"

lemma valid_refs_simps [simp]:
  "valid_refs F [] = {}" "valid_refs F (rs @ rs') = valid_refs F rs \<union> valid_refs F rs'"
  "valid_refs F (rec # rs) = (case record_entry_ref F rec of None \<Rightarrow> {} | Some er \<Rightarrow> {er}) \<union> valid_refs F rs"
  by (auto simp: valid_refs_def split: option.splits)

lemma valid_refs_update:
  assumes "distinct (map sr_oid rs)" "i < length rs"
  shows "valid_refs F (rs[i := rec]) =
    (valid_refs F rs - (case record_entry_ref F (rs ! i) of None \<Rightarrow> {} | Some er \<Rightarrow> {er})) \<union>
    (case record_entry_ref F rec of None \<Rightarrow> {} | Some er \<Rightarrow> {er})"
proof -
  have rs: "rs = take i rs @ rs ! i # drop (Suc i) rs" using assms(2) by (rule id_take_nth_drop)
  have upd: "rs[i := rec] = take i rs @ rec # drop (Suc i) rs" using assms(2) by (rule upd_conv_take_nth_drop)
  have "sr_oid (rs ! i) \<notin> sr_oid ` set (take i rs) \<union> sr_oid ` set (drop (Suc i) rs)"
    using assms(1) by (subst (asm) rs) auto
  then have "er \<notin> valid_refs F (take i rs) \<union> valid_refs F (drop (Suc i) rs)" if "record_entry_ref F (rs ! i) = Some er" for er
    using that by (auto simp: valid_refs_def dest!: record_entry_ref_sel) (metis image_eqI record_entry_ref_sel)+
  then show ?thesis unfolding upd by (subst rs) (auto split: option.splits)
qed

text \<open>The state of the fold agrees with the set a reader would have built.\<close>

definition follows :: "fold_libs \<Rightarrow> fold_state \<Rightarrow> entry_set \<Rightarrow> bool" where
  "follows F S T \<longleftrightarrow> set_ok T \<and> indexed sr_oid (fs_records S) (fs_seen S) \<and> valid_refs F (fs_records S) = set (es_entries T)"

definition no_collision :: "fold_libs \<Rightarrow> bool" where
  "no_collision F \<longleftrightarrow> (\<forall>a b. git_blob_oid F a = git_blob_oid F b \<longrightarrow> a = b)"

lemma keep_follows:
  assumes nc: "no_collision F" and f: "follows F S T"
    and er: "record_entry_ref F rec = Some er" and k: "keep_fold_record F rec (e_actor (r_entry er)) S = (ch, S')"
  shows "follows F S' (entry_set_insert er T) \<and> (\<not> ch \<longrightarrow> fs_records S' = fs_records S) \<and>
    fs_changed S' = fs_changed S \<and> fs_folded S' = fs_folded S"
proof -
  have ok: "set_ok T" "indexed sr_oid (fs_records S) (fs_seen S)" "valid_refs F (fs_records S) = set (es_entries T)"
    using f by (simp_all add: follows_def)
  have eo: "r_oid er = sr_oid rec" using record_entry_ref_sel [OF er] by simp
  have oids: "r_oid e \<in> sr_oid ` set (fs_records S)" if "e \<in> set (es_entries T)" for e
    using that ok(3) record_entry_ref_sel by (fastforce simp: valid_refs_def)
  show ?thesis
  proof (cases "fs_seen S (sr_oid rec)")
    case None
    then have "sr_oid rec \<notin> sr_oid ` set (fs_records S)" using indexed_None [OF ok(2)] by blast
    then have "r_oid er \<notin> r_oid ` set (es_entries T)" using oids eo by (metis imageE)
    then show ?thesis
      using k None er ok set_ok_insert insert_new [OF ok(1), of er] indexed_append [OF ok(2) None]
      by (auto simp: keep_fold_record_def follows_def)
  next
    case (Some i)
    then have i: "i < length (fs_records S)" "sr_oid (fs_records S ! i) = sr_oid rec" using ok(2) by (auto simp: indexed_def)
    have d: "distinct (map sr_oid (fs_records S))" by (rule indexed_distinct [OF ok(2)])
    note upd = valid_refs_update [OF d i(1), of F rec]
    have idx: "indexed sr_oid ((fs_records S)[i := rec]) (fs_seen S)" by (rule indexed_update [OF ok(2) Some])
    show ?thesis
    proof (cases "record_entry_ref F (fs_records S ! i)")
      case None
      have "r_oid er \<notin> r_oid ` set (es_entries T)"
      proof
        assume "r_oid er \<in> r_oid ` set (es_entries T)"
        then obtain e where "e \<in> valid_refs F (fs_records S)" "r_oid e = sr_oid rec" using ok(3) eo by (metis imageE)
        then obtain q where e: "q \<in> set (fs_records S)" "record_entry_ref F q = Some e" "r_oid e = sr_oid rec"
          by (auto simp: valid_refs_def)
        then have "sr_oid q = sr_oid (fs_records S ! i)" using record_entry_ref_sel i(2) by metis
        then have "q = fs_records S ! i" using d e(1) i(1) by (simp add: distinct_map inj_on_def)
        then show False using None e(2) by simp
      qed
      then show ?thesis
        using k Some None i(1) er ok set_ok_insert insert_new [OF ok(1), of er] idx upd
        by (auto simp: keep_fold_record_def follows_def Let_def)
    next
      case (Some c)
      note C = record_entry_ref_sel [OF Some] and R = record_entry_ref_sel [OF er]
      have cT: "c \<in> set (es_entries T)" "r_oid c = r_oid er"
        using Some i ok(3) C R by (auto simp: valid_refs_def intro!: bexI [of _ "fs_records S ! i"])
      have "sr_json (fs_records S ! i) = sr_json rec" using nc C R i(2) unfolding no_collision_def by metis
      then have same: "r_entry c = r_entry er" using C R by simp
      show ?thesis
        using k \<open>fs_seen S (sr_oid rec) = Some i\<close> Some i(1) er ok set_ok_insert insert_old [OF ok(1) cT] idx upd same C R
        by (auto simp: keep_fold_record_def follows_def Let_def split: if_splits)
    qed
  qed
qed

definition honest_refs :: "fold_libs \<Rightarrow> inbox_ref list \<Rightarrow> bool" where
  "honest_refs F inbox \<longleftrightarrow> distinct (map ir_name inbox) \<and> list_all (\<lambda>r. ir_oid r = git_blob_oid F (ir_blob r)) inbox"

lemma gc_step_follows:
  assumes "no_collision F" "follows F S T" "ir_oid r = git_blob_oid F (ir_blob r)"
  shows "follows F (gc_step F S r) (case inbox_entry F r of None \<Rightarrow> T | Some er \<Rightarrow> entry_set_insert er T) \<and>
    (\<not> fs_changed (gc_step F S r) \<longrightarrow> \<not> fs_changed S \<and> fs_records (gc_step F S r) = fs_records S) \<and>
    fs_folded (gc_step F S r) = fs_folded S @ (if inbox_entry F r = None then [] else [ir_name r])"
proof (cases "inbox_entry F r")
  case None
  then show ?thesis using assms(2)
    by (auto simp: inbox_entry_def gc_step_def follows_def split: option.splits bind_splits)
next
  case (Some er)
  then obtain who where who: "inbox_principal (ir_name r) = Some who" "fl_parse_entry F (ir_blob r) = Some (r_entry er)"
      "er = \<lparr>r_oid = ir_oid r, r_principal = who, r_entry = r_entry er\<rparr>"
    by (auto simp: inbox_entry_def split: bind_splits)
  let ?rec = "\<lparr>sr_oid = ir_oid r, sr_principal = who, sr_json = ir_blob r\<rparr>"
  have rec: "record_entry_ref F ?rec = Some er"
    using who assms(3) unfolding record_entry_ref_def by (metis (no_types, lifting) option.simps(9) snapshot_record.select_convs)
  obtain ch S' where k: "keep_fold_record F ?rec (e_actor (r_entry er)) S = (ch, S')" by fastforce
  have step: "gc_step F S r = S'\<lparr>fs_changed := fs_changed S' \<or> ch, fs_folded := fs_folded S' @ [ir_name r]\<rparr>"
    using who(1,2) k by (simp add: gc_step_def)
  note K = keep_follows [OF assms(1,2) rec k]
  show ?thesis using K Some unfolding step by (auto simp: follows_def)
qed

lemma gc_foldl_follows:
  assumes "no_collision F" "follows F S T" "list_all (\<lambda>r. ir_oid r = git_blob_oid F (ir_blob r)) inbox"
  shows "follows F (foldl (gc_step F) S inbox) (fold entry_set_insert (List.map_filter (inbox_entry F) inbox) T) \<and>
    (\<not> fs_changed (foldl (gc_step F) S inbox) \<longrightarrow> fs_records (foldl (gc_step F) S inbox) = fs_records S) \<and>
    set (fs_folded (foldl (gc_step F) S inbox)) =
      set (fs_folded S) \<union> ir_name ` {r \<in> set inbox. inbox_entry F r \<noteq> None}"
  using assms(2,3)
proof (induction inbox rule: rev_induct)
  case (snoc r inbox)
  let ?S = "foldl (gc_step F) S inbox" and ?T = "fold entry_set_insert (List.map_filter (inbox_entry F) inbox) T"
  have IH: "follows F ?S ?T" "\<not> fs_changed ?S \<longrightarrow> fs_records ?S = fs_records S"
    "set (fs_folded ?S) = set (fs_folded S) \<union> ir_name ` {r \<in> set inbox. inbox_entry F r \<noteq> None}"
    using snoc by auto
  have "ir_oid r = git_blob_oid F (ir_blob r)" using snoc.prems by simp
  note step = gc_step_follows [OF assms(1) IH(1) this]
  have ins: "fold entry_set_insert (List.map_filter (inbox_entry F) (inbox @ [r])) T =
      (case inbox_entry F r of None \<Rightarrow> ?T | Some er \<Rightarrow> entry_set_insert er ?T)"
    by (simp add: map_filter_snoc opt_list_def split: option.splits)
  show ?case unfolding ins using step IH(2,3) by auto
qed (simp add: List.map_filter_def)

lemma fold_insert_fresh:
  assumes "set_ok S" "distinct (map r_oid ers)" "\<forall>er \<in> set ers. r_oid er \<notin> r_oid ` set (es_entries S)"
  shows "es_entries (fold entry_set_insert ers S) = es_entries S @ ers"
  using assms
proof (induction ers arbitrary: S)
  case (Cons er ers)
  have none: "es_by_oid S (r_oid er) = None"
    using indexed_None [OF Cons.prems(1) [unfolded set_ok_def]] Cons.prems(3) by simp
  then have e: "es_entries (entry_set_insert er S) = es_entries S @ [er]" by (simp add: entry_set_insert_def)
  have "es_entries (fold entry_set_insert ers (entry_set_insert er S)) = es_entries (entry_set_insert er S) @ ers"
  proof (rule Cons.IH [OF set_ok_insert [OF Cons.prems(1)]])
    show "distinct (map r_oid ers)" using Cons.prems(2) by simp
    show "\<forall>q \<in> set ers. r_oid q \<notin> r_oid ` set (es_entries (entry_set_insert er S))"
      using Cons.prems(2,3) unfolding e by (auto simp: image_iff)
  qed
  then show ?case using e by simp
qed simp

lemma set_valid_refs: "set (List.map_filter (record_entry_ref F) rs) = valid_refs F rs"
  by (simp add: set_map_filter valid_refs_def)

lemma valid_oids_distinct:
  assumes "distinct (map sr_oid rs)"
  shows "distinct (map r_oid (List.map_filter (record_entry_ref F) rs))"
  using assms
proof (induction rs rule: rev_induct)
  case (snoc rec rs)
  have "r_oid er \<notin> r_oid ` valid_refs F rs" if "record_entry_ref F rec = Some er" for er
    using snoc.prems record_entry_ref_sel [OF that] by (auto simp: valid_refs_def image_iff dest!: record_entry_ref_sel)
  then show ?case using snoc by (auto simp: map_filter_snoc opt_list_def set_valid_refs split: option.splits)
qed (simp add: List.map_filter_def)

lemma load_records:
  assumes "distinct (map sr_oid rs)"
  shows "es_entries (fold entry_set_insert (List.map_filter (record_entry_ref F) rs) entry_set_new) =
    List.map_filter (record_entry_ref F) rs"
  using fold_insert_fresh [OF set_ok_new valid_oids_distinct [OF assms]] by (simp add: entry_set_new_def)

lemma seen_records_indexed:
  assumes "distinct (map sr_oid rs)"
  shows "indexed sr_oid rs (seen_records rs)"
  using assms
proof (induction rs rule: rev_induct)
  case Nil
  then show ?case by (simp add: seen_records_def indexed_Nil)
next
  case (snoc rec rs)
  then have IH: "indexed sr_oid rs (seen_records rs)" by simp
  have none: "seen_records rs (sr_oid rec) = None" using indexed_None [OF IH] snoc.prems by auto
  then have "seen_records (rs @ [rec]) = (seen_records rs)(sr_oid rec \<mapsto> length rs)"
    by (simp add: seen_records_def enumerate_append_eq)
  then show ?case using indexed_append [OF IH none] by metis
qed

lemma dedup_distinct: "distinct (map sr_oid rs) \<Longrightarrow> dedup_oid rs = rs"
  by (induction rs rule: dedup_oid.induct) auto

lemma load_distinct: "distinct (map r_oid (load_collab F records inbox))"
  unfolding load_collab_def into_entries_def
  using indexed_distinct set_ok_fold [OF set_ok_fold [OF set_ok_new]] unfolding set_ok_def by blast

section \<open>Properties\<close>


text \<open>An entry of alice in her inbox, a copy of it planted in bob's, and a blob that does not parse.\<close>

definition sample_fold :: fold_libs where
  "sample_fold = \<lparr>fl_hash = id,
     fl_parse_entry = (\<lambda>s. if s = ''issue'' then Some (sample_collab ''t'' ''issue'' ''alice'' 1 [] None JNull) else None),
     fl_parse_snapshot = (\<lambda>_. None), fl_sign = id\<rparr>"

definition sample_inbox :: "inbox_ref list" where
  "sample_inbox =
     [\<lparr>ir_name = ''refs/collab/inbox/bob/1'', ir_oid = git_blob_oid sample_fold ''issue'', ir_blob = ''issue''\<rparr>,
      \<lparr>ir_name = ''refs/collab/inbox/alice/1'', ir_oid = git_blob_oid sample_fold ''issue'', ir_blob = ''issue''\<rparr>,
      \<lparr>ir_name = ''refs/collab/inbox/alice/2'', ir_oid = git_blob_oid sample_fold ''??'', ir_blob = ''??''\<rparr>]"

lemma sample_fold_collision_free: "no_collision sample_fold"
  unfolding no_collision_def
proof (intro allI impI)
  fix a b assume "git_blob_oid sample_fold a = git_blob_oid sample_fold b"
  then have eq: "dec (length a) @ CHR 0x00 # a = dec (length b) @ CHR 0x00 # b"
    by (simp add: git_blob_oid_def sample_fold_def)
  have "\<not> num_char (CHR 0x00)" by (simp add: num_char_def)
  then have "CHR 0x00 # a = CHR 0x00 # b"
    using span_inj [OF eq, where P = num_char] dec_num_char by simp
  then show "a = b" by simp
qed


end
