(* ===== verification/Pkt.thy ===== *)
theory Pkt
  imports Git_Refs
begin

text \<open>
  The wire framing of git (\<^verbatim>\<open>walgit-git/src/pkt.rs\<close>, \<^verbatim>\<open>walgit-server/src/pktline.rs\<close>): reading and writing
  pkt-lines, the sideband, and the commands of protocol version 2.

  A reader is the sequence of pieces in which the bytes arrive, ended by the end of the stream or by
  an I/O error; how the bytes are cut into pieces does not change what is read.  The writing
  functions return the bytes they hand to the writer.  Strings that come from the wire pass through
  \<open>utf8_lossy\<close>, which replaces what is not UTF-8; whitespace is that of Unicode, in UTF-8.
\<close>

section \<open>Text from bytes\<close>

definition byte :: "char \<Rightarrow> nat" where "byte c = of_char c"

definition within :: "nat \<Rightarrow> nat \<Rightarrow> char \<Rightarrow> bool" where
  "within a b c \<longleftrightarrow> a \<le> byte c \<and> byte c \<le> b"

definition utf8_width :: "char \<Rightarrow> nat" where
  "utf8_width c =
     (if within 0 127 c then 1 else if within 194 223 c then 2 else if within 224 239 c then 3
      else if within 240 244 c then 4 else 0)"

definition second_ok :: "char \<Rightarrow> char \<Rightarrow> bool" where
  "second_ok a b =
     (if byte a = 224 then within 160 191 b else if byte a = 237 then within 128 159 b
      else if byte a = 240 then within 144 191 b else if byte a = 244 then within 128 143 b
      else within 128 191 b)"

definition replacement :: string where
  "replacement = [CHR 0xEF, CHR 0xBF, CHR 0xBD]"

text \<open>
  \<open>String::from_utf8_lossy\<close>: the longest valid beginning of a sequence that breaks off is replaced
  as a whole.
\<close>

fun utf8_lossy :: "string \<Rightarrow> string" where
  "utf8_lossy [] = []"
| "utf8_lossy [a] = (if utf8_width a = 1 then [a] else replacement)"
| "utf8_lossy [a, b] =
     (if utf8_width a \<le> 1 then (if utf8_width a = 1 then [a] else replacement) @ utf8_lossy [b]
      else if \<not> second_ok a b then replacement @ utf8_lossy [b]
      else if utf8_width a = 2 then [a, b] else replacement)"
| "utf8_lossy [a, b, c] =
     (if utf8_width a \<le> 1 then (if utf8_width a = 1 then [a] else replacement) @ utf8_lossy [b, c]
      else if \<not> second_ok a b then replacement @ utf8_lossy [b, c]
      else if utf8_width a = 2 then [a, b] @ utf8_lossy [c]
      else if \<not> within 128 191 c then replacement @ utf8_lossy [c]
      else if utf8_width a = 3 then [a, b, c] else replacement)"
| "utf8_lossy (a # b # c # d # r) =
     (if utf8_width a \<le> 1 then (if utf8_width a = 1 then [a] else replacement) @ utf8_lossy (b # c # d # r)
      else if \<not> second_ok a b then replacement @ utf8_lossy (b # c # d # r)
      else if utf8_width a = 2 then [a, b] @ utf8_lossy (c # d # r)
      else if \<not> within 128 191 c then replacement @ utf8_lossy (c # d # r)
      else if utf8_width a = 3 then [a, b, c] @ utf8_lossy (d # r)
      else if \<not> within 128 191 d then replacement @ utf8_lossy (d # r)
      else [a, b, c, d] @ utf8_lossy r)"

text \<open>The characters of the property \<open>White_Space\<close>.\<close>

definition ws_seqs :: "string list" where
  "ws_seqs =
     [[CHR 0x09], [CHR 0x0A], [CHR 0x0B], [CHR 0x0C], [CHR 0x0D], [CHR 0x20], [CHR 0xC2, CHR 0x85],
      [CHR 0xC2, CHR 0xA0], [CHR 0xE1, CHR 0x9A, CHR 0x80], [CHR 0xE2, CHR 0x80, CHR 0x80],
      [CHR 0xE2, CHR 0x80, CHR 0x81], [CHR 0xE2, CHR 0x80, CHR 0x82], [CHR 0xE2, CHR 0x80, CHR 0x83],
      [CHR 0xE2, CHR 0x80, CHR 0x84], [CHR 0xE2, CHR 0x80, CHR 0x85], [CHR 0xE2, CHR 0x80, CHR 0x86],
      [CHR 0xE2, CHR 0x80, CHR 0x87], [CHR 0xE2, CHR 0x80, CHR 0x88], [CHR 0xE2, CHR 0x80, CHR 0x89],
      [CHR 0xE2, CHR 0x80, CHR 0x8A], [CHR 0xE2, CHR 0x80, CHR 0xA8], [CHR 0xE2, CHR 0x80, CHR 0xA9],
      [CHR 0xE2, CHR 0x80, CHR 0xAF], [CHR 0xE2, CHR 0x81, CHR 0x9F], [CHR 0xE3, CHR 0x80, CHR 0x80]]"

definition leading_ws :: "string \<Rightarrow> string option" where
  "leading_ws s = find (starts_with s) ws_seqs"

definition trailing_ws :: "string \<Rightarrow> string option" where
  "trailing_ws s = find (ends_with s) ws_seqs"

lemma ws_seqs_ne: "w \<in> set ws_seqs \<Longrightarrow> w \<noteq> []"
  by (auto simp: ws_seqs_def)

lemma ws_shrinks:
  "leading_ws s = Some w \<Longrightarrow> w \<noteq> [] \<and> s \<noteq> []" "trailing_ws s = Some w \<Longrightarrow> w \<noteq> [] \<and> s \<noteq> []"
  by (auto simp: leading_ws_def trailing_ws_def find_Some_iff starts_with_def ends_with_def
      dest!: ws_seqs_ne [OF nth_mem])

function trim_start :: "string \<Rightarrow> string" where
  "trim_start s = (case leading_ws s of None \<Rightarrow> s | Some w \<Rightarrow> trim_start (drop (length w) s))"
  by pat_completeness auto

termination
  by (relation "measure length") (auto dest: ws_shrinks)

function trim_end :: "string \<Rightarrow> string" where
  "trim_end s = (case trailing_ws s of None \<Rightarrow> s | Some w \<Rightarrow> trim_end (take (length s - length w) s))"
  by pat_completeness auto

termination
  by (relation "measure length") (auto dest: ws_shrinks)

declare trim_start.simps [simp del] trim_end.simps [simp del]

definition trim_ws :: "string \<Rightarrow> string" where
  "trim_ws s = trim_end (trim_start s)"

definition trim_newlines :: "string \<Rightarrow> string" where
  "trim_newlines s = rev (dropWhile (\<lambda>c. c = CHR 0x0A) (rev s))"

section \<open>Reading\<close>

datatype pkt_line = PData string | PFlush | PDelim | PResponseEnd

fun as_data :: "pkt_line \<Rightarrow> string option" where
  "as_data (PData b) = Some b"
| "as_data _ = None"

datatype arrival = Chunk string | Fail

type_synonym reader = "arrival list"

text \<open>One read of at most \<open>n\<close> bytes; no bytes mean the end.\<close>

fun read_some :: "nat \<Rightarrow> reader \<Rightarrow> (git_error, string) result \<times> reader" where
  "read_some n [] = (Ok [], [])"
| "read_some n (Fail # r) = (Err GIo, r)"
| "read_some n (Chunk c # r) = (Ok (take n c), if length c \<le> n then r else Chunk (drop n c) # r)"

function read_exact_or_eof :: "nat \<Rightarrow> string \<Rightarrow> reader \<Rightarrow> (git_error, string) result \<times> reader" where
  "read_exact_or_eof n filled r =
     (if length filled < n then
        (case read_some (n - length filled) r of
           (Inl e, r') \<Rightarrow> (Err e, r')
         | (Inr [], r') \<Rightarrow> (Ok filled, r')
         | (Inr (b # bs), r') \<Rightarrow> read_exact_or_eof n (filled @ b # bs) r')
      else (Ok filled, r))"
  by pat_completeness auto

termination
  by (relation "measure (\<lambda>(n, filled, _). n - length filled)") auto

declare read_exact_or_eof.simps [simp del]

text \<open>\<open>AsyncReadExt::read_exact\<close>: an early end is an error.\<close>

definition read_exact :: "nat \<Rightarrow> reader \<Rightarrow> (git_error, string) result \<times> reader" where
  "read_exact n r =
     sbind (read_exact_or_eof n [] r) (\<lambda>b r'. if length b < n then (Err GIo, r') else (Ok b, r'))"

definition hex_value :: "char \<Rightarrow> nat option" where
  "hex_value c =
     (if within 48 57 c then Some (byte c - 48) else if within 97 102 c then Some (byte c - 97 + 10)
      else if within 65 70 c then Some (byte c - 65 + 10) else None)"

fun parse_hex :: "nat \<Rightarrow> string \<Rightarrow> (git_error, nat) result" where
  "parse_hex v [] = Ok v"
| "parse_hex v (c # s) =
     (case hex_value c of None \<Rightarrow> Err (GProtocol ''non-hex pkt-line char'') | Some d \<Rightarrow> parse_hex (v * 16 + d) s)"

definition parse_pkt_len :: "string \<Rightarrow> (git_error, nat) result" where
  "parse_pkt_len hdr = parse_hex 0 hdr"

definition read_pkt_line :: "reader \<Rightarrow> (git_error, pkt_line option) result \<times> reader" where
  "read_pkt_line r =
     sbind (read_exact_or_eof 4 [] r) (\<lambda>hdr r1.
       if hdr = [] then (Ok None, r1)
       else if length hdr < 4 then (Err (GProtocol ''short pkt-line header''), r1)
       else case parse_pkt_len hdr of
              Inl e \<Rightarrow> (Err e, r1)
            | Inr len \<Rightarrow>
                (if len = 0 then (Ok (Some PFlush), r1)
                 else if len = 1 then (Ok (Some PDelim), r1)
                 else if len = 2 then (Ok (Some PResponseEnd), r1)
                 else if len < 4 then (Err (GProtocol ''invalid pkt-line length''), r1)
                 else if len = 4 then (Ok (Some (PData [])), r1)
                 else sbind (read_exact (len - 4) r1) (\<lambda>body r2. (Ok (Some (PData body)), r2))))"

section \<open>Writing\<close>

definition MAX_PKT_DATA :: nat where "MAX_PKT_DATA = 65516"

fun hex_of :: "nat \<Rightarrow> string" where
  "hex_of n = (if n < 16 then [hex_lower n] else hex_of (n div 16) @ [hex_lower n])"

declare hex_of.simps [simp del]

definition pkt_len_hex :: "nat \<Rightarrow> string" where
  "pkt_len_hex len = (let h = hex_of len in replicate (4 - length h) (CHR ''0'') @ h)"

function write_frames :: "nat \<Rightarrow> string \<Rightarrow> string \<Rightarrow> string" where
  "write_frames mx pre rest =
     (if rest = [] \<or> mx = 0 then []
      else (let chunk = take mx rest
            in pkt_len_hex (length chunk + 4 + length pre) @ pre @ chunk @ write_frames mx pre (drop mx rest)))"
  by pat_completeness auto

termination
  by (relation "measure (\<lambda>(_, _, rest). length rest)") auto

declare write_frames.simps [simp del]

definition write_pkt_line :: "string \<Rightarrow> string" where
  "write_pkt_line d = (if d = [] then ''0004'' else write_frames MAX_PKT_DATA [] d)"

definition write_flush :: string where "write_flush = ''0000''"
definition write_delim :: string where "write_delim = ''0001''"
definition write_response_end :: string where "write_response_end = ''0002''"

definition write_channel :: "nat \<Rightarrow> string \<Rightarrow> string" where
  "write_channel ch buf =
     (if buf = [] then pkt_len_hex 5 @ [char_of ch] else write_frames (MAX_PKT_DATA - 1) [char_of ch] buf)"

definition write_data :: "string \<Rightarrow> string" where "write_data = write_channel 1"
definition write_progress :: "string \<Rightarrow> string" where "write_progress = write_channel 2"
definition write_error :: "string \<Rightarrow> string" where "write_error = write_channel 3"

definition nibble_char :: "nat \<Rightarrow> char" where
  "nibble_char n = (if n < 10 then char_of (48 + n) else char_of (97 + n - 10 :: nat))"

definition encode_data :: "string \<Rightarrow> string" where
  "encode_data d =
     (let total = length d + 4 in map (\<lambda>i. nibble_char (total div 2 ^ (12 - 4 * i) mod 16)) [0, 1, 2, 3] @ d)"

definition encode_section :: "string \<Rightarrow> string list \<Rightarrow> string" where
  "encode_section sec ls =
     encode_data (sec @ [CHR 0x0A]) @ concat (map encode_data ls) @ write_flush"

text \<open>The helper of the server asserts the bound; \<open>None\<close> is the panic.\<close>

definition encode_line :: "string \<Rightarrow> string option" where
  "encode_line d =
     (if length d \<le> MAX_PKT_DATA
      then (let len = length d + 4
            in Some ([hex_lower (len div 4096), hex_lower (len div 256), hex_lower (len div 16), hex_lower len] @ d))
      else None)"

definition encode_text :: "string \<Rightarrow> string option" where
  "encode_text s = (if s \<noteq> [] \<and> last s = CHR 0x0A then encode_line s else encode_line (s @ [CHR 0x0A]))"

section \<open>Loops over lines\<close>

fun arrival_bytes :: "arrival \<Rightarrow> string" where
  "arrival_bytes (Chunk c) = c"
| "arrival_bytes Fail = []"

definition flat :: "reader \<Rightarrow> string" where
  "flat r = concat (map arrival_bytes r)"

lemma read_some_flat: "read_some n r = (Ok b, r') \<Longrightarrow> flat r = b @ flat r'"
  by (cases "(n, r)" rule: read_some.cases) (auto simp: flat_def)

lemma read_exact_or_eof_consumes:
  "read_exact_or_eof n filled r = (Ok b, r') \<Longrightarrow> filled @ flat r = b @ flat r'"
proof (induction n filled r rule: read_exact_or_eof.induct)
  case (1 n filled r)
  obtain res r1 where rs: "read_some (n - length filled) r = (res, r1)" by fastforce
  show ?case using 1(2) 1(1) [OF _ rs [symmetric]] rs read_some_flat
    by (subst (asm) read_exact_or_eof.simps) (fastforce split: if_splits sum.splits list.splits)
qed

lemma read_pkt_line_shrinks:
  "read_pkt_line r = (Ok (Some l), r') \<Longrightarrow> length (flat r') < length (flat r)"
  by (auto simp: read_pkt_line_def read_exact_def sbind_eq_Inr_iff dest!: read_exact_or_eof_consumes
      split: if_splits sum.splits)

text \<open>
  The loops of the callers: data lines are handed to \<open>f\<close> until the stream ends or another line
  comes at which the loop stops.
\<close>

function line_loop ::
  "(pkt_line \<Rightarrow> bool) \<Rightarrow> ('a \<Rightarrow> string \<Rightarrow> (git_error, 'a) result) \<Rightarrow> 'a \<Rightarrow> reader \<Rightarrow> (git_error, 'a) result \<times> reader" where
  "line_loop stop f acc r =
     (case read_pkt_line r of
        (Inl e, r') \<Rightarrow> (Err e, r')
      | (Inr None, r') \<Rightarrow> (Ok acc, r')
      | (Inr (Some l), r') \<Rightarrow>
          (case l of
             PData b \<Rightarrow> (case f acc b of Inl e \<Rightarrow> (Err e, r') | Inr acc' \<Rightarrow> line_loop stop f acc' r')
           | _ \<Rightarrow> if stop l then (Ok acc, r') else line_loop stop f acc r'))"
  by pat_completeness auto

termination
  by (relation "measure (\<lambda>(_, _, _, r). length (flat r))") (auto dest: read_pkt_line_shrinks sym)

declare line_loop.simps [simp del]

section \<open>Commands of protocol version 2\<close>

record v2_command =
  cmd_name :: string
  cmd_caps :: "(string \<times> string) list"
  cmd_args :: "string list"

definition cap :: "v2_command \<Rightarrow> string \<Rightarrow> string option" where
  "cap cmd key = map_of (cmd_caps cmd) key"

definition has_cap :: "v2_command \<Rightarrow> string \<Rightarrow> bool" where
  "has_cap cmd key \<longleftrightarrow> map_of (cmd_caps cmd) key \<noteq> None"

definition caps_insert :: "string \<Rightarrow> string \<Rightarrow> (string \<times> string) list \<Rightarrow> (string \<times> string) list" where
  "caps_insert k v m = (k, v) # filter (\<lambda>e. fst e \<noteq> k) m"

definition command_line :: "v2_command \<times> bool \<Rightarrow> string \<Rightarrow> (git_error, v2_command \<times> bool) result" where
  "command_line st b =
     (let (cmd, saw_name) = st; s = trim_end (utf8_lossy b)
      in Ok (case strip_prefix ''command='' s of
               Some rest \<Rightarrow> (cmd\<lparr>cmd_name := rest\<rparr>, True)
             | None \<Rightarrow>
                 (case split_once (CHR ''='') s of
                    Some (k, v) \<Rightarrow> (cmd\<lparr>cmd_caps := caps_insert k v (cmd_caps cmd)\<rparr>, saw_name)
                  | None \<Rightarrow>
                      (let cmd = (if s \<noteq> [] \<and> CHR '' '' \<notin> set s \<and> \<not> has_cap cmd s
                                  then cmd\<lparr>cmd_caps := caps_insert s [] (cmd_caps cmd)\<rparr> else cmd)
                       in (cmd\<lparr>cmd_args := cmd_args cmd @ [s]\<rparr>, saw_name)))))"

definition read_command :: "reader \<Rightarrow> (git_error, v2_command) result \<times> reader" where
  "read_command r =
     sbind (line_loop (\<lambda>_. True) command_line (\<lparr>cmd_name = [], cmd_caps = [], cmd_args = []\<rparr>, False) r)
       (\<lambda>(cmd, saw_name) r'.
          if \<not> saw_name \<and> cmd_name cmd = [] then (Err (GProtocol ''v2 request missing command=''), r')
          else (Ok cmd, r'))"

record ls_refs_request =
  lr_prefixes :: "string list"
  lr_symrefs :: bool
  lr_peel :: bool
  lr_unborn :: bool

definition ls_refs_default :: ls_refs_request where
  "ls_refs_default = \<lparr>lr_prefixes = [], lr_symrefs = False, lr_peel = False, lr_unborn = False\<rparr>"

definition parse_ls_refs_line :: "ls_refs_request \<Rightarrow> string \<Rightarrow> ls_refs_request" where
  "parse_ls_refs_line req line =
     (case strip_prefix ''ref-prefix '' line of
        Some p \<Rightarrow> req\<lparr>lr_prefixes := lr_prefixes req @ [p]\<rparr>
      | None \<Rightarrow>
          (case strip_prefix ''ref-prefix='' line of
             Some p \<Rightarrow> req\<lparr>lr_prefixes := lr_prefixes req @ [p]\<rparr>
           | None \<Rightarrow>
               if line = ''symrefs'' then req\<lparr>lr_symrefs := True\<rparr>
               else if line = ''peel'' then req\<lparr>lr_peel := True\<rparr>
               else if line = ''unborn'' then req\<lparr>lr_unborn := True\<rparr>
               else req))"

text \<open>The capabilities are visited in the order of the map; the source leaves it open.\<close>

definition parse_ls_refs_cap :: "ls_refs_request \<Rightarrow> string \<times> string \<Rightarrow> ls_refs_request" where
  "parse_ls_refs_cap req kv =
     (if fst kv = ''ref-prefix'' \<and> snd kv \<noteq> [] then req\<lparr>lr_prefixes := lr_prefixes req @ [snd kv]\<rparr>
      else if snd kv = [] then parse_ls_refs_line req (fst kv)
      else req)"

definition parse_ls_refs :: "v2_command \<Rightarrow> ls_refs_request" where
  "parse_ls_refs cmd =
     foldl parse_ls_refs_cap (foldl parse_ls_refs_line ls_refs_default (cmd_args cmd)) (cmd_caps cmd)"

definition read_ls_refs_args :: "reader \<Rightarrow> ls_refs_request \<Rightarrow> (git_error, ls_refs_request) result \<times> reader" where
  "read_ls_refs_args r req =
     line_loop (\<lambda>l. l \<noteq> PDelim) (\<lambda>q b. Ok (parse_ls_refs_line q (trim_end (utf8_lossy b)))) req r"

definition parse_object_info :: "v2_command \<Rightarrow> string list" where
  "parse_object_info cmd = List.map_filter (strip_prefix ''oid '') (cmd_args cmd)"

datatype protocol = V0 | V2

definition split_on :: "(char \<Rightarrow> bool) \<Rightarrow> string \<Rightarrow> string list" where
  "split_on p s = foldr (\<lambda>c acc. if p c then [] # acc else (c # hd acc) # tl acc) s [[]]"

definition lower_char :: "char \<Rightarrow> char" where
  "lower_char c = (if within 65 90 c then char_of (byte c + 32) else c)"

definition from_git_protocol_header :: "string option \<Rightarrow> protocol" where
  "from_git_protocol_header hdr =
     (case hdr of
        None \<Rightarrow> V0
      | Some h \<Rightarrow>
          if list_ex (\<lambda>part. map lower_char (trim_ws part) = ''version=2'')
               (split_on (\<lambda>c. c = CHR '';'' \<or> c \<in> set [CHR 0x09, CHR 0x0A, CHR 0x0C, CHR 0x0D, CHR 0x20]) h)
          then V2 else V0)"

fun git_protocol_env :: "protocol \<Rightarrow> string" where
  "git_protocol_env V2 = ''version=2''"
| "git_protocol_env V0 = ''version=0''"

section \<open>Reading does not depend on how the bytes arrive\<close>

text \<open>A stream without errors; a piece is never empty before the end.\<close>

definition sound :: "reader \<Rightarrow> bool" where
  "sound r \<longleftrightarrow> list_all (\<lambda>a. case a of Chunk c \<Rightarrow> c \<noteq> [] | Fail \<Rightarrow> False) r"

lemma read_some_sound:
  assumes "sound r" "0 < n"
  obtains b r' where "read_some n r = (Ok b, r')" "sound r'" "flat r = b @ flat r'" "length b \<le> n"
    "b = [] \<longrightarrow> flat r = []"
  using assms by (cases "(n, r)" rule: read_some.cases) (auto simp: sound_def flat_def)

lemma read_exact_or_eof_sound:
  "sound r \<Longrightarrow> length filled \<le> n \<Longrightarrow>
   \<exists>r'. read_exact_or_eof n filled r = (Ok (filled @ take (n - length filled) (flat r)), r') \<and>
        sound r' \<and> flat r' = drop (n - length filled) (flat r)"
proof (induction n filled r rule: read_exact_or_eof.induct)
  case (1 n filled r)
  show ?case
  proof (cases "length filled < n")
    case True
    then have "0 < n - length filled" by simp
    with 1(2) obtain b r1 where b: "read_some (n - length filled) r = (Ok b, r1)" "sound r1"
      "flat r = b @ flat r1" "length b \<le> n - length filled" "b = [] \<longrightarrow> flat r = []"
      by (rule read_some_sound) simp_all
    show ?thesis
    proof (cases b)
      case Nil
      then show ?thesis using b True by (subst read_exact_or_eof.simps) auto
    next
      case (Cons x xs)
      have IH: "\<exists>r'. read_exact_or_eof n (filled @ b) r1 =
          (Ok ((filled @ b) @ take (n - length (filled @ b)) (flat r1)), r') \<and> sound r' \<and>
          flat r' = drop (n - length (filled @ b)) (flat r1)"
        using 1(1) [OF True b(1) [symmetric] refl Cons b(2)] b(4) True Cons by (simp del: append_assoc)
      have step: "read_exact_or_eof n filled r = read_exact_or_eof n (filled @ b) r1"
        using b(1) True Cons by (subst read_exact_or_eof.simps) simp
      show ?thesis unfolding step b(3) using IH b(4) by (simp add: take_append drop_append)
    qed
  next
    case False
    then show ?thesis using 1(2,3) by (subst read_exact_or_eof.simps) auto
  qed
qed

text \<open>The next line of a string of bytes.\<close>

definition next_line :: "string \<Rightarrow> (git_error, pkt_line option) result \<times> string" where
  "next_line s =
     (if s = [] then (Ok None, [])
      else if length s < 4 then (Err (GProtocol ''short pkt-line header''), [])
      else case parse_pkt_len (take 4 s) of
             Inl e \<Rightarrow> (Err e, drop 4 s)
           | Inr len \<Rightarrow>
               (if len = 0 then (Ok (Some PFlush), drop 4 s)
                else if len = 1 then (Ok (Some PDelim), drop 4 s)
                else if len = 2 then (Ok (Some PResponseEnd), drop 4 s)
                else if len < 4 then (Err (GProtocol ''invalid pkt-line length''), drop 4 s)
                else if length s < len then (Err GIo, [])
                else (Ok (Some (PData (take (len - 4) (drop 4 s)))), drop len s)))"

lemma read_pkt_line_sound:
  assumes "sound r"
  obtains r' where "read_pkt_line r = (fst (next_line (flat r)), r')" "sound r'" "flat r' = snd (next_line (flat r))"
proof -
  obtain r1 where r1: "read_exact_or_eof 4 [] r = (Ok (take 4 (flat r)), r1)" "sound r1" "flat r1 = drop 4 (flat r)"
    using read_exact_or_eof_sound [OF assms, of "[]" 4] by auto
  have ex: "\<exists>r2. read_exact_or_eof n [] r1 = (Ok (take n (drop 4 (flat r))), r2) \<and> sound r2 \<and>
      flat r2 = drop (n + 4) (flat r)" for n
    using read_exact_or_eof_sound [OF r1(2), of "[]" n] r1(3) by (auto simp: add.commute)
  have "\<exists>r'. read_pkt_line r = (fst (next_line (flat r)), r') \<and> sound r' \<and> flat r' = snd (next_line (flat r))"
  proof (cases "parse_pkt_len (take 4 (flat r))")
    case (Inl e)
    then show ?thesis using r1 by (auto simp: read_pkt_line_def next_line_def)
  next
    case (Inr len)
    obtain r2 where r2: "read_exact_or_eof (len - 4) [] r1 = (Ok (take (len - 4) (drop 4 (flat r))), r2)"
      "sound r2" "flat r2 = drop (len - 4 + 4) (flat r)" using ex by blast
    with r1 Inr show ?thesis
      by (auto simp: read_pkt_line_def next_line_def read_exact_def)
  qed
  with that show ?thesis by blast
qed

section \<open>Headers\<close>

definition header :: "nat \<Rightarrow> string" where
  "header n = [hex_lower (n div 4096), hex_lower (n div 256), hex_lower (n div 16), hex_lower n]"

lemma hex_value_lower [simp]: "hex_value (hex_lower n) = Some (n mod 16)"
proof -
  have "n mod 16 < 16" by simp
  then have "n mod 16 \<in> set [0..<16]" by simp
  then show ?thesis unfolding hex_lower_def
    by (auto simp: upt_rec hex_value_def within_def byte_def)
qed

lemma nibble_chars: "map nibble_char [0..<16] = ''0123456789abcdef''"
  by code_simp

lemma nibble_char_lower: "nibble_char (n mod 16) = hex_lower n"
  by (simp add: hex_lower_def nibble_chars [symmetric] del: upt_conv_Cons)

lemma parse_header: "parse_pkt_len (header n) = Ok (n mod 65536)"
proof -
  have "n mod 65536 = 16 * (n div 16 mod 4096) + n mod 16" using mod_mult2_eq [of n 16 4096] by simp
  moreover have "n div 16 mod 4096 = 16 * (n div 256 mod 256) + n div 16 mod 16"
    using mod_mult2_eq [of "n div 16" 16 256] by (simp add: div_mult2_eq [symmetric])
  moreover have "n div 256 mod 256 = 16 * (n div 4096 mod 16) + n div 256 mod 16"
    using mod_mult2_eq [of "n div 256" 16 16] by (simp add: div_mult2_eq [symmetric])
  ultimately show ?thesis by (simp add: parse_pkt_len_def header_def)
qed

lemma length_header [simp]: "length (header n) = 4"
  by (simp add: header_def)

lemma encode_data_header: "encode_data d = header (length d + 4) @ d"
  by (simp add: encode_data_def header_def nibble_char_lower Let_def)

lemma hex_of_small: "n < 16 \<Longrightarrow> hex_of n = [hex_lower n]"
  by (simp add: hex_of.simps)

lemma hex_of_big: "16 \<le> n \<Longrightarrow> hex_of n = hex_of (n div 16) @ [hex_lower n]"
  by (simp add: hex_of.simps [of n])

lemma pad_three: "replicate 3 (CHR ''0'') = map hex_lower [0, 0, 0]"
  by code_simp

lemma pad_two: "replicate 2 (CHR ''0'') = map hex_lower [0, 0]"
  by code_simp

lemma pkt_len_hex_header:
  assumes "n < 65536"
  shows "pkt_len_hex n = header n"
proof -
  have zero: "CHR ''0'' = hex_lower 0" by (simp add: hex_lower_def)
  consider "n < 16" | "16 \<le> n" "n div 16 < 16" | "16 \<le> n div 16" "n div 256 < 16" | "16 \<le> n div 256" by linarith
  then show ?thesis
  proof cases
    case 1
    then have "n div 16 = 0" "n div 256 = 0" "n div 4096 = 0" by simp_all
    with 1 show ?thesis by (simp add: pkt_len_hex_def header_def hex_of_small pad_three)
  next
    case 2
    then have "n div 256 = 0" "n div 4096 = 0" by simp_all
    with 2 show ?thesis by (simp add: pkt_len_hex_def header_def hex_of_small hex_of_big pad_two)
  next
    case 3
    then have "16 \<le> n" "n div 16 div 16 = n div 256" "n div 4096 = 0" by (simp_all add: div_mult2_eq [symmetric])
    with 3 show ?thesis by (simp add: pkt_len_hex_def header_def hex_of_small hex_of_big zero)
  next
    case 4
    then have "16 \<le> n" "16 \<le> n div 16" "n div 16 div 16 = n div 256" "n div 256 div 16 = n div 4096" "n div 4096 < 16"
      using assms by (simp_all add: div_mult2_eq [symmetric])
    with 4 show ?thesis by (simp add: pkt_len_hex_def header_def hex_of_small hex_of_big)
  qed
qed

lemma next_line_data:
  "length b + 4 < 65536 \<Longrightarrow> next_line (header (length b + 4) @ b @ s) = (Ok (Some (PData b)), s)"
  by (simp add: next_line_def parse_header) (simp add: header_def)

lemma next_line_flush [simp]: "next_line (write_flush @ s) = (Ok (Some PFlush), s)"
  by (simp add: next_line_def write_flush_def parse_pkt_len_def hex_value_def within_def byte_def)

section \<open>Lines that were written are read back\<close>

fun try_fold :: "('a \<Rightarrow> string \<Rightarrow> (git_error, 'a) result) \<Rightarrow> 'a \<Rightarrow> string list \<Rightarrow> (git_error, 'a) result" where
  "try_fold f acc [] = Ok acc"
| "try_fold f acc (b # bs) = rbind (f acc b) (\<lambda>acc'. try_fold f acc' bs)"

lemma try_fold_append: "try_fold f acc (bs @ cs) = rbind (try_fold f acc bs) (\<lambda>acc'. try_fold f acc' cs)"
  by (induction bs arbitrary: acc) (auto simp: rbind_def split: sum.splits)

definition frame :: "string \<Rightarrow> string" where
  "frame b = header (length b + 4) @ b"

lemma encode_data_frame: "encode_data = frame"
  by (simp add: fun_eq_iff encode_data_header frame_def)

definition fits :: "string \<Rightarrow> bool" where
  "fits b \<longleftrightarrow> length b + 4 < 65536"

lemma line_loop_frame:
  assumes "sound r" "flat r = frame b @ s" "fits b" "f acc b = Ok acc'"
  obtains r' where "line_loop stop f acc r = line_loop stop f acc' r'" "sound r'" "flat r' = s"
proof -
  have "next_line (flat r) = (Ok (Some (PData b)), s)"
    using assms(2,3) next_line_data by (simp add: frame_def fits_def)
  with assms(1) obtain r' where "read_pkt_line r = (Ok (Some (PData b)), r')" "sound r'" "flat r' = s"
    by (metis read_pkt_line_sound fst_conv snd_conv)
  with that assms(4) show ?thesis by (simp add: line_loop.simps [of stop f acc r])
qed

lemma line_loop_stop:
  assumes "sound r" "next_line (flat r) = (Ok (Some l), s)" "as_data l = None" "stop l"
  obtains r' where "line_loop stop f acc r = (Ok acc, r')" "sound r'" "flat r' = s"
proof -
  from assms(1,2) obtain r' where "read_pkt_line r = (Ok (Some l), r')" "sound r'" "flat r' = s"
    by (metis read_pkt_line_sound fst_conv snd_conv)
  with that assms(3,4) show ?thesis by (cases l) (simp_all add: line_loop.simps [of stop f acc r])
qed

text \<open>The frames of a section and its flush, however they arrive, are folded in order.\<close>

lemma line_loop_section:
  assumes "sound r" "flat r = concat (map frame bs) @ write_flush @ s" "list_all fits bs" "try_fold f acc bs = Ok acc'"
    and "stop PFlush"
  shows "\<exists>r'. line_loop stop f acc r = (Ok acc', r') \<and> sound r' \<and> flat r' = s"
  using assms(1-4)
proof (induction bs arbitrary: acc r)
  case Nil
  then have "next_line (flat r) = (Ok (Some PFlush), s)" by simp
  with Nil(1,4) assms(5) show ?case by (auto intro: line_loop_stop)
next
  case (Cons b bs)
  from Cons.prems(4) obtain a where a: "f acc b = Ok a" "try_fold f a bs = Ok acc'" by auto
  obtain r' where r': "line_loop stop f acc r = line_loop stop f a r'" "sound r'"
    "flat r' = concat (map frame bs) @ write_flush @ s"
    using line_loop_frame [of r b _ f acc a stop] Cons.prems a(1) by auto
  with Cons.IH [OF r'(2,3) _ a(2)] Cons.prems(3) show ?case by simp
qed

function chunks :: "nat \<Rightarrow> string \<Rightarrow> string list" where
  "chunks mx rest = (if rest = [] \<or> mx = 0 then [] else take mx rest # chunks mx (drop mx rest))"
  by pat_completeness auto

termination
  by (relation "measure (\<lambda>(_, rest). length rest)") auto

declare chunks.simps [simp del]

lemma concat_chunks: "0 < mx \<Longrightarrow> concat (chunks mx rest) = rest"
  by (induction mx rest rule: chunks.induct) (simp add: chunks.simps)

lemma chunks_bounds: "c \<in> set (chunks mx rest) \<Longrightarrow> c \<noteq> [] \<and> length c \<le> mx"
proof (induction mx rest rule: chunks.induct)
  case (1 mx rest)
  then show ?case by (subst (asm) chunks.simps) (auto split: if_splits)
qed

lemma write_frames_chunks:
  "mx + length pre + 4 < 65536 \<Longrightarrow> write_frames mx pre rest = concat (map (\<lambda>c. frame (pre @ c)) (chunks mx rest))"
proof (induction mx pre rest rule: write_frames.induct)
  case (1 mx pre rest)
  then show ?case
    by (subst write_frames.simps, subst chunks.simps)
      (simp add: frame_def pkt_len_hex_header Let_def ac_simps min_def)
qed

text \<open>The payloads of the frames that one write on a channel produces.\<close>

definition channel_frames :: "nat \<Rightarrow> string \<Rightarrow> string list" where
  "channel_frames ch buf = (if buf = [] then [[char_of ch]] else map (\<lambda>c. char_of ch # c) (chunks (MAX_PKT_DATA - 1) buf))"

lemma write_channel_frames: "write_channel ch buf = concat (map frame (channel_frames ch buf))"
  by (simp add: write_channel_def channel_frames_def write_frames_chunks MAX_PKT_DATA_def frame_def
      pkt_len_hex_header comp_def)

lemma channel_frames_fit: "list_all fits (channel_frames ch buf)"
  by (auto simp: list_all_iff channel_frames_def fits_def MAX_PKT_DATA_def dest: chunks_bounds)

text \<open>A client takes the payloads of one channel.\<close>

definition demux :: "nat \<Rightarrow> string \<Rightarrow> string \<Rightarrow> (git_error, string) result" where
  "demux ch acc b = Ok (if b \<noteq> [] \<and> hd b = char_of ch then acc @ tl b else acc)"

lemma demux_frames:
  assumes "ch < 256" "c < 256"
  shows "try_fold (demux c) acc (channel_frames ch buf) = Ok (if ch = c then acc @ buf else acc)"
proof -
  have eq: "ch mod 256 = c mod 256 \<longleftrightarrow> ch = c" using assms by simp
  have "try_fold (demux c) acc (map (\<lambda>x. char_of ch # x) cs) = Ok (if ch = c then acc @ concat cs else acc)" for cs
    by (induction cs arbitrary: acc) (auto simp: demux_def eq)
  then show ?thesis using concat_chunks [of "MAX_PKT_DATA - 1" buf]
    by (auto simp: channel_frames_def demux_def eq MAX_PKT_DATA_def)
qed

lemma demux_writes:
  "list_all (\<lambda>w. fst w < 256) ws \<Longrightarrow> c < 256 \<Longrightarrow>
   try_fold (demux c) acc (concat (map (\<lambda>(ch, buf). channel_frames ch buf) ws)) =
     Ok (acc @ concat (map snd (filter (\<lambda>w. fst w = c) ws)))"
  by (induction ws arbitrary: acc) (auto simp: try_fold_append demux_frames)

text \<open>
  The sideband loses and mixes nothing: whatever is written on whatever channels, in frames of
  at most the size git allows, and however the bytes are cut up on the way, a client that takes
  the payloads of one channel gets exactly the bytes written on it, and the reader stands after the
  flush.
\<close>

theorem sideband_roundtrip:
  assumes "sound r" "list_all (\<lambda>w. fst w < 256) ws" "c < 256"
    and "flat r = concat (map (\<lambda>(ch, buf). write_channel ch buf) ws) @ write_flush @ s"
  shows "\<exists>r'. line_loop (\<lambda>_. True) (demux c) [] r =
      (Ok (concat (map snd (filter (\<lambda>w. fst w = c) ws))), r') \<and> sound r' \<and> flat r' = s"
proof (rule line_loop_section)
  let ?bs = "concat (map (\<lambda>(ch, buf). channel_frames ch buf) ws)"
  show "flat r = concat (map frame ?bs) @ write_flush @ s"
    unfolding assms(4) by (induction ws) (auto simp: write_channel_frames)
  show "list_all fits ?bs" using channel_frames_fit by (induction ws) (auto simp: list_all_iff)
  show "try_fold (demux c) [] ?bs = Ok (concat (map snd (filter (\<lambda>w. fst w = c) ws)))"
    using demux_writes [OF assms(2,3)] by simp
qed (use assms(1) in simp_all)

theorem sideband_roundtrip_witness:
  "\<exists>r'. line_loop (\<lambda>_. True) (demux 1) []
      [Chunk (write_channel 1 ''ab'' @ write_channel 2 ''x'' @ write_channel 1 ''c'' @ ''00''), Chunk ''00''] =
      (Ok ''abc'', r') \<and> sound r' \<and> flat r' = []"
  using sideband_roundtrip [of "[Chunk (write_channel 1 ''ab'' @ write_channel 2 ''x'' @ write_channel 1 ''c'' @ ''00''),
      Chunk ''00'']" "[(1, ''ab''), (2, ''x''), (1, ''c'')]" 1 "[]"]
  by (simp add: flat_def sound_def write_flush_def)

text \<open>
  The helper that frames advertisements and reports does not check its length: a line of 65532
  bytes gets the header of a flush, and its contents are then read as lines of their own.
\<close>

theorem long_line_reads_as_flush:
  "next_line (encode_data (replicate 65532 x) @ s) = (Ok (Some PFlush), replicate 65532 x @ s)"
  unfolding encode_data_header
  by (simp add: next_line_def parse_header)

end
