(* ===== verification/Receive.thy ===== *)
theory Receive
  imports Pkt
begin

text \<open>
  The request and the answer of receive-pack (\<^verbatim>\<open>walgit-git/src/receive.rs\<close>): the commands, capabilities
  and push options of a push, the position at which the pack begins, and the report of its result.

  Shown here: what a client encodes is what the server parses, with the reader left exactly at the
  pack, and the client reads back one line per reference, with and without the sideband.
\<close>

section \<open>The request\<close>

record receive_caps =
  rc_report_status :: bool
  rc_report_status_v2 :: bool
  rc_side_band_64k :: bool
  rc_atomic :: bool
  rc_quiet :: bool
  rc_push_options :: bool
  rc_ofs_delta :: bool
  rc_agent :: "string option"
  rc_object_format :: "string option"
  rc_shallow :: "string list"

definition no_caps :: receive_caps where
  "no_caps = \<lparr>rc_report_status = False, rc_report_status_v2 = False, rc_side_band_64k = False, rc_atomic = False,
     rc_quiet = False, rc_push_options = False, rc_ofs_delta = False, rc_agent = None, rc_object_format = None,
     rc_shallow = []\<rparr>"

definition apply_cap :: "receive_caps \<Rightarrow> string \<Rightarrow> receive_caps" where
  "apply_cap c tok0 =
     (let tok = trim_ws tok0
      in if tok = [] then c
         else if tok = ''report-status'' then c\<lparr>rc_report_status := True\<rparr>
         else if tok = ''report-status-v2'' then c\<lparr>rc_report_status_v2 := True\<rparr>
         else if tok = ''side-band-64k'' then c\<lparr>rc_side_band_64k := True\<rparr>
         else if tok = ''atomic'' then c\<lparr>rc_atomic := True\<rparr>
         else if tok = ''quiet'' then c\<lparr>rc_quiet := True\<rparr>
         else if tok = ''push-options'' then c\<lparr>rc_push_options := True\<rparr>
         else if tok = ''ofs-delta'' then c\<lparr>rc_ofs_delta := True\<rparr>
         else case strip_prefix ''agent='' tok of
                Some a \<Rightarrow> c\<lparr>rc_agent := Some a\<rparr>
              | None \<Rightarrow>
                  (case strip_prefix ''object-format='' tok of
                     Some f \<Rightarrow> c\<lparr>rc_object_format := Some f\<rparr>
                   | None \<Rightarrow> c))"

definition apply_caps :: "receive_caps \<Rightarrow> string \<Rightarrow> receive_caps" where
  "apply_caps c s = foldl apply_cap c (split_on (\<lambda>x. x = CHR '' '' \<or> x = CHR 0x0A) s)"

text \<open>\<open>splitn(3, ' ')\<close>.\<close>

definition splitn3 :: "string \<Rightarrow> string list" where
  "splitn3 s =
     (case split_once (CHR '' '') s of
        None \<Rightarrow> [s]
      | Some (a, r) \<Rightarrow> (case split_once (CHR '' '') r of None \<Rightarrow> [a, r] | Some (b, c) \<Rightarrow> [a, b, c]))"

definition parse_command_line :: "string \<Rightarrow> (git_error, ref_update \<times> string) result" where
  "parse_command_line b =
     (let (cmd, caps) = (case split_once (CHR 0x00) b of Some (c, a) \<Rightarrow> (c, a) | None \<Rightarrow> (b, []));
          s = trim_newlines (utf8_lossy cmd)
      in case splitn3 s of
           [old, new, n] \<Rightarrow>
             (let u = \<lparr>upd_name = n, old_oid = old, new_oid = new, new_symbolic_target = [], new_peeled = []\<rparr>
              in rbind (validate_ref_update u) (\<lambda>_. Ok (u, utf8_lossy caps)))
         | [_, _] \<Rightarrow> Err (GProtocol ''missing ref name'')
         | [_] \<Rightarrow> Err (GProtocol ''missing new oid'')
         | _ \<Rightarrow> Err (GProtocol ''missing old oid''))"

definition shallow_line :: "string \<Rightarrow> string option" where
  "shallow_line b = map_option (\<lambda>o'. trim_ws (utf8_lossy o')) (strip_prefix ''shallow '' b)"

definition add_shallow :: "string \<Rightarrow> receive_caps \<Rightarrow> receive_caps" where
  "add_shallow o' c = c\<lparr>rc_shallow := rc_shallow c @ [o']\<rparr>"

text \<open>The lines of a shallow client before the first command.\<close>

function first_command :: "receive_caps \<Rightarrow> reader \<Rightarrow> (git_error, receive_caps \<times> pkt_line option) result \<times> reader" where
  "first_command c r =
     (case read_pkt_line r of
        (Inl e, r') \<Rightarrow> (Err e, r')
      | (Inr None, r') \<Rightarrow> (Ok (c, None), r')
      | (Inr (Some l), r') \<Rightarrow>
          (case l of
             PData b \<Rightarrow>
               (case shallow_line b of
                  Some o' \<Rightarrow> first_command (add_shallow o' c) r'
                | None \<Rightarrow> (Ok (c, Some l), r'))
           | _ \<Rightarrow> (Ok (c, Some l), r')))"
  by pat_completeness auto

termination
  by (relation "measure (\<lambda>(_, r). length (flat r))") (auto dest: read_pkt_line_shrinks sym)

declare first_command.simps [simp del]

definition next_command ::
  "receive_caps \<times> ref_update list \<Rightarrow> string \<Rightarrow> (git_error, receive_caps \<times> ref_update list) result" where
  "next_command st b =
     (case shallow_line b of
        Some o' \<Rightarrow> Ok (add_shallow o' (fst st), snd st)
      | None \<Rightarrow> rbind (parse_command_line b) (\<lambda>(u, _). Ok (fst st, snd st @ [u])))"

definition next_option :: "string list \<Rightarrow> string \<Rightarrow> (git_error, string list) result" where
  "next_option opts b = Ok (opts @ [trim_newlines (utf8_lossy b)])"

definition receive_parse :: "reader \<Rightarrow> (git_error, ref_transaction \<times> receive_caps) result \<times> reader" where
  "receive_parse r0 =
     sbind (first_command no_caps r0) (\<lambda>(c, first) r1.
       case first of
         None \<Rightarrow> (Ok (\<lparr>updates = [], push_options = [], atomic = False\<rparr>, c), r1)
       | Some PFlush \<Rightarrow> (Ok (\<lparr>updates = [], push_options = [], atomic = False\<rparr>, c), r1)
       | Some PDelim \<Rightarrow> (Err (GProtocol ''unexpected delim before commands''), r1)
       | Some PResponseEnd \<Rightarrow> (Err (GProtocol ''unexpected delim before commands''), r1)
       | Some (PData b) \<Rightarrow>
           (case parse_command_line b of
              Inl e \<Rightarrow> (Err e, r1)
            | Inr (u, cap_str) \<Rightarrow>
                sbind (line_loop (\<lambda>_. True) next_command (apply_caps c cap_str, [u]) r1) (\<lambda>(c2, us) r2.
                  sbind (if rc_push_options c2 then line_loop (\<lambda>_. True) next_option [] r2 else (Ok [], r2))
                    (\<lambda>opts r3. (Ok (\<lparr>updates = us, push_options = opts, atomic = rc_atomic (apply_caps c cap_str)\<rparr>, c2), r3)))))"

section \<open>The report\<close>

fun split_inclusive :: "string \<Rightarrow> string list" where
  "split_inclusive [] = []"
| "split_inclusive (c # s) =
     (if c = CHR 0x0A then [c] # split_inclusive s
      else (case split_inclusive s of [] \<Rightarrow> [[c]] | l # ls \<Rightarrow> (c # l) # ls))"

fun unpack_line :: "(string, unit) result \<Rightarrow> string" where
  "unpack_line (Inr _) = ''unpack ok'' @ [CHR 0x0A]"
| "unpack_line (Inl msg) = ''unpack ng '' @ msg @ [CHR 0x0A]"

fun ref_line :: "string \<times> (string, unit) result \<Rightarrow> string" where
  "ref_line (n, Inr _) = ''ok '' @ n @ [CHR 0x0A]"
| "ref_line (n, Inl msg) = ''ng '' @ n @ '' '' @ msg @ [CHR 0x0A]"

definition report_status ::
  "receive_caps \<Rightarrow> (string, unit) result \<Rightarrow> (string \<times> (string, unit) result) list \<Rightarrow> string" where
  "report_status c unpack per_ref' =
     (let body = unpack_line unpack @ concat (map ref_line per_ref');
          framed = concat (map encode_data (split_inclusive body)) @ write_flush
      in if rc_side_band_64k c then write_data framed @ write_flush else framed)"

definition txn_from_snapshot :: "ref_snapshot_data \<Rightarrow> ref_transaction" where
  "txn_from_snapshot snap =
     \<lparr>updates =
        map (\<lambda>r. \<lparr>upd_name = name r, old_oid = [], new_oid = oid r, new_symbolic_target = [], new_peeled = []\<rparr>) (refs snap) @
        (if head_target snap \<noteq> []
         then [\<lparr>upd_name = ''HEAD'', old_oid = [], new_oid = [], new_symbolic_target = head_target snap, new_peeled = []\<rparr>]
         else []),
      push_options = [], atomic = True\<rparr>"

section \<open>What a client writes is what the server reads\<close>

definition command_text :: "ref_update \<Rightarrow> string" where
  "command_text u = old_oid u @ '' '' @ new_oid u @ '' '' @ upd_name u"

text \<open>An update a client can send: valid, plain, and UTF-8.\<close>

definition wire_ok :: "ref_update \<Rightarrow> bool" where
  "wire_ok u \<longleftrightarrow> is_ok (validate_ref_update u) \<and> new_symbolic_target u = [] \<and> new_peeled u = [] \<and>
     utf8_lossy (command_text u) = command_text u"

definition request_lines :: "string list \<Rightarrow> ref_update list \<Rightarrow> string \<Rightarrow> string list" where
  "request_lines shal us caps =
     map (\<lambda>o'. ''shallow '' @ o') shal @ (command_text (hd us) @ CHR 0x00 # caps) # map command_text (tl us)"

definition request_bytes :: "string list \<Rightarrow> ref_update list \<Rightarrow> string \<Rightarrow> string list \<Rightarrow> string" where
  "request_bytes shal us caps opts =
     concat (map frame (request_lines shal us caps)) @ write_flush @
     (if rc_push_options (apply_caps no_caps caps) then concat (map frame opts) @ write_flush else [])"

lemma zero_is_hex: "is_ascii_hexdigit (CHR ''0'')"
  by code_simp

lemma not_hex:
  "\<not> is_ascii_hexdigit (CHR '' '')" "\<not> is_ascii_hexdigit (CHR 0x00)" "\<not> is_ascii_hexdigit (CHR ''s'')"
  by (code_simp, code_simp, code_simp)

lemma valid_oid_chars: "is_ok (validate_oid o') \<Longrightarrow> list_all is_ascii_hexdigit o'"
proof -
  assume "is_ok (validate_oid o')"
  then have "list_all (\<lambda>b. b = CHR ''0'') o' \<or> list_all is_ascii_hexdigit o'"
    unfolding validate_oid_def by (cases o') (simp_all split: if_splits)
  then show ?thesis using zero_is_hex by (elim disjE) (auto elim!: list.pred_mono_strong)
qed

lemma bad_bytes: "bad_ref_byte (CHR 0x00)" "bad_ref_byte (CHR 0x0A)"
  by (simp_all add: bad_ref_byte_def)

lemma valid_name_chars:
  assumes "is_ok (validate_ref_name n)"
  shows "n \<noteq> []" "CHR 0x00 \<notin> set n" "CHR 0x0A \<notin> set n"
proof -
  have "n = ''HEAD'' \<or> n \<noteq> [] \<and> \<not> list_ex bad_ref_byte n"
    using assms unfolding validate_ref_name_def Let_def by (simp split: if_splits)
  then show "n \<noteq> []" "CHR 0x00 \<notin> set n" "CHR 0x0A \<notin> set n"
    using bad_bytes by (auto simp: list_ex_iff)
qed

lemma wire_ok_chars:
  assumes "wire_ok u"
  shows "CHR '' '' \<notin> set (old_oid u)" "CHR '' '' \<notin> set (new_oid u)" "CHR 0x00 \<notin> set (command_text u)"
    "upd_name u \<noteq> []" "CHR 0x0A \<notin> set (upd_name u)" "old_oid u = [] \<or> hd (old_oid u) \<noteq> CHR ''s''"
proof -
  have ok: "is_ok (validate_ref_name (upd_name u))" "is_ok (validate_oid (old_oid u))" "is_ok (validate_oid (new_oid u))"
    using assms by (auto simp: wire_ok_def validate_ref_update_def is_ok_iff)
  note hex = valid_oid_chars [OF ok(2), unfolded list_all_iff] valid_oid_chars [OF ok(3), unfolded list_all_iff]
  show "CHR '' '' \<notin> set (old_oid u)" "CHR '' '' \<notin> set (new_oid u)" using hex not_hex(1) by blast+
  show "CHR 0x00 \<notin> set (command_text u)"
    using hex not_hex(2) valid_name_chars(2) [OF ok(1)] by (auto simp: command_text_def)
  show "upd_name u \<noteq> []" "CHR 0x0A \<notin> set (upd_name u)" using valid_name_chars [OF ok(1)] by simp_all
  show "old_oid u = [] \<or> hd (old_oid u) \<noteq> CHR ''s''" using hex(1) not_hex(3) hd_in_set by metis
qed

lemma splitn3_text: "wire_ok u \<Longrightarrow> splitn3 (command_text u) = [old_oid u, new_oid u, upd_name u]"
  using wire_ok_chars(1,2) [of u] by (simp add: splitn3_def command_text_def)

lemma trim_newlines_id: "s \<noteq> [] \<Longrightarrow> last s \<noteq> CHR 0x0A \<Longrightarrow> trim_newlines s = s"
  by (cases s rule: rev_cases) (simp_all add: trim_newlines_def)

lemma trim_command_text: "wire_ok u \<Longrightarrow> trim_newlines (command_text u) = command_text u"
proof -
  assume "wire_ok u"
  then have "last (upd_name u) \<noteq> CHR 0x0A" "upd_name u \<noteq> []" using wire_ok_chars(4,5) last_in_set by metis+
  then show ?thesis by (intro trim_newlines_id) (simp_all add: command_text_def)
qed

lemma parse_command_text:
  assumes "wire_ok u"
  shows "parse_command_line (command_text u) = Ok (u, [])"
    "parse_command_line (command_text u @ CHR 0x00 # caps) = Ok (u, utf8_lossy caps)"
proof -
  have u: "\<lparr>upd_name = upd_name u, old_oid = old_oid u, new_oid = new_oid u, new_symbolic_target = [], new_peeled = []\<rparr> = u"
    "validate_ref_update u = Ok ()" "utf8_lossy (command_text u) = command_text u"
    using assms by (auto simp: wire_ok_def is_ok_iff)
  have "split_once (CHR 0x00) (command_text u) = None" using wire_ok_chars(3) [OF assms] by (simp add: split_once_None_iff)
  with u show "parse_command_line (command_text u) = Ok (u, [])"
    using splitn3_text [OF assms] trim_command_text [OF assms] by (simp add: parse_command_line_def)
  show "parse_command_line (command_text u @ CHR 0x00 # caps) = Ok (u, utf8_lossy caps)"
    using u wire_ok_chars(3) [OF assms] splitn3_text [OF assms] trim_command_text [OF assms]
    by (simp add: parse_command_line_def)
qed

lemma command_not_shallow: "wire_ok u \<Longrightarrow> shallow_line (command_text u @ x) = None"
  using wire_ok_chars(6) [of u]
  by (cases "old_oid u") (auto simp: shallow_line_def strip_prefix_def command_text_def)

definition shallow_of :: "string list \<Rightarrow> string list" where
  "shallow_of shal = map (\<lambda>o'. trim_ws (utf8_lossy o')) shal"

lemma first_command_lines:
  assumes "sound r" "flat r = concat (map (\<lambda>o'. frame (''shallow '' @ o')) shal) @ frame b @ s"
    and "list_all (\<lambda>o'. fits (''shallow '' @ o')) shal" "fits b" "shallow_line b = None"
  shows "\<exists>r'. first_command c r = (Ok (c\<lparr>rc_shallow := rc_shallow c @ shallow_of shal\<rparr>, Some (PData b)), r') \<and>
    sound r' \<and> flat r' = s"
  using assms(1-3)
proof (induction shal arbitrary: c r)
  case Nil
  then have "next_line (flat r) = (Ok (Some (PData b)), s)"
    using assms(4) next_line_data by (simp add: frame_def fits_def)
  with Nil(1) obtain r' where "read_pkt_line r = (Ok (Some (PData b)), r')" "sound r'" "flat r' = s"
    by (metis read_pkt_line_sound fst_conv snd_conv)
  with assms(5) show ?case by (simp add: first_command.simps [of c r] shallow_of_def)
next
  case (Cons o' shal)
  let ?rest = "concat (map (\<lambda>o'. frame (''shallow '' @ o')) shal) @ frame b @ s"
  have "next_line (flat r) = (Ok (Some (PData (''shallow '' @ o'))), ?rest)"
    using Cons.prems(2,3) next_line_data [of "''shallow '' @ o'" ?rest] by (simp add: frame_def fits_def)
  with Cons.prems(1) obtain r' where r': "read_pkt_line r = (Ok (Some (PData (''shallow '' @ o'))), r')" "sound r'" "flat r' = ?rest"
    by (metis read_pkt_line_sound fst_conv snd_conv)
  have "shallow_line (''shallow '' @ o') = Some (trim_ws (utf8_lossy o'))"
    unfolding shallow_line_def strip_prefix_append by simp
  with r'(1) have "first_command c r = first_command (add_shallow (trim_ws (utf8_lossy o')) c) r'"
    by (simp add: first_command.simps [of c r])
  with Cons.IH [OF r'(2,3), of "add_shallow (trim_ws (utf8_lossy o')) c"] Cons.prems(3)
  show ?case by (simp add: add_shallow_def shallow_of_def)
qed

lemma apply_caps_shallow: "apply_caps (c\<lparr>rc_shallow := x\<rparr>) s = (apply_caps c s)\<lparr>rc_shallow := x\<rparr>"
proof -
  have "apply_cap (c\<lparr>rc_shallow := x\<rparr>) tok = (apply_cap c tok)\<lparr>rc_shallow := x\<rparr>" for c tok
    by (auto simp: apply_cap_def Let_def split: option.split)
  then have "foldl apply_cap (c\<lparr>rc_shallow := x\<rparr>) ts = (foldl apply_cap c ts)\<lparr>rc_shallow := x\<rparr>" for ts
    by (induction ts arbitrary: c) simp_all
  then show ?thesis by (simp add: apply_caps_def)
qed

lemma next_commands:
  "list_all wire_ok us \<Longrightarrow> try_fold next_command (c, vs) (map command_text us) = Ok (c, vs @ us)"
proof (induction us arbitrary: vs)
  case (Cons u us)
  then show ?case using command_not_shallow [of u "[]"] parse_command_text(1) [of u] by (simp add: next_command_def)
qed simp

lemma next_options: "try_fold next_option os opts = Ok (os @ map (\<lambda>o'. trim_newlines (utf8_lossy o')) opts)"
  by (induction opts arbitrary: os) (simp_all add: next_option_def)

text \<open>
  C27. A push arrives as it was sent: for every list of valid updates, capability string, shallow
  announcements and push options, however the bytes are cut up on the way, the server parses exactly
  these updates and options, the push is atomic exactly when that capability was asked for, and the
  reader is left at the first byte of the pack.
\<close>

theorem receive_parse_roundtrip:
  assumes "sound r" "flat r = request_bytes shal us caps opts @ body"
    and "us \<noteq> []" "list_all wire_ok us" "utf8_lossy caps = caps"
    and "list_all fits (request_lines shal us caps)" "list_all fits opts"
  shows "\<exists>r'. receive_parse r =
      (Ok (\<lparr>updates = us,
            push_options = (if rc_push_options (apply_caps no_caps caps)
                            then map (\<lambda>o'. trim_newlines (utf8_lossy o')) opts else []),
            atomic = rc_atomic (apply_caps no_caps caps)\<rparr>,
           (apply_caps no_caps caps)\<lparr>rc_shallow := shallow_of shal\<rparr>), r') \<and> sound r' \<and> flat r' = body"
proof -
  obtain u rest where us: "us = u # rest" using assms(3) by (cases us) auto
  let ?b = "command_text u @ CHR 0x00 # caps"
  let ?tail = "(if rc_push_options (apply_caps no_caps caps) then concat (map frame opts) @ write_flush else []) @ body"
  let ?c = "(apply_caps no_caps caps)\<lparr>rc_shallow := shallow_of shal\<rparr>"
  have ok: "wire_ok u" "list_all wire_ok rest" using assms(4) us by simp_all
  have fit: "list_all (\<lambda>o'. fits (''shallow '' @ o')) shal" "fits ?b" "list_all fits (map command_text rest)"
    using assms(6) us by (simp_all add: request_lines_def list_all_iff)
  have "flat r = concat (map (\<lambda>o'. frame (''shallow '' @ o')) shal) @ frame ?b @
      concat (map frame (map command_text rest)) @ write_flush @ ?tail"
    using assms(2) us by (simp add: request_bytes_def request_lines_def comp_def)
  from first_command_lines [OF assms(1) this fit(1,2) command_not_shallow [OF ok(1)], of no_caps]
  obtain r1 where r1: "first_command no_caps r = (Ok (no_caps\<lparr>rc_shallow := shallow_of shal\<rparr>, Some (PData ?b)), r1)"
    "sound r1" "flat r1 = concat (map frame (map command_text rest)) @ write_flush @ ?tail"
    by (auto simp: no_caps_def)
  obtain r2 where r2: "line_loop (\<lambda>_. True) next_command (?c, [u]) r1 = (Ok (?c, us), r2)" "sound r2" "flat r2 = ?tail"
    using line_loop_section [OF r1(2,3) fit(3) next_commands [OF ok(2), of ?c "[u]"], of "\<lambda>_. True"] us by auto
  obtain r3 where r3: "(if rc_push_options ?c then line_loop (\<lambda>_. True) next_option [] r2 else (Ok [], r2)) =
      (Ok (if rc_push_options ?c then map (\<lambda>o'. trim_newlines (utf8_lossy o')) opts else []), r3)" "sound r3" "flat r3 = body"
    using line_loop_section [OF r2(2) _ assms(7) next_options, of body "\<lambda>_. True" "[]"] r2(2,3) by (auto split: if_splits)
  show ?thesis
    using r1(1) r2(1) r3 parse_command_text(2) [OF ok(1), of caps] assms(5)
    by (simp add: receive_parse_def apply_caps_shallow)
qed

definition sample_request :: "ref_update list" where
  "sample_request =
     [\<lparr>upd_name = ''refs/heads/main'', old_oid = replicate 40 (CHR ''0''), new_oid = replicate 40 (CHR ''a''),
       new_symbolic_target = [], new_peeled = []\<rparr>,
      \<lparr>upd_name = ''refs/tags/v1'', old_oid = replicate 40 (CHR ''a''), new_oid = replicate 40 (CHR ''0''),
       new_symbolic_target = [], new_peeled = []\<rparr>]"

theorem receive_parse_roundtrip_witness:
  "\<exists>r'. receive_parse [Chunk (request_bytes [''1''] sample_request ''atomic push-options'' [''ci.skip'']), Chunk ''PA'', Chunk ''CK''] =
      (Ok (\<lparr>updates = sample_request, push_options = [''ci.skip''], atomic = True\<rparr>,
           (apply_caps no_caps ''atomic push-options'')\<lparr>rc_shallow := [''1'']\<rparr>), r') \<and> sound r' \<and> flat r' = ''PACK''"
proof -
  have A: "list_all wire_ok sample_request" by code_simp
  have B: "utf8_lossy ''atomic push-options'' = ''atomic push-options''" by code_simp
  have C: "rc_push_options (apply_caps no_caps ''atomic push-options'') \<and> rc_atomic (apply_caps no_caps ''atomic push-options'')"
    by code_simp
  have D: "shallow_of [''1''] = [''1''] \<and> map (\<lambda>o'. trim_newlines (utf8_lossy o')) [''ci.skip''] = [''ci.skip'']" by code_simp
  have E: "list_all fits (request_lines [''1''] sample_request ''atomic push-options'') \<and> list_all fits [''ci.skip'']"
    by (simp add: request_lines_def sample_request_def fits_def command_text_def)
  let ?r = "[Chunk (request_bytes [''1''] sample_request ''atomic push-options'' [''ci.skip'']), Chunk ''PA'', Chunk ''CK'']"
  have F: "sound ?r" by (simp add: sound_def request_bytes_def write_flush_def)
  show ?thesis
    using receive_parse_roundtrip [OF F, of "[''1'']" sample_request "''atomic push-options''" "[''ci.skip'']" "''PACK''"] A B C D E
    by (simp add: flat_def sample_request_def)
qed

section \<open>What the server reports is what the client reads\<close>

definition report_lines :: "(string, unit) result \<Rightarrow> (string \<times> (string, unit) result) list \<Rightarrow> string list" where
  "report_lines unpack per_ref' = unpack_line unpack # map ref_line per_ref'"

text \<open>A client demultiplexes the sideband first and then reads lines up to the flush.\<close>

definition collect_lines :: "reader \<Rightarrow> (git_error, string list) result \<times> reader" where
  "collect_lines r = line_loop (\<lambda>_. True) (\<lambda>acc b. Ok (acc @ [b])) [] r"

definition client_report :: "bool \<Rightarrow> reader \<Rightarrow> (git_error, string list) result \<times> reader" where
  "client_report side_band r =
     (if side_band
      then sbind (line_loop (\<lambda>_. True) (demux 1) [] r) (\<lambda>d r'. (fst (collect_lines [Chunk d]), r'))
      else collect_lines r)"

definition one_line :: "string \<Rightarrow> bool" where
  "one_line s \<longleftrightarrow> CHR 0x0A \<notin> set s"

fun result_text :: "(string, unit) result \<Rightarrow> string" where
  "result_text (Inr _) = []"
| "result_text (Inl msg) = msg"

lemma split_inclusive_line:
  "one_line s \<Longrightarrow> split_inclusive (s @ CHR 0x0A # t) = (s @ [CHR 0x0A]) # split_inclusive t"
  by (induction s) (auto simp: one_line_def)

lemma split_inclusive_lines:
  "list_all one_line ls \<Longrightarrow> split_inclusive (concat (map (\<lambda>l. l @ [CHR 0x0A]) ls)) = map (\<lambda>l. l @ [CHR 0x0A]) ls"
  by (induction ls) (simp_all add: split_inclusive_line)

lemma unpack_line_text: "unpack_line u = butlast (unpack_line u) @ [CHR 0x0A]"
  by (cases u) simp_all

lemma ref_line_text: "ref_line p = butlast (ref_line p) @ [CHR 0x0A]"
  by (cases p rule: ref_line.cases) (simp_all add: butlast_append)

lemma report_lines_text:
  "report_lines unpack per_ref' =
     map (\<lambda>l. l @ [CHR 0x0A]) (butlast (unpack_line unpack) # map (\<lambda>p. butlast (ref_line p)) per_ref')"
  using unpack_line_text ref_line_text by (simp add: report_lines_def comp_def)

lemma split_report:
  assumes "one_line (result_text unpack)" "list_all (\<lambda>(n, res). one_line n \<and> one_line (result_text res)) per_ref'"
  shows "split_inclusive (unpack_line unpack @ concat (map ref_line per_ref')) = report_lines unpack per_ref'"
proof -
  let ?ls = "butlast (unpack_line unpack) # map (\<lambda>p. butlast (ref_line p)) per_ref'"
  have "one_line (butlast (unpack_line unpack))"
    using assms(1) by (cases unpack) (simp_all add: one_line_def butlast_append)
  moreover have "(n, res) \<in> set per_ref' \<Longrightarrow> one_line (butlast (ref_line (n, res)))" for n res
    using assms(2) by (cases res) (auto simp: one_line_def butlast_append list_all_iff)
  ultimately have "list_all one_line ?ls" by (auto simp: list_all_iff)
  then have "split_inclusive (concat (report_lines unpack per_ref')) = report_lines unpack per_ref'"
    unfolding report_lines_text by (rule split_inclusive_lines)
  then show ?thesis by (simp add: report_lines_def)
qed

lemma collect_frames:
  assumes "sound r" "flat r = concat (map frame bs) @ write_flush @ s" "list_all fits bs"
  shows "\<exists>r'. collect_lines r = (Ok bs, r') \<and> sound r' \<and> flat r' = s"
proof -
  have "try_fold (\<lambda>acc b. Ok (acc @ [b])) acc bs = Ok (acc @ bs)" for acc
    by (induction bs arbitrary: acc) simp_all
  with line_loop_section [OF assms, of "\<lambda>acc b. Ok (acc @ [b])" "[]" bs "\<lambda>_. True"]
  show ?thesis by (simp add: collect_lines_def)
qed

text \<open>
  C28. The answer to a push is read as it was meant: as long as names and messages are single lines
  that fit a frame, a client gets the unpack line and exactly one line per reference, in order,
  with and without the sideband, and the reader stands after the report.
\<close>

theorem report_status_roundtrip:
  assumes "sound r" "flat r = report_status c unpack per_ref' @ s"
    and "one_line (result_text unpack)" "list_all (\<lambda>(n, res). one_line n \<and> one_line (result_text res)) per_ref'"
    and "list_all fits (report_lines unpack per_ref')"
  shows "\<exists>r'. client_report (rc_side_band_64k c) r = (Ok (report_lines unpack per_ref'), r') \<and> sound r' \<and> flat r' = s"
proof -
  let ?framed = "concat (map frame (report_lines unpack per_ref')) @ write_flush"
  have rep: "report_status c unpack per_ref' = (if rc_side_band_64k c then write_data ?framed @ write_flush else ?framed)"
    by (simp add: report_status_def split_report [OF assms(3,4)] encode_data_frame)
  show ?thesis
  proof (cases "rc_side_band_64k c")
    case True
    have "flat r = concat (map frame (channel_frames 1 ?framed)) @ write_flush @ s"
      using assms(2) rep True by (simp add: write_data_def write_channel_frames)
    moreover have "try_fold (demux 1) [] (channel_frames 1 ?framed) = Ok ?framed" by (simp add: demux_frames)
    ultimately obtain r' where r': "line_loop (\<lambda>_. True) (demux 1) [] r = (Ok ?framed, r')" "sound r'" "flat r' = s"
      using line_loop_section [OF assms(1) _ channel_frames_fit, of 1 ?framed s "demux 1" "[]" ?framed "\<lambda>_. True"] by auto
    have "\<exists>q. collect_lines [Chunk ?framed] = (Ok (report_lines unpack per_ref'), q)"
      using collect_frames [of "[Chunk ?framed]" "report_lines unpack per_ref'" "[]"] assms(5)
      by (auto simp: sound_def flat_def write_flush_def)
    then show ?thesis using True r' by (auto simp: client_report_def)
  next
    case False
    then show ?thesis using collect_frames [OF assms(1) _ assms(5), of s] assms(2) rep by (simp add: client_report_def)
  qed
qed

theorem report_status_roundtrip_witness:
  "\<exists>r'. client_report True
      [Chunk (report_status (apply_caps no_caps ''side-band-64k'') (Ok ()) [(''a'', Ok ()), (''b'', Err ''no'')])] =
      (Ok [''unpack ok'' @ [CHR 0x0A], ''ok a'' @ [CHR 0x0A], ''ng b no'' @ [CHR 0x0A]], r') \<and> sound r' \<and> flat r' = []"
proof -
  have "rc_side_band_64k (apply_caps no_caps ''side-band-64k'')" by code_simp
  then show ?thesis
    using report_status_roundtrip [of
        "[Chunk (report_status (apply_caps no_caps ''side-band-64k'') (Ok ()) [(''a'', Ok ()), (''b'', Err ''no'')])]"
        "apply_caps no_caps ''side-band-64k''" "Ok ()" "[(''a'', Ok ()), (''b'', Err ''no'')]" "[]"]
    by (simp add: sound_def flat_def one_line_def fits_def report_lines_def report_status_def write_data_def
        write_flush_def Let_def)
qed

text \<open>
  A refusal whose message has two lines breaks the report: its second line becomes a line of its
  own that is no status of any reference.
\<close>

theorem two_line_message_splits_report:
  "split_inclusive (unpack_line (Ok ()) @ ref_line (''a'', Err (''x'' @ CHR 0x0A # ''y''))) =
     [''unpack ok'' @ [CHR 0x0A], ''ng a x'' @ [CHR 0x0A], ''y'' @ [CHR 0x0A]]"
  by simp

end
