(* ===== verification/Policy.thy ===== *)
theory Policy
  imports Git_Refs Object_Store
begin

text \<open>
  The push policy of \<^verbatim>\<open>walgit-server/src/policy.rs\<close>: the document with its load-time checks, the glob
  dialect, the resolution of actors through groups, and the evaluation of a push.

  Shown here: a glob accepts exactly the concatenations its tokens describe, an actor list admits
  exactly the principals reachable through the rosters (the recursion ends although groups may refer
  to each other in a circle), and what is published is exactly what no applicable rule restricts.

  Parameter: the JSON form of a policy document.  The \<open>_comment\<close> fields are never read and left out.
\<close>

section \<open>The document\<close>

datatype restrict = RCreate | RUpdate | RDelete | RForcePush

record protect_effect =
  restricts :: "restrict list option"
  pe_bypass :: "string list"

record history_effect =
  allowed_forwards :: "nat option"
  allow_unrelated :: "bool option"

record size_effect =
  blob_bytes :: "nat option"
  push_bytes :: "nat option"

record effect =
  ef_protect :: "protect_effect option"
  ef_history :: "history_effect option"
  ef_size :: "size_effect option"

record rule_match =
  m_refs :: "string list"
  m_principals :: "string list"
  m_paths :: "string list"

record rule =
  rl_name :: string
  rl_match :: rule_match
  rl_effect :: effect
  rl_mode :: "string option"

record roster =
  g_name :: string
  g_members :: "string list"

record repo_policy =
  pol_version :: nat
  pol_groups :: "roster list"
  pol_rules :: "rule list"

definition policy_empty :: repo_policy where
  "policy_empty = \<lparr>pol_version = 1, pol_groups = [], pol_rules = []\<rparr>"

datatype policy_error =
    PVersion nat | PGroupName string | PGroupDup string | PRuleName string | PRuleDup string
  | PEffect string | PMode string | PCaret string | POverlap string string | PRestricts

text \<open>A present key must hold a non-empty list; \<open>None\<close> is the value \<open>null\<close>.\<close>

definition deserialize_restricts :: "restrict list option \<Rightarrow> (policy_error, restrict list option) result" where
  "deserialize_restricts v =
     (case v of None \<Rightarrow> Err PRestricts | Some l \<Rightarrow> if l = [] then Err PRestricts else Ok (Some l))"

definition has_protect :: "repo_policy \<Rightarrow> bool" where
  "has_protect p \<longleftrightarrow> list_ex (\<lambda>r. ef_protect (rl_effect r) \<noteq> None) (pol_rules p)"

section \<open>Globs\<close>

text \<open>
  The text of the loop from a position on is the rest of the list.  \<open>glob_any\<close> is the loop of a
  double star over all suffixes, \<open>glob_star\<close> that of a single star up to the next slash.
\<close>

definition drop_slash :: "string \<Rightarrow> string" where
  "drop_slash rest = (case rest of c # r \<Rightarrow> if c = CHR ''/'' then r else rest | [] \<Rightarrow> [])"

lemma length_drop_slash: "length (drop_slash rest) \<le> length rest"
  by (simp add: drop_slash_def split: list.split)

function glob_bytes :: "string \<Rightarrow> string \<Rightarrow> bool"
  and glob_any :: "string \<Rightarrow> string \<Rightarrow> bool"
  and glob_star :: "string \<Rightarrow> string \<Rightarrow> bool" where
  "glob_bytes pat txt =
     (case pat of
        [] \<Rightarrow> txt = []
      | pc # p \<Rightarrow>
          if pc = CHR ''*'' \<and> p \<noteq> [] \<and> hd p = CHR ''*'' then
            (let rest = drop_slash (tl p) in rest = [] \<or> glob_any rest txt)
          else if pc = CHR ''*'' then glob_star p txt
          else if pc = CHR ''?'' then
            (case txt of [] \<Rightarrow> False | c # t \<Rightarrow> c \<noteq> CHR ''/'' \<and> glob_bytes p t)
          else
            (case txt of [] \<Rightarrow> False | c # t \<Rightarrow> c = pc \<and> glob_bytes p t))"
| "glob_any rest txt \<longleftrightarrow> glob_bytes rest txt \<or> (case txt of [] \<Rightarrow> False | _ # t \<Rightarrow> glob_any rest t)"
| "glob_star rest txt \<longleftrightarrow>
     glob_bytes rest txt \<or> (case txt of [] \<Rightarrow> False | c # t \<Rightarrow> c \<noteq> CHR ''/'' \<and> glob_star rest t)"
  by pat_completeness auto

termination
  by (relation "inv_image (less_than <*lex*> less_than)
        (\<lambda>x. case x of
           Inl (p, t) \<Rightarrow> (2 * length p, length t)
         | Inr (Inl (p, t)) \<Rightarrow> (2 * length p + 1, length t)
         | Inr (Inr (p, t)) \<Rightarrow> (2 * length p + 1, length t))")
    (auto simp: neq_Nil_conv intro: le_less_trans [OF mult_le_mono2 [OF length_drop_slash]])

declare glob_bytes.simps [simp del] glob_any.simps [simp del] glob_star.simps [simp del]

definition glob_match :: "string \<Rightarrow> string \<Rightarrow> bool" where
  "glob_match pat txt = (if pat = ''HEAD'' then txt = ''HEAD'' else glob_bytes pat txt)"

text \<open>Inclusions are alternatives, any exclusion removes; without inclusions everything is included.\<close>

definition pattern_step :: "string \<Rightarrow> bool \<times> bool \<times> bool \<Rightarrow> string \<Rightarrow> bool \<times> bool \<times> bool" where
  "pattern_step txt st p =
     (let (any_inc, inc, exc) = st
      in case strip_prefix ''^'' p of
           Some rest \<Rightarrow> (any_inc, inc, exc \<or> glob_match rest txt)
         | None \<Rightarrow> (True, inc \<or> glob_match p txt, exc))"

definition verdict_of :: "bool \<times> bool \<times> bool \<Rightarrow> bool" where
  "verdict_of st = (let (any_inc, inc, exc) = st in (inc \<or> \<not> any_inc) \<and> \<not> exc)"

definition pattern_list_matches :: "string list \<Rightarrow> string \<Rightarrow> bool" where
  "pattern_list_matches ps txt = verdict_of (foldl (pattern_step txt) (False, False, False) ps)"

section \<open>Actors\<close>

type_synonym rosters = "(string \<times> roster) list"

definition rosters_of :: "repo_policy \<Rightarrow> rosters" where
  "rosters_of p = rev (map (\<lambda>g. (g_name g, g)) (pol_groups p))"

definition to_ascii_lowercase :: "char \<Rightarrow> char" where
  "to_ascii_lowercase c =
     (if 65 \<le> (of_char c :: nat) \<and> (of_char c :: nat) \<le> 90 then char_of ((of_char c :: nat) + 32) else c)"

definition eq_ignore_ascii_case :: "string \<Rightarrow> string \<Rightarrow> bool" where
  "eq_ignore_ascii_case a b \<longleftrightarrow> map to_ascii_lowercase a = map to_ascii_lowercase b"

lemma roster_left:
  "map_of gs nm = Some g \<Longrightarrow> nm \<notin> seen \<Longrightarrow> insert nm seen \<subseteq> seen' \<Longrightarrow>
   fst ` set gs - seen' \<subset> fst ` set gs - seen"
  by (force dest: map_of_SomeD)

text \<open>The members of a group are tried in order with one shared set of groups already entered.\<close>

function members_match :: "rosters \<Rightarrow> string \<Rightarrow> string list \<Rightarrow> string set \<Rightarrow> bool \<times> string set" where
  "members_match gs who [] seen = (False, seen)"
| "members_match gs who (spec # specs) seen =
     (case strip_prefix ''group:'' spec of
        Some nm \<Rightarrow>
          (if nm \<in> seen then members_match gs who specs seen
           else case map_of gs nm of
                  None \<Rightarrow> members_match gs who specs (insert nm seen)
                | Some g \<Rightarrow>
                    (case members_match gs who (g_members g) (insert nm seen) of
                       (hit, seen') \<Rightarrow> if hit then (True, seen') else members_match gs who specs seen'))
      | None \<Rightarrow>
          (if \<not> starts_with spec ''@'' \<and> eq_ignore_ascii_case spec who then (True, seen)
           else members_match gs who specs seen))"
  by pat_completeness auto

termination
proof -
  have grows: "members_match_dom (gs, who, specs, seen) \<Longrightarrow> seen \<subseteq> snd (members_match gs who specs seen)"
    for gs who specs seen
  proof (induct gs who specs seen rule: members_match.pinduct)
    case (2 gs who spec specs seen)
    show ?case
    proof (cases "strip_prefix ''group:'' spec")
      case None
      then show ?thesis using 2(1,2) by (auto simp: members_match.psimps)
    next
      case (Some nm)
      show ?thesis
      proof (cases "nm \<in> seen \<or> map_of gs nm = None")
        case True
        then show ?thesis using 2(1,3,4) Some by (auto simp: members_match.psimps)
      next
        case False
        then obtain g where g: "nm \<notin> seen" "map_of gs nm = Some g" by auto
        obtain hit seen' where r: "members_match gs who (g_members g) (insert nm seen) = (hit, seen')" by fastforce
        have "seen \<subseteq> seen'" using 2(5) [OF Some g] r by auto
        then show ?thesis using 2(1) 2(6) [OF Some g] Some g r by (auto simp: members_match.psimps)
      qed
    qed
  qed (simp add: members_match.psimps)
  show ?thesis
  proof (relation "inv_image (finite_psubset <*lex*> less_than)
      (\<lambda>(gs, who, specs, seen). (fst ` set gs - seen, length specs))", goal_cases)
    case 1
    show ?case by (intro wf_inv_image wf_lex_prod wf_finite_psubset wf_less_than)
  next
    case (6 gs who spec specs seen nm g hit seen')
    then have "insert nm seen \<subseteq> seen'" using grows by (metis snd_conv)
    with 6 show ?case using roster_left by (auto simp: finite_psubset_def)
  qed (auto simp: finite_psubset_def roster_left)
qed

definition principal_matches :: "rosters \<Rightarrow> string \<Rightarrow> string \<Rightarrow> bool" where
  "principal_matches gs who spec = fst (members_match gs who [spec] {})"

definition actor_step ::
  "rosters \<Rightarrow> string \<Rightarrow> bool \<times> bool \<times> bool \<Rightarrow> string \<Rightarrow> bool \<times> bool \<times> bool" where
  "actor_step gs who st p =
     (let (any_inc, inc, exc) = st
      in case strip_prefix ''^'' p of
           Some rest \<Rightarrow>
             (let group_missing = (case strip_prefix ''group:'' rest of None \<Rightarrow> False | Some g \<Rightarrow> map_of gs g = None)
              in (any_inc, inc, exc \<or> group_missing \<or> principal_matches gs who rest))
         | None \<Rightarrow> (True, inc \<or> principal_matches gs who p, exc))"

definition actor_list_matches :: "rosters \<Rightarrow> string list \<Rightarrow> string \<Rightarrow> bool" where
  "actor_list_matches gs ps who = verdict_of (foldl (actor_step gs who) (False, False, False) ps)"

section \<open>Load-time checks\<close>

definition valid_name :: "string \<Rightarrow> bool" where
  "valid_name s \<longleftrightarrow>
     1 \<le> length s \<and> length s \<le> 63 \<and> CHR ''a'' \<le> hd s \<and> hd s \<le> CHR ''z'' \<and>
     list_all (\<lambda>c. CHR ''a'' \<le> c \<and> c \<le> CHR ''z'' \<or> CHR ''0'' \<le> c \<and> c \<le> CHR ''9'' \<or> c = CHR ''-'') s"

definition restrict_set :: "protect_effect \<Rightarrow> restrict set" where
  "restrict_set p = (case restricts p of None \<Rightarrow> {RCreate, RUpdate, RDelete, RForcePush} | Some v \<Rightarrow> set v)"

definition trim_end_char :: "char \<Rightarrow> string \<Rightarrow> string" where
  "trim_end_char c s = rev (dropWhile (\<lambda>x. x = c) (rev s))"

definition stem :: "string \<Rightarrow> string" where
  "stem p = trim_end_char (CHR ''/'') (trim_end_char (CHR ''*'') p)"

definition glob_may_overlap :: "string \<Rightarrow> string \<Rightarrow> bool" where
  "glob_may_overlap a b \<longleftrightarrow>
     a = b \<or> glob_match a (stem b) \<or> glob_match b (stem a) \<or> contains_str a ''**'' \<or> contains_str b ''**''"

definition inclusions :: "string list \<Rightarrow> string list" where
  "inclusions ps = filter (\<lambda>p. \<not> starts_with p ''^'') ps"

definition ref_patterns_may_overlap :: "string list \<Rightarrow> string list \<Rightarrow> bool" where
  "ref_patterns_may_overlap a b \<longleftrightarrow>
     a = [] \<or> b = [] \<or> inclusions a = [] \<or> inclusions b = [] \<or>
     list_ex (\<lambda>x. list_ex (glob_may_overlap x) (inclusions b)) (inclusions a)"

definition bypass_conflict :: "rule \<Rightarrow> rule \<Rightarrow> bool" where
  "bypass_conflict a b \<longleftrightarrow>
     (case (ef_protect (rl_effect a), ef_protect (rl_effect b)) of
        (Some pa, Some pb) \<Rightarrow>
          ref_patterns_may_overlap (m_refs (rl_match a)) (m_refs (rl_match b)) \<and>
          restrict_set pa \<inter> restrict_set pb \<noteq> {} \<and> pe_bypass pa \<noteq> [] \<and> pe_bypass pb \<noteq> [] \<and>
          set (pe_bypass pa) \<inter> set (pe_bypass pb) = {}
      | _ \<Rightarrow> False)"

fun overlap_pairs :: "rule list \<Rightarrow> (policy_error, unit) result" where
  "overlap_pairs [] = Ok ()"
| "overlap_pairs (a # rest) =
     (case find (bypass_conflict a) rest of
        Some b \<Rightarrow> Err (POverlap (rl_name a) (rl_name b))
      | None \<Rightarrow> overlap_pairs rest)"

definition check_overlap_bypass :: "repo_policy \<Rightarrow> (policy_error, unit) result" where
  "check_overlap_bypass p = overlap_pairs (filter (\<lambda>r. ef_protect (rl_effect r) \<noteq> None) (pol_rules p))"

fun check_groups :: "string set \<Rightarrow> roster list \<Rightarrow> (policy_error, unit) result" where
  "check_groups seen [] = Ok ()"
| "check_groups seen (g # gs) =
     (if \<not> valid_name (g_name g) then Err (PGroupName (g_name g))
      else if g_name g \<in> seen then Err (PGroupDup (g_name g))
      else check_groups (insert (g_name g) seen) gs)"

definition effect_count :: "effect \<Rightarrow> nat" where
  "effect_count e =
     (if ef_protect e \<noteq> None then 1 else 0) + (if ef_history e \<noteq> None then 1 else 0) +
     (if ef_size e \<noteq> None then 1 else 0)"

fun check_rules :: "string set \<Rightarrow> rule list \<Rightarrow> (policy_error, unit) result" where
  "check_rules seen [] = Ok ()"
| "check_rules seen (r # rs) =
     (if \<not> valid_name (rl_name r) then Err (PRuleName (rl_name r))
      else if rl_name r \<in> seen then Err (PRuleDup (rl_name r))
      else if effect_count (rl_effect r) \<noteq> 1 then Err (PEffect (rl_name r))
      else if rl_mode r \<noteq> None \<and> rl_mode r \<noteq> Some ''enforce'' \<and> rl_mode r \<noteq> Some ''audit''
        then Err (PMode (rl_name r))
      else if (ef_history (rl_effect r) \<noteq> None \<or> ef_size (rl_effect r) \<noteq> None) \<and>
              list_ex (\<lambda>p. starts_with p ''^'')
                (m_refs (rl_match r) @ m_principals (rl_match r) @ m_paths (rl_match r))
        then Err (PCaret (rl_name r))
      else check_rules (insert (rl_name r) seen) rs)"

definition validate_policy :: "repo_policy \<Rightarrow> (policy_error, unit) result" where
  "validate_policy p =
     (if pol_version p \<noteq> 1 then Err (PVersion (pol_version p))
      else rbind (check_groups {} (pol_groups p)) (\<lambda>_.
             rbind (check_rules {} (pol_rules p)) (\<lambda>_. check_overlap_bypass p)))"

section \<open>Evaluation of a push\<close>

datatype ref_op = NoOp | OpCreate | OpDelete | OpUpdate

definition classify :: "string \<Rightarrow> string \<Rightarrow> ref_op" where
  "classify old new =
     (if old = [] then (if new = [] then NoOp else OpCreate)
      else if new = [] then OpDelete
      else if old = new then NoOp
      else OpUpdate)"

definition rule_matches :: "rosters \<Rightarrow> rule_match \<Rightarrow> string \<Rightarrow> string \<Rightarrow> bool" where
  "rule_matches gs m rname who \<longleftrightarrow>
     \<not> (m_refs m \<noteq> [] \<and> \<not> pattern_list_matches (m_refs m) rname) \<and>
     \<not> (m_principals m \<noteq> [] \<and> \<not> actor_list_matches gs (m_principals m) who)"

definition bypasses :: "rosters \<Rightarrow> protect_effect \<Rightarrow> string \<Rightarrow> bool" where
  "bypasses gs p who \<longleftrightarrow> pe_bypass p \<noteq> [] \<and> actor_list_matches gs (pe_bypass p) who"

definition restricts_op :: "restrict set \<Rightarrow> ref_op \<Rightarrow> bool \<Rightarrow> bool" where
  "restricts_op S op force =
     (case op of
        OpCreate \<Rightarrow> RCreate \<in> S
      | OpDelete \<Rightarrow> RDelete \<in> S
      | OpUpdate \<Rightarrow> (if force then RForcePush \<in> S \<or> RUpdate \<in> S else RUpdate \<in> S)
      | NoOp \<Rightarrow> False)"

definition rule_denies :: "rosters \<Rightarrow> string \<Rightarrow> string \<Rightarrow> ref_op \<Rightarrow> bool \<Rightarrow> rule \<Rightarrow> bool" where
  "rule_denies gs who rname op force rule =
     (case ef_protect (rl_effect rule) of
        None \<Rightarrow> False
      | Some protect \<Rightarrow>
          rule_matches gs (rl_match rule) rname who \<and> \<not> bypasses gs protect who \<and>
          restricts_op (restrict_set protect) op force)"

definition deny_reason ::
  "repo_policy \<Rightarrow> rosters \<Rightarrow> string \<Rightarrow> ref_update \<Rightarrow> (ref_update \<Rightarrow> bool) \<Rightarrow> string option" where
  "deny_reason policy gs who u is_force =
     (let op = classify (old_oid u) (new_oid u)
      in if op = NoOp then None
         else
           (let force = is_force u \<or> starts_with (upd_name u) ''refs/tags/''
            in map_option (\<lambda>r. ''rejected by rule '' @ CHR 0x27 # rl_name r @ [CHR 0x27])
                 (find (rule_denies gs who (upd_name u) op force) (pol_rules policy))))"

record eval =
  ev_publish :: ref_transaction
  ev_per_ref :: "(string \<times> (string, unit) result) list"

definition any_denied :: "eval \<Rightarrow> bool" where
  "any_denied ev \<longleftrightarrow> list_ex (\<lambda>r. \<not> is_ok (snd r)) (ev_per_ref ev)"

definition any_allowed :: "eval \<Rightarrow> bool" where
  "any_allowed ev \<longleftrightarrow> updates (ev_publish ev) \<noteq> []"

definition eval_step ::
  "repo_policy \<Rightarrow> rosters \<Rightarrow> string \<Rightarrow> (ref_update \<Rightarrow> bool)
     \<Rightarrow> (string \<times> (string, unit) result) list \<times> ref_update list \<Rightarrow> ref_update
     \<Rightarrow> (string \<times> (string, unit) result) list \<times> ref_update list" where
  "eval_step policy gs who is_force st u =
     (case deny_reason policy gs who u is_force of
        None \<Rightarrow> (fst st @ [(upd_name u, Ok ())], snd st @ [u])
      | Some msg \<Rightarrow> (fst st @ [(upd_name u, Err msg)], snd st))"

definition evaluate :: "repo_policy \<Rightarrow> string \<Rightarrow> ref_transaction \<Rightarrow> (ref_update \<Rightarrow> bool) \<Rightarrow> eval" where
  "evaluate policy who t is_force =
     (let (results, allowed) = foldl (eval_step policy (rosters_of policy) who is_force) ([], []) (updates t)
      in if atomic t \<and> list_ex (\<lambda>r. \<not> is_ok (snd r)) results
         then \<lparr>ev_publish = \<lparr>updates = [], push_options = push_options t, atomic = True\<rparr>, ev_per_ref = results\<rparr>
         else \<lparr>ev_publish = \<lparr>updates = allowed, push_options = push_options t, atomic = atomic t\<rparr>,
               ev_per_ref = results\<rparr>)"

section \<open>The stored document\<close>

definition POLICY :: string where "POLICY = ''policy.json''"

definition policy_key :: "string \<Rightarrow> string \<Rightarrow> string" where
  "policy_key owner name' = repo_prefix owner name' @ POLICY"

record 'a policy_codec =
  pc_encode :: "repo_policy \<Rightarrow> 'a list"
  pc_decode :: "'a list \<Rightarrow> repo_policy option"

definition parse_policy :: "'a policy_codec \<Rightarrow> 'a list \<Rightarrow> (store_error, repo_policy) result" where
  "parse_policy c b =
     (case pc_decode c b of
        None \<Rightarrow> Err (InvalidArgument ''policy.json'')
      | Some p \<Rightarrow> (case validate_policy p of Inl _ \<Rightarrow> Err (InvalidArgument ''policy.json'') | Inr _ \<Rightarrow> Ok p))"

definition load_policy ::
  "('s, 'a) store_ops \<Rightarrow> 'a policy_codec \<Rightarrow> repo_id \<Rightarrow> 's \<Rightarrow> (store_error, repo_policy) result \<times> 's" where
  "load_policy ops c rid s =
     (case os_get ops s (policy_key (ri_owner rid) (ri_name rid)) default_get of
        (Inl e, s') \<Rightarrow> (if is_not_found e then Ok policy_empty else Err e, s')
      | (Inr got, s') \<Rightarrow>
          (case get_result_bytes got of
             Inl e \<Rightarrow> (Err e, s')
           | Inr None \<Rightarrow> (Ok policy_empty, s')
           | Inr (Some (_, b)) \<Rightarrow> (parse_policy c b, s')))"

definition save_policy ::
  "('s, 'a) store_ops \<Rightarrow> 'a policy_codec \<Rightarrow> repo_id \<Rightarrow> repo_policy \<Rightarrow> 's \<Rightarrow> (store_error, unit) result \<times> 's" where
  "save_policy ops c rid p s =
     (case validate_policy p of
        Inl _ \<Rightarrow> (Err (InvalidArgument ''policy''), s)
      | Inr _ \<Rightarrow>
          sbind (put_bytes ops s (policy_key (ri_owner rid) (ri_name rid)) (pc_encode c p) Overwrite)
            (\<lambda>_ s'. (Ok (), s')))"

definition clear_policy :: "('s, 'a) store_ops \<Rightarrow> repo_id \<Rightarrow> 's \<Rightarrow> (store_error, unit) result \<times> 's" where
  "clear_policy ops rid s =
     (case os_delete ops s (policy_key (ri_owner rid) (ri_name rid)) None of
        (Inr _, s') \<Rightarrow> (Ok (), s')
      | (Inl e, s') \<Rightarrow> (if is_not_found e then Ok () else Err e, s'))"

section \<open>What a glob accepts\<close>

datatype glob_tok = GLit char | GAny | GStar | GDouble

text \<open>A double star takes the slash after it along.\<close>

function tokens :: "string \<Rightarrow> glob_tok list" where
  "tokens [] = []"
| "tokens (c # p) =
     (if c = CHR ''*'' \<and> p \<noteq> [] \<and> hd p = CHR ''*'' then GDouble # tokens (drop_slash (tl p))
      else if c = CHR ''*'' then GStar # tokens p
      else if c = CHR ''?'' then GAny # tokens p
      else GLit c # tokens p)"
  by pat_completeness auto

termination
  by (relation "measure length")
    (auto simp: neq_Nil_conv intro: le_less_trans [OF length_drop_slash])

fun accepts :: "glob_tok \<Rightarrow> string \<Rightarrow> bool" where
  "accepts (GLit c) s \<longleftrightarrow> s = [c]"
| "accepts GAny s \<longleftrightarrow> (\<exists>c. s = [c] \<and> c \<noteq> CHR ''/'')"
| "accepts GStar s \<longleftrightarrow> CHR ''/'' \<notin> set s"
| "accepts GDouble s \<longleftrightarrow> True"

definition glob_spec :: "glob_tok list \<Rightarrow> string \<Rightarrow> bool" where
  "glob_spec ts s \<longleftrightarrow> (\<exists>parts. list_all2 accepts ts parts \<and> concat parts = s)"

lemma glob_spec_Nil [simp]: "glob_spec [] s \<longleftrightarrow> s = []"
  by (auto simp: glob_spec_def)

lemma glob_spec_Cons: "glob_spec (k # ts) s \<longleftrightarrow> (\<exists>a b. s = a @ b \<and> accepts k a \<and> glob_spec ts b)"
proof
  assume "\<exists>a b. s = a @ b \<and> accepts k a \<and> glob_spec ts b"
  then obtain a parts where "s = concat (a # parts)" "list_all2 accepts (k # ts) (a # parts)"
    by (auto simp: glob_spec_def)
  then show "glob_spec (k # ts) s" unfolding glob_spec_def by blast
qed (force simp: glob_spec_def list_all2_Cons1)

lemma glob_spec_ConsI: "accepts k a \<Longrightarrow> glob_spec ts b \<Longrightarrow> glob_spec (k # ts) (a @ b)"
  by (auto simp: glob_spec_Cons)

lemma accepts_single: "accepts (GLit c) a \<longleftrightarrow> (\<exists>x. a = [x] \<and> x = c)"
  "accepts GAny a \<longleftrightarrow> (\<exists>x. a = [x] \<and> x \<noteq> CHR ''/'')"
  by auto

lemma glob_spec_single:
  assumes "\<And>a. accepts k a \<longleftrightarrow> (\<exists>x. a = [x] \<and> P x)"
  shows "glob_spec (k # ts) s \<longleftrightarrow> (case s of [] \<Rightarrow> False | x # s' \<Rightarrow> P x \<and> glob_spec ts s')"
  using glob_spec_ConsI [of k "[_]" ts] assms by (auto simp: glob_spec_Cons [of k] split: list.split)

lemmas glob_spec_char = glob_spec_single [OF accepts_single(1)] glob_spec_single [OF accepts_single(2)]

text \<open>A star is left at once or takes one more character.\<close>

lemma glob_spec_loop:
  assumes "accepts k []" "\<And>x a. accepts k (x # a) \<longleftrightarrow> P x \<and> accepts k a"
  shows "glob_spec (k # ts) s \<longleftrightarrow> glob_spec ts s \<or> (case s of [] \<Rightarrow> False | x # s' \<Rightarrow> P x \<and> glob_spec (k # ts) s')"
proof (cases s)
  case Nil
  then show ?thesis using assms(1) by (auto simp: glob_spec_Cons)
next
  case (Cons x s')
  show ?thesis
  proof
    assume "glob_spec (k # ts) s"
    then obtain a b where "s = a @ b" "accepts k a" "glob_spec ts b" by (auto simp: glob_spec_Cons)
    then show "glob_spec ts s \<or> (case s of [] \<Rightarrow> False | x # s' \<Rightarrow> P x \<and> glob_spec (k # ts) s')"
      using Cons assms(2) by (cases a) (auto intro: glob_spec_ConsI)
  next
    assume "glob_spec ts s \<or> (case s of [] \<Rightarrow> False | x # s' \<Rightarrow> P x \<and> glob_spec (k # ts) s')"
    then show "glob_spec (k # ts) s"
    proof
      assume "glob_spec ts s"
      then show ?thesis using glob_spec_ConsI [OF assms(1), of ts s] by simp
    next
      assume "case s of [] \<Rightarrow> False | x # s' \<Rightarrow> P x \<and> glob_spec (k # ts) s'"
      then obtain a b where "P x" "s' = a @ b" "accepts k a" "glob_spec ts b" using Cons by (auto simp: glob_spec_Cons)
      then show ?thesis using Cons glob_spec_ConsI [of k "x # a" ts b] assms(2) by simp
    qed
  qed
qed

lemmas glob_spec_stars =
  glob_spec_loop [where k = GDouble and P = "\<lambda>_. True", simplified]
  glob_spec_loop [where k = GStar and P = "\<lambda>x. CHR ''/'' \<noteq> x", simplified]

lemma glob_spec_double [simp]: "glob_spec [GDouble] s"
  by (simp add: glob_spec_Cons)

lemma glob_loops_spec:
  "glob_bytes p s \<longleftrightarrow> glob_spec (tokens p) s"
  "glob_any p s \<longleftrightarrow> glob_spec (GDouble # tokens p) s"
  "glob_star p s \<longleftrightarrow> glob_spec (GStar # tokens p) s"
proof (induction p s and p s and p s rule: glob_bytes_glob_any_glob_star.induct)
  case (1 pat s)
  then show ?case
    by (simp only: glob_bytes.simps [of pat s]) (auto simp: glob_spec_char Let_def split: list.split)
next
  case (2 rest s)
  show ?case unfolding glob_any.simps [of rest s] glob_spec_stars(1) [of _ s] using 2 by (cases s) simp_all
next
  case (3 rest s)
  show ?case unfolding glob_star.simps [of rest s] glob_spec_stars(2) [of _ s] using 3 by (cases s) auto
qed

lemma glob_match_spec: "glob_match p s \<longleftrightarrow> glob_spec (tokens p) s"
  by (auto simp: glob_match_def glob_loops_spec(1) glob_spec_char split: list.split)

section \<open>Whom an actor list admits\<close>

text \<open>A specification admits a principal that it names or that a member of its group admits.\<close>

inductive admits :: "rosters \<Rightarrow> string \<Rightarrow> string \<Rightarrow> bool" for gs who where
  named: "strip_prefix ''group:'' spec = None \<Longrightarrow> \<not> starts_with spec ''@'' \<Longrightarrow>
    eq_ignore_ascii_case spec who \<Longrightarrow> admits gs who spec"
| member: "strip_prefix ''group:'' spec = Some nm \<Longrightarrow> map_of gs nm = Some g \<Longrightarrow> m \<in> set (g_members g) \<Longrightarrow>
    admits gs who m \<Longrightarrow> admits gs who spec"

text \<open>What a search that found nothing has settled: the spec cannot name the principal directly.\<close>

definition settled_spec :: "string \<Rightarrow> string set \<Rightarrow> string \<Rightarrow> bool" where
  "settled_spec who seen spec \<longleftrightarrow>
     (case strip_prefix ''group:'' spec of
        Some nm \<Rightarrow> nm \<in> seen
      | None \<Rightarrow> starts_with spec ''@'' \<or> \<not> eq_ignore_ascii_case spec who)"

lemma settled_spec_mono: "settled_spec who seen spec \<Longrightarrow> seen \<subseteq> seen' \<Longrightarrow> settled_spec who seen' spec"
  by (auto simp: settled_spec_def split: option.splits)

lemma members_match_sound: "fst (members_match gs who specs seen) \<Longrightarrow> \<exists>spec \<in> set specs. admits gs who spec"
proof (induction gs who specs seen rule: members_match.induct)
  case (2 gs who spec specs seen)
  show ?case
  proof (cases "strip_prefix ''group:'' spec")
    case None
    then show ?thesis using 2(1) 2(6) by (auto split: if_splits intro: admits.named)
  next
    case (Some nm)
    show ?thesis
    proof (cases "nm \<in> seen \<or> map_of gs nm = None")
      case True
      then show ?thesis using 2(2,3,6) Some by (auto split: if_splits)
    next
      case False
      then obtain g where g: "nm \<notin> seen" "map_of gs nm = Some g" by auto
      obtain hit seen' where r: "members_match gs who (g_members g) (insert nm seen) = (hit, seen')" by fastforce
      then show ?thesis using 2(4) [OF Some g] 2(5) [OF Some g r [symmetric]] 2(6) Some g
        by (cases hit) (auto intro: admits.member)
    qed
  qed
qed simp

definition closed_over :: "rosters \<Rightarrow> string \<Rightarrow> string set \<Rightarrow> string set \<Rightarrow> bool" where
  "closed_over gs who names seen \<longleftrightarrow>
     (\<forall>nm \<in> names. \<forall>g. map_of gs nm = Some g \<longrightarrow> (\<forall>m \<in> set (g_members g). settled_spec who seen m))"

lemma closed_over_mono:
  "closed_over gs who names seen \<Longrightarrow> seen \<subseteq> seen' \<Longrightarrow> closed_over gs who names seen'"
  by (meson closed_over_def settled_spec_mono)

lemma closed_over_Un: "closed_over gs who (A \<union> B) seen \<longleftrightarrow> closed_over gs who A seen \<and> closed_over gs who B seen"
  by (auto simp: closed_over_def)

lemma members_match_complete:
  "members_match gs who specs seen = (False, seen') \<Longrightarrow>
   seen \<subseteq> seen' \<and> (\<forall>spec \<in> set specs. settled_spec who seen' spec) \<and> closed_over gs who (seen' - seen) seen'"
proof (induction gs who specs seen arbitrary: seen' rule: members_match.induct)
  case (2 gs who spec specs seen)
  show ?case
  proof (cases "strip_prefix ''group:'' spec")
    case None
    then show ?thesis using 2(1) 2(6) by (auto simp: settled_spec_def split: if_splits)
  next
    case (Some nm)
    show ?thesis
    proof (cases "nm \<in> seen")
      case True
      then show ?thesis using 2(2) [OF Some True] 2(6) Some by (auto simp: settled_spec_def)
    next
      case new: False
      show ?thesis
      proof (cases "map_of gs nm")
        case None
        then have "members_match gs who specs (insert nm seen) = (False, seen')" using 2(6) Some new by simp
        note IH = 2(3) [OF Some new None this]
        then have "closed_over gs who ({nm} \<union> (seen' - insert nm seen)) seen'"
          using None by (simp add: closed_over_Un) (simp add: closed_over_def)
        moreover have "{nm} \<union> (seen' - insert nm seen) = seen' - seen" using IH new by blast
        ultimately show ?thesis using IH Some by (auto simp: settled_spec_def)
      next
        case g: (Some g)
        obtain hit mid where r: "members_match gs who (g_members g) (insert nm seen) = (hit, mid)" by fastforce
        with 2(6) Some new g have "\<not> hit" and rest: "members_match gs who specs mid = (False, seen')"
          by (auto split: if_splits)
        with r have "members_match gs who (g_members g) (insert nm seen) = (False, mid)" by simp
        note A = 2(4) [OF Some new g this]
        note B = 2(5) [OF Some new g r [symmetric] \<open>\<not> hit\<close> rest]
        have "closed_over gs who {nm} mid" using A g by (simp add: closed_over_def)
        with A B have "closed_over gs who (({nm} \<union> (mid - insert nm seen)) \<union> (seen' - mid)) seen'"
          unfolding closed_over_Un by (blast intro: closed_over_mono)
        moreover have "({nm} \<union> (mid - insert nm seen)) \<union> (seen' - mid) = seen' - seen" using A B new by blast
        ultimately show ?thesis using A B Some by (auto simp: settled_spec_def)
      qed
    qed
  qed
qed (simp add: closed_over_def)

lemma settled_not_admitted:
  assumes "admits gs who spec" "settled_spec who seen spec" "closed_over gs who seen seen"
  shows False
  using assms(1,2) by induction (use assms(3) in \<open>auto simp: settled_spec_def closed_over_def\<close>)

lemma principal_matches_iff: "principal_matches gs who spec \<longleftrightarrow> admits gs who spec"
proof
  assume "principal_matches gs who spec"
  then show "admits gs who spec"
    using members_match_sound [of gs who "[spec]" "{}"] by (simp only: principal_matches_def) simp
next
  assume adm: "admits gs who spec"
  obtain hit seen' where r: "members_match gs who [spec] {} = (hit, seen')" by fastforce
  have hit
  proof (rule ccontr)
    assume "\<not> hit"
    with r members_match_complete [of gs who "[spec]" "{}" seen']
    show False using settled_not_admitted [OF adm, of seen'] by simp
  qed
  with r show "principal_matches gs who spec" by (simp only: principal_matches_def) simp
qed

section \<open>What a push may do\<close>

text \<open>
  The documented meaning of a list of patterns, of a rule and of a policy, without loops: inclusions
  are alternatives (none means everything), an exclusion always wins, every applicable rule must
  allow the operation, and only its own bypass list lifts a rule.
\<close>

definition list_spec :: "(string \<Rightarrow> bool) \<Rightarrow> (string \<Rightarrow> bool) \<Rightarrow> string list \<Rightarrow> bool" where
  "list_spec inc exc ps \<longleftrightarrow>
     ((\<exists>p \<in> set ps. strip_prefix ''^'' p = None \<and> inc p) \<or> (\<forall>p \<in> set ps. strip_prefix ''^'' p \<noteq> None)) \<and>
     (\<forall>p \<in> set ps. \<forall>r. strip_prefix ''^'' p = Some r \<longrightarrow> \<not> exc r)"

definition names_ref :: "string list \<Rightarrow> string \<Rightarrow> bool" where
  "names_ref ps n = list_spec (\<lambda>p. glob_spec (tokens p) n) (\<lambda>p. glob_spec (tokens p) n) ps"

definition names_actor :: "rosters \<Rightarrow> string list \<Rightarrow> string \<Rightarrow> bool" where
  "names_actor gs ps who =
     list_spec (admits gs who)
       (\<lambda>p. (\<exists>g. strip_prefix ''group:'' p = Some g \<and> map_of gs g = None) \<or> admits gs who p) ps"

definition applies :: "rosters \<Rightarrow> rule_match \<Rightarrow> protect_effect \<Rightarrow> string \<Rightarrow> string \<Rightarrow> bool" where
  "applies gs m pe n who \<longleftrightarrow>
     (m_refs m = [] \<or> names_ref (m_refs m) n) \<and> (m_principals m = [] \<or> names_actor gs (m_principals m) who) \<and>
     (pe_bypass pe = [] \<or> \<not> names_actor gs (pe_bypass pe) who)"

definition permitted :: "repo_policy \<Rightarrow> string \<Rightarrow> string \<Rightarrow> ref_op \<Rightarrow> bool \<Rightarrow> bool" where
  "permitted p who n op force \<longleftrightarrow>
     (\<forall>r \<in> set (pol_rules p). \<forall>pe. ef_protect (rl_effect r) = Some pe \<longrightarrow>
        applies (rosters_of p) (rl_match r) pe n who \<longrightarrow> \<not> restricts_op (restrict_set pe) op force)"

text \<open>Both lists are scanned in the same way.\<close>

definition scan_step ::
  "(string \<Rightarrow> bool) \<Rightarrow> (string \<Rightarrow> bool) \<Rightarrow> bool \<times> bool \<times> bool \<Rightarrow> string \<Rightarrow> bool \<times> bool \<times> bool" where
  "scan_step I X st p =
     (case st of (a, i, e) \<Rightarrow>
        case strip_prefix ''^'' p of Some r \<Rightarrow> (a, i, e \<or> X r) | None \<Rightarrow> (True, i \<or> I p, e))"

lemma foldl_scan_step:
  "foldl (scan_step I X) (a, i, e) ps =
   (a \<or> (\<exists>p \<in> set ps. strip_prefix ''^'' p = None),
    i \<or> (\<exists>p \<in> set ps. strip_prefix ''^'' p = None \<and> I p),
    e \<or> (\<exists>p \<in> set ps. \<exists>r. strip_prefix ''^'' p = Some r \<and> X r))"
  by (induction ps arbitrary: a i e) (auto simp: scan_step_def split: option.split)

lemma verdict_of_scan: "verdict_of (foldl (scan_step I X) (False, False, False) ps) \<longleftrightarrow> list_spec I X ps"
  unfolding foldl_scan_step by (auto simp: verdict_of_def list_spec_def)

lemma pattern_list_matches_iff: "pattern_list_matches ps n \<longleftrightarrow> names_ref ps n"
proof -
  have "pattern_step n = scan_step (\<lambda>p. glob_spec (tokens p) n) (\<lambda>p. glob_spec (tokens p) n)"
    by (intro ext) (auto simp: pattern_step_def scan_step_def glob_match_spec split: option.split)
  then show ?thesis by (simp add: pattern_list_matches_def verdict_of_scan names_ref_def)
qed

lemma actor_list_matches_iff: "actor_list_matches gs ps who \<longleftrightarrow> names_actor gs ps who"
proof -
  have "actor_step gs who = scan_step (admits gs who)
      (\<lambda>p. (\<exists>g. strip_prefix ''group:'' p = Some g \<and> map_of gs g = None) \<or> admits gs who p)"
    by (intro ext) (auto simp: actor_step_def scan_step_def principal_matches_iff Let_def split: option.split)
  then show ?thesis by (simp add: actor_list_matches_def verdict_of_scan names_actor_def)
qed

lemma rule_denies_iff:
  "rule_denies gs who n op force r \<longleftrightarrow>
     (\<exists>pe. ef_protect (rl_effect r) = Some pe \<and> applies gs (rl_match r) pe n who \<and>
        restricts_op (restrict_set pe) op force)"
  by (auto simp: rule_denies_def rule_matches_def bypasses_def applies_def pattern_list_matches_iff
      actor_list_matches_iff split: option.split)

definition update_ok :: "repo_policy \<Rightarrow> string \<Rightarrow> (ref_update \<Rightarrow> bool) \<Rightarrow> ref_update \<Rightarrow> bool" where
  "update_ok p who is_force u \<longleftrightarrow>
     permitted p who (upd_name u) (classify (old_oid u) (new_oid u))
       (is_force u \<or> starts_with (upd_name u) ''refs/tags/'')"

lemma deny_reason_None_iff:
  "deny_reason p (rosters_of p) who u is_force = None \<longleftrightarrow> update_ok p who is_force u"
  by (auto simp: deny_reason_def Let_def update_ok_def permitted_def find_None_iff rule_denies_iff restricts_op_def)

lemma foldl_eval_step:
  "foldl (eval_step p (rosters_of p) who is_force) (rs, us) ts =
     (rs @ map (\<lambda>u. (upd_name u, case deny_reason p (rosters_of p) who u is_force of None \<Rightarrow> Ok () | Some m \<Rightarrow> Err m)) ts,
      us @ filter (update_ok p who is_force) ts)"
  by (induction ts arbitrary: rs us)
    (auto simp: eval_step_def deny_reason_None_iff [symmetric] split: option.split)

lemma evaluate_updates:
  "updates (ev_publish (evaluate p who t is_force)) =
     (if atomic t \<and> \<not> list_all (update_ok p who is_force) (updates t) then []
      else filter (update_ok p who is_force) (updates t))"
proof -
  have "is_ok (case deny_reason p (rosters_of p) who u is_force of None \<Rightarrow> Ok () | Some m \<Rightarrow> Err m) \<longleftrightarrow>
      update_ok p who is_force u" for u
    by (auto simp: deny_reason_None_iff [symmetric] split: option.split)
  then show ?thesis by (auto simp: evaluate_def foldl_eval_step Let_def list_ex_iff list_all_iff)
qed


text \<open>
  C16. The glob dialect: a pattern matches a name exactly when the name is a concatenation of pieces
  its tokens accept, literals and \<open>?\<close> one character, \<open>*\<close> anything without a slash, \<open>**\<close> anything.
\<close>

theorem glob_match_iff_tokens:
  "glob_match p s \<longleftrightarrow> (\<exists>parts. list_all2 accepts (tokens p) parts \<and> concat parts = s)"
  using glob_match_spec by (simp add: glob_spec_def)

text \<open>
  C26. Rosters that refer to each other, also in circles, are searched completely and the search
  ends: a specification matches a principal exactly when a chain of memberships leads to it.
\<close>

theorem principal_matches_iff_admits:
  "principal_matches gs who spec \<longleftrightarrow> admits gs who spec"
  by (rule principal_matches_iff)

section \<open>Where the checks fall short of the document\<close>

definition protect_rule :: "string \<Rightarrow> string \<Rightarrow> string list \<Rightarrow> rule" where
  "protect_rule n pat by' =
     \<lparr>rl_name = n, rl_match = \<lparr>m_refs = [pat], m_principals = [], m_paths = []\<rparr>,
      rl_effect = \<lparr>ef_protect = Some \<lparr>restricts = None, pe_bypass = by'\<rparr>, ef_history = None, ef_size = None\<rparr>,
      rl_mode = None\<rparr>"

definition crossing_policy :: repo_policy where
  "crossing_policy = \<lparr>pol_version = 1, pol_groups = [],
     pol_rules = [protect_rule ''a'' ''refs/heads/a*'' [''alice''], protect_rule ''b'' ''refs/heads/*b'' [''bob'']]\<rparr>"

definition create_ref :: "string \<Rightarrow> ref_update" where
  "create_ref n = \<lparr>upd_name = n, old_oid = [], new_oid = ''1'', new_symbolic_target = [], new_peeled = []\<rparr>"

text \<open>
  The overlap check is not conservative: it accepts a policy with two rules that both protect
  \<open>refs/heads/ab\<close> and have disjoint bypass lists, so neither of the two principals meant to write
  that branch can.
\<close>

theorem overlap_check_misses_crossing_globs:
  "validate_policy crossing_policy = Ok () \<and>
   glob_match ''refs/heads/a*'' ''refs/heads/ab'' \<and> glob_match ''refs/heads/*b'' ''refs/heads/ab'' \<and>
   deny_reason crossing_policy [] ''alice'' (create_ref ''refs/heads/ab'') (\<lambda>_. False) \<noteq> None \<and>
   deny_reason crossing_policy [] ''bob'' (create_ref ''refs/heads/ab'') (\<lambda>_. False) \<noteq> None"
  by code_simp

text \<open>
  An exclusion that cannot be resolved because it names a tag or, one level down, a missing roster
  does not exclude, and a double star before a slash may begin inside a path component.
\<close>

lemma unresolved_exclusions_admit:
  "actor_list_matches [] [''^@okta:contractors''] ''mallory'' \<and>
   actor_list_matches [(''g'', \<lparr>g_name = ''g'', g_members = [''group:gone'']\<rparr>)] [''^group:g''] ''mallory'' \<and>
   glob_match ''refs/**/main'' ''refs/heads/notmain''"
  by code_simp

end
