(* ===== verification/Push.thy ===== *)
theory Push
  imports Receive Policy Wal_Commit
begin

text \<open>
  The push handler of \<^verbatim>\<open>walgit-server/src/smart.rs\<close>, which puts the parts together: the parsed
  request is normalised, the pack is ingested and checked, the policy decides about every update,
  the rest is published, and the client gets one report.

  What the handler calls outside these theories is the record \<open>push_env\<close>: the ingestion of the pack,
  the connectivity check, the ancestor test on commits, the stored policy and the publisher.  Narration,
  metrics, locks around the pack files and HTTP headers are left out.  For the main theorem the
  publisher is the verification and application of \<^verbatim>\<open>publish.rs\<close>.
\<close>

section \<open>The handler\<close>

definition is_zero_oid :: "string \<Rightarrow> bool" where
  "is_zero_oid hex \<longleftrightarrow> list_all (\<lambda>c. c = CHR ''0'') hex \<and> hex \<noteq> []"

definition normalize_update :: "ref_update \<Rightarrow> ref_update" where
  "normalize_update u =
     (let u = (if is_zero_oid (old_oid u) then u\<lparr>old_oid := []\<rparr> else u)
      in if is_zero_oid (new_oid u) then u\<lparr>new_oid := []\<rparr> else u)"

definition normalize_txn :: "ref_transaction \<Rightarrow> ref_transaction" where
  "normalize_txn t = t\<lparr>updates := map normalize_update (updates t)\<rparr>"

text \<open>The pieces of one packet on a band; only the first piece carries the band.\<close>

fun encode_lines :: "string list \<Rightarrow> string option" where
  "encode_lines [] = Some []"
| "encode_lines (c # cs) =
     (case (encode_line c, encode_lines cs) of (Some a, Some b) \<Rightarrow> Some (a @ b) | _ \<Rightarrow> None)"

lemma encode_line_frame: "encode_line d = (if length d \<le> MAX_PKT_DATA then Some (frame d) else None)"
  by (simp add: encode_line_def frame_def header_def Let_def)

definition sideband_pkt :: "nat \<Rightarrow> string \<Rightarrow> string option" where
  "sideband_pkt band s =
     (let d = char_of band # s @ (if ends_with s [CHR 0x0A] then [] else [CHR 0x0A])
      in encode_lines (chunks MAX_PKT_DATA d))"

definition refusal_report :: "receive_caps \<Rightarrow> ref_transaction \<Rightarrow> string \<Rightarrow> string option" where
  "refusal_report c t msg =
     (let results = map (\<lambda>u. (upd_name u, Err msg)) (updates t);
          report = report_status c (Err msg) results
      in if rc_side_band_64k c then map_option (\<lambda>p. p @ report) (sideband_pkt 2 (msg @ [CHR 0x0A])) else Some report)"

fun ref_error_text :: "ref_error \<Rightarrow> string" where
  "ref_error_text NonFastForward = ''non-fast-forward''"
| "ref_error_text (Conflict e a) = ''conflict: expected '' @ e @ '', got '' @ a"
| "ref_error_text (Rejected m) = ''rejected: '' @ m"
| "ref_error_text Missing = ''ref missing''"

record 's push_env =
  env_ingest :: "(string, bool) result"
  env_check_connectivity :: bool
  env_connectivity :: "string list \<Rightarrow> (string, unit) result"
  env_is_ancestor :: "string \<Rightarrow> string \<Rightarrow> bool option"
  env_policy :: "(store_error, repo_policy) result"
  env_peel :: "string \<Rightarrow> string option"
  env_publish :: "ref_transaction \<Rightarrow> 's \<Rightarrow> (string, ref_result list) result \<times> 's"

text \<open>The writer records what annotated tags peel to.\<close>

definition fill_peeled :: "(string \<Rightarrow> string option) \<Rightarrow> ref_transaction \<Rightarrow> ref_transaction" where
  "fill_peeled peel t =
     t\<lparr>updates := map (\<lambda>u.
         if \<not> starts_with (upd_name u) ''refs/tags/'' \<or> new_oid u = [] \<or> new_peeled u \<noteq> [] then u
         else if list_all (\<lambda>b. b = CHR ''0'') (new_oid u) then u
         else case peel (new_oid u) of
                None \<Rightarrow> u
              | Some p \<Rightarrow> if p \<noteq> new_oid u then u\<lparr>new_peeled := p\<rparr> else u) (updates t)\<rparr>"

text \<open>
  The tips handed to the connectivity check are the new object ids; those that are no object id are
  skipped.
\<close>

definition push_tips :: "ref_transaction \<Rightarrow> string list" where
  "push_tips t =
     filter (\<lambda>o'. (length o' = 40 \<or> length o' = 64) \<and> list_all is_ascii_hexdigit o')
       (filter (\<lambda>o'. o' \<noteq> [] \<and> \<not> is_zero_oid o') (map new_oid (updates t)))"

definition force_names :: "'s push_env \<Rightarrow> repo_policy \<Rightarrow> ref_transaction \<Rightarrow> string set" where
  "force_names E p t =
     (if has_protect p
      then upd_name ` set (filter (\<lambda>u. classify (old_oid u) (new_oid u) = OpUpdate \<and>
             env_is_ancestor E (old_oid u) (new_oid u) \<noteq> Some True) (updates t))
      else {})"

definition policy_gate :: "'s push_env \<Rightarrow> repo_policy \<Rightarrow> string \<Rightarrow> ref_transaction \<Rightarrow> eval" where
  "policy_gate E p who t = evaluate p who t (\<lambda>u. upd_name u \<in> force_names E p t)"

fun merge_result ::
  "(string \<times> (string, unit) result) list \<Rightarrow> string \<times> (string, unit) result \<Rightarrow> (string \<times> (string, unit) result) list" where
  "merge_result [] r = [r]"
| "merge_result (s # ss) r = (if fst s = fst r then (fst s, snd r) # ss else s # merge_result ss r)"

definition map_err :: "('e \<Rightarrow> 'f) \<Rightarrow> ('e, 'a) result \<Rightarrow> ('f, 'a) result" where
  "map_err f r = (case r of Inl e \<Rightarrow> Inl (f e) | Inr x \<Rightarrow> Inr x)"

definition receive_pack_process ::
  "'s push_env \<Rightarrow> ref_transaction \<Rightarrow> receive_caps \<Rightarrow> string \<Rightarrow> 's \<Rightarrow> (string, string option) result \<times> 's" where
  "receive_pack_process E t c who st =
     (case env_ingest E of
        Inl e \<Rightarrow> (Ok (refusal_report c t (''unpack failed: '' @ e)), st)
      | Inr got_pack \<Rightarrow>
          (let tips = push_tips t;
               conn = (if env_check_connectivity E \<and> got_pack \<and> tips \<noteq> [] then env_connectivity E tips else Ok ())
           in case conn of
                Inl e \<Rightarrow> (Ok (refusal_report c t (''connectivity: '' @ e)), st)
              | Inr _ \<Rightarrow>
                  (case env_policy E of
                     Inl _ \<Rightarrow> (Err ''load policy'', st)
                   | Inr p \<Rightarrow>
                       (let ev = policy_gate E p who t
                        in if \<not> any_allowed ev then (Ok (Some (report_status c (Ok ()) (ev_per_ref ev))), st)
                           else case env_publish E (fill_peeled (env_peel E) (ev_publish ev)) st of
                                  (Inl e, st') \<Rightarrow> (Err (''publish failed: '' @ e), st')
                                | (Inr rs, st') \<Rightarrow>
                                    (Ok (Some (report_status c (Ok ())
                                      (foldl merge_result (ev_per_ref ev)
                                         (map (\<lambda>(n, r). (n, map_err ref_error_text r)) rs)))), st')))))"

definition push_meta :: "receive_caps \<Rightarrow> string \<Rightarrow> ref_transaction \<Rightarrow> string option \<Rightarrow> (string \<times> string) list" where
  "push_meta c who t request_id =
     [(''agent'', case rc_agent c of None \<Rightarrow> [] | Some a \<Rightarrow> a), (''principal'', who),
      (''push_options'',
       concat (case push_options t of [] \<Rightarrow> [] | o' # os \<Rightarrow> o' # map (\<lambda>x. CHR 0x0A # x) os))] @
     (case request_id of None \<Rightarrow> [] | Some rid \<Rightarrow> [(''request_id'', rid)])"

section \<open>A push stays within the policy\<close>

text \<open>The publisher on the refs of the repository, for one request.\<close>

definition publish_view :: "ref_view \<Rightarrow> ref_transaction \<Rightarrow> ref_view" where
  "publish_view v t =
     (case verify_txn t v of None \<Rightarrow> v | Some rs \<Rightarrow> if all_ok rs then apply_txn_to_map t v else v)"

definition publish_refs :: "ref_transaction \<Rightarrow> ref_view \<Rightarrow> (string, ref_result list) result \<times> ref_view" where
  "publish_refs t v = (case verify_txn t v of None \<Rightarrow> (Err [], v) | Some rs \<Rightarrow> (Ok rs, publish_view v t))"

lemma publish_refs_state: "snd (publish_refs t v) = publish_view v t"
  by (simp add: publish_refs_def publish_view_def split: option.split)

text \<open>What a request leaves behind once it passed the checks of its pack.\<close>

definition pushed_view :: "'s push_env \<Rightarrow> repo_policy \<Rightarrow> string \<Rightarrow> ref_transaction \<Rightarrow> ref_view \<Rightarrow> ref_view" where
  "pushed_view E p who t v =
     (let ev = policy_gate E p who (normalize_txn t)
      in if any_allowed ev then publish_view v (fill_peeled (env_peel E) (ev_publish ev)) else v)"

lemma publish_refs_case:
  "snd (case publish_refs q v of (Inl e, st') \<Rightarrow> (f e, st') | (Inr rs, st') \<Rightarrow> (g rs, st')) = publish_view v q"
  using publish_refs_state [of q v] by (cases "publish_refs q v") (auto split: sum.split)

lemma receive_pack_process_state:
  assumes "env_publish E = publish_refs" "env_policy E = Ok p"
  shows "snd (receive_pack_process E (normalize_txn t) c who v) \<in> {v, pushed_view E p who t v}"
  using assms by (auto simp: receive_pack_process_def pushed_view_def Let_def publish_refs_case split: sum.split)

definition plain_update :: "ref_update \<Rightarrow> bool" where
  "plain_update u \<longleftrightarrow> new_symbolic_target u = []"

definition oid_at :: "ref_view \<Rightarrow> string \<Rightarrow> string" where
  "oid_at v n = (case view_oid v n of None \<Rightarrow> [] | Some o' \<Rightarrow> o')"

lemma normalized_null:
  assumes "u' = normalize_update u"
  shows "is_null_oid (old_oid u') \<longleftrightarrow> old_oid u' = []" "is_null_oid (new_oid u') \<longleftrightarrow> new_oid u' = []"
  unfolding assms by (auto simp: normalize_update_def is_null_oid_def is_zero_oid_def Let_def)

lemma verify_updates_ok:
  "verify_updates v us = Some rs \<Longrightarrow> all_ok rs \<Longrightarrow> u \<in> set us \<Longrightarrow> \<exists>r. verify_update v u = Some r \<and> is_ok (snd r)"
  by (induction us arbitrary: rs) (auto simp: all_ok_def split: option.splits)

lemma verify_update_plain:
  assumes "verify_update v u = Some r" "is_ok (snd r)" "plain_update u" "upd_name u \<noteq> ''HEAD''"
  shows "if is_null_oid (old_oid u) then oid_at v (upd_name u) = [] else oid_at v (upd_name u) = old_oid u"
  using assms by (auto simp: verify_update_def plain_update_def view_get_other oid_at_def Let_def split: if_splits option.splits)

lemma apply_plain_ok: "bt_ok (overlay v) \<Longrightarrow> bt_ok (overlay (apply_update_to_map v u))"
  by (simp add: apply_update_to_map_def view_set_def view_remove_def)

lemma oid_at_apply:
  "bt_ok (overlay v) \<Longrightarrow> plain_update u \<Longrightarrow>
   oid_at (apply_update_to_map v u) n =
     (if n = upd_name u then if is_null_oid (new_oid u) then [] else new_oid u else oid_at v n)"
  by (simp add: oid_at_def apply_update_to_map_def plain_update_def view_oid_set)

text \<open>The last update of a name decides.\<close>

lemma oid_at_applied:
  assumes "bt_ok (overlay v)" "list_all plain_update us"
  shows "bt_ok (overlay (foldl apply_update_to_map v us)) \<and>
    (oid_at (foldl apply_update_to_map v us) n = oid_at v n \<or>
     (\<exists>u \<in> set us. upd_name u = n \<and>
        oid_at (foldl apply_update_to_map v us) n = (if is_null_oid (new_oid u) then [] else new_oid u)))"
  using assms(2)
proof (induction us rule: rev_induct)
  case (snoc u us)
  then show ?case using apply_plain_ok oid_at_apply by (auto simp: list_all_iff)
qed (simp add: assms(1))

lemma fill_peeled_sound:
  "u \<in> set (updates (fill_peeled peel t)) \<Longrightarrow>
   \<exists>w \<in> set (updates t). upd_name u = upd_name w \<and> old_oid u = old_oid w \<and> new_oid u = new_oid w \<and>
     new_symbolic_target u = new_symbolic_target w"
  by (fastforce simp: fill_peeled_def split: option.splits)

lemma gate_updates:
  assumes "u \<in> set (updates (ev_publish (policy_gate E p who t)))"
  shows "u \<in> set (updates t) \<and> update_ok p who (\<lambda>u. upd_name u \<in> force_names E p t) u"
  using assms evaluate_updates by (auto simp: policy_gate_def split: if_splits)

lemma permitted_force:
  assumes "permitted p who n op force" "op = OpUpdate \<Longrightarrow> force' \<Longrightarrow> force"
  shows "permitted p who n op force'"
proof -
  have "restricts_op S op force' \<Longrightarrow> restricts_op S op force" for S
    using assms(2) by (cases op) (auto simp: restricts_op_def split: if_splits)
  with assms(1) show ?thesis unfolding permitted_def by blast
qed

lemma permitted_unprotected: "\<not> has_protect p \<Longrightarrow> permitted p who n op force"
  by (auto simp: permitted_def has_protect_def list_ex_iff)

lemma permitted_NoOp: "permitted p who n NoOp force"
  by (simp add: permitted_def restricts_op_def)

lemma update_ok_permits:
  assumes "update_ok p who (\<lambda>u. upd_name u \<in> force_names E p t) u" "u \<in> set (updates t)"
  shows "permitted p who (upd_name u) (classify (old_oid u) (new_oid u))
    (starts_with (upd_name u) ''refs/tags/'' \<or> env_is_ancestor E (old_oid u) (new_oid u) \<noteq> Some True)"
proof (cases "has_protect p")
  case True
  then show ?thesis
    using assms unfolding update_ok_def by (elim permitted_force) (auto simp: force_names_def)
qed (rule permitted_unprotected)

lemma publish_view_cases:
  assumes "bt_ok (overlay v)" "list_all plain_update (updates t)"
  obtains "oid_at (publish_view v t) n = oid_at v n"
  | u r where "u \<in> set (updates t)" "upd_name u = n" "verify_update v u = Some r" "is_ok (snd r)"
      "oid_at (publish_view v t) n = (if is_null_oid (new_oid u) then [] else new_oid u)"
proof (cases "\<exists>rs. verify_updates v (updates t) = Some rs \<and> all_ok rs")
  case True
  then obtain rs where rs: "verify_updates v (updates t) = Some rs" "all_ok rs" by blast
  then have "publish_view v t = foldl apply_update_to_map v (updates t)"
    by (simp add: publish_view_def verify_txn_def apply_txn_to_map_def)
  with oid_at_applied [OF assms, of n] verify_updates_ok [OF rs] that show ?thesis by metis
next
  case False
  then have "publish_view v t = v" by (auto simp: publish_view_def verify_txn_def split: option.splits)
  with that show ?thesis by simp
qed

text \<open>Every published update stems from one of the request that the policy allows.\<close>

lemma gate_source:
  assumes "u \<in> set (updates (fill_peeled peel (ev_publish (policy_gate E p who t))))"
  obtains w where "w \<in> set (updates t)" "update_ok p who (\<lambda>u. upd_name u \<in> force_names E p t) w"
    "upd_name u = upd_name w" "old_oid u = old_oid w" "new_oid u = new_oid w" "plain_update u \<longleftrightarrow> plain_update w"
proof -
  obtain w where "w \<in> set (updates (ev_publish (policy_gate E p who t)))" "upd_name u = upd_name w"
    "old_oid u = old_oid w" "new_oid u = new_oid w" "new_symbolic_target u = new_symbolic_target w"
    using fill_peeled_sound [OF assms] by blast
  with gate_updates [of w E p who t] that [of w] show ?thesis by (simp add: plain_update_def)
qed

lemma normalize_plain: "plain_update (normalize_update u) \<longleftrightarrow> plain_update u"
  by (simp add: normalize_update_def plain_update_def Let_def)

lemma pushed_view_permitted:
  assumes "bt_ok (overlay v)" "list_all plain_update (updates t)" "n \<noteq> ''HEAD''"
  shows "let old = oid_at v n; new = oid_at (pushed_view E p who t v) n in
    permitted p who n (classify old new)
      (starts_with n ''refs/tags/'' \<or> env_is_ancestor E old new \<noteq> Some True)"
proof -
  let ?t = "normalize_txn t"
  let ?q = "fill_peeled (env_peel E) (ev_publish (policy_gate E p who ?t))"
  have plain: "list_all plain_update (updates ?q)"
    using assms(2) by (auto simp: list_all_iff normalize_txn_def normalize_plain elim!: gate_source)
  show ?thesis
  proof (cases "any_allowed (policy_gate E p who ?t)")
    case True
    then have v': "pushed_view E p who t v = publish_view v ?q" by (simp add: pushed_view_def)
    from assms(1) plain show ?thesis
    proof (cases rule: publish_view_cases [where n = n])
      case 1
      then show ?thesis using v' by (simp add: Let_def classify_def permitted_NoOp)
    next
      case (2 u r)
      from 2(1) obtain w where w: "w \<in> set (updates ?t)" "update_ok p who (\<lambda>u. upd_name u \<in> force_names E p ?t) w"
        "upd_name u = upd_name w" "old_oid u = old_oid w" "new_oid u = new_oid w" by (rule gate_source)
      obtain w0 where "w = normalize_update w0" using w(1) by (auto simp: normalize_txn_def)
      note null = normalized_null [OF this]
      have "plain_update u" using plain 2(1) by (simp add: list_all_iff)
      with verify_update_plain [OF 2(3,4)] 2(2) assms(3) null w have "oid_at v n = old_oid w"
        by (auto split: if_splits)
      moreover have "oid_at (pushed_view E p who t v) n = new_oid w" using v' 2(5) null w by auto
      ultimately show ?thesis using update_ok_permits [OF w(2,1)] w(3) 2(2) by (simp add: Let_def)
    qed
  next
    case False
    then show ?thesis by (simp add: pushed_view_def Let_def classify_def permitted_NoOp)
  qed
qed


definition sample_env :: "ref_view push_env" where
  "sample_env = \<lparr>env_ingest = Ok True, env_check_connectivity = True, env_connectivity = (\<lambda>_. Ok ()),
     env_is_ancestor = (\<lambda>a b. Some (length a \<le> length b)), env_policy = Ok policy_empty, env_peel = (\<lambda>_. None),
     env_publish = publish_refs\<rparr>"

definition lock_main :: repo_policy where
  "lock_main = \<lparr>pol_version = 1, pol_groups = [\<lparr>g_name = ''admins'', g_members = [''alice'']\<rparr>],
     pol_rules = [\<lparr>rl_name = ''lock-main'',
       rl_match = \<lparr>m_refs = [''refs/heads/main''], m_principals = [], m_paths = []\<rparr>,
       rl_effect = \<lparr>ef_protect = Some \<lparr>restricts = Some [RDelete, RForcePush], pe_bypass = [''group:admins'']\<rparr>,
         ef_history = None, ef_size = None\<rparr>,
       rl_mode = None\<rparr>]\<rparr>"

definition main_at :: "string \<Rightarrow> ref_view" where
  "main_at o' = view_set ''refs/heads/main'' o' (view_new \<lparr>refs = [], head_target = []\<rparr>)"

definition move_main :: "string \<Rightarrow> string \<Rightarrow> ref_update" where
  "move_main a b = \<lparr>upd_name = ''refs/heads/main'', old_oid = a, new_oid = b, new_symbolic_target = [], new_peeled = []\<rparr>"

lemma sample_push:
  "snd (receive_pack_process (sample_env\<lparr>env_policy := Ok lock_main\<rparr>)
     (normalize_txn \<lparr>updates = [move_main ''ab'' ''abc''], push_options = [], atomic = False\<rparr>) no_caps ''bob'' (main_at ''ab''))
   = apply_update_to_map (main_at ''ab'') (move_main ''ab'' ''abc'')"
proof -
  let ?t = "normalize_txn \<lparr>updates = [move_main ''ab'' ''abc''], push_options = [], atomic = False\<rparr>"
  let ?E = "sample_env\<lparr>env_policy := Ok lock_main\<rparr>"
  let ?ev = "policy_gate ?E lock_main ''bob'' ?t"
  have ev: "any_allowed ?ev" "fill_peeled (env_peel ?E) (ev_publish ?ev) = ?t" by code_simp+
  have t: "updates ?t = [move_main ''ab'' ''abc'']" by code_simp
  have "view_get (main_at ''ab'') ''refs/heads/main'' = Some (Some ''ab'')"
    by (simp add: view_get_other main_at_def view_set_def view_new_def view_oid_def bt_get_Cons)
  then have p: "snd (publish_refs ?t (main_at ''ab'')) = apply_update_to_map (main_at ''ab'') (move_main ''ab'' ''abc'')"
    unfolding publish_refs_state
    by (simp add: publish_view_def verify_txn_def verify_update_def apply_txn_to_map_def move_main_def
        is_null_oid_def all_ok_def normalize_txn_def normalize_update_def is_zero_oid_def Let_def)
  show ?thesis using ev p
    by (cases "publish_refs ?t (main_at ''ab'')") (simp add: receive_pack_process_def sample_env_def Let_def split: sum.split)
qed


text \<open>
  With a deletion and an update of one branch in one push, the refusal of the deletion is
  overwritten by the result of the update: the client is told that both commands succeeded.
\<close>

theorem denied_command_reported_ok:
  "let t = \<lparr>updates = [move_main ''ab'' [], move_main ''ab'' ''abc''], push_options = [], atomic = False\<rparr>;
       ev = policy_gate sample_env lock_main ''bob'' t
   in map (\<lambda>r. is_ok (snd r)) (ev_per_ref ev) = [False, True] \<and>
      updates (ev_publish ev) = [move_main ''ab'' ''abc''] \<and>
      map (\<lambda>r. is_ok (snd r)) (foldl merge_result (ev_per_ref ev) [(''refs/heads/main'', Ok ())]) = [True, True]"
  by code_simp

text \<open>
  A long message on a side band is cut into frames of which only the first names the band: the
  second frame of this one starts with a byte of the text.
\<close>

theorem long_message_loses_band:
  "sideband_pkt 2 (replicate 65516 (CHR ''a'')) =
     Some (frame (char_of (2 :: nat) # replicate 65515 (CHR ''a'')) @ frame [CHR ''a'', CHR 0x0A])"
proof -
  let ?d = "char_of (2 :: nat) # replicate 65516 (CHR ''a'') @ [CHR 0x0A]"
  have "chunks MAX_PKT_DATA ?d = [char_of (2 :: nat) # replicate 65515 (CHR ''a''), [CHR ''a'', CHR 0x0A]]"
    by (simp add: MAX_PKT_DATA_def chunks.simps [of 65516])
  moreover have "\<not> ends_with (replicate 65516 (CHR ''a'')) [CHR 0x0A]"
    by (auto simp: ends_with_def suffix_def dest!: arg_cong [where f = last])
  ultimately show ?thesis
    by (simp add: sideband_pkt_def Let_def encode_line_frame MAX_PKT_DATA_def)
qed

section \<open>One answer per command\<close>

text \<open>
  With distinct names every command keeps its place in the report: the refusals of the policy stay,
  and the published updates carry the results of the publisher.
\<close>

lemma merge_result_update:
  "fst r \<in> fst ` set rs \<Longrightarrow> distinct (map fst rs) \<Longrightarrow>
   merge_result rs r = map (\<lambda>s. if fst s = fst r then (fst s, snd r) else s) rs"
proof (induction rs)
  case (Cons s ss)
  show ?case
  proof (cases "fst s = fst r")
    case True
    then have "map (\<lambda>s. if fst s = fst r then (fst s, snd r) else s) ss = ss"
      using Cons.prems(2) by (intro map_idI) (force simp: image_iff)
    with True show ?thesis by simp
  next
    case False
    then show ?thesis using Cons by auto
  qed
qed simp

lemma merge_results_lookup:
  "list_all (\<lambda>r. fst r \<in> fst ` set rs) us \<Longrightarrow> distinct (map fst rs) \<Longrightarrow> distinct (map fst us) \<Longrightarrow>
   foldl merge_result rs us = map (\<lambda>s. case map_of us (fst s) of None \<Rightarrow> s | Some x \<Rightarrow> (fst s, x)) rs"
proof (induction us arbitrary: rs)
  case (Cons r us)
  let ?rs = "map (\<lambda>s. if fst s = fst r then (fst s, snd r) else s) rs"
  have names: "map fst ?rs = map fst rs" by (simp add: comp_def if_distrib cong: if_cong)
  then have "fst ` set ?rs = fst ` set rs" by (metis list.set_map)
  then have "list_all (\<lambda>r. fst r \<in> fst ` set ?rs) us" using Cons.prems(1) by simp
  with Cons.prems names have "foldl merge_result ?rs us = map (\<lambda>s. case map_of us (fst s) of None \<Rightarrow> s | Some x \<Rightarrow> (fst s, x)) ?rs"
    by (intro Cons.IH) (simp_all only: distinct.simps list.map)
  moreover have "map_of us (fst r) = None" using Cons.prems(3) by (simp add: map_of_eq_None_iff)
  ultimately show ?case using Cons.prems by (auto simp: merge_result_update split: option.split)
qed simp

section \<open>The stored policy\<close>

lemma load_policy_mem:
  "load_policy mem_ops c rid s =
     (case mem_view s (policy_key (ri_owner rid) (ri_name rid)) of
        None \<Rightarrow> Ok policy_empty | Some (_, b) \<Rightarrow> parse_policy c b, s)"
proof -
  have "load_policy mem_ops c rid s =
      (case get_bytes mem_ops s (policy_key (ri_owner rid) (ri_name rid)) of
         (Inl e, s') \<Rightarrow> (Err e, s')
       | (Inr None, s') \<Rightarrow> (Ok policy_empty, s')
       | (Inr (Some (_, b)), s') \<Rightarrow> (parse_policy c b, s'))"
    by (auto simp: load_policy_def get_bytes_def split: prod.splits sum.splits option.splits)
  then show ?thesis by (simp add: get_bytes_mem split: option.splits)
qed

text \<open>
  A saved policy is the one the next push loads, whatever else is in the bucket, and after it is
  cleared every push is allowed; a document that fails its checks is never stored.
\<close>

theorem policy_save_load:
  assumes "mem_inv s" "pc_decode c (pc_encode c p) = Some p"
  shows "fst (load_policy mem_ops c rid (snd (save_policy mem_ops c rid p s))) =
      (if validate_policy p = Ok () then Ok p else fst (load_policy mem_ops c rid s)) \<and>
    fst (load_policy mem_ops c rid (snd (clear_policy mem_ops rid s))) = Ok policy_empty"
proof -
  let ?k = "policy_key (ri_owner rid) (ri_name rid)"
  have "bt_ok (objects s)" using assms(1) by (simp add: mem_inv_def)
  then have "mem_view (snd (clear_policy mem_ops rid s)) ?k = None"
    by (auto simp: clear_policy_def mem_delete_def mem_view_def split: option.splits prod.splits)
  moreover have "mem_view (snd (save_policy mem_ops c rid p s)) ?k =
      (if validate_policy p = Ok () then Some (Suc (counter s), pc_encode c p) else mem_view s ?k)"
    using \<open>bt_ok (objects s)\<close>
    by (auto simp: save_policy_def put_bytes_def mem_put_def next_version_def mem_view_def sbind_def split: sum.splits)
  ultimately show ?thesis
    using assms(2) by (auto simp: load_policy_mem parse_policy_def split: sum.splits)
qed

definition table_codec :: "nat policy_codec" where
  "table_codec = \<lparr>pc_encode = (\<lambda>_. [7]), pc_decode = (\<lambda>_. Some lock_main)\<rparr>"

theorem policy_save_load_witness:
  "fst (load_policy mem_ops table_codec \<lparr>ri_owner = ''o'', ri_name = ''r''\<rparr>
     (snd (save_policy mem_ops table_codec \<lparr>ri_owner = ''o'', ri_name = ''r''\<rparr> lock_main mem_empty))) = Ok lock_main"
proof -
  have "validate_policy lock_main = Ok ()" by code_simp
  moreover have "mem_inv mem_empty" by (simp add: mem_inv_def mem_empty_def mem_view_def)
  ultimately show ?thesis
    using policy_save_load [of mem_empty table_codec lock_main "\<lparr>ri_owner = ''o'', ri_name = ''r''\<rparr>"]
    by (simp add: table_codec_def)
qed

end
