(* ===== verification/Fetch.thy ===== *)
theory Fetch
  imports Receive
begin

text \<open>
  The requests of a fetch (\<^verbatim>\<open>walgit-git/src/lib.rs\<close>, \<^verbatim>\<open>walgit-server/src/smart.rs\<close>): the server parses the
  body of the \<open>fetch\<close> command into a request, decides whether to serve it, and hands git the request
  written out again.  Object ids and their hexadecimal form are those of the library that defines
  them: \<open>from_hex\<close> and \<open>to_hex\<close> are parameters.
\<close>

section \<open>UTF-8\<close>

definition utf8_char :: "string \<Rightarrow> bool" where
  "utf8_char w =
     (case w of
        [a] \<Rightarrow> utf8_width a = 1
      | [a, b] \<Rightarrow> utf8_width a = 2 \<and> second_ok a b
      | [a, b, c] \<Rightarrow> utf8_width a = 3 \<and> second_ok a b \<and> within 128 191 c
      | [a, b, c, d] \<Rightarrow> utf8_width a = 4 \<and> second_ok a b \<and> within 128 191 c \<and> within 128 191 d
      | _ \<Rightarrow> False)"

inductive utf8_text :: "string \<Rightarrow> bool" where
  utf8_Nil [intro, simp]: "utf8_text []"
| utf8_Cons: "utf8_char w \<Longrightarrow> utf8_text s \<Longrightarrow> utf8_text (w @ s)"

inductive_cases utf8_textE: "utf8_text s"

lemma utf8_char_cases:
  assumes "utf8_char w"
  obtains a where "w = [a]" "utf8_width a = 1"
  | a b where "w = [a, b]" "utf8_width a = 2" "second_ok a b"
  | a b c where "w = [a, b, c]" "utf8_width a = 3" "second_ok a b" "within 128 191 c"
  | a b c d where "w = [a, b, c, d]" "utf8_width a = 4" "second_ok a b" "within 128 191 c" "within 128 191 d"
  using assms unfolding utf8_char_def by (auto split: list.splits)

lemma utf8_width_le: "utf8_width a \<le> 4"
  by (simp add: utf8_width_def)

lemma second_high: "second_ok a b \<Longrightarrow> within 128 191 b"
  by (auto simp: second_ok_def within_def split: if_splits)

lemma utf8_intros:
  "utf8_width a = 1 \<Longrightarrow> utf8_text s \<Longrightarrow> utf8_text (a # s)"
  "utf8_width a = 2 \<Longrightarrow> second_ok a b \<Longrightarrow> utf8_text s \<Longrightarrow> utf8_text (a # b # s)"
  "utf8_width a = 3 \<Longrightarrow> second_ok a b \<Longrightarrow> within 128 191 c \<Longrightarrow> utf8_text s \<Longrightarrow> utf8_text (a # b # c # s)"
  "utf8_width a = 4 \<Longrightarrow> second_ok a b \<Longrightarrow> within 128 191 c \<Longrightarrow> within 128 191 d \<Longrightarrow> utf8_text s \<Longrightarrow>
     utf8_text (a # b # c # d # s)"
  using utf8_Cons [of "[a]" s] utf8_Cons [of "[a, b]" s] utf8_Cons [of "[a, b, c]" s]
    utf8_Cons [of "[a, b, c, d]" s] by (simp_all add: utf8_char_def)

lemma utf8_replacement: "utf8_text s \<Longrightarrow> utf8_text (replacement @ s)"
  unfolding replacement_def by (simp, rule utf8_intros) (simp_all add: utf8_width_def second_ok_def within_def byte_def)

lemma utf8_four: "\<not> utf8_width a \<le> 1 \<Longrightarrow> utf8_width a \<noteq> 2 \<Longrightarrow> utf8_width a \<noteq> 3 \<Longrightarrow> utf8_width a = 4"
  using utf8_width_le [of a] by linarith

lemmas utf8_steps = utf8_intros utf8_replacement utf8_replacement [of "[]", simplified]

lemma utf8_lossy_text: "utf8_text (utf8_lossy s)"
proof (induction s rule: utf8_lossy.induct)
  case (5 a b c d r)
  then show ?case using utf8_four [of a] by (simp add: utf8_steps)
qed (simp_all add: utf8_steps)

lemma list_three:
  obtains "s = []" | x where "s = [x]" | x y where "s = [x, y]" | x y z r where "s = x # y # z # r"
  by (metis neq_Nil_conv)

lemma utf8_lossy_char:
  assumes "utf8_char w"
  shows "utf8_lossy (w @ s) = w @ utf8_lossy s"
  using assms by (cases rule: utf8_char_cases; cases s rule: list_three) simp_all

lemma utf8_lossy_id: "utf8_text s \<Longrightarrow> utf8_lossy s = s"
  by (induction rule: utf8_text.induct) (simp_all add: utf8_lossy_char)

lemma utf8_append: "utf8_text s \<Longrightarrow> utf8_text t \<Longrightarrow> utf8_text (s @ t)"
  by (induction rule: utf8_text.induct) (simp_all add: utf8_Cons)

definition ascii :: "string \<Rightarrow> bool" where
  "ascii s \<longleftrightarrow> list_all (within 0 127) s"

lemma ascii_width: "within 0 127 c \<longleftrightarrow> utf8_width c = 1"
  by (auto simp: utf8_width_def within_def)

lemma ascii_text: "ascii s \<Longrightarrow> utf8_text s"
  by (induction s) (simp_all add: ascii_def ascii_width utf8_intros)

lemma utf8_strip_char:
  assumes "utf8_text (c # t)" "utf8_width c = 1"
  shows "utf8_text t"
proof -
  obtain w s where w: "c # t = w @ s" "utf8_char w" "utf8_text s" using assms(1) by (auto elim: utf8_textE)
  from w(2) show ?thesis using w(1,3) assms(2) by (cases rule: utf8_char_cases) simp_all
qed

lemma utf8_strip: "ascii p \<Longrightarrow> utf8_text (p @ t) \<Longrightarrow> utf8_text t"
  by (induction p) (auto simp: ascii_def ascii_width dest: utf8_strip_char)

lemma utf8_butlast:
  assumes "utf8_text u" "u = s @ [c]" "utf8_width c = 1"
  shows "utf8_text s"
  using assms(1,2)
proof (induction arbitrary: s rule: utf8_text.induct)
  case (utf8_Cons w v)
  have low: "\<not> within 128 191 c" using assms(3) by (auto simp: utf8_width_def within_def split: if_splits)
  show ?case
  proof (cases v rule: rev_cases)
    case Nil
    from utf8_Cons(1) show ?thesis using Nil utf8_Cons(4) low
      by (cases rule: utf8_char_cases) (auto dest: second_high)
  next
    case (snoc v' x)
    then show ?thesis using utf8_Cons(1,4) utf8_Cons(3) [of v'] utf8_text.utf8_Cons by auto
  qed
qed simp

lemma utf8_trim: "utf8_text s \<Longrightarrow> utf8_text (trim_newlines s)"
proof (induction s rule: rev_induct)
  case (snoc c s)
  have "utf8_text s" if "c = CHR 0x0A"
    using utf8_butlast [OF snoc(2) refl] that by (simp add: utf8_width_def within_def byte_def)
  then show ?case using snoc by (simp add: trim_newlines_def)
qed (simp add: trim_newlines_def)

section \<open>Requests\<close>

datatype service = UploadPack | ReceivePack

definition service_from_str :: "string \<Rightarrow> (git_error, service) result" where
  "service_from_str s =
     (if s = ''git-upload-pack'' then Ok UploadPack
      else if s = ''git-receive-pack'' then Ok ReceivePack
      else Err (InvalidInput (''unknown service '' @ s)))"

fun service_as_str :: "service \<Rightarrow> string" where
  "service_as_str UploadPack = ''git-upload-pack''"
| "service_as_str ReceivePack = ''git-receive-pack''"

record 'o fetch_request =
  fr_wants :: "'o list"
  fr_haves :: "'o list"
  fr_done :: bool
  fr_thin_pack :: bool
  fr_no_progress :: bool
  fr_include_tag :: bool
  fr_ofs_delta :: bool
  fr_sideband_all :: bool
  fr_wait_for_done :: bool
  fr_filter :: "string option"
  fr_deepen :: "nat option"
  fr_deepen_since :: "int option"
  fr_deepen_not :: "string list"
  fr_shallow :: "'o list"
  fr_want_refs :: "string list"
  fr_packfile_uris :: "string list"

definition no_fetch :: "'o fetch_request" where
  "no_fetch =
     \<lparr>fr_wants = [], fr_haves = [], fr_done = False, fr_thin_pack = False, fr_no_progress = False,
      fr_include_tag = False, fr_ofs_delta = False, fr_sideband_all = False, fr_wait_for_done = False,
      fr_filter = None, fr_deepen = None, fr_deepen_since = None, fr_deepen_not = [], fr_shallow = [],
      fr_want_refs = [], fr_packfile_uris = []\<rparr>"

definition push_oid :: "'o option \<Rightarrow> 'o list \<Rightarrow> 'o list" where
  "push_oid o' xs = (case o' of None \<Rightarrow> xs | Some x \<Rightarrow> xs @ [x])"

definition parse_fetch_line :: "(string \<Rightarrow> 'o option) \<Rightarrow> 'o fetch_request \<Rightarrow> string \<Rightarrow> 'o fetch_request" where
  "parse_fetch_line from_hex q s =
     (case strip_prefix ''want '' s of Some hex \<Rightarrow> q\<lparr>fr_wants := push_oid (from_hex hex) (fr_wants q)\<rparr> | None \<Rightarrow>
      (case strip_prefix ''have '' s of Some hex \<Rightarrow> q\<lparr>fr_haves := push_oid (from_hex hex) (fr_haves q)\<rparr> | None \<Rightarrow>
       (if s = ''done'' then q\<lparr>fr_done := True\<rparr>
        else if s = ''thin-pack'' then q\<lparr>fr_thin_pack := True\<rparr>
        else if s = ''no-progress'' then q\<lparr>fr_no_progress := True\<rparr>
        else if s = ''include-tag'' then q\<lparr>fr_include_tag := True\<rparr>
        else if s = ''ofs-delta'' then q\<lparr>fr_ofs_delta := True\<rparr>
        else if s = ''sideband-all'' then q\<lparr>fr_sideband_all := True\<rparr>
        else if s = ''wait-for-done'' then q\<lparr>fr_wait_for_done := True\<rparr>
        else case strip_prefix ''filter '' s of Some spec \<Rightarrow> q\<lparr>fr_filter := Some spec\<rparr> | None \<Rightarrow>
         (case strip_prefix ''deepen '' s of Some n \<Rightarrow> q\<lparr>fr_deepen := parse_unsigned (2 ^ 32) n\<rparr> | None \<Rightarrow>
          (case strip_prefix ''deepen-since '' s of Some t \<Rightarrow> q\<lparr>fr_deepen_since := parse_signed (2 ^ 63) t\<rparr> | None \<Rightarrow>
           (case strip_prefix ''deepen-not '' s of Some r \<Rightarrow> q\<lparr>fr_deepen_not := fr_deepen_not q @ [r]\<rparr> | None \<Rightarrow>
            (case strip_prefix ''shallow '' s of
               Some hex \<Rightarrow> q\<lparr>fr_shallow := push_oid (from_hex hex) (fr_shallow q)\<rparr> | None \<Rightarrow>
             (case strip_prefix ''want-ref '' s of Some r \<Rightarrow> q\<lparr>fr_want_refs := fr_want_refs q @ [r]\<rparr> | None \<Rightarrow>
              (case strip_prefix ''packfile-uris '' s of
                 Some p \<Rightarrow> q\<lparr>fr_packfile_uris := split_on (\<lambda>c. c = CHR '' '') p\<rparr> | None \<Rightarrow> q)))))))))"

definition parse_fetch_request ::
  "(string \<Rightarrow> 'o option) \<Rightarrow> reader \<Rightarrow> (git_error, 'o fetch_request) result \<times> reader" where
  "parse_fetch_request from_hex r =
     line_loop (\<lambda>_. True) (\<lambda>q b. Ok (parse_fetch_line from_hex q (trim_newlines (utf8_lossy b)))) no_fetch r"

fun join_sep :: "string \<Rightarrow> string list \<Rightarrow> string" where
  "join_sep sep [] = []"
| "join_sep sep [x] = x"
| "join_sep sep (x # y # r) = x @ sep @ join_sep sep (y # r)"

definition flag_line :: "bool \<Rightarrow> string \<Rightarrow> string list" where
  "flag_line b s = (if b then [s @ [CHR 0x0A]] else [])"

definition text_line :: "string \<Rightarrow> string \<Rightarrow> string" where
  "text_line key v = key @ v @ [CHR 0x0A]"

definition fetch_lines :: "('o \<Rightarrow> string) \<Rightarrow> 'o fetch_request \<Rightarrow> string list" where
  "fetch_lines to_hex q =
     flag_line (fr_thin_pack q) ''thin-pack'' @ flag_line (fr_ofs_delta q) ''ofs-delta'' @
     flag_line (fr_no_progress q) ''no-progress'' @ flag_line (fr_include_tag q) ''include-tag'' @
     flag_line (fr_sideband_all q) ''sideband-all'' @ flag_line (fr_wait_for_done q) ''wait-for-done'' @
     (case fr_filter q of None \<Rightarrow> [] | Some f \<Rightarrow> [text_line ''filter '' f]) @
     map (\<lambda>w. text_line ''want '' (to_hex w)) (fr_wants q) @
     map (\<lambda>h. text_line ''have '' (to_hex h)) (fr_haves q) @
     map (\<lambda>h. text_line ''shallow '' (to_hex h)) (fr_shallow q) @
     (case fr_deepen q of None \<Rightarrow> [] | Some d \<Rightarrow> [text_line ''deepen '' (dec d)]) @
     (case fr_deepen_since q of None \<Rightarrow> [] | Some t \<Rightarrow> [text_line ''deepen-since '' (dec_int t)]) @
     map (text_line ''deepen-not '') (fr_deepen_not q) @
     map (text_line ''want-ref '') (fr_want_refs q) @
     (if fr_packfile_uris q \<noteq> [] then [text_line ''packfile-uris '' (join_sep '' '' (fr_packfile_uris q))] else []) @
     flag_line (fr_done q) ''done''"

definition build_v2_fetch_request :: "('o \<Rightarrow> string) \<Rightarrow> 'o fetch_request \<Rightarrow> string" where
  "build_v2_fetch_request to_hex q =
     encode_data (''command=fetch'' @ [CHR 0x0A]) @ write_delim @
     concat (map encode_data (fetch_lines to_hex q)) @ write_flush"

section \<open>A request that is written is read back\<close>

text \<open>What is relied on of the hexadecimal form of object ids.\<close>

definition hex_codec :: "(string \<Rightarrow> 'o option) \<Rightarrow> ('o \<Rightarrow> string) \<Rightarrow> bool" where
  "hex_codec from_hex to_hex \<longleftrightarrow>
     (\<forall>x. from_hex (to_hex x) = Some x \<and> list_all is_ascii_hexdigit (to_hex x) \<and> length (to_hex x) \<le> 64)"

text \<open>A text that fits on a line: UTF-8 that does not end in a newline.\<close>

definition line_text :: "string \<Rightarrow> bool" where
  "line_text t \<longleftrightarrow> utf8_text t \<and> (t = [] \<or> last t \<noteq> CHR 0x0A)"

definition fetch_ok :: "'o fetch_request \<Rightarrow> bool" where
  "fetch_ok q \<longleftrightarrow>
     (case fr_filter q of None \<Rightarrow> True | Some f \<Rightarrow> line_text f) \<and>
     (case fr_deepen q of None \<Rightarrow> True | Some d \<Rightarrow> d < 2 ^ 32) \<and>
     (case fr_deepen_since q of None \<Rightarrow> True | Some t \<Rightarrow> - (2 ^ 63) \<le> t \<and> t < 2 ^ 63) \<and>
     list_all line_text (fr_deepen_not q) \<and> list_all line_text (fr_want_refs q) \<and>
     list_all (\<lambda>p. CHR '' '' \<notin> set p) (fr_packfile_uris q) \<and> line_text (join_sep '' '' (fr_packfile_uris q))"

lemma trim_newlines_snoc: "s = [] \<or> last s \<noteq> CHR 0x0A \<Longrightarrow> trim_newlines (s @ [CHR 0x0A]) = s"
  using trim_newlines_id [of s] by (cases "s = []") (simp_all add: trim_newlines_def)

lemma line_text_back:
  assumes "ascii p" "p \<noteq> []" "last p \<noteq> CHR 0x0A" "line_text t"
  shows "trim_newlines (utf8_lossy (p @ t @ [CHR 0x0A])) = p @ t"
proof -
  have "utf8_text [CHR 0x0A]" by (rule ascii_text) (simp add: ascii_def within_def byte_def)
  then have "utf8_text (p @ t @ [CHR 0x0A])" using assms ascii_text utf8_append by (auto simp: line_text_def)
  then have "utf8_lossy (p @ t @ [CHR 0x0A]) = (p @ t) @ [CHR 0x0A]" by (simp add: utf8_lossy_id)
  moreover have "last (p @ t) \<noteq> CHR 0x0A" using assms by (auto simp: line_text_def last_append)
  ultimately show ?thesis using trim_newlines_snoc [of "p @ t"] by simp
qed

lemma flag_back: "ascii p \<Longrightarrow> p \<noteq> [] \<Longrightarrow> last p \<noteq> CHR 0x0A \<Longrightarrow> trim_newlines (utf8_lossy (p @ [CHR 0x0A])) = p"
  using line_text_back [of p "[]"] by (simp add: line_text_def)

lemma hexdigit_ascii: "is_ascii_hexdigit c \<Longrightarrow> within 0 127 c \<and> c \<noteq> CHR 0x0A"
  by (auto simp: is_ascii_hexdigit_def within_def byte_def less_eq_char_def)

lemma ascii_line: "ascii s \<Longrightarrow> s = [] \<or> last s \<noteq> CHR 0x0A \<Longrightarrow> line_text s"
  by (simp add: line_text_def ascii_text)

lemma hex_line: "list_all is_ascii_hexdigit s \<Longrightarrow> line_text s"
  by (rule ascii_line) (auto simp: ascii_def list_all_iff dest: hexdigit_ascii last_in_set)

lemma dec_hex: "list_all is_ascii_hexdigit (dec n)"
proof -
  have "\<forall>c\<in>set ''0123456789''. is_ascii_hexdigit c" by code_simp
  then show ?thesis unfolding list_all_iff using dec_digits [of n] by blast
qed

lemma dec_int_line: "line_text (dec_int i)"
proof (cases "i < 0")
  case True
  have "line_text (dec (nat (- i)))" using dec_hex hex_line by blast
  then show ?thesis using True utf8_append [of "''-''"] dec_is_digits(2) [of "nat (- i)"]
    by (simp add: dec_int_def line_text_def utf8_intros utf8_width_def within_def byte_def)
next
  case False
  then show ?thesis using dec_hex hex_line by (simp add: dec_int_def)
qed

definition fetch_step :: "(string \<Rightarrow> 'o option) \<Rightarrow> 'o fetch_request \<Rightarrow> string \<Rightarrow> 'o fetch_request" where
  "fetch_step from_hex q b = parse_fetch_line from_hex q (trim_newlines (utf8_lossy b))"

lemma fetch_step_text:
  assumes "line_text v" "ascii k" "k \<noteq> []" "last k \<noteq> CHR 0x0A"
  shows "fetch_step from_hex q (text_line k v) = parse_fetch_line from_hex q (k @ v)"
  using line_text_back [OF assms(2-4,1)] by (simp add: fetch_step_def text_line_def)

lemma fetch_step_flag:
  assumes "ascii k" "k \<noteq> []" "last k \<noteq> CHR 0x0A"
  shows "foldl (fetch_step from_hex) q (flag_line b k) = (if b then parse_fetch_line from_hex q k else q)"
  using flag_back [OF assms] by (simp add: fetch_step_def flag_line_def)

lemmas line_defs = parse_fetch_line_def strip_prefix_def ascii_def within_def byte_def

lemma fetch_flags:
  "foldl (fetch_step from_hex) q (flag_line b ''thin-pack'') = q\<lparr>fr_thin_pack := fr_thin_pack q \<or> b\<rparr>"
  "foldl (fetch_step from_hex) q (flag_line b ''ofs-delta'') = q\<lparr>fr_ofs_delta := fr_ofs_delta q \<or> b\<rparr>"
  "foldl (fetch_step from_hex) q (flag_line b ''no-progress'') = q\<lparr>fr_no_progress := fr_no_progress q \<or> b\<rparr>"
  "foldl (fetch_step from_hex) q (flag_line b ''include-tag'') = q\<lparr>fr_include_tag := fr_include_tag q \<or> b\<rparr>"
  "foldl (fetch_step from_hex) q (flag_line b ''sideband-all'') = q\<lparr>fr_sideband_all := fr_sideband_all q \<or> b\<rparr>"
  "foldl (fetch_step from_hex) q (flag_line b ''wait-for-done'') = q\<lparr>fr_wait_for_done := fr_wait_for_done q \<or> b\<rparr>"
  "foldl (fetch_step from_hex) q (flag_line b ''done'') = q\<lparr>fr_done := fr_done q \<or> b\<rparr>"
  by (subst fetch_step_flag; simp add: line_defs)+

lemma fetch_texts:
  assumes "line_text v"
  shows "fetch_step from_hex q (text_line ''want '' v) = q\<lparr>fr_wants := push_oid (from_hex v) (fr_wants q)\<rparr>"
    and "fetch_step from_hex q (text_line ''have '' v) = q\<lparr>fr_haves := push_oid (from_hex v) (fr_haves q)\<rparr>"
    and "fetch_step from_hex q (text_line ''shallow '' v) = q\<lparr>fr_shallow := push_oid (from_hex v) (fr_shallow q)\<rparr>"
    and "fetch_step from_hex q (text_line ''filter '' v) = q\<lparr>fr_filter := Some v\<rparr>"
    and "fetch_step from_hex q (text_line ''deepen '' v) = q\<lparr>fr_deepen := parse_unsigned (2 ^ 32) v\<rparr>"
    and "fetch_step from_hex q (text_line ''deepen-since '' v) = q\<lparr>fr_deepen_since := parse_signed (2 ^ 63) v\<rparr>"
    and "fetch_step from_hex q (text_line ''deepen-not '' v) = q\<lparr>fr_deepen_not := fr_deepen_not q @ [v]\<rparr>"
    and "fetch_step from_hex q (text_line ''want-ref '' v) = q\<lparr>fr_want_refs := fr_want_refs q @ [v]\<rparr>"
    and "fetch_step from_hex q (text_line ''packfile-uris '' v) =
           q\<lparr>fr_packfile_uris := split_on (\<lambda>c. c = CHR '' '') v\<rparr>"
  using assms by (subst fetch_step_text; simp add: line_defs)+

lemma fold_oids:
  assumes "hex_codec from_hex to_hex"
  shows "foldl (fetch_step from_hex) q (map (\<lambda>w. text_line ''want '' (to_hex w)) ws) = q\<lparr>fr_wants := fr_wants q @ ws\<rparr>"
    and "foldl (fetch_step from_hex) q (map (\<lambda>w. text_line ''have '' (to_hex w)) ws) = q\<lparr>fr_haves := fr_haves q @ ws\<rparr>"
    and "foldl (fetch_step from_hex) q (map (\<lambda>w. text_line ''shallow '' (to_hex w)) ws) =
           q\<lparr>fr_shallow := fr_shallow q @ ws\<rparr>"
  using assms unfolding hex_codec_def
  by (induction ws arbitrary: q) (simp_all add: fetch_texts hex_line push_oid_def)

lemma fold_names:
  assumes "list_all line_text rs"
  shows "foldl (fetch_step from_hex) q (map (text_line ''deepen-not '') rs) = q\<lparr>fr_deepen_not := fr_deepen_not q @ rs\<rparr>"
    and "foldl (fetch_step from_hex) q (map (text_line ''want-ref '') rs) = q\<lparr>fr_want_refs := fr_want_refs q @ rs\<rparr>"
  using assms by (induction rs arbitrary: q) (simp_all add: fetch_texts)

lemma split_on_Cons: "split_on p (c # s) = (if p c then [] # split_on p s else (c # hd (split_on p s)) # tl (split_on p s))"
  by (simp add: split_on_def)

lemma split_on_Nil [simp]: "split_on p [] = [[]]"
  by (simp add: split_on_def)

lemma split_on_word: "CHR '' '' \<notin> set x \<Longrightarrow> split_on (\<lambda>c. c = CHR '' '') x = [x]"
  by (induction x) (auto simp: split_on_Cons)

lemma split_on_word_sep:
  "CHR '' '' \<notin> set x \<Longrightarrow> split_on (\<lambda>c. c = CHR '' '') (x @ CHR '' '' # s) = x # split_on (\<lambda>c. c = CHR '' '') s"
  by (induction x) (auto simp: split_on_Cons)

lemma split_join:
  "list_all (\<lambda>p. CHR '' '' \<notin> set p) xs \<Longrightarrow> xs \<noteq> [] \<Longrightarrow> split_on (\<lambda>c. c = CHR '' '') (join_sep '' '' xs) = xs"
  by (induction "'' ''" xs rule: join_sep.induct) (simp_all add: split_on_word split_on_word_sep)

lemma fold_options:
  assumes "fetch_ok p"
  shows "foldl (fetch_step from_hex) q (case fr_filter p of None \<Rightarrow> [] | Some f \<Rightarrow> [text_line ''filter '' f]) =
           q\<lparr>fr_filter := if fr_filter p = None then fr_filter q else fr_filter p\<rparr>" (is ?filter)
    and "foldl (fetch_step from_hex) q (case fr_deepen p of None \<Rightarrow> [] | Some d \<Rightarrow> [text_line ''deepen '' (dec d)]) =
           q\<lparr>fr_deepen := if fr_deepen p = None then fr_deepen q else fr_deepen p\<rparr>" (is ?deepen)
    and "foldl (fetch_step from_hex) q
           (case fr_deepen_since p of None \<Rightarrow> [] | Some t \<Rightarrow> [text_line ''deepen-since '' (dec_int t)]) =
           q\<lparr>fr_deepen_since := if fr_deepen_since p = None then fr_deepen_since q else fr_deepen_since p\<rparr>" (is ?since)
    and "foldl (fetch_step from_hex) q
           (if fr_packfile_uris p \<noteq> [] then [text_line ''packfile-uris '' (join_sep '' '' (fr_packfile_uris p))] else []) =
           q\<lparr>fr_packfile_uris := if fr_packfile_uris p = [] then fr_packfile_uris q else fr_packfile_uris p\<rparr>" (is ?uris)
proof -
  show ?filter using assms by (cases "fr_filter p") (simp_all add: fetch_ok_def fetch_texts)
  show ?deepen using assms dec_hex hex_line by (cases "fr_deepen p") (simp_all add: fetch_ok_def fetch_texts)
  show ?since using assms by (cases "fr_deepen_since p") (simp_all add: fetch_ok_def fetch_texts dec_int_line)
  show ?uris using assms by (cases "fr_packfile_uris p = []") (simp_all add: fetch_ok_def fetch_texts split_join)
qed

lemma fetch_ok_names: "fetch_ok q \<Longrightarrow> list_all line_text (fr_deepen_not q) \<and> list_all line_text (fr_want_refs q)"
  by (simp add: fetch_ok_def)

lemma fetch_lines_back:
  assumes "hex_codec from_hex to_hex" "fetch_ok q"
  shows "foldl (fetch_step from_hex) no_fetch (fetch_lines to_hex q) = q"
proof -
  note names = fetch_ok_names [OF assms(2)]
  have "foldl (fetch_step from_hex) no_fetch (fetch_lines to_hex q) =
    \<lparr>fr_wants = fr_wants q, fr_haves = fr_haves q, fr_done = fr_done q, fr_thin_pack = fr_thin_pack q,
     fr_no_progress = fr_no_progress q, fr_include_tag = fr_include_tag q, fr_ofs_delta = fr_ofs_delta q,
     fr_sideband_all = fr_sideband_all q, fr_wait_for_done = fr_wait_for_done q, fr_filter = fr_filter q, fr_deepen = fr_deepen q,
     fr_deepen_since = fr_deepen_since q, fr_deepen_not = fr_deepen_not q, fr_shallow = fr_shallow q,
     fr_want_refs = fr_want_refs q, fr_packfile_uris = fr_packfile_uris q\<rparr>"
    by (simp add: fetch_lines_def fetch_flags fold_options [OF assms(2)] fold_oids [OF assms(1)] fold_names [OF conjunct1 [OF names]]
        fold_names [OF conjunct2 [OF names]] no_fetch_def del: foldl.simps split del: if_split option.split cong: if_cong)
  then show ?thesis by simp
qed

lemma next_line_delim [simp]: "next_line (write_delim @ s) = (Ok (Some PDelim), s)"
  by (simp add: next_line_def write_delim_def parse_pkt_len_def hex_value_def within_def byte_def)

lemma try_fold_total: "try_fold (\<lambda>a b. Ok (g a b)) acc bs = Ok (foldl g acc bs)"
  by (induction bs arbitrary: acc) simp_all

lemma command_fetch_line:
  "command_line (c, b) (''command=fetch'' @ [CHR 0x0A]) = Ok (c\<lparr>cmd_name := ''fetch''\<rparr>, True)"
proof -
  have "utf8_lossy (''command=fetch'' @ [CHR 0x0A]) = ''command=fetch'' @ [CHR 0x0A]" by code_simp
  moreover have "trim_end (''command=fetch'' @ [CHR 0x0A]) = ''command=fetch''" by code_simp
  ultimately show ?thesis by (simp add: command_line_def strip_prefix_def)
qed

lemma read_command_fetch:
  assumes "sound r" "flat r = encode_data (''command=fetch'' @ [CHR 0x0A]) @ write_delim @ s"
  obtains cmd r' where "read_command r = (Ok cmd, r')" "cmd_name cmd = ''fetch''" "sound r'" "flat r' = s"
proof -
  let ?c = "\<lparr>cmd_name = [], cmd_caps = [], cmd_args = []\<rparr>"
  obtain r1 where r1: "line_loop (\<lambda>_. True) command_line (?c, False) r =
      line_loop (\<lambda>_. True) command_line (?c\<lparr>cmd_name := ''fetch''\<rparr>, True) r1" "sound r1" "flat r1 = write_delim @ s"
    using line_loop_frame [OF assms(1), of "''command=fetch'' @ [CHR 0x0A]" "write_delim @ s" command_line
        "(?c, False)" "(?c\<lparr>cmd_name := ''fetch''\<rparr>, True)" "\<lambda>_. True"] assms(2) command_fetch_line
    by (auto simp: encode_data_frame fits_def)
  obtain r2 where "line_loop (\<lambda>_. True) command_line (?c\<lparr>cmd_name := ''fetch''\<rparr>, True) r1 =
      (Ok (?c\<lparr>cmd_name := ''fetch''\<rparr>, True), r2)" "sound r2" "flat r2 = s"
    using line_loop_stop [OF r1(2), of PDelim s "\<lambda>_. True" command_line "(?c\<lparr>cmd_name := ''fetch''\<rparr>, True)"] r1(3)
    by (auto simp del: v2_command.simps)
  with r1(1) that show ?thesis by (simp add: read_command_def)
qed

lemma parse_fetch_lines:
  assumes "hex_codec from_hex to_hex" "fetch_ok q" "list_all fits (fetch_lines to_hex q)"
    and "sound r" "flat r = concat (map encode_data (fetch_lines to_hex q)) @ write_flush @ s"
  shows "\<exists>r'. parse_fetch_request from_hex r = (Ok q, r') \<and> sound r' \<and> flat r' = s"
proof -
  have "try_fold (\<lambda>q b. Ok (fetch_step from_hex q b)) no_fetch (fetch_lines to_hex q) = Ok q"
    by (simp add: try_fold_total fetch_lines_back [OF assms(1,2)])
  from line_loop_section [OF assms(4) _ assms(3) this, of s "\<lambda>_. True"] assms(5)
  show ?thesis by (simp add: parse_fetch_request_def fetch_step_def encode_data_frame)
qed

text \<open>An invariant of what the lines are folded into holds at the end.\<close>

lemma line_loop_invariant:
  assumes "line_loop stop f acc r = (Ok acc', r')" "P acc"
    and "\<And>a b a'. P a \<Longrightarrow> f a b = Ok a' \<Longrightarrow> P a'"
  shows "P acc'"
  using assms
proof (induction stop f acc r rule: line_loop.induct)
  case (1 stop f acc r)
  obtain res r1 where rp: "read_pkt_line r = (res, r1)" by fastforce
  note loop = "1.prems"(1) [unfolded line_loop.simps [of stop f acc r] rp]
  consider "res = Ok None" | b a where "res = Ok (Some (PData b))" "f acc b = Ok a" "line_loop stop f a r1 = (Ok acc', r')"
    | l where "res = Ok (Some l)" "as_data l = None" "stop l \<and> acc' = acc \<or> line_loop stop f acc r1 = (Ok acc', r')" "\<not> stop l \<or> acc' = acc"
    using loop by (fastforce split: sum.splits option.splits pkt_line.splits if_splits)
  then show ?case
  proof cases
    case 1
    then show ?thesis using loop "1.prems"(2) by simp
  next
    case (2 b a)
    then show ?thesis using "1.IH"(1) [OF rp [symmetric] 2(1) refl refl 2(2) 2(3)] "1.prems"(2,3) by blast
  next
    case (3 l)
    then show ?thesis using "1.IH"(2-4) [OF rp [symmetric] 3(1) refl] "1.prems"(2,3) by (cases l) auto
  qed
qed

lemma split_on_parts: "list_all (\<lambda>w. CHR '' '' \<notin> set w) (split_on (\<lambda>c. c = CHR '' '') s) \<and> split_on (\<lambda>c. c = CHR '' '') s \<noteq> []"
proof (induction s)
  case (Cons c s)
  then show ?case by (cases "split_on (\<lambda>c. c = CHR '' '') s") (auto simp: split_on_Cons)
qed simp

lemma join_split: "join_sep '' '' (split_on (\<lambda>c. c = CHR '' '') s) = s"
proof (induction s)
  case (Cons c s)
  then show ?case using split_on_parts [of s]
    by (cases "split_on (\<lambda>c. c = CHR '' '') s"; cases "tl (split_on (\<lambda>c. c = CHR '' '') s)") (auto simp: split_on_Cons)
qed simp

lemma parse_unsigned_bound: "parse_unsigned limit s = Some n \<Longrightarrow> n < limit"
  by (auto simp: parse_unsigned_def split: option.splits if_splits)

lemma parse_signed_bound: "parse_signed limit s = Some i \<Longrightarrow> - int limit \<le> i \<and> i < int limit \<or> limit = 0"
  by (auto simp: parse_signed_def dest: parse_unsigned_bound split: list.splits option.splits if_splits)

lemma line_text_strip: "line_text s \<Longrightarrow> strip_prefix p s = Some t \<Longrightarrow> ascii p \<Longrightarrow> line_text t"
  by (auto simp: line_text_def strip_prefix_Some_iff last_append dest: utf8_strip)

lemma line_text_received: "line_text (trim_newlines (utf8_lossy b))"
proof -
  have "s = [] \<or> last s \<noteq> CHR 0x0A" if "s = trim_newlines t" for s t
    using that hd_dropWhile [of "\<lambda>c. c = CHR 0x0A" "rev t"] by (auto simp: trim_newlines_def last_rev)
  then show ?thesis using utf8_trim utf8_lossy_text by (auto simp: line_text_def)
qed

lemma fetch_ok_no_fetch: "fetch_ok no_fetch"
  by (simp add: fetch_ok_def no_fetch_def line_text_def)

lemma fetch_ok_irrelevant:
  "fetch_ok (q\<lparr>fr_wants := x\<rparr>) = fetch_ok q" "fetch_ok (q\<lparr>fr_haves := x\<rparr>) = fetch_ok q"
  "fetch_ok (q\<lparr>fr_shallow := x\<rparr>) = fetch_ok q" "fetch_ok (q\<lparr>fr_done := b\<rparr>) = fetch_ok q"
  "fetch_ok (q\<lparr>fr_thin_pack := b\<rparr>) = fetch_ok q" "fetch_ok (q\<lparr>fr_no_progress := b\<rparr>) = fetch_ok q"
  "fetch_ok (q\<lparr>fr_include_tag := b\<rparr>) = fetch_ok q" "fetch_ok (q\<lparr>fr_ofs_delta := b\<rparr>) = fetch_ok q"
  "fetch_ok (q\<lparr>fr_sideband_all := b\<rparr>) = fetch_ok q" "fetch_ok (q\<lparr>fr_wait_for_done := b\<rparr>) = fetch_ok q"
  by (simp_all add: fetch_ok_def)

lemma fetch_ok_texts:
  assumes "fetch_ok q"
  shows "line_text f \<Longrightarrow> fetch_ok (q\<lparr>fr_filter := Some f\<rparr>)"
    and "fetch_ok (q\<lparr>fr_deepen := parse_unsigned (2 ^ 32) n\<rparr>)"
    and "fetch_ok (q\<lparr>fr_deepen_since := parse_signed (2 ^ 63) n\<rparr>)"
    and "line_text f \<Longrightarrow> fetch_ok (q\<lparr>fr_deepen_not := fr_deepen_not q @ [f]\<rparr>)"
    and "line_text f \<Longrightarrow> fetch_ok (q\<lparr>fr_want_refs := fr_want_refs q @ [f]\<rparr>)"
    and "line_text f \<Longrightarrow> fetch_ok (q\<lparr>fr_packfile_uris := split_on (\<lambda>c. c = CHR '' '') f\<rparr>)"
proof -
  show "fetch_ok (q\<lparr>fr_deepen := parse_unsigned (2 ^ 32) n\<rparr>)"
    using assms parse_unsigned_bound [of "2 ^ 32" n] by (simp add: fetch_ok_def split: option.splits)
  show "fetch_ok (q\<lparr>fr_deepen_since := parse_signed (2 ^ 63) n\<rparr>)"
    using assms parse_signed_bound [of "2 ^ 63" n] by (simp add: fetch_ok_def split: option.splits)
qed (use assms split_on_parts [of f] in \<open>simp_all add: fetch_ok_def join_split\<close>)

lemma option_caseI:
  "(x = None \<Longrightarrow> fetch_ok a) \<Longrightarrow> (\<And>y. x = Some y \<Longrightarrow> fetch_ok (f y)) \<Longrightarrow>
   fetch_ok (case x of None \<Rightarrow> a | Some y \<Rightarrow> f y)"
  by (cases x) simp_all

lemma if_thenI: "fetch_ok a \<Longrightarrow> fetch_ok b \<Longrightarrow> fetch_ok (if c then a else b)"
  by simp

lemma fetch_line_ok:
  assumes "fetch_ok q" "line_text s"
  shows "fetch_ok (parse_fetch_line from_hex q s)"
proof -
  have key: "line_text t" if "strip_prefix p s = Some t" "ascii p" for p t
    using line_text_strip [OF assms(2)] that by blast
  have a: "ascii ''filter ''" "ascii ''deepen-not ''" "ascii ''want-ref ''" "ascii ''packfile-uris ''"
    by code_simp+
  show ?thesis unfolding parse_fetch_line_def
    by (intro option_caseI if_thenI) (simp_all add: assms(1) key a fetch_ok_irrelevant fetch_ok_texts
        fetch_ok_texts(2,3) [OF assms(1), simplified])
qed


definition toy_from_hex :: "string \<Rightarrow> bool option" where
  "toy_from_hex s = (if s = replicate 40 (CHR ''a'') then Some True else if s = replicate 40 (CHR ''0'') then Some False else None)"

definition toy_to_hex :: "bool \<Rightarrow> string" where
  "toy_to_hex b = replicate 40 (if b then CHR ''a'' else CHR ''0'')"

definition toy_fetch :: "bool fetch_request" where
  "toy_fetch = no_fetch\<lparr>fr_wants := [True, False], fr_done := True, fr_filter := Some ''tree:0'', fr_deepen := Some 4294967295,
     fr_deepen_since := Some (- 7), fr_packfile_uris := [''https'', ''http'']\<rparr>"

lemma toy_hex_codec: "hex_codec toy_from_hex toy_to_hex"
proof -
  have "list_all is_ascii_hexdigit (toy_to_hex b)" for b
    by (cases b) (simp_all add: toy_to_hex_def is_ascii_hexdigit_def list_all_iff)
  then show ?thesis by (simp add: hex_codec_def toy_from_hex_def toy_to_hex_def)
qed

definition toy_body :: string where
  "toy_body = concat (map encode_data (fetch_lines toy_to_hex toy_fetch)) @ write_flush"

lemma toy_ascii: "ascii ''tree:0''" "ascii ''https http''"
  by code_simp+

lemma toy_fetch_ok: "fetch_ok toy_fetch"
  using toy_ascii [THEN ascii_text] by (simp add: toy_fetch_def fetch_ok_def no_fetch_def line_text_def)

lemma toy_fetch_fits: "list_all fits (fetch_lines toy_to_hex toy_fetch)"
  by (simp add: toy_fetch_def no_fetch_def fetch_lines_def flag_line_def text_line_def toy_to_hex_def fits_def dec_int_def dec.simps)

lemma toy_fetch_parsed: "\<exists>r'. parse_fetch_request toy_from_hex [Chunk toy_body] = (Ok toy_fetch, r')"
proof -
  have "sound [Chunk toy_body]" "flat [Chunk toy_body] = toy_body @ []"
    by (simp_all add: sound_def flat_def toy_body_def write_flush_def)
  then show ?thesis using parse_fetch_lines [OF toy_hex_codec toy_fetch_ok toy_fetch_fits, of "[Chunk toy_body]" "[]"]
    by (auto simp: toy_body_def)
qed


text \<open>
  C29. The request that git is handed is the request that was received: the server parses the body of
  a fetch and writes the command out again for git; reading that command gives \<open>fetch\<close> and, line by
  line, the same request, as long as the lines fit into frames.
\<close>

theorem fetch_is_passed_on_unchanged:
  assumes "hex_codec from_hex to_hex"
    and "parse_fetch_request from_hex r0 = (Ok q, r0')" "list_all fits (fetch_lines to_hex q)"
    and "sound r" "flat r = build_v2_fetch_request to_hex q"
  shows "\<exists>cmd r1 r2. read_command r = (Ok cmd, r1) \<and> cmd_name cmd = ''fetch'' \<and>
    parse_fetch_request from_hex r1 = (Ok q, r2) \<and> flat r2 = []"
proof -
  have ok: "fetch_ok q" using assms(2) unfolding parse_fetch_request_def
    by (rule line_loop_invariant [where P = fetch_ok])
      (use fetch_ok_no_fetch fetch_line_ok line_text_received in auto)
  obtain cmd r1 where r1: "read_command r = (Ok cmd, r1)" "cmd_name cmd = ''fetch''" "sound r1"
    "flat r1 = concat (map encode_data (fetch_lines to_hex q)) @ write_flush @ []"
    by (rule read_command_fetch [OF assms(4)]) (use assms(5) in \<open>simp_all add: build_v2_fetch_request_def\<close>)
  with parse_fetch_lines [OF assms(1) ok assms(3) r1(3,4)] show ?thesis by blast
qed

theorem fetch_is_passed_on_unchanged_witness:
  "\<exists>cmd r1 r2. read_command [Chunk (build_v2_fetch_request toy_to_hex toy_fetch)] = (Ok cmd, r1) \<and>
    cmd_name cmd = ''fetch'' \<and> parse_fetch_request toy_from_hex r1 = (Ok toy_fetch, r2) \<and> flat r2 = []"
proof -
  have "flat [Chunk (build_v2_fetch_request toy_to_hex toy_fetch)] = build_v2_fetch_request toy_to_hex toy_fetch"
    "sound [Chunk (build_v2_fetch_request toy_to_hex toy_fetch)]"
    by (simp_all add: flat_def sound_def build_v2_fetch_request_def write_delim_def)
  then show ?thesis using fetch_is_passed_on_unchanged [OF toy_hex_codec _ toy_fetch_fits] toy_fetch_parsed by blast
qed

end
