(* ===== verification/Bundle_Slots.thy ===== *)
theory Bundle_Slots
  imports Pkt Coord "HOL-Library.Product_Lexorder"
begin

text \<open>
  The calendar of bundles (\<^verbatim>\<open>walgit-bundle/src/schedule.rs\<close>, \<^verbatim>\<open>slots.rs\<close>) and the check of its configuration
  (\<^verbatim>\<open>walgit-config/src/lib.rs\<close>): fire times, the slot a periodic trigger owes, the base of an incremental
  bundle and the table of slots a maintainer works on.

  The cron library is a parameter: \<open>cron t\<close> is the first fire strictly after the instant \<open>t\<close>, in
  seconds since the epoch, and \<open>cron_of\<close> parses an expression.  An instant is a number of
  nanoseconds since the epoch.
\<close>

section \<open>Schedules\<close>

type_synonym cron = "system_time \<Rightarrow> int option"

definition cron_to_system :: "int \<Rightarrow> system_time" where
  "cron_to_system secs = max secs 0 * NANOS"

definition next_fire_after :: "cron \<Rightarrow> system_time \<Rightarrow> system_time option" where
  "next_fire_after cron after = map_option cron_to_system (cron after)"

definition is_due :: "cron \<Rightarrow> system_time option \<Rightarrow> system_time \<Rightarrow> bool" where
  "is_due cron last_built now =
     (case last_built of
        None \<Rightarrow> True
      | Some t \<Rightarrow> (case next_fire_after cron t of Some fire \<Rightarrow> fire \<le> now | None \<Rightarrow> False))"

definition unix_now :: "system_time \<Rightarrow> nat" where
  "unix_now now = nat (now div NANOS)"

definition from_epoch :: "nat \<Rightarrow> system_time" where
  "from_epoch s = int s * NANOS"

definition COALESCE_SCAN_MAX :: nat where "COALESCE_SCAN_MAX = 4096"

datatype due_slot = NotDue | Run int | Skip int

text \<open>The walk over the fires up to \<open>now\<close>; \<open>left\<close> is the number of fires it may still take.\<close>

fun due_scan :: "cron \<Rightarrow> int \<Rightarrow> nat \<Rightarrow> int option \<Rightarrow> system_time option \<Rightarrow> int option" where
  "due_scan cron now 0 latest fire = latest"
| "due_scan cron now (Suc left) latest None = latest"
| "due_scan cron now (Suc left) latest (Some f) =
     (let epoch = min (int (unix_now f)) i64_max
      in if epoch > now then latest
         else due_scan cron now left (Some epoch) (next_fire_after cron f))"

definition due_slot_of :: "cron \<Rightarrow> int \<Rightarrow> int \<Rightarrow> due_slot" where
  "due_slot_of cron last_slot now =
     (case due_scan cron now COALESCE_SCAN_MAX None (next_fire_after cron (from_epoch (nat last_slot))) of
        None \<Rightarrow> NotDue
      | Some slot \<Rightarrow>
          (let more = (case next_fire_after cron (from_epoch (nat slot)) of
                         None \<Rightarrow> False | Some f \<Rightarrow> min (int (unix_now f)) i64_max \<le> now)
           in if more then Skip slot else Run slot))"

text \<open>What is relied on of the cron library: there is a set of fire times, and the next one is the least after the instant.\<close>

definition fires_at :: "cron \<Rightarrow> int set \<Rightarrow> bool" where
  "fires_at cron F \<longleftrightarrow>
     (\<forall>f\<in>F. 0 \<le> f \<and> f \<le> i64_max) \<and>
     (\<forall>t. case cron t of
            None \<Rightarrow> \<forall>f\<in>F. f * NANOS \<le> t
          | Some f \<Rightarrow> f \<in> F \<and> t < f * NANOS \<and> (\<forall>g\<in>F. t < g * NANOS \<longrightarrow> f \<le> g))"

lemma next_fire_cases:
  assumes "fires_at cron F"
  obtains "next_fire_after cron t = None" "\<And>f. f \<in> F \<Longrightarrow> f * NANOS \<le> t"
  | f where "next_fire_after cron t = Some (f * NANOS)" "f \<in> F" "t < f * NANOS"
      "\<And>g. g \<in> F \<Longrightarrow> t < g * NANOS \<Longrightarrow> f \<le> g" "0 \<le> f" "f \<le> i64_max"
proof (cases "cron t")
  case None
  moreover have "case cron t of None \<Rightarrow> \<forall>f\<in>F. f * NANOS \<le> t
     | Some f \<Rightarrow> f \<in> F \<and> t < f * NANOS \<and> (\<forall>g\<in>F. t < g * NANOS \<longrightarrow> f \<le> g)" using assms by (simp add: fires_at_def)
  ultimately show ?thesis using that(1) by (simp add: next_fire_after_def)
next
  case (Some f)
  have a: "case cron t of None \<Rightarrow> \<forall>f\<in>F. f * NANOS \<le> t
     | Some f \<Rightarrow> f \<in> F \<and> t < f * NANOS \<and> (\<forall>g\<in>F. t < g * NANOS \<longrightarrow> f \<le> g)" using assms by (simp add: fires_at_def)
  then have "f \<in> F" using Some by simp
  then have "0 \<le> f" "f \<le> i64_max" using assms by (auto simp: fires_at_def)
  then show ?thesis using that(2) [of f] a Some by (simp add: next_fire_after_def cron_to_system_def max_def)
qed

lemma NANOS_pos: "0 < NANOS" by (simp add: NANOS_def)

lemma unix_now_whole: "0 \<le> f \<Longrightarrow> int (unix_now (f * NANOS)) = f"
  using NANOS_pos by (simp add: unix_now_def)

lemma from_epoch_nat: "0 \<le> f \<Longrightarrow> from_epoch (nat f) = f * NANOS"
  by (simp add: from_epoch_def)

text \<open>The fires a trigger has to account for.\<close>

definition due_fires :: "int set \<Rightarrow> int \<Rightarrow> int \<Rightarrow> int set" where
  "due_fires F a b = {f \<in> F. a < f \<and> f \<le> b}"

lemma finite_due_fires [simp]: "finite (due_fires F a b)"
  by (rule finite_subset [of _ "{a<..b}"]) (auto simp: due_fires_def)

lemma due_fires_step:
  assumes "f \<in> F" "a < f" "f \<le> b" "\<And>g. g \<in> F \<Longrightarrow> a < g \<Longrightarrow> f \<le> g"
  shows "due_fires F a b = insert f (due_fires F f b)" "f \<notin> due_fires F f b"
  using assms by (force simp: due_fires_def)+

text \<open>
  The scan returns the newest fire, or the \<open>left\<close>-th one when there are more.
\<close>

definition scan_ok :: "int set \<Rightarrow> int \<Rightarrow> int \<Rightarrow> nat \<Rightarrow> int option \<Rightarrow> int option \<Rightarrow> bool" where
  "scan_ok F now a left latest r \<longleftrightarrow>
     (r = latest \<and> (due_fires F a now = {} \<or> left = 0)) \<or>
     (\<exists>s. r = Some s \<and> s \<in> due_fires F a now \<and> (due_fires F s now = {} \<or> left < card (due_fires F a now)))"

lemma due_scan_ok:
  assumes "fires_at cron F"
  shows "scan_ok F now a left latest (due_scan cron now left latest (next_fire_after cron (a * NANOS)))"
proof (induction left arbitrary: a latest)
  case 0
  then show ?case by (simp add: scan_ok_def)
next
  case (Suc left)
  show ?case
  proof (rule next_fire_cases [OF assms, of "a * NANOS"])
    assume "next_fire_after cron (a * NANOS) = None" "\<And>f. f \<in> F \<Longrightarrow> f * NANOS \<le> a * NANOS"
    then show ?thesis using NANOS_pos by (force simp: scan_ok_def due_fires_def)
  next
    fix f
    assume f: "next_fire_after cron (a * NANOS) = Some (f * NANOS)" "f \<in> F" "a * NANOS < f * NANOS"
      "\<And>g. g \<in> F \<Longrightarrow> a * NANOS < g * NANOS \<Longrightarrow> f \<le> g" "0 \<le> f" "f \<le> i64_max"
    then have least: "a < f" "\<And>g. g \<in> F \<Longrightarrow> a < g \<Longrightarrow> f \<le> g" using NANOS_pos by auto
    show ?thesis
    proof (cases "now < f")
      case True
      then have "due_fires F a now = {}" using least by (force simp: due_fires_def)
      then show ?thesis using True f by (simp add: scan_ok_def unix_now_whole min_def)
    next
      case False
      note step = due_fires_step [OF f(2) least(1) _ least(2), of now]
      have "scan_ok F now f left (Some f) (due_scan cron now left (Some f) (next_fire_after cron (f * NANOS)))"
        by (rule Suc.IH)
      then show ?thesis using False f step
        by (auto simp: scan_ok_def unix_now_whole min_def card_gt_0_iff)
    qed
  qed
qed

lemma more_fires:
  assumes "fires_at cron F" "0 \<le> s"
  shows "(case next_fire_after cron (from_epoch (nat s)) of None \<Rightarrow> False | Some f \<Rightarrow> min (int (unix_now f)) i64_max \<le> now)
    \<longleftrightarrow> due_fires F s now \<noteq> {}"
proof (rule next_fire_cases [OF assms(1), of "s * NANOS"])
  assume "next_fire_after cron (s * NANOS) = None" "\<And>f. f \<in> F \<Longrightarrow> f * NANOS \<le> s * NANOS"
  then show ?thesis using NANOS_pos from_epoch_nat [OF assms(2)] by (force simp: due_fires_def)
next
  fix f
  assume f: "next_fire_after cron (s * NANOS) = Some (f * NANOS)" "f \<in> F" "s * NANOS < f * NANOS"
    "\<And>g. g \<in> F \<Longrightarrow> s * NANOS < g * NANOS \<Longrightarrow> f \<le> g" "0 \<le> f" "f \<le> i64_max"
  then have "s < f" "\<And>g. g \<in> F \<Longrightarrow> s < g \<Longrightarrow> f \<le> g" using NANOS_pos by auto
  then show ?thesis using f from_epoch_nat [OF assms(2)] by (force simp: due_fires_def unix_now_whole min_def)
qed

text \<open>
  A periodic trigger coalesces what it missed: nothing is due exactly when nothing fired since
  the last slot; the slot that runs is the newest fire, so nothing is left over after it; and a
  backlog is skipped over only when more fires are due than the scan looks at, moving forward all the
  same.
\<close>

theorem due_slot_coalesces:
  assumes "fires_at cron F" "0 \<le> last_slot"
  shows "case due_slot_of cron last_slot now of
      NotDue \<Rightarrow> due_fires F last_slot now = {}
    | Run s \<Rightarrow> s \<in> due_fires F last_slot now \<and> due_fires F s now = {}
    | Skip s \<Rightarrow> s \<in> due_fires F last_slot now \<and> due_fires F s now \<noteq> {} \<and> 4096 < card (due_fires F last_slot now)"
proof -
  have ok: "scan_ok F now last_slot COALESCE_SCAN_MAX None
      (due_scan cron now COALESCE_SCAN_MAX None (next_fire_after cron (from_epoch (nat last_slot))))"
    using due_scan_ok [OF assms(1)] from_epoch_nat [OF assms(2)] by simp
  show ?thesis
  proof (cases "due_scan cron now COALESCE_SCAN_MAX None (next_fire_after cron (from_epoch (nat last_slot)))")
    case None
    then show ?thesis using ok by (simp add: due_slot_of_def scan_ok_def COALESCE_SCAN_MAX_def)
  next
    case (Some s)
    then have s: "s \<in> due_fires F last_slot now" "due_fires F s now = {} \<or> 4096 < card (due_fires F last_slot now)"
      using ok by (simp_all add: scan_ok_def COALESCE_SCAN_MAX_def)
    then have "0 \<le> s" using assms(2) by (simp add: due_fires_def)
    note more = more_fires [OF assms(1) this, of now]
    show ?thesis unfolding due_slot_of_def Some option.case Let_def more using s by auto
  qed
qed

definition two_fires :: cron where
  "two_fires t = (if t < 3600 * NANOS then Some 3600 else if t < 7200 * NANOS then Some 7200 else None)"

lemma two_fires_at: "fires_at two_fires {3600, 7200}"
  by (auto simp: fires_at_def two_fires_def NANOS_def i64_max_def)

theorem due_slot_coalesces_witness:
  "case due_slot_of two_fires 0 9000 of
      NotDue \<Rightarrow> due_fires {3600, 7200} 0 9000 = {}
    | Run s \<Rightarrow> s \<in> due_fires {3600, 7200} 0 9000 \<and> due_fires {3600, 7200} s 9000 = {}
    | Skip s \<Rightarrow> s \<in> due_fires {3600, 7200} 0 9000 \<and> due_fires {3600, 7200} s 9000 \<noteq> {} \<and>
        4096 < card (due_fires {3600, 7200} 0 9000)"
  by (rule due_slot_coalesces [OF two_fires_at]) simp

section \<open>Strategies\<close>

datatype bundle_kind = Full | Incremental

record bundle_strategy =
  bs_name :: string
  bs_kind :: bundle_kind
  bs_schedule :: string
  bs_base :: "string option"
  bs_keep :: nat
  bs_refs :: "string list"
  bs_backfill_max :: nat
  bs_min_commits :: "nat option"
  bs_filter :: "string option"
  bs_chain :: bool

datatype bundle_serve = Proxy | SignedUrl

record bundles_config =
  bc_strategy :: "bundle_strategy list"
  bc_min_commits :: nat
  bc_serve_via :: bundle_serve
  bc_advertise_filtered :: bool
  bc_signed_url_for :: "string list"
  bc_main_only :: bool
  bc_extra_refs :: "string list"

definition find_strategy :: "bundles_config \<Rightarrow> string \<Rightarrow> bundle_strategy option" where
  "find_strategy cfg n = find (\<lambda>s. bs_name s = n) (bc_strategy cfg)"

text \<open>The walk to the full root that the validation makes; \<open>left\<close> is the number of hops it allows.\<close>

fun check_chain :: "nat \<Rightarrow> bundles_config \<Rightarrow> bundle_strategy \<Rightarrow> bundle_strategy \<Rightarrow> (string, unit) result" where
  "check_chain 0 cfg s cur = Err ''base chain has a cycle''"
| "check_chain (Suc left) cfg s cur =
     (case bs_base cur of
        None \<Rightarrow> Err ''incremental needs base''
      | Some b' \<Rightarrow>
          (case find_strategy cfg b' of
             None \<Rightarrow> Err ''base is not a strategy''
           | Some b \<Rightarrow>
               if bs_filter b \<noteq> bs_filter s then Err ''filter differs from its base''
               else if bs_kind b = Full then Ok ()
               else check_chain left cfg s b))"

text \<open>\<open>split_whitespace\<close>, counted.\<close>

function count_fields :: "bool \<Rightarrow> string \<Rightarrow> nat" where
  "count_fields inside s =
     (case s of
        [] \<Rightarrow> 0
      | c # r \<Rightarrow>
          (case leading_ws s of
             Some w \<Rightarrow> count_fields False (drop (length w) s)
           | None \<Rightarrow> (if inside then 0 else 1) + count_fields True r))"
  by pat_completeness auto

termination
  by (relation "measure (\<lambda>(_, s). length s)") (auto dest: ws_shrinks)

declare count_fields.simps [simp del]

definition check_strategy :: "(string \<Rightarrow> cron option) \<Rightarrow> bundles_config \<Rightarrow> bundle_strategy \<Rightarrow> (string, unit) result" where
  "check_strategy cron_of cfg s =
     (let expr = trim_ws (bs_schedule s); fields = count_fields False expr
      in if \<not> (starts_with expr ''@'' \<or> fields = 6 \<or> fields = 7) then Err ''schedule must be a 6-field UTC cron''
         else if cron_of expr = None then Err ''schedule does not parse''
         else if bs_filter s \<noteq> None \<and> bs_filter s \<noteq> Some ''blob:none'' then Err ''filter is not supported''
         else case bs_kind s of
                Full \<Rightarrow>
                  (if bs_base s \<noteq> None then Err ''a full strategy has no base''
                   else if bs_chain s then Err ''chain is an incremental knob''
                   else if bs_keep s < 1 then Err ''keep must be >= 1 on a full strategy''
                   else Ok ())
              | Incremental \<Rightarrow>
                  (if bs_keep s \<noteq> 0 then Err ''keep is not a knob on an incremental strategy''
                   else check_chain 16 cfg s s))"

fun check_strategies ::
  "(string \<Rightarrow> cron option) \<Rightarrow> bundles_config \<Rightarrow> bundle_strategy list \<Rightarrow> (string, unit) result" where
  "check_strategies cron_of cfg [] = Ok ()"
| "check_strategies cron_of cfg (s # ss) = rbind (check_strategy cron_of cfg s) (\<lambda>_. check_strategies cron_of cfg ss)"

definition validate_bundle_strategies :: "(string \<Rightarrow> cron option) \<Rightarrow> bundles_config \<Rightarrow> (string, unit) result" where
  "validate_bundle_strategies cron_of cfg =
     (if distinct (map bs_name (bc_strategy cfg)) then check_strategies cron_of cfg (bc_strategy cfg)
      else Err ''duplicate strategy names'')"

text \<open>The two walks up the chain have no bound of their own.\<close>

definition base_of :: "bundles_config \<Rightarrow> string \<Rightarrow> string option" where
  "base_of cfg n = (case find_strategy cfg n of None \<Rightarrow> None | Some s \<Rightarrow> bs_base s)"

partial_function (option) chain_up :: "bundles_config \<Rightarrow> string \<Rightarrow> string list option" where
  "chain_up cfg n =
     (case base_of cfg n of
        None \<Rightarrow> Some [n]
      | Some b \<Rightarrow> Option.bind (chain_up cfg b) (\<lambda>ns. Some (n # ns)))"

lemma check_chain_ends:
  "check_chain left cfg s cur = Ok () \<Longrightarrow> find_strategy cfg (bs_name cur) = Some cur \<Longrightarrow>
   (\<And>b. b \<in> set (bc_strategy cfg) \<Longrightarrow> bs_kind b = Full \<Longrightarrow> bs_base b = None) \<Longrightarrow>
   \<exists>ns. chain_up cfg (bs_name cur) = Some ns"
proof (induction left arbitrary: cur)
  case (Suc left)
  then obtain n b where b: "bs_base cur = Some n" "find_strategy cfg n = Some b" by (auto split: option.splits)
  then have nm: "bs_name b = n" "find_strategy cfg (bs_name b) = Some b" "b \<in> set (bc_strategy cfg)"
    by (auto simp: find_strategy_def find_Some_iff)
  have "\<exists>ns. chain_up cfg n = Some ns"
  proof (cases "bs_kind b")
    case Full
    then have "base_of cfg n = None" using Suc.prems(3) nm b by (simp add: base_of_def)
    then show ?thesis by (simp add: chain_up.simps [of cfg n])
  next
    case Incremental
    then have "check_chain left cfg s b = Ok ()" using Suc.prems(1) b by (auto split: if_splits)
    then show ?thesis using Suc.IH nm Suc.prems(3) by blast
  qed
  moreover have "base_of cfg (bs_name cur) = Some n" using Suc.prems(2) b by (simp add: base_of_def)
  ultimately show ?case by (auto simp: chain_up.simps [of cfg "bs_name cur"])
qed simp

lemma check_strategies_each:
  "check_strategies cron_of cfg ss = Ok () \<Longrightarrow> s \<in> set ss \<Longrightarrow> check_strategy cron_of cfg s = Ok ()"
  by (induction ss) (auto simp: rbind_def split: sum.splits)

lemma check_strategy_Full: "check_strategy cron_of cfg s = Ok () \<Longrightarrow> bs_kind s = Full \<Longrightarrow> bs_base s = None \<and> 1 \<le> bs_keep s"
  by (auto simp: check_strategy_def Let_def split: if_splits)

lemma check_strategy_Incremental:
  "check_strategy cron_of cfg s = Ok () \<Longrightarrow> bs_kind s = Incremental \<Longrightarrow> check_chain 16 cfg s s = Ok ()"
  by (auto simp: check_strategy_def Let_def split: if_splits)

text \<open>In a configuration that passed the check the walk up the chain ends, wherever it starts.\<close>

lemma chain_up_returns:
  assumes "validate_bundle_strategies cron_of cfg = Ok ()"
  shows "\<exists>ns. chain_up cfg n = Some ns"
proof (cases "find_strategy cfg n")
  case None
  then show ?thesis by (simp add: chain_up.simps base_of_def)
next
  case (Some s)
  then have s: "s \<in> set (bc_strategy cfg)" "bs_name s = n" by (auto simp: find_strategy_def find_Some_iff)
  have each: "check_strategy cron_of cfg b = Ok ()" if "b \<in> set (bc_strategy cfg)" for b
    using assms that check_strategies_each by (auto simp: validate_bundle_strategies_def split: if_splits)
  show ?thesis
  proof (cases "bs_kind s")
    case Full
    then show ?thesis using check_strategy_Full [OF each [OF s(1)]] Some by (simp add: chain_up.simps base_of_def)
  next
    case Incremental
    then show ?thesis using check_chain_ends [OF check_strategy_Incremental [OF each [OF s(1)]]] Some s(2)
        check_strategy_Full each by blast
  qed
qed

section \<open>Slots\<close>

datatype bundle_error =
    BStore store_error
  | BDecode
  | BGit git_error
  | StrategyNotFound string
  | RepoNotFound string
  | InvalidRepoId string
  | InvalidSchedule string
  | BIo string
  | BundleNotFound string
  | NoRefs
  | NoNewObjects
  | TooSmallBundle nat nat
  | Unchanged string
  | RetriesExhausted
  | BOther string

record bundle_entry =
  be_id :: string
  be_key :: string
  be_strategy :: string
  be_kind :: string
  be_creation_token :: nat
  be_seq :: nat
  be_size :: nat
  be_base_id :: string
  be_created_at :: "timestamp option"
  be_version :: string
  be_tips :: "git_ref list"
  be_slot :: nat
  be_filter :: string

record skipped_slot =
  sk_strategy :: string
  sk_slot :: nat
  sk_base_id :: string
  sk_as_of_seq :: nat
  sk_reason :: string
  sk_at :: "timestamp option"

record bundle_list =
  bl_mode :: string
  bl_heuristic :: string
  bl_bundles :: "bundle_entry list"
  bl_updated_at :: "timestamp option"
  bl_skipped :: "skipped_slot list"

definition parse_schedule :: "(string \<Rightarrow> cron option) \<Rightarrow> string \<Rightarrow> (bundle_error, cron) result" where
  "parse_schedule cron_of expr =
     (case cron_of (trim_ws expr) of None \<Rightarrow> Err (InvalidSchedule expr) | Some c \<Rightarrow> Ok c)"

fun slots_loop :: "nat \<Rightarrow> cron \<Rightarrow> system_time \<Rightarrow> system_time \<Rightarrow> nat list" where
  "slots_loop 0 cron cursor until = []"
| "slots_loop (Suc left) cron cursor until =
     (case next_fire_after cron cursor of
        None \<Rightarrow> []
      | Some f \<Rightarrow> if f > until then [] else unix_now f # slots_loop left cron f until)"

definition slots_between ::
  "(string \<Rightarrow> cron option) \<Rightarrow> bundle_strategy \<Rightarrow> system_time \<Rightarrow> system_time \<Rightarrow> (bundle_error, nat list) result" where
  "slots_between cron_of strat after until =
     rbind (parse_schedule cron_of (bs_schedule strat)) (\<lambda>cron. Ok (slots_loop 20000 cron after until))"

definition SLOT_CLOSE_GRACE :: int where "SLOT_CLOSE_GRACE = 120 * NANOS"

definition slot_closed :: "nat \<Rightarrow> system_time \<Rightarrow> bool" where
  "slot_closed slot now \<longleftrightarrow> from_epoch slot + SLOT_CLOSE_GRACE \<le> now"

fun last_slot_in ::
  "(string \<Rightarrow> cron option) \<Rightarrow> bundle_strategy \<Rightarrow> system_time \<Rightarrow> int list \<Rightarrow> (bundle_error, nat option) result" where
  "last_slot_in cron_of strat t [] = Ok None"
| "last_slot_in cron_of strat t (days # ds) =
     rbind (slots_between cron_of strat (t - days * 86400 * NANOS) t) (\<lambda>ss.
       if ss \<noteq> [] then Ok (Some (last ss)) else last_slot_in cron_of strat t ds)"

definition last_slot_at_or_before ::
  "(string \<Rightarrow> cron option) \<Rightarrow> bundle_strategy \<Rightarrow> system_time \<Rightarrow> (bundle_error, nat option) result" where
  "last_slot_at_or_before cron_of strat t = last_slot_in cron_of strat t [1, 8, 40, 400]"

definition entries_of :: "bundle_list \<Rightarrow> string \<Rightarrow> bundle_entry list" where
  "entries_of bl n = sort_key be_creation_token (filter (\<lambda>b. be_strategy b = n) (bl_bundles bl))"

definition last_opt :: "'a list \<Rightarrow> 'a option" where
  "last_opt xs = (if xs = [] then None else Some (last xs))"

definition base_for_slot :: "bundle_list \<Rightarrow> string \<Rightarrow> nat \<Rightarrow> bundle_entry option" where
  "base_for_slot bl n slot = find (\<lambda>b. be_creation_token b \<le> slot) (rev (entries_of bl n))"

partial_function (option) base_for_slot_chain ::
  "bundles_config \<Rightarrow> bundle_list \<Rightarrow> string \<Rightarrow> nat \<Rightarrow> bundle_entry option option" where
  "base_for_slot_chain cfg bl n slot =
     (case base_for_slot bl n slot of
        Some b \<Rightarrow> Some (Some b)
      | None \<Rightarrow> (case base_of cfg n of None \<Rightarrow> Some None | Some n' \<Rightarrow> base_for_slot_chain cfg bl n' slot))"

fun find_map :: "('a \<Rightarrow> 'b option) \<Rightarrow> 'a list \<Rightarrow> 'b option" where
  "find_map f [] = None"
| "find_map f (x # xs) = (case f x of None \<Rightarrow> find_map f xs | Some y \<Rightarrow> Some y)"

text \<open>The outer option of these functions is \<open>None\<close> when the walk up the chain does not end.\<close>

definition base_for_incremental ::
  "bundles_config \<Rightarrow> bundle_list \<Rightarrow> bundle_strategy \<Rightarrow> nat \<Rightarrow> bundle_entry option option" where
  "base_for_incremental cfg bl strat slot =
     (case bs_base strat of
        None \<Rightarrow> Some None
      | Some base_name \<Rightarrow>
          Option.bind
            (if slot = 0
             then map_option (find_map (\<lambda>n. last_opt (entries_of bl n))) (chain_up cfg base_name)
             else base_for_slot_chain cfg bl base_name slot)
            (\<lambda>base'.
               if \<not> bs_chain strat then Some base'
               else
                 (let at' = (if slot = 0 then u64_max else slot);
                      own = find (\<lambda>b. be_creation_token b < at') (rev (entries_of bl (bs_name strat)))
                  in Some (case (own, base') of
                             (Some o', Some b) \<Rightarrow> if be_creation_token b \<le> be_creation_token o' then Some o' else Some b
                           | (Some o', None) \<Rightarrow> Some o'
                           | (None, b) \<Rightarrow> b))))"

definition chain_window :: "(string \<Rightarrow> cron option) \<Rightarrow> bundles_config \<Rightarrow> bundle_strategy \<Rightarrow> nat" where
  "chain_window cron_of cfg strat =
     (case Option.bind (bs_base strat) (find_strategy cfg) of
        None \<Rightarrow> u64_max
      | Some base' \<Rightarrow>
          (case (parse_schedule cron_of (bs_schedule base'), parse_schedule cron_of (bs_schedule strat)) of
             (Inr bs, Inr _) \<Rightarrow>
               (case next_fire_after bs (from_epoch 1700000000) of
                  None \<Rightarrow> u64_max
                | Some b1 \<Rightarrow>
                    (case next_fire_after bs b1 of
                       None \<Rightarrow> u64_max
                     | Some b2 \<Rightarrow>
                         (case slots_between cron_of strat b1 b2 of Inl _ \<Rightarrow> u64_max | Inr ss \<Rightarrow> length ss)))
           | _ \<Rightarrow> u64_max))"

section \<open>The slot table\<close>

datatype slot_status =
    Built string nat nat
  | SlotMissing
  | Pending
  | Blocked string
  | TooSmall nat nat
  | Unavailable
  | Skipped string
  | WrongHost string

record slot_plan =
  sp_strategy :: string
  sp_kind :: bundle_kind
  sp_slot :: nat
  sp_status :: slot_status
  sp_base_id :: "string option"

record plan_context =
  pc_first_state :: "system_time option"
  pc_can_full :: bool
  pc_can_incremental :: bool
  pc_wrong_host_reason :: "string option"

datatype anchor = Anchor system_time | NoSlots | NoBase string

definition plan_anchor ::
  "(string \<Rightarrow> cron option) \<Rightarrow> bundles_config \<Rightarrow> bundle_list \<Rightarrow> system_time \<Rightarrow> bundle_strategy
     \<Rightarrow> (bundle_error, anchor) result option" where
  "plan_anchor cron_of cfg bl now strat =
     (case bs_kind strat of
        Full \<Rightarrow>
          Some (case last_opt (entries_of bl (bs_name strat)) of
                  Some b \<Rightarrow> Ok (Anchor (from_epoch (be_creation_token b)))
                | None \<Rightarrow>
                    rbind (last_slot_at_or_before cron_of strat now) (\<lambda>r.
                      case r of Some s \<Rightarrow> Ok (Anchor (from_epoch (s - 1))) | None \<Rightarrow> Ok NoSlots))
      | Incremental \<Rightarrow>
          (let base_name = (case bs_base strat of None \<Rightarrow> [] | Some b \<Rightarrow> b)
           in map_option (\<lambda>ns.
                case find_map (\<lambda>n. map_option (\<lambda>b. (n, b)) (last_opt (entries_of bl n))) ns of
                  None \<Rightarrow> Ok (NoBase base_name)
                | Some (n, b) \<Rightarrow>
                    if bs_chain strat then Ok (Anchor (from_epoch (be_creation_token b)))
                    else (let es = rev (entries_of bl n)
                          in Ok (Anchor (from_epoch
                               (if 1 < length es then be_creation_token (es ! 1) else be_creation_token b)))))
              (chain_up cfg base_name)))"

definition INCREMENTALS_KEPT :: nat where "INCREMENTALS_KEPT = 2"

definition wanted_from :: "(string \<Rightarrow> cron option) \<Rightarrow> bundles_config \<Rightarrow> bundle_strategy \<Rightarrow> nat \<Rightarrow> nat" where
  "wanted_from cron_of cfg strat n =
     (case bs_kind strat of
        Full \<Rightarrow> 0
      | Incremental \<Rightarrow>
          if \<not> bs_chain strat then n - INCREMENTALS_KEPT else n - max (chain_window cron_of cfg strat) 1)"

definition slot_status_of ::
  "bundle_list \<Rightarrow> system_time \<Rightarrow> plan_context \<Rightarrow> bundle_strategy \<Rightarrow> bundle_entry list \<Rightarrow> nat \<Rightarrow> string option \<Rightarrow> slot_status" where
  "slot_status_of bl now ctx strat built slot base_id =
     (let existing = find (\<lambda>b. be_creation_token b = slot \<or> be_slot b = slot) built;
          first_full = (bs_kind strat = Full \<and> built = []);
          unavailable = (\<not> first_full \<and>
            (case pc_first_state ctx of None \<Rightarrow> False | Some t \<Rightarrow> from_epoch slot < t));
          skipped = find (\<lambda>k. sk_strategy k = bs_name strat \<and> sk_slot k = slot \<and>
            sk_base_id k = (case base_id of None \<Rightarrow> [] | Some i \<Rightarrow> i)) (bl_skipped bl)
      in case existing of
           Some b \<Rightarrow> Built (be_id b) (be_size b) (be_seq b)
         | None \<Rightarrow>
             if unavailable then Unavailable
             else case skipped of
               Some k \<Rightarrow> Skipped (sk_reason k)
             | None \<Rightarrow>
                 if bs_kind strat = Incremental \<and> \<not> slot_closed slot now then Pending
                 else case bs_kind strat of
                        Full \<Rightarrow>
                          if \<not> pc_can_full ctx
                          then WrongHost (case pc_wrong_host_reason ctx of
                                 None \<Rightarrow> ''full bundles need the base pack locally (ssd host)'' | Some r \<Rightarrow> r)
                          else SlotMissing
                      | Incremental \<Rightarrow>
                          if base_id = None then Blocked ''no base bundle at or before this slot''
                          else if \<not> pc_can_incremental ctx
                          then WrongHost (case pc_wrong_host_reason ctx of
                                 None \<Rightarrow> ''the serving copy does not fit this host'' | Some r \<Rightarrow> r)
                          else SlotMissing)"

definition plan_row ::
  "bundles_config \<Rightarrow> bundle_list \<Rightarrow> system_time \<Rightarrow> plan_context \<Rightarrow> bundle_strategy \<Rightarrow> nat \<Rightarrow> slot_plan option" where
  "plan_row cfg bl now ctx strat slot =
     Option.bind
       (case bs_kind strat of
          Full \<Rightarrow> Some None
        | Incremental \<Rightarrow> map_option (map_option be_id) (base_for_incremental cfg bl strat slot))
       (\<lambda>base_id.
          Some \<lparr>sp_strategy = bs_name strat, sp_kind = bs_kind strat, sp_slot = slot,
            sp_status = slot_status_of bl now ctx strat (entries_of bl (bs_name strat)) slot base_id,
            sp_base_id = base_id\<rparr>)"

text \<open>The slots with a row: those with a bundle, and the newest ones from \<open>wanted_from\<close> on.\<close>

definition listed_slots ::
  "(string \<Rightarrow> cron option) \<Rightarrow> bundles_config \<Rightarrow> bundle_list \<Rightarrow> bundle_strategy \<Rightarrow> nat list \<Rightarrow> nat list" where
  "listed_slots cron_of cfg bl strat slots =
     map snd (filter (\<lambda>(i, slot).
         list_ex (\<lambda>b. be_creation_token b = slot \<or> be_slot b = slot) (entries_of bl (bs_name strat)) \<or>
         wanted_from cron_of cfg strat (length slots) \<le> i)
       (enumerate 0 slots))"

definition plan_strategy ::
  "(string \<Rightarrow> cron option) \<Rightarrow> bundles_config \<Rightarrow> bundle_list \<Rightarrow> system_time \<Rightarrow> plan_context \<Rightarrow> bundle_strategy
     \<Rightarrow> (bundle_error, slot_plan list) result option" where
  "plan_strategy cron_of cfg bl now ctx strat =
     Option.bind (plan_anchor cron_of cfg bl now strat) (\<lambda>r.
       case r of
         Inl e \<Rightarrow> Some (Err e)
       | Inr NoSlots \<Rightarrow> Some (Ok [])
       | Inr (NoBase n) \<Rightarrow>
           Some (Ok [\<lparr>sp_strategy = bs_name strat, sp_kind = bs_kind strat, sp_slot = 0,
             sp_status = Blocked (''no '' @ n @ '' bundle yet''), sp_base_id = None\<rparr>])
       | Inr (Anchor a) \<Rightarrow>
           (case slots_between cron_of strat a now of
              Inl e \<Rightarrow> Some (Err e)
            | Inr slots \<Rightarrow>
                map_option Ok (those (map (plan_row cfg bl now ctx strat) (listed_slots cron_of cfg bl strat slots)))))"

fun plan_strategies ::
  "(string \<Rightarrow> cron option) \<Rightarrow> bundles_config \<Rightarrow> bundle_list \<Rightarrow> system_time \<Rightarrow> plan_context \<Rightarrow> bundle_strategy list
     \<Rightarrow> (bundle_error, slot_plan list) result option" where
  "plan_strategies cron_of cfg bl now ctx [] = Some (Ok [])"
| "plan_strategies cron_of cfg bl now ctx (s # ss) =
     Option.bind (plan_strategy cron_of cfg bl now ctx s) (\<lambda>r.
       case r of
         Inl e \<Rightarrow> Some (Err e)
       | Inr rows \<Rightarrow>
           map_option (\<lambda>r'. rbind r' (\<lambda>more. Ok (rows @ more))) (plan_strategies cron_of cfg bl now ctx ss))"

definition plan_with ::
  "(string \<Rightarrow> cron option) \<Rightarrow> bundles_config \<Rightarrow> bundle_list \<Rightarrow> system_time \<Rightarrow> plan_context
     \<Rightarrow> (bundle_error, slot_plan list) result option" where
  "plan_with cron_of cfg bl now ctx =
     map_option (\<lambda>r. rbind r (\<lambda>rows. Ok (sort_key (\<lambda>r. (sp_slot r, sp_kind r = Incremental)) rows)))
       (plan_strategies cron_of cfg bl now ctx (bc_strategy cfg))"

definition plan_slots ::
  "(string \<Rightarrow> cron option) \<Rightarrow> bundles_config \<Rightarrow> bundle_list \<Rightarrow> system_time \<Rightarrow> bool
     \<Rightarrow> (bundle_error, slot_plan list) result option" where
  "plan_slots cron_of cfg bl now can_build_full =
     plan_with cron_of cfg bl now
       \<lparr>pc_first_state = None, pc_can_full = can_build_full, pc_can_incremental = True, pc_wrong_host_reason = None\<rparr>"

declare chain_up.simps [code] base_for_slot_chain.simps [code]

definition default_refs :: "bundles_config \<Rightarrow> bundle_strategy \<Rightarrow> string list" where
  "default_refs cfg strat =
     (if bs_refs strat \<noteq> [] then bs_refs strat
      else (if bc_main_only cfg then [''HEAD'', ''refs/heads/main''] else [''refs/heads/*'', ''refs/tags/*'', ''HEAD''])
           @ bc_extra_refs cfg)"

section \<open>The table is always computed\<close>

lemma base_for_slot_chain_up:
  "chain_up cfg n = Some ns \<Longrightarrow> base_for_slot_chain cfg bl n slot = Some (find_map (\<lambda>m. base_for_slot bl m slot) ns)"
proof (induction ns arbitrary: n)
  case Nil
  then show ?case by (subst (asm) chain_up.simps) (auto split: option.splits simp: bind_eq_Some_conv)
next
  case (Cons m ns)
  then show ?case
    by (subst (asm) chain_up.simps, subst base_for_slot_chain.simps)
      (auto split: option.splits simp: bind_eq_Some_conv)
qed

lemma base_for_incremental_returns:
  assumes "validate_bundle_strategies cron_of cfg = Ok ()"
  shows "\<exists>r. base_for_incremental cfg bl strat slot = Some r"
proof (cases "bs_base strat")
  case (Some n)
  obtain ns where "chain_up cfg n = Some ns" using chain_up_returns [OF assms] by blast
  then show ?thesis using Some base_for_slot_chain_up by (simp add: base_for_incremental_def Let_def)
qed (simp add: base_for_incremental_def)

lemma those_map_returns: "(\<And>x. x \<in> set xs \<Longrightarrow> \<exists>y. f x = Some y) \<Longrightarrow> \<exists>ys. those (map f xs) = Some ys"
  by (induction xs) (auto, fastforce)

lemma those_map_SomeD: "those (map f xs) = Some ys \<Longrightarrow> y \<in> set ys \<Longrightarrow> \<exists>x\<in>set xs. f x = Some y"
  by (induction xs arbitrary: ys) (auto split: option.splits)

lemma plan_strategy_returns:
  assumes "validate_bundle_strategies cron_of cfg = Ok ()"
  shows "\<exists>r. plan_strategy cron_of cfg bl now ctx strat = Some r"
proof -
  have "\<exists>r. plan_anchor cron_of cfg bl now strat = Some r"
    using chain_up_returns [OF assms] by (cases "bs_kind strat") (auto simp: plan_anchor_def Let_def)
  moreover have "\<exists>y. plan_row cfg bl now ctx strat x = Some y" for x
    using base_for_incremental_returns [OF assms, of bl strat x]
    by (cases "bs_kind strat") (auto simp: plan_row_def)
  then have "\<exists>rows. those (map (plan_row cfg bl now ctx strat) ss) = Some rows" for ss
    by (rule those_map_returns)
  then have "\<exists>r. (case slots_between cron_of strat a now of
      Inl e \<Rightarrow> Some (Err e)
    | Inr slots \<Rightarrow> map_option Ok (those (map (plan_row cfg bl now ctx strat) (listed_slots cron_of cfg bl strat slots)))) = Some r" for a
    by (cases "slots_between cron_of strat a now") auto
  ultimately show ?thesis
    unfolding plan_strategy_def by (elim exE) (simp split: sum.split anchor.split)
qed

text \<open>
  C34. For a configuration that the validation accepts, the slot table is computed: the walks up the
  chain of bases, which have no bound of their own, end for every strategy, list and time.
\<close>

theorem plan_returns:
  assumes "validate_bundle_strategies cron_of cfg = Ok ()"
  shows "\<exists>r. plan_with cron_of cfg bl now ctx = Some r"
proof -
  have "\<exists>r. plan_strategies cron_of cfg bl now ctx ss = Some r" for ss
  proof (induction ss)
    case (Cons s ss)
    then show ?case using plan_strategy_returns [OF assms, of bl now ctx s] by (auto split: sum.split)
  qed simp
  then show ?thesis by (auto simp: plan_with_def)
qed

section \<open>What the table hands out\<close>

lemma entries_of_set [simp]: "set (entries_of bl n) = {b \<in> set (bl_bundles bl). be_strategy b = n}"
  by (auto simp: entries_of_def)

lemma find_SomeD: "find P xs = Some x \<Longrightarrow> x \<in> set xs \<and> P x"
  by (auto simp: find_Some_iff)

lemma base_for_slot_SomeD: "base_for_slot bl n slot = Some b \<Longrightarrow> b \<in> set (bl_bundles bl) \<and> be_strategy b = n \<and> be_creation_token b \<le> slot"
  unfolding base_for_slot_def by (drule find_SomeD) simp

lemma find_map_SomeD: "find_map f xs = Some y \<Longrightarrow> \<exists>x\<in>set xs. f x = Some y"
  by (induction xs) (auto split: option.splits)

lemma base_for_incremental_bound:
  assumes "validate_bundle_strategies cron_of cfg = Ok ()" "0 < slot"
    and "base_for_incremental cfg bl strat slot = Some (Some b)"
  shows "b \<in> set (bl_bundles bl) \<and> be_creation_token b \<le> slot"
proof -
  obtain n where n: "bs_base strat = Some n" using assms(3) by (cases "bs_base strat") (auto simp: base_for_incremental_def)
  obtain ns where ns: "chain_up cfg n = Some ns" using chain_up_returns [OF assms(1)] by blast
  let ?up = "find_map (\<lambda>m. base_for_slot bl m slot) ns"
  let ?own = "find (\<lambda>b. be_creation_token b < slot) (rev (entries_of bl (bs_name strat)))"
  have up: "b \<in> set (bl_bundles bl) \<and> be_creation_token b \<le> slot" if "?up = Some b" for b
    using that by (auto dest!: find_map_SomeD base_for_slot_SomeD)
  have own: "b \<in> set (bl_bundles bl) \<and> be_creation_token b \<le> slot" if "?own = Some b" for b
    using find_SomeD [OF that] by auto
  have "?up = Some b \<or> ?own = Some b"
    using assms(2,3) n base_for_slot_chain_up [OF ns, of bl slot]
    by (auto simp: base_for_incremental_def Let_def split: if_splits option.splits)
  then show ?thesis using up own by blast
qed

definition fires_within :: "int set \<Rightarrow> system_time \<Rightarrow> system_time \<Rightarrow> int set" where
  "fires_within F a b = {f \<in> F. a < f * NANOS \<and> f * NANOS \<le> b}"

lemma finite_fires_within: "fires_at cron F \<Longrightarrow> finite (fires_within F a b)"
  by (rule finite_subset [of _ "{0..i64_max}"]) (auto simp: fires_within_def fires_at_def)

lemma sorted_list_of_set_least:
  assumes "finite S" "\<And>x. x \<in> S \<Longrightarrow> f < x"
  shows "sorted_list_of_set (insert f S) = f # sorted_list_of_set S"
proof -
  have "f \<notin> S" using assms(2) by blast
  then have "sorted_list_of_set (insert f S) = insort f (sorted_list_of_set S)" using assms(1) by simp
  also have "\<dots> = f # sorted_list_of_set S"
    by (rule insort_is_Cons) (use assms in \<open>force\<close>)
  finally show ?thesis .
qed

text \<open>The walk over a schedule lists its fires in order, up to its bound on their number.\<close>

lemma slots_loop_fires:
  assumes "fires_at cron F"
  shows "map int (slots_loop left cron cursor until) = take left (sorted_list_of_set (fires_within F cursor until))"
proof (induction left arbitrary: cursor)
  case (Suc left)
  show ?case
  proof (rule next_fire_cases [OF assms, of cursor])
    assume n: "next_fire_after cron cursor = None" "\<And>f. f \<in> F \<Longrightarrow> f * NANOS \<le> cursor"
    then have "fires_within F cursor until = {}" by (force simp: fires_within_def)
    then show ?thesis using n(1) by simp
  next
    fix f
    assume f: "next_fire_after cron cursor = Some (f * NANOS)" "f \<in> F" "cursor < f * NANOS"
      "\<And>g. g \<in> F \<Longrightarrow> cursor < g * NANOS \<Longrightarrow> f \<le> g" "0 \<le> f" "f \<le> i64_max"
    show ?thesis
    proof (cases "until < f * NANOS")
      case True
      have "fires_within F cursor until = {}"
      proof (rule equals0I)
        fix g assume "g \<in> fires_within F cursor until"
        then have "f \<le> g" "g * NANOS \<le> until" using f(4) by (auto simp: fires_within_def)
        then show False using True NANOS_pos mult_right_mono [of f g NANOS] by linarith
      qed
      then show ?thesis using True f(1) by simp
    next
      case False
      have eq: "fires_within F cursor until = insert f (fires_within F (f * NANOS) until)"
      proof (rule set_eqI)
        fix g
        have "f < g \<Longrightarrow> f * NANOS < g * NANOS" using NANOS_pos by simp
        then show "g \<in> fires_within F cursor until \<longleftrightarrow> g \<in> insert f (fires_within F (f * NANOS) until)"
          using f(2-4) False by (force simp: fires_within_def)
      qed
      have "sorted_list_of_set (fires_within F cursor until) = f # sorted_list_of_set (fires_within F (f * NANOS) until)"
        unfolding eq
        by (rule sorted_list_of_set_least [OF finite_fires_within [OF assms]]) (use NANOS_pos in \<open>auto simp: fires_within_def\<close>)
      then show ?thesis using False f(1,5) Suc.IH by (simp add: unix_now_whole)
    qed
  qed
qed simp

lemma slots_between_fires:
  assumes "slots_between cron_of strat a b = Ok slots" "cron_of (trim_ws (bs_schedule strat)) = Some cron" "fires_at cron F"
    and "x \<in> set slots"
  shows "int x \<in> F \<and> a < from_epoch x \<and> from_epoch x \<le> b"
proof -
  have "slots = slots_loop 20000 cron a b" using assms(1,2) by (simp add: slots_between_def parse_schedule_def)
  then have "int x \<in> set (take 20000 (sorted_list_of_set (fires_within F a b)))"
    using assms(4) slots_loop_fires [OF assms(3), of 20000 a b] by (metis image_eqI list.set_map)
  then have "int x \<in> fires_within F a b" using finite_fires_within [OF assms(3)] by (auto dest: in_set_takeD)
  then show ?thesis by (simp add: fires_within_def from_epoch_def)
qed

definition fire_time :: "cron \<Rightarrow> int \<Rightarrow> bool" where
  "fire_time cron f \<longleftrightarrow> cron (f * NANOS - 1) = Some f"

definition sane_cron :: "(string \<Rightarrow> cron option) \<Rightarrow> bool" where
  "sane_cron cron_of \<longleftrightarrow> (\<forall>e cron. cron_of e = Some cron \<longrightarrow> (\<exists>F. fires_at cron F))"

lemma fires_at_fire_time:
  assumes "fires_at cron F" "f \<in> F"
  shows "fire_time cron f"
proof -
  have a: "case cron (f * NANOS - 1) of None \<Rightarrow> \<forall>g\<in>F. g * NANOS \<le> f * NANOS - 1
     | Some h \<Rightarrow> h \<in> F \<and> f * NANOS - 1 < h * NANOS \<and> (\<forall>g\<in>F. f * NANOS - 1 < g * NANOS \<longrightarrow> h \<le> g)"
    using assms(1) by (simp add: fires_at_def)
  show ?thesis
  proof (cases "cron (f * NANOS - 1)")
    case None
    then have "f * NANOS \<le> f * NANOS - 1" using a assms(2) by auto
    then show ?thesis by linarith
  next
    case (Some h)
    then have "h \<le> f" "f * NANOS \<le> h * NANOS" using a assms(2) by auto
    then show ?thesis using Some NANOS_pos by (simp add: fire_time_def)
  qed
qed

lemma plan_anchor_epoch: "plan_anchor cron_of cfg bl now strat = Some (Ok (Anchor a)) \<Longrightarrow> \<exists>n. a = from_epoch n"
  by (auto simp: plan_anchor_def Let_def rbind_def split: bundle_kind.splits option.splits sum.splits if_splits)

lemma listed_slots_subset: "x \<in> set (listed_slots cron_of cfg bl strat slots) \<Longrightarrow> x \<in> set slots"
  by (auto simp: listed_slots_def in_set_enumerate_eq)

lemma plan_strategy_row:
  assumes "plan_strategy cron_of cfg bl now ctx strat = Some (Ok rows)" "row \<in> set rows" "sp_status row = SlotMissing"
  obtains a slots where "slots_between cron_of strat (from_epoch a) now = Ok slots" "sp_slot row \<in> set slots"
    "plan_row cfg bl now ctx strat (sp_slot row) = Some row"
proof -
  obtain r where r: "plan_anchor cron_of cfg bl now strat = Some r"
    using assms(1) by (auto simp: plan_strategy_def bind_eq_Some_conv)
  have "\<exists>a. r = Ok (Anchor a)"
    using assms r by (auto simp: plan_strategy_def split: sum.splits anchor.splits)
  then obtain n where n: "r = Ok (Anchor (from_epoch n))" using r plan_anchor_epoch by blast
  then obtain slots where slots: "slots_between cron_of strat (from_epoch n) now = Ok slots"
    "those (map (plan_row cfg bl now ctx strat) (listed_slots cron_of cfg bl strat slots)) = Some rows"
    using assms(1) r by (auto simp: plan_strategy_def split: sum.splits)
  then obtain x where x: "x \<in> set (listed_slots cron_of cfg bl strat slots)" "plan_row cfg bl now ctx strat x = Some row"
    using those_map_SomeD assms(2) by metis
  then have "sp_slot row = x" by (auto simp: plan_row_def bind_eq_Some_conv)
  then show ?thesis using that [OF slots(1)] x listed_slots_subset by metis
qed

lemma case_result_Ok:
  "(case r of Inl e \<Rightarrow> Some (Err e) | Inr x \<Rightarrow> f x) = Some (Ok y) \<longleftrightarrow> (\<exists>x. r = Ok x \<and> f x = Some (Ok y))"
  by (cases r) auto

lemma plan_strategies_row:
  "plan_strategies cron_of cfg bl now ctx ss = Some (Ok rows) \<Longrightarrow> row \<in> set rows \<Longrightarrow>
   \<exists>strat\<in>set ss. \<exists>rs. plan_strategy cron_of cfg bl now ctx strat = Some (Ok rs) \<and> row \<in> set rs"
proof (induction ss arbitrary: rows)
  case (Cons s ss)
  then obtain rs more where p: "plan_strategy cron_of cfg bl now ctx s = Some (Ok rs)"
    "plan_strategies cron_of cfg bl now ctx ss = Some (Ok more)" "rows = rs @ more"
    by (auto simp: bind_eq_Some_conv case_result_Ok rbind_eq_Inr_iff)
  then show ?case using Cons.IH [OF p(2)] Cons.prems(2) by auto
qed simp

lemma plan_row_SomeD:
  "plan_row cfg bl now ctx strat x = Some row \<Longrightarrow>
   sp_strategy row = bs_name strat \<and> sp_kind row = bs_kind strat \<and>
   sp_status row = slot_status_of bl now ctx strat (entries_of bl (bs_name strat)) x (sp_base_id row) \<and>
   (bs_kind strat = Incremental \<longrightarrow>
      map_option (map_option be_id) (base_for_incremental cfg bl strat x) = Some (sp_base_id row))"
  by (auto simp: plan_row_def bind_eq_Some_conv split: bundle_kind.splits)

lemma status_missing:
  assumes "slot_status_of bl now ctx strat built slot base_id = SlotMissing"
  shows "\<forall>b\<in>set built. be_creation_token b \<noteq> slot \<and> be_slot b \<noteq> slot"
    and "\<forall>k\<in>set (bl_skipped bl). \<not> (sk_strategy k = bs_name strat \<and> sk_slot k = slot \<and>
      sk_base_id k = (case base_id of None \<Rightarrow> [] | Some i \<Rightarrow> i))"
    and "bs_kind strat = Full \<Longrightarrow> pc_can_full ctx"
    and "bs_kind strat = Incremental \<Longrightarrow> pc_can_incremental ctx \<and> slot_closed slot now \<and> base_id \<noteq> None"
  using assms
  by (auto simp: slot_status_of_def Let_def find_None_iff split: option.splits if_splits bundle_kind.splits)

text \<open>
  C19. The work that the table hands out can be done and is not done twice: a missing slot is a fire of
  its strategy that has come, no bundle of the strategy carries it and no verdict is recorded against
  it on this base; a full is handed out only where fulls can be cut; an incremental only when its
  window is closed, on a base that is in the list and not newer than the slot.
\<close>

theorem plan_work_is_buildable:
  assumes "validate_bundle_strategies cron_of cfg = Ok ()" "sane_cron cron_of"
    and "plan_with cron_of cfg bl now ctx = Some (Ok rows)" "row \<in> set rows" "sp_status row = SlotMissing"
  shows "\<exists>strat cron. strat \<in> set (bc_strategy cfg) \<and> bs_name strat = sp_strategy row \<and> bs_kind strat = sp_kind row \<and>
    cron_of (trim_ws (bs_schedule strat)) = Some cron \<and> fire_time cron (int (sp_slot row)) \<and> from_epoch (sp_slot row) \<le> now \<and>
    (\<forall>b\<in>set (bl_bundles bl). be_strategy b = sp_strategy row \<longrightarrow> be_creation_token b \<noteq> sp_slot row \<and> be_slot b \<noteq> sp_slot row) \<and>
    (\<forall>k\<in>set (bl_skipped bl). \<not> (sk_strategy k = sp_strategy row \<and> sk_slot k = sp_slot row \<and>
       sk_base_id k = (case sp_base_id row of None \<Rightarrow> [] | Some i \<Rightarrow> i))) \<and>
    (case sp_kind row of
       Full \<Rightarrow> pc_can_full ctx
     | Incremental \<Rightarrow> pc_can_incremental ctx \<and> slot_closed (sp_slot row) now \<and>
         (\<exists>b\<in>set (bl_bundles bl). sp_base_id row = Some (be_id b) \<and> be_creation_token b \<le> sp_slot row))"
proof -
  let ?x = "sp_slot row"
  obtain all where all: "plan_strategies cron_of cfg bl now ctx (bc_strategy cfg) = Some (Ok all)" "row \<in> set all"
    using assms(3,4) by (auto simp: plan_with_def rbind_eq_Inr_iff)
  then obtain strat rs where strat: "strat \<in> set (bc_strategy cfg)" "plan_strategy cron_of cfg bl now ctx strat = Some (Ok rs)"
    "row \<in> set rs" using plan_strategies_row by blast
  from strat(2,3) assms(5) obtain a slots where slots: "slots_between cron_of strat (from_epoch a) now = Ok slots" "?x \<in> set slots"
    "plan_row cfg bl now ctx strat ?x = Some row" by (rule plan_strategy_row)
  obtain cron where cron: "cron_of (trim_ws (bs_schedule strat)) = Some cron"
    using slots(1) by (auto simp: slots_between_def parse_schedule_def rbind_def split: option.splits)
  then obtain F where F: "fires_at cron F" using assms(2) by (auto simp: sane_cron_def)
  note fire = slots_between_fires [OF slots(1) cron F slots(2)]
  have "0 < ?x" using fire by (cases ?x) (auto simp: from_epoch_def NANOS_def)
  have f: "sp_strategy row = bs_name strat" "sp_kind row = bs_kind strat"
    "slot_status_of bl now ctx strat (entries_of bl (bs_name strat)) ?x (sp_base_id row) = SlotMissing"
    using plan_row_SomeD [OF slots(3)] assms(5) by simp_all
  note m = status_missing [OF f(3)]
  have base: "\<exists>b\<in>set (bl_bundles bl). sp_base_id row = Some (be_id b) \<and> be_creation_token b \<le> ?x"
    if inc: "bs_kind strat = Incremental"
  proof -
    obtain b' where "base_for_incremental cfg bl strat ?x = Some (Some b')" "sp_base_id row = Some (be_id b')"
      using plan_row_SomeD [OF slots(3)] inc m(4) [OF inc] by auto
    then show ?thesis using base_for_incremental_bound [OF assms(1) \<open>0 < ?x\<close>] by blast
  qed
  show ?thesis
    using strat(1) cron fires_at_fire_time [OF F] fire m base unfolding f(1,2)
    by (intro exI [of _ strat] exI [of _ cron]) (auto split: bundle_kind.split)
qed

definition two_step :: bundles_config where
  "two_step = \<lparr>bc_strategy =
      [\<lparr>bs_name = ''w'', bs_kind = Full, bs_schedule = ''@a'', bs_base = None, bs_keep = 1, bs_refs = [], bs_backfill_max = 0,
        bs_min_commits = None, bs_filter = None, bs_chain = False\<rparr>,
       \<lparr>bs_name = ''d'', bs_kind = Incremental, bs_schedule = ''@a'', bs_base = Some ''w'', bs_keep = 0, bs_refs = [],
        bs_backfill_max = 0, bs_min_commits = None, bs_filter = None, bs_chain = False\<rparr>],
      bc_min_commits = 0, bc_serve_via = Proxy, bc_advertise_filtered = False, bc_signed_url_for = [], bc_main_only = True,
      bc_extra_refs = []\<rparr>"

definition entry_at :: "string \<Rightarrow> string \<Rightarrow> nat \<Rightarrow> string \<Rightarrow> bundle_entry" where
  "entry_at i strat t b =
     \<lparr>be_id = i, be_key = ''bundles/'' @ i, be_strategy = strat, be_kind = if b = [] then ''full'' else ''incremental'',
      be_creation_token = t, be_seq = 1, be_size = 1, be_base_id = b, be_created_at = None, be_version = [], be_tips = [],
      be_slot = t, be_filter = []\<rparr>"

definition list_with :: "bundle_entry list \<Rightarrow> bundle_list" where
  "list_with es = \<lparr>bl_mode = ''all'', bl_heuristic = ''creationToken'', bl_bundles = es, bl_updated_at = None, bl_skipped = []\<rparr>"

definition one_schedule :: "string \<Rightarrow> cron option" where
  "one_schedule e = (if e = ''@a'' then Some two_fires else None)"

lemma one_schedule_sane: "sane_cron one_schedule"
  using two_fires_at by (auto simp: sane_cron_def one_schedule_def split: if_splits)

lemma trim_at_a: "trim_ws ''@a'' = ''@a''"
  by code_simp

lemma two_step_valid: "validate_bundle_strategies one_schedule two_step = Ok ()"
  by (simp add: validate_bundle_strategies_def two_step_def check_strategy_def Let_def trim_at_a one_schedule_def starts_with_def
      numeral_eq_Suc find_strategy_def)

lemma slots_loop_numeral:
  "slots_loop (numeral k) cron cursor until =
     (case next_fire_after cron cursor of
        None \<Rightarrow> []
      | Some f \<Rightarrow> if f > until then [] else unix_now f # slots_loop (pred_numeral k) cron f until)"
  by (simp add: numeral_eq_Suc)

lemma two_slots: "slots_loop 20000 two_fires (3600 * NANOS) (9000 * NANOS) = [7200]"
  by (simp add: slots_loop_numeral next_fire_after_def two_fires_def cron_to_system_def NANOS_def unix_now_def)

definition two_rows :: "slot_plan list" where
  "two_rows = [\<lparr>sp_strategy = ''w'', sp_kind = Full, sp_slot = 7200, sp_status = SlotMissing, sp_base_id = None\<rparr>,
     \<lparr>sp_strategy = ''d'', sp_kind = Incremental, sp_slot = 7200, sp_status = SlotMissing, sp_base_id = Some ''w-3600''\<rparr>]"

definition all_here :: plan_context where
  "all_here = \<lparr>pc_first_state = None, pc_can_full = True, pc_can_incremental = True, pc_wrong_host_reason = None\<rparr>"

lemma two_step_plan:
  "plan_with one_schedule two_step (list_with [entry_at ''w-3600'' ''w'' 3600 []]) (9000 * NANOS) all_here = Some (Ok two_rows)"
  using two_slots
  by (simp add: plan_with_def two_step_def plan_strategy_def plan_anchor_def entries_of_def list_with_def entry_at_def last_opt_def
      from_epoch_def slots_between_def parse_schedule_def trim_at_a one_schedule_def listed_slots_def enumerate_eq_zip
      wanted_from_def plan_row_def slot_status_of_def Let_def slot_closed_def SLOT_CLOSE_GRACE_def NANOS_def all_here_def
      base_for_incremental_def base_for_slot_chain.simps base_for_slot_def chain_up.simps base_of_def find_strategy_def
      INCREMENTALS_KEPT_def two_rows_def)

theorem plan_returns_witness:
  "\<exists>r. plan_with one_schedule two_step (list_with []) (9000 * NANOS) all_here = Some r"
  by (rule plan_returns [OF two_step_valid])

theorem plan_work_is_buildable_witness:
  "\<exists>b\<in>set (bl_bundles (list_with [entry_at ''w-3600'' ''w'' 3600 []])). sp_base_id (two_rows ! 1) = Some (be_id b) \<and>
     be_creation_token b \<le> sp_slot (two_rows ! 1)"
  using plan_work_is_buildable [OF two_step_valid one_schedule_sane two_step_plan, of "two_rows ! 1"]
  by (simp add: two_rows_def) blast

end
