(* ===== verification/Bundle_Retention.thy ===== *)
theory Bundle_Retention
  imports Bundle_Slots
begin

text \<open>
  Which bundles stay listed (\<^verbatim>\<open>walgit-bundle/src/slots.rs\<close>, \<open>retain\<close>).  The set of ids to keep grows as the
  code computes it: the newest fulls, then strategy by strategy and group by group the
  incrementals.  A group is the part of the calendar from one kept full to the next.
\<close>

section \<open>Definitions\<close>

definition keep_fulls :: "bundles_config \<Rightarrow> bundle_list \<Rightarrow> string set" where
  "keep_fulls cfg bl =
     foldl (\<lambda>K strat. K \<union> be_id ` set (take (max (bs_keep strat) 1) (rev (entries_of bl (bs_name strat))))) {}
       (filter (\<lambda>s. bs_kind s = Full) (bc_strategy cfg))"

definition full_tokens :: "bundle_list \<Rightarrow> string set \<Rightarrow> nat list" where
  "full_tokens bl K =
     remdups_adj (sort (map be_creation_token (filter (\<lambda>b. be_id b \<in> K \<and> be_base_id b = []) (bl_bundles bl))))"

definition group_of :: "nat list \<Rightarrow> bundle_entry \<Rightarrow> nat" where
  "group_of toks b =
     (let below = length (takeWhile (\<lambda>t. t < be_creation_token b) toks)
      in if be_base_id b = [] then below else below - 1)"

definition chain_step :: "nat \<Rightarrow> bool \<Rightarrow> string set \<times> bool \<Rightarrow> bundle_entry \<Rightarrow> string set \<times> bool" where
  "chain_step base_newest full_kept st b =
     (let (K, first) = st
      in if be_creation_token b \<le> base_newest then st
         else (if be_base_id b = [] \<or> be_base_id b \<in> K \<or> (first \<and> full_kept) then insert (be_id b) K else K, False))"

definition base_newest :: "bundle_list \<Rightarrow> nat list \<Rightarrow> bundle_strategy \<Rightarrow> string set \<Rightarrow> nat \<Rightarrow> nat" where
  "base_newest bl toks strat K g =
     (case bs_base strat of
        None \<Rightarrow> 0
      | Some n \<Rightarrow>
          foldr max (map be_creation_token (filter (\<lambda>b. be_id b \<in> K \<and> group_of toks b = g) (entries_of bl n))) 0)"

definition retain_group :: "bundle_list \<Rightarrow> nat list \<Rightarrow> bundle_strategy \<Rightarrow> string set \<Rightarrow> nat \<Rightarrow> string set" where
  "retain_group bl toks strat K g =
     (let in_group = filter (\<lambda>b. group_of toks b = g) (entries_of bl (bs_name strat))
      in if bs_chain strat
         then fst (foldl (chain_step (base_newest bl toks strat K g) (g < length toks)) (K, True) in_group)
         else K \<union> be_id ` set (take INCREMENTALS_KEPT
                (filter (\<lambda>b. be_base_id b = [] \<or> be_base_id b \<in> K) (rev in_group))))"

definition retain_strategy :: "bundle_list \<Rightarrow> nat list \<Rightarrow> string set \<Rightarrow> bundle_strategy \<Rightarrow> string set" where
  "retain_strategy bl toks K strat = foldl (retain_group bl toks strat) K [0..<Suc (length toks)]"

definition retain_keep :: "bundles_config \<Rightarrow> bundle_list \<Rightarrow> string set" where
  "retain_keep cfg bl =
     (let K = keep_fulls cfg bl
      in foldl (retain_strategy bl (full_tokens bl K)) K (filter (\<lambda>s. bs_kind s = Incremental) (bc_strategy cfg)))"

definition retain :: "bundles_config \<Rightarrow> bundle_list \<Rightarrow> string list \<times> bundle_list" where
  "retain cfg bl =
     (let K = retain_keep cfg bl
      in (map be_key (filter (\<lambda>b. be_id b \<notin> K) (bl_bundles bl)),
          bl\<lparr>bl_bundles := filter (\<lambda>b. be_id b \<in> K) (bl_bundles bl)\<rparr>))"

section \<open>The kept set only grows\<close>

lemma foldl_grows:
  assumes "\<And>K x. K \<subseteq> f K x"
  shows "K \<subseteq> foldl f K xs"
proof (induction xs arbitrary: K)
  case (Cons x xs)
  show ?case using assms [of K x] Cons [of "f K x"] by auto
qed simp

lemma chain_step_grows: "fst st \<subseteq> fst (chain_step m full st b)"
  by (auto simp: chain_step_def Let_def split: prod.split)

lemma chain_steps_grow: "fst st \<subseteq> fst (foldl (chain_step m full) st bs)"
proof (induction bs arbitrary: st)
  case (Cons b bs)
  show ?case using chain_step_grows [of st m full b] Cons [of "chain_step m full st b"] by auto
qed simp

lemma retain_group_grows: "K \<subseteq> retain_group bl toks strat K g"
  using chain_steps_grow [of "(K, True)"] by (auto simp: retain_group_def Let_def)

lemma retain_strategy_grows: "K \<subseteq> retain_strategy bl toks K strat"
  unfolding retain_strategy_def by (rule foldl_grows) (rule retain_group_grows)

lemma keep_fulls_kept: "keep_fulls cfg bl \<subseteq> retain_keep cfg bl"
  unfolding retain_keep_def Let_def by (rule foldl_grows) (rule retain_strategy_grows)

lemma foldl_Un: "foldl (\<lambda>K s. K \<union> g s) K ss = K \<union> (\<Union>s\<in>set ss. g s)"
  by (induction ss arbitrary: K) auto

lemma keep_fulls_iff:
  "i \<in> keep_fulls cfg bl \<longleftrightarrow>
   (\<exists>s\<in>set (bc_strategy cfg). bs_kind s = Full \<and> i \<in> be_id ` set (take (max (bs_keep s) 1) (rev (entries_of bl (bs_name s)))))"
  unfolding keep_fulls_def foldl_Un by auto

section \<open>Retention is stable\<close>

abbreviation keeping :: "bundle_list \<Rightarrow> string set \<Rightarrow> bundle_list" where
  "keeping bl R \<equiv> bl\<lparr>bl_bundles := filter (\<lambda>b. be_id b \<in> R) (bl_bundles bl)\<rparr>"

lemma entries_of_keeping: "entries_of (keeping bl R) n = filter (\<lambda>b. be_id b \<in> R) (entries_of bl n)"
  by (simp add: entries_of_def filter_sort conj_commute)

lemma take_filter_prefix: "(\<And>x. x \<in> set (take k xs) \<Longrightarrow> P x) \<Longrightarrow> take k (filter P xs) = take k xs"
  by (induction xs arbitrary: k) (auto simp: take_Cons split: nat.splits)

lemma foldl_agree:
  assumes "\<And>K x. K \<subseteq> f K x" "\<And>K x. f K x \<subseteq> R \<Longrightarrow> g K x = f K x"
  shows "foldl f K xs \<subseteq> R \<Longrightarrow> foldl g K xs = foldl f K xs"
proof (induction xs arbitrary: K)
  case (Cons x xs)
  have "f K x \<subseteq> foldl f (f K x) xs" using assms(1) by (rule foldl_grows)
  then have "g K x = f K x" using Cons.prems assms(2) by auto
  then show ?case using Cons by simp
qed simp

lemma chain_steps_agree:
  "fst (foldl (chain_step m full) (K, f1) bs) \<subseteq> R \<Longrightarrow> f1 = f2 \<or> \<not> full \<Longrightarrow>
   fst (foldl (chain_step m full) (K, f2) (filter (\<lambda>b. be_id b \<in> R) bs)) = fst (foldl (chain_step m full) (K, f1) bs)"
proof (induction bs arbitrary: K f1 f2)
  case (Cons b bs)
  note grow = chain_steps_grow [of "chain_step m full (K, f1) b" m full bs]
  show ?case
  proof (cases "be_creation_token b \<le> m")
    case True
    then show ?thesis using Cons by (auto simp: chain_step_def)
  next
    case False
    let ?ok = "be_base_id b = [] \<or> be_base_id b \<in> K \<or> (f1 \<and> full)"
    have s1: "chain_step m full (K, f1) b = (if ?ok then insert (be_id b) K else K, False)"
      and s2: "chain_step m full (K, f2) b = (if ?ok then insert (be_id b) K else K, False)"
      using False Cons.prems(2) by (auto simp: chain_step_def)
    show ?thesis
    proof (cases "be_id b \<in> R")
      case True
      then show ?thesis using Cons.IH [of "if ?ok then insert (be_id b) K else K" False False] Cons.prems(1) s1 s2 by simp
    next
      case notin: False
      then have "\<not> ?ok" using grow Cons.prems(1) s1 by auto
      then show ?thesis using Cons.IH [of K False f2] Cons.prems s1 notin by auto
    qed
  qed
qed simp

lemma base_newest_keeping: "K \<subseteq> R \<Longrightarrow> base_newest (keeping bl R) toks strat K g = base_newest bl toks strat K g"
proof -
  assume "K \<subseteq> R"
  then have "filter (\<lambda>b. be_id b \<in> K \<and> group_of toks b = g) (filter (\<lambda>b. be_id b \<in> R) es) =
      filter (\<lambda>b. be_id b \<in> K \<and> group_of toks b = g) es" for es
    by (auto intro: filter_cong)
  then show ?thesis by (simp only: base_newest_def entries_of_keeping)
qed

lemma retain_group_keeping:
  assumes "retain_group bl toks strat K g \<subseteq> R"
  shows "retain_group (keeping bl R) toks strat K g = retain_group bl toks strat K g"
proof -
  let ?es = "entries_of bl (bs_name strat)"
  let ?G = "\<lambda>b. group_of toks b = g" and ?R = "\<lambda>b. be_id b \<in> R" and ?Q = "\<lambda>b. be_base_id b = [] \<or> be_base_id b \<in> K"
  have K: "K \<subseteq> R" using assms retain_group_grows by blast
  have swap: "filter ?G (filter ?R ?es) = filter ?R (filter ?G ?es)" by (simp add: conj_commute)
  show ?thesis
  proof (cases "bs_chain strat")
    case True
    let ?step = "chain_step (base_newest bl toks strat K g) (g < length toks)"
    have "fst (foldl ?step (K, True) (filter ?R (filter ?G ?es))) = fst (foldl ?step (K, True) (filter ?G ?es))"
      by (rule chain_steps_agree) (use assms True in \<open>simp_all add: retain_group_def Let_def\<close>)
    then show ?thesis using True
      by (simp only: retain_group_def Let_def entries_of_keeping swap base_newest_keeping [OF K] if_True)
  next
    case False
    have "x \<in> set (take INCREMENTALS_KEPT (filter ?Q (rev (filter ?G ?es)))) \<Longrightarrow> ?R x" for x
      using assms False by (auto simp: retain_group_def)
    then have "take INCREMENTALS_KEPT (filter ?R (filter ?Q (rev (filter ?G ?es)))) =
        take INCREMENTALS_KEPT (filter ?Q (rev (filter ?G ?es)))" by (rule take_filter_prefix)
    moreover have "filter ?Q (rev (filter ?R (filter ?G ?es))) = filter ?R (filter ?Q (rev (filter ?G ?es)))"
      by (simp only: rev_filter [symmetric]) (simp add: conj_commute conj_left_commute)
    ultimately show ?thesis using False
      by (simp only: retain_group_def Let_def entries_of_keeping swap if_False)
  qed
qed

lemma retain_keep_keeping: "retain_keep cfg (keeping bl (retain_keep cfg bl)) = retain_keep cfg bl"
proof -
  let ?R = "retain_keep cfg bl" and ?K = "keep_fulls cfg bl"
  let ?S = "filter (\<lambda>s. bs_kind s = Incremental) (bc_strategy cfg)"
  have fulls: "keep_fulls cfg (keeping bl ?R) = ?K"
  proof -
    have "take (max (bs_keep s) 1) (filter (\<lambda>b. be_id b \<in> ?R) (rev (entries_of bl (bs_name s)))) =
        take (max (bs_keep s) 1) (rev (entries_of bl (bs_name s)))" if "s \<in> set (bc_strategy cfg)" "bs_kind s = Full" for s
      by (rule take_filter_prefix) (use keep_fulls_kept keep_fulls_iff that in blast)
    then show ?thesis by (auto simp: set_eq_iff keep_fulls_iff entries_of_keeping rev_filter)
  qed
  have toks: "full_tokens (keeping bl ?R) ?K = full_tokens bl ?K"
  proof -
    have "filter (\<lambda>b. be_id b \<in> ?K \<and> be_base_id b = []) (bl_bundles (keeping bl ?R)) =
        filter (\<lambda>b. be_id b \<in> ?K \<and> be_base_id b = []) (bl_bundles bl)"
      using keep_fulls_kept [of cfg bl] by (auto intro: filter_cong)
    then show ?thesis by (simp only: full_tokens_def)
  qed
  have "retain_strategy (keeping bl ?R) toks K strat = retain_strategy bl toks K strat"
    if "retain_strategy bl toks K strat \<subseteq> ?R" for toks K strat
    using that unfolding retain_strategy_def by (intro foldl_agree retain_group_grows retain_group_keeping)
  moreover have R: "?R = foldl (retain_strategy bl (full_tokens bl ?K)) ?K ?S" by (simp add: retain_keep_def Let_def)
  ultimately have "foldl (retain_strategy (keeping bl ?R) (full_tokens bl ?K)) ?K ?S = foldl (retain_strategy bl (full_tokens bl ?K)) ?K ?S"
    by (intro foldl_agree [where R = ?R] retain_strategy_grows) auto
  then show ?thesis unfolding retain_keep_def [of cfg "keeping bl ?R"] Let_def fulls toks R [symmetric] .
qed

text \<open>
  Retention is stable: what it leaves, it leaves again.  Applying it to the list it produced removes
  nothing and changes nothing, whatever the configuration and the list, so a maintainer that finds
  nothing to prune can rely on it.
\<close>

theorem retain_idempotent:
  "retain cfg (snd (retain cfg bl)) = ([], snd (retain cfg bl))"
  using retain_keep_keeping [of cfg bl] by (simp add: retain_def Let_def filter_empty_conv)

section \<open>No orphans\<close>

lemma chain_steps_from:
  "i \<in> fst (foldl (chain_step m full) (K, first) bs) \<Longrightarrow> i \<notin> K \<Longrightarrow>
   \<exists>b\<in>set bs. be_id b = i \<and>
     (be_base_id b = [] \<or> be_base_id b \<in> fst (foldl (chain_step m full) (K, first) bs) \<or> full)"
proof (induction bs arbitrary: K first)
  case (Cons b bs)
  let ?st = "chain_step m full (K, first) b"
  obtain K1 f1 where st: "?st = (K1, f1)" by fastforce
  show ?case
  proof (cases "i \<in> K1")
    case True
    then have "be_id b = i" "be_base_id b = [] \<or> be_base_id b \<in> K \<or> full"
      using st Cons.prems(2) by (auto simp: chain_step_def split: if_splits)
    moreover have "K \<subseteq> fst (foldl (chain_step m full) (K, first) (b # bs))"
      using chain_steps_grow [of "(K, first)" m full "b # bs"] by simp
    ultimately show ?thesis by auto
  next
    case False
    then show ?thesis using Cons.IH [of K1 f1] Cons.prems st by auto
  qed
qed simp

text \<open>What justifies keeping an incremental of a strategy.\<close>

definition linked :: "nat list \<Rightarrow> bundle_strategy \<Rightarrow> string set \<Rightarrow> bundle_entry \<Rightarrow> bool" where
  "linked toks strat K b \<longleftrightarrow>
     be_base_id b = [] \<or> be_base_id b \<in> K \<or> (bs_chain strat \<and> group_of toks b < length toks)"

lemma retain_group_from:
  assumes "i \<in> retain_group bl toks strat K g" "i \<notin> K"
  shows "\<exists>b\<in>set (bl_bundles bl). be_id b = i \<and> be_strategy b = bs_name strat \<and> linked toks strat (retain_group bl toks strat K g) b"
proof (cases "bs_chain strat")
  case True
  then show ?thesis using assms chain_steps_from
    by (fastforce simp: retain_group_def Let_def linked_def)
next
  case False
  then show ?thesis using assms
    by (auto simp: retain_group_def Let_def linked_def dest!: in_set_takeD)
qed

lemma linked_mono: "linked toks strat K b \<Longrightarrow> K \<subseteq> K' \<Longrightarrow> linked toks strat K' b"
  by (auto simp: linked_def)

lemma foldl_from:
  assumes "\<And>K x. K \<subseteq> f K x" "\<And>K x i. x \<in> set xs \<Longrightarrow> i \<in> f K x \<Longrightarrow> i \<notin> K \<Longrightarrow> P x (f K x) i"
    and "\<And>x K K' i. P x K i \<Longrightarrow> K \<subseteq> K' \<Longrightarrow> P x K' i"
  shows "i \<in> foldl f K xs \<Longrightarrow> i \<notin> K \<Longrightarrow> \<exists>x\<in>set xs. P x (foldl f K xs) i"
  using assms(2)
proof (induction xs arbitrary: K)
  case (Cons x xs)
  have g: "f K x \<subseteq> foldl f (f K x) xs" using assms(1) by (rule foldl_grows)
  show ?case
  proof (cases "i \<in> f K x")
    case True
    then show ?thesis using Cons.prems(2,3) assms(3) g by fastforce
  next
    case False
    then show ?thesis using Cons.IH [of "f K x"] Cons.prems by auto
  qed
qed simp

definition kept_by :: "bundle_list \<Rightarrow> nat list \<Rightarrow> bundle_strategy \<Rightarrow> string set \<Rightarrow> string \<Rightarrow> bool" where
  "kept_by bl toks strat K i \<longleftrightarrow>
     (\<exists>b\<in>set (bl_bundles bl). be_id b = i \<and> be_strategy b = bs_name strat \<and> linked toks strat K b)"

lemma kept_by_mono: "kept_by bl toks strat K i \<Longrightarrow> K \<subseteq> K' \<Longrightarrow> kept_by bl toks strat K' i"
  unfolding kept_by_def using linked_mono by blast

lemma retain_strategy_from:
  assumes "i \<in> retain_strategy bl toks K strat" "i \<notin> K"
  shows "kept_by bl toks strat (retain_strategy bl toks K strat) i"
proof -
  have "\<exists>x\<in>set [0..<Suc (length toks)]. kept_by bl toks strat (foldl (retain_group bl toks strat) K [0..<Suc (length toks)]) i"
    by (rule foldl_from [where P = "\<lambda>_. kept_by bl toks strat"])
      (use assms retain_group_grows retain_group_from kept_by_mono in \<open>auto simp: retain_strategy_def kept_by_def [symmetric] simp del: upt_Suc\<close>)
  then show ?thesis by (auto simp: retain_strategy_def simp del: upt_Suc)
qed

lemma retain_keep_from:
  assumes "i \<in> retain_keep cfg bl" "i \<notin> keep_fulls cfg bl"
  shows "\<exists>s\<in>set (bc_strategy cfg). bs_kind s = Incremental \<and>
    kept_by bl (full_tokens bl (keep_fulls cfg bl)) s (retain_keep cfg bl) i"
proof -
  let ?toks = "full_tokens bl (keep_fulls cfg bl)"
  let ?S = "filter (\<lambda>s. bs_kind s = Incremental) (bc_strategy cfg)"
  have "\<exists>s\<in>set ?S. kept_by bl ?toks s (foldl (retain_strategy bl ?toks) (keep_fulls cfg bl) ?S) i"
    by (rule foldl_from [where P = "\<lambda>s. kept_by bl ?toks s"])
      (use assms retain_strategy_grows retain_strategy_from kept_by_mono in \<open>auto simp: retain_keep_def Let_def\<close>)
  then show ?thesis by (auto simp: retain_keep_def Let_def)
qed

lemma strict_tokens: "sorted_wrt (<) (full_tokens bl K)"
proof -
  have "sorted_wrt (<) (remdups_adj xs)" if "sorted xs" for xs :: "nat list"
    using that
  proof (induction xs rule: remdups_adj.induct)
    case (3 x y xs)
    then show ?case by (auto simp: order_le_less)
  qed simp_all
  then show ?thesis by (simp add: full_tokens_def)
qed

lemma takeWhile_below:
  fixes xs :: "nat list"
  shows "sorted_wrt (<) xs \<Longrightarrow> g < length xs \<Longrightarrow> takeWhile (\<lambda>t. t < xs ! g) xs = take g xs"
proof (induction xs arbitrary: g)
  case (Cons x xs)
  then show ?case by (cases g) auto
qed simp

lemma group_full:
  assumes "g < length (full_tokens bl K)"
  shows "\<exists>f\<in>set (bl_bundles bl). be_id f \<in> K \<and> be_base_id f = [] \<and> group_of (full_tokens bl K) f = g"
proof -
  let ?toks = "full_tokens bl K"
  have "?toks ! g \<in> set ?toks" using assms by simp
  then obtain f where f: "f \<in> set (bl_bundles bl)" "be_id f \<in> K" "be_base_id f = []" "be_creation_token f = ?toks ! g"
    by (auto simp: full_tokens_def)
  have "group_of ?toks f = g" using f(3,4) assms takeWhile_below [OF strict_tokens assms] by (simp add: group_of_def)
  then show ?thesis using f by blast
qed


definition three_step :: "bool \<Rightarrow> bool \<Rightarrow> bundles_config" where
  "three_step dchain hchain = two_step\<lparr>bc_strategy :=
     map (\<lambda>s. if bs_kind s = Incremental then s\<lparr>bs_chain := dchain\<rparr> else s) (bc_strategy two_step) @
     [\<lparr>bs_name = ''h'', bs_kind = Incremental, bs_schedule = ''@a'', bs_base = Some ''d'', bs_keep = 0, bs_refs = [],
       bs_backfill_max = 0, bs_min_commits = None, bs_filter = None, bs_chain = hchain\<rparr>]\<rparr>"

definition two_weeks :: bundle_list where
  "two_weeks = list_with [entry_at ''w-10'' ''w'' 10 [], entry_at ''d-20'' ''d'' 20 ''w-10'', entry_at ''h-30'' ''h'' 30 ''d-20'',
     entry_at ''h-40'' ''h'' 40 ''h-30'', entry_at ''w-50'' ''w'' 50 [], entry_at ''d-60'' ''d'' 60 ''w-50'',
     entry_at ''h-70'' ''h'' 70 ''d-60'']"


text \<open>
  With chained hourlies the rule keeps what its comment says is pruned: the hourlies of the week before
  the only kept full, whose daily is gone, stay listed.
\<close>

theorem stale_chain_stays_listed:
  "map be_id (bl_bundles (snd (retain (three_step True True)
     (list_with [entry_at ''w-10'' ''w'' 10 [], entry_at ''d-20'' ''d'' 20 ''w-10'', entry_at ''h-30'' ''h'' 30 ''d-20'',
        entry_at ''h-40'' ''h'' 40 ''h-30'', entry_at ''w-50'' ''w'' 50 []])))) = [''h-30'', ''h-40'', ''w-50'']"
  by code_simp

end
