(* ===== verification/Sole_Client.thy ===== *)
theory Sole_Client
  imports Fault_Store
begin

text \<open>
  A bucket with one client.  The locale \<open>sole_client\<close> adds to \<open>object_store\<close> that nobody else writes:
  reads leave every object as it is, and a write that reports an error was applied as a whole or not at
  all.  Laws are given for every kind of body, unconditional deletes and \<open>compose\<close>.  It is interpreted on the
  in-memory backend, on a faulty link to it, and on prefixed views of both.
\<close>

locale sole_client = object_store +
  assumes get_quiet: "invar s \<Longrightarrow> os_get ops s k opts = (rg, s') \<Longrightarrow> view s' = view s"
    and head_quiet: "invar s \<Longrightarrow> os_head ops s k = (rh, s') \<Longrightarrow> view s' = view s"
    and put_effect: "invar s \<Longrightarrow> os_put ops s k body m = (rp, s') \<Longrightarrow> invar s' \<and>
      (case rp of
         Inr meta \<Rightarrow> (\<exists>b. body_bytes body = Ok b \<and> view s' = (view s)(k \<mapsto> (meta_version meta, b)))
       | Inl e \<Rightarrow> view s' = view s \<or>
           (\<exists>b v. body_bytes body = Ok b \<and> \<not> is_precondition_failed e \<and> view s' = (view s)(k \<mapsto> (v, b))))"
    and delete_effect: "invar s \<Longrightarrow> os_delete ops s k iv = (rd, s') \<Longrightarrow> invar s' \<and>
      (view s' = view s \<or> view s' = (view s)(k := None))"
    and compose_effect: "invar s \<Longrightarrow> os_compose ops s k srcs m = (rc, s') \<Longrightarrow> invar s' \<and>
      (case rc of
         Inr meta \<Rightarrow> (\<exists>b. view s' = (view s)(k \<mapsto> (meta_version meta, b)))
       | Inl e \<Rightarrow> view s' = view s \<or> (\<exists>x. view s' = (view s)(k \<mapsto> x)))"
begin

lemma get_bytes_quiet:
  assumes "invar s" "get_bytes ops s k = (r, s')"
  shows "invar s' \<and> view s' = view s"
proof -
  obtain g t where g: "os_get ops s k default_get = (g, t)" by (cases "os_get ops s k default_get")
  then show ?thesis using assms get_law [OF assms(1) g] get_quiet [OF assms(1) g]
    by (auto simp: get_bytes_def split: sum.splits)
qed

lemma get_bytes_exact:
  assumes "invar s" "get_bytes ops s k = (Ok r, s')"
  shows "case r of None \<Rightarrow> view s k = None | Some (meta, d) \<Rightarrow> view s k = Some (meta_version meta, d)"
  using get_bytes_law [OF assms] get_bytes_quiet [OF assms] by (auto split: option.splits)

lemma put_bytes_effect:
  assumes "invar s" "put_bytes ops s k b m = (r, s')"
  shows "invar s' \<and>
    (case r of
       Inr meta \<Rightarrow> view s' = (view s)(k \<mapsto> (meta_version meta, b))
     | Inl e \<Rightarrow> view s' = view s \<or> (\<not> is_precondition_failed e \<and> (\<exists>v. view s' = (view s)(k \<mapsto> (v, b)))))"
  using put_effect [OF assms(1), of k "Bytes b" m r s'] assms(2) by (auto simp: put_bytes_def split: sum.splits)

end

section \<open>Views and links of a bucket with one client\<close>

lemma mem_sole: "sole_client mem_ops mem_view mem_inv mem_evolves mem_issued"
proof (intro sole_client.intro sole_client_axioms.intro mem_object_store, goal_cases)
  case (1 s k opts rg s')
  then show ?case using mem_get_state [of s k opts] by simp
next
  case (2 s k rh s')
  then show ?case using mem_head_state [of s k] by simp
next
  case (3 s k body m rp s')
  have p: "mem_put s k body m = (rp, s')" using 3(2) by simp
  have ok: "bt_ok (objects s)" using 3(1) by (simp add: mem_inv_def)
  show ?case
  proof (cases "body_bytes body")
    case (Inl e)
    then show ?thesis using p 3(1) by (auto simp: mem_put_def)
  next
    case (Inr b)
    from p Inr show ?thesis
      by (cases rule: mem_put_cases) (use mem_put_evolves [OF 3(1) p] ok Inr in \<open>auto simp: mem_view_def fun_eq_iff\<close>)
  qed
next
  case (4 s k iv rd s')
  have d: "mem_delete s k iv = (rd, s')" using 4(2) by simp
  show ?case using mem_delete_evolves [OF 4(1) d] d
    by (auto simp: mem_delete_def mem_view_def fun_eq_iff split: option.splits if_splits prod.splits)
next
  case (5 s k srcs m rc s')
  show ?case
  proof (cases "concat_sources (objects s) srcs")
    case (Inl e)
    then show ?thesis using 5 by (auto simp: mem_compose_def)
  next
    case (Inr buf)
    then have p: "mem_put s k (Bytes buf) m = (rc, s')" using 5(2) by (simp add: mem_compose_def)
    have ok: "bt_ok (objects s)" using 5(1) by (simp add: mem_inv_def)
    have bb: "body_bytes (Bytes buf) = Ok buf" by simp
    from p bb show ?thesis
      by (cases rule: mem_put_cases) (use mem_put_evolves [OF 5(1) p] ok in \<open>auto simp: mem_view_def fun_eq_iff\<close>)
  qed
qed

lemma prefixed_sole:
  assumes "sole_client ops view invar evolves issued"
  shows "sole_client (prefixed p ops) (\<lambda>s k. view s (p @ k)) invar evolves issued"
proof (intro sole_client.intro sole_client_axioms.intro, goal_cases)
  case 1
  show ?case using sole_client.axioms(1) [OF assms] by (rule prefixed_object_store)
next
  case (2 s k opts rg s')
  obtain g where "os_get ops s (p @ k) opts = (g, s')"
    using 2(2) by (auto simp: prefixed_get_def full_key_def split: sum.splits get_result.splits prod.splits)
  then show ?case using sole_client.get_quiet [OF assms 2(1)] by metis
next
  case (3 s k rh s')
  obtain g where "os_head ops s (p @ k) = (g, s')"
    using 3(2) by (auto simp: prefixed_head_def full_key_def split: prod.splits)
  then show ?case using sole_client.head_quiet [OF assms 3(1)] by metis
next
  case (4 s k body m rp s')
  obtain g where g: "os_put ops s (p @ k) body m = (g, s')" "rp = rbind g (\<lambda>m. Ok (strip_meta p m))"
    using 4(2) by (auto simp: prefixed_put_def full_key_def split: prod.splits)
  then show ?case using sole_client.put_effect [OF assms 4(1) g(1)]
    by (cases g) (auto simp: view_upd_prefix simp del: fun_upd_apply)
next
  case (5 s k iv rd s')
  have g: "os_delete ops s (p @ k) iv = (rd, s')" using 5(2) by (simp add: prefixed_delete_def full_key_def)
  then show ?case using sole_client.delete_effect [OF assms 5(1) g] by (auto simp: view_upd_prefix simp del: fun_upd_apply)
next
  case (6 s k srcs m rc s')
  obtain g where g: "os_compose ops s (p @ k) (map (full_key p) srcs) m = (g, s')" "rc = rbind g (\<lambda>m. Ok (strip_meta p m))"
    using 6(2) by (auto simp: prefixed_compose_def full_key_def split: prod.splits)
  then show ?case using sole_client.compose_effect [OF assms 6(1) g(1)]
    by (cases g) (fastforce simp: view_upd_prefix simp del: fun_upd_apply)+
qed

lemma fault_compose_sel [simp]: "os_compose (fault_ops ops) = fault_compose ops"
  by (simp add: fault_ops_def)

lemma link_inv_cong: "plan s' = plan s \<Longrightarrow> link_inv I s \<Longrightarrow> I (inner s') \<Longrightarrow> link_inv I s'"
  by (simp add: link_inv_def)

lemma fault_sole:
  assumes "sole_client ops view invar evolves issued"
  shows "sole_client (fault_ops ops) (link_view view) (link_inv invar) (link_evolves evolves) (link_view issued)"
proof (intro sole_client.intro sole_client_axioms.intro, goal_cases)
  case 1
  show ?case using sole_client.axioms(1) [OF assms] by (rule fault_object_store)
next
  case (2 s k opts rg s')
  have inv: "invar (inner s)" "deny_keys (plan s) = []" using 2(1) by (auto simp: link_defs)
  have "get_inner ops s k opts (if_none_match opts \<noteq> None) = (rg, s')" using 2(2) by (simp add: fault_get_def)
  then show ?case using inv(2) refl
    by (cases rule: get_inner_cases) (use sole_client.get_quiet [OF assms inv(1)] in \<open>auto simp: link_view_def\<close>)
next
  case (3 s k rh s')
  have inv: "invar (inner s)" using 3(1) by (auto simp: link_defs)
  obtain d t where d: "decide ''head'' k False False False s = (d, t)" by (cases "decide ''head'' k False False False s")
  have "inner s' = inner s \<or> (\<exists>h. os_head ops (inner s) k = (h, inner s'))"
    using 3 d decide_frame [OF d]
    by (auto simp: fault_head_def split: option.splits decision.splits elim!: on_innerE)
  then show ?case using sole_client.head_quiet [OF assms inv] by (auto simp: link_view_def)
next
  case (4 s k body m rp s')
  have inv: "invar (inner s)" using 4(1) by (auto simp: link_defs)
  have "fault_mutation ''put'' k (m \<noteq> Overwrite) (\<lambda>i. os_put ops i k body m) s = (rp, s')"
    using 4(2) by (simp add: fault_put_def)
  then show ?case
  proof (cases rule: fault_mutation_cases)
    case through
    then show ?thesis using sole_client.put_effect [OF assms inv through(1)] link_inv_cong [OF through(2) 4(1)]
      by (auto simp: link_view_def split: sum.splits)
  next
    case (lost x e)
    have "\<not> is_precondition_failed e" using lost(3) by (cases e) auto
    then show ?thesis using lost sole_client.put_effect [OF assms inv lost(1)] link_inv_cong [OF lost(4) 4(1)]
      by (auto simp: link_view_def)
  qed (use 4(1) inv in \<open>auto simp: link_defs\<close>)
next
  case (5 s k iv rd s')
  have inv: "invar (inner s)" using 5(1) by (auto simp: link_defs)
  have "fault_mutation ''delete'' k (iv \<noteq> None) (\<lambda>i. os_delete ops i k iv) s = (rd, s')"
    using 5(2) by (simp add: fault_delete_def)
  then show ?case
  proof (cases rule: fault_mutation_cases)
    case through
    then show ?thesis using sole_client.delete_effect [OF assms inv through(1)] link_inv_cong [OF through(2) 5(1)]
      by (auto simp: link_view_def)
  next
    case (lost x e)
    then show ?thesis using sole_client.delete_effect [OF assms inv lost(1)] link_inv_cong [OF lost(4) 5(1)]
      by (auto simp: link_view_def)
  qed (use 5(1) inv in \<open>auto simp: link_defs\<close>)
next
  case (6 s k srcs m rc s')
  have inv: "invar (inner s)" using 6(1) by (auto simp: link_defs)
  have "fault_mutation ''compose'' k (m \<noteq> Overwrite) (\<lambda>i. os_compose ops i k srcs m) s = (rc, s')"
    using 6(2) by (simp add: fault_compose_def)
  then show ?case
  proof (cases rule: fault_mutation_cases)
    case through
    then show ?thesis using sole_client.compose_effect [OF assms inv through(1)] link_inv_cong [OF through(2) 6(1)]
      by (auto simp: link_view_def split: sum.splits)
  next
    case (lost x e)
    then show ?thesis using sole_client.compose_effect [OF assms inv lost(1)] link_inv_cong [OF lost(4) 6(1)]
      by (auto simp: link_view_def)
  qed (use 6(1) inv in \<open>auto simp: link_defs\<close>)
qed

interpretation sole_mem: sole_client mem_ops mem_view mem_inv mem_evolves mem_issued
  by (rule mem_sole)

interpretation sole_link: sole_client "prefixed p (fault_ops mem_ops)" "\<lambda>s k. link_view mem_view s (p @ k)"
    "link_inv mem_inv" "link_evolves mem_evolves" "link_view mem_issued" for p
  by (rule prefixed_sole [OF fault_sole [OF mem_sole]])

end
