(* ===== verification/Bundle_List.thy ===== *)
theory Bundle_List
  imports Bundle_Retention Sole_Client
begin

text \<open>
  The list of bundles in the bucket, \<^verbatim>\<open>crates/walgit-bundle/src/ops.rs\<close>: the refs a bundle covers, its
  header, the compare-and-swap of \<^verbatim>\<open>bundles/list.pb\<close>, the verdicts recorded in it, the lease of a
  strategy, and the difference of two lists that retention deletes.

  The protobuf codecs and \<open>chrono\<close>'s compact time are parameters.  Clock readings are arguments.
\<close>

section \<open>Refs of a bundle\<close>

definition matches_pattern :: "string \<Rightarrow> string \<Rightarrow> bool" where
  "matches_pattern rn pat =
     (if pat = ''HEAD'' then rn = ''HEAD''
      else case strip_suffix ''/*'' pat of
        Some pre \<Rightarrow> rn = pre \<or> starts_with rn (pre @ ''/'')
      | None \<Rightarrow> rn = pat)"

definition effective_patterns :: "string list \<Rightarrow> string list" where
  "effective_patterns patterns =
     (if patterns = [] then [''refs/heads/*'', ''refs/tags/*'', ''HEAD''] else patterns)"

definition head_tip :: "ref_snapshot_data \<Rightarrow> string list \<Rightarrow> string list \<Rightarrow> git_ref list" where
  "head_tip snap effective names =
     (if ''HEAD'' \<in> set effective \<and> ''HEAD'' \<notin> set names
      then case find (\<lambda>r. name r = head_target snap) (refs snap) of
             None \<Rightarrow> []
           | Some h \<Rightarrow> [\<lparr>name = ''HEAD'', oid = oid h, peeled = []\<rparr>]
      else [])"

definition filter_refs :: "ref_snapshot_data \<Rightarrow> string list \<Rightarrow> string list \<times> git_ref list" where
  "filter_refs snap patterns =
     (let effective = effective_patterns patterns;
          tips = filter (\<lambda>r. list_ex (matches_pattern (name r)) effective) (refs snap);
          all = tips @ head_tip snap effective (map name tips)
      in (map name all, all))"

section \<open>Header of a bundle file\<close>

datatype object_fmt = Sha1 | Sha256

definition bundle_prelude :: "object_fmt \<Rightarrow> string option \<Rightarrow> string" where
  "bundle_prelude fmt filt =
     (if fmt \<noteq> Sha256 \<and> filt = None then ''# v2 git bundle'' @ [CHR 0x0A]
      else ''# v3 git bundle'' @ [CHR 0x0A] @
        (if fmt = Sha256 then ''@object-format=sha256'' @ [CHR 0x0A] else []) @
        (case filt of None \<Rightarrow> [] | Some f \<Rightarrow> ''@filter='' @ f @ [CHR 0x0A]))"

definition tip_line :: "git_ref \<Rightarrow> string" where
  "tip_line r = oid r @ '' '' @ name r @ [CHR 0x0A]"

definition full_tips :: "ref_snapshot_data \<Rightarrow> git_ref list" where
  "full_tips snap =
     (case find (\<lambda>r. name r = head_target snap) (refs snap) of
        None \<Rightarrow> [] | Some h \<Rightarrow> [\<lparr>name = ''HEAD'', oid = oid h, peeled = []\<rparr>]) @
     filter (\<lambda>r. starts_with (name r) ''refs/heads/'' \<or> starts_with (name r) ''refs/tags/'') (refs snap)"

definition full_bundle_header :: "ref_snapshot \<Rightarrow> object_fmt \<Rightarrow> string option \<Rightarrow> string \<times> git_ref list" where
  "full_bundle_header snap fmt filt =
     (let tips = full_tips (snapshot_from_proto snap)
      in (bundle_prelude fmt filt @ concat (map tip_line tips) @ [CHR 0x0A], tips))"

section \<open>The list\<close>

definition BUNDLE_LIST :: string where "BUNDLE_LIST = ''bundles/list.pb''"

definition empty_list :: bundle_list where
  "empty_list = \<lparr>bl_mode = [], bl_heuristic = [], bl_bundles = [], bl_updated_at = None, bl_skipped = []\<rparr>"

definition or_default :: "bundle_list option \<Rightarrow> bundle_list" where
  "or_default cur = (case cur of None \<Rightarrow> empty_list | Some l \<Rightarrow> l)"

text \<open>The object of the list with its meta data; \<open>read_list\<close> drops the meta data.\<close>

definition get_list ::
  "('s, 'a) store_ops \<Rightarrow> ('a, bundle_list) msg_codec \<Rightarrow> 's
     \<Rightarrow> (bundle_error, (object_meta \<times> bundle_list) option) result \<times> 's" where
  "get_list ops c s =
     (case get_bytes ops s BUNDLE_LIST of
        (Inl e, s') \<Rightarrow> (Err (BStore e), s')
      | (Inr None, s') \<Rightarrow> (Ok None, s')
      | (Inr (Some (meta, data)), s') \<Rightarrow>
          (case decode c data of None \<Rightarrow> Err BDecode | Some l \<Rightarrow> Ok (Some (meta, l)), s'))"

definition read_list ::
  "('s, 'a) store_ops \<Rightarrow> ('a, bundle_list) msg_codec \<Rightarrow> 's \<Rightarrow> (bundle_error, bundle_list option) result \<times> 's" where
  "read_list ops c s = sbind (get_list ops c s) (\<lambda>cur s'. (Ok (map_option snd cur), s'))"

fun cas_update_list ::
  "nat \<Rightarrow> ('s, 'a) store_ops \<Rightarrow> ('a, bundle_list) msg_codec
     \<Rightarrow> (bundle_list option \<Rightarrow> (bundle_error, bundle_list option) result) \<Rightarrow> 's
     \<Rightarrow> (bundle_error, (version \<times> bundle_list) option) result \<times> 's" where
  "cas_update_list 0 ops c f s = (Err RetriesExhausted, s)"
| "cas_update_list (Suc left) ops c f s =
     sbind (get_list ops c s) (\<lambda>cur s1.
       case f (map_option snd cur) of
         Inl e \<Rightarrow> (Err e, s1)
       | Inr None \<Rightarrow> (Ok None, s1)
       | Inr (Some new) \<Rightarrow>
           (case put_bytes ops s1 BUNDLE_LIST (encode c new) (cas_mode cur) of
              (Inr meta, s2) \<Rightarrow> (Ok (Some (meta_version meta, new)), s2)
            | (Inl e, s2) \<Rightarrow>
                if is_precondition_failed e then cas_update_list left ops c f s2 else (Err (BStore e), s2)))"

section \<open>Verdicts\<close>

definition SKIPPED_KEPT :: nat where "SKIPPED_KEPT = 4096"

definition same_verdict :: "skipped_slot \<Rightarrow> skipped_slot \<Rightarrow> bool" where
  "same_verdict v k \<longleftrightarrow> sk_strategy k = sk_strategy v \<and> sk_slot k = sk_slot v \<and> sk_base_id k = sk_base_id v"

definition add_verdict :: "skipped_slot list \<Rightarrow> skipped_slot \<Rightarrow> skipped_slot list" where
  "add_verdict ks v = (if list_ex (same_verdict v) ks then ks else ks @ [v])"

definition newest_verdicts :: "skipped_slot list \<Rightarrow> skipped_slot list" where
  "newest_verdicts ks =
     (if length ks > SKIPPED_KEPT then drop (length ks - SKIPPED_KEPT) (sort_key sk_slot ks) else ks)"

definition with_verdicts :: "skipped_slot list \<Rightarrow> timestamp \<Rightarrow> bundle_list option \<Rightarrow> bundle_list option" where
  "with_verdicts vs now cur =
     (let l = or_default cur; ks = foldl add_verdict (bl_skipped l) vs
      in if length ks = length (bl_skipped l) then None
         else Some (l\<lparr>bl_skipped := newest_verdicts ks, bl_updated_at := Some now\<rparr>))"

definition record_skipped_many ::
  "('s, 'a) store_ops \<Rightarrow> ('a, bundle_list) msg_codec \<Rightarrow> timestamp \<Rightarrow> skipped_slot list \<Rightarrow> 's
     \<Rightarrow> (bundle_error, unit) result \<times> 's" where
  "record_skipped_many ops c now vs s =
     (if vs = [] then (Ok (), s)
      else sbind (cas_update_list 8 ops c (\<lambda>cur. Ok (with_verdicts vs now cur)) s) (\<lambda>_ s'. (Ok (), s')))"

definition record_skipped ::
  "('s, 'a) store_ops \<Rightarrow> ('a, bundle_list) msg_codec \<Rightarrow> timestamp \<Rightarrow> string \<Rightarrow> nat \<Rightarrow> string \<Rightarrow> nat \<Rightarrow> string \<Rightarrow> 's
     \<Rightarrow> (bundle_error, unit) result \<times> 's" where
  "record_skipped ops c now strategy slot base_id as_of_seq reason s =
     record_skipped_many ops c now
       [\<lparr>sk_strategy = strategy, sk_slot = slot, sk_base_id = base_id, sk_as_of_seq = as_of_seq,
         sk_reason = reason, sk_at = Some now\<rparr>] s"

section \<open>Lookups and differences\<close>

text \<open>\<open>max_by_key\<close>: the last of the elements with the greatest key.\<close>

fun max_by :: "('a \<Rightarrow> nat) \<Rightarrow> 'a list \<Rightarrow> 'a option" where
  "max_by f [] = None"
| "max_by f (x # xs) = (case max_by f xs of None \<Rightarrow> Some x | Some y \<Rightarrow> if f x > f y then Some x else Some y)"

definition last_for_strategy :: "bundle_list \<Rightarrow> string \<Rightarrow> bundle_entry option" where
  "last_for_strategy l strategy = max_by be_creation_token (filter (\<lambda>b. be_strategy b = strategy) (bl_bundles l))"

definition tip_set :: "git_ref list \<Rightarrow> (string \<times> string) list" where
  "tip_set tips = sort (map (\<lambda>t. (name t, oid t)) tips)"

definition unchanged_since :: "bundle_list \<Rightarrow> string \<Rightarrow> string \<Rightarrow> nat \<Rightarrow> git_ref list \<Rightarrow> bundle_entry option" where
  "unchanged_since l strategy base_id slot tips =
     (case max_by be_slot (filter (\<lambda>b. be_strategy b = strategy \<and> be_base_id b = base_id \<and> be_slot b > 0 \<and>
             be_slot b \<le> slot) (bl_bundles l)) of
        None \<Rightarrow> None
      | Some prev \<Rightarrow> if tip_set (be_tips prev) = tip_set tips then Some prev else None)"

definition max_creation_token :: "bundle_list \<Rightarrow> nat" where
  "max_creation_token l = foldr max (map be_creation_token (bl_bundles l)) 0"

definition pruned_diff :: "bundle_list \<Rightarrow> bundle_list \<Rightarrow> string list" where
  "pruned_diff old new = filter (\<lambda>k. k \<notin> be_key ` set (bl_bundles new)) (map be_key (bl_bundles old))"

text \<open>Failures of the deletes are only logged.\<close>

fun delete_pruned :: "('s, 'a) store_ops \<Rightarrow> string list \<Rightarrow> 's \<Rightarrow> 's" where
  "delete_pruned ops [] s = s"
| "delete_pruned ops (k # ks) s = delete_pruned ops ks (snd (os_delete ops s k None))"

definition bundle_object_key :: "(system_time \<Rightarrow> string) \<Rightarrow> string \<Rightarrow> system_time \<Rightarrow> string \<Rightarrow> string" where
  "bundle_object_key stamp strategy now digest =
     ''bundles/'' @ strategy @ ''/'' @ stamp now @ ''-'' @ digest @ ''.bundle''"

section \<open>The lease of a strategy\<close>

record bundle_guard =
  bg_key :: string
  bg_version :: version
  bg_released :: bool

definition bundle_release ::
  "('s, 'a) store_ops \<Rightarrow> bundle_guard \<Rightarrow> 's \<Rightarrow> (bundle_error, unit) result \<times> 's" where
  "bundle_release ops g s =
     (case os_delete ops s (bg_key g) (Some (bg_version g)) of
        (Inr _, s') \<Rightarrow> (Ok (), s')
      | (Inl e, s') \<Rightarrow> (if is_precondition_failed e \<or> is_not_found e then Ok () else Err (BStore e), s'))"

definition bundle_drop :: "('s, 'a) store_ops \<Rightarrow> bundle_guard \<Rightarrow> 's \<Rightarrow> 's" where
  "bundle_drop ops g s = (if bg_released g then s else snd (os_delete ops s (bg_key g) (Some (bg_version g))))"

definition bundle_heartbeat ::
  "('s, 'a) store_ops \<Rightarrow> ('a, lease) msg_codec \<Rightarrow> string \<Rightarrow> system_time \<Rightarrow> int \<Rightarrow> bundle_guard \<Rightarrow> 's
     \<Rightarrow> (bundle_error, unit) result \<times> bundle_guard \<times> 's" where
  "bundle_heartbeat ops lc me now ttl g s =
     (case put_bytes ops s (bg_key g) (encode lc (make_lease me ''bundle'' now ttl 1)) (Update (bg_version g)) of
        (Inr meta, s') \<Rightarrow> (Ok (), g\<lparr>bg_version := meta_version meta\<rparr>, s')
      | (Inl e, s') \<Rightarrow> (Err (BStore e), g, s'))"

definition strategy_lease_key :: "string \<Rightarrow> string" where
  "strategy_lease_key strategy = LEASES_DIR @ ''bundle-'' @ strategy @ ''.pb''"

definition lease_write ::
  "('s, 'a) store_ops \<Rightarrow> string \<Rightarrow> 'a list \<Rightarrow> put_mode \<Rightarrow> 's \<Rightarrow> (bundle_error, bundle_guard option) result \<times> 's" where
  "lease_write ops key body mode s =
     (case put_bytes ops s key body mode of
        (Inr meta, s') \<Rightarrow> (Ok (Some \<lparr>bg_key = key, bg_version = meta_version meta, bg_released = False\<rparr>), s')
      | (Inl e, s') \<Rightarrow> (if is_precondition_failed e then Ok None else Err (BStore e), s'))"

definition try_acquire_lease ::
  "('s, 'a) store_ops \<Rightarrow> ('a, lease) msg_codec \<Rightarrow> string \<Rightarrow> system_time \<Rightarrow> string \<Rightarrow> int \<Rightarrow> 's
     \<Rightarrow> (bundle_error, bundle_guard option) result \<times> 's" where
  "try_acquire_lease ops lc me now strategy ttl s =
     (let key = strategy_lease_key strategy;
          body = encode lc (make_lease me (''bundle-'' @ strategy) now ttl 0)
      in sbind (lease_write ops key body Create s) (\<lambda>g s1.
           case g of
             Some g \<Rightarrow> (Ok (Some g), s1)
           | None \<Rightarrow>
               (case get_bytes ops s1 key of
                  (Inl e, s2) \<Rightarrow> (Err (BStore e), s2)
                | (Inr None, s2) \<Rightarrow> lease_write ops key body Create s2
                | (Inr (Some (meta, data)), s2) \<Rightarrow>
                    (case decode lc data of
                       None \<Rightarrow> (Err BDecode, s2)
                     | Some existing \<Rightarrow>
                         if (case expires_at existing of None \<Rightarrow> True | Some t \<Rightarrow> to_system t \<le> now)
                         then lease_write ops key body (Update (meta_version meta)) s2
                         else (Ok None, s2)))))"

definition hold_lease ::
  "('s, 'a) store_ops \<Rightarrow> ('a, lease) msg_codec \<Rightarrow> string \<Rightarrow> string \<Rightarrow> system_time \<Rightarrow> int \<Rightarrow> 's
     \<Rightarrow> (bundle_error, version) result \<times> 's" where
  "hold_lease ops lc strategy hldr now ttl s =
     (case put_bytes ops s (strategy_lease_key strategy)
             (encode lc (make_lease hldr (''bundle-'' @ strategy) now ttl 0)) Create of
        (Inr meta, s') \<Rightarrow> (Ok (meta_version meta), s')
      | (Inl e, s') \<Rightarrow> (if is_precondition_failed e then Err (BOther ''lease already held'') else Err (BStore e), s'))"

section \<open>What the operations do to a bucket with one client\<close>

text \<open>The list that the bucket holds, if there is one that decodes.\<close>

definition listed :: "(string \<Rightarrow> (version \<times> 'a list) option) \<Rightarrow> ('a, bundle_list) msg_codec \<Rightarrow> bundle_list option" where
  "listed w c = (case w BUNDLE_LIST of None \<Rightarrow> None | Some (_, d) \<Rightarrow> decode c d)"

lemma listed_upd [simp]: "k \<noteq> BUNDLE_LIST \<Longrightarrow> listed (w(k := x)) c = listed w c"
  by (simp add: listed_def)

lemma listed_new: "codec_ok c \<Longrightarrow> listed (w(BUNDLE_LIST \<mapsto> (v, encode c l))) c = Some l"
  by (simp add: listed_def codec_ok_def)

context sole_client
begin

lemma get_list_quiet:
  assumes "invar s" "get_list ops c s = (r, s')"
  shows "invar s' \<and> view s' = view s \<and> (\<forall>cur. r = Ok cur \<longrightarrow> map_option snd cur = listed (view s) c)"
proof -
  obtain g t where g: "get_bytes ops s BUNDLE_LIST = (g, t)" by (cases "get_bytes ops s BUNDLE_LIST")
  show ?thesis
  proof (cases g)
    case (Inl e)
    then show ?thesis using assms g get_bytes_quiet [OF assms(1) g] by (auto simp: get_list_def)
  next
    case (Inr x)
    then show ?thesis using assms g get_bytes_quiet [OF assms(1) g] get_bytes_exact [OF assms(1) g [unfolded Inr]]
      by (auto simp: get_list_def listed_def split: option.splits)
  qed
qed

lemma read_list_quiet:
  assumes "invar s" "read_list ops c s = (r, s')"
  shows "invar s' \<and> view s' = view s \<and> (\<forall>cur. r = Ok cur \<longrightarrow> cur = listed (view s) c)"
proof -
  obtain g t where g: "get_list ops c s = (g, t)" by (cases "get_list ops c s")
  show ?thesis using get_list_quiet [OF assms(1) g] assms(2) g by (cases g) (auto simp: read_list_def)
qed

lemma cas_update_list_effect:
  assumes "invar s" "cas_update_list n ops c f s = (r, s')"
  shows "invar s' \<and>
    (view s' = view s \<and> (\<forall>x. r \<noteq> Ok (Some x)) \<or>
     (\<exists>v new. f (listed (view s) c) = Ok (Some new) \<and> view s' = (view s)(BUNDLE_LIST \<mapsto> (v, encode c new)) \<and>
        (\<forall>x. r = Ok x \<longrightarrow> x = Some (v, new))))"
  using assms
proof (induction n arbitrary: s)
  case 0
  then show ?case by auto
next
  case (Suc n)
  obtain g s1 where g: "get_list ops c s = (g, s1)" by (cases "get_list ops c s")
  note G = get_list_quiet [OF Suc.prems(1) g]
  show ?case
  proof (cases "\<exists>cur new. g = Ok cur \<and> f (listed (view s) c) = Ok (Some new)")
    case False
    then show ?thesis using Suc.prems(2) G g by (cases g) (auto split: sum.splits option.splits)
  next
    case True
    then obtain cur new where cur: "g = Ok cur" "f (listed (view s) c) = Ok (Some new)" by blast
    obtain w s2 where w: "put_bytes ops s1 BUNDLE_LIST (encode c new) (cas_mode cur) = (w, s2)"
      by (cases "put_bytes ops s1 BUNDLE_LIST (encode c new) (cas_mode cur)")
    have s1: "invar s1" "view s1 = view s" "f (map_option snd cur) = Ok (Some new)" using G cur by auto
    note W = put_bytes_effect [OF s1(1) w]
    show ?thesis
    proof (cases "\<exists>e. w = Err e \<and> is_precondition_failed e")
      case True
      then obtain e where e: "w = Err e" "is_precondition_failed e" by blast
      then have "view s2 = view s" "invar s2" "cas_update_list n ops c f s2 = (r, s')"
        using W s1 Suc.prems(2) g cur w by auto
      then show ?thesis using Suc.IH [of s2] by simp
    next
      case False
      then show ?thesis using W s1 Suc.prems(2) g cur w
        by (cases w) (auto simp del: fun_upd_apply)
    qed
  qed
qed

lemma delete_pruned_effect:
  assumes "invar s"
  shows "invar (delete_pruned ops ks s) \<and> (\<forall>k. k \<notin> set ks \<longrightarrow> view (delete_pruned ops ks s) k = view s k)"
  using assms
proof (induction ks arbitrary: s)
  case (Cons k ks)
  obtain r s1 where d: "os_delete ops s k None = (r, s1)" by (cases "os_delete ops s k None")
  note D = delete_effect [OF Cons.prems d]
  then have "invar s1" by simp
  from Cons.IH [OF this] D d show ?case by (auto simp: fun_eq_iff)
qed simp

end

section \<open>Verdicts that stick\<close>

lemma add_verdicts_mono: "set ks \<subseteq> set (foldl add_verdict ks vs)"
proof (induction vs arbitrary: ks)
  case (Cons v vs)
  have "set ks \<subseteq> set (add_verdict ks v)" by (auto simp: add_verdict_def)
  then show ?case using Cons.IH [of "add_verdict ks v"] by auto
qed simp

lemma add_verdicts_all: "v \<in> set vs \<Longrightarrow> \<exists>k\<in>set (foldl add_verdict ks vs). same_verdict v k"
proof (induction vs arbitrary: ks)
  case (Cons u vs)
  show ?case
  proof (cases "v = u")
    case True
    then have "\<exists>k\<in>set (add_verdict ks u). same_verdict v k"
      by (cases "list_ex (same_verdict u) ks") (auto simp: add_verdict_def list_ex_iff same_verdict_def)
    then obtain k where "k \<in> set (add_verdict ks u)" "same_verdict v k" by blast
    then show ?thesis using add_verdicts_mono [of "add_verdict ks u" vs] by auto
  qed (use Cons in auto)
qed simp

lemma newest_verdicts_keeps:
  assumes "k \<in> set ks"
  shows "k \<in> set (newest_verdicts ks) \<or>
    (length (newest_verdicts ks) = SKIPPED_KEPT \<and> (\<forall>k'\<in>set (newest_verdicts ks). sk_slot k \<le> sk_slot k'))"
proof (cases "length ks > SKIPPED_KEPT")
  case True
  let ?xs = "sort_key sk_slot ks" and ?n = "length ks - SKIPPED_KEPT"
  have "k \<in> set (take ?n ?xs @ drop ?n ?xs)" using assms by simp
  then have "k \<in> set (take ?n ?xs) \<or> k \<in> set (drop ?n ?xs)" unfolding set_append by blast
  moreover have "sorted (map sk_slot (take ?n ?xs) @ map sk_slot (drop ?n ?xs))"
    by (simp only: map_append [symmetric] append_take_drop_id sorted_sort_key)
  then have "x \<in> set (take ?n ?xs) \<Longrightarrow> y \<in> set (drop ?n ?xs) \<Longrightarrow> sk_slot x \<le> sk_slot y" for x y
    by (auto simp: sorted_append)
  ultimately show ?thesis using True by (auto simp: newest_verdicts_def)
qed (use assms in \<open>simp add: newest_verdicts_def\<close>)

lemma newest_verdicts_length: "length (newest_verdicts ks) \<le> SKIPPED_KEPT"
  by (simp add: newest_verdicts_def)

text \<open>
  Recording verdicts keeps the list bounded and loses only what is old: after an update there are at most
  4096 verdicts, and each verdict that was recorded or stood in the list before is there, unless the list is
  full of verdicts on slots no older than it.
\<close>

theorem verdicts_stick:
  assumes "with_verdicts vs now cur = Some l" "v \<in> set vs \<or> v \<in> set (bl_skipped (or_default cur))"
  shows "length (bl_skipped l) \<le> SKIPPED_KEPT \<and>
    ((\<exists>k\<in>set (bl_skipped l). same_verdict v k) \<or>
     (length (bl_skipped l) = SKIPPED_KEPT \<and> (\<forall>k\<in>set (bl_skipped l). sk_slot v \<le> sk_slot k)))"
proof -
  let ?ks = "foldl add_verdict (bl_skipped (or_default cur)) vs"
  have l: "bl_skipped l = newest_verdicts ?ks"
    using assms(1) by (auto simp: with_verdicts_def Let_def split: if_splits)
  have "\<exists>k\<in>set ?ks. same_verdict v k"
    using assms(2) add_verdicts_all [of v vs] add_verdicts_mono [of "bl_skipped (or_default cur)" vs]
    by (auto simp: same_verdict_def)
  then obtain k where k: "k \<in> set ?ks" "same_verdict v k" by blast
  then have "sk_slot k = sk_slot v" by (simp add: same_verdict_def)
  then show ?thesis using newest_verdicts_keeps [OF k(1)] newest_verdicts_length k(2) unfolding l by auto
qed

definition small_verdict :: "string \<Rightarrow> nat \<Rightarrow> skipped_slot" where
  "small_verdict strategy slot = \<lparr>sk_strategy = strategy, sk_slot = slot, sk_base_id = ''w-1'', sk_as_of_seq = 1,
     sk_reason = ''too-small'', sk_at = None\<rparr>"

theorem verdicts_stick_witness:
  "\<exists>l. with_verdicts [small_verdict ''d'' 5, small_verdict ''d'' 5] \<lparr>seconds = 9, nanos = 0\<rparr> None = Some l \<and>
     length (bl_skipped l) = 1 \<and> (\<exists>k\<in>set (bl_skipped l). same_verdict (small_verdict ''d'' 5) k)"
proof -
  let ?l = "the (with_verdicts [small_verdict ''d'' 5, small_verdict ''d'' 5] \<lparr>seconds = 9, nanos = 0\<rparr> None)"
  have l: "with_verdicts [small_verdict ''d'' 5, small_verdict ''d'' 5] \<lparr>seconds = 9, nanos = 0\<rparr> None = Some ?l"
    "length (bl_skipped ?l) = 1"
    by (simp_all add: with_verdicts_def or_default_def empty_list_def add_verdict_def same_verdict_def
        small_verdict_def newest_verdicts_def SKIPPED_KEPT_def)
  show ?thesis using verdicts_stick [OF l(1), of "small_verdict ''d'' 5"] l
    by (intro exI [of _ ?l]) (auto simp: SKIPPED_KEPT_def)
qed

section \<open>Patterns\<close>

text \<open>
  The patterns of \<open>extra_refs\<close> are not globs: the example that the configuration documents, every tag whose
  name starts with v, matches no such tag.
\<close>

theorem documented_glob_matches_nothing:
  "matches_pattern (''refs/tags/v'' @ rest) ''refs/tags/v*'' \<longleftrightarrow> rest = ''*''"
  by (simp add: matches_pattern_def strip_suffix_def suffix_def)

end
