(* ===== verification/Bundle_Build.thy ===== *)
theory Bundle_Build
  imports Bundle_List
begin

text \<open>
  Cutting bundles, \<^verbatim>\<open>crates/walgit-bundle/src/ops.rs\<close> and \<^verbatim>\<open>lib.rs\<close>: the bundle file, its upload, the
  composition of a full bundle from a base pack, and the handlers of the maintainer (one slot, all due
  slots, retention, verdicts on closed slots).

  What git and gix do on the local copy is a record of parameters, \<open>bundle_local\<close>; the digest of a file and
  \<open>chrono\<close>'s compact time are parameters too.  Failures of the local temporary directory are left out.  Where a handler
  walks up the chain of strategies its value is an option, \<open>None\<close> when the walk does not end.
\<close>

section \<open>Definitions\<close>

datatype bundle_engine = EngineGit | EngineGix

record 'a bundle_local =
  lo_refs :: "(git_error, ref_snapshot_data) result"
  lo_from_hex :: "string \<Rightarrow> bool"
  lo_has_object :: "string \<Rightarrow> bool"
  lo_format :: object_fmt
  lo_path :: string
  lo_bytes :: "string \<Rightarrow> 'a list"
  lo_write_gix :: "(string \<times> string) list \<Rightarrow> string list \<Rightarrow> (git_error, nat \<times> 'a list) result"
  lo_rev_parse :: "string \<Rightarrow> (bundle_error, string option) result"
  lo_pack_objects :: "string \<Rightarrow> string option \<Rightarrow> (bundle_error, nat \<times> 'a list) result"
  lo_rev_list_count :: "string list \<Rightarrow> string list \<Rightarrow> (bundle_error, nat) result"

subsection \<open>The bundle file\<close>

fun gix_refs :: "('a, 'z) bundle_local_scheme \<Rightarrow> git_ref list \<Rightarrow> string list \<Rightarrow> (bundle_error, (string \<times> string) list) result" where
  "gix_refs lo tips [] = Ok []"
| "gix_refs lo tips (n # ns) =
     (case find (\<lambda>t. name t = n) tips of
        None \<Rightarrow> gix_refs lo tips ns
      | Some t \<Rightarrow>
          if lo_from_hex lo (oid t) then rbind (gix_refs lo tips ns) (\<lambda>more. Ok ((n, oid t) # more))
          else Err (BOther ''bad tip''))"

text \<open>The commits of the prerequisites, each once.\<close>

fun prereq_commits :: "('a, 'z) bundle_local_scheme \<Rightarrow> string list \<Rightarrow> string list \<Rightarrow> (bundle_error, string list) result" where
  "prereq_commits lo acc [] = Ok acc"
| "prereq_commits lo acc (p # ps) =
     rbind (lo_rev_parse lo (p @ ''^{commit}'')) (\<lambda>o'.
       case o' of
         None \<Rightarrow> prereq_commits lo acc ps
       | Some r \<Rightarrow> prereq_commits lo (if trim_ws r \<in> set acc then acc else acc @ [trim_ws r]) ps)"

fun resolved_refs :: "('a, 'z) bundle_local_scheme \<Rightarrow> string list \<Rightarrow> (bundle_error, (string \<times> string) list) result" where
  "resolved_refs lo [] = Ok []"
| "resolved_refs lo (r # rs) =
     rbind (lo_rev_parse lo r) (\<lambda>o'.
       case o' of
         None \<Rightarrow> resolved_refs lo rs
       | Some x \<Rightarrow> rbind (resolved_refs lo rs) (\<lambda>more. Ok ((trim_ws x, r) # more)))"

definition header_with :: "object_fmt \<Rightarrow> string option \<Rightarrow> string list \<Rightarrow> (string \<times> string) list \<Rightarrow> string" where
  "header_with fmt filt prereqs tips =
     bundle_prelude fmt filt @ concat (map (\<lambda>p. ''-'' @ p @ '' walgit'' @ [CHR 0x0A]) prereqs) @
     concat (map (\<lambda>(x, r). x @ '' '' @ r @ [CHR 0x0A]) tips) @ [CHR 0x0A]"

definition revs_input :: "string list \<Rightarrow> (string \<times> string) list \<Rightarrow> string" where
  "revs_input prereqs tips =
     concat (map (\<lambda>(x, r). x @ [CHR 0x0A]) tips) @ concat (map (\<lambda>p. ''^'' @ p @ [CHR 0x0A]) prereqs)"

definition create_bundle ::
  "('a, 'z) bundle_local_scheme \<Rightarrow> bundle_engine \<Rightarrow> string list \<Rightarrow> git_ref list \<Rightarrow> string list \<Rightarrow> string option
     \<Rightarrow> (bundle_error, 'a list) result" where
  "create_bundle lo engine rs tips prereqs filt =
     (if engine = EngineGix
      then if filt \<noteq> None then Err (BOther ''filtered bundles need the stock git engine'')
           else rbind (gix_refs lo tips rs) (\<lambda>ref_oids.
             if \<not> list_all (lo_from_hex lo) prereqs then Err (BOther ''bad prerequisite'')
             else case lo_write_gix lo ref_oids prereqs of
               Inl e \<Rightarrow> Err (BGit e)
             | Inr (n, file) \<Rightarrow> if n = 0 then Err NoNewObjects else Ok file)
      else rbind (prereq_commits lo [] prereqs) (\<lambda>ps.
             rbind (resolved_refs lo rs) (\<lambda>pairs.
               if pairs = [] then Err NoRefs
               else rbind (lo_pack_objects lo (revs_input ps pairs) filt) (\<lambda>(n, body).
                 if n = 0 then Err NoNewObjects
                 else Ok (lo_bytes lo (header_with (lo_format lo) filt ps pairs) @ body)))))"

definition count_commits :: "('a, 'z) bundle_local_scheme \<Rightarrow> string list \<Rightarrow> string list \<Rightarrow> (bundle_error, nat) result" where
  "count_commits lo tips prereqs = (if tips = [] then Ok 0 else lo_rev_list_count lo tips prereqs)"

subsection \<open>Upload\<close>

record cut =
  cut_slot :: nat
  cut_snapshot :: "ref_snapshot_data option"
  cut_seq :: nat

definition snapshot_of_cut :: "('a, 'z) bundle_local_scheme \<Rightarrow> cut \<Rightarrow> (bundle_error, ref_snapshot_data) result" where
  "snapshot_of_cut lo ct =
     (case cut_snapshot ct of
        Some d \<Rightarrow> Ok d
      | None \<Rightarrow> (case lo_refs lo of Inl e \<Rightarrow> Err (BGit e) | Inr d \<Rightarrow> Ok d))"

definition local_tip :: "('a, 'z) bundle_local_scheme \<Rightarrow> git_ref \<Rightarrow> bool" where
  "local_tip lo t \<longleftrightarrow> lo_from_hex lo (oid t) \<and> lo_has_object lo (oid t)"

definition token_of :: "nat \<Rightarrow> nat \<Rightarrow> system_time \<Rightarrow> nat" where
  "token_of slot prev_token now = (if slot > 0 then slot else max (prev_token + 1) (unix_now now))"

definition bundle_id :: "string \<Rightarrow> nat \<Rightarrow> string" where
  "bundle_id strategy token = strategy @ ''-'' @ dec token"

definition kind_str :: "bundle_kind \<Rightarrow> string" where
  "kind_str k = (case k of Full \<Rightarrow> ''full'' | Incremental \<Rightarrow> ''incremental'')"

text \<open>An object that is already there counts as uploaded.\<close>

definition upload_file ::
  "('s, 'a) store_ops \<Rightarrow> string \<Rightarrow> 'a list \<Rightarrow> 's \<Rightarrow> (bundle_error, version) result \<times> 's" where
  "upload_file ops key file s =
     (case os_put ops s key (File (Ok file)) Create of
        (Inr meta, s1) \<Rightarrow> (Ok (meta_version meta), s1)
      | (Inl e, s1) \<Rightarrow>
          if is_precondition_failed e
          then case os_head ops s1 key of
                 (Inl e', s2) \<Rightarrow> (Err (BStore e'), s2)
               | (Inr None, s2) \<Rightarrow> (Err (BOther ''bundle vanished''), s2)
               | (Inr (Some meta), s2) \<Rightarrow> (Ok (meta_version meta), s2)
          else (Err (BStore e), s1))"

definition empty_is_no_new :: "bundle_error \<Rightarrow> bundle_error" where
  "empty_is_no_new e =
     (case e of
        BGit (Subprocess cmd st stderr) \<Rightarrow> if contains_str stderr ''empty bundle'' then NoNewObjects else e
      | _ \<Rightarrow> e)"

definition build_and_upload ::
  "('a, 'z) bundle_local_scheme \<Rightarrow> bundle_engine \<Rightarrow> ('s, 'a) store_ops \<Rightarrow> ('a list \<Rightarrow> string) \<Rightarrow> (system_time \<Rightarrow> string)
     \<Rightarrow> string \<Rightarrow> bundle_kind \<Rightarrow> string list \<Rightarrow> string list \<Rightarrow> string \<Rightarrow> cut \<Rightarrow> nat \<Rightarrow> system_time \<Rightarrow> string option \<Rightarrow> 's
     \<Rightarrow> (bundle_error, bundle_entry) result \<times> 's" where
  "build_and_upload lo engine ops digest stamp strategy kd patterns prereqs base_id ct prev_token now filt s =
     (case snapshot_of_cut lo ct of
        Inl e \<Rightarrow> (Err e, s)
      | Inr snap \<Rightarrow>
          (let (names0, tips0) = filter_refs snap patterns;
               resolvable = name ` set (filter (local_tip lo) tips0);
               names = filter (\<lambda>n. n \<in> resolvable) names0;
               tips = filter (\<lambda>t. name t \<in> resolvable) tips0
           in if names = [] then (Err NoRefs, s)
              else case create_bundle lo engine names tips prereqs filt of
                Inl e \<Rightarrow> (Err (empty_is_no_new e), s)
              | Inr file \<Rightarrow>
                  (let key = bundle_object_key stamp strategy now (digest file);
                       token = token_of (cut_slot ct) prev_token now
                   in sbind (upload_file ops key file s) (\<lambda>v s1.
                        (Ok \<lparr>be_id = bundle_id strategy token, be_key = key, be_strategy = strategy,
                             be_kind = kind_str kd, be_creation_token = token, be_seq = cut_seq ct,
                             be_size = length file, be_base_id = base_id, be_created_at = Some (from_system now),
                             be_version = dec v, be_tips = tips, be_slot = cut_slot ct,
                             be_filter = (case filt of None \<Rightarrow> [] | Some f \<Rightarrow> f)\<rparr>, s1)))))"

subsection \<open>Composition of a full bundle\<close>

definition composed_object ::
  "('s, 'a) store_ops \<Rightarrow> bool \<Rightarrow> string \<Rightarrow> string \<Rightarrow> nat \<Rightarrow> 'a byte_stream option \<Rightarrow> 'a list \<Rightarrow> 's
     \<Rightarrow> (bundle_error, object_meta) result \<times> 's" where
  "composed_object ops can_compose key pack_sum pack_len pack_stream hdr s =
     (if can_compose
      then case os_put ops s (key @ ''.hdr'') (Bytes hdr) Overwrite of
             (Inl e, s1) \<Rightarrow> (Err (BStore e), s1)
           | (Inr _, s1) \<Rightarrow>
               (case os_compose ops s1 key [key @ ''.hdr'', pack_key pack_sum] Overwrite of
                  (Inl e, s2) \<Rightarrow> (Err (BStore e), s2)
                | (Inr meta, s2) \<Rightarrow> (Ok meta, snd (os_delete ops s2 (key @ ''.hdr'') None)))
      else case pack_stream of
             None \<Rightarrow> (Err (BOther ''store cannot compose and the base pack is not a local file''), s)
           | Some cs \<Rightarrow>
               (case os_put ops s key (Stream (length hdr + pack_len) (once hdr @ cs)) Overwrite of
                  (Inl e, s1) \<Rightarrow> (Err (BStore e), s1)
                | (Inr meta, s1) \<Rightarrow> (Ok meta, s1)))"

definition compose_full ::
  "('s, 'a) store_ops \<Rightarrow> (string \<Rightarrow> 'a list) \<Rightarrow> (system_time \<Rightarrow> string) \<Rightarrow> bool \<Rightarrow> string \<Rightarrow> nat \<Rightarrow> 'a byte_stream option
     \<Rightarrow> ref_snapshot \<Rightarrow> object_fmt \<Rightarrow> string \<Rightarrow> nat \<Rightarrow> nat \<Rightarrow> system_time \<Rightarrow> nat \<Rightarrow> string option \<Rightarrow> 's
     \<Rightarrow> (bundle_error, bundle_entry) result \<times> 's" where
  "compose_full ops bytes stamp can_compose pack_sum pack_len pack_stream snap fmt strategy sq prev_token now slot filt s =
     (let (hdr, tips) = full_bundle_header snap fmt filt;
          key = bundle_object_key stamp strategy now pack_sum;
          token = token_of slot prev_token now
      in if tips = [] then (Err NoRefs, s)
         else sbind (composed_object ops can_compose key pack_sum pack_len pack_stream (bytes hdr) s) (\<lambda>meta s1.
           (Ok \<lparr>be_id = bundle_id strategy token, be_key = key, be_strategy = strategy, be_kind = ''full'',
                be_creation_token = token, be_seq = sq, be_size = meta_size meta, be_base_id = [],
                be_created_at = Some (from_system now), be_version = dec (meta_version meta), be_tips = tips,
                be_slot = slot, be_filter = (case filt of None \<Rightarrow> [] | Some f \<Rightarrow> f)\<rparr>, s1)))"

subsection \<open>The maintainer\<close>

text \<open>What a build needs: the handle of the repository, the configuration and the source of historical refs.\<close>

record ('s, 'a) bundler =
  bn_ops :: "('s, 'a) store_ops"
  bn_codec :: "('a, bundle_list) msg_codec"
  bn_lease_codec :: "('a, lease) msg_codec"
  bn_cron :: "string \<Rightarrow> cron option"
  bn_cfg :: bundles_config
  bn_retries :: nat
  bn_local :: "'a bundle_local"
  bn_digest :: "'a list \<Rightarrow> string"
  bn_stamp :: "system_time \<Rightarrow> string"
  bn_head_seq :: nat
  bn_refs_as_of :: "system_time \<Rightarrow> (bundle_error, (ref_snapshot_data \<times> nat) option) result"
  bn_prepare :: "(bundle_error, unit) result"
  bn_engine :: bundle_engine
  bn_me :: string
  bn_lease_ttl :: int

definition list_with_entry :: "bundles_config \<Rightarrow> bundle_entry \<Rightarrow> timestamp \<Rightarrow> bundle_list option \<Rightarrow> bundle_list" where
  "list_with_entry cfg e now cur =
     (let l = or_default cur;
          l1 = l\<lparr>bl_mode := ''all'', bl_heuristic := ''creationToken'',
                 bl_bundles := filter (\<lambda>b. \<not> (be_strategy b = be_strategy e \<and>
                   be_creation_token b = be_creation_token e)) (bl_bundles l) @ [e]\<rparr>
      in (snd (retain cfg l1))\<lparr>bl_updated_at := Some now\<rparr>)"

definition slot_base ::
  "('s, 'a) bundler \<Rightarrow> bundle_strategy \<Rightarrow> cut \<Rightarrow> 's \<Rightarrow> ((bundle_error, string \<times> string list) result \<times> 's) option" where
  "slot_base B strat ct s =
     (case bs_kind strat of
        Full \<Rightarrow> Some (Ok ([], []), s)
      | Incremental \<Rightarrow>
          (case bs_base strat of
             None \<Rightarrow> Some (Err (BOther ''strategy has no base''), s)
           | Some _ \<Rightarrow>
               (case read_list (bn_ops B) (bn_codec B) s of
                  (Inl e, s1) \<Rightarrow> Some (Err e, s1)
                | (Inr l, s1) \<Rightarrow>
                    map_option (\<lambda>base.
                      (case base of
                         None \<Rightarrow> Err (BOther ''no bundle up the chain exists yet'')
                       | Some b \<Rightarrow> Ok (be_id b, map oid (be_tips b)), s1))
                      (base_for_incremental (bn_cfg B) (or_default l) strat (cut_slot ct)))))"

definition min_commits_of :: "bundles_config \<Rightarrow> bundle_strategy \<Rightarrow> nat" where
  "min_commits_of cfg strat = (case bs_min_commits strat of None \<Rightarrow> bc_min_commits cfg | Some m \<Rightarrow> m)"

definition size_gate ::
  "('s, 'a) bundler \<Rightarrow> bundle_strategy \<Rightarrow> git_ref list \<Rightarrow> string list \<Rightarrow> (bundle_error, unit) result" where
  "size_gate B strat tips prereqs =
     (let m = min_commits_of (bn_cfg B) strat
      in if m = 0 then Ok ()
         else rbind (count_commits (bn_local B) (map oid (filter (local_tip (bn_local B)) tips)) prereqs) (\<lambda>commits.
                if commits < m then Err (TooSmallBundle commits m) else Ok ()))"

definition slot_gate ::
  "('s, 'a) bundler \<Rightarrow> bundle_strategy \<Rightarrow> cut \<Rightarrow> string list \<Rightarrow> string \<Rightarrow> string list \<Rightarrow> 's
     \<Rightarrow> (bundle_error, unit) result \<times> 's" where
  "slot_gate B strat ct patterns base_id prereqs s =
     (if bs_kind strat = Incremental \<and> prereqs \<noteq> []
      then case snapshot_of_cut (bn_local B) ct of
             Inl e \<Rightarrow> (Err e, s)
           | Inr snap \<Rightarrow>
               (let tips = snd (filter_refs snap patterns)
                in if cut_slot ct > 0
                   then sbind (read_list (bn_ops B) (bn_codec B) s) (\<lambda>l s1.
                     case unchanged_since (or_default l) (bs_name strat) base_id (cut_slot ct) tips of
                       Some prev \<Rightarrow> (Err (Unchanged (be_id prev)), s1)
                     | None \<Rightarrow> (size_gate B strat tips prereqs, s1))
                   else (size_gate B strat tips prereqs, s))
      else (Ok (), s))"

text \<open>The update of the list and, when it was applied, the deletes of what it dropped.\<close>

definition publish_list ::
  "('s, 'a) bundler \<Rightarrow> (bundle_list option \<Rightarrow> bundle_list) \<Rightarrow> bundle_list \<Rightarrow> bundle_entry \<Rightarrow> 's
     \<Rightarrow> (bundle_error, bundle_entry) result \<times> 's" where
  "publish_list B f old e s =
     sbind (cas_update_list (bn_retries B) (bn_ops B) (bn_codec B) (\<lambda>cur. Ok (Some (f cur))) s) (\<lambda>res s'.
       case res of
         None \<Rightarrow> (Ok e, s')
       | Some (_, new) \<Rightarrow> (Ok e, delete_pruned (bn_ops B) (pruned_diff old new) s'))"

definition slot_publish ::
  "('s, 'a) bundler \<Rightarrow> bundle_engine \<Rightarrow> system_time \<Rightarrow> bundle_strategy \<Rightarrow> cut \<Rightarrow> string list \<Rightarrow> string \<Rightarrow> string list \<Rightarrow> 's
     \<Rightarrow> (bundle_error, bundle_entry) result \<times> 's" where
  "slot_publish B engine now strat ct patterns base_id prereqs s =
     sbind (read_list (bn_ops B) (bn_codec B) s) (\<lambda>l s1.
     sbind (build_and_upload (bn_local B) engine (bn_ops B) (bn_digest B) (bn_stamp B) (bs_name strat) (bs_kind strat)
              patterns prereqs base_id ct (max_creation_token (or_default l)) now (bs_filter strat) s1) (\<lambda>e s2.
       publish_list B (list_with_entry (bn_cfg B) e (from_system now)) (or_default l) e s2))"

definition build_slot ::
  "('s, 'a) bundler \<Rightarrow> bundle_engine \<Rightarrow> system_time \<Rightarrow> string \<Rightarrow> cut \<Rightarrow> 's
     \<Rightarrow> ((bundle_error, bundle_entry) result \<times> 's) option" where
  "build_slot B engine now strategy ct s =
     (case find_strategy (bn_cfg B) strategy of
        None \<Rightarrow> Some (Err (StrategyNotFound strategy), s)
      | Some strat \<Rightarrow>
          (let patterns = default_refs (bn_cfg B) strat
           in map_option (\<lambda>r.
                sbind r (\<lambda>(base_id, prereqs) s1.
                sbind (slot_gate B strat ct patterns base_id prereqs s1) (\<lambda>_ s2.
                  slot_publish B engine now strat ct patterns base_id prereqs s2)))
                (slot_base B strat ct s)))"

definition build_with_handle ::
  "('s, 'a) bundler \<Rightarrow> system_time \<Rightarrow> string \<Rightarrow> 's \<Rightarrow> ((bundle_error, bundle_entry) result \<times> 's) option" where
  "build_with_handle B now strategy s =
     build_slot B (bn_engine B) now strategy \<lparr>cut_slot = 0, cut_snapshot = None, cut_seq = bn_head_seq B\<rparr> s"

definition bundler_build ::
  "('s, 'a) bundler \<Rightarrow> system_time \<Rightarrow> string \<Rightarrow> 's \<Rightarrow> ((bundle_error, bundle_entry) result \<times> 's) option" where
  "bundler_build B now strategy s =
     (case bn_prepare B of Inl e \<Rightarrow> Some (Err e, s) | Inr _ \<Rightarrow> build_with_handle B now strategy s)"

definition retained_list :: "bundles_config \<Rightarrow> timestamp \<Rightarrow> bundle_list option \<Rightarrow> bundle_list option" where
  "retained_list cfg now cur =
     (let (pruned, next) = retain cfg (or_default cur)
      in if pruned = [] then None else Some (next\<lparr>bl_updated_at := Some now\<rparr>))"

definition apply_retention ::
  "('s, 'a) bundler \<Rightarrow> timestamp \<Rightarrow> 's \<Rightarrow> (bundle_error, nat) result \<times> 's" where
  "apply_retention B now s =
     sbind (read_list (bn_ops B) (bn_codec B) s) (\<lambda>cur s1.
       case cur of
         None \<Rightarrow> (Ok 0, s1)
       | Some l \<Rightarrow>
           if fst (retain (bn_cfg B) l) = [] then (Ok 0, s1)
           else sbind (cas_update_list (bn_retries B) (bn_ops B) (bn_codec B)
                  (\<lambda>cur. Ok (retained_list (bn_cfg B) now cur)) s1) (\<lambda>res s2.
                  case res of
                    None \<Rightarrow> (Ok 0, s2)
                  | Some (_, new) \<Rightarrow>
                      (let gone = pruned_diff l new
                       in (Ok (length gone), delete_pruned (bn_ops B) gone s2))))"

subsection \<open>Closed slots\<close>

definition slot_verdict ::
  "('s, 'a) bundler \<Rightarrow> bundle_list \<Rightarrow> timestamp \<Rightarrow> bundle_strategy \<Rightarrow> slot_plan \<Rightarrow> (bundle_error, skipped_slot option) result" where
  "slot_verdict B l now strat r =
     (case sp_base_id r of
        None \<Rightarrow> Ok None
      | Some i \<Rightarrow>
          (case find (\<lambda>b. be_id b = i) (bl_bundles l) of
             None \<Rightarrow> Ok None
           | Some bb \<Rightarrow>
               (let m = min_commits_of (bn_cfg B) strat;
                    verdict = (\<lambda>sq reason. Some \<lparr>sk_strategy = bs_name strat, sk_slot = sp_slot r, sk_base_id = i,
                      sk_as_of_seq = sq, sk_reason = reason, sk_at = Some now\<rparr>)
                in rbind (bn_refs_as_of B (from_epoch (sp_slot r))) (\<lambda>st.
                     case st of
                       None \<Rightarrow> Ok (verdict 0 ''no state as of the slot'')
                     | Some (snap, sq) \<Rightarrow>
                         (let tips = snd (filter_refs snap (default_refs (bn_cfg B) strat));
                              tip_oids = map oid (filter (local_tip (bn_local B)) tips)
                          in case unchanged_since l (bs_name strat) i (sp_slot r) tips of
                               Some prev \<Rightarrow> Ok (verdict sq (''unchanged since '' @ be_id prev))
                             | None \<Rightarrow>
                                 if m = 0 \<or> tip_oids = [] then Ok None
                                 else rbind (count_commits (bn_local B) tip_oids (map oid (be_tips bb))) (\<lambda>n.
                                   Ok (if n < m
                                       then verdict sq (''too-small: '' @ dec n @ '' commits since base (min '' @ dec m @ '')'')
                                       else None)))))))"

fun slot_verdicts ::
  "('s, 'a) bundler \<Rightarrow> bundle_list \<Rightarrow> timestamp \<Rightarrow> (bundle_strategy \<times> slot_plan) list
     \<Rightarrow> (bundle_error, skipped_slot list) result" where
  "slot_verdicts B l now [] = Ok []"
| "slot_verdicts B l now ((strat, r) # rest) =
     rbind (slot_verdict B l now strat r) (\<lambda>v.
       rbind (slot_verdicts B l now rest) (\<lambda>vs. Ok ((case v of None \<Rightarrow> [] | Some k \<Rightarrow> [k]) @ vs)))"

definition missing_of :: "slot_plan list \<Rightarrow> bundle_strategy \<Rightarrow> slot_plan list" where
  "missing_of rows strat = filter (\<lambda>r. sp_strategy r = bs_name strat \<and> sp_status r = SlotMissing) rows"

definition closed_missing :: "bundles_config \<Rightarrow> system_time \<Rightarrow> slot_plan list \<Rightarrow> (bundle_strategy \<times> slot_plan) list" where
  "closed_missing cfg now rows =
     concat (map (\<lambda>strat. map (Pair strat) (filter (\<lambda>r. slot_closed (sp_slot r) now) (missing_of rows strat)))
       (filter (\<lambda>st. bs_kind st = Incremental) (bc_strategy cfg)))"

definition settle_closed_slots ::
  "('s, 'a) bundler \<Rightarrow> system_time \<Rightarrow> 's \<Rightarrow> ((bundle_error, nat) result \<times> 's) option" where
  "settle_closed_slots B now s =
     (case read_list (bn_ops B) (bn_codec B) s of
        (Inl e, s1) \<Rightarrow> Some (Err e, s1)
      | (Inr cur, s1) \<Rightarrow>
          map_option (\<lambda>p.
            case rbind p (\<lambda>rows. slot_verdicts B (or_default cur) (from_system now) (closed_missing (bn_cfg B) now rows)) of
              Inl e \<Rightarrow> (Err e, s1)
            | Inr vs \<Rightarrow>
                sbind (record_skipped_many (bn_ops B) (bn_codec B) (from_system now) vs s1) (\<lambda>_ s2. (Ok (length vs), s2)))
            (plan_slots (bn_cron B) (bn_cfg B) (or_default cur) now True))"

subsection \<open>One slot as a unit of work\<close>

definition note_skipped ::
  "('s, 'a) bundler \<Rightarrow> system_time \<Rightarrow> bundle_strategy \<Rightarrow> nat \<Rightarrow> string \<Rightarrow> nat \<Rightarrow> string \<Rightarrow> 's
     \<Rightarrow> (bundle_error, bundle_entry option) result \<times> 's" where
  "note_skipped B now strat slot base_id sq reason s =
     (if slot_closed slot now
      then sbind (record_skipped (bn_ops B) (bn_codec B) (from_system now) (bs_name strat) slot base_id sq reason s)
             (\<lambda>_ s'. (Ok None, s'))
      else (Ok None, s))"

definition settle_build ::
  "('s, 'a) bundler \<Rightarrow> system_time \<Rightarrow> bundle_strategy \<Rightarrow> nat \<Rightarrow> string \<Rightarrow> nat \<Rightarrow> (bundle_error, bundle_entry) result \<times> 's
     \<Rightarrow> (bundle_error, bundle_entry option) result \<times> 's" where
  "settle_build B now strat slot base_id sq res =
     (case res of
        (Inr e, s) \<Rightarrow> (Ok (Some e), s)
      | (Inl (TooSmallBundle n m), s) \<Rightarrow>
          note_skipped B now strat slot base_id sq (''too-small: '' @ dec n @ '' commits since base (min '' @ dec m @ '')'') s
      | (Inl (Unchanged since), s) \<Rightarrow> note_skipped B now strat slot base_id sq (''unchanged since '' @ since) s
      | (Inl NoNewObjects, s) \<Rightarrow> (Ok None, s)
      | (Inl NoRefs, s) \<Rightarrow> (Ok None, s)
      | (Inl e, s) \<Rightarrow> (Err e, s))"

definition base_id_now :: "('s, 'a) bundler \<Rightarrow> bundle_strategy \<Rightarrow> nat \<Rightarrow> bundle_list \<Rightarrow> string option" where
  "base_id_now B strat slot l =
     (case bs_kind strat of
        Full \<Rightarrow> Some []
      | Incremental \<Rightarrow>
          map_option (\<lambda>b. case b of None \<Rightarrow> [] | Some b \<Rightarrow> be_id b) (base_for_incremental (bn_cfg B) l strat slot))"

definition slot_built :: "bundle_list option \<Rightarrow> bundle_strategy \<Rightarrow> nat \<Rightarrow> bool" where
  "slot_built cur strat slot =
     list_ex (\<lambda>b. be_strategy b = bs_name strat \<and> be_creation_token b = slot) (bl_bundles (or_default cur))"

definition unit_cut ::
  "('s, 'a) bundler \<Rightarrow> system_time \<Rightarrow> bundle_strategy \<Rightarrow> nat \<Rightarrow> string \<Rightarrow> 's
     \<Rightarrow> ((bundle_error, bundle_entry option) result \<times> 's) option" where
  "unit_cut B now strat slot base_id s =
     (let cut_from = (\<lambda>snap sq. map_option (settle_build B now strat slot base_id sq)
            (build_slot B (bn_engine B) now (bs_name strat) \<lparr>cut_slot = slot, cut_snapshot = snap, cut_seq = sq\<rparr> s))
      in case bn_refs_as_of B (from_epoch slot) of
           Inl e \<Rightarrow> Some (Err e, s)
         | Inr (Some (snap, sq)) \<Rightarrow> cut_from (Some snap) sq
         | Inr None \<Rightarrow>
             if bs_kind strat = Full then cut_from None (bn_head_seq B)
             else Some (note_skipped B now strat slot base_id 0 ''no state as of the slot'' s))"

definition unit_body ::
  "('s, 'a) bundler \<Rightarrow> system_time \<Rightarrow> bundle_strategy \<Rightarrow> nat \<Rightarrow> 's
     \<Rightarrow> ((bundle_error, bundle_entry option) result \<times> 's) option" where
  "unit_body B now strat slot s =
     (case read_list (bn_ops B) (bn_codec B) s of
        (Inl e, s1) \<Rightarrow> Some (Err e, s1)
      | (Inr fresh, s1) \<Rightarrow>
          if slot_built fresh strat slot then Some (Ok None, s1)
          else case bn_prepare B of
            Inl e \<Rightarrow> Some (Err e, s1)
          | Inr _ \<Rightarrow>
              if bs_kind strat = Full \<and> bn_engine B = EngineGix
              then Some (Err (BOther ''full bundle needs the base pack as a local copy on this host''), s1)
              else case read_list (bn_ops B) (bn_codec B) s1 of
                (Inl e, s2) \<Rightarrow> Some (Err e, s2)
              | (Inr l, s2) \<Rightarrow>
                  Option.bind (base_id_now B strat slot (or_default l)) (\<lambda>base_id. unit_cut B now strat slot base_id s2))"

text \<open>The answer of the release is dropped.\<close>

definition build_slot_unit ::
  "('s, 'a) bundler \<Rightarrow> system_time \<Rightarrow> string \<Rightarrow> nat \<Rightarrow> 's \<Rightarrow> ((bundle_error, bundle_entry option) result \<times> 's) option" where
  "build_slot_unit B now strategy slot s =
     (case find_strategy (bn_cfg B) strategy of
        None \<Rightarrow> Some (Err (StrategyNotFound strategy), s)
      | Some strat \<Rightarrow>
          (case try_acquire_lease (bn_ops B) (bn_lease_codec B) (bn_me B) now (bs_name strat) (bn_lease_ttl B) s of
             (Inl e, s1) \<Rightarrow> Some (Err e, s1)
           | (Inr None, s1) \<Rightarrow> Some (Ok None, s1)
           | (Inr (Some g), s1) \<Rightarrow>
               map_option (\<lambda>(r, s2). (r, snd (bundle_release (bn_ops B) g s2))) (unit_body B now strat slot s1)))"

subsection \<open>All due slots\<close>

definition cut_as_of :: "('s, 'a) bundler \<Rightarrow> nat \<Rightarrow> (bundle_error, cut) result" where
  "cut_as_of B slot =
     rbind (bn_refs_as_of B (from_epoch slot)) (\<lambda>st.
       Ok (case st of
             Some (snap, sq) \<Rightarrow> \<lparr>cut_slot = slot, cut_snapshot = Some snap, cut_seq = sq\<rparr>
           | None \<Rightarrow> \<lparr>cut_slot = slot, cut_snapshot = None, cut_seq = bn_head_seq B\<rparr>))"

fun build_todo ::
  "('s, 'a) bundler \<Rightarrow> system_time \<Rightarrow> bundle_strategy \<Rightarrow> nat list \<Rightarrow> bundle_entry list \<Rightarrow> 's
     \<Rightarrow> ((bundle_error, bundle_entry list) result \<times> 's) option" where
  "build_todo B now strat [] built s = Some (Ok built, s)"
| "build_todo B now strat (slot # todo) built s =
     (case cut_as_of B slot of
        Inl e \<Rightarrow> Some (Err e, s)
      | Inr ct \<Rightarrow>
          Option.bind (build_slot B (bn_engine B) now (bs_name strat) ct s) (\<lambda>(r, s1).
            case r of
              Inr e \<Rightarrow> build_todo B now strat todo (built @ [e]) s1
            | Inl e \<Rightarrow>
                (case e of
                   NoNewObjects \<Rightarrow> build_todo B now strat todo built s1
                 | NoRefs \<Rightarrow> build_todo B now strat todo built s1
                 | TooSmallBundle n m \<Rightarrow> build_todo B now strat todo built s1
                 | Unchanged i \<Rightarrow> build_todo B now strat todo built s1
                 | _ \<Rightarrow> Some (Err e, s1))))"

definition due_body ::
  "('s, 'a) bundler \<Rightarrow> system_time \<Rightarrow> bundle_strategy \<Rightarrow> bundle_entry list \<Rightarrow> 's
     \<Rightarrow> ((bundle_error, bundle_entry list) result \<times> 's) option" where
  "due_body B now strat built s =
     (case bn_prepare B of
        Inl e \<Rightarrow> Some (Err e, s)
      | Inr _ \<Rightarrow>
          if bs_kind strat = Full \<and> bn_engine B = EngineGix then Some (Ok built, s)
          else case read_list (bn_ops B) (bn_codec B) s of
            (Inl e, s1) \<Rightarrow> Some (Err e, s1)
          | (Inr fresh, s1) \<Rightarrow>
              Option.bind (plan_slots (bn_cron B) (bn_cfg B) (or_default fresh) now True) (\<lambda>p.
                case p of
                  Inl e \<Rightarrow> Some (Err e, s1)
                | Inr rows \<Rightarrow>
                    (let todo = sort (map sp_slot (missing_of rows strat))
                     in build_todo B now strat
                          (if bs_backfill_max strat > 0 then take (bs_backfill_max strat) todo else todo) built s1)))"

fun run_strategies ::
  "('s, 'a) bundler \<Rightarrow> system_time \<Rightarrow> slot_plan list \<Rightarrow> bundle_strategy list \<Rightarrow> bundle_entry list \<Rightarrow> 's
     \<Rightarrow> ((bundle_error, bundle_entry list) result \<times> 's) option" where
  "run_strategies B now rows [] built s = Some (Ok built, s)"
| "run_strategies B now rows (strat # rest) built s =
     (if missing_of rows strat = [] then run_strategies B now rows rest built s
      else case try_acquire_lease (bn_ops B) (bn_lease_codec B) (bn_me B) now (bs_name strat) (bn_lease_ttl B) s of
        (Inl e, s1) \<Rightarrow> Some (Err e, s1)
      | (Inr None, s1) \<Rightarrow> run_strategies B now rows rest built s1
      | (Inr (Some g), s1) \<Rightarrow>
          Option.bind (due_body B now strat built s1) (\<lambda>(r, s2).
            let s3 = snd (bundle_release (bn_ops B) g s2)
            in case r of
                 Inl e \<Rightarrow> Some (Err e, s3)
               | Inr built' \<Rightarrow> run_strategies B now rows rest built' s3))"

definition run_due ::
  "('s, 'a) bundler \<Rightarrow> system_time \<Rightarrow> 's \<Rightarrow> ((bundle_error, bundle_entry list) result \<times> 's) option" where
  "run_due B now s =
     (case read_list (bn_ops B) (bn_codec B) s of
        (Inl e, s1) \<Rightarrow> Some (Err e, s1)
      | (Inr cur, s1) \<Rightarrow>
          Option.bind (plan_slots (bn_cron B) (bn_cfg B) (or_default cur) now True) (\<lambda>p.
            case p of
              Inl e \<Rightarrow> Some (Err e, s1)
            | Inr rows \<Rightarrow> run_strategies B now rows (bc_strategy (bn_cfg B)) [] s1))"

subsection \<open>A full bundle from the base pack\<close>

definition base_packs :: "manifest \<Rightarrow> pack_ref list" where
  "base_packs m = filter (\<lambda>p. tier p = 2 \<and> pkind p \<noteq> HistoryPack) (packs m)"

definition base_pack :: "manifest \<Rightarrow> pack_ref option" where
  "base_pack m = max_by pack_size (base_packs m)"

text \<open>The pack to compose: the base, or for a filtered strategy its newest history pack.\<close>

definition compose_pack :: "manifest \<Rightarrow> pack_ref \<Rightarrow> string option \<Rightarrow> pack_ref option" where
  "compose_pack m b filt =
     (case filt of
        None \<Rightarrow> Some b
      | Some _ \<Rightarrow> max_by pack_seq (filter (\<lambda>p. pkind p = HistoryPack \<and> derived_from p = checksum b) (packs m)))"

text \<open>The refs at the base: the checkpoint there, or what the log replays to.\<close>

definition compose_refs ::
  "('s, 'a) store_ops \<Rightarrow> ('a, ref_snapshot) msg_codec \<Rightarrow> (nat \<Rightarrow> (bundle_error, ref_snapshot) result) \<Rightarrow> nat \<Rightarrow> 's
     \<Rightarrow> (bundle_error, ref_snapshot) result \<times> 's" where
  "compose_refs ops rc replay sq s =
     (case get_bytes ops s (checkpoint_refs_key sq) of
        (Inl e, s1) \<Rightarrow> (Err (BStore e), s1)
      | (Inr None, s1) \<Rightarrow> (replay sq, s1)
      | (Inr (Some (_, data)), s1) \<Rightarrow> (case decode rc data of None \<Rightarrow> Err BDecode | Some d \<Rightarrow> Ok d, s1))"

definition composed_list :: "bundles_config \<Rightarrow> bundle_entry \<Rightarrow> timestamp \<Rightarrow> bundle_list option \<Rightarrow> bundle_list" where
  "composed_list cfg e now cur =
     (let l = or_default cur
      in (snd (retain cfg (l\<lparr>bl_mode := ''all'', bl_heuristic := ''creationToken'', bl_bundles := bl_bundles l @ [e]\<rparr>)))
           \<lparr>bl_updated_at := Some now\<rparr>)"

definition compose_full_from_base ::
  "('s, 'a) bundler \<Rightarrow> ('a, ref_snapshot) msg_codec \<Rightarrow> (nat \<Rightarrow> (bundle_error, ref_snapshot) result) \<Rightarrow> bool
     \<Rightarrow> (string \<Rightarrow> 'a byte_stream option) \<Rightarrow> manifest \<Rightarrow> system_time \<Rightarrow> string \<Rightarrow> nat \<Rightarrow> 's
     \<Rightarrow> (bundle_error, bundle_entry) result \<times> 's" where
  "compose_full_from_base B rc replay can_compose pack_file m now strategy slot s =
     (case base_packs m of
        [b] \<Rightarrow>
          sbind (compose_refs (bn_ops B) rc replay (pack_seq b) s) (\<lambda>snap s1.
          sbind (read_list (bn_ops B) (bn_codec B) s1) (\<lambda>l s2.
            (let filt = Option.bind (find_strategy (bn_cfg B) strategy) bs_filter
             in case compose_pack m b filt of
                  None \<Rightarrow> (Err (BOther ''base has no history pack to compose''), s2)
                | Some p \<Rightarrow>
                    sbind (compose_full (bn_ops B) (lo_bytes (bn_local B)) (bn_stamp B) can_compose (checksum p) (pack_size p)
                             (pack_file (checksum p)) snap (lo_format (bn_local B)) strategy (pack_seq b)
                             (max_creation_token (or_default l)) now slot filt s2) (\<lambda>e s3.
                      publish_list B (composed_list (bn_cfg B) e (from_system now)) (or_default l) e s3))))
      | _ \<Rightarrow> (Err (BOther ''compose needs exactly one tier-2 base pack''), s))"

section \<open>A list that only names bundles that are there\<close>

definition entry_ok :: "bundle_entry \<Rightarrow> bool" where
  "entry_ok b \<longleftrightarrow> starts_with (be_key b) ''bundles/'' \<and> ends_with (be_key b) ''.bundle'' \<and>
     be_id b = bundle_id (be_strategy b) (be_creation_token b)"

definition entries_ok :: "bool \<Rightarrow> (string \<Rightarrow> (version \<times> 'a list) option) \<Rightarrow> bundle_entry list \<Rightarrow> bool" where
  "entries_ok u w bs \<longleftrightarrow> (\<forall>b\<in>set bs. entry_ok b \<and> w (be_key b) \<noteq> None) \<and>
     (u \<longrightarrow> distinct (map (\<lambda>b. (be_strategy b, be_creation_token b)) bs))"

definition list_sound :: "bool \<Rightarrow> (string \<Rightarrow> (version \<times> 'a list) option) \<Rightarrow> ('a, bundle_list) msg_codec \<Rightarrow> bool" where
  "list_sound u w c \<longleftrightarrow> (\<forall>l. listed w c = Some l \<longrightarrow> entries_ok u w (bl_bundles l))"

lemma bundle_id_inj: "bundle_id a m = bundle_id b n \<Longrightarrow> a = b \<and> m = n"
proof -
  assume eq: "bundle_id a m = bundle_id b n"
  have no_dash: "CHR ''-'' \<notin> set (rev (dec k))" for k using dec_digits [of k] by auto
  have "rev (dec m) @ CHR ''-'' # rev a = rev (dec n) @ CHR ''-'' # rev b"
    using arg_cong [OF eq, of rev] by (simp add: bundle_id_def)
  then have "split_once (CHR ''-'') (rev (dec m) @ CHR ''-'' # rev a) = split_once (CHR ''-'') (rev (dec n) @ CHR ''-'' # rev b)"
    by simp
  then show ?thesis using dec_inj by (simp add: split_once_append [OF no_dash])
qed

lemma entries_ok_ids: "entries_ok True w bs \<Longrightarrow> distinct (map be_id bs)"
  unfolding entries_ok_def distinct_map inj_on_def entry_ok_def
  by (metis bundle_id_inj)

lemma entries_ok_Nil [simp]: "entries_ok u w []"
  by (simp add: entries_ok_def)

lemma entries_ok_filter: "entries_ok u w bs \<Longrightarrow> entries_ok u w (filter P bs)"
  by (auto simp: entries_ok_def distinct_map_filter)

lemma entries_ok_mono:
  "entries_ok u w bs \<Longrightarrow> (\<And>b. b \<in> set bs \<Longrightarrow> w (be_key b) \<noteq> None \<Longrightarrow> w' (be_key b) \<noteq> None) \<Longrightarrow> entries_ok u w' bs"
  by (auto simp: entries_ok_def)

lemma list_sound_put: "k \<noteq> BUNDLE_LIST \<Longrightarrow> list_sound u w c \<Longrightarrow> list_sound u (w(k \<mapsto> x)) c"
  by (auto simp: list_sound_def intro: entries_ok_mono)

text \<open>Keys that no entry of the list has.\<close>

definition unlisted :: "string \<Rightarrow> bool" where
  "unlisted k \<longleftrightarrow> k \<noteq> BUNDLE_LIST \<and> \<not> (starts_with k ''bundles/'' \<and> ends_with k ''.bundle'')"

lemma list_sound_other_key: "unlisted k \<Longrightarrow> list_sound u w c \<Longrightarrow> list_sound u (w(k := x)) c"
  by (auto simp: list_sound_def entries_ok_def entry_ok_def unlisted_def)

lemma entry_key_apart: "entry_ok b \<Longrightarrow> be_key b \<noteq> BUNDLE_LIST"
  by (auto simp: entry_ok_def BUNDLE_LIST_def ends_with_def suffix_def)

lemma list_sound_or_default: "list_sound u w c \<Longrightarrow> entries_ok u w (bl_bundles (or_default (listed w c)))"
  by (auto simp: list_sound_def or_default_def empty_list_def split: option.splits)

lemma list_sound_new:
  assumes "codec_ok c" "entries_ok u w (bl_bundles l)"
  shows "list_sound u (w(BUNDLE_LIST \<mapsto> (v, encode c l))) c"
  using assms by (auto simp: list_sound_def listed_new entries_ok_def dest: entry_key_apart)

lemma with_verdicts_bundles: "with_verdicts vs now cur = Some l \<Longrightarrow> bl_bundles l = bl_bundles (or_default cur)"
  by (auto simp: with_verdicts_def Let_def split: if_splits)

lemma retain_bundles: "\<exists>P. bl_bundles (snd (retain cfg l)) = filter P (bl_bundles l)"
  by (auto simp: retain_def Let_def)

lemma list_with_entry_ok:
  assumes "entries_ok u w (bl_bundles (or_default cur))" "entry_ok e" "w (be_key e) \<noteq> None"
  shows "entries_ok u w (bl_bundles (list_with_entry cfg e now cur))"
proof -
  let ?bs = "filter (\<lambda>b. \<not> (be_strategy b = be_strategy e \<and> be_creation_token b = be_creation_token e))
    (bl_bundles (or_default cur)) @ [e]"
  have "entries_ok u w ?bs" using entries_ok_filter [OF assms(1)] assms(2,3) by (auto simp: entries_ok_def)
  moreover obtain P where "bl_bundles (list_with_entry cfg e now cur) = filter P ?bs"
    using retain_bundles [of cfg "(or_default cur)\<lparr>bl_mode := ''all'', bl_heuristic := ''creationToken'', bl_bundles := ?bs\<rparr>"]
    by (auto simp: list_with_entry_def Let_def)
  ultimately show ?thesis by (simp only: entries_ok_filter)
qed

lemma bundle_object_key_ok:
  "starts_with (bundle_object_key stamp st now d) ''bundles/''" "ends_with (bundle_object_key stamp st now d) ''.bundle''" "bundle_object_key stamp st now d \<noteq> BUNDLE_LIST"
proof -
  have "last (bundle_object_key stamp st now d) = CHR ''e''" by (simp add: bundle_object_key_def)
  moreover have "last BUNDLE_LIST = CHR ''b''" by (simp add: BUNDLE_LIST_def)
  ultimately show "bundle_object_key stamp st now d \<noteq> BUNDLE_LIST" by auto
qed (simp_all add: bundle_object_key_def starts_with_def ends_with_def suffix_def)

lemma last_bundle_suffix: "ends_with k ''.bundle'' \<Longrightarrow> last k = CHR ''e''"
  by (auto simp: ends_with_def suffix_def)

lemma header_key_ok: "unlisted (bundle_object_key stamp st now d @ ''.hdr'')"
  using last_bundle_suffix [of "bundle_object_key stamp st now d @ ''.hdr''"]
    arg_cong [of "bundle_object_key stamp st now d @ ''.hdr''" BUNDLE_LIST last]
  by (auto simp: unlisted_def BUNDLE_LIST_def)

lemma composed_list_ok:
  assumes "entries_ok False w (bl_bundles (or_default cur))" "entry_ok e" "w (be_key e) \<noteq> None"
  shows "entries_ok False w (bl_bundles (composed_list cfg e now cur))"
proof -
  let ?bs = "bl_bundles (or_default cur) @ [e]"
  have "entries_ok False w ?bs" using assms by (auto simp: entries_ok_def)
  moreover obtain P where "bl_bundles (composed_list cfg e now cur) = filter P ?bs"
    using retain_bundles [of cfg "(or_default cur)\<lparr>bl_mode := ''all'', bl_heuristic := ''creationToken'', bl_bundles := ?bs\<rparr>"]
    by (auto simp: composed_list_def Let_def)
  ultimately show ?thesis by (simp only: entries_ok_filter)
qed

lemma strategy_lease_key_ok: "unlisted (strategy_lease_key st)"
  by (simp add: unlisted_def strategy_lease_key_def LEASES_DIR_def starts_with_def BUNDLE_LIST_def)

lemma sbind_last_state: "sbind m (\<lambda>x t. (f x, t)) = (r, s') \<Longrightarrow> s' = snd m"
  by (cases m; cases "fst m") auto

text \<open>A maintainer whose store is in a state where the list is sound.\<close>

definition sound_at ::
  "bool \<Rightarrow> ('s, 'a) store_ops \<Rightarrow> ('s \<Rightarrow> string \<Rightarrow> (version \<times> 'a list) option) \<Rightarrow> ('s \<Rightarrow> bool) \<Rightarrow> ('s, 'a) bundler \<Rightarrow> 's \<Rightarrow> bool" where
  "sound_at u ops view invar B s \<longleftrightarrow>
     bn_ops B = ops \<and> codec_ok (bn_codec B) \<and> invar s \<and> list_sound u (view s) (bn_codec B)"

context sole_client
begin

lemma upload_file_effect:
  assumes "invar s" "upload_file ops k file s = (r, s')"
  shows "invar s' \<and> (view s' = view s \<or> (\<exists>x. view s' = (view s)(k \<mapsto> x))) \<and> (\<forall>v. r = Ok v \<longrightarrow> view s' k \<noteq> None)"
proof -
  obtain w s1 where w: "os_put ops s k (File (Ok file)) Create = (w, s1)" by (cases "os_put ops s k (File (Ok file)) Create")
  note W = put_effect [OF assms(1) w]
  obtain h s2 where h: "os_head ops s1 k = (h, s2)" by (cases "os_head ops s1 k")
  have s1: "invar s1" using W by simp
  note H = head_law [OF s1 h] head_quiet [OF s1 h]
  show ?thesis
  proof (cases w)
    case (Inr meta)
    then show ?thesis using assms(2) w W by (fastforce simp: upload_file_def)
  next
    case (Inl e)
    then show ?thesis using assms(2) w W h H
      by (auto simp: upload_file_def split: if_splits sum.splits option.splits simp del: fun_upd_apply)
  qed
qed

lemma build_and_upload_effect:
  assumes "invar s" "list_sound u (view s) c"
    "build_and_upload lo engine ops dg stamp strategy kd pats prereqs base_id ct prev now filt s = (r, s')"
  shows "invar s' \<and> list_sound u (view s') c \<and> listed (view s') c = listed (view s) c \<and>
    (\<forall>e. r = Ok e \<longrightarrow> entry_ok e \<and> view s' (be_key e) \<noteq> None)"
proof -
  consider (failed) e where "r = Err e" "s' = s"
    | (uploaded) fl v where "upload_file ops (bundle_object_key stamp strategy now (dg fl)) fl s = (v, s')"
      "\<forall>e. r = Ok e \<longrightarrow> (\<exists>x. v = Ok x) \<and> be_key e = bundle_object_key stamp strategy now (dg fl) \<and>
         be_id e = bundle_id (be_strategy e) (be_creation_token e)"
    using assms(3)
    by (auto simp: build_and_upload_def Let_def sbind_def split: sum.splits if_splits prod.splits)
  then show ?thesis
  proof cases
    case failed
    then show ?thesis using assms by simp
  next
    case uploaded
    let ?k = "bundle_object_key stamp strategy now (dg fl)"
    note U = upload_file_effect [OF assms(1) uploaded(1)]
    have "list_sound u (view s') c \<and> listed (view s') c = listed (view s) c"
      using U assms(2) list_sound_put [OF bundle_object_key_ok(3)] bundle_object_key_ok(3) by auto
    then show ?thesis using U uploaded(2) bundle_object_key_ok [of stamp strategy now "dg fl"]
      by (auto simp: entry_ok_def)
  qed
qed

lemma delete_pruned_sound:
  assumes "invar s" "listed (view s) c = Some new" "entries_ok u (view s) (bl_bundles new)"
    "entries_ok u w (bl_bundles old)"
  shows "invar (delete_pruned ops (pruned_diff old new) s) \<and>
    list_sound u (view (delete_pruned ops (pruned_diff old new) s)) c"
proof -
  let ?s' = "delete_pruned ops (pruned_diff old new) s"
  note D = delete_pruned_effect [OF assms(1), of "pruned_diff old new"]
  have keep: "k \<in> be_key ` set (bl_bundles new) \<Longrightarrow> view ?s' k = view s k" for k
    using D by (auto simp: pruned_diff_def)
  have "BUNDLE_LIST \<notin> set (pruned_diff old new)"
    using assms(4) entry_key_apart by (fastforce simp: pruned_diff_def entries_ok_def)
  then have "listed (view ?s') c = Some new" using D assms(2) by (simp add: listed_def)
  moreover have "entries_ok u (view ?s') (bl_bundles new)"
    using keep by (intro entries_ok_mono [OF assms(3)]) auto
  ultimately show ?thesis using D by (simp add: list_sound_def)
qed

lemma read_list_sound:
  assumes "sound_at u ops view invar B s" "read_list ops (bn_codec B) s = (r, s')"
  shows "sound_at u ops view invar B s' \<and> view s' = view s \<and> (\<forall>cur. r = Ok cur \<longrightarrow> cur = listed (view s) (bn_codec B))"
  using read_list_quiet [of s "bn_codec B" r s'] assms by (auto simp: sound_at_def)

text \<open>An update of the list that keeps it sound, and the deletes that follow when it was applied.\<close>

lemma cas_update_list_sound:
  assumes "sound_at u ops view invar B s" "cas_update_list n ops (bn_codec B) f s = (x, s1)"
    and "\<And>new. f (listed (view s) (bn_codec B)) = Ok (Some new) \<Longrightarrow> entries_ok u (view s) (bl_bundles new)"
  shows "sound_at u ops view invar B s1"
    and "entries_ok u w (bl_bundles old) \<Longrightarrow> x = Ok (Some (v, new)) \<Longrightarrow>
      sound_at u ops view invar B (delete_pruned ops (pruned_diff old new) s1)"
proof -
  let ?c = "bn_codec B"
  have B: "bn_ops B = ops" "codec_ok ?c" "invar s" "list_sound u (view s) ?c" using assms(1) by (auto simp: sound_at_def)
  note X = cas_update_list_effect [OF B(3) assms(2)]
  show "sound_at u ops view invar B s1"
    using X B list_sound_new [OF B(2) assms(3)] by (auto simp: sound_at_def)
  assume old: "entries_ok u w (bl_bundles old)" and x: "x = Ok (Some (v, new))"
  from X x have v: "f (listed (view s) ?c) = Ok (Some new)" "view s1 = (view s)(BUNDLE_LIST \<mapsto> (v, encode ?c new))" "invar s1"
    by auto
  have "entries_ok u (view s1) (bl_bundles new)" using v(2) by (intro entries_ok_mono [OF assms(3) [OF v(1)]]) auto
  then show "sound_at u ops view invar B (delete_pruned ops (pruned_diff old new) s1)"
    using delete_pruned_sound [OF v(3) _ _ old, of ?c new] listed_new [OF B(2)] B v(2) by (simp add: sound_at_def)
qed

lemma publish_list_sound:
  assumes "sound_at u ops view invar B s" "publish_list B f old e s = (r, s')" "entries_ok u w (bl_bundles old)"
    and "entries_ok u (view s) (bl_bundles (f (listed (view s) (bn_codec B))))"
  shows "sound_at u ops view invar B s'"
proof -
  have B: "bn_ops B = ops" using assms(1) by (simp add: sound_at_def)
  let ?cas = "cas_update_list (bn_retries B) ops (bn_codec B) (\<lambda>cur. Ok (Some (f cur))) s"
  obtain x s1 where x: "?cas = (x, s1)" by (cases ?cas)
  have "entries_ok u (view s) (bl_bundles new)" if "Ok (Some (f (listed (view s) (bn_codec B)))) = Ok (Some new)" for new
    using that assms(4) by auto
  note C = cas_update_list_sound [OF assms(1) x this]
  show ?thesis using assms(2) B x C(1) C(2) [OF _ assms(3)]
    by (cases x) (auto simp: publish_list_def split: option.splits)
qed

lemma slot_publish_sound:
  assumes "sound_at u ops view invar B s" "slot_publish B engine now strat ct pats base_id prereqs s = (r, s')"
  shows "sound_at u ops view invar B s'"
proof -
  let ?c = "bn_codec B"
  have B: "bn_ops B = ops" using assms(1) by (simp add: sound_at_def)
  obtain l s1 where l: "read_list ops ?c s = (l, s1)" by (cases "read_list ops ?c s")
  note L = read_list_sound [OF assms(1) l]
  show ?thesis
  proof (cases l)
    case (Inl e)
    then show ?thesis using assms(2) l L B by (auto simp: slot_publish_def)
  next
    case (Inr cur)
    let ?up = "build_and_upload (bn_local B) engine ops (bn_digest B) (bn_stamp B) (bs_name strat) (bs_kind strat)
      pats prereqs base_id ct (max_creation_token (or_default cur)) now (bs_filter strat) s1"
    have s1: "invar s1" "list_sound u (view s1) ?c" "listed (view s1) ?c = cur" using L Inr by (auto simp: sound_at_def)
    obtain e s2 where e: "?up = (e, s2)" by (cases ?up)
    note U = build_and_upload_effect [OF s1(1,2) e]
    then have s2: "sound_at u ops view invar B s2" "listed (view s2) ?c = cur" using assms(1) s1 by (auto simp: sound_at_def)
    have old: "entries_ok u (view s2) (bl_bundles (or_default cur))"
      using list_sound_or_default [of u "view s2" ?c] s2 by (simp add: sound_at_def)
    show ?thesis using assms(2) l Inr e s2 B U publish_list_sound [OF s2(1) _ old] list_with_entry_ok [OF old]
      by (cases e) (auto simp: slot_publish_def)
  qed
qed

lemma slot_base_sound:
  assumes "sound_at u ops view invar B s" "slot_base B strat ct s = Some (r, s')"
  shows "sound_at u ops view invar B s'"
proof -
  have B: "bn_ops B = ops" using assms(1) by (simp add: sound_at_def)
  obtain l s1 where l: "read_list ops (bn_codec B) s = (l, s1)" by (cases "read_list ops (bn_codec B) s")
  show ?thesis using assms read_list_sound [OF assms(1) l] l B
    by (auto simp: slot_base_def split: bundle_kind.splits option.splits sum.splits)
qed

lemma slot_gate_sound:
  assumes "sound_at u ops view invar B s" "slot_gate B strat ct pats base_id prereqs s = (r, s')"
  shows "sound_at u ops view invar B s'"
proof -
  have B: "bn_ops B = ops" using assms(1) by (simp add: sound_at_def)
  obtain l s1 where l: "read_list ops (bn_codec B) s = (l, s1)" by (cases "read_list ops (bn_codec B) s")
  show ?thesis using assms read_list_sound [OF assms(1) l] l B
    by (cases l) (auto simp: slot_gate_def Let_def split: option.splits sum.splits if_splits)
qed

lemma build_slot_sound:
  assumes "sound_at u ops view invar B s" "build_slot B engine now strategy ct s = Some (r, s')"
  shows "sound_at u ops view invar B s'"
proof (cases "find_strategy (bn_cfg B) strategy")
  case None
  then show ?thesis using assms by (simp add: build_slot_def)
next
  case (Some strat)
  obtain b s1 where b: "slot_base B strat ct s = Some (b, s1)"
    using assms(2) Some by (cases "slot_base B strat ct s") (auto simp: build_slot_def Let_def)
  note S1 = slot_base_sound [OF assms(1) b]
  show ?thesis
  proof (cases b)
    case (Inl e)
    then show ?thesis using assms(2) Some b S1 by (simp add: build_slot_def Let_def)
  next
    case (Inr p)
    obtain base_id prereqs where p: "p = (base_id, prereqs)" by (cases p)
    let ?gate = "slot_gate B strat ct (default_refs (bn_cfg B) strat) base_id prereqs s1"
    obtain g s2 where g: "?gate = (g, s2)" by (cases ?gate)
    note S2 = slot_gate_sound [OF S1 g]
    show ?thesis using assms(2) Some b Inr p g S2 slot_publish_sound [OF S2]
      by (cases g) (auto simp: build_slot_def Let_def)
  qed
qed

lemma record_skipped_many_sound:
  assumes "sound_at u ops view invar B s" "record_skipped_many ops (bn_codec B) now vs s = (r, s')"
  shows "sound_at u ops view invar B s'"
proof -
  let ?f = "\<lambda>cur. Ok (with_verdicts vs now cur)"
  obtain x s1 where x: "cas_update_list 8 ops (bn_codec B) ?f s = (x, s1)" by (cases "cas_update_list 8 ops (bn_codec B) ?f s")
  have "entries_ok u (view s) (bl_bundles new)" if "?f (listed (view s) (bn_codec B)) = Ok (Some new)" for new
    using that assms(1) with_verdicts_bundles list_sound_or_default by (fastforce simp: sound_at_def)
  from cas_update_list_sound(1) [OF assms(1) x this] show ?thesis
    using assms x by (cases x) (auto simp: record_skipped_many_def split: if_splits)
qed

lemma apply_retention_sound:
  assumes "sound_at u ops view invar B s" "apply_retention B now s = (r, s')"
  shows "sound_at u ops view invar B s'"
proof -
  let ?c = "bn_codec B"
  let ?f = "\<lambda>cur. Ok (retained_list (bn_cfg B) now cur)"
  have B: "bn_ops B = ops" using assms(1) by (simp add: sound_at_def)
  obtain l s1 where l: "read_list ops ?c s = (l, s1)" by (cases "read_list ops ?c s")
  note L = read_list_sound [OF assms(1) l]
  then have s1: "sound_at u ops view invar B s1" by simp
  obtain x s2 where x: "cas_update_list (bn_retries B) ops ?c ?f s1 = (x, s2)"
    by (cases "cas_update_list (bn_retries B) ops ?c ?f s1")
  have now: "entries_ok u (view s1) (bl_bundles (or_default (listed (view s1) ?c)))"
    using list_sound_or_default s1 by (auto simp: sound_at_def)
  have "entries_ok u (view s1) (bl_bundles new)" if "?f (listed (view s1) ?c) = Ok (Some new)" for new
    using that entries_ok_filter [OF now] by (auto simp: retained_list_def retain_def Let_def split: if_splits)
  note C = cas_update_list_sound [OF s1 x this]
  show ?thesis
  proof (cases "\<exists>old. l = Ok (Some old)")
    case False
    then show ?thesis using assms(2) l s1 B by (cases l) (auto simp: apply_retention_def split: option.splits)
  next
    case True
    then obtain old where old: "l = Ok (Some old)" by blast
    then have "entries_ok u (view s1) (bl_bundles old)" using now L by (auto simp: or_default_def split: option.splits)
    note C' = C(2) [OF _ this]
    show ?thesis using assms(2) l old s1 B x C(1) C'
      by (cases x) (auto simp: apply_retention_def Let_def split: option.splits if_splits)
  qed
qed

lemma settle_closed_slots_sound:
  assumes "sound_at u ops view invar B s" "settle_closed_slots B now s = Some (r, s')"
  shows "sound_at u ops view invar B s'"
proof -
  have B: "bn_ops B = ops" using assms(1) by (simp add: sound_at_def)
  obtain l s1 where l: "read_list ops (bn_codec B) s = (l, s1)" by (cases "read_list ops (bn_codec B) s")
  have s1: "sound_at u ops view invar B s1" using read_list_sound [OF assms(1) l] by simp
  have rec: "sound_at u ops view invar B (snd (record_skipped_many ops (bn_codec B) t vs s1))" for t vs
    using record_skipped_many_sound [OF s1, of t vs] by (cases "record_skipped_many ops (bn_codec B) t vs s1") simp
  show ?thesis
  proof (cases l)
    case (Inl e)
    then show ?thesis using assms(2) l s1 B by (simp add: settle_closed_slots_def)
  next
    case (Inr cur)
    then obtain p where p: "(case rbind p (\<lambda>rows. slot_verdicts B (or_default cur) (from_system now) (closed_missing (bn_cfg B) now rows)) of
        Inl e \<Rightarrow> (Err e, s1)
      | Inr vs \<Rightarrow> sbind (record_skipped_many ops (bn_codec B) (from_system now) vs s1) (\<lambda>_ s2. (Ok (length vs), s2))) = (r, s')"
      using assms(2) l B by (auto simp: settle_closed_slots_def)
    show ?thesis
    proof (cases "rbind p (\<lambda>rows. slot_verdicts B (or_default cur) (from_system now) (closed_missing (bn_cfg B) now rows))")
      case (Inr vs)
      then have "sbind (record_skipped_many ops (bn_codec B) (from_system now) vs s1) (\<lambda>_ t. (Ok (length vs), t)) = (r, s')"
        using p by (simp only: sum.case)
      from sbind_last_state [OF this] show ?thesis using rec by simp
    qed (use p s1 in simp)
  qed
qed

lemma lease_write_sound:
  assumes "sound_at u ops view invar B s" "lease_write ops (strategy_lease_key st) body m s = (r, s')"
  shows "sound_at u ops view invar B s'"
proof -
  obtain w s1 where w: "put_bytes ops s (strategy_lease_key st) body m = (w, s1)"
    by (cases "put_bytes ops s (strategy_lease_key st) body m")
  have inv: "invar s" using assms(1) by (simp add: sound_at_def)
  show ?thesis using assms w put_bytes_effect [OF inv w] list_sound_other_key [OF strategy_lease_key_ok]
    by (cases w) (auto simp: lease_write_def sound_at_def simp del: fun_upd_apply)
qed

lemma try_acquire_lease_sound:
  assumes "sound_at u ops view invar B s" "try_acquire_lease ops lc me now st ttl s = (r, s')"
  shows "sound_at u ops view invar B s' \<and> (\<forall>g. r = Ok (Some g) \<longrightarrow> bg_key g = strategy_lease_key st)"
proof -
  let ?k = "strategy_lease_key st" and ?b = "encode lc (make_lease me (''bundle-'' @ st) now ttl 0)"
  have key: "bg_key g = ?k" if "lease_write ops ?k ?b m t = (Ok (Some g), t')" for g m t t'
    using that by (auto simp: lease_write_def split: prod.splits sum.splits if_splits)
  obtain w s1 where w: "lease_write ops ?k ?b Create s = (w, s1)" by (cases "lease_write ops ?k ?b Create s")
  have s1: "sound_at u ops view invar B s1" by (rule lease_write_sound [OF assms(1) w])
  obtain g s2 where g: "get_bytes ops s1 ?k = (g, s2)" by (cases "get_bytes ops s1 ?k")
  have s2: "sound_at u ops view invar B s2"
    using s1 get_bytes_quiet [of s1, OF _ g] by (auto simp: sound_at_def)
  have body: "sound_at u ops view invar B t' \<and> (\<forall>g. r' = Ok (Some g) \<longrightarrow> bg_key g = ?k)"
    if "lease_write ops ?k ?b m s2 = (r', t')" for m r' t'
    using that lease_write_sound [OF s2 that] key by blast
  show ?thesis
  proof (cases "w = Ok None")
    case False
    then show ?thesis using assms(2) w s1 key
      by (cases w) (auto simp: try_acquire_lease_def Let_def split: option.splits)
  next
    case True
    then have "(case g of Inl e \<Rightarrow> (Err (BStore e), s2) | Inr None \<Rightarrow> lease_write ops ?k ?b Create s2
      | Inr (Some (meta, data)) \<Rightarrow> (case decode lc data of None \<Rightarrow> (Err BDecode, s2) | Some existing \<Rightarrow>
          if (case expires_at existing of None \<Rightarrow> True | Some t \<Rightarrow> to_system t \<le> now)
          then lease_write ops ?k ?b (Update (meta_version meta)) s2 else (Ok None, s2))) = (r, s')"
      using assms(2) w g by (simp add: try_acquire_lease_def Let_def del: append.simps)
    then show ?thesis using s2 body
      by (auto split: sum.splits option.splits if_splits)
  qed
qed

lemma bundle_release_sound:
  assumes "sound_at u ops view invar B s" "bg_key g = strategy_lease_key st"
  shows "sound_at u ops view invar B (snd (bundle_release ops g s))"
proof -
  obtain r s1 where d: "os_delete ops s (bg_key g) (Some (bg_version g)) = (r, s1)"
    by (cases "os_delete ops s (bg_key g) (Some (bg_version g))")
  have inv: "invar s" using assms(1) by (simp add: sound_at_def)
  show ?thesis using assms d delete_effect [OF inv d] list_sound_other_key [OF strategy_lease_key_ok]
    by (cases r) (auto simp: bundle_release_def sound_at_def simp del: fun_upd_apply)
qed

lemma note_skipped_sound:
  assumes "sound_at u ops view invar B s" "note_skipped B now strat slot i sq reason s = (r, s')"
  shows "sound_at u ops view invar B s'"
proof (cases "slot_closed slot now")
  case True
  have B: "bn_ops B = ops" using assms(1) by (simp add: sound_at_def)
  let ?m = "record_skipped ops (bn_codec B) (from_system now) (bs_name strat) slot i sq reason s"
  obtain x t where x: "?m = (x, t)" by (cases ?m)
  have "sbind ?m (\<lambda>_ t. (Ok None, t)) = (r, s')" using assms(2) True B by (simp add: note_skipped_def)
  from sbind_last_state [OF this] have "s' = t" using x by simp
  then show ?thesis using record_skipped_many_sound [OF assms(1)] x by (simp add: record_skipped_def)
qed (use assms in \<open>simp add: note_skipped_def\<close>)

lemma settle_build_sound:
  assumes "sound_at u ops view invar B s" "settle_build B now strat slot i sq (x, s) = (r, s')"
  shows "sound_at u ops view invar B s'"
  using assms note_skipped_sound [OF assms(1)]
  by (auto simp: settle_build_def split: sum.splits bundle_error.splits)

lemma unit_cut_sound:
  assumes "sound_at u ops view invar B s" "unit_cut B now strat slot i s = Some (r, s')"
  shows "sound_at u ops view invar B s'"
proof -
  have built: "sound_at u ops view invar B s'"
    if "build_slot B e now n ct s = Some (x, t)" "settle_build B now strat slot i sq (x, t) = (r, s')" for e n ct sq x t
    by (rule settle_build_sound [OF build_slot_sound [OF assms(1) that(1)] that(2)])
  show ?thesis using assms built note_skipped_sound [OF assms(1)]
    by (auto simp: unit_cut_def Let_def split: sum.splits option.splits if_splits)
qed

lemma unit_body_sound:
  assumes "sound_at u ops view invar B s" "unit_body B now strat slot s = Some (r, s')"
  shows "sound_at u ops view invar B s'"
proof -
  have B: "bn_ops B = ops" using assms(1) by (simp add: sound_at_def)
  obtain l s1 where l: "read_list ops (bn_codec B) s = (l, s1)" by (cases "read_list ops (bn_codec B) s")
  have s1: "sound_at u ops view invar B s1" using read_list_sound [OF assms(1) l] by simp
  obtain m s2 where m: "read_list ops (bn_codec B) s1 = (m, s2)" by (cases "read_list ops (bn_codec B) s1")
  have s2: "sound_at u ops view invar B s2" using read_list_sound [OF s1 m] by simp
  show ?thesis using assms(2) l m s1 s2 unit_cut_sound [OF s2] B
    by (auto simp: unit_body_def split: sum.splits if_splits option.splits bind_splits)
qed

lemma build_slot_unit_sound:
  assumes "sound_at u ops view invar B s" "build_slot_unit B now strategy slot s = Some (r, s')"
  shows "sound_at u ops view invar B s'"
proof (cases "find_strategy (bn_cfg B) strategy")
  case None
  then show ?thesis using assms by (simp add: build_slot_unit_def)
next
  case (Some strat)
  have B: "bn_ops B = ops" using assms(1) by (simp add: sound_at_def)
  let ?acq = "try_acquire_lease ops (bn_lease_codec B) (bn_me B) now (bs_name strat) (bn_lease_ttl B) s"
  obtain g s1 where g: "?acq = (g, s1)" by (cases ?acq)
  note G = try_acquire_lease_sound [OF assms(1) g]
  show ?thesis
  proof (cases "\<exists>x. g = Ok (Some x)")
    case True
    then obtain x where x: "g = Ok (Some x)" by blast
    then obtain y s2 where u: "unit_body B now strat slot s1 = Some (y, s2)" "s' = snd (bundle_release ops x s2)"
      using assms(2) Some g B by (auto simp: build_slot_unit_def)
    show ?thesis using bundle_release_sound [OF unit_body_sound [OF _ u(1)]] G x u(2) by auto
  next
    case False
    then show ?thesis using assms(2) Some g B G by (auto simp: build_slot_unit_def split: sum.splits option.splits)
  qed
qed

lemma build_todo_sound:
  assumes "sound_at u ops view invar B s" "build_todo B now strat todo built s = Some (r, s')"
  shows "sound_at u ops view invar B s'"
  using assms
proof (induction todo arbitrary: built s)
  case (Cons slot todo)
  show ?case
  proof (cases "cut_as_of B slot")
    case (Inr ct)
    then obtain x s1 where x: "build_slot B (bn_engine B) now (bs_name strat) ct s = Some (x, s1)"
      using Cons.prems(2) by (cases "build_slot B (bn_engine B) now (bs_name strat) ct s") auto
    have s1: "sound_at u ops view invar B s1" by (rule build_slot_sound [OF Cons.prems(1) x])
    show ?thesis using Cons.prems(2) Inr x s1 Cons.IH [OF s1]
      by (auto split: sum.splits bundle_error.splits)
  qed (use Cons.prems in simp)
qed simp

lemma due_body_sound:
  assumes "sound_at u ops view invar B s" "due_body B now strat built s = Some (r, s')"
  shows "sound_at u ops view invar B s'"
proof -
  have B: "bn_ops B = ops" using assms(1) by (simp add: sound_at_def)
  obtain l s1 where l: "read_list ops (bn_codec B) s = (l, s1)" by (cases "read_list ops (bn_codec B) s")
  have s1: "sound_at u ops view invar B s1" using read_list_sound [OF assms(1) l] by simp
  show ?thesis using assms l s1 build_todo_sound [OF s1] B
    by (auto simp: due_body_def Let_def split: sum.splits if_splits bind_splits)
qed

lemma run_strategies_sound:
  assumes "sound_at u ops view invar B s" "run_strategies B now rows strats built s = Some (r, s')"
  shows "sound_at u ops view invar B s'"
  using assms
proof (induction strats arbitrary: built s)
  case (Cons strat strats)
  have B: "bn_ops B = ops" using Cons.prems(1) by (simp add: sound_at_def)
  let ?acq = "try_acquire_lease ops (bn_lease_codec B) (bn_me B) now (bs_name strat) (bn_lease_ttl B) s"
  obtain g s1 where g: "?acq = (g, s1)" by (cases ?acq)
  note G = try_acquire_lease_sound [OF Cons.prems(1) g]
  show ?case
  proof (cases "missing_of rows strat = [] \<or> (\<forall>x. g \<noteq> Ok (Some x))")
    case True
    then show ?thesis using Cons.prems g G B Cons.IH by (auto split: sum.splits option.splits if_splits)
  next
    case False
    then obtain x where x: "g = Ok (Some x)" "missing_of rows strat \<noteq> []" by auto
    then obtain y s2 where u: "due_body B now strat built s1 = Some (y, s2)"
      using Cons.prems(2) g B by (cases "due_body B now strat built s1") auto
    have s3: "sound_at u ops view invar B (snd (bundle_release ops x s2))"
      using bundle_release_sound [OF due_body_sound [OF _ u]] G x by auto
    show ?thesis using Cons.prems(2) g x u s3 Cons.IH [OF s3] B by (auto simp: Let_def split: sum.splits)
  qed
qed simp

lemma run_due_sound:
  assumes "sound_at u ops view invar B s" "run_due B now s = Some (r, s')"
  shows "sound_at u ops view invar B s'"
proof -
  have B: "bn_ops B = ops" using assms(1) by (simp add: sound_at_def)
  obtain l s1 where l: "read_list ops (bn_codec B) s = (l, s1)" by (cases "read_list ops (bn_codec B) s")
  have s1: "sound_at u ops view invar B s1" using read_list_sound [OF assms(1) l] by simp
  show ?thesis using assms l s1 run_strategies_sound [OF s1] B
    by (auto simp: run_due_def split: sum.splits bind_splits)
qed

lemma bundler_build_sound:
  assumes "sound_at u ops view invar B s" "bundler_build B now strategy s = Some (r, s')"
  shows "sound_at u ops view invar B s'"
  using assms build_slot_sound [OF assms(1)]
  by (auto simp: bundler_build_def build_with_handle_def split: sum.splits)

lemma composed_object_effect:
  assumes "invar s" "list_sound u (view s) c"
    "composed_object ops can (bundle_object_key stamp st now d) pk n strm hdr s = (r, s')"
  shows "invar s' \<and> list_sound u (view s') c \<and> listed (view s') c = listed (view s) c \<and>
    (\<forall>meta. r = Ok meta \<longrightarrow> view s' (bundle_object_key stamp st now d) \<noteq> None)"
proof -
  let ?k = "bundle_object_key stamp st now d"
  have hk: "unlisted (?k @ ''.hdr'')" "?k @ ''.hdr'' \<noteq> BUNDLE_LIST" "?k \<noteq> ?k @ ''.hdr''"
    using header_key_ok by (auto simp: unlisted_def)
  note sound = list_sound_put [OF bundle_object_key_ok(3)] list_sound_other_key [OF hk(1)]
  note lists = listed_upd [OF hk(2)] listed_upd [OF bundle_object_key_ok(3)]
  show ?thesis
  proof (cases can)
    case True
    obtain w1 s1 where w1: "os_put ops s (?k @ ''.hdr'') (Bytes hdr) Overwrite = (w1, s1)"
      by (cases "os_put ops s (?k @ ''.hdr'') (Bytes hdr) Overwrite")
    have s1: "invar s1" "list_sound u (view s1) c" "listed (view s1) c = listed (view s) c"
      using put_effect [OF assms(1) w1] assms(2) by (auto simp: lists intro: sound split: sum.splits simp del: fun_upd_apply)
    let ?cmp = "os_compose ops s1 ?k [?k @ ''.hdr'', pack_key pk] Overwrite"
    obtain w2 s2 where w2: "?cmp = (w2, s2)" by (cases ?cmp)
    note W2 = compose_effect [OF s1(1) w2]
    have s2: "invar s2" "list_sound u (view s2) c" "listed (view s2) c = listed (view s) c"
      using W2 s1 by (auto simp: lists intro: sound split: sum.splits simp del: fun_upd_apply)
    obtain w3 s3 where w3: "os_delete ops s2 (?k @ ''.hdr'') None = (w3, s3)"
      by (cases "os_delete ops s2 (?k @ ''.hdr'') None")
    note W3 = delete_effect [OF s2(1) w3]
    have s3: "invar s3" "list_sound u (view s3) c" "listed (view s3) c = listed (view s) c" "view s3 ?k = view s2 ?k"
      using W3 s2 hk(3) by (auto simp: lists intro: sound simp del: fun_upd_apply) (auto simp: fun_eq_iff)
    show ?thesis using assms(3) True w1 w2 w3 s1 s2 s3 W2
      by (cases w1; cases w2) (auto simp: composed_object_def)
  next
    case False
    show ?thesis
    proof (cases strm)
      case None
      then show ?thesis using assms False by (auto simp: composed_object_def)
    next
      case (Some cs)
      let ?put = "os_put ops s ?k (Stream (length hdr + n) (once hdr @ cs)) Overwrite"
      obtain w1 s1 where w1: "?put = (w1, s1)" by (cases ?put)
      then show ?thesis using put_effect [OF assms(1) w1] assms False Some
        by (cases w1) (auto simp: composed_object_def lists intro: sound)
    qed
  qed
qed

lemma compose_full_effect:
  assumes "invar s" "list_sound u (view s) c"
    "compose_full ops bytes stamp can pk n strm snap fmt strategy sq prev now slot filt s = (r, s')"
  shows "invar s' \<and> list_sound u (view s') c \<and> listed (view s') c = listed (view s) c \<and>
    (\<forall>e. r = Ok e \<longrightarrow> entry_ok e \<and> view s' (be_key e) \<noteq> None)"
proof -
  let ?k = "bundle_object_key stamp strategy now pk" and ?h = "full_bundle_header snap fmt filt"
  let ?obj = "composed_object ops can ?k pk n strm (bytes (fst ?h)) s"
  obtain x t where x: "?obj = (x, t)" by (cases ?obj)
  show ?thesis using composed_object_effect [OF assms(1,2) x] assms bundle_object_key_ok [of stamp strategy now pk] x
    by (cases x) (auto simp: compose_full_def Let_def entry_ok_def split: prod.splits if_splits)
qed

lemma compose_refs_sound:
  assumes "sound_at u ops view invar B s" "compose_refs ops rc replay sq s = (r, s')"
  shows "sound_at u ops view invar B s'"
proof -
  obtain g t where g: "get_bytes ops s (checkpoint_refs_key sq) = (g, t)" by (cases "get_bytes ops s (checkpoint_refs_key sq)")
  have "s' = t" using assms(2) g by (auto simp: compose_refs_def split: sum.splits option.splits)
  then show ?thesis using get_bytes_quiet [OF _ g] assms(1) by (auto simp: sound_at_def)
qed

text \<open>A composition keeps every listed bundle reachable; it does not keep the slots distinct.\<close>

lemma compose_full_from_base_sound:
  assumes "sound_at False ops view invar B s"
    "compose_full_from_base B rc replay can pack_file m now strategy slot s = (r, s')"
  shows "sound_at False ops view invar B s'"
proof (cases "\<exists>b. base_packs m = [b]")
  case False
  then show ?thesis using assms by (auto simp: compose_full_from_base_def split: list.splits)
next
  case True
  let ?c = "bn_codec B"
  from True obtain b where b: "base_packs m = [b]" ..
  have B: "bn_ops B = ops" using assms(1) by (simp add: sound_at_def)
  obtain y s1 where y: "compose_refs ops rc replay (pack_seq b) s = (y, s1)" by (cases "compose_refs ops rc replay (pack_seq b) s")
  have s1: "sound_at False ops view invar B s1" by (rule compose_refs_sound [OF assms(1) y])
  obtain l s2 where l: "read_list ops ?c s1 = (l, s2)" by (cases "read_list ops ?c s1")
  note L = read_list_sound [OF s1 l]
  then have s2: "invar s2" "list_sound False (view s2) ?c" "sound_at False ops view invar B s2" by (auto simp: sound_at_def)
  have made: "sound_at False ops view invar B s'"
    if "l = Ok cur" "sbind (compose_full ops (lo_bytes (bn_local B)) (bn_stamp B) can (checksum p) (pack_size p)
          (pack_file (checksum p)) snap (lo_format (bn_local B)) strategy (pack_seq b) prev now slot filt s2)
        (\<lambda>e s3. publish_list B (composed_list (bn_cfg B) e (from_system now)) (or_default cur) e s3) = (r, s')"
    for p :: pack_ref and snap prev filt cur
  proof -
    let ?cf = "compose_full ops (lo_bytes (bn_local B)) (bn_stamp B) can (checksum p) (pack_size p) (pack_file (checksum p)) snap
      (lo_format (bn_local B)) strategy (pack_seq b) prev now slot filt s2"
    obtain z s3 where c: "?cf = (z, s3)" by (cases ?cf)
    note U = compose_full_effect [OF s2(1,2) c]
    then have s3: "sound_at False ops view invar B s3" "listed (view s3) ?c = cur" using s2 L that(1) by (auto simp: sound_at_def)
    have old: "entries_ok False (view s3) (bl_bundles (or_default cur))"
      using list_sound_or_default [of False "view s3" ?c] s3 by (simp add: sound_at_def)
    show ?thesis using that(2) c s3 U publish_list_sound [OF s3(1) _ old] composed_list_ok [OF old] by (cases z) auto
  qed
  show ?thesis
  proof (cases y)
    case (Inl e)
    then show ?thesis using assms(2) b y s1 B by (auto simp: compose_full_from_base_def)
  next
    case y': (Inr snap)
    show ?thesis
    proof (cases l)
      case (Inl e)
      then show ?thesis using assms(2) b y y' l s2 B by (auto simp: compose_full_from_base_def)
    next
      case (Inr cur)
      show ?thesis using assms(2) b y y' l Inr s2 B made
        by (auto simp: compose_full_from_base_def Let_def split: option.splits)
    qed
  qed
qed

end

section \<open>Runs of maintainers\<close>

text \<open>
  What can happen to the list of a repository: the handlers above, run one after the other by maintainers whose
  configuration, clock, local copy and view of the log may differ from call to call.  The flag says whether full bundles may be composed.
\<close>

inductive maint_step :: "bool \<Rightarrow> ('s, 'a) store_ops \<Rightarrow> ('a, bundle_list) msg_codec \<Rightarrow> 's \<Rightarrow> 's \<Rightarrow> bool" for cmp ops c where
  build: "bn_ops B = ops \<Longrightarrow> bn_codec B = c \<Longrightarrow> bundler_build B now strategy s = Some (r, s') \<Longrightarrow> maint_step cmp ops c s s'"
| one_slot: "bn_ops B = ops \<Longrightarrow> bn_codec B = c \<Longrightarrow> build_slot_unit B now strategy slot s = Some (r, s') \<Longrightarrow> maint_step cmp ops c s s'"
| due: "bn_ops B = ops \<Longrightarrow> bn_codec B = c \<Longrightarrow> run_due B now s = Some (r, s') \<Longrightarrow> maint_step cmp ops c s s'"
| retention: "bn_ops B = ops \<Longrightarrow> bn_codec B = c \<Longrightarrow> apply_retention B t s = (r, s') \<Longrightarrow> maint_step cmp ops c s s'"
| settle: "bn_ops B = ops \<Longrightarrow> bn_codec B = c \<Longrightarrow> settle_closed_slots B now s = Some (r, s') \<Longrightarrow> maint_step cmp ops c s s'"
| compose: "cmp \<Longrightarrow> bn_ops B = ops \<Longrightarrow> bn_codec B = c \<Longrightarrow>
    compose_full_from_base B rc replay can pack_file m now strategy slot s = (r, s') \<Longrightarrow> maint_step cmp ops c s s'"

inductive_cases maint_stepE: "maint_step cmp ops c s s'"

context sole_client
begin

lemma maint_step_sound:
  assumes "maint_step cmp ops c s s'" "codec_ok c" "invar s" "list_sound (\<not> cmp) (view s) c"
  shows "invar s' \<and> list_sound (\<not> cmp) (view s') c"
proof -
  have here: "sound_at (\<not> cmp) ops view invar B s" if "bn_ops B = ops" "bn_codec B = c" for B
    using assms that by (simp add: sound_at_def)
  have fin: "invar s' \<and> list_sound (\<not> cmp) (view s') c" if "sound_at (\<not> cmp) ops view invar B s'" "bn_codec B = c" for B
    using that by (simp add: sound_at_def)
  from assms(1) show ?thesis
  proof cases
    case (build B now strategy r)
    then show ?thesis using fin bundler_build_sound [OF here] by blast
  next
    case (one_slot B now strategy slot r)
    then show ?thesis using fin build_slot_unit_sound [OF here] by blast
  next
    case (due B now r)
    then show ?thesis using fin run_due_sound [OF here] by blast
  next
    case (retention B t r)
    then show ?thesis using fin apply_retention_sound [OF here] by blast
  next
    case (settle B now r)
    then show ?thesis using fin settle_closed_slots_sound [OF here] by blast
  next
    case (compose B rc replay can pack_file m now strategy slot r)
    then have "sound_at False ops view invar B s" using here by simp
    from compose_full_from_base_sound [OF this compose(4)] show ?thesis using fin [of B] compose by simp
  qed
qed

lemma maint_run_sound:
  assumes "(maint_step cmp ops c)\<^sup>*\<^sup>* s s'" "codec_ok c" "invar s" "list_sound (\<not> cmp) (view s) c"
  shows "invar s' \<and> list_sound (\<not> cmp) (view s') c"
  using assms(1)
proof (induction rule: rtranclp_induct)
  case base
  then show ?case using assms by simp
next
  case (step t t')
  then show ?case using maint_step_sound [OF step.hyps(2) assms(2)] by simp
qed

end

text \<open>
  C20. Every bundle a client is told about can be downloaded: whatever maintainers do one after the other, over a
  link that loses requests and answers, from a list that was sound, each bundle of the list is an object of the
  repository's prefix; and as long as no full bundle is composed from a base pack, no two bundles of the list
  have the same id.
\<close>

theorem maintained_list_is_sound:
  assumes "(maint_step cmp (prefixed p (fault_ops mem_ops)) c)\<^sup>*\<^sup>* s s'" "codec_ok c" "link_inv mem_inv s"
    and "list_sound (\<not> cmp) (\<lambda>k. link_view mem_view s (p @ k)) c"
    and "listed (\<lambda>k. link_view mem_view s' (p @ k)) c = Some l"
  shows "(\<forall>b\<in>set (bl_bundles l). link_view mem_view s' (p @ be_key b) \<noteq> None) \<and>
    (\<not> cmp \<longrightarrow> distinct (map be_id (bl_bundles l)))"
proof -
  have "entries_ok (\<not> cmp) (\<lambda>k. link_view mem_view s' (p @ k)) (bl_bundles l)"
    using sole_link.maint_run_sound [OF assms(1-4)] assms(5) by (simp add: list_sound_def)
  then show ?thesis using entries_ok_ids [of "\<lambda>k. link_view mem_view s' (p @ k)" "bl_bundles l"]
    by (cases cmp) (simp_all add: entries_ok_def)
qed

text \<open>A small repository: one branch, a full strategy that keeps one bundle, objects and lists as cells.\<close>

datatype cell = CList bundle_list | CByte char

fun cell_decode :: "cell list \<Rightarrow> bundle_list option" where
  "cell_decode [CList l] = Some l"
| "cell_decode _ = None"

definition cell_codec :: "(cell, bundle_list) msg_codec" where
  "cell_codec = \<lparr>encode = (\<lambda>l. [CList l]), decode = cell_decode\<rparr>"

lemma cell_codec_ok: "codec_ok cell_codec"
  by (simp add: codec_ok_def cell_codec_def)

definition no_codec :: "(cell, 'm) msg_codec" where
  "no_codec = \<lparr>encode = (\<lambda>_. []), decode = (\<lambda>_. None)\<rparr>"

definition one_branch :: ref_snapshot_data where
  "one_branch = \<lparr>refs = [\<lparr>name = ''refs/heads/main'', oid = ''aa'', peeled = []\<rparr>], head_target = ''refs/heads/main''\<rparr>"

definition tiny_local :: "cell bundle_local" where
  "tiny_local = \<lparr>lo_refs = Ok one_branch, lo_from_hex = (\<lambda>_. True), lo_has_object = (\<lambda>_. True), lo_format = Sha1,
     lo_path = ''/r'', lo_bytes = map CByte, lo_write_gix = (\<lambda>_ _. Err GPack), lo_rev_parse = (\<lambda>_. Ok (Some ''aa'')),
     lo_pack_objects = (\<lambda>_ _. Ok (1, [CByte CHR ''P''])), lo_rev_list_count = (\<lambda>_ _. Ok 1)\<rparr>"

definition tiny :: "('s, cell) store_ops \<Rightarrow> ('s, cell) bundler" where
  "tiny ops = \<lparr>bn_ops = ops, bn_codec = cell_codec, bn_lease_codec = no_codec, bn_cron = one_schedule, bn_cfg = two_step,
     bn_retries = 3, bn_local = tiny_local, bn_digest = (\<lambda>f. dec (length f)), bn_stamp = (\<lambda>t. dec (unix_now t)), bn_head_seq = 1,
     bn_refs_as_of = (\<lambda>_. Ok (Some (one_branch, 1))), bn_prepare = Ok (), bn_engine = EngineGit, bn_me = ''m'', bn_lease_ttl = NANOS\<rparr>"

definition quiet_link :: "cell mem_store fault_state" where
  "quiet_link = \<lparr>inner = mem_empty, plan = quiet_plan, rng = 1, fired_panics = []\<rparr>"

definition after_build :: "((bundle_error, bundle_entry) result \<times> cell mem_store fault_state) option" where
  "after_build = bundler_build (tiny (prefixed ''r/'' (fault_ops mem_ops))) (5 * NANOS) ''w'' quiet_link"

theorem maintained_list_is_sound_witness:
  "\<exists>r s' l. after_build = Some (r, s') \<and> listed (\<lambda>k. link_view mem_view s' (''r/'' @ k)) cell_codec = Some l \<and>
     map be_id (bl_bundles l) = [''w-5''] \<and> (\<forall>b\<in>set (bl_bundles l). link_view mem_view s' (''r/'' @ be_key b) \<noteq> None)"
proof -
  let ?ids = "\<lambda>a. case a of None \<Rightarrow> None | Some (r, s') \<Rightarrow>
    map_option (map be_id \<circ> bl_bundles) (listed (\<lambda>k. link_view mem_view s' (''r/'' @ k)) cell_codec)"
  have "?ids after_build = Some [''w-5'']" by code_simp
  then obtain r s' l where a: "after_build = Some (r, s')" "listed (\<lambda>k. link_view mem_view s' (''r/'' @ k)) cell_codec = Some l"
    "map be_id (bl_bundles l) = [''w-5'']" by (auto split: option.splits)
  have i: "link_inv mem_inv quiet_link" using quiet_inv [of quiet_link mem_inv] by (simp add: quiet_link_def)
  have e: "list_sound (\<not> False) (\<lambda>k. link_view mem_view quiet_link (''r/'' @ k)) cell_codec"
    by (simp add: list_sound_def listed_def link_view_def quiet_link_def mem_view_def mem_empty_def)
  have st: "maint_step False (prefixed ''r/'' (fault_ops mem_ops)) cell_codec quiet_link s'"
    using a(1) by (intro maint_step.build [where B = "tiny (prefixed ''r/'' (fault_ops mem_ops))"]) (simp_all add: tiny_def after_build_def)
  then have run: "(maint_step False (prefixed ''r/'' (fault_ops mem_ops)) cell_codec)\<^sup>*\<^sup>* quiet_link s'" by blast
  note all = maintained_list_is_sound [OF run cell_codec_ok i e a(2), THEN conjunct1]
  show ?thesis by (intro exI [of _ r] exI [of _ s'] exI [of _ l] conjI a all)
qed

section \<open>A slot composed twice\<close>

definition one_base :: manifest where
  "one_base = \<lparr>format_version = 1, repo = ''o/r'', object_format = ''sha1'', head_seq = 1, min_seq = 1, checkpoint = None,
     log_segments = [], packs = [\<lparr>checksum = ''bb'', pack_size = 1, idx_size = 1, has_rev = False, has_bitmap = False,
       object_count = 1, pack_seq = 1, tier = 2, has_commit_graph = False, pkind = ObjectsPack, derived_from = []\<rparr>],
     updated_at = None, writer = [], revision = 1, settings = None\<rparr>"

definition compose_at :: "nat \<Rightarrow> cell mem_store \<Rightarrow> cell mem_store" where
  "compose_at t s = snd (compose_full_from_base (tiny mem_ops) no_codec (\<lambda>_. Ok (snapshot_to_proto one_branch)) False
     (\<lambda>_. Some [Ok [CByte CHR ''P'']]) one_base (int t * NANOS) ''w'' 10 s)"

text \<open>
  Composing the bundle of a slot a second time lists it twice: both entries have the id of the slot, and retention,
  which counts entries but keeps by id, keeps both although the strategy keeps one.
\<close>

theorem slot_composed_twice_listed_twice:
  "map_option (\<lambda>l. map (\<lambda>b. (be_id b, be_key b)) (bl_bundles l)) (listed (mem_view (compose_at 30 (compose_at 20 mem_empty))) cell_codec) =
     Some [(''w-10'', ''bundles/w/20-bb.bundle''), (''w-10'', ''bundles/w/30-bb.bundle'')]"
  by code_simp

text \<open>
  A bundle that retention drops in the very update that lists it stays in the bucket: the deletes compare the new
  list with the one read before the upload, and the bundle is in neither.
\<close>

theorem dropped_upload_stays:
  "map_option (\<lambda>(r, s). (is_ok r, map_option (\<lambda>l. map be_id (bl_bundles l)) (listed (mem_view s) cell_codec),
       mem_view s ''bundles/w/9-45.bundle'' \<noteq> None))
     (build_slot (tiny mem_ops) EngineGit (9 * NANOS) ''w'' \<lparr>cut_slot = 3, cut_snapshot = None, cut_seq = 1\<rparr>
       (snd (the (bundler_build (tiny mem_ops) (5 * NANOS) ''w'' mem_empty)))) =
     Some (True, Some [''w-5''], True)"
  by code_simp

end
