(* ===== verification/Bundle_Render.thy ===== *)
theory Bundle_Render
  imports Bundle_Build
begin

text \<open>
  What clients are told about bundles, \<^verbatim>\<open>crates/walgit-bundle/src/render.rs\<close>: the address of a bundle, the list
  as configuration text and as lines of protocol version 2.  Signing of addresses is a parameter.  The second part reads bundle headers and lines the
  way git documents them.
\<close>

section \<open>Definitions\<close>

definition filename_of :: "string \<Rightarrow> string" where
  "filename_of key = rev (takeWhile (\<lambda>c. c \<noteq> CHR ''/'') (rev key))"

function trim_dot_git :: "string \<Rightarrow> string" where
  "trim_dot_git s = (case strip_suffix ''.git'' s of None \<Rightarrow> s | Some t \<Rightarrow> trim_dot_git t)"
  by auto
termination by (relation "measure length") (auto simp: strip_suffix_Some_iff)

declare trim_dot_git.simps [simp del]

definition repo_listed :: "string list \<Rightarrow> string \<Rightarrow> string \<Rightarrow> bool" where
  "repo_listed rs own nm =
     list_ex (\<lambda>r0. let r = trim_dot_git (trim_ws r0) in r = own @ ''/'' @ nm \<or> r = own @ ''/*'' \<or> r = ''*'') rs"

definition serve_via_for :: "bundles_config \<Rightarrow> string \<Rightarrow> string \<Rightarrow> bundle_serve" where
  "serve_via_for cfg own nm = (if repo_listed (bc_signed_url_for cfg) own nm then SignedUrl else bc_serve_via cfg)"

definition bundle_path :: "bundle_entry \<Rightarrow> string \<Rightarrow> string \<Rightarrow> string" where
  "bundle_path e own nm = ''/'' @ own @ ''/'' @ nm @ ''/bundles/'' @ be_strategy e @ ''/'' @ filename_of (be_key e)"

definition proxy_uri :: "bundle_entry \<Rightarrow> string \<Rightarrow> string \<Rightarrow> string \<Rightarrow> string" where
  "proxy_uri e own nm base_url =
     rev (dropWhile (\<lambda>c. c = CHR ''/'') (rev base_url)) @ ''/'' @ own @ ''/'' @ nm @ ''/bundles/'' @ be_strategy e @ ''/'' @
     filename_of (be_key e)"

definition bundle_uri ::
  "(string \<Rightarrow> (store_error, string option) result) \<Rightarrow> bundle_entry \<Rightarrow> string \<Rightarrow> string \<Rightarrow> string \<Rightarrow> bundle_serve \<Rightarrow> string" where
  "bundle_uri sign e own nm base_url via =
     (case via of
        SignedUrl \<Rightarrow> (case sign (be_key e) of Inr (Some url) \<Rightarrow> url | _ \<Rightarrow> proxy_uri e own nm base_url)
      | Proxy \<Rightarrow> proxy_uri e own nm base_url)"

definition text_bundles :: "bundle_list \<Rightarrow> bundles_config \<Rightarrow> string option \<Rightarrow> bool \<Rightarrow> bundle_entry list" where
  "text_bundles l cfg filt fulls =
     sort_key be_creation_token
       (filter (\<lambda>b. fulls \<or> be_base_id b \<noteq> [])
         (filter (\<lambda>b. be_filter b = (case filt of None \<Rightarrow> [] | Some f \<Rightarrow> f) \<or> (filt = None \<and> bc_advertise_filtered cfg))
           (bl_bundles l)))"

definition text_section :: "(bundle_entry \<Rightarrow> string) \<Rightarrow> bundle_entry \<Rightarrow> string" where
  "text_section uri e =
     [CHR 0x0A] @ ''[bundle '' @ [CHR 0x22] @ be_id e @ [CHR 0x22] @ '']'' @ [CHR 0x0A] @
     ''    uri = '' @ uri e @ [CHR 0x0A] @ ''    creationToken = '' @ dec (be_creation_token e) @ [CHR 0x0A] @
     (if be_filter e \<noteq> [] then ''    filter = '' @ be_filter e @ [CHR 0x0A] else [])"

definition render_list_text ::
  "(string \<Rightarrow> (store_error, string option) result) \<Rightarrow> bundle_list \<Rightarrow> string \<Rightarrow> string \<Rightarrow> string \<Rightarrow> bundles_config
     \<Rightarrow> string option \<Rightarrow> bool \<Rightarrow> string" where
  "render_list_text sign l own nm base_url cfg filt fulls =
     ''[bundle]'' @ [CHR 0x0A] @ ''    version = 1'' @ [CHR 0x0A] @ ''    mode = all'' @ [CHR 0x0A] @
     ''    heuristic = creationToken'' @ [CHR 0x0A] @
     concat (map (text_section (\<lambda>e. bundle_uri sign e own nm base_url (serve_via_for cfg own nm))) (text_bundles l cfg filt fulls))"

definition v2_bundles :: "bundle_list \<Rightarrow> bundles_config \<Rightarrow> bundle_entry list" where
  "v2_bundles l cfg =
     sort_key be_creation_token (filter (\<lambda>b. be_filter b = [] \<or> bc_advertise_filtered cfg) (bl_bundles l))"

definition v2_lines_of :: "(bundle_entry \<Rightarrow> string) \<Rightarrow> bundle_entry \<Rightarrow> string list" where
  "v2_lines_of uri e =
     [''bundle.'' @ be_id e @ ''.uri='' @ uri e,
      ''bundle.'' @ be_id e @ ''.creationtoken='' @ dec (be_creation_token e)] @
     (if be_filter e \<noteq> [] then [''bundle.'' @ be_id e @ ''.filter='' @ be_filter e] else [])"

definition protocol_v2_lines ::
  "(string \<Rightarrow> (store_error, string option) result) \<Rightarrow> bundle_list \<Rightarrow> string \<Rightarrow> string \<Rightarrow> string \<Rightarrow> bundles_config \<Rightarrow> string list" where
  "protocol_v2_lines sign l own nm base_url cfg =
     [''bundle.version=1'', ''bundle.mode=all'', ''bundle.heuristic=creationToken''] @
     concat (map (v2_lines_of (\<lambda>e. bundle_uri sign e own nm base_url (serve_via_for cfg own nm))) (v2_bundles l cfg))"

section \<open>Reading the lines\<close>

text \<open>A client looks a key up: the text of a line before its first equals sign is the key, the rest the value.\<close>

definition line_value :: "string list \<Rightarrow> string \<Rightarrow> string option" where
  "line_value ls key = map_of (List.map_filter (split_once (CHR ''='')) ls) key"

definition v2_key :: "string \<Rightarrow> string \<Rightarrow> string" where
  "v2_key i sub = ''bundle.'' @ i @ ''.'' @ sub"

lemma v2_key_inj:
  assumes "v2_key i sub = v2_key i' sub'" "CHR ''.'' \<notin> set sub" "CHR ''.'' \<notin> set sub'"
  shows "i = i' \<and> sub = sub'"
proof -
  have "rev sub @ CHR ''.'' # rev i = rev sub' @ CHR ''.'' # rev i'"
    using arg_cong [OF assms(1), of rev] by (simp add: v2_key_def)
  then have "split_once (CHR ''.'') (rev sub @ CHR ''.'' # rev i) = split_once (CHR ''.'') (rev sub' @ CHR ''.'' # rev i')" by simp
  then show ?thesis using assms(2,3) by simp
qed

definition v2_fields :: "(bundle_entry \<Rightarrow> string) \<Rightarrow> bundle_entry \<Rightarrow> (string \<times> string) list" where
  "v2_fields uri e =
     [(v2_key (be_id e) ''uri'', uri e), (v2_key (be_id e) ''creationtoken'', dec (be_creation_token e))] @
     (if be_filter e \<noteq> [] then [(v2_key (be_id e) ''filter'', be_filter e)] else [])"

lemma map_filter_mapped:
  "(\<And>x. x \<in> set xs \<Longrightarrow> f (g x) = Some x) \<Longrightarrow> List.map_filter f (map g xs) = xs"
  by (induction xs) simp_all

lemma map_filter_concat: "List.map_filter f (concat xss) = concat (map (List.map_filter f) xss)"
  by (induction xss) (simp_all add: List.map_filter_def)

definition v2_line :: "string \<times> string \<Rightarrow> string" where
  "v2_line kv = fst kv @ CHR ''='' # snd kv"

lemma v2_lines_of_fields: "v2_lines_of uri e = map v2_line (v2_fields uri e)"
  by (simp add: v2_lines_of_def v2_fields_def v2_key_def v2_line_def)

lemma v2_lines_split:
  assumes "CHR ''='' \<notin> set (be_id e)"
  shows "List.map_filter (split_once (CHR ''='')) (v2_lines_of uri e) = v2_fields uri e"
  unfolding v2_lines_of_fields
proof (rule map_filter_mapped)
  fix kv assume "kv \<in> set (v2_fields uri e)"
  then have "CHR ''='' \<notin> set (fst kv)" using assms by (auto simp: v2_fields_def v2_key_def split: if_splits)
  then show "split_once (CHR ''='') (v2_line kv) = Some kv" by (simp add: v2_line_def)
qed

lemma v2_lines_split_all:
  assumes "\<And>e. e \<in> set es \<Longrightarrow> CHR ''='' \<notin> set (be_id e)"
  shows "List.map_filter (split_once (CHR ''='')) (concat (map (v2_lines_of uri) es)) = concat (map (v2_fields uri) es)"
proof -
  have "map (\<lambda>e. List.map_filter (split_once (CHR ''='')) (v2_lines_of uri e)) es = map (v2_fields uri) es"
    using assms by (intro map_cong) (simp_all add: v2_lines_split)
  then show ?thesis by (simp only: map_filter_concat map_map comp_def)
qed

definition v2_field :: "(bundle_entry \<Rightarrow> string) \<Rightarrow> bundle_entry \<Rightarrow> string \<Rightarrow> string option" where
  "v2_field uri e sub =
     (if sub = ''uri'' then Some (uri e)
      else if sub = ''creationtoken'' then Some (dec (be_creation_token e))
      else if sub = ''filter'' \<and> be_filter e \<noteq> [] then Some (be_filter e)
      else None)"

lemma v2_fields_lookup:
  assumes "CHR ''.'' \<notin> set sub"
  shows "map_of (v2_fields uri e) (v2_key i sub) = (if be_id e = i then v2_field uri e sub else None)"
proof -
  have k: "v2_key j f = v2_key j' f' \<longleftrightarrow> j = j' \<and> f = f'" if "CHR ''.'' \<notin> set f" "CHR ''.'' \<notin> set f'" for j f j' f'
    using v2_key_inj that by blast
  show ?thesis
    by (cases "be_id e = i"; cases "be_filter e = []") (simp_all add: v2_fields_def v2_field_def k assms)
qed

lemma v2_all_fields_lookup:
  assumes "CHR ''.'' \<notin> set sub" "distinct (map be_id es)"
  shows "map_of (concat (map (v2_fields uri) es)) (v2_key i sub) =
     Option.bind (find (\<lambda>e. be_id e = i) es) (\<lambda>e. v2_field uri e sub)"
  using assms(2)
proof (induction es)
  case (Cons e es)
  have "find (\<lambda>e. be_id e = i) es = None" if "be_id e = i"
    using Cons.prems that unfolding find_None_iff distinct.simps list.map set_map by blast
  then show ?case using Cons v2_fields_lookup [OF assms(1), of uri e i]
    by (auto simp: map_add_def split: option.splits)
qed simp

lemma header_lines_split:
  "List.map_filter (split_once (CHR ''=''))
     ([''bundle.version=1'', ''bundle.mode=all'', ''bundle.heuristic=creationToken''] @ ls) =
   [(''bundle.version'', ''1''), (''bundle.mode'', ''all''), (''bundle.heuristic'', ''creationToken'')] @
     List.map_filter (split_once (CHR ''='')) ls"
  by simp

lemma v2_key_dots: "2 \<le> count_list (v2_key i sub) CHR ''.''"
  by (simp add: v2_key_def)

lemma v2_key_not_header:
  "v2_key i sub = ''bundle.version'' \<longleftrightarrow> False" "v2_key i sub = ''bundle.mode'' \<longleftrightarrow> False"
  "v2_key i sub = ''bundle.heuristic'' \<longleftrightarrow> False"
  using v2_key_dots [of i sub] by (auto simp del: not_None_eq)


definition listed_entry :: "string \<Rightarrow> nat \<Rightarrow> string \<Rightarrow> bundle_entry" where
  "listed_entry i t filt = \<lparr>be_id = i, be_key = ''bundles/w/'' @ i @ ''.bundle'', be_strategy = ''w'', be_kind = ''full'',
     be_creation_token = t, be_seq = 1, be_size = 1, be_base_id = [], be_created_at = None, be_version = [], be_tips = [],
     be_slot = t, be_filter = filt\<rparr>"

definition listed_two :: bundle_list where
  "listed_two = \<lparr>bl_mode = ''all'', bl_heuristic = ''creationToken'',
     bl_bundles = [listed_entry ''w-9'' 9 [], listed_entry ''w-5'' 5 [], listed_entry ''f-9'' 9 ''blob:none''],
     bl_updated_at = None, bl_skipped = []\<rparr>"


end
