(* ===== verification/Http.thy ===== *)
theory Http
  imports Fetch Policy
begin

text \<open>
  What the handlers of \<^verbatim>\<open>walgit-server\<close> share: the headers of a request, errors as responses
  (\<^verbatim>\<open>error.rs\<close>), the repository in the path of a request (\<^verbatim>\<open>repo.rs\<close>) and the address the server is known
  by (\<^verbatim>\<open>smart.rs\<close>).  A header value that is not visible text, on which \<open>to_str\<close> fails, is \<open>None\<close>; header names are
  lower case.  Of a response the model has the headers the program inserts.
\<close>

section \<open>Headers\<close>

type_synonym header_map = "(string \<times> string option) list"

text \<open>\<open>get\<close> reads the first header of a name, \<open>get_all\<close> all of them.\<close>

definition header_get :: "header_map \<Rightarrow> string \<Rightarrow> string option" where
  "header_get h n = Option.bind (map_of h n) id"

definition header_all :: "header_map \<Rightarrow> string \<Rightarrow> string list" where
  "header_all h n = List.map_filter snd (filter (\<lambda>e. fst e = n) h)"

definition nonempty :: "string \<Rightarrow> string option" where
  "nonempty s = (if s = [] then None else Some s)"

definition trim_end_matches :: "char \<Rightarrow> string \<Rightarrow> string" where
  "trim_end_matches c s = rev (dropWhile (\<lambda>x. x = c) (rev s))"

definition trim_matches :: "char \<Rightarrow> string \<Rightarrow> string" where
  "trim_matches c s = trim_end_matches c (dropWhile (\<lambda>x. x = c) s)"

definition visible :: "char \<Rightarrow> bool" where
  "visible c \<longleftrightarrow> within 33 126 c"

lemma ws_not_visible: "w \<in> set ws_seqs \<Longrightarrow> w \<noteq> [] \<and> \<not> visible (hd w) \<and> \<not> visible (last w)"
proof -
  have "list_all (\<lambda>w. w \<noteq> [] \<and> \<not> visible (hd w) \<and> \<not> visible (last w)) ws_seqs" by code_simp
  then show "w \<in> set ws_seqs \<Longrightarrow> ?thesis" by (simp add: list_all_iff)
qed

text \<open>Nothing is trimmed from text that begins and ends with visible ASCII.\<close>

lemma trim_ws_visible:
  assumes "s \<noteq> [] \<Longrightarrow> visible (hd s) \<and> visible (last s)"
  shows "trim_ws s = s"
proof -
  have "leading_ws s = None" "trailing_ws s = None"
    using assms ws_not_visible
    by (auto simp: leading_ws_def trailing_ws_def find_None_iff starts_with_def ends_with_def prefix_def suffix_def)
  then show ?thesis by (simp add: trim_ws_def trim_start.simps trim_end.simps)
qed

lemma trim_ws_all_visible: "list_all visible s \<Longrightarrow> trim_ws s = s"
  by (rule trim_ws_visible) (simp add: list_all_iff)

section \<open>Responses\<close>

datatype 'a http_body = NoBody | Text string | Streamed "'a byte_stream"

record 'a response =
  rs_status :: nat
  rs_headers :: "(string \<times> string) list"
  rs_body :: "'a http_body"

definition set_header :: "string \<Rightarrow> string \<Rightarrow> 'a response \<Rightarrow> 'a response" where
  "set_header k v r = r\<lparr>rs_headers := filter (\<lambda>e. fst e \<noteq> k) (rs_headers r) @ [(k, v)]\<rparr>"

definition plain :: "nat \<Rightarrow> 'a http_body \<Rightarrow> 'a response" where
  "plain code body = \<lparr>rs_status = code, rs_headers = [], rs_body = body\<rparr>"

definition response_header :: "'a response \<Rightarrow> string \<Rightarrow> string option" where
  "response_header r k = map_of (rs_headers r) k"

lemma response_header_set [simp]:
  "response_header (set_header k v r) k' = (if k' = k then Some v else response_header r k')"
proof -
  have "map_of (filter (\<lambda>e. fst e \<noteq> k) es @ [(k, v)]) k' = (if k' = k then Some v else map_of es k')" for es
    by (induction es) (auto simp: map_add_def)
  then show ?thesis by (simp add: response_header_def set_header_def)
qed

lemma set_header_simps [simp]:
  "rs_status (set_header k v r) = rs_status r" "rs_body (set_header k v r) = rs_body r"
  by (simp_all add: set_header_def)

lemma plain_simps [simp]:
  "rs_status (plain c b) = c" "rs_body (plain c b) = b" "response_header (plain c b) k = None"
  by (simp_all add: plain_def response_header_def)

datatype api_error =
    ApiNotFound string
  | ApiBadRequest string
  | ApiUnauthorized
  | ApiUnauthorizedGit
  | ApiForbidden
  | ApiConflict string
  | ApiPayloadTooLarge
  | ApiUnsupportedMediaType string
  | ApiServiceUnavailable string
  | ApiInternal string

fun api_status :: "api_error \<Rightarrow> nat" where
  "api_status (ApiNotFound _) = 404"
| "api_status (ApiBadRequest _) = 400"
| "api_status ApiUnauthorized = 401"
| "api_status ApiUnauthorizedGit = 401"
| "api_status ApiForbidden = 403"
| "api_status (ApiConflict _) = 409"
| "api_status ApiPayloadTooLarge = 413"
| "api_status (ApiUnsupportedMediaType _) = 415"
| "api_status (ApiServiceUnavailable _) = 503"
| "api_status (ApiInternal _) = 500"

fun api_message :: "api_error \<Rightarrow> string" where
  "api_message (ApiNotFound m) = ''not found: '' @ m"
| "api_message (ApiBadRequest m) = ''bad request: '' @ m"
| "api_message ApiUnauthorized = ''unauthorized''"
| "api_message ApiUnauthorizedGit = ''unauthorized''"
| "api_message ApiForbidden = ''forbidden''"
| "api_message (ApiConflict m) = ''conflict: '' @ m"
| "api_message ApiPayloadTooLarge = ''payload too large''"
| "api_message (ApiUnsupportedMediaType m) = ''unsupported media type: '' @ m"
| "api_message (ApiServiceUnavailable m) = ''service unavailable: '' @ m"
| "api_message (ApiInternal m) = ''internal error: '' @ m"

definition quoted :: "string \<Rightarrow> string" where
  "quoted s = [CHR 0x22] @ s @ [CHR 0x22]"

definition into_response :: "api_error \<Rightarrow> 'a response" where
  "into_response e =
     (let r0 = plain (api_status e) (Text (api_message e));
          r1 = (if api_status e = 401
                then set_header ''www-authenticate''
                       (if e = ApiUnauthorizedGit
                        then ''Basic realm='' @ quoted ''walgit'' @ '', Bearer realm='' @ quoted ''walgit''
                        else ''Bearer realm='' @ quoted ''walgit'') r0
                else r0)
      in if api_status e = 503 then set_header ''retry-after'' ''15'' r1 else r1)"

text \<open>The text of a store error; the debug form of a version is its quoted text after a \<open>v\<close>.\<close>

fun store_error_text :: "store_error \<Rightarrow> string" where
  "store_error_text (NotFound key) = ''object not found: '' @ key"
| "store_error_text (PreconditionFailed key cur) =
     ''precondition failed on '' @ key @ '' (current version: '' @
     (case cur of None \<Rightarrow> ''None'' | Some v \<Rightarrow> ''Some(v'' @ quoted (dec v) @ '')'') @ '')''"
| "store_error_text (Retryable m) = ''retryable store error: '' @ m"
| "store_error_text (InvalidArgument m) = ''invalid argument: '' @ m"
| "store_error_text (OtherError m) = m"

definition api_of_store :: "store_error \<Rightarrow> api_error" where
  "api_of_store e = (case e of NotFound key \<Rightarrow> ApiNotFound key | _ \<Rightarrow> ApiInternal (store_error_text e))"

definition git_lane :: "api_error \<Rightarrow> api_error" where
  "git_lane e = (if e = ApiUnauthorized then ApiUnauthorizedGit else e)"

section \<open>Routes\<close>

record repo_route =
  rt_id :: repo_id
  rt_subpath :: string
  rt_had_git_suffix :: bool

definition parse_repo_route :: "string \<Rightarrow> repo_route option" where
  "parse_repo_route path0 =
     (let path = (case strip_prefix ''/'' path0 of Some p \<Rightarrow> p | None \<Rightarrow> path0)
      in case split_once (CHR ''/'') path of
           None \<Rightarrow> None
         | Some (ow, tail) \<Rightarrow>
             (let (rest, sub) = (case split_once (CHR ''/'') tail of Some (a, b) \<Rightarrow> (a, b) | None \<Rightarrow> (tail, []));
                  (nm, had_git) = (case strip_suffix ''.git'' rest of Some n \<Rightarrow> (n, True) | None \<Rightarrow> (rest, False))
              in case repo_id_from_str (ow @ ''/'' @ nm) of
                   Inl _ \<Rightarrow> None
                 | Inr i \<Rightarrow> Some \<lparr>rt_id = i, rt_subpath = dropWhile (\<lambda>c. c = CHR ''/'') sub, rt_had_git_suffix = had_git\<rparr>))"

definition is_top_level :: "string \<Rightarrow> bool" where
  "is_top_level path \<longleftrightarrow> trim_matches (CHR ''/'') path \<in> set [[], ''healthz'', ''readyz'', ''metrics'']"

text \<open>
  The address of this server for links: the configured one, or what the request says; \<open>listen_url\<close> is the address
  of the listening socket.
\<close>

definition request_base_url :: "string option \<Rightarrow> bool \<Rightarrow> string \<Rightarrow> header_map \<Rightarrow> string" where
  "request_base_url public_url tls listen_url h =
     (case public_url of
        Some u \<Rightarrow> trim_end_matches (CHR ''/'') u
      | None \<Rightarrow>
          (case Option.bind (case map_of h ''x-forwarded-host'' of Some v \<Rightarrow> v | None \<Rightarrow> header_get h ''host'')
                  (\<lambda>v. nonempty (trim_ws v)) of
             None \<Rightarrow> listen_url
           | Some host \<Rightarrow>
               (let asked = map_option (\<lambda>s. trim_ws (hd (split_on (\<lambda>c. c = CHR '','') s))) (header_get h ''x-forwarded-proto'');
                    scheme = (case asked of
                                Some s \<Rightarrow> if s = ''http'' \<or> s = ''https'' then Some s else None
                              | None \<Rightarrow> None)
                in (case scheme of
                      Some s \<Rightarrow> s
                    | None \<Rightarrow>
                        if tls then ''https''
                        else if starts_with host ''localhost'' \<or> starts_with host ''127.'' \<or> starts_with host ''[::1]'' then ''http''
                        else ''https'') @ ''://'' @ host)))"

end
