(* ===== verification/Auth.thy ===== *)
theory Auth
  imports Http "HOL-Library.Code_Target_Nat"
begin

text \<open>
  Authentication, \<^verbatim>\<open>crates/walgit-server/src/auth.rs\<close>: who a request comes from and what that principal may do.
  Clocks, HMAC, base64 of the URL alphabet, JSON web tokens, environment variables and the answers of the issuer are
  fields of \<open>auth_env\<close>.  The cache of the issuer's keys is state; the task that refreshes it in the background is the
  operation \<open>background_refresh\<close>.
\<close>

section \<open>Data\<close>

record principal =
  pr_name :: string
  pr_write :: bool
  pr_admin :: bool
  pr_anonymous :: bool

definition anonymous_principal :: principal where
  "anonymous_principal = \<lparr>pr_name = ''anonymous'', pr_write = False, pr_admin = False, pr_anonymous = True\<rparr>"

datatype auth_error = Invalid | Unauthorized | Forbidden | Unavailable

fun auth_status :: "auth_error \<Rightarrow> nat" where
  "auth_status Invalid = 401"
| "auth_status Unauthorized = 401"
| "auth_status Forbidden = 403"
| "auth_status Unavailable = 503"

fun api_of_auth :: "auth_error \<Rightarrow> api_error" where
  "api_of_auth Invalid = ApiUnauthorized"
| "api_of_auth Unauthorized = ApiUnauthorized"
| "api_of_auth Forbidden = ApiForbidden"
| "api_of_auth Unavailable = ApiServiceUnavailable ''auth provider unavailable''"

datatype auth_mode = AuthNone | AuthToken | AuthOidc

record static_token =
  st_principal :: string
  st_token :: string
  st_token_env :: "string option"
  st_write :: bool
  st_admin :: bool

record auth_config =
  ac_mode :: auth_mode
  ac_anonymous_read :: bool
  ac_tokens :: "static_token list"
  ac_issuer :: string
  ac_allowed_domains :: "string list"
  ac_allowed_emails :: "string list"
  ac_audiences :: "string list"
  ac_write_domains :: "string list option"
  ac_trusted_forwarders :: "string list"
  ac_admin_emails :: "string list"
  ac_admin_domains :: "string list"
  ac_session_secret :: "string option"
  ac_session_ttl :: nat
  ac_access_token_ttl :: nat
  ac_oauth_client_id :: "string option"
  ac_oauth_client_secret :: "string option"

datatype jwks_key = Rsa string string string | Ec string string string string

fun jwks_kid :: "jwks_key \<Rightarrow> string" where
  "jwks_kid (Rsa kid n e) = kid"
| "jwks_kid (Ec kid crv x y) = kid"

datatype algorithm = RS256 | ES256 | OtherAlg string

record jwks_response =
  jw_keys :: "jwks_key list"
  jw_max_age :: nat

record jwk =
  jk_kid :: "string option"
  jk_kty :: string
  jk_n :: "string option"
  jk_e :: "string option"
  jk_crv :: "string option"
  jk_x :: "string option"
  jk_y :: "string option"

record id_claims =
  cl_email :: string
  cl_email_verified :: bool

text \<open>
  What the code outside the repository answers: \<open>ae_fetch n\<close> is the answer to the \<open>n\<close>th request for the issuer's keys,
  \<open>ae_claims\<close> decodes and validates a token against key, algorithm, leeway, issuers and audiences.
\<close>

record 'k auth_env =
  ae_hmac :: "string \<Rightarrow> string \<Rightarrow> string"
  ae_encode :: "string \<Rightarrow> string"
  ae_decode :: "string \<Rightarrow> string option"
  ae_unix_now :: "nat option"
  ae_instant :: nat
  ae_env_var :: "string \<Rightarrow> string option"
  ae_rsa_key :: "string \<Rightarrow> string \<Rightarrow> 'k option"
  ae_ec_key :: "string \<Rightarrow> string \<Rightarrow> 'k option"
  ae_fetch :: "nat \<Rightarrow> (string, jwks_response) result"
  ae_jwt_header :: "string \<Rightarrow> (algorithm \<times> string option) option"
  ae_claims :: "string \<Rightarrow> 'k \<Rightarrow> algorithm \<Rightarrow> nat \<Rightarrow> string list \<Rightarrow> string list \<Rightarrow> id_claims option"

section \<open>The keys of the issuer\<close>

definition decoding_key :: "'k auth_env \<Rightarrow> jwks_key \<Rightarrow> ('k \<times> algorithm) option" where
  "decoding_key E k =
     (case k of
        Rsa kid n e \<Rightarrow> map_option (\<lambda>d. (d, RS256)) (ae_rsa_key E n e)
      | Ec kid crv x y \<Rightarrow> if crv \<noteq> ''P-256'' then None else map_option (\<lambda>d. (d, ES256)) (ae_ec_key E x y))"

definition into_key :: "jwk \<Rightarrow> jwks_key option" where
  "into_key k =
     (case jk_kid k of
        None \<Rightarrow> None
      | Some kid \<Rightarrow>
          (if jk_kty k = ''RSA''
           then (case (jk_n k, jk_e k) of (Some n, Some e) \<Rightarrow> Some (Rsa kid n e) | _ \<Rightarrow> None)
           else if jk_kty k = ''EC''
           then (case (jk_crv k, jk_x k, jk_y k) of (Some c, Some x, Some y) \<Rightarrow> Some (Ec kid c x y) | _ \<Rightarrow> None)
           else None))"

text \<open>\<open>find_map\<close>: the first part that is a readable \<open>max-age\<close>.\<close>

definition max_age_part :: "string \<Rightarrow> nat option" where
  "max_age_part part =
     (case split_once (CHR ''='') (trim_ws part) of
        None \<Rightarrow> None
      | Some (nm, secs) \<Rightarrow>
          (if eq_ignore_ascii_case (trim_ws nm) ''max-age'' then parse_unsigned (2 ^ 64) (trim_ws secs) else None))"

definition parse_max_age :: "string \<Rightarrow> nat option" where
  "parse_max_age v =
     (case List.map_filter max_age_part (split_on (\<lambda>c. c = CHR '','') v) of [] \<Rightarrow> None | n # _ \<Rightarrow> Some n)"

record 'k cached_key =
  ck_kid :: string
  ck_key :: 'k
  ck_alg :: algorithm

record 'k key_set =
  ks_cache :: "('k cached_key list \<times> nat) option"
  ks_refreshing :: bool
  ks_fetches :: nat

definition key_set_new :: "'k key_set" where
  "key_set_new = \<lparr>ks_cache = None, ks_refreshing = False, ks_fetches = 0\<rparr>"

fun cached_keys :: "'k auth_env \<Rightarrow> jwks_key list \<Rightarrow> 'k cached_key list option" where
  "cached_keys E [] = Some []"
| "cached_keys E (k # ks) =
     (case decoding_key E k of
        None \<Rightarrow> None
      | Some (d, alg) \<Rightarrow> map_option (\<lambda>cs. \<lparr>ck_kid = jwks_kid k, ck_key = d, ck_alg = alg\<rparr> # cs) (cached_keys E ks))"

definition refresh_cache :: "'k auth_env \<Rightarrow> 'k key_set \<Rightarrow> 'k cached_key list option \<times> 'k key_set" where
  "refresh_cache E ks =
     (let ks' = ks\<lparr>ks_fetches := Suc (ks_fetches ks)\<rparr>
      in case ae_fetch E (ks_fetches ks) of
           Inl _ \<Rightarrow> (None, ks')
         | Inr resp \<Rightarrow>
             (case cached_keys E (jw_keys resp) of
                None \<Rightarrow> (None, ks')
              | Some cs \<Rightarrow>
                  if cs = [] then (None, ks')
                  else (Some cs, ks'\<lparr>ks_cache := Some (cs, ae_instant E + jw_max_age resp)\<rparr>)))"

definition refresh_keys :: "'k auth_env \<Rightarrow> 'k key_set \<Rightarrow> (auth_error, 'k cached_key list) result \<times> 'k key_set" where
  "refresh_keys E ks =
     (case refresh_cache E ks of (None, ks') \<Rightarrow> (Err Unavailable, ks') | (Some cs, ks') \<Rightarrow> (Ok cs, ks'))"

text \<open>A refresh already under way is not started again; the task itself runs later.\<close>

definition spawn_refresh :: "'k key_set \<Rightarrow> 'k key_set" where
  "spawn_refresh ks = (if ks_refreshing ks then ks else ks\<lparr>ks_refreshing := True\<rparr>)"

definition background_refresh :: "'k auth_env \<Rightarrow> 'k key_set \<Rightarrow> 'k key_set" where
  "background_refresh E ks = (snd (refresh_cache E ks))\<lparr>ks_refreshing := False\<rparr>"

definition keys_now :: "'k auth_env \<Rightarrow> 'k key_set \<Rightarrow> (auth_error, 'k cached_key list) result \<times> 'k key_set" where
  "keys_now E ks =
     (case ks_cache ks of
        Some (cs, expires) \<Rightarrow> if expires > ae_instant E then (Ok cs, ks) else (Ok cs, spawn_refresh ks)
      | None \<Rightarrow> refresh_keys E ks)"

definition select_key :: "string option \<Rightarrow> 'k cached_key list \<Rightarrow> 'k cached_key option" where
  "select_key kid cs = find (\<lambda>c. Some (ck_kid c) = kid) cs"

definition find_key ::
  "'k auth_env \<Rightarrow> string option \<Rightarrow> 'k key_set \<Rightarrow> (auth_error, 'k \<times> algorithm) result \<times> 'k key_set" where
  "find_key E kid ks =
     (case keys_now E ks of
        (Inl e, ks1) \<Rightarrow> (Err e, ks1)
      | (Inr cs, ks1) \<Rightarrow>
          (let (selected, ks2) =
             (case select_key kid cs of
                Some c \<Rightarrow> (Some c, ks1)
              | None \<Rightarrow>
                  (case refresh_keys E ks1 of
                     (Inl _, ks2) \<Rightarrow> (None, ks2)
                   | (Inr fresh, ks2) \<Rightarrow> (select_key kid fresh, ks2)))
           in case selected of
                Some c \<Rightarrow> (Ok (ck_key c, ck_alg c), ks2)
              | None \<Rightarrow> (Err Invalid, ks2)))"

section \<open>Credentials in the headers\<close>

definition CAPABILITIES_HEADER :: string where
  "CAPABILITIES_HEADER = ''x-walgit-capabilities''"

definition SESSION_COOKIE :: string where
  "SESSION_COOKIE = ''walgit_session''"

definition ACCESS_TOKEN_PREFIX :: string where
  "ACCESS_TOKEN_PREFIX = ''wgt_''"

definition ID_TOKEN_LEEWAY_SECS :: nat where
  "ID_TOKEN_LEEWAY_SECS = 30"

definition parse_bearer :: "string \<Rightarrow> string option" where
  "parse_bearer v =
     (case split_once (CHR '' '') v of
        None \<Rightarrow> None
      | Some (scheme, rest) \<Rightarrow>
          if \<not> eq_ignore_ascii_case scheme ''Bearer'' then None else nonempty (trim_ws rest))"

definition edge_owns_authorization :: "header_map \<Rightarrow> bool" where
  "edge_owns_authorization h \<longleftrightarrow>
     list_ex (\<lambda>c. eq_ignore_ascii_case (trim_ws c) ''client-authorization'')
       (concat (map (split_on (\<lambda>c. c = CHR '','')) (header_all h CAPABILITIES_HEADER)))"

definition client_authorization :: "header_map \<Rightarrow> string option" where
  "client_authorization h =
     (case Option.bind (header_get h ''x-walgit-authorization'') (\<lambda>v. nonempty (trim_ws v)) of
        Some v \<Rightarrow> Some v
      | None \<Rightarrow> if edge_owns_authorization h then None else header_get h ''authorization'')"

definition bearer_token :: "header_map \<Rightarrow> string option" where
  "bearer_token h = Option.bind (client_authorization h) parse_bearer"

definition cookie_part :: "string \<Rightarrow> string \<Rightarrow> string option" where
  "cookie_part nm part = Option.bind (strip_prefix nm (trim_ws part)) (strip_prefix ''='')"

definition cookie_value :: "header_map \<Rightarrow> string \<Rightarrow> string option" where
  "cookie_value h nm =
     (case List.map_filter (cookie_part nm) (concat (map (split_on (\<lambda>c. c = CHR '';'')) (header_all h ''cookie''))) of
        [] \<Rightarrow> None | v # _ \<Rightarrow> Some v)"

definition TABLE :: string where
  "TABLE = ''ABCDEFGHIJKLMNOPQRSTUVWXYZabcdefghijklmnopqrstuvwxyz0123456789+/''"

fun position :: "char \<Rightarrow> string \<Rightarrow> nat option" where
  "position c [] = None"
| "position c (x # xs) = (if x = c then Some 0 else map_option Suc (position c xs))"

text \<open>The accumulator never holds more than the bits of one sextet and seven more, far below its 32 bits.\<close>

fun base64_loop :: "string \<Rightarrow> nat \<Rightarrow> nat \<Rightarrow> string \<Rightarrow> string option" where
  "base64_loop [] buf bits out = Some out"
| "base64_loop (b # bs) buf bits out =
     (if b = CHR ''='' then Some out
      else case position b TABLE of
             None \<Rightarrow> None
           | Some v \<Rightarrow>
               (let buf1 = buf * 64 + v; bits1 = bits + 6
                in if 8 \<le> bits1
                   then (let bits2 = bits1 - 8; x = buf1 div 2 ^ bits2
                         in if 255 < x then None else base64_loop bs (buf1 mod 2 ^ bits2) bits2 (out @ [char_of x]))
                   else base64_loop bs buf1 bits1 out))"

definition base64_decode :: "string \<Rightarrow> string option" where
  "base64_decode s = base64_loop s 0 0 []"

definition from_utf8 :: "string \<Rightarrow> string option" where
  "from_utf8 s = (if utf8_lossy s = s then Some s else None)"

definition basic_credentials :: "header_map \<Rightarrow> (string \<times> string) option" where
  "basic_credentials h =
     Option.bind (client_authorization h) (\<lambda>v.
     Option.bind (split_once (CHR '' '') v) (\<lambda>(scheme, rest).
       if \<not> eq_ignore_ascii_case scheme ''Basic'' then None
       else Option.bind (base64_decode (trim_ws rest)) (\<lambda>decoded.
            Option.bind (from_utf8 decoded) (split_once (CHR '':'')))))"

section \<open>The authenticator\<close>

record authenticator =
  au_mode :: auth_mode
  au_anonymous_read :: bool
  au_tokens :: "static_token list"
  au_issuer :: string
  au_allowed_domains :: "string list"
  au_allowed_emails :: "string list"
  au_trusted_forwarders :: "string list"
  au_admin_emails :: "string list"
  au_admin_domains :: "string list"
  au_audiences :: "string list"
  au_write_domains :: "string list option"
  au_session_secret :: "string option"
  au_session_ttl :: nat
  au_access_token_ttl :: nat
  au_oauth_client_id :: "string option"
  au_oauth_client_secret :: "string option"

definition lower :: "string \<Rightarrow> string" where
  "lower s = map to_ascii_lowercase s"

definition resolve_tokens :: "(string \<Rightarrow> string option) \<Rightarrow> static_token list \<Rightarrow> static_token list" where
  "resolve_tokens var ts =
     filter (\<lambda>t. st_token t \<noteq> [])
       (map (\<lambda>t. t\<lparr>st_token := (case Option.bind (st_token_env t) var of Some v \<Rightarrow> v | None \<Rightarrow> st_token t),
                   st_token_env := None\<rparr>) ts)"

definition auth_build :: "'k auth_env \<Rightarrow> auth_config \<Rightarrow> authenticator" where
  "auth_build E c =
     (let client = Option.bind (ac_oauth_client_id c) nonempty
      in \<lparr>au_mode = ac_mode c, au_anonymous_read = ac_anonymous_read c,
          au_tokens = resolve_tokens (ae_env_var E) (ac_tokens c),
          au_issuer = trim_end_matches (CHR ''/'') (ac_issuer c),
          au_allowed_domains = map lower (ac_allowed_domains c), au_allowed_emails = map lower (ac_allowed_emails c),
          au_trusted_forwarders = map lower (ac_trusted_forwarders c), au_admin_emails = map lower (ac_admin_emails c),
          au_admin_domains = map lower (ac_admin_domains c),
          au_audiences = (case client of
             Some i \<Rightarrow> if i \<in> set (ac_audiences c) then ac_audiences c else ac_audiences c @ [i]
           | None \<Rightarrow> ac_audiences c),
          au_write_domains = map_option (map lower) (ac_write_domains c),
          au_session_secret = Option.bind (ac_session_secret c) nonempty,
          au_session_ttl = ac_session_ttl c, au_access_token_ttl = ac_access_token_ttl c,
          au_oauth_client_id = client, au_oauth_client_secret = Option.bind (ac_oauth_client_secret c) nonempty\<rparr>)"

definition browser_login_enabled :: "authenticator \<Rightarrow> bool" where
  "browser_login_enabled A \<longleftrightarrow>
     au_mode A = AuthOidc \<and> au_session_secret A \<noteq> None \<and> au_oauth_client_id A \<noteq> None \<and> au_oauth_client_secret A \<noteq> None"

definition issued_tokens_enabled :: "authenticator \<Rightarrow> bool" where
  "issued_tokens_enabled A \<longleftrightarrow> au_mode A = AuthOidc \<and> au_session_secret A \<noteq> None"

definition oauth_client :: "authenticator \<Rightarrow> (string \<times> string) option" where
  "oauth_client A =
     Option.bind (au_oauth_client_id A) (\<lambda>i. map_option (\<lambda>s. (i, s)) (au_oauth_client_secret A))"

definition sign :: "'k auth_env \<Rightarrow> authenticator \<Rightarrow> string \<Rightarrow> string option" where
  "sign E A payload =
     map_option (\<lambda>secret. ae_encode E payload @ ''.'' @ ae_encode E (ae_hmac E secret payload)) (au_session_secret A)"

definition verify_signed :: "'k auth_env \<Rightarrow> authenticator \<Rightarrow> string \<Rightarrow> string option" where
  "verify_signed E A value =
     Option.bind (au_session_secret A) (\<lambda>secret.
     Option.bind (split_once (CHR ''.'') value) (\<lambda>(p, t).
     Option.bind (ae_decode E p) (\<lambda>payload.
     Option.bind (ae_decode E t) (\<lambda>tag.
       if tag = ae_hmac E secret payload then Some payload else None))))"

definition nl :: string where
  "nl = [CHR 0x0A]"

definition mint :: "'k auth_env \<Rightarrow> authenticator \<Rightarrow> string \<Rightarrow> nat \<Rightarrow> string \<Rightarrow> string option" where
  "mint E A email ttl knd =
     Option.bind (ae_unix_now E) (\<lambda>now.
       sign E A (knd @ nl @ dec ((now + ttl) mod 2 ^ 64) @ nl @ dec now @ nl @ email))"

text \<open>\<open>splitn(4, '\n')\<close> read piece by piece.\<close>

definition claims_of :: "'k auth_env \<Rightarrow> authenticator \<Rightarrow> string \<Rightarrow> string \<Rightarrow> (nat \<times> nat \<times> string) option" where
  "claims_of E A value knd =
     Option.bind (verify_signed E A value) (\<lambda>raw.
     Option.bind (from_utf8 raw) (\<lambda>payload.
     Option.bind (split_once (CHR 0x0A) payload) (\<lambda>(k, r1).
       if k \<noteq> knd then None
       else Option.bind (split_once (CHR 0x0A) r1) (\<lambda>(exp_text, r2).
            Option.bind (parse_unsigned (2 ^ 64) exp_text) (\<lambda>exp.
            Option.bind (split_once (CHR 0x0A) r2) (\<lambda>(iat_text, email).
            Option.bind (parse_unsigned (2 ^ 64) iat_text) (\<lambda>iat.
            Option.bind (ae_unix_now E) (\<lambda>now.
              if exp \<le> now then None else Some (exp, iat, email)))))))))"

definition session_cookie_value :: "'k auth_env \<Rightarrow> authenticator \<Rightarrow> string \<Rightarrow> string option" where
  "session_cookie_value E A email = mint E A email (au_session_ttl A) ''session''"

definition access_token :: "'k auth_env \<Rightarrow> authenticator \<Rightarrow> string \<Rightarrow> string option" where
  "access_token E A email =
     (if \<not> issued_tokens_enabled A then None
      else map_option (\<lambda>t. ACCESS_TOKEN_PREFIX @ t) (mint E A email (au_access_token_ttl A) ''token''))"

definition access_token_claims :: "'k auth_env \<Rightarrow> authenticator \<Rightarrow> string \<Rightarrow> (nat \<times> string) option" where
  "access_token_claims E A tok =
     Option.bind (strip_prefix ACCESS_TOKEN_PREFIX tok) (\<lambda>raw.
       map_option (\<lambda>(exp, _, email). (exp, email)) (claims_of E A raw ''token''))"

definition session_claims :: "'k auth_env \<Rightarrow> authenticator \<Rightarrow> header_map \<Rightarrow> (nat \<times> nat \<times> string) option" where
  "session_claims E A h = Option.bind (cookie_value h SESSION_COOKIE) (\<lambda>raw. claims_of E A raw ''session'')"

definition is_admin :: "authenticator \<Rightarrow> string \<Rightarrow> bool" where
  "is_admin A nm \<longleftrightarrow>
     au_mode A = AuthNone \<or> lower nm \<in> set (au_admin_emails A) \<or>
     (case rsplit_once (CHR ''@'') (lower nm) of Some (_, domain) \<Rightarrow> domain \<in> set (au_admin_domains A) | None \<Rightarrow> False) \<or>
     list_ex (\<lambda>t. st_admin t \<and> eq_ignore_ascii_case (st_principal t) nm) (au_tokens A)"

definition principal_for_email :: "authenticator \<Rightarrow> string \<Rightarrow> (auth_error, principal) result" where
  "principal_for_email A email =
     (case rsplit_once (CHR ''@'') email of
        None \<Rightarrow> Err Invalid
      | Some (_, domain) \<Rightarrow>
          (let allowed = (lower domain \<in> set (au_allowed_domains A) \<or> lower email \<in> set (au_allowed_emails A))
           in if \<not> allowed then Err Forbidden
              else Ok \<lparr>pr_name = email,
                       pr_write = (case au_write_domains A of None \<Rightarrow> allowed | Some ds \<Rightarrow> lower domain \<in> set ds),
                       pr_admin = is_admin A email, pr_anonymous = False\<rparr>))"

definition authenticate_cookie :: "'k auth_env \<Rightarrow> authenticator \<Rightarrow> header_map \<Rightarrow> principal option" where
  "authenticate_cookie E A h =
     Option.bind (session_claims E A h) (\<lambda>(_, _, email).
       case principal_for_email A email of Inr p \<Rightarrow> Some p | Inl _ \<Rightarrow> None)"

definition session_refresh_value :: "'k auth_env \<Rightarrow> authenticator \<Rightarrow> header_map \<Rightarrow> string option" where
  "session_refresh_value E A h =
     Option.bind (session_claims E A h) (\<lambda>(_, iat, email).
     Option.bind (ae_unix_now E) (\<lambda>now.
       if now - iat < au_session_ttl A div 4 then None
       else (case principal_for_email A email of
               Inr p \<Rightarrow> session_cookie_value E A (pr_name p)
             | Inl _ \<Rightarrow> None)))"

definition issuer_forms :: "string \<Rightarrow> string list" where
  "issuer_forms issuer =
     issuer # (case strip_prefix ''https://'' issuer of Some bare \<Rightarrow> [bare] | None \<Rightarrow> [])"

definition verify_id_token ::
  "'k auth_env \<Rightarrow> authenticator \<Rightarrow> string \<Rightarrow> string list \<Rightarrow> 'k key_set \<Rightarrow> (auth_error, principal) result \<times> 'k key_set" where
  "verify_id_token E A tok only_aud ks =
     (case ae_jwt_header E tok of
        None \<Rightarrow> (Err Invalid, ks)
      | Some (alg, kid) \<Rightarrow>
          if alg \<noteq> RS256 \<and> alg \<noteq> ES256 then (Err Invalid, ks)
          else (case find_key E kid ks of
                  (Inl e, ks1) \<Rightarrow> (Err e, ks1)
                | (Inr (key, key_alg), ks1) \<Rightarrow>
                    (let audiences = (if only_aud = [] then au_audiences A else only_aud)
                     in if key_alg \<noteq> alg \<or> audiences = [] then (Err Invalid, ks1)
                        else (case ae_claims E tok key key_alg ID_TOKEN_LEEWAY_SECS (issuer_forms (au_issuer A)) audiences of
                                None \<Rightarrow> (Err Invalid, ks1)
                              | Some cl \<Rightarrow>
                                  if \<not> cl_email_verified cl then (Err Invalid, ks1)
                                  else (principal_for_email A (cl_email cl), ks1)))))"

definition verify_login_id_token ::
  "'k auth_env \<Rightarrow> authenticator \<Rightarrow> string \<Rightarrow> 'k key_set \<Rightarrow> (auth_error, principal) result \<times> 'k key_set" where
  "verify_login_id_token E A tok ks =
     (case oauth_client A of None \<Rightarrow> (Err Unavailable, ks) | Some (client_id, _) \<Rightarrow> verify_id_token E A tok [client_id] ks)"

definition opaque_token_principal ::
  "'k auth_env \<Rightarrow> authenticator \<Rightarrow> string \<Rightarrow> (auth_error, principal) result option" where
  "opaque_token_principal E A tok =
     (case find (\<lambda>t. st_token t = tok) (au_tokens A) of
        Some t \<Rightarrow> Some (Ok \<lparr>pr_name = st_principal t, pr_write = st_write t, pr_admin = st_admin t, pr_anonymous = False\<rparr>)
      | None \<Rightarrow>
          if starts_with tok ACCESS_TOKEN_PREFIX
          then Some (case access_token_claims E A tok of
                       Some (_, email) \<Rightarrow> principal_for_email A email
                     | None \<Rightarrow> Err Invalid)
          else None)"

definition or_invalid :: "(auth_error, principal) result option \<Rightarrow> (auth_error, principal) result" where
  "or_invalid r = (case r of Some x \<Rightarrow> x | None \<Rightarrow> Err Invalid)"

definition authenticate_inner ::
  "'k auth_env \<Rightarrow> authenticator \<Rightarrow> header_map \<Rightarrow> 'k key_set \<Rightarrow> (auth_error, principal) result \<times> 'k key_set" where
  "authenticate_inner E A h ks =
     (case au_mode A of
        AuthNone \<Rightarrow> (Ok \<lparr>pr_name = ''anon'', pr_write = True, pr_admin = True, pr_anonymous = False\<rparr>, ks)
      | AuthToken \<Rightarrow>
          (case (case bearer_token h of Some t \<Rightarrow> Some t | None \<Rightarrow> map_option snd (basic_credentials h)) of
             Some tok \<Rightarrow> (or_invalid (opaque_token_principal E A tok), ks)
           | None \<Rightarrow> (Ok anonymous_principal, ks))
      | AuthOidc \<Rightarrow>
          (case bearer_token h of
             Some tok \<Rightarrow>
               (case opaque_token_principal E A tok of Some r \<Rightarrow> (r, ks) | None \<Rightarrow> verify_id_token E A tok [] ks)
           | None \<Rightarrow>
               (case basic_credentials h of
                  Some (_, pass) \<Rightarrow> (or_invalid (opaque_token_principal E A pass), ks)
                | None \<Rightarrow>
                    ((case authenticate_cookie E A h of Some p \<Rightarrow> Ok p | None \<Rightarrow> Err Unauthorized), ks))))"

definition forwarded_name :: "header_map \<Rightarrow> string option" where
  "forwarded_name h = Option.bind (header_get h ''x-walgit-principal'') (\<lambda>v. nonempty (trim_ws v))"

definition apply_forwarding :: "authenticator \<Rightarrow> header_map \<Rightarrow> principal \<Rightarrow> principal" where
  "apply_forwarding A h caller =
     (case forwarded_name h of
        None \<Rightarrow> caller
      | Some nm \<Rightarrow>
          if au_mode A = AuthNone \<or>
             (pr_write caller \<and> list_ex (\<lambda>f. eq_ignore_ascii_case f (pr_name caller)) (au_trusted_forwarders A))
          then \<lparr>pr_name = nm, pr_write = pr_write caller, pr_admin = is_admin A nm, pr_anonymous = False\<rparr>
          else caller)"

definition authenticate ::
  "'k auth_env \<Rightarrow> authenticator \<Rightarrow> header_map \<Rightarrow> 'k key_set \<Rightarrow> (auth_error, principal) result \<times> 'k key_set" where
  "authenticate E A h ks =
     (case authenticate_inner E A h ks of
        (Inl e, ks') \<Rightarrow> (Err e, ks')
      | (Inr caller, ks') \<Rightarrow> (Ok (apply_forwarding A h caller), ks'))"

definition require_write ::
  "'k auth_env \<Rightarrow> authenticator \<Rightarrow> header_map \<Rightarrow> 'k key_set \<Rightarrow> (auth_error, principal) result \<times> 'k key_set" where
  "require_write E A h ks =
     (case authenticate E A h ks of
        (Inl e, ks') \<Rightarrow> (Err e, ks')
      | (Inr p, ks') \<Rightarrow> (if pr_write p then Ok p else if pr_anonymous p then Err Unauthorized else Err Forbidden, ks'))"

definition require_admin ::
  "'k auth_env \<Rightarrow> authenticator \<Rightarrow> header_map \<Rightarrow> 'k key_set \<Rightarrow> (auth_error, principal) result \<times> 'k key_set" where
  "require_admin E A h ks =
     (case authenticate E A h ks of
        (Inl e, ks') \<Rightarrow> (Err e, ks')
      | (Inr p, ks') \<Rightarrow> (if pr_admin p then Ok p else if pr_anonymous p then Err Unauthorized else Err Forbidden, ks'))"

definition require_read ::
  "'k auth_env \<Rightarrow> authenticator \<Rightarrow> header_map \<Rightarrow> 'k key_set \<Rightarrow> (auth_error, principal) result \<times> 'k key_set" where
  "require_read E A h ks =
     (case authenticate E A h ks of
        (Inl e, ks') \<Rightarrow> (Err e, ks')
      | (Inr p, ks') \<Rightarrow> (if \<not> pr_anonymous p \<or> au_anonymous_read A then Ok p else Err Unauthorized, ks'))"

section \<open>The issuer's keys come from the issuer\<close>

text \<open>Key \<open>c\<close> is in one of the first \<open>n\<close> answers of the issuer.\<close>

definition published :: "'k auth_env \<Rightarrow> nat \<Rightarrow> 'k cached_key \<Rightarrow> bool" where
  "published E n c \<longleftrightarrow>
     (\<exists>i<n. \<exists>resp k. ae_fetch E i = Ok resp \<and> k \<in> set (jw_keys resp) \<and> ck_kid c = jwks_kid k \<and>
        decoding_key E k = Some (ck_key c, ck_alg c))"

definition keys_inv :: "'k auth_env \<Rightarrow> 'k key_set \<Rightarrow> bool" where
  "keys_inv E ks \<longleftrightarrow>
     (case ks_cache ks of None \<Rightarrow> True | Some (cs, _) \<Rightarrow> cs \<noteq> [] \<and> list_all (published E (ks_fetches ks)) cs)"

lemma published_mono: "published E n c \<Longrightarrow> n \<le> m \<Longrightarrow> published E m c"
  unfolding published_def by (meson less_le_trans)

lemma cached_keys_published:
  assumes "cached_keys E ks = Some cs" "c \<in> set cs"
  shows "\<exists>k\<in>set ks. ck_kid c = jwks_kid k \<and> decoding_key E k = Some (ck_key c, ck_alg c)"
  using assms
proof (induction ks arbitrary: cs)
  case (Cons k ks)
  then show ?case by (cases "decoding_key E k") (fastforce split: prod.splits)+
qed simp

lemma refresh_cache_inv:
  assumes "refresh_cache E ks = (r, ks')" "keys_inv E ks"
  shows "keys_inv E ks' \<and> ks_fetches ks \<le> ks_fetches ks' \<and> ks_refreshing ks' = ks_refreshing ks \<and>
    (case r of None \<Rightarrow> True | Some cs \<Rightarrow> list_all (published E (ks_fetches ks')) cs)"
proof (cases "ae_fetch E (ks_fetches ks)")
  case (Inl e)
  then show ?thesis using assms
    by (fastforce simp: refresh_cache_def keys_inv_def list_all_iff intro: published_mono split: option.splits)
next
  case (Inr resp)
  have new: "list_all (published E (Suc (ks_fetches ks))) cs" if "cached_keys E (jw_keys resp) = Some cs" for cs
    using cached_keys_published [OF that] Inr unfolding list_all_iff published_def by blast
  show ?thesis using assms Inr new
    by (fastforce simp: refresh_cache_def Let_def keys_inv_def list_all_iff intro: published_mono
        split: option.splits if_splits)
qed

lemma spawn_refresh_inv: "keys_inv E ks \<Longrightarrow> keys_inv E (spawn_refresh ks)"
  by (auto simp: spawn_refresh_def keys_inv_def split: option.splits)

lemma keys_now_inv:
  assumes "keys_now E ks = (r, ks')" "keys_inv E ks"
  shows "keys_inv E ks' \<and> (case r of Inl _ \<Rightarrow> True | Inr cs \<Rightarrow> list_all (published E (ks_fetches ks')) cs)"
proof (cases "ks_cache ks")
  case None
  then show ?thesis using assms refresh_cache_inv [of E ks]
    by (auto simp: keys_now_def refresh_keys_def split: option.splits prod.splits)
next
  case (Some ce)
  then show ?thesis using assms spawn_refresh_inv [of E ks]
    by (cases ce) (auto simp: keys_now_def keys_inv_def spawn_refresh_def split: if_splits)
qed

lemma find_key_inv:
  assumes "find_key E kid ks = (r, ks')" "keys_inv E ks"
  shows "keys_inv E ks' \<and> (case r of Inl _ \<Rightarrow> True | Inr (key, alg) \<Rightarrow>
    (\<exists>c. published E (ks_fetches ks') c \<and> Some (ck_kid c) = kid \<and> ck_key c = key \<and> ck_alg c = alg))"
proof -
  obtain r1 ks1 where k: "keys_now E ks = (r1, ks1)" by (cases "keys_now E ks")
  note k_inv = keys_now_inv [OF k assms(2)]
  have sel: "select_key kid cs = Some c \<Longrightarrow> list_all P cs \<Longrightarrow> P c \<and> Some (ck_kid c) = kid" for cs P and c :: "'a cached_key"
    by (auto simp: select_key_def find_Some_iff list_all_length)
  show ?thesis
  proof (cases r1)
    case (Inl e)
    then show ?thesis using assms(1) k k_inv by (auto simp: find_key_def)
  next
    case (Inr cs)
    show ?thesis
    proof (cases "select_key kid cs")
      case (Some c)
      have "published E (ks_fetches ks1) c \<and> Some (ck_kid c) = kid" using sel [OF Some, where P = "published E (ks_fetches ks1)"] k_inv Inr by simp
      then show ?thesis using assms(1) k k_inv Inr Some by (auto simp: find_key_def)
    next
      case None
      obtain r2 ks2 where r: "refresh_cache E ks1 = (r2, ks2)" by (cases "refresh_cache E ks1")
      show ?thesis using assms(1) k k_inv Inr None r refresh_cache_inv [OF r]
        by (cases r2) (auto simp: find_key_def refresh_keys_def split: option.splits dest!: sel)
    qed
  qed
qed

text \<open>
  The states of the key set: requests look keys up and the background task refreshes them, each at its own time.
\<close>

inductive keys_reached :: "'k auth_env \<Rightarrow> 'k key_set \<Rightarrow> bool" for E :: "'k auth_env" where
  keys_start: "keys_reached E key_set_new"
| keys_find: "keys_reached E ks \<Longrightarrow> keys_reached E (snd (find_key (E\<lparr>ae_instant := t\<rparr>) kid ks))"
| keys_background: "keys_reached E ks \<Longrightarrow> keys_reached E (background_refresh (E\<lparr>ae_instant := t\<rparr>) ks)"

lemma published_instant [simp]: "published (E\<lparr>ae_instant := t\<rparr>) = published E"
  by (auto simp: published_def decoding_key_def fun_eq_iff split: jwks_key.splits)

lemma keys_inv_instant [simp]: "keys_inv (E\<lparr>ae_instant := t\<rparr>) = keys_inv E"
  by (auto simp: keys_inv_def fun_eq_iff split: option.splits)

lemma keys_reached_inv: "keys_reached E ks \<Longrightarrow> keys_inv E ks"
proof (induction rule: keys_reached.induct)
  case keys_start
  then show ?case by (simp add: keys_inv_def key_set_new_def)
next
  case (keys_find ks t kid)
  then show ?case using find_key_inv [of "E\<lparr>ae_instant := t\<rparr>" kid ks] by (cases "find_key (E\<lparr>ae_instant := t\<rparr>) kid ks") auto
next
  case (keys_background ks t)
  then show ?case using refresh_cache_inv [of "E\<lparr>ae_instant := t\<rparr>" ks]
    by (cases "refresh_cache (E\<lparr>ae_instant := t\<rparr>) ks") (auto simp: background_refresh_def keys_inv_def split: option.splits)
qed

section \<open>What backs a principal\<close>

text \<open>
  The specification of authentication: the credentials a request can carry and the principal each stands for.
\<close>

definition presented :: "header_map \<Rightarrow> string \<Rightarrow> bool" where
  "presented h tok \<longleftrightarrow> bearer_token h = Some tok \<or> (bearer_token h = None \<and> (\<exists>u. basic_credentials h = Some (u, tok)))"

definition carries_signed :: "'k auth_env \<Rightarrow> authenticator \<Rightarrow> string \<Rightarrow> string \<Rightarrow> bool" where
  "carries_signed E A raw payload \<longleftrightarrow>
     (\<exists>secret p t. au_session_secret A = Some secret \<and> raw = p @ ''.'' @ t \<and> ae_decode E p = Some payload \<and>
        ae_decode E t = Some (ae_hmac E secret payload))"

definition live_claim :: "'k auth_env \<Rightarrow> authenticator \<Rightarrow> string \<Rightarrow> string \<Rightarrow> string \<Rightarrow> bool" where
  "live_claim E A raw knd email \<longleftrightarrow>
     (\<exists>ex exp iat now. carries_signed E A raw (knd @ nl @ ex @ nl @ iat @ nl @ email) \<and>
        parse_unsigned (2 ^ 64) ex = Some exp \<and> ae_unix_now E = Some now \<and> now < exp)"

definition email_domain :: "string \<Rightarrow> string" where
  "email_domain email = (case rsplit_once (CHR ''@'') email of Some (_, d) \<Rightarrow> lower d | None \<Rightarrow> [])"

definition admitted :: "authenticator \<Rightarrow> string \<Rightarrow> bool" where
  "admitted A email \<longleftrightarrow> CHR ''@'' \<in> set email \<and>
     (email_domain email \<in> set (au_allowed_domains A) \<or> lower email \<in> set (au_allowed_emails A))"

definition email_principal :: "authenticator \<Rightarrow> string \<Rightarrow> principal" where
  "email_principal A email =
     \<lparr>pr_name = email, pr_write = (case au_write_domains A of None \<Rightarrow> True | Some ds \<Rightarrow> email_domain email \<in> set ds),
      pr_admin = is_admin A email, pr_anonymous = False\<rparr>"

definition token_principal :: "static_token \<Rightarrow> principal" where
  "token_principal t = \<lparr>pr_name = st_principal t, pr_write = st_write t, pr_admin = st_admin t, pr_anonymous = False\<rparr>"

inductive backed :: "'k auth_env \<Rightarrow> authenticator \<Rightarrow> header_map \<Rightarrow> principal \<Rightarrow> bool"
  for E :: "'k auth_env" and A :: authenticator and h :: header_map where
  by_static_token: "t \<in> set (au_tokens A) \<Longrightarrow> presented h (st_token t) \<Longrightarrow> backed E A h (token_principal t)"
| by_issued_token: "presented h (ACCESS_TOKEN_PREFIX @ raw) \<Longrightarrow> live_claim E A raw ''token'' email \<Longrightarrow> admitted A email \<Longrightarrow>
    backed E A h (email_principal A email)"
| by_session: "au_mode A = AuthOidc \<Longrightarrow> cookie_value h SESSION_COOKIE = Some raw \<Longrightarrow> live_claim E A raw ''session'' email \<Longrightarrow>
    admitted A email \<Longrightarrow> backed E A h (email_principal A email)"
| by_id_token: "au_mode A = AuthOidc \<Longrightarrow> bearer_token h = Some tok \<Longrightarrow> published E n c \<Longrightarrow>
    ae_jwt_header E tok = Some (ck_alg c, Some (ck_kid c)) \<Longrightarrow>
    ae_claims E tok (ck_key c) (ck_alg c) ID_TOKEN_LEEWAY_SECS (issuer_forms (au_issuer A)) (au_audiences A) = Some cl \<Longrightarrow>
    au_audiences A \<noteq> [] \<Longrightarrow> cl_email_verified cl \<Longrightarrow> admitted A (cl_email cl) \<Longrightarrow>
    backed E A h (email_principal A (cl_email cl))"

lemma rsplit_once_SomeD: "rsplit_once c s = Some (a, b) \<Longrightarrow> s = a @ c # b \<and> c \<notin> set b"
  by (auto simp: rsplit_once_def dest!: split_once_SomeD) (metis rev_append rev_rev_ident rev.simps(2) append.assoc append_Cons append_Nil)

lemma rsplit_once_None_iff: "rsplit_once c s = None \<longleftrightarrow> c \<notin> set s"
  by (simp add: rsplit_once_def split_once_None_iff)

lemma principal_for_email_Ok_iff: "principal_for_email A email = Ok p \<longleftrightarrow> admitted A email \<and> p = email_principal A email"
proof (cases "rsplit_once (CHR ''@'') email")
  case None
  then show ?thesis using rsplit_once_None_iff [of "CHR ''@''" email] by (simp add: principal_for_email_def admitted_def)
next
  case (Some ab)
  then have "CHR ''@'' \<in> set email" by (cases ab) (auto dest: rsplit_once_SomeD)
  then show ?thesis using Some
    by (cases ab) (auto simp: principal_for_email_def admitted_def email_principal_def email_domain_def Let_def split: option.splits)
qed

lemma verify_signed_carries: "verify_signed E A raw = Some payload \<Longrightarrow> carries_signed E A raw payload"
  unfolding verify_signed_def carries_signed_def
  by (fastforce simp: Option.bind_eq_Some_conv split: if_splits dest: split_once_SomeD)

lemma claims_of_live: "claims_of E A raw knd = Some (exp, iat, email) \<Longrightarrow> live_claim E A raw knd email"
  unfolding claims_of_def live_claim_def from_utf8_def nl_def
  by (fastforce simp: Option.bind_eq_Some_conv split: if_splits dest!: split_once_SomeD verify_signed_carries)

lemma opaque_token_backed:
  assumes "opaque_token_principal E A tok = Some (Ok p)" "presented h tok"
  shows "backed E A h p"
proof (cases "find (\<lambda>t. st_token t = tok) (au_tokens A)")
  case (Some t)
  then have "t \<in> set (au_tokens A)" "st_token t = tok" by (auto simp: find_Some_iff)
  then show ?thesis using assms Some backed.by_static_token [of t A h E]
    by (simp add: opaque_token_principal_def token_principal_def)
next
  case None
  then obtain exp email where c: "access_token_claims E A tok = Some (exp, email)" and p: "principal_for_email A email = Ok p"
    using assms(1) by (auto simp: opaque_token_principal_def split: option.splits if_splits)
  from c obtain raw iat where raw: "tok = ACCESS_TOKEN_PREFIX @ raw" "claims_of E A raw ''token'' = Some (exp, iat, email)"
    by (auto simp: access_token_claims_def Option.bind_eq_Some_conv strip_prefix_Some_iff)
  show ?thesis using backed.by_issued_token [OF _ claims_of_live [OF raw(2)]] p assms(2) raw(1)
    by (auto simp: principal_for_email_Ok_iff)
qed

lemma result_to_option: "(case r of Inr p \<Rightarrow> Some p | Inl _ \<Rightarrow> None) = Some q \<longleftrightarrow> r = Ok q"
  by (cases r) auto

lemma cookie_backed:
  assumes "authenticate_cookie E A h = Some p" "au_mode A = AuthOidc"
  shows "backed E A h p"
proof -
  from assms(1) obtain exp iat email where s: "session_claims E A h = Some (exp, iat, email)" and p: "principal_for_email A email = Ok p"
    by (auto simp: authenticate_cookie_def Option.bind_eq_Some_conv result_to_option)
  from s obtain raw where "cookie_value h SESSION_COOKIE = Some raw" "claims_of E A raw ''session'' = Some (exp, iat, email)"
    by (auto simp: session_claims_def Option.bind_eq_Some_conv)
  then show ?thesis using p assms(2) claims_of_live backed.by_session by (fastforce simp: principal_for_email_Ok_iff)
qed

lemma id_token_backed:
  assumes "verify_id_token E A tok [] ks = (Ok p, ks')" "keys_inv E ks" "au_mode A = AuthOidc" "bearer_token h = Some tok"
  shows "backed E A h p"
proof -
  from assms(1) obtain alg kid where hd: "ae_jwt_header E tok = Some (alg, kid)"
    by (auto simp: verify_id_token_def split: option.splits)
  obtain r ks1 where f: "find_key E kid ks = (r, ks1)" by (cases "find_key E kid ks")
  from assms(1) hd f obtain key where r: "r = Ok (key, alg)"
    by (auto simp: verify_id_token_def Let_def split: sum.splits if_splits option.splits)
  from assms(1) hd f r obtain cl where cl:
    "ae_claims E tok key alg ID_TOKEN_LEEWAY_SECS (issuer_forms (au_issuer A)) (au_audiences A) = Some cl"
    "cl_email_verified cl" "au_audiences A \<noteq> []" "principal_for_email A (cl_email cl) = Ok p"
    by (auto simp: verify_id_token_def Let_def split: if_splits option.splits)
  from find_key_inv [OF f assms(2)] r obtain c where c:
    "published E (ks_fetches ks1) c" "Some (ck_kid c) = kid" "ck_key c = key" "ck_alg c = alg" by auto
  show ?thesis
    using backed.by_id_token [OF assms(3,4) c(1), of cl] hd c(2-4) cl by (auto simp: principal_for_email_Ok_iff)
qed

text \<open>The principal before forwarding; without a credential it is anonymous, and only tokens mode has anonymous callers.\<close>

lemma inner_backed:
  assumes "authenticate_inner E A h ks = (Ok p, ks')" "keys_inv E ks" "au_mode A \<noteq> AuthNone"
  shows "backed E A h p \<or>
    (au_mode A = AuthToken \<and> p = anonymous_principal \<and> bearer_token h = None \<and> basic_credentials h = None)"
proof (cases "au_mode A")
  case AuthToken
  then show ?thesis
    using assms(1) opaque_token_backed [of E A _ p h]
    by (auto simp: authenticate_inner_def or_invalid_def presented_def split: option.splits)
next
  case AuthOidc
  have bearer: ?thesis if b: "bearer_token h = Some tok" for tok
    using assms(1,2) AuthOidc b opaque_token_backed [of E A tok p h] id_token_backed [of E A tok ks p ks' h]
    by (auto simp: authenticate_inner_def presented_def split: option.splits)
  show ?thesis
    using assms(1) AuthOidc bearer opaque_token_backed [of E A _ p h] cookie_backed [of E A h p]
    by (auto simp: authenticate_inner_def or_invalid_def presented_def split: option.splits)
qed (use assms(3) in simp)

lemma backed_not_anonymous: "backed E A h p \<Longrightarrow> \<not> pr_anonymous p"
  by (induction rule: backed.induct) (simp_all add: token_principal_def email_principal_def)

definition trusted_forwarder :: "authenticator \<Rightarrow> principal \<Rightarrow> bool" where
  "trusted_forwarder A p \<longleftrightarrow> pr_write p \<and> lower (pr_name p) \<in> lower ` set (au_trusted_forwarders A)"

lemma listed_ignoring_case: "list_ex (\<lambda>f. eq_ignore_ascii_case f n) fs \<longleftrightarrow> lower n \<in> lower ` set fs"
  unfolding list_ex_iff eq_ignore_ascii_case_def lower_def image_iff by metis

lemma apply_forwarding_cases:
  assumes "au_mode A \<noteq> AuthNone"
  obtains (same) "apply_forwarding A h caller = caller"
  | (forwarded) nm where "forwarded_name h = Some nm" "trusted_forwarder A caller"
      "apply_forwarding A h caller = \<lparr>pr_name = nm, pr_write = True, pr_admin = is_admin A nm, pr_anonymous = False\<rparr>"
proof (cases "forwarded_name h")
  case None
  then show thesis using same by (simp add: apply_forwarding_def)
next
  case (Some nm)
  then show thesis
    using same forwarded [OF Some] assms
    by (cases "trusted_forwarder A caller") (auto simp: apply_forwarding_def trusted_forwarder_def listed_ignoring_case)
qed

text \<open>
  C8. Nobody writes without a credential: with authentication on, a request that passes \<open>require_write\<close> carries a
  credential, a configured token, an unexpired value signed with the server's secret or a token validated with a key
  the issuer published, whose principal may write; the name is that principal's or the one a trusted forwarder vouches for.
\<close>

theorem writes_need_credentials:
  assumes "au_mode A \<noteq> AuthNone" "keys_reached E ks" "fst (require_write E A h ks) = Ok p"
  shows "\<exists>caller. backed E A h caller \<and> pr_write caller \<and>
    (p = caller \<or> trusted_forwarder A caller \<and> forwarded_name h = Some (pr_name p) \<and> pr_admin p = is_admin A (pr_name p))"
proof -
  obtain r ks' where i: "authenticate_inner E A h ks = (r, ks')" by (cases "authenticate_inner E A h ks")
  with assms(3) obtain caller where r: "r = Ok caller" and p: "p = apply_forwarding A h caller" and w: "pr_write p"
    by (cases r) (auto simp: require_write_def authenticate_def split: if_splits)
  from inner_backed [OF i [unfolded r] keys_reached_inv [OF assms(2)] assms(1)]
  consider "backed E A h caller" | "caller = anonymous_principal" by blast
  then show ?thesis
  proof cases
    case 1
    from assms(1) show ?thesis
      by (cases rule: apply_forwarding_cases [of A h caller]) (use 1 p w in \<open>auto simp: trusted_forwarder_def\<close>)
  next
    case 2
    from assms(1) show ?thesis
      by (cases rule: apply_forwarding_cases [of A h caller]) (use 2 p w in \<open>auto simp: trusted_forwarder_def anonymous_principal_def\<close>)
  qed
qed

section \<open>Basic credentials\<close>

text \<open>The reference encoder of RFC 4648: three bytes make four characters, a shorter end is padded.\<close>

definition sextet :: "nat \<Rightarrow> char" where
  "sextet v = TABLE ! v"

fun base64_encode :: "string \<Rightarrow> string" where
  "base64_encode [] = []"
| "base64_encode [a] = [sextet (of_char a div 4), sextet (of_char a mod 4 * 16), CHR ''='', CHR ''='']"
| "base64_encode [a, b] =
     [sextet (of_char a div 4), sextet (of_char a mod 4 * 16 + of_char b div 16), sextet (of_char b mod 16 * 4), CHR ''='']"
| "base64_encode (a # b # c # r) =
     [sextet (of_char a div 4), sextet (of_char a mod 4 * 16 + of_char b div 16),
      sextet (of_char b mod 16 * 4 + of_char c div 64), sextet (of_char c mod 64)] @ base64_encode r"

lemma position_nth: "distinct xs \<Longrightarrow> i < length xs \<Longrightarrow> position (xs ! i) xs = Some i"
  by (induction xs arbitrary: i) (auto simp: nth_Cons split: nat.splits)

lemma TABLE_facts: "length TABLE = 64" "distinct TABLE" "CHR ''='' \<notin> set TABLE"
  by code_simp+

lemma sextet_position: "v < 64 \<Longrightarrow> position (sextet v) TABLE = Some v"
  unfolding sextet_def by (rule position_nth) (simp_all add: TABLE_facts)

lemma sextet_not_pad: "v < 64 \<Longrightarrow> sextet v \<noteq> CHR ''=''"
  using TABLE_facts(1,3) nth_mem [of v TABLE] unfolding sextet_def by metis

lemma base64_step:
  assumes "v < 64"
  shows "base64_loop (sextet v # bs) buf bits out =
    (if 2 \<le> bits
     then (if 255 < (buf * 64 + v) div 2 ^ (bits - 2) then None
           else base64_loop bs ((buf * 64 + v) mod 2 ^ (bits - 2)) (bits - 2) (out @ [char_of ((buf * 64 + v) div 2 ^ (bits - 2))]))
     else base64_loop bs (buf * 64 + v) (bits + 6) out)"
proof -
  have "bits + 6 - 8 = bits - 2" "8 \<le> bits + 6 \<longleftrightarrow> 2 \<le> bits" by auto
  then show ?thesis using sextet_position [OF assms] sextet_not_pad [OF assms] by (simp add: Let_def)
qed

declare base64_loop.simps(2) [simp del]

lemma digits_div_mod: "u < m \<Longrightarrow> (q * m + u) div m = (q :: nat) \<and> (q * m + u) mod m = u"
  by simp

lemma byte_parts:
  fixes a b c :: nat
  assumes "a < 256" "b < 256" "c < 256"
  shows "(a div 4 * 64 + (a mod 4 * 16 + b div 16)) div 16 = a" "(a div 4 * 64 + (a mod 4 * 16 + b div 16)) mod 16 = b div 16"
    "(b div 16 * 64 + (b mod 16 * 4 + c div 64)) div 4 = b" "(b div 16 * 64 + (b mod 16 * 4 + c div 64)) mod 4 = c div 64"
    "c div 64 * 64 + c mod 64 = c"
    "a div 4 < 64" "a mod 4 * 16 + b div 16 < 64" "b mod 16 * 4 + c div 64 < 64"
proof -
  note whole = div_mult_mod_eq [of a 4] div_mult_mod_eq [of b 16]
  have 1: "a div 4 * 64 + (a mod 4 * 16 + b div 16) = a * 16 + b div 16" using whole(1) by linarith
  have 2: "b div 16 * 64 + (b mod 16 * 4 + c div 64) = b * 4 + c div 64" using whole(2) by linarith
  have lt: "b div 16 < 16" "c div 64 < 4" "a div 4 < 64" using assms by (simp_all add: less_mult_imp_div_less)
  have md: "a mod 4 < 4" "b mod 16 < 16" by simp_all
  show "(a div 4 * 64 + (a mod 4 * 16 + b div 16)) div 16 = a" "(a div 4 * 64 + (a mod 4 * 16 + b div 16)) mod 16 = b div 16"
    unfolding 1 using digits_div_mod [OF lt(1), of a] by blast+
  show "(b div 16 * 64 + (b mod 16 * 4 + c div 64)) div 4 = b" "(b div 16 * 64 + (b mod 16 * 4 + c div 64)) mod 4 = c div 64"
    unfolding 2 using digits_div_mod [OF lt(2), of b] by blast+
  show "c div 64 * 64 + c mod 64 = c" by (rule div_mult_mod_eq)
  show "a div 4 < 64" by (rule lt)
  show "a mod 4 * 16 + b div 16 < 64" "b mod 16 * 4 + c div 64 < 64" using lt md by linarith+
qed

lemma byte_lt: "of_char a < (256 :: nat)" "\<not> 255 < (of_char a :: nat)"
  using nat_of_char_less_256 [of a] by linarith+

lemma base64_decode_encode_loop: "base64_loop (base64_encode bs) 0 0 out = Some (out @ bs)"
proof (induction bs arbitrary: out rule: base64_encode.induct)
  case 1
  then show ?case by simp
next
  case (2 a)
  note p = byte_parts [OF byte_lt(1) [of a], of 0 0, simplified]
  show ?case using byte_lt(1) [of a] by (simp add: base64_step p byte_lt(2)) (simp add: base64_loop.simps p)
next
  case (3 a b)
  note p = byte_parts [OF byte_lt(1) [of a] byte_lt(1) [of b], of 0, simplified]
  show ?case using byte_lt(1) [of a] byte_lt(1) [of b] by (simp add: base64_step p byte_lt(2)) (simp add: base64_loop.simps p)
next
  case (4 a b c r)
  note p = byte_parts [OF byte_lt(1) [of a] byte_lt(1) [of b] byte_lt(1) [of c]]
  show ?case using byte_lt(1) [of a] byte_lt(1) [of b] byte_lt(1) [of c] "4.IH" by (simp add: base64_step p byte_lt(2))
qed

definition token_char :: "char \<Rightarrow> bool" where
  "token_char c \<longleftrightarrow> visible c \<and> c \<noteq> CHR ''.'' \<and> c \<noteq> CHR '';''"

lemma sextet_visible: "v < 64 \<Longrightarrow> token_char (sextet v)"
proof -
  have "list_all token_char TABLE" by code_simp
  then show "v < 64 \<Longrightarrow> token_char (sextet v)" by (simp add: sextet_def list_all_length TABLE_facts)
qed

lemma base64_encode_chars: "list_all token_char (base64_encode bs)"
proof (induction bs rule: base64_encode.induct)
  case 1
  then show ?case by simp
next
  case (2 a)
  show ?case using byte_parts [OF byte_lt(1) [of a], of 0 0] by (simp add: sextet_visible) (simp add: token_char_def visible_def within_def byte_def)
next
  case (3 a b)
  show ?case using byte_parts [OF byte_lt(1) [of a] byte_lt(1) [of b], of 0]
    by (simp add: sextet_visible) (simp add: token_char_def visible_def within_def byte_def)
next
  case (4 a b c r)
  show ?case using byte_parts [OF byte_lt(1) [of a] byte_lt(1) [of b] byte_lt(1) [of c]] "4.IH" by (simp add: sextet_visible)
qed

lemma base64_encode_visible: "list_all visible (base64_encode bs)" "CHR ''.'' \<notin> set (base64_encode bs)"
  using base64_encode_chars [of bs] by (auto simp: token_char_def list_all_iff)

lemma from_utf8_text: "utf8_text s \<Longrightarrow> from_utf8 s = Some s"
  by (simp add: from_utf8_def utf8_lossy_id)

text \<open>
  Credentials of Basic authentication are read as the client wrote them: the user up to the first colon, everything
  after it as the password.
\<close>

theorem basic_credentials_read_back:
  assumes "client_authorization h = Some (''Basic '' @ base64_encode (user @ '':'' @ pass))"
    and "utf8_text (user @ '':'' @ pass)" "CHR '':'' \<notin> set user"
  shows "basic_credentials h = Some (user, pass)"
proof -
  let ?e = "base64_encode (user @ '':'' @ pass)"
  have "split_once (CHR '' '') (''Basic '' @ ?e) = Some (''Basic'', ?e)" by simp
  moreover have "base64_decode (trim_ws ?e) = Some (user @ '':'' @ pass)"
    using base64_decode_encode_loop [of "user @ '':'' @ pass" "[]"]
    by (simp add: trim_ws_all_visible [OF base64_encode_visible(1)] base64_decode_def)
  moreover have "eq_ignore_ascii_case ''Basic'' ''Basic''" by (simp add: eq_ignore_ascii_case_def)
  ultimately show ?thesis
    using assms split_once_append [OF assms(3), of pass] from_utf8_text [OF assms(2)] by (simp add: basic_credentials_def)
qed

theorem basic_credentials_read_back_witness:
  "basic_credentials [(''authorization'', Some ''Basic Z2l0OnM6M2NyZXQ='')] = Some (''git'', ''s:3cret'')"
proof (rule basic_credentials_read_back)
  have e: "''Basic '' @ base64_encode (''git'' @ '':'' @ ''s:3cret'') = ''Basic Z2l0OnM6M2NyZXQ=''" by code_simp
  show "client_authorization [(''authorization'', Some ''Basic Z2l0OnM6M2NyZXQ='')] = Some (''Basic '' @ base64_encode (''git'' @ '':'' @ ''s:3cret''))"
    unfolding e by code_simp
  show "utf8_text (''git'' @ '':'' @ ''s:3cret'')" by (rule ascii_text) code_simp
qed simp

section \<open>Tokens and sessions the server issues\<close>

text \<open>What is relied on of base64: it can be undone and writes visible characters, among them neither dot nor semicolon.\<close>

definition base64_ok :: "'k auth_env \<Rightarrow> bool" where
  "base64_ok E \<longleftrightarrow> (\<forall>x. ae_decode E (ae_encode E x) = Some x \<and> list_all token_char (ae_encode E x))"

lemma base64_ok_chars: "base64_ok E \<Longrightarrow> ae_decode E (ae_encode E x) = Some x \<and> CHR ''.'' \<notin> set (ae_encode E x)"
  by (auto simp: base64_ok_def list_all_iff token_char_def)

lemma verify_sign: "base64_ok E \<Longrightarrow> sign E A payload = Some v \<Longrightarrow> verify_signed E A v = Some payload"
  using base64_ok_chars [of E] by (auto simp: sign_def verify_signed_def)

lemma digits_no_newline: "CHR 0x0A \<notin> set (dec n)"
  using dec_digits [of n] by auto

lemma dec_utf8: "utf8_text (dec n)"
proof -
  have "list_all (within 0 127) (''0123456789'')" by code_simp
  then show ?thesis using dec_digits [of n] by (intro ascii_text) (auto simp: ascii_def list_all_iff)
qed

text \<open>A minted value is accepted for its kind until it expires, and never afterwards.\<close>

lemma claims_of_mint:
  assumes "base64_ok E" "ae_unix_now E = Some now" "now + ttl < 2 ^ 64" "mint E A email ttl knd = Some v"
    "utf8_text knd" "utf8_text email" "CHR 0x0A \<notin> set knd"
  shows "claims_of (E\<lparr>ae_unix_now := Some t\<rparr>) A v knd = (if t < now + ttl then Some (now + ttl, now, email) else None)"
proof -
  let ?p = "knd @ nl @ dec (now + ttl) @ nl @ dec now @ nl @ email"
  have s: "sign E A ?p = Some v" using assms(2-4) by (simp add: mint_def)
  have v: "verify_signed (E\<lparr>ae_unix_now := Some t\<rparr>) A v = Some ?p"
    using verify_sign [OF assms(1) s] by (simp add: verify_signed_def)
  have nl: "utf8_text nl" unfolding nl_def by (rule ascii_text) code_simp
  have u: "from_utf8 ?p = Some ?p"
    by (intro from_utf8_text utf8_append dec_utf8 nl assms(5,6))
  show ?thesis using v u assms(3,7) digits_no_newline
    by (simp add: claims_of_def nl_def split_once_append)
qed

lemma authenticate_opaque:
  assumes "au_mode A = AuthOidc" "presented h tok" "opaque_token_principal E A tok = Some r" "forwarded_name h = None"
  shows "authenticate E A h ks = (r, ks)"
proof -
  have "authenticate_inner E A h ks = (r, ks)"
    using assms by (auto simp: presented_def authenticate_inner_def or_invalid_def)
  then show ?thesis using assms(4) by (cases r) (simp_all add: authenticate_def apply_forwarding_def)
qed

text \<open>
  C25. An access token the server issued is accepted from any client that presents it, as the principal it was issued to,
  until the second it expires; from then on it is refused.
\<close>

theorem issued_token_lives_until_expiry:
  assumes "base64_ok E" "ae_unix_now E = Some now" "now + au_access_token_ttl A < 2 ^ 64"
    and "access_token E A email = Some tok" "utf8_text email" "tok \<notin> st_token ` set (au_tokens A)"
    and "presented h tok" "forwarded_name h = None"
  shows "fst (authenticate (E\<lparr>ae_unix_now := Some t\<rparr>) A h ks) =
    (if t < now + au_access_token_ttl A then principal_for_email A email else Err Invalid)"
proof -
  let ?E = "E\<lparr>ae_unix_now := Some t\<rparr>"
  from assms(4) obtain v where mode: "au_mode A = AuthOidc" and v: "mint E A email (au_access_token_ttl A) ''token'' = Some v"
    and tok: "tok = ACCESS_TOKEN_PREFIX @ v"
    by (auto simp: access_token_def issued_tokens_enabled_def split: if_splits)
  have c: "claims_of ?E A v ''token'' = (if t < now + au_access_token_ttl A then Some (now + au_access_token_ttl A, now, email) else None)"
    by (rule claims_of_mint [OF assms(1-3) v _ assms(5)]) (rule ascii_text, code_simp, simp)
  have "find (\<lambda>s. st_token s = tok) (au_tokens A) = None"
    using assms(6) by (auto simp: find_None_iff)
  then have o: "opaque_token_principal ?E A tok =
      Some (if t < now + au_access_token_ttl A then principal_for_email A email else Err Invalid)"
    using c by (auto simp: opaque_token_principal_def access_token_claims_def tok starts_with_def)
  show ?thesis using authenticate_opaque [OF mode assms(7) o assms(8)] by simp
qed

section \<open>A small server\<close>

definition demo_env :: "nat \<Rightarrow> string auth_env" where
  "demo_env now =
     \<lparr>ae_hmac = (\<lambda>s p. rev s @ p), ae_encode = base64_encode, ae_decode = base64_decode, ae_unix_now = Some now, ae_instant = now,
      ae_env_var = (\<lambda>_. None), ae_rsa_key = (\<lambda>n e. Some (n @ e)), ae_ec_key = (\<lambda>x y. Some (x @ y)),
      ae_fetch = (\<lambda>_. Ok \<lparr>jw_keys = [Rsa ''k1'' ''n'' ''e''], jw_max_age = 60\<rparr>),
      ae_jwt_header = (\<lambda>t. if t = ''jwt'' then Some (RS256, Some ''k1'') else None),
      ae_claims = (\<lambda>t k _ _ _ _. if t = ''jwt'' \<and> k = ''ne'' then Some \<lparr>cl_email = ''a@x.org'', cl_email_verified = True\<rparr> else None)\<rparr>"

definition demo_config :: "auth_mode \<Rightarrow> auth_config" where
  "demo_config m =
     \<lparr>ac_mode = m, ac_anonymous_read = True,
      ac_tokens = [\<lparr>st_principal = ''ci'', st_token = ''s3'', st_token_env = None, st_write = True, st_admin = False\<rparr>],
      ac_issuer = ''https://idp/'', ac_allowed_domains = [''X.org''], ac_allowed_emails = [], ac_audiences = [''cli''],
      ac_write_domains = None, ac_trusted_forwarders = [''CI''], ac_admin_emails = [''root@x.org''], ac_admin_domains = [],
      ac_session_secret = Some ''key'', ac_session_ttl = 400, ac_access_token_ttl = 1000,
      ac_oauth_client_id = Some ''web'', ac_oauth_client_secret = Some ''w''\<rparr>"

definition demo_auth :: "auth_mode \<Rightarrow> authenticator" where
  "demo_auth m = auth_build (demo_env 0) (demo_config m)"

lemma demo_base64_ok: "base64_ok (demo_env n)"
  using base64_decode_encode_loop [of _ "[]"] base64_encode_chars
  by (simp add: base64_ok_def demo_env_def base64_decode_def)

definition forwarding_headers :: header_map where
  "forwarding_headers = [(''authorization'', Some ''Bearer s3''), (''x-walgit-principal'', Some ''root@x.org'')]"

theorem writes_need_credentials_witness:
  "\<exists>caller. backed (demo_env 5) (demo_auth AuthOidc) forwarding_headers caller \<and> pr_write caller \<and>
     trusted_forwarder (demo_auth AuthOidc) caller"
proof -
  let ?p = "\<lparr>pr_name = ''root@x.org'', pr_write = True, pr_admin = True, pr_anonymous = False\<rparr>"
  have m: "au_mode (demo_auth AuthOidc) \<noteq> AuthNone" by code_simp
  have r: "fst (require_write (demo_env 5) (demo_auth AuthOidc) forwarding_headers key_set_new) = Ok ?p" by code_simp
  from writes_need_credentials [OF m keys_start r] obtain caller where c: "backed (demo_env 5) (demo_auth AuthOidc) forwarding_headers caller"
    "pr_write caller" "?p = caller \<or> trusted_forwarder (demo_auth AuthOidc) caller" by auto
  have "\<not> backed (demo_env 5) (demo_auth AuthOidc) forwarding_headers ?p"
  proof
    assume "backed (demo_env 5) (demo_auth AuthOidc) forwarding_headers ?p"
    moreover have b: "bearer_token forwarding_headers = Some ''s3''" "cookie_value forwarding_headers SESSION_COOKIE = None"
      "ae_jwt_header (demo_env 5) ''s3'' = None" by code_simp+
    ultimately show False
      by (cases rule: backed.cases)
        (auto simp: presented_def b ACCESS_TOKEN_PREFIX_def token_principal_def demo_auth_def auth_build_def Let_def
          demo_config_def resolve_tokens_def)
  qed
  then show ?thesis using c by blast
qed

definition demo_token :: string where
  "demo_token = ''wgt_dG9rZW4KMTA1MAo1MAphQHgub3Jn.eWVrdG9rZW4KMTA1MAo1MAphQHgub3Jn''"

lemma demo_token_issued: "access_token (demo_env 50) (demo_auth AuthOidc) ''a@x.org'' = Some demo_token"
  by code_simp

theorem issued_token_lives_until_expiry_witness:
  "\<exists>tok. access_token (demo_env 50) (demo_auth AuthOidc) ''a@x.org'' = Some tok \<and>
     fst (authenticate (demo_env 50\<lparr>ae_unix_now := Some 1049\<rparr>) (demo_auth AuthOidc) [(''authorization'', Some (''bearer '' @ tok))] key_set_new) =
       Ok (email_principal (demo_auth AuthOidc) ''a@x.org'') \<and>
     fst (authenticate (demo_env 50\<lparr>ae_unix_now := Some 1050\<rparr>) (demo_auth AuthOidc) [(''authorization'', Some (''bearer '' @ tok))] key_set_new) =
       Err Invalid"
proof -
  let ?tok = demo_token and ?h = "[(''authorization'', Some (''bearer '' @ demo_token))]"
  note t = demo_token_issued
  have n: "ae_unix_now (demo_env 50) = Some 50" "50 + au_access_token_ttl (demo_auth AuthOidc) < 2 ^ 64"
    "au_access_token_ttl (demo_auth AuthOidc) = 1000" by code_simp+
  have u: "utf8_text ''a@x.org''" by (rule ascii_text) code_simp
  have s: "?tok \<notin> st_token ` set (au_tokens (demo_auth AuthOidc))" by code_simp
  have b: "bearer_token ?h = Some ?tok" by code_simp
  then have p: "presented ?h ?tok" by (simp add: presented_def)
  have f: "forwarded_name ?h = None" by code_simp
  have e: "principal_for_email (demo_auth AuthOidc) ''a@x.org'' = Ok (email_principal (demo_auth AuthOidc) ''a@x.org'')" by code_simp
  note L = issued_token_lives_until_expiry [OF demo_base64_ok n(1,2) t u s p f]
  show ?thesis using L [of 1049 key_set_new] L [of 1050 key_set_new] t e n(3) by (intro exI [of _ ?tok]) simp
qed

text \<open>
  A token issued while the server ran with OpenID Connect is accepted in tokens mode too, where none can be issued.
\<close>

theorem issued_token_works_in_token_mode:
  "\<not> issued_tokens_enabled (demo_auth AuthToken) \<and>
   fst (require_write (demo_env 60) (demo_auth AuthToken)
     [(''authorization'', Some (''Bearer '' @ the (access_token (demo_env 50) (demo_auth AuthOidc) ''a@x.org'')))] key_set_new) =
     Ok (email_principal (demo_auth AuthToken) ''a@x.org'')"
  unfolding demo_token_issued option.sel by code_simp

end
