(* ===== verification/Login.thy ===== *)
theory Login
  imports Auth
begin

text \<open>
  Browser sign-in, \<^verbatim>\<open>crates/walgit-server/src/web/login.rs\<close>: the redirect to the issuer, the callback that sets the session
  cookie, the hop between host names of a local server, the sliding session and the minting of access tokens.  The
  answers of the issuer and the random nonce are arguments; \<open>si_header_ok\<close> says which texts the HTTP library admits as
  header values.  A handler whose result is \<open>None\<close> has panicked.
\<close>

section \<open>Addresses\<close>

record site =
  si_public_url :: "string option"
  si_tls :: bool
  si_listen_url :: string
  si_listen_port :: nat
  si_cors_origins :: "string list"
  si_allowed_domains :: "string list"
  si_header_ok :: "string \<Rightarrow> bool"

definition site_base :: "site \<Rightarrow> header_map \<Rightarrow> string" where
  "site_base S h = request_base_url (si_public_url S) (si_tls S) (si_listen_url S) h"

definition safe_next :: "string option \<Rightarrow> string" where
  "safe_next nx =
     (case nx of Some n \<Rightarrow> if starts_with n ''/'' \<and> \<not> starts_with n ''//'' then n else ''/'' | None \<Rightarrow> ''/'')"

definition request_port :: "site \<Rightarrow> header_map \<Rightarrow> nat" where
  "request_port S h =
     (case Option.bind (header_get h ''host'') (\<lambda>v. Option.bind (rsplit_once (CHR '':'') v) (\<lambda>(_, p). parse_unsigned (2 ^ 16) p)) of
        Some p \<Rightarrow> p | None \<Rightarrow> si_listen_port S)"

text \<open>The text after the first \<open>://\<close> up to the next one, \<open>split("://").nth(1)\<close>.\<close>

fun until_scheme_sep :: "string \<Rightarrow> string" where
  "until_scheme_sep [] = []"
| "until_scheme_sep (c # s) = (if starts_with (c # s) ''://'' then [] else c # until_scheme_sep s)"

fun after_scheme :: "string \<Rightarrow> string option" where
  "after_scheme [] = None"
| "after_scheme (c # s) = (if starts_with (c # s) ''://'' then Some (until_scheme_sep (drop 2 s)) else after_scheme s)"

definition base_host :: "string \<Rightarrow> string" where
  "base_host base' = (case after_scheme base' of Some r \<Rightarrow> r | None \<Rightarrow> base')"

definition loopback_origin :: "site \<Rightarrow> header_map \<Rightarrow> bool" where
  "loopback_origin S h =
     (let first = takeWhile (\<lambda>c. c \<noteq> CHR ''/'') (base_host (site_base S h));
          host = (case rsplit_once (CHR '':'') first of Some (a, _) \<Rightarrow> a | None \<Rightarrow> first)
      in host \<in> set [''walgit.localhost'', ''localhost'', ''127.0.0.1'', ''[::1]''])"

definition scheme_of :: "site \<Rightarrow> string" where
  "scheme_of S = (if si_tls S then ''https'' else ''http'')"

definition local_origin :: "string \<Rightarrow> site \<Rightarrow> header_map \<Rightarrow> string" where
  "local_origin host S h =
     (let port = request_port S h
      in if (port = 443 \<and> scheme_of S = ''https'') \<or> (port = 80 \<and> scheme_of S = ''http'')
         then scheme_of S @ ''://'' @ host
         else scheme_of S @ ''://'' @ host @ '':'' @ dec port)"

definition redirect_uri :: "site \<Rightarrow> header_map \<Rightarrow> string" where
  "redirect_uri S h =
     (if \<not> loopback_origin S h then site_base S h @ ''/_auth/callback''
      else local_origin ''localhost'' S h @ ''/_auth/callback'')"

definition walgit_origin :: "site \<Rightarrow> header_map \<Rightarrow> string" where
  "walgit_origin S h = local_origin ''walgit.localhost'' S h"

definition login_now :: "'k auth_env \<Rightarrow> nat" where
  "login_now E = (case ae_unix_now E of Some n \<Rightarrow> n | None \<Rightarrow> 0)"

definition url_plain :: "char \<Rightarrow> bool" where
  "url_plain c \<longleftrightarrow> is_ascii_alphanumeric c \<or> c \<in> set ''-_.~''"

definition urlencode :: "string \<Rightarrow> string" where
  "urlencode s =
     concat (map (\<lambda>c. if url_plain c then [c] else [CHR ''%'', hex_upper (of_char c div 16), hex_upper (of_char c)]) s)"

fun lower_hex :: "nat \<Rightarrow> string" where
  "lower_hex n = (if n < 16 then [''0123456789abcdef'' ! n] else lower_hex (n div 16) @ [''0123456789abcdef'' ! (n mod 16)])"

declare lower_hex.simps [simp del]

definition redirect_to :: "site \<Rightarrow> string \<Rightarrow> 'a response" where
  "redirect_to S uri =
     (if si_header_ok S uri then set_header ''location'' uri (plain 303 NoBody) else plain 500 (Text ''failed to parse header value''))"

definition no_store :: "'a response \<Rightarrow> 'a response" where
  "no_store r = set_header ''cache-control'' ''no-store'' r"

section \<open>The session cookie\<close>

definition cookie_site :: "site \<Rightarrow> bool \<Rightarrow> string" where
  "cookie_site S secure =
     (if si_cors_origins S \<noteq> [] \<and> secure then ''SameSite=None; Secure''
      else if secure then ''SameSite=Lax; Secure'' else ''SameSite=Lax'')"

definition session_set_cookie :: "site \<Rightarrow> authenticator \<Rightarrow> header_map \<Rightarrow> string \<Rightarrow> string" where
  "session_set_cookie S A h value =
     SESSION_COOKIE @ ''='' @ value @ ''; Path=/; Max-Age='' @ dec (au_session_ttl A) @ ''; HttpOnly; '' @
     cookie_site S (starts_with (site_base S h) ''https://'')"

definition with_cookie :: "site \<Rightarrow> string \<Rightarrow> 'a response \<Rightarrow> 'a response option" where
  "with_cookie S cookie r = (if si_header_ok S cookie then Some (set_header ''set-cookie'' cookie r) else None)"

section \<open>Signing in\<close>

definition STATE_TTL_SECS :: nat where
  "STATE_TTL_SECS = 600"

record discovery =
  di_authorization_endpoint :: string
  di_token_endpoint :: string

definition state_payload :: "nat \<Rightarrow> nat \<Rightarrow> string \<Rightarrow> string" where
  "state_payload expires nonce nx = dec expires @ nl @ lower_hex nonce @ nl @ nx"

definition not_configured :: string where
  "not_configured =
     ''not signed in: browser sign-in is not configured on this server (server.auth.mode = '' @ quoted ''oidc'' @
     '' with oauth_client_id/oauth_client_secret/session_secret). API and git clients authenticate with '' @
     ''`Authorization: Bearer <token>`.''"

definition login :: "'k auth_env \<Rightarrow> authenticator \<Rightarrow> site \<Rightarrow> discovery option \<Rightarrow> nat \<Rightarrow> header_map \<Rightarrow> string option \<Rightarrow> 'a response" where
  "login E A S disco nonce h nx0 =
     (if \<not> browser_login_enabled A then plain 401 (Text not_configured)
      else case disco of
             None \<Rightarrow> plain 503 (Text ''identity provider unavailable (OIDC discovery failed)'')
           | Some d \<Rightarrow>
               (case oauth_client A of
                  None \<Rightarrow> plain 501 (Text ''browser sign-in not configured'')
                | Some (client_id, _) \<Rightarrow>
                    (case sign E A (state_payload ((login_now E + STATE_TTL_SECS) mod 2 ^ 64) nonce (safe_next nx0)) of
                       None \<Rightarrow> plain 501 (Text ''session secret missing'')
                     | Some state \<Rightarrow>
                         no_store (redirect_to S
                           (di_authorization_endpoint d @ (if CHR ''?'' \<in> set (di_authorization_endpoint d) then ''&'' else ''?'') @
                            ''client_id='' @ urlencode client_id @ ''&redirect_uri='' @ urlencode (redirect_uri S h) @
                            ''&response_type=code&scope='' @ urlencode ''openid email'' @ ''&state='' @ urlencode state @
                            ''&prompt=select_account'' @
                            (case si_allowed_domains S of d1 # _ \<Rightarrow> ''&hd='' @ urlencode d1 | [] \<Rightarrow> []))))))"

text \<open>\<open>splitn(3, '\n')\<close> of a signed payload: the expiry, the second line and the rest.\<close>

definition signed_parts :: "string \<Rightarrow> nat \<times> string option \<times> string option" where
  "signed_parts raw =
     (let payload = utf8_lossy raw
      in case split_once (CHR 0x0A) payload of
           None \<Rightarrow> (case parse_unsigned (2 ^ 64) payload of Some e \<Rightarrow> e | None \<Rightarrow> 0, None, None)
         | Some (a, r) \<Rightarrow>
             (let e = (case parse_unsigned (2 ^ 64) a of Some e \<Rightarrow> e | None \<Rightarrow> 0)
              in case split_once (CHR 0x0A) r of None \<Rightarrow> (e, Some r, None) | Some (b, c) \<Rightarrow> (e, Some b, Some c)))"

datatype 'r post_outcome = Answered 'r | NotHeard | Failed

text \<open>The code is posted once more when the first attempt was not heard.\<close>

definition exchange_code :: "(nat \<Rightarrow> 'r post_outcome) \<Rightarrow> 'r option" where
  "exchange_code post =
     (case post 1 of
        Answered r \<Rightarrow> Some r
      | NotHeard \<Rightarrow> (case post 2 of Answered r \<Rightarrow> Some r | _ \<Rightarrow> None)
      | Failed \<Rightarrow> None)"

record token_response =
  tr_id_token :: "string option"
  tr_error :: "string option"

definition signed_in ::
  "'k auth_env \<Rightarrow> authenticator \<Rightarrow> site \<Rightarrow> header_map \<Rightarrow> string \<Rightarrow> string \<Rightarrow> 'a response option" where
  "signed_in E A S h nm nx =
     (case session_cookie_value E A nm of
        None \<Rightarrow> Some (plain 501 (Text ''session secret missing''))
      | Some value \<Rightarrow>
          (let dest =
             (if \<not> loopback_origin S h then nx
              else case sign E A (dec ((login_now E + 60) mod 2 ^ 64) @ nl @ value @ nl @ nx) of
                     Some ticket \<Rightarrow> walgit_origin S h @ ''/_auth/claimed?ticket='' @ urlencode ticket @ ''&next='' @ urlencode nx
                   | None \<Rightarrow> nx)
           in map_option no_store (with_cookie S (session_set_cookie S A h value) (redirect_to S dest))))"

definition callback ::
  "'k auth_env \<Rightarrow> authenticator \<Rightarrow> site \<Rightarrow> discovery option \<Rightarrow> (nat \<Rightarrow> token_response option post_outcome) \<Rightarrow> header_map
     \<Rightarrow> string option \<Rightarrow> string option \<Rightarrow> string option \<Rightarrow> 'k key_set \<Rightarrow> 'a response option \<times> 'k key_set" where
  "callback E A S disco post h q_error q_code q_state ks =
     (case q_error of
        Some e \<Rightarrow> (Some (plain 401 (Text (''sign-in failed: '' @ e))), ks)
      | None \<Rightarrow>
          (case (q_code, q_state) of
             (Some code, Some state) \<Rightarrow>
               (case verify_signed E A state of
                  None \<Rightarrow> (Some (plain 400 (Text ''invalid state'')), ks)
                | Some raw \<Rightarrow>
                    (let (expires, _, nx0) = signed_parts raw; nx = safe_next nx0
                     in if expires < login_now E then (Some (plain 400 (Text ''sign-in expired; try again'')), ks)
                        else if oauth_client A = None then (Some (plain 501 (Text ''browser sign-in not configured'')), ks)
                        else if disco = None then (Some (plain 503 (Text ''identity provider unavailable'')), ks)
                        else (case exchange_code post of
                                None \<Rightarrow> (Some (plain 502 (Text ''token exchange failed'')), ks)
                              | Some None \<Rightarrow> (Some (plain 502 (Text ''token exchange failed'')), ks)
                              | Some (Some tok) \<Rightarrow>
                                  (case tr_id_token tok of
                                     None \<Rightarrow> (Some (plain 401 (Text (''sign-in failed: '' @
                                       (case tr_error tok of Some e \<Rightarrow> e | None \<Rightarrow> [])))), ks)
                                   | Some id_token \<Rightarrow>
                                       (case verify_login_id_token E A id_token ks of
                                          (Inl Forbidden, ks') \<Rightarrow>
                                            (Some (plain 403 (Text ''your account is not in an allowed domain'')), ks')
                                        | (Inl _, ks') \<Rightarrow> (Some (plain 401 (Text ''sign-in failed: token rejected'')), ks')
                                        | (Inr p, ks') \<Rightarrow> (signed_in E A S h (pr_name p) nx, ks'))))))
           | _ \<Rightarrow> (Some (plain 400 (Text ''missing code/state'')), ks)))"

definition claimed ::
  "'k auth_env \<Rightarrow> authenticator \<Rightarrow> site \<Rightarrow> header_map \<Rightarrow> string option \<Rightarrow> string option \<Rightarrow> 'a response option" where
  "claimed E A S h q_ticket q_next =
     (let nx = safe_next q_next
      in case Option.bind q_ticket (verify_signed E A) of
           None \<Rightarrow> Some (redirect_to S nx)
         | Some raw \<Rightarrow>
             (let (expires, second, _) = signed_parts raw; value = (case second of Some v \<Rightarrow> v | None \<Rightarrow> [])
              in if expires < login_now E \<or> value = [] then Some (redirect_to S nx)
                 else map_option no_store (with_cookie S (session_set_cookie S A h value) (redirect_to S nx))))"

definition logout :: "site \<Rightarrow> header_map \<Rightarrow> 'a response option" where
  "logout S h =
     with_cookie S (SESSION_COOKIE @ ''=; Path=/; Max-Age=0; HttpOnly; '' @ cookie_site S (starts_with (site_base S h) ''https://''))
       (redirect_to S ''/'')"

section \<open>Sessions in use\<close>

definition auth_check ::
  "'k auth_env \<Rightarrow> authenticator \<Rightarrow> site \<Rightarrow> header_map \<Rightarrow> 'k key_set \<Rightarrow> 'a response \<times> 'k key_set" where
  "auth_check E A S h ks =
     (case require_read E A h ks of
        (Inr p, ks') \<Rightarrow>
          (let r0 = plain 204 NoBody;
               r1 = (if si_header_ok S (pr_name p) then set_header ''x-walgit-principal'' (pr_name p) r0 else r0)
           in (set_header ''cache-control'' ''private, max-age=300''
                 (set_header ''x-walgit-write'' (if pr_write p then ''1'' else ''0'') r1), ks'))
      | (Inl Forbidden, ks') \<Rightarrow> (into_response ApiForbidden, ks')
      | (Inl Unavailable, ks') \<Rightarrow> (into_response (ApiServiceUnavailable ''auth provider unavailable''), ks')
      | (Inl _, ks') \<Rightarrow> (into_response ApiUnauthorized, ks'))"

text \<open>The middleware around every response; \<open>append\<close> adds the header beside others of its name.\<close>

definition refresh_session ::
  "'k auth_env \<Rightarrow> authenticator \<Rightarrow> site \<Rightarrow> string \<Rightarrow> header_map \<Rightarrow> 'a response \<Rightarrow> 'a response" where
  "refresh_session E A S path h resp =
     (case (if starts_with path ''/_auth/'' then None else session_refresh_value E A h) of
        None \<Rightarrow> resp
      | Some v \<Rightarrow>
          (let c = session_set_cookie S A h v
           in if 200 \<le> rs_status resp \<and> rs_status resp < 400 \<and> si_header_ok S c
              then resp\<lparr>rs_headers := rs_headers resp @ [(''set-cookie'', c)]\<rparr> else resp))"

text \<open>Who is signed in: the name and whether it may write, sent as an uncached JSON object.\<close>

definition me ::
  "'k auth_env \<Rightarrow> authenticator \<Rightarrow> header_map \<Rightarrow> 'k key_set \<Rightarrow> (api_error, string \<times> bool) result \<times> 'k key_set" where
  "me E A h ks =
     (case authenticate E A h ks of
        (Inr p, ks') \<Rightarrow> (if pr_anonymous p then Err ApiUnauthorized else Ok (pr_name p, pr_write p), ks')
      | (Inl _, ks') \<Rightarrow> (Err ApiUnauthorized, ks'))"

datatype minted =
    MintOff
  | MintRefused api_error
  | Minted string string bool nat

definition mint_token ::
  "'k auth_env \<Rightarrow> authenticator \<Rightarrow> header_map \<Rightarrow> 'k key_set \<Rightarrow> minted \<times> 'k key_set" where
  "mint_token E A h ks =
     (if \<not> issued_tokens_enabled A then (MintOff, ks)
      else if (case header_get h ''sec-fetch-site'' of Some v \<Rightarrow> v \<noteq> ''same-origin'' \<and> v \<noteq> ''none'' | None \<Rightarrow> False)
      then (MintRefused ApiForbidden, ks)
      else (case authenticate E A h ks of
              (Inr p, ks') \<Rightarrow>
                (if pr_anonymous p then (MintRefused ApiUnauthorized, ks')
                 else (case access_token E A (pr_name p) of
                         None \<Rightarrow> (MintOff, ks')
                       | Some tok \<Rightarrow>
                           (Minted tok (pr_name p) (pr_write p)
                              (case access_token_claims E A tok of Some (expires, _) \<Rightarrow> expires | None \<Rightarrow> 0), ks')))
            | (Inl _, ks') \<Rightarrow> (MintRefused ApiUnauthorized, ks')))"

section \<open>Values signed for one purpose\<close>

text \<open>
  The secret signs four kinds of text: sessions, access tokens, the state of a sign-in and the ticket of the hop.  The
  first line tells the first two apart from the others, which begin with a number.
\<close>

lemma first_line: "split_once (CHR 0x0A) (dec n @ nl @ r) = Some (dec n, r)"
  by (simp add: nl_def split_once_append digits_no_newline)

lemma number_is_no_kind: "dec n \<noteq> ''session''" "dec n \<noteq> ''token''"
proof -
  have "list_all is_digit (dec n)" by (rule dec_is_digits)
  then show "dec n \<noteq> ''session''" "dec n \<noteq> ''token''" by (auto simp: is_digit_def)
qed

lemma numbered_not_claimed:
  assumes "base64_ok E" "sign E A (dec n @ nl @ r) = Some v" "knd = ''session'' \<or> knd = ''token''"
  shows "claims_of E A v knd = None"
  using verify_sign [OF assms(1,2)] assms(3) number_is_no_kind [of n]
  by (auto simp: claims_of_def from_utf8_def first_line)

lemma ascii_lossy_first:
  assumes "ascii a" "CHR 0x0A \<notin> set a"
  shows "\<exists>r'. split_once (CHR 0x0A) (utf8_lossy (a @ nl @ r)) = Some (a, r')"
proof -
  have u: "utf8_width c = 1 \<Longrightarrow> utf8_lossy (c # s) = c # utf8_lossy s" for c s
    using utf8_lossy_char [of "[c]" s] by (simp add: utf8_char_def)
  have b: "ascii b \<Longrightarrow> utf8_lossy (b @ s) = b @ utf8_lossy s" for b s
    by (induction b) (simp_all add: ascii_def u ascii_width)
  have "ascii nl" by code_simp
  then have "utf8_lossy (a @ nl @ r) = a @ CHR 0x0A # utf8_lossy r" using b [OF assms(1)] b [of nl r] by (simp add: nl_def)
  then show ?thesis using assms(2) by (simp add: split_once_append)
qed

lemma kind_no_expiry:
  assumes "knd = ''session'' \<or> knd = ''token''"
  shows "fst (signed_parts (knd @ nl @ r)) = 0"
proof -
  have k: "ascii knd" "CHR 0x0A \<notin> set knd" "parse_unsigned (2 ^ 64) knd = None" using assms by (elim disjE; clarify; code_simp)+
  from ascii_lossy_first [OF k(1,2)] obtain r' where "split_once (CHR 0x0A) (utf8_lossy (knd @ nl @ r)) = Some (knd, r')" by blast
  then show ?thesis using k(3) by (simp add: signed_parts_def Let_def split: option.splits)
qed

text \<open>
  C9. What the server signs for one purpose is refused for the others: the state of a sign-in is neither a session nor an
  access token, neither of these stands for the other, and both are refused as state of a sign-in and as ticket.
\<close>

theorem signed_values_kept_apart:
  assumes "base64_ok E" "0 < login_now E"
    and "knd = ''session'' \<and> other = ''token'' \<or> knd = ''token'' \<and> other = ''session''"
    and "sign E A (state_payload n nonce nx) = Some state" "mint E A email ttl knd = Some v"
  shows "claims_of E A state knd = None \<and> claims_of E A v other = None \<and>
    callback E A S disco post h None (Some code) (Some v) ks = (Some (plain 400 (Text ''sign-in expired; try again'')), ks) \<and>
    claimed E A S h (Some v) q_next = Some (redirect_to S (safe_next q_next))"
proof -
  have k: "knd = ''session'' \<or> knd = ''token''" "knd \<noteq> other" "CHR 0x0A \<notin> set knd" using assms(3) by auto
  from assms(5) obtain r where r: "sign E A (knd @ nl @ r) = Some v" by (auto simp: mint_def Option.bind_eq_Some_conv)
  note V = verify_sign [OF assms(1) r]
  have parts: "\<exists>x. signed_parts (knd @ nl @ r) = (0, x)" using kind_no_expiry [OF k(1), of r] by (metis prod.collapse)
  have "claims_of E A v other = None"
    using V k(2,3) by (auto simp: claims_of_def from_utf8_def nl_def split_once_append)
  moreover have "claims_of E A state knd = None"
    using numbered_not_claimed [OF assms(1) assms(4) [unfolded state_payload_def] k(1)] .
  ultimately show ?thesis using V parts assms(2) by (auto simp: callback_def claimed_def)
qed

section \<open>From the sign-in page to a session\<close>

definition session_header :: "string \<Rightarrow> header_map" where
  "session_header v = [(''cookie'', Some (SESSION_COOKIE @ ''='' @ v))]"

lemma session_header_cookie:
  assumes "list_all (\<lambda>c. visible c \<and> c \<noteq> CHR '';'') v" "v \<noteq> []"
  shows "cookie_value (session_header v) SESSION_COOKIE = Some v"
proof -
  let ?t = "SESSION_COOKIE @ ''='' @ v"
  have no: "CHR '';'' \<notin> set s \<Longrightarrow> split_on (\<lambda>c. c = CHR '';'') s = [s]" for s
    by (induction s) (auto simp: split_on_Cons)
  have "CHR '';'' \<notin> set ?t" using assms(1) by (auto simp: SESSION_COOKIE_def list_all_iff)
  moreover have "trim_ws ?t = ?t"
    using assms by (intro trim_ws_visible) (auto simp: SESSION_COOKIE_def list_all_iff visible_def within_def byte_def)
  moreover have "strip_prefix ''='' (CHR ''='' # v) = Some v" using strip_prefix_append [of "''=''" v] by simp
  ultimately show ?thesis
    by (simp add: cookie_value_def session_header_def header_all_def no cookie_part_def)
qed

lemma session_header_only_cookie:
  "bearer_token (session_header v) = None" "basic_credentials (session_header v) = None" "forwarded_name (session_header v) = None"
  by (simp_all add: session_header_def bearer_token_def basic_credentials_def forwarded_name_def client_authorization_def
      header_get_def edge_owns_authorization_def header_all_def CAPABILITIES_HEADER_def)

lemma signed_value_chars:
  assumes "base64_ok E" "sign E A p = Some v"
  shows "list_all (\<lambda>c. visible c \<and> c \<noteq> CHR '';'') v \<and> v \<noteq> []"
proof -
  from assms(2) obtain secret where v: "v = ae_encode E p @ ''.'' @ ae_encode E (ae_hmac E secret p)"
    by (auto simp: sign_def)
  have "list_all token_char (ae_encode E x)" for x using assms(1) by (simp add: base64_ok_def)
  then have "list_all (\<lambda>c. visible c \<and> c \<noteq> CHR '';'') (ae_encode E x)" for x
    by (simp add: token_char_def list_all_iff)
  moreover have "visible (CHR ''.'')" by code_simp
  ultimately show ?thesis unfolding v by simp
qed

lemma session_accepted:
  assumes "base64_ok E" "au_mode A = AuthOidc" "ae_unix_now E = Some now" "now + au_session_ttl A < 2 ^ 64"
    "session_cookie_value E A email = Some v" "utf8_text email" "t < now + au_session_ttl A"
  shows "fst (authenticate (E\<lparr>ae_unix_now := Some t\<rparr>) A (session_header v) ks) =
    (case principal_for_email A email of Inr p \<Rightarrow> Ok p | Inl _ \<Rightarrow> Err Unauthorized)"
proof -
  from assms(3,5) obtain p where "sign E A p = Some v" by (auto simp: session_cookie_value_def mint_def)
  note chars = signed_value_chars [OF assms(1) this]
  have "utf8_text ''session''" by (rule ascii_text) code_simp
  then have "claims_of (E\<lparr>ae_unix_now := Some t\<rparr>) A v ''session'' = Some (now + au_session_ttl A, now, email)"
    using claims_of_mint [OF assms(1,3,4) assms(5) [unfolded session_cookie_value_def]] assms(6,7) by simp
  then show ?thesis
    using session_header_cookie [of v] chars session_header_only_cookie [of v] assms(2)
    by (simp add: authenticate_def authenticate_inner_def authenticate_cookie_def session_claims_def apply_forwarding_def
        split: sum.splits)
qed

lemma state_reads_back:
  assumes "utf8_text nx" "e < 2 ^ 64"
  shows "signed_parts (state_payload e nonce nx) = (e, Some (lower_hex nonce), Some nx)"
proof -
  have hex: "ascii (lower_hex m) \<and> CHR 0x0A \<notin> set (lower_hex m)" for m
  proof (induction m rule: lower_hex.induct)
    case (1 m)
    have d: "list_all (\<lambda>c. within 0 127 c \<and> c \<noteq> CHR 0x0A) ''0123456789abcdef''" by code_simp
    have "length ''0123456789abcdef'' = 16" by simp
    then have g: "k < 16 \<Longrightarrow> within 0 127 (''0123456789abcdef'' ! k) \<and> CHR 0x0A \<noteq> ''0123456789abcdef'' ! k" for k
      using d unfolding list_all_length by metis
    show ?case
    proof (cases "m < 16")
      case True
      then show ?thesis using g [of m] by (subst (1 2) lower_hex.simps) (simp add: ascii_def)
    next
      case False
      then show ?thesis using 1 g [of "m mod 16"] by (subst (1 2) lower_hex.simps) (simp add: ascii_def)
    qed
  qed
  have nl: "utf8_text nl" unfolding nl_def by (rule ascii_text) code_simp
  have "utf8_lossy (state_payload e nonce nx) = state_payload e nonce nx"
    unfolding state_payload_def by (intro utf8_lossy_id utf8_append dec_utf8 nl assms(1) ascii_text) (simp add: hex)
  then show ?thesis
    using hex assms(2) first_line [of e "lower_hex nonce @ nl @ nx"]
    by (simp add: signed_parts_def state_payload_def Let_def) (simp add: nl_def split_once_append)
qed

lemma verify_signed_time [simp]: "verify_signed (E\<lparr>ae_unix_now := t\<rparr>) A v = verify_signed E A v"
  by (simp add: verify_signed_def)

lemma verify_login_allowed:
  assumes "verify_login_id_token E A tok ks = (Ok p, ks')"
  shows "admitted A (pr_name p) \<and> p = email_principal A (pr_name p)"
proof -
  have e: "principal_for_email A m = Ok p \<Longrightarrow> ?thesis" for m
    unfolding principal_for_email_Ok_iff by (auto simp: email_principal_def)
  show ?thesis using assms
    by (auto simp: verify_login_id_token_def verify_id_token_def Let_def dest!: e
        split: option.splits prod.splits sum.splits if_splits)
qed


section \<open>The small server signs somebody in\<close>

definition demo_site :: site where
  "demo_site = \<lparr>si_public_url = Some ''https://git.x.org'', si_tls = False, si_listen_url = ''http://walgit.localhost:8080'',
     si_listen_port = 8080, si_cors_origins = [], si_allowed_domains = [''X.org''], si_header_ok = (\<lambda>_. True)\<rparr>"

definition demo_post :: "nat \<Rightarrow> token_response option post_outcome" where
  "demo_post n = (if n = 1 then NotHeard else Answered (Some \<lparr>tr_id_token = Some ''jwt'', tr_error = None\<rparr>))"

definition demo_state :: string where
  "demo_state = the (sign (demo_env 50) (demo_auth AuthOidc) (state_payload (50 + STATE_TTL_SECS) 7 ''/o/r''))"


theorem signed_values_kept_apart_witness:
  "\<exists>v. mint (demo_env 50) (demo_auth AuthOidc) ''a@x.org'' 400 ''session'' = Some v \<and>
     claims_of (demo_env 50) (demo_auth AuthOidc) v ''token'' = None \<and>
     claimed (demo_env 50) (demo_auth AuthOidc) demo_site [] (Some v) None = Some (redirect_to demo_site ''/'' :: char response)"
proof -
  have "mint (demo_env 50) (demo_auth AuthOidc) ''a@x.org'' 400 ''session'' \<noteq> None" by code_simp
  then obtain v where m: "mint (demo_env 50) (demo_auth AuthOidc) ''a@x.org'' 400 ''session'' = Some v" by blast
  have s: "sign (demo_env 50) (demo_auth AuthOidc) (state_payload (50 + STATE_TTL_SECS) 7 ''/o/r'') = Some demo_state"
    unfolding demo_state_def by code_simp
  have n: "0 < login_now (demo_env 50)" "safe_next None = ''/''" by code_simp+
  have k: "''session'' = ''session'' \<and> ''token'' = ''token'' \<or> ''session'' = ''token'' \<and> ''token'' = ''session''" by simp
  show ?thesis using signed_values_kept_apart [OF demo_base64_ok n(1) k s m] m n(2) by metis
qed

text \<open>
  The state of a sign-in, which anybody gets from the sign-in page, is taken for the ticket of the hop: the link replaces the
  session of whoever follows it by the nonce.
\<close>

theorem state_accepted_as_ticket:
  "map_option (\<lambda>r. response_header r ''set-cookie'')
     (claimed (demo_env 50) (demo_auth AuthOidc) demo_site [] (Some demo_state) None) =
   Some (Some ''walgit_session=7; Path=/; Max-Age=400; HttpOnly; SameSite=Lax; Secure'')"
  by code_simp

text \<open>An IPv6 loopback address without a port is not recognised: the port is split off at the colon inside the brackets.\<close>

theorem ipv6_loopback_without_port:
  "\<not> loopback_origin (demo_site\<lparr>si_public_url := Some ''http://[::1]''\<rparr>) [] \<and>
   loopback_origin (demo_site\<lparr>si_public_url := Some ''http://[::1]:80''\<rparr>) [] \<and>
   loopback_origin (demo_site\<lparr>si_public_url := Some ''http://127.0.0.1''\<rparr>) []"
  by code_simp

end
