(* ===== verification/Serve.thy ===== *)
theory Serve
  imports Auth Bundle_Render
begin

text \<open>
  Serving objects of the bucket over HTTP, \<^verbatim>\<open>crates/walgit-server/src/static_object.rs\<close>, and the handlers of bundles,
  \<^verbatim>\<open>bundles.rs\<close>, with the cache of rendered lists, \<^verbatim>\<open>cache.rs\<close>.  A version is its decimal text; a tag that is no
  version's text matches no object and is not passed to the store.  \<open>hv\<close> says which texts are header values, \<open>accel\<close>
  what an edge needs to fetch an object by itself.  A result \<open>None\<close> is a panic.
\<close>

section \<open>Ranges and validators\<close>

datatype range_spec = RangeFrom nat "nat option" | RangeSuffix nat

definition parse_range :: "string option \<Rightarrow> range_spec option" where
  "parse_range hdr =
     Option.bind hdr (\<lambda>v.
     Option.bind (strip_prefix ''bytes='' (trim_ws v)) (\<lambda>spec.
       if CHR '','' \<in> set spec then None
       else Option.bind (split_once (CHR ''-'') spec) (\<lambda>(a0, b0).
         let a = trim_ws a0; b = trim_ws b0
         in if a = []
            then Option.bind (parse_unsigned (2 ^ 64) b) (\<lambda>n. if n > 0 then Some (RangeSuffix n) else None)
            else Option.bind (parse_unsigned (2 ^ 64) a) (\<lambda>start.
              if b = [] then Some (RangeFrom start None)
              else Option.bind (parse_unsigned (2 ^ 64) b) (\<lambda>e.
                if e < start then None else Some (RangeFrom start (Some e)))))))"

fun resolve_range :: "range_spec \<Rightarrow> nat \<Rightarrow> (nat \<times> nat) option" where
  "resolve_range (RangeFrom start e) tot =
     (if tot \<le> start then None
      else Some (start, case e of None \<Rightarrow> tot | Some e \<Rightarrow> min (sat_add e 1) tot))"
| "resolve_range (RangeSuffix n) tot = (if tot = 0 then None else Some (tot - n, tot))"

definition version_text :: "version \<Rightarrow> string" where
  "version_text v = trim_matches (CHR 0x22) (dec v)"

definition etag_of :: "version \<Rightarrow> string" where
  "etag_of v = quoted (version_text v)"

text \<open>\<open>trim_start_matches("W/")\<close>.\<close>

fun drop_weak :: "string \<Rightarrow> string" where
  "drop_weak (a # b # s) = (if a = CHR ''W'' \<and> b = CHR ''/'' then drop_weak s else a # b # s)"
| "drop_weak s = s"

definition tag_text :: "string \<Rightarrow> string" where
  "tag_text t = trim_matches (CHR 0x22) (drop_weak (trim_ws t))"

definition etags :: "header_map \<Rightarrow> string \<Rightarrow> string list" where
  "etags h n =
     filter (\<lambda>t. t \<noteq> []) (map tag_text (concat (map (split_on (\<lambda>c. c = CHR '','')) (header_all h n))))"

definition if_none_match_hit :: "header_map \<Rightarrow> version \<Rightarrow> bool" where
  "if_none_match_hit h v \<longleftrightarrow> list_ex (\<lambda>t. t = ''*'' \<or> t = version_text v) (etags h ''if-none-match'')"

definition if_range_allows :: "header_map \<Rightarrow> version \<Rightarrow> bool" where
  "if_range_allows h v =
     (case header_get h ''if-range'' of
        None \<Rightarrow> True
      | Some t \<Rightarrow> if CHR 0x22 \<in> set t then tag_text t = version_text v else False)"

definition version_of_tag :: "string \<Rightarrow> version option" where
  "version_of_tag t = (case parse_digits t of Some n \<Rightarrow> if dec n = t then Some n else None | None \<Rightarrow> None)"

definition accel_requested :: "header_map \<Rightarrow> bool" where
  "accel_requested h \<longleftrightarrow>
     list_ex (\<lambda>t. eq_ignore_ascii_case (trim_ws t) ''accel-redirect'')
       (concat (map (split_on (\<lambda>c. c = CHR '','' \<or> c = CHR '' '')) (header_all h CAPABILITIES_HEADER)))"

section \<open>Responses\<close>

definition IMMUTABLE :: string where
  "IMMUTABLE = ''public, max-age=31536000, immutable''"

record serve_options =
  so_content_type :: string
  so_cache_control :: "string option"
  so_filename :: "string option"
  so_accel :: bool
  so_peer_loopback :: "bool option"

definition cache_control :: "(string \<Rightarrow> bool) \<Rightarrow> serve_options \<Rightarrow> string" where
  "cache_control hv o' = (case so_cache_control o' of Some c \<Rightarrow> if hv c then c else IMMUTABLE | None \<Rightarrow> IMMUTABLE)"

definition base_headers :: "(string \<Rightarrow> bool) \<Rightarrow> serve_options \<Rightarrow> version \<Rightarrow> 'a response \<Rightarrow> 'a response" where
  "base_headers hv o' v r0 =
     (let r = set_header ''vary'' ''Accept-Encoding''
            (set_header ''accept-ranges'' ''bytes''
            (set_header ''cache-control'' (cache_control hv o')
            (set_header ''etag'' (etag_of v)
            (set_header ''content-type''
               (if hv (so_content_type o') then so_content_type o' else ''application/octet-stream'') r0))))
      in case so_filename o' of
           None \<Rightarrow> r
         | Some f \<Rightarrow>
             (let d = ''attachment; filename='' @ quoted (filter (\<lambda>c. c \<noteq> CHR 0x22) f)
              in if hv d then set_header ''content-disposition'' d r else r))"

definition not_modified :: "(string \<Rightarrow> bool) \<Rightarrow> serve_options \<Rightarrow> version \<Rightarrow> 'a response" where
  "not_modified hv o' v =
     set_header ''vary'' ''Accept-Encoding''
       (set_header ''cache-control'' (cache_control hv o') (set_header ''etag'' (etag_of v) (plain 304 NoBody)))"

definition range_not_satisfiable :: "(string \<Rightarrow> bool) \<Rightarrow> serve_options \<Rightarrow> object_meta \<Rightarrow> 'a response" where
  "range_not_satisfiable hv o' m =
     set_header ''content-length'' ''0''
       (set_header ''content-range'' (''bytes */'' @ dec (meta_size m)) (base_headers hv o' (meta_version m) (plain 416 NoBody)))"

definition whole_object :: "(string \<Rightarrow> bool) \<Rightarrow> serve_options \<Rightarrow> object_meta \<Rightarrow> 'a http_body \<Rightarrow> 'a response" where
  "whole_object hv o' m body =
     set_header ''content-length'' (dec (meta_size m)) (base_headers hv o' (meta_version m) (plain 200 body))"

definition partial_object :: "(string \<Rightarrow> bool) \<Rightarrow> serve_options \<Rightarrow> object_meta \<Rightarrow> nat \<Rightarrow> nat \<Rightarrow> nat \<Rightarrow> 'a byte_stream \<Rightarrow> 'a response" where
  "partial_object hv o' m a b tot body =
     set_header ''content-length'' (dec (b - a))
       (set_header ''content-range'' (''bytes '' @ dec a @ ''-'' @ dec (b - 1) @ ''/'' @ dec tot)
         (base_headers hv o' (meta_version m) (plain 206 (Streamed body))))"

section \<open>Serving an object\<close>

text \<open>The answer to an edge that fetches by itself; \<open>Err\<close> when one of its headers is no header value.\<close>

definition accel_response ::
  "(string \<Rightarrow> bool) \<Rightarrow> serve_options \<Rightarrow> string \<Rightarrow> string \<times> string option \<Rightarrow> string \<Rightarrow> object_meta \<Rightarrow> (api_error, 'a response) result" where
  "accel_response hv o' backend target key m =
     (let url = fst target;
          bad = (\<not> hv url \<or> (case snd target of Some a \<Rightarrow> \<not> hv a | None \<Rightarrow> False) \<or> \<not> hv (encode_path key));
          r0 = set_header ''x-walgit-store-url'' url
                 (set_header ''x-accel-redirect'' ''/_store/'' (base_headers hv o' (meta_version m) (plain 200 NoBody)));
          r1 = (case snd target of Some a \<Rightarrow> set_header ''x-walgit-store-authorization'' a r0 | None \<Rightarrow> r0)
      in if bad then Err (ApiInternal ''accel header: failed to parse header value'')
         else Ok (set_header ''x-walgit-etag'' (etag_of (meta_version m))
                (set_header ''x-walgit-accel'' backend (set_header ''x-walgit-store-key'' (encode_path key) r1))))"

definition head_object ::
  "('s, 'a) store_ops \<Rightarrow> string \<Rightarrow> 's \<Rightarrow> (api_error, object_meta) result \<times> 's" where
  "head_object ops key s =
     (case os_head ops s key of
        (Inr (Some m), s') \<Rightarrow> (Ok m, s')
      | (Inr None, s') \<Rightarrow> (Err (ApiNotFound (key @ '' not found'')), s')
      | (Inl e, s') \<Rightarrow> (Err (api_of_store e), s'))"

definition serve_range ::
  "(string \<Rightarrow> bool) \<Rightarrow> serve_options \<Rightarrow> ('s, 'a) store_ops \<Rightarrow> string \<Rightarrow> range_spec \<Rightarrow> object_meta \<Rightarrow> 's
     \<Rightarrow> (api_error, 'a response) result option \<times> 's" where
  "serve_range hv o' ops key spec m s =
     (case resolve_range spec (meta_size m) of
        None \<Rightarrow> (Some (Ok (range_not_satisfiable hv o' m)), s)
      | Some (a, b) \<Rightarrow>
          (case os_get ops s key (default_get\<lparr>if_match := Some (meta_version m), byte_range := Some (a, b)\<rparr>) of
             (Inr (Object m' body), s') \<Rightarrow>
               (Some (Ok (partial_object hv o' m a b (max (meta_size m') (meta_size m)) body)), s')
           | (Inr (NotModified _), s') \<Rightarrow> (None, s')
           | (Inl (PreconditionFailed _ _), s') \<Rightarrow> (Some (Err (ApiConflict ''object changed during read'')), s')
           | (Inl e, s') \<Rightarrow> (Some (Err (api_of_store e)), s')))"

definition serve_whole ::
  "(string \<Rightarrow> bool) \<Rightarrow> serve_options \<Rightarrow> ('s, 'a) store_ops \<Rightarrow> string \<Rightarrow> header_map \<Rightarrow> 's
     \<Rightarrow> (api_error, 'a response) result option \<times> 's" where
  "serve_whole hv o' ops key h s =
     (let inm = (case etags h ''if-none-match'' of [t] \<Rightarrow> if t \<noteq> ''*'' then version_of_tag t else None | _ \<Rightarrow> None)
      in case os_get ops s key (default_get\<lparr>if_none_match := inm\<rparr>) of
           (Inr (NotModified v), s') \<Rightarrow> (Some (Ok (not_modified hv o' v)), s')
         | (Inr (Object m body), s') \<Rightarrow>
             (Some (Ok (if if_none_match_hit h (meta_version m) then not_modified hv o' (meta_version m)
                        else whole_object hv o' m (Streamed body))), s')
         | (Inl (NotFound _), s') \<Rightarrow> (Some (Err (ApiNotFound (key @ '' not found''))), s')
         | (Inl e, s') \<Rightarrow> (Some (Err (api_of_store e)), s'))"

definition serve ::
  "(string \<Rightarrow> bool) \<Rightarrow> (string \<Rightarrow> (string \<times> string option) option) \<Rightarrow> string \<Rightarrow> ('s, 'a) store_ops \<Rightarrow> string \<Rightarrow> bool
     \<Rightarrow> header_map \<Rightarrow> serve_options \<Rightarrow> 's \<Rightarrow> (api_error, 'a response) result option \<times> 's" where
  "serve hv accel backend ops key is_head h o' s =
     (let range = parse_range (header_get h ''range'');
          target = (if so_accel o' \<and> \<not> is_head \<and> accel_requested h \<and> so_peer_loopback o' = Some True then accel key else None)
      in case target of
           Some t \<Rightarrow>
             (case head_object ops key s of
                (Inl e, s') \<Rightarrow> (Some (Err e), s')
              | (Inr m, s') \<Rightarrow>
                  (Some (if if_none_match_hit h (meta_version m) then Ok (not_modified hv o' (meta_version m))
                         else accel_response hv o' backend t key m), s'))
         | None \<Rightarrow>
             (if is_head \<or> range \<noteq> None
              then (case head_object ops key s of
                      (Inl e, s') \<Rightarrow> (Some (Err e), s')
                    | (Inr m, s') \<Rightarrow>
                        (if if_none_match_hit h (meta_version m) then (Some (Ok (not_modified hv o' (meta_version m))), s')
                         else if is_head then (Some (Ok (whole_object hv o' m NoBody)), s')
                         else (case range of
                                 Some spec \<Rightarrow>
                                   if if_range_allows h (meta_version m) then serve_range hv o' ops key spec m s'
                                   else serve_whole hv o' ops key h s'
                               | None \<Rightarrow> serve_whole hv o' ops key h s')))
              else serve_whole hv o' ops key h s))"

section \<open>Bundles over HTTP\<close>

text \<open>
  The cache of rendered lists: text by repository, filter and kind of list, and by the version of the list object.  Entries that expired
  or were evicted are absent.
\<close>

type_synonym list_cache = "((string \<times> string) \<times> string) list"

definition cache_get :: "list_cache \<Rightarrow> string \<Rightarrow> string \<Rightarrow> string option" where
  "cache_get c repo_key v = map_of c (repo_key, v)"

definition cache_insert :: "list_cache \<Rightarrow> string \<Rightarrow> string \<Rightarrow> string \<Rightarrow> list_cache" where
  "cache_insert c repo_key v t = ((repo_key, v), t) # filter (\<lambda>e. fst e \<noteq> (repo_key, v)) c"

definition cache_invalidate :: "list_cache \<Rightarrow> string \<Rightarrow> list_cache" where
  "cache_invalidate c repo_name = filter (\<lambda>e. fst (fst e) \<noteq> repo_name) c"

text \<open>\<open>replace\<close> of a percent escape, from left to right.\<close>

fun replace_colon :: "char \<Rightarrow> string \<Rightarrow> string" where
  "replace_colon x (a # b # c # s) =
     (if a = CHR ''%'' \<and> b = CHR ''3'' \<and> c = x then CHR '':'' # replace_colon x s else a # replace_colon x (b # c # s))"
| "replace_colon x s = s"

definition query_filter :: "string \<Rightarrow> string option" where
  "query_filter q =
     (case List.map_filter (strip_prefix ''filter='') (split_on (\<lambda>c. c = CHR ''&'') q) of
        [] \<Rightarrow> None
      | v # _ \<Rightarrow> nonempty (replace_colon (CHR ''a'') (replace_colon (CHR ''A'') v)))"

definition list_key :: "repo_id \<Rightarrow> string option \<Rightarrow> bool \<Rightarrow> string" where
  "list_key i filt fulls =
     repo_id_display i @ ''?'' @ (case filt of Some f \<Rightarrow> f | None \<Rightarrow> []) @ (if fulls then [] else ''&catchup'')"

definition render_bundle_list_response :: "string \<Rightarrow> 'a response" where
  "render_bundle_list_response t =
     set_header ''cache-control'' ''no-cache'' (set_header ''content-type'' ''text/plain; charset=utf-8'' (plain 200 (Text t)))"

definition render_list ::
  "('s, 'a) store_ops \<Rightarrow> ('a, bundle_list) msg_codec \<Rightarrow> (string \<Rightarrow> (store_error, string option) result) \<Rightarrow> bundles_config
     \<Rightarrow> repo_id \<Rightarrow> string \<Rightarrow> string option \<Rightarrow> bool \<Rightarrow> 's \<Rightarrow> (bundle_error, string option) result \<times> 's" where
  "render_list ops c signer cfg i base_url filt fulls s =
     sbind (read_list ops c s) (\<lambda>l s'.
       (Ok (map_option (\<lambda>l. render_list_text signer l (ri_owner i) (ri_name i) base_url cfg filt fulls) l), s'))"

text \<open>When a principal last asked for the list of a repository, and when it last fell back to a clone from the server.\<close>

type_synonym attempts = "(string \<times> nat) list"

definition attempt_key :: "repo_id \<Rightarrow> string \<Rightarrow> string" where
  "attempt_key i who = repo_id_display i @ [CHR 0x00] @ who"

definition fallback_key :: "repo_id \<Rightarrow> string \<Rightarrow> string" where
  "fallback_key i who = attempt_key i who @ [CHR 0x00] @ ''fallback''"

definition note_attempt :: "string \<Rightarrow> nat \<Rightarrow> attempts \<Rightarrow> attempts" where
  "note_attempt k now at' = (k, now) # filter (\<lambda>e. fst e \<noteq> k) at'"

definition ATTEMPT_WINDOW :: nat where
  "ATTEMPT_WINDOW = 3600 * 1000000000"

definition FALLBACK_EVERY :: nat where
  "FALLBACK_EVERY = 6 * 3600 * 1000000000"

text \<open>\<open>Some who\<close> lets a fetch without haves go to upload-pack and records that it did.\<close>

definition bundle_fallback_allowed ::
  "(auth_error, principal) result \<Rightarrow> repo_id \<Rightarrow> nat \<Rightarrow> attempts \<Rightarrow> string option \<times> attempts" where
  "bundle_fallback_allowed who0 i now at' =
     (case who0 of
        Inl _ \<Rightarrow> (None, at')
      | Inr p \<Rightarrow>
          (let who = pr_name p
           in if who = [] \<or> who = ''anonymous'' then (None, at')
              else case map_of at' (attempt_key i who) of
                     None \<Rightarrow> (None, at')
                   | Some tried \<Rightarrow>
                       if now - tried > ATTEMPT_WINDOW then (None, at')
                       else if (case map_of at' (fallback_key i who) of Some t \<Rightarrow> now - t < FALLBACK_EVERY | None \<Rightarrow> False)
                       then (None, at')
                       else (Some who, note_attempt (fallback_key i who) now at')))"

text \<open>
  The list handler after authentication: \<open>base_url\<close> is the address the request was made to, \<open>shown\<close> the text of an error,
  \<open>opened\<close> the outcome of opening the repository, \<open>now\<close> the time.
\<close>

definition bundle_list_handler ::
  "('s, 'a) store_ops \<Rightarrow> ('a, bundle_list) msg_codec \<Rightarrow> (string \<Rightarrow> (store_error, string option) result) \<Rightarrow> (bundle_error \<Rightarrow> string)
     \<Rightarrow> bundles_config \<Rightarrow> bool \<Rightarrow> (auth_error, principal) result \<Rightarrow> (api_error, unit) result \<Rightarrow> string \<Rightarrow> repo_id \<Rightarrow> string \<Rightarrow> bool
     \<Rightarrow> nat \<Rightarrow> list_cache \<times> attempts \<Rightarrow> 's \<Rightarrow> (api_error, 'b response) result \<times> (list_cache \<times> attempts) \<times> 's" where
  "bundle_list_handler ops c signer shown cfg advertised who opened base_url i query fulls now caches s =
     (let (lc, at0) = caches
      in if \<not> advertised then (Err (ApiNotFound ''bundles disabled''), (lc, at0), s)
      else case who of
        Inl e \<Rightarrow> (Err (git_lane (api_of_auth e)), (lc, at0), s)
      | Inr p \<Rightarrow>
          (let at' = note_attempt (attempt_key i (pr_name p)) now at0; filt = query_filter query
           in case opened of
             Inl e \<Rightarrow> (Err e, (lc, at'), s)
           | Inr _ \<Rightarrow>
               (if (case filt of Some f \<Rightarrow> f \<noteq> ''blob:none'' | None \<Rightarrow> False)
                then (Err (ApiBadRequest (''unsupported bundle filter '' @ quoted (the filt) @ '' (blob:none)'')), (lc, at'), s)
                else (case os_head ops s BUNDLE_LIST of
                        (Inl e, s1) \<Rightarrow> (Err (api_of_store e), (lc, at'), s1)
                      | (Inr None, s1) \<Rightarrow> (Err (ApiNotFound ''no bundles''), (lc, at'), s1)
                      | (Inr (Some m), s1) \<Rightarrow>
                          (case cache_get lc (list_key i filt fulls) (dec (meta_version m)) of
                             Some t \<Rightarrow> (Ok (render_bundle_list_response t), (lc, at'), s1)
                           | None \<Rightarrow>
                               (case render_list ops c signer cfg i base_url filt fulls s1 of
                                  (Inl e, s2) \<Rightarrow> (Err (ApiInternal (''bundle: '' @ shown e)), (lc, at'), s2)
                                | (Inr None, s2) \<Rightarrow> (Err (ApiNotFound ''no bundles''), (lc, at'), s2)
                                | (Inr (Some t), s2) \<Rightarrow>
                                    (Ok (render_bundle_list_response t),
                                     (cache_insert lc (list_key i filt fulls) (dec (meta_version m)) t, at'), s2)))))))"

definition bundle_route_key :: "string \<Rightarrow> string" where
  "bundle_route_key subpath = ''bundles/'' @ (case strip_prefix ''bundles/'' subpath of Some r \<Rightarrow> r | None \<Rightarrow> subpath)"

definition bundle_object_handler ::
  "(string \<Rightarrow> bool) \<Rightarrow> (string \<Rightarrow> (string \<times> string option) option) \<Rightarrow> string \<Rightarrow> ('s, 'a) store_ops \<Rightarrow> (auth_error, principal) result
     \<Rightarrow> (api_error, unit) result \<Rightarrow> bool \<Rightarrow> bool option \<Rightarrow> repo_route \<Rightarrow> bool \<Rightarrow> header_map \<Rightarrow> 's
     \<Rightarrow> (api_error, 'a response) result option \<times> 's" where
  "bundle_object_handler hv accel backend ops who opened accel_on peer route is_head h s =
     (case who of
        Inl e \<Rightarrow> (Some (Err (git_lane (api_of_auth e))), s)
      | Inr _ \<Rightarrow>
          (case opened of
             Inl e \<Rightarrow> (Some (Err e), s)
           | Inr _ \<Rightarrow>
               (let key = bundle_route_key (rt_subpath route)
                in if list_ex (\<lambda>seg. seg = [] \<or> seg = ''..'') (split_on (\<lambda>c. c = CHR ''/'') key)
                   then (Some (Err (ApiNotFound ''bad bundle path'')), s)
                   else serve hv accel backend ops key is_head h
                          \<lparr>so_content_type = ''application/x-git-bundle'', so_cache_control = None, so_filename = None,
                           so_accel = accel_on, so_peer_loopback = peer\<rparr> s)))"

section \<open>Ranges\<close>

text \<open>A range that was parsed and resolved is not empty and lies in the object, so neither of the subtractions wraps.\<close>

definition range_ok :: "range_spec \<Rightarrow> bool" where
  "range_ok spec = (case spec of RangeFrom a (Some e) \<Rightarrow> a \<le> e | RangeFrom a None \<Rightarrow> True | RangeSuffix n \<Rightarrow> 0 < n)"

lemma parse_range_ok: "parse_range h = Some spec \<Longrightarrow> range_ok spec"
  by (auto simp: parse_range_def range_ok_def Let_def Option.bind_eq_Some_conv split: if_splits)

lemma resolve_range_bounds:
  assumes "range_ok spec" "resolve_range spec n = Some (a, b)" "n \<le> u64_max"
  shows "a < b" "b \<le> n"
  using assms by (cases spec; auto simp: range_ok_def sat_add_def split: if_splits option.splits)+

text \<open>The bytes a range stands for, read off the specification of HTTP.\<close>

definition range_bytes :: "range_spec \<Rightarrow> 'a list \<Rightarrow> 'a list" where
  "range_bytes spec d =
     (case spec of
        RangeFrom a None \<Rightarrow> drop a d
      | RangeFrom a (Some e) \<Rightarrow> drop a (take (Suc e) d)
      | RangeSuffix n \<Rightarrow> drop (length d - n) d)"

lemma resolve_range_bytes:
  assumes "range_ok spec" "length d \<le> u64_max"
  shows "(case resolve_range spec (length d) of
       None \<Rightarrow> range_bytes spec d = []
     | Some (a, b) \<Rightarrow> take (b - a) (drop a d) = range_bytes spec d \<and> range_bytes spec d \<noteq> [])"
proof (cases spec)
  case (RangeFrom a e)
  show ?thesis
  proof (cases "length d \<le> a")
    case True
    then show ?thesis using RangeFrom by (auto simp: range_bytes_def split: option.splits)
  next
    case False
    show ?thesis
    proof (cases e)
      case None
      then show ?thesis using RangeFrom False by (simp add: range_bytes_def)
    next
      case (Some x)
      have "min (sat_add x 1) (length d) = min (Suc x) (length d)" using assms(2) by (auto simp: sat_add_def)
      then show ?thesis using RangeFrom False Some assms(1)
        by (auto simp: range_bytes_def range_ok_def take_drop min_def)
    qed
  qed
next
  case (RangeSuffix n)
  then have "d \<noteq> [] \<Longrightarrow> length d - n < length d" using assms(1) by (simp add: range_ok_def)
  then show ?thesis using RangeSuffix by (auto simp: range_bytes_def)
qed

section \<open>Objects of the in-memory bucket\<close>

lemma head_in_prefix:
  assumes "mem_view s (p @ key) = Some (v, d)"
  obtains m where "head_object (prefixed p mem_ops) key s = (Ok m, s)" "meta_version m = v" "meta_size m = length d"
proof
  let ?m = "strip_meta p \<lparr>meta_key = p @ key, meta_size = length d, meta_version = v\<rparr>"
  show "head_object (prefixed p mem_ops) key s = (Ok ?m, s)"
    using assms by (simp add: head_object_def prefixed_head_def full_key_def mem_head_def mem_view_def)
qed simp_all

lemma get_in_prefix:
  assumes "mem_view s (p @ key) = Some (v, d)" "if_match opts = None \<or> if_match opts = Some v" "if_none_match opts \<noteq> Some v"
    "slice_range d (byte_range opts) = Ok b"
  obtains m where "os_get (prefixed p mem_ops) s key opts = (Ok (Object m (once b)), s)" "meta_version m = v" "meta_size m = length d"
proof
  let ?m = "strip_meta p \<lparr>meta_key = p @ key, meta_size = length d, meta_version = v\<rparr>"
  show "os_get (prefixed p mem_ops) s key opts = (Ok (Object ?m (once b)), s)"
    using assms by (auto simp: prefixed_get_def full_key_def mem_get_def mem_view_def)
qed simp_all

lemma slice_in_bounds: "a \<le> b \<Longrightarrow> b \<le> length d \<Longrightarrow> slice_range d (Some (a, b)) = Ok (take (b - a) (drop a d))"
  by (simp add: slice_range_def Let_def)

lemma base_headers_simps [simp]:
  "rs_status (base_headers hv o' v r) = rs_status r" "rs_body (base_headers hv o' v r) = rs_body r"
  "response_header (base_headers hv o' v r) ''etag'' = Some (etag_of v)"
  by (auto simp: base_headers_def Let_def split: option.splits)

lemma plain_get:
  assumes "mem_view s (p @ key) = Some (v, d)" "header_all h ''if-none-match'' = []"
  obtains m where "serve_whole hv o' (prefixed p mem_ops) key h s = (Some (Ok (whole_object hv o' m (Streamed (once d)))), s)"
    "meta_version m = v" "meta_size m = length d"
proof -
  have none: "etags h ''if-none-match'' = []" using assms(2) by (simp add: etags_def)
  have "slice_range d (byte_range default_get) = Ok d" "if_match default_get = None" "if_none_match default_get \<noteq> Some v"
    by (simp_all add: slice_range_def default_get_def)
  from get_in_prefix [OF assms(1) _ this(3,1)] this(2) obtain m where
    "os_get (prefixed p mem_ops) s key default_get = (Ok (Object m (once d)), s)" "meta_version m = v" "meta_size m = length d"
    by blast
  then show thesis using that none
    by (simp add: serve_whole_def if_none_match_hit_def default_get_def)
qed

text \<open>
  A range is served exactly: the answer to a request for a range of an object is 206 with the bytes that the range stands for
  and their number, or 416 with the size of the object when it stands for none.
\<close>

lemma range_served:
  assumes "mem_view s (p @ key) = Some (v, d)" "length d \<le> u64_max" "\<not> so_accel o'"
    and "parse_range (header_get h ''range'') = Some spec" "if_range_allows h v" "\<not> if_none_match_hit h v"
  shows "\<exists>r. serve hv accel backend (prefixed p mem_ops) key False h o' s = (Some (Ok r), s) \<and>
    response_header r ''etag'' = Some (etag_of v) \<and>
    response_header r ''content-length'' = Some (dec (length (range_bytes spec d))) \<and>
    (if range_bytes spec d = []
     then rs_status r = 416 \<and> response_header r ''content-range'' = Some (''bytes */'' @ dec (length d))
     else rs_status r = 206 \<and> (\<exists>st. rs_body r = Streamed st \<and> collect st = Ok (range_bytes spec d)))"
proof -
  obtain m where m: "head_object (prefixed p mem_ops) key s = (Ok m, s)" "meta_version m = v" "meta_size m = length d"
    using head_in_prefix [OF assms(1)] .
  have S: "serve hv accel backend (prefixed p mem_ops) key False h o' s = serve_range hv o' (prefixed p mem_ops) key spec m s"
    using assms(3-6) m by (simp add: serve_def Let_def)
  note ok = parse_range_ok [OF assms(4)]
  note R = resolve_range_bytes [OF ok assms(2)]
  show ?thesis
  proof (cases "resolve_range spec (length d)")
    case None
    have "range_bytes spec d = []" using R None by simp
    then show ?thesis using S None m by (simp add: serve_range_def range_not_satisfiable_def dec.simps digit_def)
  next
    case (Some ab)
    obtain a b where ab: "ab = (a, b)" by (cases ab)
    note bnd = resolve_range_bounds [OF ok Some [unfolded ab] assms(2)]
    have bytes: "take (b - a) (drop a d) = range_bytes spec d" "range_bytes spec d \<noteq> []" using R Some ab by simp_all
    have len: "length (range_bytes spec d) = b - a" using bnd bytes(1) [symmetric] by simp
    let ?o = "default_get\<lparr>if_match := Some v, byte_range := Some (a, b)\<rparr>"
    have "if_match ?o = None \<or> if_match ?o = Some v" "if_none_match ?o \<noteq> Some v" "slice_range d (byte_range ?o) = Ok (range_bytes spec d)"
      using slice_in_bounds [of a b d] bnd bytes(1) by (simp_all add: default_get_def)
    then obtain m' where g: "os_get (prefixed p mem_ops) s key ?o = (Ok (Object m' (once (range_bytes spec d))), s)"
      using get_in_prefix [OF assms(1)] by blast
    then show ?thesis using S Some ab m bytes(2) len by (simp add: serve_range_def partial_object_def)
  qed
qed

lemma dropWhile_absent: "c \<notin> set s \<Longrightarrow> dropWhile (\<lambda>x. x = c) s = s"
  by (cases s) auto

lemma dec_unquoted: "CHR 0x22 \<notin> set (dec v)" "CHR 0x22 \<notin> set (rev (dec v))"
  using dec_digits [of v] by auto

lemmas dec_untrimmed = dropWhile_absent [OF dec_unquoted(1)] dropWhile_absent [OF dec_unquoted(2)]

lemma version_text_dec [simp]: "version_text v = dec v"
  by (simp add: version_text_def trim_matches_def trim_end_matches_def dec_untrimmed)

lemma tag_text_etag: "tag_text (etag_of v) = dec v"
proof -
  have d: "dropWhile (\<lambda>x. x = CHR 0x22) (dec v @ [CHR 0x22]) = dec v @ [CHR 0x22]"
    using dec_is_digits(2) [of v] dec_unquoted(1) [of v] by (cases "dec v") auto
  have "visible (CHR 0x22)" by code_simp
  then have "trim_ws (quoted (dec v)) = quoted (dec v)" by (intro trim_ws_visible) (simp add: quoted_def)
  moreover have "drop_weak (quoted (dec v)) = quoted (dec v)"
    unfolding quoted_def by (cases "dec v") simp_all
  ultimately show ?thesis by (simp add: tag_text_def etag_of_def trim_matches_def trim_end_matches_def quoted_def d dec_untrimmed)
qed

lemma mem_version_identifies:
  assumes "mem_inv s" "mem_evolves s s'" "mem_view s k = Some (v, d)" "mem_view s' k = Some (v, d')"
  shows "d' = d"
  using mem.version_identifies_body [OF assms] .

definition resume_headers :: "nat \<Rightarrow> version \<Rightarrow> header_map" where
  "resume_headers n v = [(''range'', Some (''bytes='' @ dec n @ ''-'')), (''if-range'', Some (etag_of v))]"

lemma resume_headers_parse:
  assumes "n < 2 ^ 64"
  shows "parse_range (header_get (resume_headers n v) ''range'') = Some (RangeFrom n None)"
    and "if_range_allows (resume_headers n v) w \<longleftrightarrow> w = v"
    and "\<not> if_none_match_hit (resume_headers n v) w" "header_all (resume_headers n v) ''if-none-match'' = []"
proof -
  have vis: "visible (CHR ''b'')" "visible (CHR ''-'')" by code_simp+
  have dv: "list_all visible (dec n)"
  proof -
    have "list_all visible ''0123456789''" by code_simp
    then show ?thesis using dec_digits [of n] by (auto simp: list_all_iff)
  qed
  have t: "trim_ws (''bytes='' @ dec n @ ''-'') = ''bytes='' @ dec n @ ''-''"
    using vis by (intro trim_ws_visible) simp
  have no: "CHR '','' \<notin> set (dec n)" "CHR ''-'' \<notin> set (dec n)" using dec_digits [of n] by auto
  have "strip_prefix ''bytes='' (''bytes='' @ dec n @ ''-'') = Some (dec n @ ''-'')" by (rule strip_prefix_append)
  then show "parse_range (header_get (resume_headers n v) ''range'') = Some (RangeFrom n None)"
    using t no assms dec_is_digits(2) [of n] trim_ws_all_visible [OF dv] trim_ws_all_visible [of "[]"]
    by (simp add: parse_range_def resume_headers_def header_get_def Let_def split_once_append)
  show "if_range_allows (resume_headers n v) w \<longleftrightarrow> w = v"
    using tag_text_etag [of v] dec_inj by (auto simp: if_range_allows_def resume_headers_def header_get_def etag_of_def quoted_def)
  show "header_all (resume_headers n v) ''if-none-match'' = []" by (simp add: resume_headers_def header_all_def List.map_filter_def)
  then show "\<not> if_none_match_hit (resume_headers n v) w" by (simp add: if_none_match_hit_def etags_def)
qed


definition plain_options :: serve_options where
  "plain_options = \<lparr>so_content_type = ''application/octet-stream'', so_cache_control = None, so_filename = None,
     so_accel = False, so_peer_loopback = None\<rparr>"


section \<open>Advertised bundles can be fetched\<close>

lemma split_once_slash: "CHR ''/'' \<notin> set a \<Longrightarrow> split_once (CHR ''/'') (a @ ''/'' @ r) = Some (a, r)"
  by (simp add: split_once_append)

lemma split_slash_absent: "CHR ''/'' \<notin> set s \<Longrightarrow> split_on (\<lambda>c. c = CHR ''/'') s = [s]"
  by (induction s) (auto simp: split_on_Cons)

lemma split_slash_sep: "CHR ''/'' \<notin> set a \<Longrightarrow> split_on (\<lambda>c. c = CHR ''/'') (a @ ''/'' @ r) = a # split_on (\<lambda>c. c = CHR ''/'') r"
  by (induction a) (auto simp: split_on_Cons)

definition path_part :: "string \<Rightarrow> bool" where
  "path_part s \<longleftrightarrow> s \<noteq> [] \<and> s \<noteq> ''..'' \<and> CHR ''/'' \<notin> set s"

lemma filename_of_last: "CHR ''/'' \<notin> set f \<Longrightarrow> filename_of (d @ ''/'' @ f) = f"
proof -
  assume "CHR ''/'' \<notin> set f"
  then have "takeWhile (\<lambda>c. c \<noteq> CHR ''/'') (rev f @ CHR ''/'' # rev d) = rev f" by (subst takeWhile_append2) auto
  then show ?thesis by (simp add: filename_of_def)
qed

lemma bundle_route:
  assumes "validate_part own = Ok ()" "validate_part nm = Ok ()" "\<not> ends_with nm ''.git''"
  shows "parse_repo_route (''/'' @ own @ ''/'' @ nm @ ''/'' @ sub) =
    Some \<lparr>rt_id = \<lparr>ri_owner = own, ri_name = nm\<rparr>, rt_subpath = dropWhile (\<lambda>c. c = CHR ''/'') sub, rt_had_git_suffix = False\<rparr>"
proof -
  have o: "CHR ''/'' \<notin> set own" "CHR ''/'' \<notin> set nm"
    using assms(1,2) part_byte_plain by (auto simp: validate_part_ok list_all_iff)
  have strip: "strip_suffix ''.git'' nm = None" using assms(3) by (simp add: strip_suffix_def ends_with_def)
  have "repo_id_from_str (own @ ''/'' @ nm) = Ok \<lparr>ri_owner = own, ri_name = nm\<rparr>"
    using repo_id_from_display [of "\<lparr>ri_owner = own, ri_name = nm\<rparr>"] assms by (simp add: repo_id_display_def)
  moreover have "strip_prefix ''/'' (''/'' @ own @ ''/'' @ nm @ ''/'' @ sub) = Some (own @ ''/'' @ nm @ ''/'' @ sub)"
    by (rule strip_prefix_append)
  ultimately show ?thesis
    using split_once_slash [OF o(1), of "nm @ ''/'' @ sub"] split_once_slash [OF o(2), of sub] strip
    by (simp add: parse_repo_route_def Let_def)
qed

text \<open>
  What is advertised can be fetched: the path in the address of a listed bundle is routed to its repository and answered with
  exactly the bytes of the bundle's object.
\<close>

theorem advertised_bundle_downloads:
  assumes "validate_part own = Ok ()" "validate_part nm = Ok ()" "\<not> ends_with nm ''.git''"
    and "be_key e = bundle_object_key stamp (be_strategy e) now digest" "path_part (be_strategy e)"
    and "CHR ''/'' \<notin> set (stamp now)" "CHR ''/'' \<notin> set digest" "mem_view s (p @ be_key e) = Some (v, d)"
  shows "bundle_uri signer e own nm base_url Proxy = trim_end_matches (CHR ''/'') base_url @ bundle_path e own nm \<and>
    (\<exists>route r st. parse_repo_route (bundle_path e own nm) = Some route \<and> rt_id route = \<lparr>ri_owner = own, ri_name = nm\<rparr> \<and>
       bundle_object_handler hv accel backend (prefixed p mem_ops) (Ok who) (Ok ()) False peer route False [] s = (Some (Ok r), s) \<and>
       rs_status r = 200 \<and> rs_body r = Streamed st \<and> collect st = Ok d \<and>
       response_header r ''content-length'' = Some (dec (length d)))"
proof -
  let ?f = "stamp now @ ''-'' @ digest @ ''.bundle''" and ?st = "be_strategy e"
  let ?o = "\<lparr>so_content_type = ''application/x-git-bundle'', so_cache_control = None, so_filename = None,
    so_accel = False, so_peer_loopback = peer\<rparr>"
  let ?route = "\<lparr>rt_id = \<lparr>ri_owner = own, ri_name = nm\<rparr>, rt_subpath = be_key e, rt_had_git_suffix = False\<rparr>"
  have key: "be_key e = ''bundles/'' @ ?st @ ''/'' @ ?f" using assms(4) by (simp add: bundle_object_key_def)
  have nf: "CHR ''/'' \<notin> set ?f" "?f \<noteq> []" "?f \<noteq> ''..''" using assms(6,7) by (auto simp: append_eq_Cons_conv)
  have "be_key e = (''bundles/'' @ ?st) @ ''/'' @ ?f" by (simp add: key)
  then have fname: "filename_of (be_key e) = ?f" by (simp only: filename_of_last [OF nf(1)])
  have path: "bundle_path e own nm = ''/'' @ own @ ''/'' @ nm @ ''/'' @ be_key e" unfolding bundle_path_def fname by (simp add: key)
  have route: "parse_repo_route (bundle_path e own nm) = Some ?route"
    unfolding path bundle_route [OF assms(1-3)] by (simp add: key)
  have rk: "bundle_route_key (be_key e) = be_key e"
    using strip_prefix_append [of "''bundles/''" "?st @ ''/'' @ ?f"] unfolding bundle_route_key_def key by simp
  have "split_on (\<lambda>c. c = CHR ''/'') (be_key e) = [''bundles'', ?st, ?f]"
  proof -
    have "CHR ''/'' \<notin> set ''bundles''" "CHR ''/'' \<notin> set ?st" using assms(5) by (simp_all add: path_part_def)
    then show ?thesis
      using split_slash_sep [of "''bundles''" "?st @ ''/'' @ ?f"] unfolding key split_slash_sep [OF \<open>CHR ''/'' \<notin> set ?st\<close>] split_slash_absent [OF nf(1)]
      by simp
  qed
  then have segs: "\<not> list_ex (\<lambda>seg. seg = [] \<or> seg = ''..'') (split_on (\<lambda>c. c = CHR ''/'') (be_key e))"
    using assms(5) nf(2,3) by (simp add: path_part_def)
  obtain m where w: "serve_whole hv ?o (prefixed p mem_ops) (be_key e) [] s = (Some (Ok (whole_object hv ?o m (Streamed (once d)))), s)"
    "meta_version m = v" "meta_size m = length d"
    using plain_get [OF assms(8), of "[]" hv ?o] by (metis header_all_def filter.simps(1) map_filter_simps(1))
  have "bundle_object_handler hv accel backend (prefixed p mem_ops) (Ok who) (Ok ()) False peer ?route False [] s =
      (Some (Ok (whole_object hv ?o m (Streamed (once d)))), s)"
    using segs rk w(1) by (simp add: bundle_object_handler_def serve_def parse_range_def header_get_def Let_def)
  moreover have "bundle_uri signer e own nm base_url Proxy = trim_end_matches (CHR ''/'') base_url @ bundle_path e own nm"
    by (simp add: bundle_uri_def proxy_uri_def bundle_path_def trim_end_matches_def)
  ultimately show ?thesis using route w(3)
    by (intro conjI exI [of _ ?route] exI [of _ "whole_object hv ?o m (Streamed (once d))"] exI [of _ "once d"])
      (simp_all add: whole_object_def)
qed

theorem advertised_bundle_downloads_witness:
  "\<exists>route r st. parse_repo_route ''/o/r/bundles/w/5-45.bundle'' = Some route \<and>
     bundle_object_handler (\<lambda>_. True) (\<lambda>_. None) ''memory'' (prefixed ''p/'' mem_ops) (Ok anonymous_principal) (Ok ()) False None route
       False [] \<lparr>objects = [(''p/bundles/w/5-45.bundle'', (3, [1::nat, 2]))], counter = 3\<rparr> =
       (Some (Ok r), \<lparr>objects = [(''p/bundles/w/5-45.bundle'', (3, [1, 2]))], counter = 3\<rparr>) \<and>
     rs_status r = 200 \<and> rs_body r = Streamed st \<and> collect st = Ok [1, 2]"
proof -
  let ?e = "listed_entry ''5-45'' 5 []"
  let ?s = "\<lparr>objects = [(''p/bundles/w/5-45.bundle'', (3, [1::nat, 2]))], counter = 3\<rparr>"
  have v: "validate_part ''o'' = Ok ()" "validate_part ''r'' = Ok ()" "\<not> ends_with ''r'' ''.git''" by code_simp+
  have k: "be_key ?e = bundle_object_key (\<lambda>_. ''5'') (be_strategy ?e) 0 ''45''" "path_part (be_strategy ?e)" by code_simp+
  have c: "CHR ''/'' \<notin> set ((\<lambda>_ :: system_time. ''5'') 0)" "CHR ''/'' \<notin> set ''45''" by simp_all
  have m: "mem_view ?s (''p/'' @ be_key ?e) = Some (3, [1, 2])" by (simp add: mem_view_def bt_get_def listed_entry_def)
  have b: "bundle_path ?e ''o'' ''r'' = ''/o/r/bundles/w/5-45.bundle''" by code_simp
  show ?thesis
    using advertised_bundle_downloads [OF v k c m, of "\<lambda>_. Ok None" "[]" "\<lambda>_. True" "\<lambda>_. None" "''memory''" anonymous_principal None]
    unfolding b by blast
qed

section \<open>Falling back to a clone from the server\<close>

datatype attempt_event = ListAsked repo_id string nat | FellBack repo_id string nat

definition no_nul :: "repo_id \<Rightarrow> string \<Rightarrow> bool" where
  "no_nul i who \<longleftrightarrow> CHR 0x00 \<notin> set (repo_id_display i) \<and> CHR 0x00 \<notin> set who"

text \<open>The histories of list requests and fallbacks; what was refused leaves no trace.\<close>

inductive attempts_run :: "attempt_event list \<Rightarrow> attempts \<Rightarrow> bool" where
  run_start: "attempts_run [] []"
| run_list: "attempts_run es at' \<Longrightarrow> no_nul i who \<Longrightarrow>
    attempts_run (es @ [ListAsked i who now]) (note_attempt (attempt_key i who) now at')"
| run_fallback: "attempts_run es at' \<Longrightarrow> no_nul i who \<Longrightarrow> bundle_fallback_allowed (Ok p) i now at' = (Some who, at'') \<Longrightarrow>
    attempts_run (es @ [FellBack i who now]) at''"

definition fallback_times :: "repo_id \<Rightarrow> string \<Rightarrow> attempt_event list \<Rightarrow> nat list" where
  "fallback_times i who es =
     List.map_filter (\<lambda>e. case e of FellBack i' who' t \<Rightarrow> if repo_id_display i' = repo_id_display i \<and> who' = who then Some t else None
                                  | _ \<Rightarrow> None) es"

definition last_of :: "'a list \<Rightarrow> 'a option" where
  "last_of xs = (if xs = [] then None else Some (last xs))"

lemma map_of_note: "map_of (note_attempt k t at') k' = (if k' = k then Some t else map_of at' k')"
proof -
  have "map_of (filter (\<lambda>e. fst e \<noteq> k) at') k' = (if k' = k then None else map_of at' k')" by (induction at') auto
  then show ?thesis by (simp add: note_attempt_def)
qed

lemma nul_split: "CHR 0x00 \<notin> set a \<Longrightarrow> CHR 0x00 \<notin> set b \<Longrightarrow> a @ [CHR 0x00] @ x = b @ [CHR 0x00] @ y \<longleftrightarrow> a = b \<and> x = y"
  by (metis append_Cons append_Nil old.prod.inject option.inject split_once_append)

lemma attempt_keys:
  assumes "no_nul i who" "no_nul i' who'"
  shows "attempt_key i who = attempt_key i' who' \<longleftrightarrow> repo_id_display i = repo_id_display i' \<and> who = who'"
    and "fallback_key i who = fallback_key i' who' \<longleftrightarrow> repo_id_display i = repo_id_display i' \<and> who = who'"
    and "attempt_key i who \<noteq> fallback_key i' who'"
proof -
  have a: "attempt_key i who = attempt_key i' x \<longleftrightarrow> repo_id_display i = repo_id_display i' \<and> who = x" for x
    using assms nul_split [of "repo_id_display i" "repo_id_display i'" who x] by (simp add: attempt_key_def no_nul_def)
  show "attempt_key i who = attempt_key i' who' \<longleftrightarrow> repo_id_display i = repo_id_display i' \<and> who = who'" by (rule a)
  have fb: "fallback_key j w = attempt_key j (w @ [CHR 0x00] @ ''fallback'')" for j w
    by (simp add: fallback_key_def attempt_key_def)
  show "fallback_key i who = fallback_key i' who' \<longleftrightarrow> repo_id_display i = repo_id_display i' \<and> who = who'"
    using assms nul_split [of "repo_id_display i" "repo_id_display i'"] by (auto simp: fb attempt_key_def no_nul_def)
  show "attempt_key i who \<noteq> fallback_key i' who'" using a [of "who' @ [CHR 0x00] @ ''fallback''"] assms by (auto simp: fb no_nul_def)
qed

lemma fallback_allowed_cases:
  assumes "bundle_fallback_allowed (Ok p) i now at' = (Some who, at'')"
  obtains tried where "map_of at' (attempt_key i who) = Some tried" "now - tried \<le> ATTEMPT_WINDOW"
    "\<And>t. map_of at' (fallback_key i who) = Some t \<Longrightarrow> t + FALLBACK_EVERY \<le> now"
    "at'' = note_attempt (fallback_key i who) now at'"
  using assms
proof (cases "map_of at' (attempt_key i (pr_name p))")
  case (Some tried)
  have every: "0 < FALLBACK_EVERY" by (simp add: FALLBACK_EVERY_def)
  show thesis using that [of tried] assms Some every
    by (auto simp: bundle_fallback_allowed_def Let_def not_less split: if_splits option.splits)
qed (auto simp: bundle_fallback_allowed_def Let_def split: if_splits)

definition attempts_inv :: "attempt_event list \<Rightarrow> attempts \<Rightarrow> bool" where
  "attempts_inv es at' \<longleftrightarrow> (\<forall>i who. no_nul i who \<longrightarrow>
     map_of at' (fallback_key i who) = last_of (fallback_times i who es) \<and>
     sorted_wrt (\<lambda>a b. a + FALLBACK_EVERY \<le> b) (fallback_times i who es) \<and>
     (\<forall>t. map_of at' (attempt_key i who) = Some t \<longrightarrow> (\<exists>j. repo_id_display j = repo_id_display i \<and> ListAsked j who t \<in> set es)))"

lemma fallback_times_snoc:
  "fallback_times i who (es @ [ListAsked j w t]) = fallback_times i who es"
  "fallback_times i who (es @ [FellBack j w t]) =
     fallback_times i who es @ (if repo_id_display j = repo_id_display i \<and> w = who then [t] else [])"
  by (simp_all add: fallback_times_def List.map_filter_def)

lemma sorted_gap_snoc:
  assumes "sorted_wrt (\<lambda>a b. a + g \<le> b) xs" "\<And>l. last_of xs = Some l \<Longrightarrow> l + g \<le> (t :: nat)"
  shows "sorted_wrt (\<lambda>a b. a + g \<le> b) (xs @ [t])"
proof (cases xs rule: rev_cases)
  case (snoc ys y)
  then show ?thesis using assms by (fastforce simp: sorted_wrt_append last_of_def)
qed simp

lemma attempts_run_inv: "attempts_run es at' \<Longrightarrow> attempts_inv es at'"
proof (induction rule: attempts_run.induct)
  case run_start
  then show ?case by (simp add: attempts_inv_def fallback_times_def last_of_def)
next
  case (run_list es at' i who now)
  show ?case unfolding attempts_inv_def
  proof (intro allI impI conjI)
    fix i' who' assume n: "no_nul i' who'"
    note I = run_list.IH [unfolded attempts_inv_def, rule_format, OF n]
    note K = attempt_keys [OF run_list.hyps(2) n]
    show "map_of (note_attempt (attempt_key i who) now at') (fallback_key i' who') = last_of (fallback_times i' who' (es @ [ListAsked i who now]))"
      using I K(3) by (auto simp: map_of_note fallback_times_snoc)
    show "sorted_wrt (\<lambda>a b. a + FALLBACK_EVERY \<le> b) (fallback_times i' who' (es @ [ListAsked i who now]))"
      using I by (simp add: fallback_times_snoc)
    show "\<exists>j. repo_id_display j = repo_id_display i' \<and> ListAsked j who' t \<in> set (es @ [ListAsked i who now])"
      if "map_of (note_attempt (attempt_key i who) now at') (attempt_key i' who') = Some t" for t
      using that I K(1) by (cases "attempt_key i' who' = attempt_key i who") (auto simp: map_of_note)
  qed
next
  case (run_fallback es at' i who p now at'')
  obtain tried where f: "\<And>t. map_of at' (fallback_key i who) = Some t \<Longrightarrow> t + FALLBACK_EVERY \<le> now"
    "at'' = note_attempt (fallback_key i who) now at'"
    using fallback_allowed_cases [OF run_fallback.hyps(3)] by metis
  show ?case unfolding attempts_inv_def
  proof (intro allI impI conjI)
    fix i' who' assume n: "no_nul i' who'"
    note I = run_fallback.IH [unfolded attempts_inv_def, rule_format, OF n]
    note K = attempt_keys [OF run_fallback.hyps(2) n] attempt_keys(3) [OF n run_fallback.hyps(2)]
    show "map_of at'' (fallback_key i' who') = last_of (fallback_times i' who' (es @ [FellBack i who now]))"
      using I K(2) by (auto simp: f(2) map_of_note fallback_times_snoc last_of_def)
    show "sorted_wrt (\<lambda>a b. a + FALLBACK_EVERY \<le> b) (fallback_times i' who' (es @ [FellBack i who now]))"
    proof (cases "fallback_key i who = fallback_key i' who'")
      case True
      then show ?thesis using I K(2) f(1) by (auto simp: fallback_times_snoc intro!: sorted_gap_snoc)
    next
      case False
      then show ?thesis using I K(2) by (auto simp: fallback_times_snoc)
    qed
    show "\<exists>j. repo_id_display j = repo_id_display i' \<and> ListAsked j who' t \<in> set (es @ [FellBack i who now])"
      if "map_of at'' (attempt_key i' who') = Some t" for t
      using that I K(4) by (auto simp: f(2) map_of_note)
  qed
qed


definition demo_repo :: repo_id where
  "demo_repo = \<lparr>ri_owner = ''o'', ri_name = ''r''\<rparr>"

definition demo_reader :: principal where
  "demo_reader = \<lparr>pr_name = ''a'', pr_write = False, pr_admin = False, pr_anonymous = False\<rparr>"


section \<open>Lists and credentials that go astray\<close>

text \<open>
  The rendered list is cached without the address it was rendered for: a second client gets the addresses of the host name the first
  one used.
\<close>

definition cached_list_run :: "string \<Rightarrow> string \<Rightarrow> (api_error, cell response) result" where
  "cached_list_run url1 url2 =
     (let s0 = snd (the (bundler_build (tiny mem_ops) (5 * NANOS) ''w'' mem_empty));
          ask = (\<lambda>url st. bundle_list_handler mem_ops cell_codec (\<lambda>_. Ok None) (\<lambda>_. []) two_step True (Ok demo_reader) (Ok ()) url
                   demo_repo [] True 0 st s0 :: (api_error, cell response) result \<times> _);
          (_, caches, _) = ask url1 ([], [])
      in fst (ask url2 caches))"

theorem cached_list_has_other_host:
  "cached_list_run ''https://evil'' ''https://git.x.org'' = cached_list_run ''https://evil'' ''https://evil'' \<and>
   cached_list_run ''https://evil'' ''https://git.x.org'' \<noteq> cached_list_run ''https://git.x.org'' ''https://git.x.org''"
  by code_simp

text \<open>Invalidation by the name of the repository removes nothing: every key of the cache has a question mark after the name.\<close>

theorem invalidation_removes_nothing:
  "cache_get (cache_invalidate (cache_insert [] (list_key i filt fulls) v t) (repo_id_display i)) (list_key i filt fulls) v = Some t"
  by (simp add: cache_get_def cache_invalidate_def cache_insert_def list_key_def)

text \<open>
  Capabilities separated by spaces, which the constant documents, are seen by the redirect but not by authentication, which then
  takes the credential of the hop for the client's.
\<close>

theorem spaced_capabilities_use_hop_credential:
  "let h = [(CAPABILITIES_HEADER, Some ''accel-redirect client-authorization''), (''authorization'', Some ''Bearer s3'')];
       h' = [(CAPABILITIES_HEADER, Some ''accel-redirect, client-authorization''), (''authorization'', Some ''Bearer s3'')]
   in accel_requested h \<and> accel_requested h' \<and> bearer_token h' = None \<and>
      fst (require_write (demo_env 5) (demo_auth AuthToken) h' key_set_new) = Err Unauthorized \<and>
      fst (require_write (demo_env 5) (demo_auth AuthToken) h key_set_new) =
        Ok \<lparr>pr_name = ''ci'', pr_write = True, pr_admin = False, pr_anonymous = False\<rparr>"
  by code_simp

end
