(* ===== verification/Lfs.thy ===== *)
theory Lfs
  imports Serve
begin

text \<open>
  Large file storage, \<^verbatim>\<open>crates/walgit-server/src/lfs.rs\<close> and \<^verbatim>\<open>lfs_upstream.rs\<close>: the batch request, download, upload and
  verification of objects and the read-through from an upstream server.  The hash, what the upstream answers, the
  decoding of request bodies and the disk the bytes are spooled on are parameters.  A body arrives in pieces that are not empty.
\<close>

section \<open>Configuration and upstream\<close>

record placement =
  pl_serve :: "string list"
  pl_serve_exclude :: "string list"

definition placement_serves :: "placement \<Rightarrow> string \<Rightarrow> string \<Rightarrow> bool" where
  "placement_serves pl own nm \<longleftrightarrow> repo_listed (pl_serve pl) own nm \<and> \<not> repo_listed (pl_serve_exclude pl) own nm"

record upstream_object =
  uo_oid :: string
  uo_size :: nat
  uo_href :: string

text \<open>An object of the upstream's answer: its id, its size and where it can be downloaded.\<close>

record upstream_answer =
  ua_oid :: string
  ua_size :: nat
  ua_download :: "string option"

record 'a lfs_server =
  lf_enabled :: bool
  lf_placement :: placement
  lf_serve_via :: bundle_serve
  lf_max_object_bytes :: nat
  lf_upstream :: bool
  lf_signer :: "string \<Rightarrow> (store_error, string option) result"
  lf_answer :: "(string \<times> nat) list \<Rightarrow> upstream_answer list option"
  lf_open :: "upstream_object \<Rightarrow> (string, nat \<times> (unit, 'a list) result list) result"
  lf_new_spool :: "(string, unit) result"
  lf_sha256 :: "'a list \<Rightarrow> string"
  lf_spool_ok :: "'a list list \<Rightarrow> bool"

fun relay :: "(string \<times> nat) list \<Rightarrow> upstream_answer list \<Rightarrow> (string \<times> upstream_object) list \<Rightarrow> (string \<times> upstream_object) list" where
  "relay asked [] found = found"
| "relay asked (o' # os) found =
     (case (ua_download o', map_of (rev asked) (ua_oid o')) of
        (Some href, Some asked_size) \<Rightarrow>
          relay asked os ((ua_oid o', \<lparr>uo_oid = ua_oid o', uo_size = (if ua_size o' > 0 then ua_size o' else asked_size),
            uo_href = href\<rparr>) # found)
      | _ \<Rightarrow> relay asked os found)"

definition upstream_batch :: "'a lfs_server \<Rightarrow> (string \<times> nat) list \<Rightarrow> (string \<times> upstream_object) list" where
  "upstream_batch L asked =
     (if asked = [] then [] else case lf_answer L asked of Some os \<Rightarrow> relay asked os [] | None \<Rightarrow> [])"

section \<open>The batch request\<close>

record batch_object =
  bo_oid :: string
  bo_size :: nat

record lfs_actions =
  la_download :: "string option"
  la_upload :: "string option"
  la_verify :: "string option"

record batch_answer =
  ba_oid :: string
  ba_size :: nat
  ba_authenticated :: "bool option"
  ba_actions :: "lfs_actions option"
  ba_error :: "(nat \<times> string) option"

definition not_served_here :: "'a lfs_server \<Rightarrow> repo_id \<Rightarrow> (api_error, unit) result" where
  "not_served_here L i =
     (if placement_serves (lf_placement L) (ri_owner i) (ri_name i) then Ok ()
      else Err (ApiServiceUnavailable (repo_id_display i @ '' is not served by this host; retry shortly'')))"

definition require_lfs_oid :: "string \<Rightarrow> (api_error, unit) result" where
  "require_lfs_oid oid' = (if lfs_oid_ok oid' then Ok () else Err (ApiBadRequest ''invalid lfs oid''))"

definition route_sub_last :: "string \<Rightarrow> string" where
  "route_sub_last sub = rev (takeWhile (\<lambda>c. c \<noteq> CHR ''/'') (rev sub))"

definition lfs_base_url :: "string \<Rightarrow> repo_id \<Rightarrow> string" where
  "lfs_base_url host i = host @ ''/'' @ repo_id_display i"

definition lfs_present :: "('s, 'a) store_ops \<Rightarrow> string \<Rightarrow> 's \<Rightarrow> bool \<times> 's" where
  "lfs_present ops oid' s = (case exists_key ops s (lfs_key oid') of (Inr b, s') \<Rightarrow> (b, s') | (Inl _, s') \<Rightarrow> (False, s'))"

fun probe_all :: "('s, 'a) store_ops \<Rightarrow> batch_object list \<Rightarrow> 's \<Rightarrow> bool list \<times> 's" where
  "probe_all ops [] s = ([], s)"
| "probe_all ops (o' # os) s =
     (let (b, s1) = lfs_present ops (bo_oid o') s; (bs, s2) = probe_all ops os s1 in (b # bs, s2))"

definition object_href :: "string \<Rightarrow> string \<Rightarrow> string" where
  "object_href base' oid' = base' @ ''/info/lfs/objects/'' @ oid'"

definition answer_object ::
  "'a lfs_server \<Rightarrow> string \<Rightarrow> bool \<Rightarrow> (string \<times> upstream_object) list \<Rightarrow> batch_object \<Rightarrow> bool \<Rightarrow> batch_answer" where
  "answer_object L base' is_upload upstream_has o' present =
     (let at_upstream = (\<not> present \<and> map_of upstream_has (bo_oid o') \<noteq> None);
          reply = (\<lambda>auth acts err. \<lparr>ba_oid = bo_oid o', ba_size = bo_size o', ba_authenticated = auth, ba_actions = acts, ba_error = err\<rparr>);
          href = object_href base' (bo_oid o')
      in if is_upload \<and> (present \<or> at_upstream) then reply (Some True) None None
         else if is_upload
         then reply None (Some \<lparr>la_download = None, la_upload = Some href, la_verify = Some (base' @ ''/info/lfs/verify'')\<rparr>) None
         else if at_upstream
         then reply None (Some \<lparr>la_download = Some (href @ ''?size='' @ dec (bo_size o')), la_upload = None, la_verify = None\<rparr>) None
         else if present
         then reply None (Some \<lparr>la_download = Some (case lf_serve_via L of
                                  SignedUrl \<Rightarrow> (case lf_signer L (lfs_key (bo_oid o')) of Inr (Some u) \<Rightarrow> u | _ \<Rightarrow> href)
                                | Proxy \<Rightarrow> href), la_upload = None, la_verify = None\<rparr>) None
         else reply None None (Some (404, ''object not found'')))"

text \<open>\<open>body\<close> is the decoded request, or the text of the decoding error.\<close>

definition lfs_batch ::
  "'a lfs_server \<Rightarrow> ('s, 'a) store_ops \<Rightarrow> (auth_error, principal) result \<Rightarrow> (api_error, unit) result \<Rightarrow> string \<Rightarrow> repo_id
     \<Rightarrow> (string, string \<times> batch_object list) result \<Rightarrow> 's \<Rightarrow> (api_error, batch_answer list) result \<times> 's" where
  "lfs_batch L ops who opened host i body s =
     (if \<not> lf_enabled L then (Err (ApiNotFound ''lfs disabled''), s)
      else case who of
        Inl e \<Rightarrow> (Err (git_lane (api_of_auth e)), s)
      | Inr _ \<Rightarrow>
      (case body of
        Inl e \<Rightarrow> (Err (ApiBadRequest (''invalid lfs batch: '' @ e)), s)
      | Inr (operation, os) \<Rightarrow>
      (case not_served_here L i of
        Inl e \<Rightarrow> (Err e, s)
      | Inr _ \<Rightarrow>
      (case opened of
        Inl e \<Rightarrow> (Err e, s)
      | Inr _ \<Rightarrow>
          if \<not> list_all (\<lambda>o'. lfs_oid_ok (bo_oid o')) os then (Err (ApiBadRequest ''invalid lfs oid''), s)
          else (let (present, s') = probe_all ops os s;
                    missing = map (\<lambda>(o', _). (bo_oid o', bo_size o')) (filter (\<lambda>(_, b). \<not> b) (zip os present));
                    upstream_has = (if lf_upstream L then upstream_batch L missing else [])
                in (Ok (map (\<lambda>(o', b). answer_object L (lfs_base_url host i) (operation = ''upload'') upstream_has o' b)
                          (zip os present)), s'))))))"

section \<open>Objects\<close>

text \<open>The spooling task of a read-through: every chunk is hashed and spooled; a failed chunk ends the stream.\<close>

fun received :: "(unit, 'a list) result list \<Rightarrow> 'a list list \<times> bool" where
  "received [] = ([], True)"
| "received (Inl _ # cs) = ([], False)"
| "received (Inr b # cs) = (let (bs, ok) = received cs in (b # bs, ok))"

definition persist_task ::
  "'a lfs_server \<Rightarrow> ('s, 'a) store_ops \<Rightarrow> string \<Rightarrow> nat \<Rightarrow> (unit, 'a list) result list \<Rightarrow> 's \<Rightarrow> 's" where
  "persist_task L ops oid' len stream s =
     (let (chunks, complete) = received stream; data = concat chunks
      in if complete \<and> lf_spool_ok L chunks \<and> length data = len \<and> lf_sha256 L data = oid'
         then snd (os_put ops s (lfs_key oid') (File (Ok data)) Overwrite) else s)"

definition to_client :: "(unit, 'a list) result list \<Rightarrow> 'a byte_stream" where
  "to_client stream =
     map (\<lambda>c. case c of Inr b \<Rightarrow> Ok b | Inl _ \<Rightarrow> Err (OtherError ''lfs upstream''))
       (takeWhile is_ok stream @ take 1 (dropWhile is_ok stream))"

definition read_through ::
  "'a lfs_server \<Rightarrow> ('s, 'a) store_ops \<Rightarrow> string \<Rightarrow> nat \<Rightarrow> bool \<Rightarrow> 's \<Rightarrow> (api_error, 'a response) result option \<times> 's" where
  "read_through L ops oid' size' is_head s =
     (case map_of (upstream_batch L [(oid', size')]) oid' of
        None \<Rightarrow> (Some (Err (ApiNotFound ''object not found'')), s)
      | Some obj \<Rightarrow>
          if is_head
          then (Some (Ok (set_header ''content-type'' ''application/octet-stream''
                 (set_header ''content-length'' (dec (uo_size obj)) (plain 200 NoBody)))), s)
          else (case lf_open L obj of
                  Inl e \<Rightarrow> (Some (Err (ApiServiceUnavailable (''lfs upstream: '' @ e))), s)
                | Inr (len, stream) \<Rightarrow>
                    (case lf_new_spool L of
                       Inl e \<Rightarrow> (Some (Err (ApiInternal e)), s)
                     | Inr _ \<Rightarrow>
                         (Some (Ok (set_header ''cache-control'' ''no-store''
                            (set_header ''content-type'' ''application/octet-stream''
                              (set_header ''content-length'' (dec len) (plain 200 (Streamed (to_client stream))))))),
                          persist_task L ops oid' len stream s))))"

definition query_size :: "string \<Rightarrow> nat" where
  "query_size q =
     (case List.map_filter (strip_prefix ''size='') (split_on (\<lambda>c. c = CHR ''&'') q) of
        [] \<Rightarrow> 0 | v # _ \<Rightarrow> (case parse_unsigned (2 ^ 64) v of Some n \<Rightarrow> n | None \<Rightarrow> 0))"

definition octet_options :: "bool \<Rightarrow> bool option \<Rightarrow> serve_options" where
  "octet_options accel_on peer = \<lparr>so_content_type = ''application/octet-stream'', so_cache_control = None, so_filename = None,
     so_accel = accel_on, so_peer_loopback = peer\<rparr>"

definition get_object ::
  "'a lfs_server \<Rightarrow> (string \<Rightarrow> bool) \<Rightarrow> (string \<Rightarrow> (string \<times> string option) option) \<Rightarrow> string \<Rightarrow> ('s, 'a) store_ops
     \<Rightarrow> (auth_error, principal) result \<Rightarrow> (api_error, unit) result \<Rightarrow> bool \<Rightarrow> bool option \<Rightarrow> repo_route \<Rightarrow> bool \<Rightarrow> header_map \<Rightarrow> string \<Rightarrow> 's
     \<Rightarrow> (api_error, 'a response) result option \<times> 's" where
  "get_object L hv accel backend ops who opened accel_on peer route is_head h query s =
     (let oid' = route_sub_last (rt_subpath route); key = lfs_key oid'
      in if \<not> lf_enabled L then (Some (Err (ApiNotFound ''lfs disabled'')), s)
         else case who of
           Inl e \<Rightarrow> (Some (Err (git_lane (api_of_auth e))), s)
         | Inr _ \<Rightarrow>
         (case rbind (not_served_here L (rt_id route)) (\<lambda>_. rbind (require_lfs_oid oid') (\<lambda>_. opened)) of
           Inl e \<Rightarrow> (Some (Err e), s)
         | Inr _ \<Rightarrow>
             (let (present, s1) = (if lf_upstream L then lfs_present ops oid' s else (True, s))
              in if \<not> present then read_through L ops oid' (query_size query) is_head s1
                 else (case serve hv accel backend ops key is_head h (octet_options accel_on peer) s1 of
                         (Some (Inl (ApiNotFound _)), s2) \<Rightarrow>
                           (Some (Err (ApiNotFound (''LFS object '' @ oid' @ '' is not in '' @ repo_id_display (rt_id route)))), s2)
                       | r \<Rightarrow> r))))"

text \<open>The loop that reads an upload into the spool file; a failed piece or a failed write ends it.\<close>

fun read_upload :: "nat \<Rightarrow> (string, 'a list) result list \<Rightarrow> 'a list \<Rightarrow> (api_error, 'a list) result" where
  "read_upload limit [] acc = Ok acc"
| "read_upload limit (Inl e # ps) acc = Err (ApiInternal e)"
| "read_upload limit (Inr b # ps) acc =
     (if length acc + length b > limit then Err ApiPayloadTooLarge else read_upload limit ps (acc @ b))"

definition put_object ::
  "'a lfs_server \<Rightarrow> ('s, 'a) store_ops \<Rightarrow> (auth_error, principal) result \<Rightarrow> (api_error, unit) result \<Rightarrow> repo_route
     \<Rightarrow> (string, 'a list) result list \<Rightarrow> 's \<Rightarrow> (api_error, 'a response) result \<times> 's" where
  "put_object L ops who opened route body s =
     (let oid' = route_sub_last (rt_subpath route)
      in if \<not> lf_enabled L then (Err (ApiNotFound ''lfs disabled''), s)
         else case who of
           Inl e \<Rightarrow> (Err (git_lane (api_of_auth e)), s)
         | Inr _ \<Rightarrow>
         (case rbind (not_served_here L (rt_id route)) (\<lambda>_. rbind (require_lfs_oid oid') (\<lambda>_. opened)) of
           Inl e \<Rightarrow> (Err e, s)
         | Inr _ \<Rightarrow>
         (case (case lf_new_spool L of Inl e \<Rightarrow> Err (ApiInternal e) | Inr _ \<Rightarrow> read_upload (lf_max_object_bytes L) body []) of
           Inl e \<Rightarrow> (Err e, s)
         | Inr data \<Rightarrow>
             if lf_sha256 L data \<noteq> oid' then (Err (ApiBadRequest ''lfs object sha256 mismatch''), s)
             else (case os_put ops s (lfs_key oid') (File (Ok data)) Overwrite of
                     (Inl e, s') \<Rightarrow> (Err (api_of_store e), s')
                   | (Inr _, s') \<Rightarrow> (Ok (plain 200 NoBody), s')))))"

definition verify_object ::
  "'a lfs_server \<Rightarrow> ('s, 'a) store_ops \<Rightarrow> (auth_error, principal) result \<Rightarrow> (api_error, unit) result
     \<Rightarrow> (string, batch_object) result \<Rightarrow> 's \<Rightarrow> (api_error, 'a response) result \<times> 's" where
  "verify_object L ops who opened body s =
     (if \<not> lf_enabled L then (Err (ApiNotFound ''lfs disabled''), s)
      else case who of
        Inl e \<Rightarrow> (Err (git_lane (api_of_auth e)), s)
      | Inr _ \<Rightarrow>
      (case body of
        Inl e \<Rightarrow> (Err (ApiBadRequest (''invalid lfs verify: '' @ e)), s)
      | Inr o' \<Rightarrow>
      (case rbind (require_lfs_oid (bo_oid o')) (\<lambda>_. opened) of
        Inl e \<Rightarrow> (Err e, s)
      | Inr _ \<Rightarrow>
          (case os_head ops s (lfs_key (bo_oid o')) of
             (Inl e, s') \<Rightarrow> (Err (api_of_store e), s')
           | (Inr (Some m), s') \<Rightarrow>
               (if meta_size m = bo_size o' then Ok (plain 200 NoBody) else Err (ApiBadRequest ''lfs size mismatch''), s')
           | (Inr None, s') \<Rightarrow> (Err (ApiNotFound (bo_oid o')), s')))))"

section \<open>Stored objects are what their name says\<close>

lemma lfs_key_inj:
  assumes "lfs_oid_ok a" "lfs_oid_ok b" "lfs_key a = lfs_key b"
  shows "a = b"
proof -
  have l: "length a = 64" "length b = 64" using assms(1,2) by (simp_all add: lfs_oid_ok_def)
  have "lfs_key x = (LFS_DIR @ take 2 x @ ''/'' @ take 2 (drop 2 x) @ ''/'') @ x" if "length x = 64" for x
    using that by (simp add: lfs_key_def)
  then show ?thesis using l assms(3) by (metis append_eq_append_conv)
qed

definition lfs_sound :: "('a list \<Rightarrow> string) \<Rightarrow> (string \<Rightarrow> (version \<times> 'a list) option) \<Rightarrow> bool" where
  "lfs_sound sha vw \<longleftrightarrow> (\<forall>oid' v d. lfs_oid_ok oid' \<longrightarrow> vw (lfs_key oid') = Some (v, d) \<longrightarrow> sha d = oid')"

lemma lfs_sound_upd:
  "lfs_sound sha vw \<Longrightarrow> lfs_oid_ok oid' \<Longrightarrow> sha d = oid' \<Longrightarrow> lfs_sound sha (vw(lfs_key oid' \<mapsto> (v, d)))"
  by (simp add: lfs_sound_def) (metis lfs_key_inj option.inject prod.inject)

text \<open>The requests of the clients of one repository, in the order in which the server completes them.\<close>

inductive lfs_step :: "'a lfs_server \<Rightarrow> ('s, 'a) store_ops \<Rightarrow> 's \<Rightarrow> 's \<Rightarrow> bool" for L ops where
  step_batch: "lfs_batch L ops who opened host i body s = (r, s') \<Longrightarrow> lfs_step L ops s s'"
| step_get: "get_object L hv accel backend ops who opened accel_on peer route is_head h query s = (rg, s') \<Longrightarrow> lfs_step L ops s s'"
| step_put: "put_object L ops who opened route pieces s = (rp, s') \<Longrightarrow> lfs_step L ops s s'"
| step_verify: "verify_object L ops who opened claim s = (rp, s') \<Longrightarrow> lfs_step L ops s s'"

context sole_client
begin

abbreviation same :: "'a \<Rightarrow> 'a \<Rightarrow> bool" where
  "same s s' \<equiv> invar s' \<and> view s' = view s"

lemma head_same: "invar s \<Longrightarrow> os_head ops s k = (r, s') \<Longrightarrow> same s s'"
  using head_law head_quiet by blast

lemma get_same: "invar s \<Longrightarrow> os_get ops s k opts = (r, s') \<Longrightarrow> same s s'"
  using get_law get_quiet by blast

lemma present_same: "invar s \<Longrightarrow> lfs_present ops oid' s = (b, s') \<Longrightarrow> same s s'"
  using head_same [of s "lfs_key oid'"] by (auto simp: lfs_present_def exists_key_def split: prod.splits sum.splits)

lemma probe_all_same: "invar s \<Longrightarrow> probe_all ops os s = (bs, s') \<Longrightarrow> same s s'"
proof (induction os arbitrary: s bs)
  case (Cons o' os)
  obtain b s1 where p: "lfs_present ops (bo_oid o') s = (b, s1)" by (cases "lfs_present ops (bo_oid o') s")
  obtain cs where q: "probe_all ops os s1 = (cs, s')" using Cons.prems p by (auto split: prod.splits)
  show ?case using present_same [OF Cons.prems(1) p] Cons.IH [OF _ q] by simp
qed simp

lemma head_object_same: "invar s \<Longrightarrow> head_object ops key s = (r, s') \<Longrightarrow> same s s'"
  using head_same [of s key] by (auto simp: head_object_def split: prod.splits sum.splits option.splits)

lemma serve_range_same: "invar s \<Longrightarrow> serve_range hv o' ops key spec m s = (r, s') \<Longrightarrow> same s s'"
  using get_same [of s key]
  by (auto simp: serve_range_def split: prod.splits sum.splits option.splits get_result.splits store_error.splits)

lemma serve_whole_same: "invar s \<Longrightarrow> serve_whole hv o' ops key h s = (r, s') \<Longrightarrow> same s s'"
  using get_same [of s key]
  by (auto simp: serve_whole_def Let_def split: prod.splits sum.splits option.splits get_result.splits store_error.splits)

lemma serve_same:
  assumes "invar s" "serve hv accel backend ops key is_head h o' s = (r, s')"
  shows "same s s'"
proof -
  obtain g t where g: "head_object ops key s = (g, t)" by (cases "head_object ops key s")
  note T = head_object_same [OF assms(1) g]
  note S = assms(2) [unfolded serve_def Let_def g]
  have "s' = t \<or> (\<exists>x m. serve_range hv o' ops key x m t = (r, s')) \<or> serve_whole hv o' ops key h t = (r, s') \<or>
      serve_whole hv o' ops key h s = (r, s')"
    using S by (auto split: option.splits sum.splits if_splits)
  then show ?thesis using T assms(1) serve_whole_same [of t] serve_range_same [of t] serve_whole_same [of s] by metis
qed

lemma put_sound:
  assumes "invar s" "lfs_sound sha (view s)" "lfs_oid_ok oid'" "sha d = oid'"
    "os_put ops s (lfs_key oid') (File (Ok d)) m = (r, s')"
  shows "invar s' \<and> lfs_sound sha (view s')"
  using put_effect [OF assms(1,5)] assms(2-4) by (auto simp: lfs_sound_upd split: sum.splits)

lemma persist_sound:
  assumes "invar s" "lfs_sound (lf_sha256 L) (view s)" "lfs_oid_ok oid'"
  shows "invar (persist_task L ops oid' len stream s) \<and> lfs_sound (lf_sha256 L) (view (persist_task L ops oid' len stream s))"
proof -
  obtain r s' where p: "os_put ops s (lfs_key oid') (File (Ok (concat (fst (received stream))))) Overwrite = (r, s')"
    by (cases "os_put ops s (lfs_key oid') (File (Ok (concat (fst (received stream))))) Overwrite")
  show ?thesis
    using put_sound [OF assms _ p] assms(1,2) p by (simp add: persist_task_def Let_def case_prod_unfold)
qed

lemma read_through_sound:
  assumes "invar s" "lfs_sound (lf_sha256 L) (view s)" "lfs_oid_ok oid'" "read_through L ops oid' n is_head s = (r, s')"
  shows "invar s' \<and> lfs_sound (lf_sha256 L) (view s')"
  using assms persist_sound [OF assms(1-3)]
  by (auto simp: read_through_def split: option.splits if_splits sum.splits)

lemma get_object_sound:
  assumes "invar s" "lfs_sound (lf_sha256 L) (view s)"
    and "get_object L hv accel backend ops who opened accel_on peer route is_head h query s = (r, s')"
  shows "invar s' \<and> lfs_sound (lf_sha256 L) (view s')"
proof -
  let ?oid' = "route_sub_last (rt_subpath route)"
  obtain b s1 where p: "(if lf_upstream L then lfs_present ops ?oid' s else (True, s)) = (b, s1)"
    by (cases "if lf_upstream L then lfs_present ops ?oid' s else (True, s)")
  have S1: "invar s1" "lfs_sound (lf_sha256 L) (view s1)"
    using p assms(1,2) present_same [OF assms(1)] by (auto split: if_splits)
  obtain g s2 where g: "serve hv accel backend ops (lfs_key ?oid') is_head h (octet_options accel_on peer) s1 = (g, s2)"
    by (cases "serve hv accel backend ops (lfs_key ?oid') is_head h (octet_options accel_on peer) s1")
  have "s' = s \<or> s' = s2 \<or> (lfs_oid_ok ?oid' \<and> read_through L ops ?oid' (query_size query) is_head s1 = (r, s'))"
    using assms(3) p g
    by (auto simp: get_object_def Let_def rbind_def require_lfs_oid_def split: sum.splits if_splits option.splits api_error.splits)
  then show ?thesis using assms(1,2) serve_same [OF S1(1) g] S1 read_through_sound [OF S1] by metis
qed

lemma put_object_sound:
  assumes "invar s" "lfs_sound (lf_sha256 L) (view s)" "put_object L ops who opened route body s = (r, s')"
  shows "invar s' \<and> lfs_sound (lf_sha256 L) (view s')"
proof -
  let ?oid' = "route_sub_last (rt_subpath route)"
  have "s' = s \<or> (lfs_oid_ok ?oid' \<and> (\<exists>d x. lf_sha256 L d = ?oid' \<and> os_put ops s (lfs_key ?oid') (File (Ok d)) Overwrite = (x, s')))"
    using assms(3)
    by (auto simp: put_object_def Let_def rbind_def require_lfs_oid_def split: sum.splits if_splits prod.splits)
  then show ?thesis using assms(1,2) put_sound [OF assms(1,2)] by blast
qed

lemma lfs_step_sound:
  assumes "lfs_step L ops s s'" "invar s" "lfs_sound (lf_sha256 L) (view s)"
  shows "invar s' \<and> lfs_sound (lf_sha256 L) (view s')"
  using assms
proof (cases rule: lfs_step.cases)
  case (step_batch who opened host i body r)
  obtain bs t where "probe_all ops (snd (projr body)) s = (bs, t)" by (cases "probe_all ops (snd (projr body)) s")
  moreover have "s' = s \<or> s' = t"
    using step_batch calculation by (auto simp: lfs_batch_def Let_def split: sum.splits if_splits prod.splits)
  ultimately show ?thesis using probe_all_same assms(2,3) by metis
next
  case (step_verify who opened claim rp)
  obtain g t where "os_head ops s (lfs_key (bo_oid (projr claim))) = (g, t)" by (cases "os_head ops s (lfs_key (bo_oid (projr claim)))")
  moreover have "s' = s \<or> s' = t"
    using step_verify calculation by (auto simp: verify_object_def split: sum.splits if_splits option.splits)
  ultimately show ?thesis using head_same assms(2,3) by metis
next
  case step_get
  then show ?thesis using get_object_sound [OF assms(2,3)] by simp
next
  case step_put
  then show ?thesis using put_object_sound [OF assms(2,3)] by simp
qed

lemma lfs_run_sound:
  "(lfs_step L ops)\<^sup>*\<^sup>* s s' \<Longrightarrow> invar s \<Longrightarrow> lfs_sound (lf_sha256 L) (view s) \<Longrightarrow> invar s' \<and> lfs_sound (lf_sha256 L) (view s')"
  by (induction rule: rtranclp_induct) (use lfs_step_sound in blast)+

end

text \<open>
  C21. Stored objects are what their name says: whatever batches, downloads, uploads, verifications and reads through from an
  upstream the server completes, over a link that loses requests and answers, every object found under the key of an id hashes
  to that id.
\<close>

theorem lfs_objects_stay_sound:
  assumes "(lfs_step L (prefixed p (fault_ops mem_ops)))\<^sup>*\<^sup>* s s'" "link_inv mem_inv s"
    and "lfs_sound (lf_sha256 L) (\<lambda>k. link_view mem_view s (p @ k))"
  shows "lfs_sound (lf_sha256 L) (\<lambda>k. link_view mem_view s' (p @ k))"
  using sole_link.lfs_run_sound [OF assms] by simp

section \<open>Uploads come back\<close>

lemma read_upload_ok:
  "list_all is_ok pieces \<Longrightarrow> length acc + length (concat (map projr pieces)) \<le> limit
   \<Longrightarrow> read_upload limit pieces acc = Ok (acc @ concat (map projr pieces))"
proof (induction pieces arbitrary: acc)
  case (Cons b pieces)
  then show ?case by (cases b) simp_all
qed simp

text \<open>A server that has LFS on, serves the repository and can spool, and a request that was let in.\<close>

definition lfs_ready :: "'a lfs_server \<Rightarrow> repo_id \<Rightarrow> bool" where
  "lfs_ready L i \<longleftrightarrow> lf_enabled L \<and> placement_serves (lf_placement L) (ri_owner i) (ri_name i) \<and> lf_new_spool L = Ok ()"

lemma route_sub_last_object: "CHR ''/'' \<notin> set oid' \<Longrightarrow> route_sub_last (d @ ''/'' @ oid') = oid'"
  using filename_of_last [of oid' d] by (simp add: route_sub_last_def filename_of_def)

lemma lfs_oid_no_slash: "lfs_oid_ok oid' \<Longrightarrow> CHR ''/'' \<notin> set oid'"
  by (auto simp: lfs_oid_ok_def list_all_iff is_ascii_hexdigit_def)

lemma mem_put_file:
  assumes "mem_inv s"
  obtains v s' m where "os_put (prefixed p mem_ops) s k (File (Ok d)) Overwrite = (Ok m, s')" "mem_inv s'"
    "mem_view s' (p @ k) = Some (v, d)"
proof -
  obtain r s' where r: "mem_put s (p @ k) (File (Ok d)) Overwrite = (r, s')" by (cases "mem_put s (p @ k) (File (Ok d)) Overwrite")
  have ok: "bt_ok (objects s)" using assms by (simp add: mem_inv_def)
  from r have "body_bytes (File (Ok d)) = Ok d" by simp
  with r show thesis
  proof (cases rule: mem_put_cases)
    case applied
    have "os_put (prefixed p mem_ops) s k (File (Ok d)) Overwrite =
        (Ok (strip_meta p \<lparr>meta_key = p @ k, meta_size = length d, meta_version = Suc (counter s)\<rparr>), s')"
      using r applied(2) by (simp add: prefixed_put_def full_key_def)
    moreover have "mem_view s' (p @ k) = Some (Suc (counter s), d)" using applied(3) ok by (simp add: mem_view_def)
    ultimately show ?thesis using that mem_put_evolves [OF assms r] by blast
  qed simp
qed

text \<open>
  C18. An upload comes back: after an upload whose bytes hash to its id, verification with their number succeeds, the batch
  request offers the object and a download answers with exactly these bytes.
\<close>

theorem uploaded_object_comes_back:
  assumes "mem_inv s" "lfs_ready L (rt_id route)" "lfs_oid_ok oid'" "rt_subpath route = ''info/lfs/objects/'' @ oid'"
    and "list_all is_ok pieces" "data = concat (map projr pieces)" "length data \<le> lf_max_object_bytes L" "lf_sha256 L data = oid'"
    and "lf_serve_via L = Proxy"
  shows "\<exists>s'. put_object L (prefixed p mem_ops) (Ok who) (Ok ()) route pieces s = (Ok (plain 200 NoBody), s') \<and>
    verify_object L (prefixed p mem_ops) (Ok who) (Ok ()) (Ok \<lparr>bo_oid = oid', bo_size = length data\<rparr>) s' = (Ok (plain 200 NoBody), s') \<and>
    (\<exists>a. lfs_batch L (prefixed p mem_ops) (Ok who) (Ok ()) host (rt_id route)
           (Ok (''download'', [\<lparr>bo_oid = oid', bo_size = length data\<rparr>])) s' = (Ok [a], s') \<and>
       ba_actions a = Some \<lparr>la_download = Some (host @ ''/'' @ repo_id_display (rt_id route) @ ''/'' @ rt_subpath route),
         la_upload = None, la_verify = None\<rparr>) \<and>
    (\<exists>r st. get_object L hv accel backend (prefixed p mem_ops) (Ok who) (Ok ()) False peer route False [] query s' = (Some (Ok r), s') \<and>
       rs_status r = 200 \<and> rs_body r = Streamed st \<and> collect st = Ok data)"
proof -
  let ?ops = "prefixed p mem_ops" and ?k = "lfs_key oid'"
  have R: "lf_enabled L" "not_served_here L (rt_id route) = Ok ()" "lf_new_spool L = Ok ()"
    using assms(2) by (simp_all add: lfs_ready_def not_served_here_def)
  have last: "route_sub_last (rt_subpath route) = oid'"
    using route_sub_last_object [OF lfs_oid_no_slash [OF assms(3)], of "''info/lfs/objects''"] assms(4) by simp
  have up: "read_upload (lf_max_object_bytes L) pieces [] = Ok data"
    using read_upload_ok [OF assms(5), of "[]"] assms(6,7) by simp
  have oid_ok: "require_lfs_oid oid' = Ok ()" using assms(3) by (simp add: require_lfs_oid_def)
  obtain v s' m where s': "os_put ?ops s ?k (File (Ok data)) Overwrite = (Ok m, s')" "mem_view s' (p @ ?k) = Some (v, data)"
    using mem_put_file [OF assms(1)] by metis
  have P: "put_object L ?ops (Ok who) (Ok ()) route pieces s = (Ok (plain 200 NoBody), s')"
    using R last up oid_ok s'(1) assms(8) by (simp add: put_object_def Let_def)
  obtain hm where h: "os_head ?ops s' ?k = (Ok (Some hm), s')" "meta_size hm = length data"
  proof -
    obtain m' where m': "head_object ?ops ?k s' = (Ok m', s')" "meta_size m' = length data" using head_in_prefix [OF s'(2)] by metis
    then show thesis using that by (auto simp: head_object_def split: sum.splits option.splits prod.splits)
  qed
  have V: "verify_object L ?ops (Ok who) (Ok ()) (Ok \<lparr>bo_oid = oid', bo_size = length data\<rparr>) s' = (Ok (plain 200 NoBody), s')"
    using R h oid_ok by (simp add: verify_object_def)
  have here: "lfs_present ?ops oid' s' = (True, s')" using h by (simp add: lfs_present_def exists_key_def)
  have B: "lfs_batch L ?ops (Ok who) (Ok ()) host (rt_id route) (Ok (''download'', [\<lparr>bo_oid = oid', bo_size = length data\<rparr>])) s' =
      (Ok [answer_object L (lfs_base_url host (rt_id route)) False [] \<lparr>bo_oid = oid', bo_size = length data\<rparr> True], s')"
    using R here assms(3) by (simp add: lfs_batch_def upstream_batch_def)
  obtain gm where g: "serve_whole hv (octet_options False peer) ?ops ?k [] s' =
      (Some (Ok (whole_object hv (octet_options False peer) gm (Streamed (once data)))), s')"
    using plain_get [OF s'(2), of "[]" hv "octet_options False peer"] by (metis header_all_def filter.simps(1) map_filter_simps(1))
  then have G: "get_object L hv accel backend ?ops (Ok who) (Ok ()) False peer route False [] query s' =
      (Some (Ok (whole_object hv (octet_options False peer) gm (Streamed (once data)))), s')"
    using R here last oid_ok
    by (simp add: get_object_def serve_def parse_range_def header_get_def Let_def octet_options_def)
  have A: "ba_actions (answer_object L (lfs_base_url host (rt_id route)) False [] \<lparr>bo_oid = oid', bo_size = length data\<rparr> True) =
      Some \<lparr>la_download = Some (host @ ''/'' @ repo_id_display (rt_id route) @ ''/'' @ rt_subpath route), la_upload = None, la_verify = None\<rparr>"
    by (simp add: answer_object_def Let_def lfs_base_url_def object_href_def assms(4,9))
  have W: "rs_status (whole_object hv o' gm (Streamed (once data))) = 200" "rs_body (whole_object hv o' gm (Streamed (once data))) = Streamed (once data)"
    "collect (once data) = Ok data" for o'
    by (simp_all add: whole_object_def)
  show ?thesis using P V B A G W by blast
qed

definition demo_lfs :: "nat lfs_server" where
  "demo_lfs = \<lparr>lf_enabled = True, lf_placement = \<lparr>pl_serve = [''*''], pl_serve_exclude = []\<rparr>, lf_serve_via = Proxy,
     lf_max_object_bytes = 10, lf_upstream = False, lf_signer = (\<lambda>_. Ok None), lf_answer = (\<lambda>_. None), lf_open = (\<lambda>_. Err []),
     lf_new_spool = Ok (), lf_sha256 = (\<lambda>d. replicate 64 (if d = [1, 2, 3] then CHR ''a'' else CHR ''0'')), lf_spool_ok = (\<lambda>_. True)\<rparr>"

definition demo_oid :: string where
  "demo_oid = replicate 64 (CHR ''a'')"

definition demo_object_route :: repo_route where
  "demo_object_route = \<lparr>rt_id = demo_repo, rt_subpath = ''info/lfs/objects/'' @ demo_oid, rt_had_git_suffix = False\<rparr>"

lemma demo_lfs_ready: "lfs_ready demo_lfs (rt_id demo_object_route)" "lfs_oid_ok demo_oid"
  by code_simp+

theorem uploaded_object_comes_back_witness:
  "\<exists>s' r st. put_object demo_lfs (prefixed ''p/'' mem_ops) (Ok demo_reader) (Ok ()) demo_object_route [Ok [1, 2], Ok [3]] mem_empty =
       (Ok (plain 200 NoBody), s') \<and>
     get_object demo_lfs (\<lambda>_. True) (\<lambda>_. None) [] (prefixed ''p/'' mem_ops) (Ok demo_reader) (Ok ()) False None demo_object_route False
       [] [] s' = (Some (Ok r), s') \<and> rs_status r = 200 \<and> rs_body r = Streamed st \<and> collect st = Ok [1, 2, 3]"
proof -
  have i: "mem_inv (mem_empty :: nat mem_store)" by simp
  have d: "rt_subpath demo_object_route = ''info/lfs/objects/'' @ demo_oid" "lf_sha256 demo_lfs [1, 2, 3] = demo_oid"
    "lf_serve_via demo_lfs = Proxy" "length [1, 2, 3 :: nat] \<le> lf_max_object_bytes demo_lfs"
    by (simp_all add: demo_object_route_def demo_oid_def demo_lfs_def)
  have p: "list_all is_ok [Ok [1, 2], Ok [3 :: nat]]" "[1, 2, 3] = concat (map projr [Ok [1, 2], Ok [3 :: nat]])" by simp_all
  show ?thesis
    using uploaded_object_comes_back [OF i demo_lfs_ready d(1) p d(4,2,3), of "''p/''" demo_reader "[]" "\<lambda>_. True" "\<lambda>_. None" "[]" None "[]"]
    by blast
qed

definition demo_link :: "nat mem_store fault_state" where
  "demo_link = \<lparr>inner = mem_empty, plan = quiet_plan, rng = 1, fired_panics = []\<rparr>"

theorem lfs_objects_stay_sound_witness:
  "\<exists>s'. (lfs_step demo_lfs (prefixed ''p/'' (fault_ops mem_ops)))\<^sup>*\<^sup>* demo_link s' \<and>
     link_view mem_view s' (''p/'' @ lfs_key demo_oid) = Some (1, [1, 2, 3]) \<and>
     lfs_sound (lf_sha256 demo_lfs) (\<lambda>k. link_view mem_view s' (''p/'' @ k))"
proof -
  let ?ops = "prefixed ''p/'' (fault_ops mem_ops) :: (nat mem_store fault_state, nat) store_ops"
  obtain r s' where s': "put_object demo_lfs ?ops (Ok demo_reader) (Ok ()) demo_object_route [Ok [1, 2], Ok [3]] demo_link = (r, s')"
    by (cases "put_object demo_lfs ?ops (Ok demo_reader) (Ok ()) demo_object_route [Ok [1, 2], Ok [3]] demo_link")
  have run: "(lfs_step demo_lfs ?ops)\<^sup>*\<^sup>* demo_link s'" by (rule r_into_rtranclp) (rule step_put [OF s'])
  have i: "link_inv mem_inv demo_link" using quiet_inv [of demo_link mem_inv] by (simp add: demo_link_def)
  have z: "lfs_sound (lf_sha256 demo_lfs) (\<lambda>k. link_view mem_view demo_link (''p/'' @ k))"
    by (simp add: lfs_sound_def link_view_def mem_view_def demo_link_def mem_empty_def)
  have "link_view mem_view (snd (put_object demo_lfs ?ops (Ok demo_reader) (Ok ()) demo_object_route [Ok [1, 2], Ok [3]] demo_link))
      (''p/'' @ lfs_key demo_oid) = Some (1, [1, 2, 3])"
    by code_simp
  then have "link_view mem_view s' (''p/'' @ lfs_key demo_oid) = Some (1, [1, 2, 3])" by (simp only: s' snd_conv)
  then show ?thesis using run lfs_objects_stay_sound [OF run i z] by blast
qed

section \<open>Answers that mislead\<close>

text \<open>A bucket that fails to answer is reported as an object that is not there, not as an error to try again.\<close>

theorem failing_bucket_reads_as_missing:
  assumes "os_head ops s (lfs_key (bo_oid o')) = (Err e, s')" "lf_enabled L" "not_served_here L i = Ok ()" "lfs_oid_ok (bo_oid o')"
    "\<not> lf_upstream L"
  shows "lfs_batch L ops (Ok who) (Ok ()) host i (Ok (''download'', [o'])) s =
    (Ok [\<lparr>ba_oid = bo_oid o', ba_size = bo_size o', ba_authenticated = None, ba_actions = None,
       ba_error = Some (404, ''object not found'')\<rparr>], s')"
  using assms by (simp add: lfs_batch_def lfs_present_def exists_key_def answer_object_def Let_def)

text \<open>An id in capital letters is accepted, and its bytes are refused whatever they are: hashes are printed in small letters.\<close>

theorem capital_oid_never_uploads:
  assumes "\<And>d. \<not> list_ex (\<lambda>c. c \<in> set ''ABCDEF'') (lf_sha256 L d)"
    and "list_ex (\<lambda>c. c \<in> set ''ABCDEF'') (route_sub_last (rt_subpath route))"
  shows "snd (put_object L ops who opened route pieces s) = s \<and> (\<exists>e. fst (put_object L ops who opened route pieces s) = Err e)"
proof -
  have "lf_sha256 L d \<noteq> route_sub_last (rt_subpath route)" for d using assms by metis
  then show ?thesis by (auto simp: put_object_def Let_def split: sum.splits)
qed

text \<open>A host that does not serve a repository reads its bucket all the same when asked to verify an upload.\<close>

theorem verification_ignores_placement:
  assumes "os_head ops s (lfs_key oid') = (Ok (Some m), s')" "lf_enabled L" "lfs_oid_ok oid'"
  shows "verify_object L ops (Ok who) (Ok ()) (Ok \<lparr>bo_oid = oid', bo_size = meta_size m\<rparr>) s = (Ok (plain 200 NoBody), s')"
  using assms by (simp add: verify_object_def require_lfs_oid_def)

end
