(* ===== verification/Events.thy ===== *)
theory Events
  imports Wal_Sync Collab Http
begin

text \<open>
  Events of refs, \<^verbatim>\<open>crates/walgit-server/src/events.rs\<close>, and the bridge that delivers them, \<^verbatim>\<open>bridge.rs\<close>: it reads the
  log behind a cursor kept in the bucket, converts the entries, delivers the events to every sink and advances the cursor.
  Sinks are functions that accept a batch or do not; what they accepted is a list for each.  The difference of head and
  cursor only feeds a gauge and is left out.  The handle of the repository is an argument; a repository that does not open is a
  catch-up that fails.
\<close>

section \<open>Events of a log entry\<close>

datatype ref_action = ActCreate | ActUpdate | ActDelete

fun action_str :: "ref_action \<Rightarrow> string" where
  "action_str ActCreate = ''create''"
| "action_str ActUpdate = ''update''"
| "action_str ActDelete = ''delete''"

definition absent :: "string \<Rightarrow> bool" where
  "absent o' \<longleftrightarrow> o' = [] \<or> list_all (\<lambda>c. c = CHR ''0'') o'"

definition classify_event :: "string \<Rightarrow> string \<Rightarrow> ref_action option" where
  "classify_event old new =
     (case (absent old, absent new) of
        (True, True) \<Rightarrow> None
      | (True, False) \<Rightarrow> Some ActCreate
      | (False, True) \<Rightarrow> Some ActDelete
      | (False, False) \<Rightarrow> if old = new then None else Some ActUpdate)"

definition zero_like :: "string \<Rightarrow> string" where
  "zero_like other = replicate (length other) (CHR ''0'')"

definition ref_type :: "string \<Rightarrow> string" where
  "ref_type n =
     (if starts_with n ''refs/heads/'' then ''branch'' else if starts_with n ''refs/tags/'' then ''tag'' else [])"

record walgit_ext =
  ext_schema_version :: nat
  ext_seq :: string
  ext_entry_kind :: string
  ext_request_id :: string

record ref_event =
  ev_action :: ref_action
  ev_ref_type :: string
  ev_ref_name :: string
  ev_old :: string
  ev_new :: string
  ev_pusher :: string
  ev_correlation_id :: string
  ev_repo :: string
  ev_walgit :: walgit_ext

definition event_key :: "ref_event \<Rightarrow> string" where
  "event_key e = ev_repo e @ ''/'' @ ev_ref_name e"

definition event_headers :: "ref_event \<Rightarrow> (string \<times> string) list" where
  "event_headers e =
     [(''repo'', ev_repo e), (''action'', action_str (ev_action e)), (''ref_type'', ev_ref_type e), (''ref_name'', ev_ref_name e),
      (''pusher'', ev_pusher e), (''seq'', ext_seq (ev_walgit e)), (''correlation_id'', ev_correlation_id e)]"

fun event_kind :: "entry_kind \<Rightarrow> string option" where
  "event_kind KPush = Some ''push''"
| "event_kind KRefUpdate = Some ''ref_update''"
| "event_kind _ = None"

definition meta_value :: "log_entry \<Rightarrow> string \<Rightarrow> string" where
  "meta_value e k = (case map_of (entry_meta e) k of Some v \<Rightarrow> v | None \<Rightarrow> [])"

definition update_event :: "repo_id \<Rightarrow> log_entry \<Rightarrow> string \<Rightarrow> ref_update \<Rightarrow> ref_event option" where
  "update_event i e knd u =
     (if new_symbolic_target u \<noteq> [] then None
      else case classify_event (old_oid u) (new_oid u) of
        None \<Rightarrow> None
      | Some act \<Rightarrow>
          (let (old, new) = (case act of
                 ActCreate \<Rightarrow> (zero_like (new_oid u), new_oid u)
               | ActDelete \<Rightarrow> (old_oid u, zero_like (old_oid u))
               | ActUpdate \<Rightarrow> (old_oid u, new_oid u));
               request_id = meta_value e ''request_id''
           in Some \<lparr>ev_action = act, ev_ref_type = ref_type (upd_name u), ev_ref_name = upd_name u, ev_old = old, ev_new = new,
                ev_pusher = meta_value e ''principal'', ev_correlation_id = request_id, ev_repo = repo_id_display i,
                ev_walgit = \<lparr>ext_schema_version = 1, ext_seq = dec (seq e), ext_entry_kind = knd, ext_request_id = request_id\<rparr>\<rparr>))"

definition entry_events :: "repo_id \<Rightarrow> log_entry \<Rightarrow> ref_event list" where
  "entry_events i e =
     (case (event_kind (kind e), txn e) of
        (Some knd, Some t) \<Rightarrow> List.map_filter (update_event i e knd) (updates t)
      | _ \<Rightarrow> [])"

definition refs_from_entries :: "repo_id \<Rightarrow> log_entry list \<Rightarrow> ref_event list" where
  "refs_from_entries i es = concat (map (entry_events i) es)"

text \<open>The headers of a delivery: \<open>sha1\<close> and \<open>hmac\<close> in hexadecimal.\<close>

definition webhook_headers ::
  "('a list \<Rightarrow> string) \<Rightarrow> (string \<Rightarrow> 'a list \<Rightarrow> string) \<Rightarrow> string option \<Rightarrow> 'a list \<Rightarrow> (string \<times> string) list" where
  "webhook_headers sha1 hmac secret body =
     [(''content-type'', ''application/json''), (''x-walgit-delivery'', sha1 body)] @
     (case secret of Some k \<Rightarrow> [(''x-walgit-signature'', ''sha256='' @ hmac k body)] | None \<Rightarrow> [])"

section \<open>The bridge\<close>

definition sync_refs_phase ::
  "('s, 'a) store_ops \<Rightarrow> 'a codecs \<Rightarrow> (string \<Rightarrow> string) \<Rightarrow> bool \<Rightarrow> repo_handle \<Rightarrow> 's
     \<Rightarrow> (wal_error, repo_handle) result \<times> 's" where
  "sync_refs_phase ops cs peel ttl_active h s =
     (if refs_verified h \<and> ttl_active then (Ok h, s) else sync_locked_inner ops cs peel (\<not> refs_verified h) h s)"

definition CURSOR_KEY :: string where
  "CURSOR_KEY = ''events/cursor.json''"

record cursor =
  published_seq :: nat
  cursor_updated_at :: string

record catch_up_report =
  cu_repo :: string
  cu_from_seq :: nat
  cu_head_seq :: nat
  cu_emitted :: nat
  cu_gap :: "(nat \<times> nat) option"

datatype bridge_error = BWal wal_error | BStore store_error | BCursor | BSink

text \<open>Every sink in turn; the first that refuses the batch ends the delivery.\<close>

fun deliver :: "(ref_event list \<Rightarrow> bool) list \<Rightarrow> ref_event list \<Rightarrow> ref_event list list \<Rightarrow> bool \<times> ref_event list list" where
  "deliver (takes # sinks) batch (box # boxes) =
     (if takes batch then let (ok, boxes') = deliver sinks batch boxes in (ok, (box @ batch) # boxes')
      else (False, box # boxes))"
| "deliver _ batch boxes = (True, boxes)"

definition bridge_publish :: "(ref_event list \<Rightarrow> bool) list \<Rightarrow> ref_event list \<Rightarrow> ref_event list list \<Rightarrow> bool \<times> ref_event list list" where
  "bridge_publish sinks batch boxes = (if batch = [] then (True, boxes) else deliver sinks batch boxes)"

definition read_cursor ::
  "('s, 'a) store_ops \<Rightarrow> ('a, cursor) msg_codec \<Rightarrow> 's \<Rightarrow> (bridge_error, nat option \<times> version option) result \<times> 's" where
  "read_cursor ops cc s =
     (case get_bytes ops s CURSOR_KEY of
        (Inl e, s') \<Rightarrow> (Err (BStore e), s')
      | (Inr None, s') \<Rightarrow> (Ok (None, None), s')
      | (Inr (Some (m, b)), s') \<Rightarrow>
          (case decode cc b of
             None \<Rightarrow> (Err BCursor, s')
           | Some c \<Rightarrow> (Ok (Some (published_seq c), Some (meta_version m)), s')))"

text \<open>Delivery of the events and the move of the cursor, \<open>seen\<close> being the version it was read at.\<close>

definition advance ::
  "('s, 'a) store_ops \<Rightarrow> ('a, cursor) msg_codec \<Rightarrow> (ref_event list \<Rightarrow> bool) list \<Rightarrow> string \<Rightarrow> repo_id \<Rightarrow> nat option \<Rightarrow> version option
     \<Rightarrow> nat \<Rightarrow> nat \<Rightarrow> (nat \<times> nat) option \<Rightarrow> log_entry list \<Rightarrow> ref_event list list \<Rightarrow> 's
     \<Rightarrow> (bridge_error, catch_up_report) result \<times> ref_event list list \<times> 's" where
  "advance ops cc sinks now i cur seen from_seq head gap es boxes s =
     (let batch = refs_from_entries i es;
          (ok, boxes') = bridge_publish sinks batch boxes;
          report = \<lparr>cu_repo = repo_id_display i, cu_from_seq = from_seq, cu_head_seq = head, cu_emitted = length batch, cu_gap = gap\<rparr>
      in if \<not> ok then (Err BSink, boxes', s)
         else if cur = Some head then (Ok report, boxes', s)
         else (case put_bytes ops s CURSOR_KEY (encode cc \<lparr>published_seq = head, cursor_updated_at = now\<rparr>)
                       (case seen of Some v \<Rightarrow> Update v | None \<Rightarrow> Create) of
                 (Inl e, s') \<Rightarrow> (if is_precondition_failed e then Ok report else Err (BStore e), boxes', s')
               | (Inr _, s') \<Rightarrow> (Ok report, boxes', s')))"

definition catch_up ::
  "('s, 'a) store_ops \<Rightarrow> 'a codecs \<Rightarrow> ('a, cursor) msg_codec \<Rightarrow> (string \<Rightarrow> string) \<Rightarrow> bool \<Rightarrow> (ref_event list \<Rightarrow> bool) list
     \<Rightarrow> string \<Rightarrow> repo_id \<Rightarrow> repo_handle \<Rightarrow> ref_event list list \<Rightarrow> 's
     \<Rightarrow> (bridge_error, catch_up_report) result \<times> repo_handle \<times> ref_event list list \<times> 's" where
  "catch_up ops cs cc peel ttl_active sinks now i h boxes s =
     (case sync_refs_phase ops cs peel ttl_active h s of
        (Inl e, s1) \<Rightarrow> (Err (BWal e), h, boxes, s1)
      | (Inr h1, s1) \<Rightarrow>
     (case read_cursor ops cc s1 of
        (Inl e, s2) \<Rightarrow> (Err e, h1, boxes, s2)
      | (Inr (cur, seen), s2) \<Rightarrow>
     (let head = head_seq (h_manifest h1);
          readable_from = min_seq (h_manifest h1) - 1;
          start = (case cur of Some n \<Rightarrow> n | None \<Rightarrow> readable_from);
          gap = (if start < readable_from then Some (start + 1, readable_from) else None);
          from_seq = (if start < readable_from then readable_from else start)
      in case (if head > from_seq then read_log ops cs h1 (from_seq + 1) (Some head) s2 else (Ok [], s2)) of
           (Inl e, s3) \<Rightarrow> (Err (BWal e), h1, boxes, s3)
         | (Inr es, s3) \<Rightarrow>
             (case advance ops cc sinks now i cur seen from_seq head gap es boxes s3 of
                (r, boxes', s4) \<Rightarrow> (r, h1, boxes', s4)))))"

section \<open>Wake-ups\<close>

definition manifest_repo :: "string \<Rightarrow> string \<Rightarrow> repo_id option" where
  "manifest_repo bucket_prefix object =
     Option.bind (strip_prefix bucket_prefix object) (\<lambda>r1.
     Option.bind (strip_prefix ''repos/'' r1) (\<lambda>r2.
     Option.bind (strip_suffix ''/manifest.pb'' r2) (\<lambda>rel.
     Option.bind (split_once (CHR ''/'') rel) (\<lambda>(own, nm).
       if CHR ''/'' \<in> set nm then None
       else (case repo_id_new own nm of Inr i \<Rightarrow> Some i | Inl _ \<Rightarrow> None)))))"

text \<open>Keys in the notifications of S3 are URL-encoded; a decoded byte is taken for the character of that number.\<close>

definition char_utf8 :: "nat \<Rightarrow> string" where
  "char_utf8 n = (if n < 128 then [char_of n] else [char_of (192 + n div 64), char_of (128 + n mod 64)])"

definition unescape_part :: "string \<Rightarrow> string" where
  "unescape_part part =
     (case part of
        a # b # rest \<Rightarrow>
          (case (hex_value a, hex_value b) of
             (Some x, Some y) \<Rightarrow> char_utf8 (16 * x + y) @ rest
           | _ \<Rightarrow> CHR ''%'' # part)
      | _ \<Rightarrow> CHR ''%'' # part)"

definition s3_key :: "string \<Rightarrow> string" where
  "s3_key k =
     (case split_on (\<lambda>c. c = CHR ''%'') (map (\<lambda>c. if c = CHR ''+'' then CHR '' '' else c) k) of
        [] \<Rightarrow> []
      | p # ps \<Rightarrow> p @ concat (map unescape_part ps))"

definition pubsub_keys :: "json \<Rightarrow> string list" where
  "pubsub_keys v =
     (case Option.bind (json_get v ''message'') (\<lambda>m. json_get m ''attributes'') of
        None \<Rightarrow> []
      | Some attrs \<Rightarrow>
          (if get_str attrs ''eventType'' = Some ''OBJECT_FINALIZE''
           then (case get_str attrs ''objectId'' of Some k \<Rightarrow> [k] | None \<Rightarrow> []) else []))"

definition s3_record_key :: "json \<Rightarrow> string option" where
  "s3_record_key r =
     (if (case get_str r ''eventName'' of Some e \<Rightarrow> starts_with e ''ObjectCreated'' | None \<Rightarrow> False)
      then map_option s3_key
             (Option.bind (json_get r ''s3'') (\<lambda>b. Option.bind (json_get b ''object'') (\<lambda>o'. get_str o' ''key'')))
      else None)"

definition notified_keys :: "json \<Rightarrow> string list" where
  "notified_keys v =
     pubsub_keys v @
     (case Option.bind (json_get v ''Records'') as_array of Some rs \<Rightarrow> List.map_filter s3_record_key rs | None \<Rightarrow> []) @
     (case get_str v ''key'' of Some k \<Rightarrow> [k] | None \<Rightarrow> []) @
     (case get_str v ''repo'' of Some r \<Rightarrow> [''repos/'' @ r @ ''/manifest.pb''] | None \<Rightarrow> [])"

text \<open>\<open>catch\<close> is \<open>catch_up\<close> of a repository on the state of the bridge.\<close>

definition object_finalized ::
  "(repo_id \<Rightarrow> 'w \<Rightarrow> (bridge_error, catch_up_report) result \<times> 'w) \<Rightarrow> string \<Rightarrow> string \<Rightarrow> 'w
     \<Rightarrow> (bridge_error, catch_up_report option) result \<times> 'w" where
  "object_finalized catch bucket_prefix object w =
     (case manifest_repo bucket_prefix object of
        None \<Rightarrow> (Ok None, w)
      | Some i \<Rightarrow>
          (case catch i w of
             (Inl (BWal WNotFound), w') \<Rightarrow> (Ok None, w')
           | (Inl e, w') \<Rightarrow> (Err e, w')
           | (Inr r, w') \<Rightarrow> (Ok (Some r), w')))"

datatype notify_answer = NotifyReports "catch_up_report list" | NotifyRedeliver bridge_error

fun notify_all ::
  "(repo_id \<Rightarrow> 'w \<Rightarrow> (bridge_error, catch_up_report) result \<times> 'w) \<Rightarrow> string \<Rightarrow> string list \<Rightarrow> catch_up_report list \<Rightarrow> 'w
     \<Rightarrow> notify_answer \<times> 'w" where
  "notify_all catch bucket_prefix [] reports w = (NotifyReports reports, w)"
| "notify_all catch bucket_prefix (k # ks) reports w =
     (case object_finalized catch bucket_prefix k w of
        (Inl e, w') \<Rightarrow> (NotifyRedeliver e, w')
      | (Inr None, w') \<Rightarrow> notify_all catch bucket_prefix ks reports w'
      | (Inr (Some r), w') \<Rightarrow> notify_all catch bucket_prefix ks (reports @ [r]) w')"

text \<open>\<open>who\<close> is the outcome of \<open>require_read\<close>, \<open>body\<close> that of collecting the body and decoding it.\<close>

definition http_notify ::
  "(repo_id \<Rightarrow> 'w \<Rightarrow> (bridge_error, catch_up_report) result \<times> 'w) \<Rightarrow> string \<Rightarrow> (api_error, unit) result \<Rightarrow> bool
     \<Rightarrow> (api_error, (string, json) result) result \<Rightarrow> 'w \<Rightarrow> (api_error, notify_answer) result \<times> 'w" where
  "http_notify catch bucket_prefix who enabled body w =
     (case who of
        Inl e \<Rightarrow> (Err e, w)
      | Inr _ \<Rightarrow>
          if \<not> enabled then (Err (ApiNotFound ''events bridge is not enabled here''), w)
          else case body of
            Inl e \<Rightarrow> (Err e, w)
          | Inr (Inl e) \<Rightarrow> (Err (ApiBadRequest (''notify body: '' @ e)), w)
          | Inr (Inr v) \<Rightarrow> map_prod Ok id (notify_all catch bucket_prefix (notified_keys v) [] w))"

fun sweep_repos :: "(repo_id \<Rightarrow> 'w \<Rightarrow> (bridge_error, catch_up_report) result \<times> 'w) \<Rightarrow> repo_id list \<Rightarrow> 'w \<Rightarrow> 'w" where
  "sweep_repos catch [] w = w"
| "sweep_repos catch (i # is) w = sweep_repos catch is (snd (catch i w))"

definition sweep ::
  "(repo_id \<Rightarrow> 'w \<Rightarrow> (bridge_error, catch_up_report) result \<times> 'w) \<Rightarrow> (wal_error, repo_id list) result \<Rightarrow> 'w \<Rightarrow> 'w" where
  "sweep catch listed w = (case listed of Inl _ \<Rightarrow> w | Inr is \<Rightarrow> sweep_repos catch is w)"

section \<open>What a catch-up does to the in-memory bucket\<close>

lemma sbind_quiet: "snd m = b \<Longrightarrow> (\<And>x. snd (f x b) = b) \<Longrightarrow> snd (sbind m f) = b"
  by (cases m) (auto simp: sbind_def split: sum.splits)

lemma fetch_quiet: "snd (fetch_object mem_ops k b) = b" "snd (fetch_objects mem_ops ks b) = b"
proof -
  show one: "snd (fetch_object mem_ops k b) = b" for k by (simp add: fetch_object_mem)
  show "snd (fetch_objects mem_ops ks b) = b"
    by (induction ks) (auto simp: one intro!: sbind_quiet)
qed

lemma freshness_mem:
  assumes "mem_view b MANIFEST = Some (v, d)" "decode (c_manifest cs) d = Some m"
  shows "freshness_check mem_ops cs known b = (Ok (if known = Some v then Unchanged else Changed v m), b)"
  using assms
  by (auto simp: freshness_check_def coord_err_def get_message_def get_bytes_mem get_message_if_changed_def get_if_changed_def
      mem_get_def mem_view_def decode_object_def default_get_def slice_range_def sbind_def split: option.splits)

lemma replay_quiet: "snd (replay_log mem_ops cs peel h m a n b) = b"
  by (auto simp: replay_log_def Let_def fetch_quiet intro!: sbind_quiet split: sum.splits option.splits)

lemma load_checkpoint_quiet: "snd (load_checkpoint mem_ops cs peel h cp b) = b"
  by (auto simp: load_checkpoint_def coord_err_def get_message_def get_bytes_mem intro!: sbind_quiet split: option.splits sum.splits)

lemma rebuild_quiet: "snd (apply_delta_with_rebuild mem_ops cs peel h m v f b) = b"
  by (auto simp: apply_delta_with_rebuild_def Let_def replay_quiet load_checkpoint_quiet intro!: sbind_quiet split: sum.splits)

lemma sync_quiet:
  assumes "mem_view b MANIFEST = Some (v, d)" "decode (c_manifest cs) d = Some m"
  shows "snd (sync_locked_inner mem_ops cs peel f h b) = b"
  by (auto simp: sync_locked_inner_def freshness_mem [OF assms] Let_def rebuild_quiet intro!: sbind_quiet split: option.splits sync_outcome.splits)

lemma sync_finds_manifest:
  assumes "mem_view b MANIFEST = Some (v, d)" "decode (c_manifest cs) d = Some m"
    and "h_version h = Some v \<Longrightarrow> h_manifest h = m" "revision (h_manifest h) \<le> revision m"
    and "sync_locked_inner mem_ops cs peel f h b = (Ok h', b')"
  shows "h_manifest h' = m \<and> h_version h' = Some v"
proof -
  have frame: "h_manifest h2 = h_manifest h \<and> h_version h2 = h_version h"
    if "apply_delta_with_rebuild mem_ops cs peel h m' v' f' b = (Ok h2, t)" for h2 m' v' f' t
    using apply_delta_with_rebuild_frame [OF that] by simp
  show ?thesis
  proof (cases "h_version h = Some v")
    case True
    then show ?thesis using assms(3,5) frame
      by (auto simp: sync_locked_inner_def freshness_mem [OF assms(1,2)] Let_def sbind_eq_Inr_iff split: if_splits)
  next
    case False
    then show ?thesis using assms(4,5)
      by (auto simp: sync_locked_inner_def freshness_mem [OF assms(1,2)] Let_def sbind_eq_Inr_iff split: if_splits)
  qed
qed

lemma sync_refs_mem:
  assumes "mem_view b MANIFEST = Some (v, d)" "decode (c_manifest cs) d = Some m"
    and "h_version h = Some v \<Longrightarrow> h_manifest h = m" "revision (h_manifest h) \<le> revision m"
    and "sync_refs_phase mem_ops cs peel False h b = (r, b')"
  shows "b' = b \<and> (\<forall>h'. r = Ok h' \<longrightarrow> h_manifest h' = m \<and> h_version h' = Some v)"
proof -
  have s: "sync_locked_inner mem_ops cs peel (\<not> refs_verified h) h b = (r, b')" using assms(5) by (simp add: sync_refs_phase_def)
  show ?thesis using sync_quiet [OF assms(1,2), of peel "\<not> refs_verified h" h] s sync_finds_manifest [OF assms(1-4)] by auto
qed

definition cursor_of :: "('a, cursor) msg_codec \<Rightarrow> 'a mem_store \<Rightarrow> nat option" where
  "cursor_of cc b = Option.bind (mem_view b CURSOR_KEY) (\<lambda>(_, d). map_option published_seq (decode cc d))"

lemma read_cursor_mem:
  assumes "read_cursor mem_ops cc b = (r, b')"
  shows "b' = b \<and> (\<forall>cur seen. r = Ok (cur, seen) \<longrightarrow> cur = cursor_of cc b \<and> seen = map_option fst (mem_view b CURSOR_KEY))"
  using assms by (auto simp: read_cursor_def get_bytes_mem cursor_of_def split: option.splits)

lemma read_log_quiet:
  assumes "fresh_handle b h"
  shows "snd (read_log mem_ops cs h a n b) = b"
  by (auto simp: read_log_def freshness_unchanged [OF assms] Let_def fetch_quiet intro!: sbind_quiet)

lemma deliver_grows: "deliver sinks batch boxes = (ok, boxes') \<Longrightarrow> list_all2 prefix boxes boxes'"
  by (induction sinks batch boxes arbitrary: ok boxes' rule: deliver.induct)
    (auto simp: list.rel_refl split: if_splits prod.splits)

lemma deliver_reaches_all:
  "deliver sinks batch boxes = (True, boxes') \<Longrightarrow> length sinks = length boxes \<Longrightarrow> boxes' = map (\<lambda>x. x @ batch) boxes"
  by (induction sinks batch boxes arbitrary: boxes' rule: deliver.induct) (auto split: if_splits prod.splits)

lemma publish_grows: "bridge_publish sinks batch boxes = (ok, boxes') \<Longrightarrow> list_all2 prefix boxes boxes'"
  by (auto simp: bridge_publish_def list.rel_refl deliver_grows split: if_splits)

lemma publish_reaches_all:
  assumes "bridge_publish sinks batch boxes = (True, boxes')" "length sinks = length boxes" "ev \<in> set batch" "box \<in> set boxes'"
  shows "ev \<in> set box"
  using assms deliver_reaches_all [of sinks batch boxes boxes'] by (auto simp: bridge_publish_def split: if_splits)

definition moved_cursor :: "('a, cursor) msg_codec \<Rightarrow> nat \<Rightarrow> 'a mem_store \<Rightarrow> 'a mem_store \<Rightarrow> bool" where
  "moved_cursor cc n b b' \<longleftrightarrow> mem_inv b' \<and> mem_evolves b b' \<and> (\<forall>k. k \<noteq> CURSOR_KEY \<longrightarrow> mem_view b' k = mem_view b k) \<and>
     cursor_of cc b' = Some n"

lemma put_cursor_mem:
  assumes "mem_inv b" "codec_ok cc"
    and "put_bytes mem_ops b CURSOR_KEY (encode cc \<lparr>published_seq = n, cursor_updated_at = now\<rparr>)
           (case map_option fst (mem_view b CURSOR_KEY) of Some v \<Rightarrow> Update v | None \<Rightarrow> Create) = (r, b')"
  shows "moved_cursor cc n b b' \<and> (\<exists>meta. r = Ok meta)"
proof -
  let ?mode = "case map_option fst (mem_view b CURSOR_KEY) of Some v \<Rightarrow> Update v | None \<Rightarrow> Create"
  let ?d = "encode cc \<lparr>published_seq = n, cursor_updated_at = now\<rparr>"
  have p: "mem_put b CURSOR_KEY (Bytes ?d) ?mode = (r, b')" using assms(3) by (simp add: put_bytes_def)
  have ok: "put_check CURSOR_KEY ?mode (map_option fst (mem_view b CURSOR_KEY)) = Ok ()" by (cases "mem_view b CURSOR_KEY") auto
  have bt: "bt_ok (objects b)" using assms(1) by (simp add: mem_inv_def)
  have bb: "body_bytes (Bytes ?d) = Ok ?d" by simp
  from p bb show ?thesis
  proof (cases rule: mem_put_cases)
    case applied
    have "mem_view b' k = (if k = CURSOR_KEY then Some (Suc (counter b), ?d) else mem_view b k)" for k
      using applied(3) bt by (simp add: mem_view_def)
    then show ?thesis using mem_put_evolves [OF assms(1) p] applied(2) assms(2)
      by (simp add: moved_cursor_def cursor_of_def codec_ok_def)
  next
    case refused
    then show ?thesis using ok by simp
  qed
qed

text \<open>
  Everything a catch-up can do on a bucket nobody else writes meanwhile: it fails and leaves the bucket alone, or it
  delivered all events of the entries behind the cursor and the cursor is at the head of the log.
\<close>

definition start_of :: "('a, cursor) msg_codec \<Rightarrow> 'a mem_store \<Rightarrow> manifest \<Rightarrow> nat" where
  "start_of cc b m = (case cursor_of cc b of Some n \<Rightarrow> n | None \<Rightarrow> min_seq m - 1)"

lemma read_log_range:
  assumes "mem_view b MANIFEST = Some (v, d)" "h_manifest h = m" "h_version h = Some v"
    and "(if n < head_seq m then read_log mem_ops cs h (n + 1) (Some (head_seq m)) b else (Ok [], b)) = (r, b')"
  shows "b' = b \<and> (\<forall>es. r = Ok es \<longrightarrow> es = entries_between cs b m n (head_seq m))"
proof -
  have f: "fresh_handle b h" using assms(1,3) by (simp add: fresh_handle_def)
  show ?thesis
  proof (cases "n < head_seq m")
    case True
    then show ?thesis using assms(4) read_log_mem [OF f, of cs n "head_seq m"] read_log_quiet [OF f, of cs "n + 1" "Some (head_seq m)"]
      by (auto simp: assms(2))
  next
    case False
    then show ?thesis using assms(4) by (auto simp: entries_between_empty)
  qed
qed

lemma advance_cases:
  assumes "advance mem_ops cc sinks now i (cursor_of cc b) (map_option fst (mem_view b CURSOR_KEY)) a n gap es boxes b = (r, boxes', b')"
    and "mem_inv b" "codec_ok cc"
  obtains (refused) "r = Err BSink" "b' = b" "list_all2 prefix boxes boxes'"
  | (advanced) "r = Ok \<lparr>cu_repo = repo_id_display i, cu_from_seq = a, cu_head_seq = n, cu_emitted = length (refs_from_entries i es), cu_gap = gap\<rparr>"
      "bridge_publish sinks (refs_from_entries i es) boxes = (True, boxes')" "b' = b \<and> cursor_of cc b = Some n \<or> moved_cursor cc n b b'"
proof -
  let ?put = "put_bytes mem_ops b CURSOR_KEY (encode cc \<lparr>published_seq = n, cursor_updated_at = now\<rparr>)
    (case map_option fst (mem_view b CURSOR_KEY) of Some v \<Rightarrow> Update v | None \<Rightarrow> Create)"
  obtain ok boxes2 where p: "bridge_publish sinks (refs_from_entries i es) boxes = (ok, boxes2)"
    by (cases "bridge_publish sinks (refs_from_entries i es) boxes")
  obtain r5 b5 where q: "?put = (r5, b5)" by (cases ?put)
  note U = assms(1) [unfolded advance_def Let_def p prod.case q]
  show thesis
  proof (cases ok)
    case False
    then show thesis using refused U publish_grows [OF p] by auto
  next
    case True
    then show thesis using advanced U p put_cursor_mem [OF assms(2,3) q] by (auto split: if_splits)
  qed
qed

lemma catch_up_cases:
  assumes "catch_up mem_ops cs cc peel False sinks now i h boxes b = (r, h', boxes', b')"
    and "mem_inv b" "codec_ok cc" "mem_view b MANIFEST = Some (v, d)" "decode (c_manifest cs) d = Some m"
    and "h_version h = Some v \<longrightarrow> h_manifest h = m" "revision (h_manifest h) \<le> revision m"
  obtains (failed) "\<not> is_ok r" "b' = b" "h' = h \<or> h_manifest h' = m \<and> h_version h' = Some v" "list_all2 prefix boxes boxes'"
  | (caught) from_seq es where
      "from_seq = max (start_of cc b m) (min_seq m - 1)" "es = entries_between cs b m from_seq (head_seq m)"
      "r = Ok \<lparr>cu_repo = repo_id_display i, cu_from_seq = from_seq, cu_head_seq = head_seq m,
         cu_emitted = length (refs_from_entries i es),
         cu_gap = (if start_of cc b m < min_seq m - 1 then Some (start_of cc b m + 1, min_seq m - 1) else None)\<rparr>"
      "h_manifest h' = m" "h_version h' = Some v"
      "bridge_publish sinks (refs_from_entries i es) boxes = (True, boxes')"
      "b' = b \<and> cursor_of cc b = Some (head_seq m) \<or> moved_cursor cc (head_seq m) b b'"
proof -
  obtain r1 b1 where 1: "sync_refs_phase mem_ops cs peel False h b = (r1, b1)" by (cases "sync_refs_phase mem_ops cs peel False h b")
  obtain r2 b2 where 2: "read_cursor mem_ops cc b = (r2, b2)" by (cases "read_cursor mem_ops cc b")
  note S = sync_refs_mem [OF assms(4,5) assms(6) [rule_format] assms(7) 1] and C = read_cursor_mem [OF 2]
  have b1: "b1 = b" and b2: "b2 = b" using S C by blast+
  consider (no_sync) e where "r1 = Err e" | (no_cursor) h1 e where "r1 = Ok h1" "r2 = Err e" | (read) h1 x where "r1 = Ok h1" "r2 = Ok x"
    by (cases r1; cases r2) auto
  then show thesis
  proof cases
    case no_sync
    then have "r = Err (BWal e)" "h' = h" "boxes' = boxes" "b' = b" using assms(1) unfolding catch_up_def 1 b1 by simp_all
    then show thesis by (intro failed) (auto simp: list.rel_refl)
  next
    case no_cursor
    then have "r = Err e" "h' = h1" "boxes' = boxes" "b' = b" using assms(1) unfolding catch_up_def 1 b1 no_cursor prod.case sum.case 2 b2 by simp_all
    moreover have "h_manifest h1 = m \<and> h_version h1 = Some v" using S no_cursor(1) by blast
    ultimately show thesis by (intro failed) (auto simp: list.rel_refl)
  next
    case read
    then have h1: "r1 = Ok h1" "b1 = b" "h_manifest h1 = m" "h_version h1 = Some v" using S by simp_all
    have c: "r2 = Ok (cursor_of cc b, map_option fst (mem_view b CURSOR_KEY))" "b2 = b" using C read(2) by (cases x; simp)+
    let ?from = "max (start_of cc b m) (min_seq m - 1)"
    let ?rd = "if ?from < head_seq m then read_log mem_ops cs h1 (?from + 1) (Some (head_seq m)) b else (Ok [], b)"
    have from': "(if start_of cc b m < min_seq m - 1 then min_seq m - 1 else start_of cc b m) = ?from" by auto
    obtain r3 b3 where 3: "?rd = (r3, b3)" by (cases ?rd)
    note R = read_log_range [OF assms(4) h1(3,4) 3]
    note U = assms(1) [unfolded catch_up_def 1 h1 prod.case sum.case 2 c Let_def start_of_def [symmetric] from' 3]
    show thesis
    proof (cases r3)
      case (Inl e)
      then show thesis using failed U R h1 by (auto simp: list.rel_refl)
    next
      case (Inr es)
      let ?gap = "if start_of cc b m < min_seq m - 1 then Some (start_of cc b m + 1, min_seq m - 1) else None"
      have es: "es = entries_between cs b m ?from (head_seq m)" and b3: "b3 = b" using R Inr by simp_all
      obtain r4 boxes4 b4 where 4: "advance mem_ops cc sinks now i (cursor_of cc b) (map_option fst (mem_view b CURSOR_KEY)) ?from
          (head_seq m) ?gap es boxes b = (r4, boxes4, b4)" by (metis prod_cases3)
      then have r: "r = r4" "h' = h1" "boxes' = boxes4" "b' = b4" using U Inr b3 by simp_all
      from 4 assms(2,3) show thesis
        by (cases rule: advance_cases) (use failed caught [OF refl es] h1 r in auto)
    qed
  qed
qed

section \<open>No event is passed in silence\<close>

text \<open>
  A bucket shows a log when its manifest lists segments that hold the entries of the log from \<open>min_seq\<close> on and none of the log is
  beyond the head.
\<close>

definition shows_log :: "'a codecs \<Rightarrow> 'a mem_store \<Rightarrow> log_entry list \<Rightarrow> manifest \<Rightarrow> bool" where
  "shows_log cs b lg m \<longleftrightarrow>
     (\<exists>v d. mem_view b MANIFEST = Some (v, d) \<and> decode (c_manifest cs) d = Some m) \<and> seg_wf cs b m \<and>
     CURSOR_KEY \<notin> seg_key ` set (log_segments m) \<and>
     set (all_entries cs b m) = {e \<in> set lg. min_seq m \<le> seq e} \<and> (\<forall>e\<in>set lg. seq e \<le> head_seq m)"

lemma segment_entries_cong: "mem_view b' (seg_key sg) = mem_view b (seg_key sg) \<Longrightarrow> segment_entries cs b' sg = segment_entries cs b sg"
  by (simp add: segment_entries_def object_body_def)

lemma shows_log_moved_cursor:
  assumes "shows_log cs b lg m" "moved_cursor cc n b b'"
  shows "shows_log cs b' lg m"
proof -
  have same: "segment_entries cs b' sg = segment_entries cs b sg" if "sg \<in> set (log_segments m)" for sg
  proof (rule segment_entries_cong)
    have "seg_key sg \<noteq> CURSOR_KEY" using assms(1) that by (metis image_eqI shows_log_def)
    then show "mem_view b' (seg_key sg) = mem_view b (seg_key sg)" using assms(2) by (simp add: moved_cursor_def)
  qed
  have "MANIFEST \<noteq> CURSOR_KEY" by (simp add: MANIFEST_def CURSOR_KEY_def)
  then have "mem_view b' MANIFEST = mem_view b MANIFEST" using assms(2) by (simp add: moved_cursor_def)
  moreover have "seg_wf cs b' m = seg_wf cs b m" unfolding seg_wf_def by (intro list.pred_cong refl) (simp add: same)
  moreover have "all_entries cs b' m = all_entries cs b m" by (simp add: all_entries_def same cong: map_cong)
  ultimately show ?thesis using assms(1) by (simp add: shows_log_def)
qed

text \<open>
  The world of a bridge: bucket, the log committed so far, the handle of the repository, what each sink accepted and the ranges of
  sequence numbers that catch-ups reported as gaps or found before a cursor that was not there.
\<close>

record 'a bridge_world =
  bw_bucket :: "'a mem_store"
  bw_log :: "log_entry list"
  bw_handle :: repo_handle
  bw_boxes :: "ref_event list list"
  bw_skipped :: "(nat \<times> nat) list"

definition newly_skipped :: "nat option \<Rightarrow> (bridge_error, catch_up_report) result \<Rightarrow> (nat \<times> nat) list" where
  "newly_skipped cur r =
     (case r of
        Inl _ \<Rightarrow> []
      | Inr rep \<Rightarrow> (case cu_gap rep of Some g \<Rightarrow> [g] | None \<Rightarrow> []) @ (if cur = None then [(0, cu_from_seq rep)] else []))"

definition new_handle :: "repo_handle \<Rightarrow> bool" where
  "new_handle h \<longleftrightarrow> h_version h = None \<and> revision (h_manifest h) = 0"

text \<open>
  The bridge catches up, with sinks that accept or refuse as they like; it is killed at any moment, in the course of a delivery
  too, and starts again; between catch-ups writers commit entries and fold old ones into checkpoints.
\<close>

inductive bridge_step :: "'a codecs \<Rightarrow> ('a, cursor) msg_codec \<Rightarrow> (string \<Rightarrow> string) \<Rightarrow> repo_id \<Rightarrow> 'a bridge_world \<Rightarrow> 'a bridge_world \<Rightarrow> bool"
  for cs cc peel i where
  step_catch_up: "catch_up mem_ops cs cc peel False sinks now i (bw_handle w) (bw_boxes w) (bw_bucket w) = (r, h', boxes', b') \<Longrightarrow>
    length sinks = length (bw_boxes w) \<Longrightarrow>
    bridge_step cs cc peel i w (w\<lparr>bw_bucket := b', bw_handle := h', bw_boxes := boxes',
      bw_skipped := bw_skipped w @ newly_skipped (cursor_of cc (bw_bucket w)) r\<rparr>)"
| step_killed: "list_all2 prefix (bw_boxes w) boxes' \<Longrightarrow> new_handle h' \<Longrightarrow>
    bridge_step cs cc peel i w (w\<lparr>bw_handle := h', bw_boxes := boxes'\<rparr>)"
| step_commit: "mem_inv b' \<Longrightarrow> mem_evolves (bw_bucket w) b' \<Longrightarrow> mem_view b' CURSOR_KEY = mem_view (bw_bucket w) CURSOR_KEY \<Longrightarrow>
    shows_log cs (bw_bucket w) (bw_log w) m \<Longrightarrow> shows_log cs b' (bw_log w @ new) m' \<Longrightarrow>
    (\<forall>e\<in>set new. head_seq m < seq e) \<Longrightarrow> head_seq m \<le> head_seq m' \<Longrightarrow>
    mem_view b' MANIFEST = mem_view (bw_bucket w) MANIFEST \<or> revision m < revision m' \<Longrightarrow>
    bridge_step cs cc peel i w (w\<lparr>bw_bucket := b', bw_log := bw_log w @ new\<rparr>)"

definition handle_true :: "'a mem_store \<Rightarrow> manifest \<Rightarrow> repo_handle \<Rightarrow> bool" where
  "handle_true b m h \<longleftrightarrow> revision (h_manifest h) \<le> revision m \<and>
     (\<forall>v. h_version h = Some v \<longrightarrow> v \<le> counter b \<and> (\<forall>d. mem_view b MANIFEST = Some (v, d) \<longrightarrow> h_manifest h = m))"

text \<open>The entry was delivered to every sink, or lies in a range that was skipped openly.\<close>

definition accounted :: "repo_id \<Rightarrow> 'a bridge_world \<Rightarrow> log_entry \<Rightarrow> bool" where
  "accounted i w e \<longleftrightarrow>
     (\<forall>ev\<in>set (entry_events i e). \<forall>box\<in>set (bw_boxes w). ev \<in> set box) \<or>
     (\<exists>(a, c)\<in>set (bw_skipped w). a \<le> seq e \<and> seq e \<le> c)"

definition bridge_inv :: "'a codecs \<Rightarrow> ('a, cursor) msg_codec \<Rightarrow> repo_id \<Rightarrow> 'a bridge_world \<Rightarrow> bool" where
  "bridge_inv cs cc i w \<longleftrightarrow> mem_inv (bw_bucket w) \<and>
     (\<exists>m. shows_log cs (bw_bucket w) (bw_log w) m \<and> handle_true (bw_bucket w) m (bw_handle w) \<and>
        (\<forall>n. cursor_of cc (bw_bucket w) = Some n \<longrightarrow> n \<le> head_seq m \<and> (\<forall>e\<in>set (bw_log w). seq e \<le> n \<longrightarrow> accounted i w e)))"

lemma boxes_grow:
  assumes "list_all2 prefix boxes boxes'" "\<forall>box\<in>set boxes. ev \<in> set box" "box \<in> set boxes'"
  shows "ev \<in> set box"
  using assms by (auto simp: list_all2_conv_all_nth in_set_conv_nth) (metis in_set_conv_nth nth_mem set_mono_prefix subsetD)

lemma accounted_mono:
  assumes "accounted i w e" "list_all2 prefix (bw_boxes w) (bw_boxes w')" "set (bw_skipped w) \<subseteq> set (bw_skipped w')"
  shows "accounted i w' e"
  using assms boxes_grow [OF assms(2)] unfolding accounted_def by blast

lemma version_le_counter: "mem_inv b \<Longrightarrow> mem_view b k = Some (v, d) \<Longrightarrow> v \<le> counter b"
  by (auto simp: mem_inv_def mem_view_def dest: bt_get_SomeD)

lemma handle_true_synced:
  "mem_inv b \<Longrightarrow> mem_view b MANIFEST = Some (v, d) \<Longrightarrow> h_manifest h = m \<Longrightarrow> h_version h = Some v \<Longrightarrow> handle_true b m h"
  using version_le_counter by (fastforce simp: handle_true_def)

lemma handle_true_evolves:
  assumes "handle_true b m h" "mem_evolves b b'" "mem_view b MANIFEST = Some (v, d)" "decode (c_manifest cs) d = Some m"
    and "mem_view b' MANIFEST = Some (v', d')" "decode (c_manifest cs) d' = Some m'"
    and "mem_view b' MANIFEST = mem_view b MANIFEST \<or> revision m < revision m'"
  shows "handle_true b' m' h"
proof -
  have same: "m' = m" if "mem_view b' MANIFEST = mem_view b MANIFEST" using that assms(3-6) by simp
  have rev: "revision m \<le> revision m'" using same assms(7) by auto
  have kept: "mem_view b' MANIFEST = mem_view b MANIFEST" if "h_version h = Some v'"
    using that assms(1,2,5) unfolding handle_true_def mem_evolves_def by metis
  show ?thesis unfolding handle_true_def
  proof (intro conjI allI impI)
    show "revision (h_manifest h) \<le> revision m'" using assms(1) rev by (simp add: handle_true_def)
    fix u assume u: "h_version h = Some u"
    show "u \<le> counter b'" using assms(1,2) u by (fastforce simp: handle_true_def mem_evolves_def)
    fix x assume "mem_view b' MANIFEST = Some (u, x)"
    then have "u = v'" using assms(5) by simp
    then have "mem_view b' MANIFEST = mem_view b MANIFEST" using kept u by simp
    then show "h_manifest h = m'" using same assms(1,5) u \<open>u = v'\<close> unfolding handle_true_def by metis
  qed
qed

lemma published_accounted:
  assumes "shows_log cs b lg m" "bridge_publish sinks (refs_from_entries i (entries_between cs b m a (head_seq m))) boxes = (True, boxes')"
    and "length sinks = length boxes" "min_seq m - 1 \<le> a" "e \<in> set lg" "a < seq e" "seq e \<le> head_seq m"
    and "ev \<in> set (entry_events i e)" "box \<in> set boxes'"
  shows "ev \<in> set box"
proof -
  have "e \<in> set (all_entries cs b m)" using assms(1,4-6) by (auto simp: shows_log_def)
  then have "e \<in> set (entries_between cs b m a (head_seq m))"
    using assms(1,6,7) by (simp add: shows_log_def entries_between_all)
  then have "ev \<in> set (refs_from_entries i (entries_between cs b m a (head_seq m)))" using assms(8) by (auto simp: refs_from_entries_def)
  then show ?thesis using publish_reaches_all [OF assms(2,3)] assms(9) by blast
qed

text \<open>The heart of the matter: after a catch-up that returned, everything up to the head of the log is accounted for.\<close>

lemma caught_up_accounted:
  assumes "shows_log cs b (bw_log w) m" "b = bw_bucket w"
    and "\<forall>n. cursor_of cc b = Some n \<longrightarrow> (\<forall>e\<in>set (bw_log w). seq e \<le> n \<longrightarrow> accounted i w e)"
    and "a = max (start_of cc b m) (min_seq m - 1)" "length sinks = length (bw_boxes w)"
    and "bridge_publish sinks (refs_from_entries i (entries_between cs b m a (head_seq m))) (bw_boxes w) = (True, bw_boxes w')"
    and "cu_from_seq rep = a" "cu_gap rep = (if start_of cc b m < min_seq m - 1 then Some (start_of cc b m + 1, min_seq m - 1) else None)"
    and "bw_skipped w' = bw_skipped w @ newly_skipped (cursor_of cc b) (Ok rep)"
    and "e \<in> set (bw_log w)" "seq e \<le> head_seq m"
  shows "accounted i w' e"
proof -
  consider (cold) "cursor_of cc b = None" "seq e \<le> a" | (before) n where "cursor_of cc b = Some n" "seq e \<le> n"
    | (gap) n where "cursor_of cc b = Some n" "n < seq e" "seq e \<le> a" | (sent) "a < seq e"
    by (cases "cursor_of cc b") fastforce+
  then show ?thesis
  proof cases
    case cold
    then have "(0, a) \<in> set (bw_skipped w')" using assms(7,9) by (simp add: newly_skipped_def)
    then show ?thesis using cold by (auto simp: accounted_def)
  next
    case before
    then have "accounted i w e" using assms(3,10) by blast
    then show ?thesis by (rule accounted_mono) (use assms(9) publish_grows [OF assms(6)] in auto)
  next
    case gap
    then have "start_of cc b m = n" by (simp add: start_of_def)
    then have "(n + 1, a) \<in> set (bw_skipped w')" "a = min_seq m - 1"
      using gap assms(4,8,9) by (auto simp: newly_skipped_def max_def split: if_splits)
    moreover have "n + 1 \<le> seq e" using gap(2) by simp
    ultimately show ?thesis using gap(3) unfolding accounted_def by blast
  next
    case sent
    then show ?thesis using published_accounted [OF assms(1,6,5) _ assms(10) _ assms(11)] assms(4) by (auto simp: accounted_def)
  qed
qed

lemma catch_up_inv:
  assumes "bridge_inv cs cc i w" "codec_ok cc" "length sinks = length (bw_boxes w)"
    and "catch_up mem_ops cs cc peel False sinks now i (bw_handle w) (bw_boxes w) (bw_bucket w) = (r, h', boxes', b')"
    and "w' = w\<lparr>bw_bucket := b', bw_handle := h', bw_boxes := boxes', bw_skipped := bw_skipped w @ newly_skipped (cursor_of cc (bw_bucket w)) r\<rparr>"
  shows "bridge_inv cs cc i w'"
proof -
  let ?b = "bw_bucket w"
  obtain m where I: "mem_inv ?b" "shows_log cs ?b (bw_log w) m" "handle_true ?b m (bw_handle w)"
    and C: "\<forall>n. cursor_of cc ?b = Some n \<longrightarrow> n \<le> head_seq m \<and> (\<forall>e\<in>set (bw_log w). seq e \<le> n \<longrightarrow> accounted i w e)"
    using assms(1) by (auto simp: bridge_inv_def)
  obtain v d where M: "mem_view ?b MANIFEST = Some (v, d)" "decode (c_manifest cs) d = Some m" using I(2) by (auto simp: shows_log_def)
  have H: "h_version (bw_handle w) = Some v \<longrightarrow> h_manifest (bw_handle w) = m" "revision (h_manifest (bw_handle w)) \<le> revision m"
    using I(3) M(1) by (auto simp: handle_true_def)
  from assms(4) I(1) assms(2) M H show ?thesis
  proof (cases rule: catch_up_cases)
    case failed
    have "accounted i w' e" if "accounted i w e" for e
      using that by (rule accounted_mono) (use failed(4) assms(5) in auto)
    moreover have "handle_true ?b m h'" using failed(3) I(3) handle_true_synced [OF I(1) M(1)] by auto
    ultimately show ?thesis using I C failed(2) assms(5) unfolding bridge_inv_def by fastforce
  next
    case (caught a es)
    have acc: "accounted i w' e" if "e \<in> set (bw_log w)" "seq e \<le> head_seq m" for e
      by (rule caught_up_accounted [OF I(2) refl _ caught(1) assms(3), where rep = "projr r"])
        (use C caught assms(5) that in auto)
    have same: "mem_view b' MANIFEST = mem_view ?b MANIFEST"
      using caught(7) by (auto simp: moved_cursor_def MANIFEST_def CURSOR_KEY_def)
    have b': "mem_inv b' \<and> mem_evolves ?b b' \<and> shows_log cs b' (bw_log w) m \<and> cursor_of cc b' = Some (head_seq m)"
      using caught(7) I(1,2) shows_log_moved_cursor [OF I(2)] unfolding moved_cursor_def by (metis mem_evolves_refl)
    have "handle_true b' m h'"
      using handle_true_evolves [OF handle_true_synced [OF I(1) M(1) caught(4,5)] _ M] b' same M by metis
    then show ?thesis using b' acc assms(5) by (auto simp: bridge_inv_def)
  qed
qed

lemma commit_inv:
  assumes "bridge_inv cs cc i w" "mem_inv b'" "mem_evolves (bw_bucket w) b'" "mem_view b' CURSOR_KEY = mem_view (bw_bucket w) CURSOR_KEY"
    and "shows_log cs (bw_bucket w) (bw_log w) m" "shows_log cs b' (bw_log w @ new) m'"
    and "\<forall>e\<in>set new. head_seq m < seq e" "head_seq m \<le> head_seq m'"
    and "mem_view b' MANIFEST = mem_view (bw_bucket w) MANIFEST \<or> revision m < revision m'"
  shows "bridge_inv cs cc i (w\<lparr>bw_bucket := b', bw_log := bw_log w @ new\<rparr>)"
proof -
  let ?w = "w\<lparr>bw_bucket := b', bw_log := bw_log w @ new\<rparr>"
  obtain v d where M: "mem_view (bw_bucket w) MANIFEST = Some (v, d)" "decode (c_manifest cs) d = Some m"
    using assms(5) by (auto simp: shows_log_def)
  obtain v' d' where M': "mem_view b' MANIFEST = Some (v', d')" "decode (c_manifest cs) d' = Some m'"
    using assms(6) by (auto simp: shows_log_def)
  obtain m0 where I: "shows_log cs (bw_bucket w) (bw_log w) m0" "handle_true (bw_bucket w) m0 (bw_handle w)"
    and C: "\<forall>n. cursor_of cc (bw_bucket w) = Some n \<longrightarrow> n \<le> head_seq m0 \<and> (\<forall>e\<in>set (bw_log w). seq e \<le> n \<longrightarrow> accounted i w e)"
    using assms(1) by (auto simp: bridge_inv_def)
  have m0: "m0 = m" using I(1) M by (auto simp: shows_log_def)
  have "handle_true b' m' (bw_handle w)" using handle_true_evolves [OF I(2) [unfolded m0] assms(3) M M' assms(9)] .
  moreover have "n \<le> head_seq m' \<and> (\<forall>e\<in>set (bw_log w @ new). seq e \<le> n \<longrightarrow> accounted i ?w e)" if "cursor_of cc b' = Some n" for n
  proof -
    have n: "n \<le> head_seq m" "\<forall>e\<in>set (bw_log w). seq e \<le> n \<longrightarrow> accounted i w e"
      using that C assms(4) by (simp_all add: cursor_of_def m0)
    have "accounted i ?w e" if "accounted i w e" for e using that by (simp add: accounted_def)
    then show ?thesis using n assms(7,8) by fastforce
  qed
  ultimately show ?thesis using assms(2,6) by (auto simp: bridge_inv_def)
qed

lemma killed_inv:
  assumes "bridge_inv cs cc i w" "list_all2 prefix (bw_boxes w) boxes'" "new_handle h'"
  shows "bridge_inv cs cc i (w\<lparr>bw_handle := h', bw_boxes := boxes'\<rparr>)"
proof -
  let ?w = "w\<lparr>bw_handle := h', bw_boxes := boxes'\<rparr>"
  have "accounted i ?w e" if "accounted i w e" for e
    using that by (rule accounted_mono) (use assms(2) in auto)
  moreover have "handle_true b m h'" for b :: "'a mem_store" and m using assms(3) by (simp add: handle_true_def new_handle_def)
  ultimately show ?thesis using assms(1) unfolding bridge_inv_def by fastforce
qed

lemma bridge_step_inv: "bridge_step cs cc peel i w w' \<Longrightarrow> codec_ok cc \<Longrightarrow> bridge_inv cs cc i w \<Longrightarrow> bridge_inv cs cc i w'"
  by (induction rule: bridge_step.induct) (blast intro: catch_up_inv killed_inv commit_inv)+

text \<open>The bridge before its first catch-up.\<close>

definition bridge_start :: "'a codecs \<Rightarrow> 'a bridge_world \<Rightarrow> bool" where
  "bridge_start cs w \<longleftrightarrow> mem_inv (bw_bucket w) \<and> (\<exists>m. shows_log cs (bw_bucket w) (bw_log w) m) \<and>
     mem_view (bw_bucket w) CURSOR_KEY = None \<and> new_handle (bw_handle w)"

lemma bridge_run_inv:
  "(bridge_step cs cc peel i)\<^sup>*\<^sup>* w w' \<Longrightarrow> codec_ok cc \<Longrightarrow> bridge_start cs w \<Longrightarrow> bridge_inv cs cc i w'"
proof (induction rule: rtranclp_induct)
  case base
  then show ?case by (auto simp: bridge_start_def bridge_inv_def handle_true_def new_handle_def cursor_of_def)
next
  case (step y z)
  then show ?case using bridge_step_inv by blast
qed

text \<open>
  C7. The cursor passes no event in silence: whatever the bridge, its sinks and the writers of the repository do, every event of a
  committed entry up to the cursor was accepted by every sink, unless the entry lies in a range that a catch-up reported as a
  gap or that precedes the first cursor.
\<close>

theorem events_reach_every_sink:
  assumes "(bridge_step cs cc peel i)\<^sup>*\<^sup>* w w'" "codec_ok cc" "bridge_start cs w"
    and "cursor_of cc (bw_bucket w') = Some n" "e \<in> set (bw_log w')" "seq e \<le> n" "ev \<in> set (entry_events i e)" "box \<in> set (bw_boxes w')"
  shows "ev \<in> set box \<or> (\<exists>(a, c)\<in>set (bw_skipped w'). a \<le> seq e \<and> seq e \<le> c)"
  using bridge_run_inv [OF assms(1-3)] assms(4-) unfolding bridge_inv_def accounted_def by blast

text \<open>A catch-up that returns has delivered up to the head of the log, and the cursor says so.\<close>

lemma caught_up_cursor:
  assumes "bridge_inv cs cc i w" "codec_ok cc"
    and "catch_up mem_ops cs cc peel False sinks now i (bw_handle w) (bw_boxes w) (bw_bucket w) = (Ok rep, h', boxes', b')"
  shows "\<exists>m. shows_log cs (bw_bucket w) (bw_log w) m \<and> cu_head_seq rep = head_seq m \<and> cursor_of cc b' = Some (head_seq m)"
proof -
  obtain m v d where m: "mem_inv (bw_bucket w)" "shows_log cs (bw_bucket w) (bw_log w) m" "handle_true (bw_bucket w) m (bw_handle w)"
    "mem_view (bw_bucket w) MANIFEST = Some (v, d)" "decode (c_manifest cs) d = Some m"
    using assms(1) by (auto simp: bridge_inv_def shows_log_def)
  have H: "h_version (bw_handle w) = Some v \<longrightarrow> h_manifest (bw_handle w) = m" "revision (h_manifest (bw_handle w)) \<le> revision m"
    using m(3,4) by (auto simp: handle_true_def)
  from assms(3) m(1) assms(2) m(4,5) H show ?thesis
    by (cases rule: catch_up_cases) (use m(2) in \<open>auto simp: moved_cursor_def\<close>)
qed

definition wire_cursor :: "(wire, cursor) msg_codec" where
  "wire_cursor = \<lparr>encode = (\<lambda>c. [WManifest ((sample_manifest (published_seq c))\<lparr>writer := cursor_updated_at c\<rparr>)]),
     decode = (\<lambda>xs. case xs of [WManifest m] \<Rightarrow> Some \<lparr>published_seq = head_seq m, cursor_updated_at = writer m\<rparr> | _ \<Rightarrow> None)\<rparr>"

definition sample_repo :: repo_id where
  "sample_repo = \<lparr>ri_owner = ''a'', ri_name = ''b''\<rparr>"

definition sample_world :: "wire bridge_world" where
  "sample_world = \<lparr>bw_bucket = sample_bucket, bw_log = [sample_push 1 ''refs/heads/a'' (CHR ''1''), sample_push 2 ''refs/heads/b'' (CHR ''2'')],
     bw_handle = sample_handle, bw_boxes = [[]], bw_skipped = []\<rparr>"

lemma wire_cursor_ok: "codec_ok wire_cursor"
  by (simp add: codec_ok_def wire_cursor_def sample_manifest_def)

lemma sample_world_starts: "bridge_start wire_codecs sample_world"
proof -
  have "mem_inv sample_bucket" "mem_view sample_bucket CURSOR_KEY = None" by code_simp+
  moreover have "mem_view sample_bucket MANIFEST = Some (3, [WManifest (sample_manifest 2)])"
    "decode (c_manifest wire_codecs) [WManifest (sample_manifest 2)] = Some (sample_manifest 2)"
    "seg_wf wire_codecs sample_bucket (sample_manifest 2)" "CURSOR_KEY \<notin> seg_key ` set (log_segments (sample_manifest 2))"
    "all_entries wire_codecs sample_bucket (sample_manifest 2) = bw_log sample_world"
    "list_all (\<lambda>e. min_seq (sample_manifest 2) \<le> seq e \<and> seq e \<le> head_seq (sample_manifest 2)) (bw_log sample_world)"
    by code_simp+
  ultimately have "shows_log wire_codecs sample_bucket (bw_log sample_world) (sample_manifest 2)"
    unfolding shows_log_def by (auto simp: list_all_iff)
  then show ?thesis using \<open>mem_inv sample_bucket\<close> \<open>mem_view sample_bucket CURSOR_KEY = None\<close>
    by (auto simp: bridge_start_def sample_world_def new_handle_def sample_handle_def sample_manifest_def)
qed

theorem events_reach_every_sink_witness:
  "\<exists>w' ev. (bridge_step wire_codecs wire_cursor blind sample_repo)\<^sup>*\<^sup>* sample_world w' \<and> cursor_of wire_cursor (bw_bucket w') = Some 2 \<and>
     ev \<in> set (entry_events sample_repo (sample_push 1 ''refs/heads/a'' (CHR ''1''))) \<and>
     (\<forall>box\<in>set (bw_boxes w'). ev \<in> set box)"
proof -
  let ?run = "catch_up mem_ops wire_codecs wire_cursor blind False [\<lambda>_. True] ''t'' sample_repo (bw_handle sample_world) (bw_boxes sample_world)
    (bw_bucket sample_world)"
  let ?e = "sample_push 1 ''refs/heads/a'' (CHR ''1'')"
  obtain r h' boxes' b' where run: "?run = (r, h', boxes', b')" by (metis prod_cases4)
  define w' where "w' = sample_world\<lparr>bw_bucket := b', bw_handle := h', bw_boxes := boxes',
    bw_skipped := bw_skipped sample_world @ newly_skipped (cursor_of wire_cursor (bw_bucket sample_world)) r\<rparr>"
  have "bridge_step wire_codecs wire_cursor blind sample_repo sample_world w'"
    unfolding w'_def by (rule step_catch_up [OF run]) (simp add: sample_world_def)
  then have steps: "(bridge_step wire_codecs wire_cursor blind sample_repo)\<^sup>*\<^sup>* sample_world w'" by blast
  have "cursor_of wire_cursor (snd (snd (snd ?run))) = Some 2" by code_simp
  then have c: "cursor_of wire_cursor (bw_bucket w') = Some 2" unfolding run by (simp add: w'_def)
  have e: "?e \<in> set (bw_log w')" "seq ?e \<le> 2" "seq ?e = 1" by (simp_all add: w'_def sample_world_def sample_push_def sample_entry_def)
  have "entry_events sample_repo ?e \<noteq> []" by code_simp
  then obtain ev where ev: "ev \<in> set (entry_events sample_repo ?e)" by (meson hd_in_set)
  have "newly_skipped (cursor_of wire_cursor (bw_bucket sample_world)) (fst ?run) = [(0, 0)]" by code_simp
  then have sk: "bw_skipped w' = [(0, 0)]" unfolding run by (simp add: w'_def sample_world_def)
  have "ev \<in> set box" if "box \<in> set (bw_boxes w')" for box
    using events_reach_every_sink [OF steps wire_cursor_ok sample_world_starts c e(1,2) ev that] e(3) sk by simp
  then show ?thesis using steps c ev by blast
qed

section \<open>Gaps that nobody reports\<close>

text \<open>
  The log is read through a manifest that is fetched again after the one the range was computed from.  When a checkpoint folds
  the log between the two, the entries are neither delivered nor reported, and the cursor passes them.
\<close>

definition trimmed_manifest :: manifest where
  "trimmed_manifest = (sample_manifest 2)\<lparr>log_segments := [], min_seq := 3, revision := 3\<rparr>"

theorem fold_between_reads_loses_events:
  "case catch_up shared_ops wire_codecs wire_cursor blind False [\<lambda>_. True] ''t'' sample_repo (sample_synced 2 sample_refs2) [[]]
      (sample_bucket, [[], [], [OtherPut MANIFEST (Bytes [WManifest trimmed_manifest]) Overwrite]]) of
     (r, _, boxes, (b, _)) \<Rightarrow>
       r = Ok \<lparr>cu_repo = ''a/b'', cu_from_seq = 0, cu_head_seq = 2, cu_emitted = 0, cu_gap = None\<rparr> \<and>
       boxes = [[]] \<and> cursor_of wire_cursor b = Some 2"
  by code_simp

text \<open>A cursor ahead of the manifest that was read, which a second bridge may have left, is moved back.\<close>

theorem cursor_moves_back:
  "case catch_up mem_ops wire_codecs wire_cursor blind False [\<lambda>_. True] ''t'' sample_repo sample_handle [[]]
      (snd (put_bytes mem_ops sample_bucket CURSOR_KEY (encode wire_cursor \<lparr>published_seq = 7, cursor_updated_at = ''u''\<rparr>) Create)) of
     (r, _, _, b) \<Rightarrow> is_ok r \<and> cursor_of wire_cursor b = Some 2"
  by code_simp

text \<open>The keys of repositories and their manifests, and the bodies that name them.\<close>

lemma manifest_of_repo_recognised:
  assumes "validate_part (ri_owner i) = Ok ()" "validate_part (ri_name i) = Ok ()"
  shows "manifest_repo p (p @ ''repos/'' @ repo_id_display i @ ''/manifest.pb'') = Some i"
proof -
  have o: "CHR ''/'' \<notin> set (ri_owner i)" "CHR ''/'' \<notin> set (ri_name i)"
    using assms part_byte_plain by (auto simp: validate_part_ok list_all_iff)
  have "strip_prefix ''repos/'' (''repos/'' @ repo_id_display i @ ''/manifest.pb'') = Some (repo_id_display i @ ''/manifest.pb'')"
    by (rule strip_prefix_append)
  moreover have "split_once (CHR ''/'') (repo_id_display i) = Some (ri_owner i, ri_name i)"
    unfolding repo_id_display_def using split_once_append [OF o(1), of "ri_name i"] by simp
  ultimately show ?thesis using assms o(2) by (simp add: manifest_repo_def repo_id_new_def)
qed

text \<open>
  The plain shape that names a repository becomes a key without the prefix of the bucket: with a prefix configured it is
  acknowledged and ignored.
\<close>

theorem repo_notification_ignored:
  "http_notify catch ''p/'' (Ok ()) True (Ok (Ok (JObj [(''repo'', JStr ''o/r'')]))) w = (Ok (NotifyReports []), w)"
  by (simp add: http_notify_def notified_keys_def pubsub_keys_def get_str_def object_finalized_def manifest_repo_def strip_prefix_def)

text \<open>Escapes of characters outside ASCII are decoded byte by byte into two characters.\<close>

theorem escaped_prefix_not_recognised:
  "manifest_repo [CHR 0xC3, CHR 0xA9, CHR ''/''] (s3_key ''%C3%A9/repos/o/r/manifest.pb'') = None"
  by code_simp

end
