(* ===== verification/Spec2Isabelle.thy ===== *)
theory Spec2Isabelle
  imports Checkpoint Wal_Protocol Fault_Store Collab_Fold Push Fetch Bundle_Render Login Lfs Events
begin

text \<open>
  Verification of walgit, a git server whose only durable state is a bucket of objects.

  \<^bold>\<open>The program.\<close>  A repository is a prefix of the bucket.  Its truth is one small object, the
  manifest, replaced by compare-and-swap; it lists the segments of a write-ahead log (create-only
  objects, each a sequence of framed entries), the packs and the latest checkpoint.  A push is
  verified against the manifest's refs, gets a slot in the log, and is committed by the manifest
  CAS; servers and clients replay the log into a local copy of the refs.  Checkpoints fold the refs
  into a snapshot and trim the log.  Leases in the bucket keep maintenance to one instance.  On top
  of plain git refs the program runs a collaboration protocol: signed entries in per-principal
  inboxes from which every client computes threads, pull requests, boards and CI runs.

  \<^bold>\<open>The theories, from the bottom.\<close>

  \<^item> \<open>Prelude\<close>: results, lists, string order, ordered maps and decimal digits used by all others.
  \<^item> \<open>Object_Store\<close> (\<^verbatim>\<open>walgit-store/src/lib.rs\<close>, \<^verbatim>\<open>memory.rs\<close>, \<^verbatim>\<open>util.rs\<close>): the store trait as a
    record of operations over an explicit state, the in-memory backend, the prefixing wrapper,
    \<open>collect\<close>, \<open>retry\<close> and path encoding.  The locale \<open>object_store\<close> is the contract clients rely on
    (atomic conditional writes, versions that identify bodies, interference only where other clients
    may act); it is interpreted on the in-memory backend, on a bucket shared with other clients, on
    prefixed views and on faulty links.
  \<^item> \<open>Fault_Store\<close> (\<^verbatim>\<open>fault.rs\<close>): the fault-injecting link with its seeded dice, at 64-bit width;
    what each outcome of an operation says about the bucket behind it.
  \<^item> \<open>Coord\<close> (\<^verbatim>\<open>coord.rs\<close>): \<open>cas_update\<close> as an atomic read-modify-write for any store of the
    locale; leases as a step relation of many clients, with mutual exclusion.
  \<^item> \<open>Wal_Format\<close> (\<^verbatim>\<open>walgit-proto\<close>): messages, keys, frames, timestamps.  The protobuf codec is a
    parameter with a round-trip hypothesis.
  \<^item> \<open>Git_Refs\<close> (\<^verbatim>\<open>walgit-git/src/lib.rs\<close>): validation of names and oids, snapshots, the overlay
    view, packed-refs, the three ways to apply ref transactions and their agreement, ls-refs.
  \<^item> \<open>Wal_Sync\<close> (\<^verbatim>\<open>walgit-wal/src/sync.rs\<close>, \<^verbatim>\<open>log_reader.rs\<close>, \<^verbatim>\<open>handle.rs\<close>): the freshness check,
    replay of the log, rebuilds, historical reads; all of them are the same fold of the log.
  \<^item> \<open>Wal_Publish\<close> and \<open>Wal_Commit\<close> (\<^verbatim>\<open>publish.rs\<close>): slot claim, verification of a batch, the three
    publishers (push, compaction, settings) and annotation; a committed push and its replay agree.
  \<^item> \<open>Wal_Protocol\<close> (\<^verbatim>\<open>publish.rs\<close>): the commit protocol as a step relation of any number of writers
    with lost answers, ambiguous outcomes and crashes.  The locale \<open>publisher\<close> holds what the three
    publishers share and is interpreted for each of them.  The committed log refines an append-only
    list and an acknowledged batch stays in it.
  \<^item> \<open>Checkpoint\<close> (\<^verbatim>\<open>checkpoint.rs\<close>): the triggers, the writer and its retry loop.
  \<^item> \<open>Collab\<close> (\<^verbatim>\<open>walgit-wal/src/collab.rs\<close>): entries, canonical form, signatures, threads, pull
    requests and merge rules.
  \<^item> \<open>Ci\<close> (\<^verbatim>\<open>ci.rs\<close>): run identities, claims, results, the view of a run and the decision of a runner.
  \<^item> \<open>Collab_Board\<close> (\<^verbatim>\<open>collab.rs\<close>): report and board, independent of the order of reading.
  \<^item> \<open>Collab_Fold\<close> (\<^verbatim>\<open>collab.rs\<close>, \<^verbatim>\<open>walgit-cli/src/collab_cmd.rs\<close>): snapshots of the inbox and the
    garbage collection that no reader can observe.

  \<^item> \<open>Pkt\<close> (\<^verbatim>\<open>walgit-git/src/pkt.rs\<close>, \<^verbatim>\<open>walgit-server/src/pktline.rs\<close>): pkt-lines read from a stream that
    arrives in any pieces, the sideband, the commands of protocol version 2.
  \<^item> \<open>Receive\<close> (\<^verbatim>\<open>receive.rs\<close>): the request of a push and its report, each read back by the other side.
  \<^item> \<open>Policy\<close> (\<^verbatim>\<open>walgit-server/src/policy.rs\<close>): policy documents, globs and rosters against their
    specifications, evaluation as the most restrictive reading of all rules.
  \<^item> \<open>Push\<close> (\<^verbatim>\<open>walgit-server/src/smart.rs\<close>): the processing of a push between the wire, the policy and the
    publisher; what it changes is what the policy permits.
  \<^item> \<open>Fetch\<close> (\<^verbatim>\<open>smart.rs\<close>, \<^verbatim>\<open>walgit-git/src/lib.rs\<close>): requests of a fetch, parsed and handed to git unchanged.
  \<^item> \<open>Bundle_Slots\<close> (\<^verbatim>\<open>walgit-bundle/src/schedule.rs\<close>, \<^verbatim>\<open>slots.rs\<close>, \<^verbatim>\<open>walgit-config/src/lib.rs\<close>): calendar slots of
    the bundle strategies, the check of their configuration and the plan of what has to be cut.
  \<^item> \<open>Bundle_Retention\<close> (\<^verbatim>\<open>slots.rs\<close>): which bundles stay listed.
  \<^item> \<open>Sole_Client\<close>: a locale extending \<open>object_store\<close> for prefixes that one client at a time writes, interpreted on the
    in-memory backend and on a prefixed faulty link.
  \<^item> \<open>Bundle_List\<close> (\<^verbatim>\<open>walgit-bundle/src/ops.rs\<close>): the selection of refs, the list of bundles and its update, verdicts on
    skipped slots, the leases of strategies.
  \<^item> \<open>Bundle_Build\<close> (\<^verbatim>\<open>ops.rs\<close>, \<^verbatim>\<open>walgit-bundle/src/lib.rs\<close>, \<^verbatim>\<open>walgit-server/src/bundles.rs\<close>): writing, uploading and
    composing bundles, the build of a slot, the scheduled run; every listed bundle has its object.
  \<^item> \<open>Bundle_Render\<close> (\<^verbatim>\<open>render.rs\<close>): the list as clients read it.
  \<^item> \<open>Http\<close> (\<^verbatim>\<open>walgit-server/src/error.rs\<close>, \<^verbatim>\<open>repo.rs\<close>, \<^verbatim>\<open>smart.rs\<close>): headers, errors as responses, the repository in
    a path, the address the server is known by.
  \<^item> \<open>Auth\<close> (\<^verbatim>\<open>auth.rs\<close>): who a request is from.  Credentials in headers, configured tokens, the cache of the issuer's keys,
    values signed with the server's secret, forwarded names and the checks of the routes; whoever writes has shown a
    credential.
  \<^item> \<open>Login\<close> (\<^verbatim>\<open>web/login.rs\<close>): sign-in with the issuer, sessions, their renewal and the minting of tokens; what is signed
    for one purpose does not serve another.
  \<^item> \<open>Serve\<close> (\<^verbatim>\<open>static_object.rs\<close>, \<^verbatim>\<open>bundles.rs\<close>, \<^verbatim>\<open>cache.rs\<close>, \<^verbatim>\<open>smart.rs\<close>): objects over HTTP with ranges and
    validators, the handlers of bundles, the ration of clones without bundles.
  \<^item> \<open>Lfs\<close> (\<^verbatim>\<open>lfs.rs\<close>, \<^verbatim>\<open>lfs_upstream.rs\<close>): large files; the requests form a step relation over a \<open>sole_client\<close> whose
    invariant is that stored objects hash to their ids.
  \<^item> \<open>Events\<close> (\<^verbatim>\<open>events.rs\<close>, \<^verbatim>\<open>bridge.rs\<close>): log entries as events of refs and the bridge that delivers them behind a
    cursor in the bucket; a run relation with writers, trims of the log, refused deliveries and crashes shows that the cursor
    passes no event in silence.

  \<^bold>\<open>How code becomes definitions.\<close>  Structures are records and enums datatypes with the source's
  names; an asynchronous operation takes the state and returns the new one with a \<open>result\<close>, every
  early return being an \<open>Err\<close> branch.  Strings and bodies are lists of bytes.  Sequence numbers and
  counters are natural numbers where the code checks or where \<open>2 ^ 64\<close> steps are out of reach, words
  where the code wraps (the dice of the fault plan, FNV-1a).  Time is an argument.

  \<^bold>\<open>Loops and bounds.\<close>  Structural loops are recursion over the list.  The retry loops of the
  publishers and of the checkpoint carry the attempt bound of the source, \<open>cas_update\<close> the number of
  attempts its caller passes.  The claim of a log slot loops until a slot is free: it has fuel, and
  \<open>claim_log_slot_returns\<close> shows that fuel above the number of objects always suffices.  The
  thread order keeps the shrinking pass bound of the source, whose effect is one of the findings.
  \<open>view_get\<close> is an option with a theorem saying when it is defined.  The loops over pkt-lines end because every line
  consumes bytes, the glob matcher because pattern or text shrink, the roster search because the set
  of entered groups grows; these are termination proofs of the functions.  The walk up the chain of bundle strategies is
  a partial function, and \<open>plan_returns\<close> shows that it ends for every configuration that passed its check.

  \<^bold>\<open>Parameters.\<close>  The protobuf codec, Ed25519, base64, JSON parsing and string escaping, object
  hashes, the peeling of tags, cron schedules, the git and gix commands that write bundles, digests, time stamps in object
  names, the signing of addresses, HMAC, base64url, the JWT library, the answers of the issuer and of an LFS upstream, the sinks of events and the
  spool on disk are arguments; what is assumed of them is a hypothesis of the theorem
  that needs it, with a witness on a concrete function.

  \<^bold>\<open>Not modelled.\<close>  Cloud backends (\<^verbatim>\<open>s3.rs\<close>, \<^verbatim>\<open>gcs.rs\<close>): clients of services outside the repository.
  Object storage, index-pack, upload-pack, repack and connectivity: child processes and gix.  Routing and
  streaming of requests, the JSON and HTML of the web interface, the command line, the parsing of the configuration,
  background schedules of the server, telemetry and set-up: glue around the parts above.
\<close>

end
